(* ===== verification/Swap_Prelude.thy ===== *)
theory Swap_Prelude
  imports Main "HOL-Library.Word" "HOL-Library.State_Monad"
begin

text \<open>
  What every theory of the library shares: the machine integers of the Rust and Solidity
  sources, the results of fallible code (\<open>Ok\<close>, \<open>Err\<close> and a Rust panic), saturating
  arithmetic, little- and big-endian byte encodings with their round trips, and the small
  monadic vocabulary (the \<open>?\<close> operator over an awaited result) in which the client and
  orchestration code is translated.
\<close>

section \<open>Machine integers and fixed-size byte arrays\<close>

type_synonym u8 = "8 word"
type_synonym u32 = "32 word"
type_synonym u64 = "64 word"
type_synonym u128 = "128 word"
type_synonym u256 = "256 word"
type_synonym address = "160 word"

text \<open>
  A Rust \<open>[u8; 32]\<close>, an \<open>AccountId\<close>, a Solidity \<open>bytes32\<close> and an alloy
  \<open>FixedBytes<32>\<close> are byte lists; that they hold 32 bytes is the predicate \<open>is_bytes32\<close>,
  which the theorems that need it name as a hypothesis.
\<close>

type_synonym bytes = "u8 list"
type_synonym bytes32 = "u8 list"
type_synonym account_id = bytes32

definition is_bytes32 :: "bytes \<Rightarrow> bool" where
  "is_bytes32 b \<longleftrightarrow> length b = 32"

definition zero32 :: bytes32 where
  "zero32 = replicate 32 0"

lemma is_bytes32_zero32 [simp]: "is_bytes32 zero32"
  by (simp add: is_bytes32_def zero32_def)

section \<open>Collections of facts\<close>

named_theorems codec_simps \<open>lengths and projections of byte encodings\<close>
named_theorems run_simps \<open>running the state-passing operations\<close>

section \<open>Results\<close>

text \<open>
  A Rust function returns \<open>Ok\<close> or \<open>Err\<close>, or it panics (a failed \<open>assert!\<close>, an
  \<open>unwrap\<close>, an explicit \<open>panic!\<close>); the message of the panic is kept. An \<open>async\<close> function whose
  loop has not finished after the number of rounds it was given is \<open>Pending\<close>.
\<close>

datatype ('e, 'a) res = Ok 'a | Err 'e | Panic string | Pending

fun is_Ok :: "('e, 'a) res \<Rightarrow> bool" where
  "is_Ok (Ok _) = True"
| "is_Ok _ = False"

lemma is_Ok_iff: "is_Ok r \<longleftrightarrow> (\<exists>a. r = Ok a)"
  by (cases r) auto

fun res_bind :: "('e, 'a) res \<Rightarrow> ('a \<Rightarrow> ('e, 'b) res) \<Rightarrow> ('e, 'b) res" where
  "res_bind (Ok a) f = f a"
| "res_bind (Err e) f = Err e"
| "res_bind (Panic m) f = Panic m"
| "res_bind Pending f = Pending"

lemma res_bind_Ok_iff: "res_bind r f = Ok b \<longleftrightarrow> (\<exists>a. r = Ok a \<and> f a = Ok b)"
  by (cases r) auto

text \<open>\<open>assert!(b, msg)\<close> in code whose only failure is a panic: \<open>Inl msg\<close> is the panic.\<close>

type_synonym 'a checked = "string + 'a"

definition assert_or :: "bool \<Rightarrow> string \<Rightarrow> 'a checked \<Rightarrow> 'a checked" where
  "assert_or b msg k = (if b then k else Inl msg)"

lemma assert_or_Inr_iff [simp]: "assert_or b msg k = Inr a \<longleftrightarrow> b \<and> k = Inr a"
  by (auto simp: assert_or_def)

lemma assert_or_True [simp]: "assert_or True msg k = k"
  by (simp add: assert_or_def)

lemma assert_or_False [simp]: "assert_or False msg k = Inl msg"
  by (simp add: assert_or_def)

text \<open>A panic of a callee unwinds through its caller.\<close>

lemma checked_bind_Inr_iff:
  "case_sum Inl f c = Inr y \<longleftrightarrow> (\<exists>x. c = Inr x \<and> f x = Inr y)"
  by (cases c) auto

fun of_checked :: "'a checked \<Rightarrow> ('e, 'a) res" where
  "of_checked (Inl msg) = Panic msg"
| "of_checked (Inr a) = Ok a"

lemma of_checked_Ok_iff [simp]: "of_checked c = Ok a \<longleftrightarrow> c = Inr a"
  by (cases c) auto

lemma of_checked_not_Err [simp]: "of_checked c \<noteq> Err e"
  by (cases c) auto

section \<open>State passing\<close>

text \<open>
  Code that talks to a chain, a clock or a file threads a world \<open>'w\<close>; an awaited fallible
  call followed by \<open>?\<close> is \<open>tryM\<close>: an \<open>Err\<close> returns early, a panic unwinds.
\<close>

abbreviation ret :: "'a \<Rightarrow> ('w, 'a) state" where
  "ret \<equiv> State_Monad.return"

definition tryM ::
  "('w, ('e, 'a) res) state \<Rightarrow> ('a \<Rightarrow> ('w, ('e, 'b) res) state) \<Rightarrow> ('w, ('e, 'b) res) state" where
  "tryM m f = do {
     r \<leftarrow> m;
     (case r of Ok a \<Rightarrow> f a | Err e \<Rightarrow> ret (Err e) | Panic p \<Rightarrow> ret (Panic p) | Pending \<Rightarrow> ret Pending) }"

lemma run_tryM [run_simps]:
  "run_state (tryM m f) w =
     (case run_state m w of
        (Ok a, w') \<Rightarrow> run_state (f a) w'
      | (Err e, w') \<Rightarrow> (Err e, w')
      | (Panic p, w') \<Rightarrow> (Panic p, w')
      | (Pending, w') \<Rightarrow> (Pending, w'))"
  by (auto simp: tryM_def split: prod.splits res.splits)

text \<open>A read of the state and a change of it.\<close>

definition gets :: "('w \<Rightarrow> 'a) \<Rightarrow> ('w, 'a) state" where
  "gets f = State (\<lambda>w. (f w, w))"

definition modify :: "('w \<Rightarrow> 'w) \<Rightarrow> ('w, unit) state" where
  "modify f = State (\<lambda>w. ((), f w))"

lemma run_gets [simp, run_simps]: "run_state (gets f) w = (f w, w)"
  by (simp add: gets_def)

lemma run_modify [simp, run_simps]: "run_state (modify f) w = ((), f w)"
  by (simp add: modify_def)

lemma case_prod_run [run_simps]:
  "run_state (case p of (a, b) \<Rightarrow> f a b) w = (case p of (a, b) \<Rightarrow> run_state (f a b) w)"
  by (cases p) simp

section \<open>Saturating arithmetic\<close>

definition sat_add :: "'a::len word \<Rightarrow> 'a word \<Rightarrow> 'a word" where
  "sat_add a b = (if unat a + unat b < 2 ^ LENGTH('a) then a + b else - 1)"

definition sat_sub :: "'a::len word \<Rightarrow> 'a word \<Rightarrow> 'a word" where
  "sat_sub a b = (if a \<le> b then 0 else a - b)"

lemma unat_minus_one_word_max: "unat (- 1 :: 'a::len word) = 2 ^ LENGTH('a) - 1"
  by (simp add: unsigned_minus_1_eq_mask mask_eq_exp_minus_1)

lemma unat_sat_add:
  "unat (sat_add a b) = min (unat a + unat b) (2 ^ LENGTH('a) - 1)"
  for a b :: "'a::len word"
  by (auto simp: sat_add_def unat_word_ariths unat_minus_one_word_max min_def)

lemma unat_sat_sub: "unat (sat_sub a b) = unat a - unat b"
  by (auto simp: sat_sub_def word_le_nat_alt unat_sub_if')

lemma sat_add_mono: "a \<le> a' \<Longrightarrow> sat_add a b \<le> sat_add a' b"
  by (simp add: word_le_nat_alt unat_sat_add min_def)

lemma unat_less_pow: "unat a < 2 ^ LENGTH('a)" for a :: "'a::len word"
  by (rule unsigned_less)

lemma sat_add_ge: "a \<le> sat_add a b"
  unfolding word_le_nat_alt unat_sat_add using unat_less_pow [of a] by linarith

lemma unat_succ: "w \<noteq> - 1 \<Longrightarrow> unat (w + 1) = Suc (unat w)" for w :: "'a::len word"
proof -
  assume "w \<noteq> - 1"
  then have "unat w \<noteq> unat (- 1 :: 'a word)" by (simp only: word_unat_eq_iff not_False_eq_True)
  then have "Suc (unat w) < 2 ^ LENGTH('a)" using unat_less_pow [of w] unfolding unat_minus_one_word_max by linarith
  then show ?thesis by (simp add: unat_word_ariths)
qed

section \<open>Little- and big-endian encodings\<close>

fun le_bytes :: "nat \<Rightarrow> 'a::len word \<Rightarrow> bytes" where
  "le_bytes 0 w = []"
| "le_bytes (Suc n) w = ucast w # le_bytes n (drop_bit 8 w)"

fun of_le_bytes :: "bytes \<Rightarrow> 'a::len word" where
  "of_le_bytes [] = 0"
| "of_le_bytes (b # bs) = or (ucast b) (push_bit 8 (of_le_bytes bs))"

definition be_bytes :: "nat \<Rightarrow> 'a::len word \<Rightarrow> bytes" where
  "be_bytes n w = rev (le_bytes n w)"

lemma length_le_bytes [simp, codec_simps]: "length (le_bytes n w) = n"
  by (induction n arbitrary: w) auto

lemma length_be_bytes [simp, codec_simps]: "length (be_bytes n w) = n"
  by (simp add: be_bytes_def)

lemma of_le_bytes_le_bytes_take: "of_le_bytes (le_bytes n w) = take_bit (8 * n) w"
proof (induction n arbitrary: w)
  case 0
  then show ?case by simp
next
  case (Suc n)
  show ?case
  proof (rule bit_eqI)
    fix i
    assume "possible_bit TYPE('a word) i"
    then have i: "i < LENGTH('a)" by simp
    show "bit (of_le_bytes (le_bytes (Suc n) w) :: 'a word) i = bit (take_bit (8 * Suc n) w) i"
      using i by (auto simp: Suc bit_simps not_less)
  qed
qed

lemma of_le_bytes_le_bytes:
  "LENGTH('a) \<le> 8 * n \<Longrightarrow> of_le_bytes (le_bytes n w) = w" for w :: "'a::len word"
  by (simp add: of_le_bytes_le_bytes_take take_bit_word_eq_self)

lemma le_bytes_inject:
  "LENGTH('a) \<le> 8 * n \<Longrightarrow> le_bytes n v = le_bytes n w \<longleftrightarrow> v = w" for v w :: "'a::len word"
  by (metis of_le_bytes_le_bytes)

lemma be_bytes_inject:
  "LENGTH('a) \<le> 8 * n \<Longrightarrow> be_bytes n v = be_bytes n w \<longleftrightarrow> v = w" for v w :: "'a::len word"
  by (simp add: be_bytes_def le_bytes_inject)

lemma le_bytes_cong:
  "(\<And>i. i < 8 * n \<Longrightarrow> bit v i = bit w i) \<Longrightarrow> le_bytes n v = le_bytes n w"
proof (induction n arbitrary: v w)
  case 0
  then show ?case by simp
next
  case (Suc n)
  have "ucast v = (ucast w :: u8)"
    using Suc.prems by (intro bit_eqI) (auto simp: bit_simps)
  moreover have "le_bytes n (drop_bit 8 v) = le_bytes n (drop_bit 8 w)"
    by (rule Suc.IH) (use Suc.prems in \<open>auto simp: bit_simps\<close>)
  ultimately show ?case by simp
qed

lemma le_bytes_of_le_bytes:
  "length bs = n \<Longrightarrow> 8 * n \<le> LENGTH('a) \<Longrightarrow> le_bytes n (of_le_bytes bs :: 'a::len word) = bs"
proof (induction bs arbitrary: n)
  case Nil
  then show ?case by simp
next
  case (Cons b bs)
  then obtain m where n: "n = Suc m" by (cases n) auto
  let ?x = "of_le_bytes bs :: 'a word"
  have "ucast (or (ucast b) (push_bit 8 ?x)) = b"
    using Cons.prems n by (intro bit_eqI) (auto simp: bit_simps)
  moreover have "le_bytes m (drop_bit 8 (or (ucast b) (push_bit 8 ?x))) = le_bytes m ?x"
    by (rule le_bytes_cong) (use Cons.prems n in \<open>auto simp: bit_simps dest: bit_imp_le_length\<close>)
  moreover have "le_bytes m ?x = bs"
    using Cons n by simp
  ultimately show ?case by (simp add: n)
qed

section \<open>Lists\<close>

text \<open>\<open>range_of i j xs\<close> is the Rust \<open>&xs[i..j]\<close> for \<open>i \<le> j \<le> xs.len()\<close>.\<close>

definition range_of :: "nat \<Rightarrow> nat \<Rightarrow> 'a list \<Rightarrow> 'a list" where
  "range_of i j xs = take (j - i) (drop i xs)"

lemma length_range_of [codec_simps]: "j \<le> length xs \<Longrightarrow> length (range_of i j xs) = j - i"
  by (simp add: range_of_def)

lemma range_of_append_left [codec_simps]:
  "j \<le> length xs \<Longrightarrow> range_of i j (xs @ ys) = range_of i j xs"
  by (simp add: range_of_def)

lemma range_of_append_right [codec_simps]:
  "length xs \<le> i \<Longrightarrow> range_of i j (xs @ ys) = range_of (i - length xs) (j - length xs) ys"
  by (simp add: range_of_def)

lemma range_of_all [codec_simps]: "length xs = n \<Longrightarrow> range_of 0 n xs = xs"
  by (simp add: range_of_def)

lemma range_of_0: "range_of 0 n xs = take n xs"
  by (simp add: range_of_def)

lemma range_of_split: "i \<le> j \<Longrightarrow> j \<le> k \<Longrightarrow> range_of i j xs @ range_of j k xs = range_of i k xs"
proof -
  assume "i \<le> j" "j \<le> k"
  then obtain a b where ab: "j = i + a" "k = i + a + b"
    by (metis le_Suc_ex)
  show ?thesis by (simp add: ab range_of_def take_add add.commute)
qed

lemma range_of_split':
  "i \<le> j \<Longrightarrow> j \<le> k \<Longrightarrow> range_of i j xs @ range_of j k xs @ ys = range_of i k xs @ ys"
  by (simp flip: append_assoc add: range_of_split)

lemma append_eq_same_length:
  "length xs = length ys \<Longrightarrow> xs @ us = ys @ vs \<longleftrightarrow> xs = ys \<and> us = vs"
  by simp

lemma list_all_filter_id: "list_all P xs \<Longrightarrow> filter P xs = xs"
  by (induction xs) auto

end
