(* ===== verification/Escrow_Codec.thy ===== *)
theory Escrow_Codec
  imports Swap_Prelude
begin

text \<open>
  The data of the LEZ escrow account and its byte format:
  \<open>programs/lez-htlc/methods/guest/src/lib.rs\<close>. The record and the state enum are the
  source's; \<open>to_bytes\<close> and \<open>from_bytes\<close> are the encoder and the decoder, with every
  \<open>assert!\<close>, \<open>expect\<close> and \<open>panic!\<close> of the decoder as a branch. The theorems are the round
  trip in both directions and the exact set of inputs on which the decoder panics.
\<close>

section \<open>Escrow data\<close>

datatype htlc_state = Locked | Claimed | Refunded

datatype htlc_instruction =
    LockInstr bytes32 account_id u128 u64
  | ClaimInstr bytes
  | RefundInstr

record htlc_escrow =
  esc_hashlock :: bytes32
  esc_maker_id :: account_id
  esc_taker_id :: account_id
  esc_amount :: u128
  esc_state :: htlc_state
  esc_timelock :: u64
  esc_preimage :: "bytes option"

text \<open>The \<open>repr(u8)\<close> discriminants and the decoder's match on them.\<close>

fun state_byte :: "htlc_state \<Rightarrow> u8" where
  "state_byte Locked = 0"
| "state_byte Claimed = 1"
| "state_byte Refunded = 2"

definition state_of_byte :: "u8 \<Rightarrow> htlc_state checked" where
  "state_of_byte b =
     (if b = 0 then Inr Locked
      else if b = 1 then Inr Claimed
      else if b = 2 then Inr Refunded
      else Inl ''invalid escrow state'')"

lemma state_of_byte_state_byte [simp]: "state_of_byte (state_byte s) = Inr s"
  by (cases s) (simp_all add: state_of_byte_def)

lemma state_byte_inject [simp]: "state_byte s = state_byte t \<longleftrightarrow> s = t"
  by (cases s; cases t) simp_all

lemma state_of_byte_Inr_iff: "state_of_byte b = Inr s \<longleftrightarrow> b = state_byte s"
  by (cases s) (auto simp: state_of_byte_def)

section \<open>Encoder and decoder\<close>

definition preimage_bytes :: "bytes option \<Rightarrow> bytes" where
  "preimage_bytes po =
     (case po of
        Some p \<Rightarrow> le_bytes 4 (of_nat (length p) :: u32) @ p
      | None \<Rightarrow> le_bytes 4 (0 :: u32))"

definition to_bytes :: "htlc_escrow \<Rightarrow> bytes" where
  "to_bytes e =
     esc_hashlock e @ esc_maker_id e @ esc_taker_id e @
     le_bytes 16 (esc_amount e) @ [state_byte (esc_state e)] @
     le_bytes 8 (esc_timelock e) @ preimage_bytes (esc_preimage e)"

text \<open>
  The decoder runs on the host (64-bit \<open>usize\<close>) and in the zkVM guest (32-bit \<open>usize\<close>);
  the only difference is where \<open>125usize.checked_add(preimage_len)\<close> overflows, so the width
  is a parameter.
\<close>

definition preimage_len :: "bytes \<Rightarrow> nat" where
  "preimage_len data = unat (of_le_bytes (range_of 121 125 data) :: u32)"

definition decode_preimage :: "nat \<Rightarrow> bytes \<Rightarrow> bytes option checked" where
  "decode_preimage usize_bits data =
     (if preimage_len data > 0 then
        let required = 125 + preimage_len data in
        assert_or (required < 2 ^ usize_bits) ''preimage length overflow''
          (assert_or (required \<le> length data) ''escrow data truncated: expected preimage''
             (Inr (Some (range_of 125 required data))))
      else Inr None)"

definition from_bytes :: "nat \<Rightarrow> bytes \<Rightarrow> htlc_escrow checked" where
  "from_bytes usize_bits data =
     assert_or (125 \<le> length data) ''escrow data too short''
       (case state_of_byte (data ! 112) of
          Inl m \<Rightarrow> Inl m
        | Inr st \<Rightarrow>
            (case decode_preimage usize_bits data of
               Inl m \<Rightarrow> Inl m
             | Inr po \<Rightarrow>
                 Inr \<lparr> esc_hashlock = range_of 0 32 data,
                       esc_maker_id = range_of 32 64 data,
                       esc_taker_id = range_of 64 96 data,
                       esc_amount = of_le_bytes (range_of 96 112 data),
                       esc_state = st,
                       esc_timelock = of_le_bytes (range_of 113 121 data),
                       esc_preimage = po \<rparr>))"

section \<open>Well-formed escrows\<close>

text \<open>
  What the Rust types guarantee of every escrow value (32-byte arrays), and what an escrow
  needs to survive the encoding: its preimage, if present, is not empty and its length fits
  the \<open>u32\<close> prefix.
\<close>

definition wf_escrow :: "htlc_escrow \<Rightarrow> bool" where
  "wf_escrow e \<longleftrightarrow>
     is_bytes32 (esc_hashlock e) \<and> is_bytes32 (esc_maker_id e) \<and> is_bytes32 (esc_taker_id e)"

definition encodable :: "htlc_escrow \<Rightarrow> bool" where
  "encodable e \<longleftrightarrow> wf_escrow e \<and>
     (case esc_preimage e of None \<Rightarrow> True | Some p \<Rightarrow> p \<noteq> [] \<and> 125 + length p < 2 ^ 32)"

lemma length_preimage_bytes [codec_simps]:
  "length (preimage_bytes po) = 4 + (case po of None \<Rightarrow> 0 | Some p \<Rightarrow> length p)"
  by (simp add: preimage_bytes_def split: option.splits)

lemma length_to_bytes [codec_simps]:
  "wf_escrow e \<Longrightarrow>
   length (to_bytes e) = 125 + (case esc_preimage e of None \<Rightarrow> 0 | Some p \<Rightarrow> length p)"
  by (simp add: to_bytes_def wf_escrow_def is_bytes32_def length_preimage_bytes)

text \<open>The fields of an encoded escrow, read back at the decoder's offsets.\<close>

lemma to_bytes_fields:
  assumes "wf_escrow e"
  shows "range_of 0 32 (to_bytes e) = esc_hashlock e"
    and "range_of 32 64 (to_bytes e) = esc_maker_id e"
    and "range_of 64 96 (to_bytes e) = esc_taker_id e"
    and "range_of 96 112 (to_bytes e) = le_bytes 16 (esc_amount e)"
    and "to_bytes e ! 112 = state_byte (esc_state e)"
    and "range_of 113 121 (to_bytes e) = le_bytes 8 (esc_timelock e)"
    and "range_of 121 125 (to_bytes e) = take 4 (preimage_bytes (esc_preimage e))"
    and "drop 125 (to_bytes e) = drop 4 (preimage_bytes (esc_preimage e))"
  using assms
  by (auto simp: to_bytes_def wf_escrow_def is_bytes32_def range_of_def nth_append)

lemma preimage_len_to_bytes:
  assumes "encodable e"
  shows "preimage_len (to_bytes e) = (case esc_preimage e of None \<Rightarrow> 0 | Some p \<Rightarrow> length p)"
proof (cases "esc_preimage e")
  case None
  with assms show ?thesis
    by (simp add: preimage_len_def to_bytes_fields encodable_def preimage_bytes_def
        of_le_bytes_le_bytes)
next
  case (Some p)
  with assms have "length p < 2 ^ 32" by (simp add: encodable_def)
  with assms Some show ?thesis
    by (simp add: preimage_len_def to_bytes_fields encodable_def preimage_bytes_def
        of_le_bytes_le_bytes unat_of_nat take_bit_nat_eq_self)
qed

lemma decode_preimage_to_bytes:
  assumes "encodable e" "32 \<le> n"
  shows "decode_preimage n (to_bytes e) = Inr (esc_preimage e)"
proof (cases "esc_preimage e")
  case None
  with assms show ?thesis by (simp add: decode_preimage_def preimage_len_to_bytes)
next
  case (Some p)
  have "(2::nat) ^ 32 \<le> 2 ^ n" using assms(2) by (intro power_increasing) auto
  moreover have "range_of 125 (125 + length p) (to_bytes e) = p"
    using assms(1) Some
    by (simp add: range_of_def to_bytes_fields encodable_def preimage_bytes_def)
  ultimately show ?thesis using assms(1) Some
    by (simp add: decode_preimage_def preimage_len_to_bytes Let_def length_to_bytes encodable_def)
qed

lemma from_bytes_to_bytes:
  assumes "encodable e" "32 \<le> n"
  shows "from_bytes n (to_bytes e) = Inr e"
proof -
  from assms have wf: "wf_escrow e" by (simp add: encodable_def)
  have "125 \<le> length (to_bytes e)" using wf by (simp add: length_to_bytes)
  then show ?thesis using assms wf
    by (simp add: from_bytes_def decode_preimage_to_bytes to_bytes_fields of_le_bytes_le_bytes)
qed

section \<open>What the decoder accepts\<close>

lemma from_bytes_Inr_iff:
  "from_bytes n d = Inr e \<longleftrightarrow>
     125 \<le> length d \<and> d ! 112 = state_byte (esc_state e) \<and>
     decode_preimage n d = Inr (esc_preimage e) \<and>
     esc_hashlock e = range_of 0 32 d \<and> esc_maker_id e = range_of 32 64 d \<and>
     esc_taker_id e = range_of 64 96 d \<and> esc_amount e = of_le_bytes (range_of 96 112 d) \<and>
     esc_timelock e = of_le_bytes (range_of 113 121 d)"
  by (cases e) (auto simp: from_bytes_def state_of_byte_Inr_iff split: sum.splits)

lemma from_bytes_wf: "from_bytes n d = Inr e \<Longrightarrow> wf_escrow e"
  by (auto simp: from_bytes_Inr_iff wf_escrow_def is_bytes32_def length_range_of)

text \<open>
  A decoded escrow re-encodes to the bytes that were read: the decoder loses nothing and
  nothing it ignores is before the end of the preimage.
\<close>

lemma header_ranges:
  assumes "125 \<le> length d"
  shows "range_of 0 32 d @ range_of 32 64 d @ range_of 64 96 d @ range_of 96 112 d @
    [d ! 112] @ range_of 113 121 d @ ys = range_of 0 121 d @ ys"
proof -
  have "[d ! 112] = range_of 112 113 d"
    using assms by (simp add: range_of_def take_Suc hd_drop_conv_nth)
  then show ?thesis by (simp add: range_of_split')
qed

lemma preimage_bytes_decoded:
  assumes "decode_preimage n d = Inr po" "125 \<le> length d"
  shows "preimage_bytes po = range_of 121 (125 + preimage_len d) d"
proof (cases "preimage_len d > 0")
  case True
  have len: "of_nat (preimage_len d) = (of_le_bytes (range_of 121 125 d) :: u32)"
    by (simp add: preimage_len_def)
  from True assms have po: "po = Some (range_of 125 (125 + preimage_len d) d)"
      and req: "125 + preimage_len d \<le> length d"
    by (auto simp: decode_preimage_def Let_def)
  have "preimage_bytes po = range_of 121 125 d @ range_of 125 (125 + preimage_len d) d"
    using req assms(2)
    by (simp add: po preimage_bytes_def length_range_of len le_bytes_of_le_bytes)
  then show ?thesis by (simp add: range_of_split)
next
  case False
  then have "(of_le_bytes (range_of 121 125 d) :: u32) = 0"
    by (simp add: preimage_len_def unat_eq_0)
  then have "le_bytes 4 (0 :: u32) = range_of 121 125 d"
    using le_bytes_of_le_bytes [of "range_of 121 125 d" 4, where 'a = 32] assms(2)
    by (simp add: length_range_of)
  with False assms(1) show ?thesis
    by (simp add: decode_preimage_def preimage_bytes_def)
qed

lemma to_bytes_from_bytes:
  assumes "from_bytes n d = Inr e"
  shows "to_bytes e = take (125 + preimage_len d) d"
proof -
  from assms have d: "125 \<le> length d" and pre: "decode_preimage n d = Inr (esc_preimage e)"
    by (auto simp: from_bytes_Inr_iff)
  have "to_bytes e = range_of 0 121 d @ preimage_bytes (esc_preimage e)"
    using assms d header_ranges [OF d]
    by (simp add: to_bytes_def from_bytes_Inr_iff le_bytes_of_le_bytes length_range_of)
  also have "\<dots> = take (125 + preimage_len d) d"
    by (simp add: preimage_bytes_decoded [OF pre d] range_of_split flip: range_of_0)
  finally show ?thesis .
qed

lemma byte_above_two: "2 < b \<longleftrightarrow> b \<noteq> 0 \<and> b \<noteq> 1 \<and> b \<noteq> 2" for b :: u8
proof -
  have "2 < unat b \<longleftrightarrow> unat b \<noteq> 0 \<and> unat b \<noteq> 1 \<and> unat b \<noteq> 2" by arith
  moreover have "unat b = 0 \<longleftrightarrow> b = 0" "unat b = 1 \<longleftrightarrow> b = 1" "unat b = 2 \<longleftrightarrow> b = 2"
    by (simp_all add: word_unat_eq_iff)
  ultimately show ?thesis by (simp add: word_less_nat_alt)
qed

section \<open>Properties\<close>

text \<open>
  C26. Round trip of the escrow encoding: every escrow whose arrays are 32 bytes long and
  whose preimage, if any, is non-empty and short enough for the length prefix is decoded
  back from its own encoding, by the host's decoder and by the guest's; and what the decoder
  returns for any byte string re-encodes to exactly the prefix it read.
\<close>

theorem escrow_roundtrip:
  assumes "32 \<le> n"
  shows "(encodable e \<longrightarrow> from_bytes n (to_bytes e) = Inr e) \<and>
    (from_bytes n d = Inr e' \<longrightarrow> to_bytes e' = take (125 + preimage_len d) d)"
  using assms from_bytes_to_bytes to_bytes_from_bytes by blast

definition sample_escrow :: htlc_escrow where
  "sample_escrow =
     \<lparr> esc_hashlock = replicate 32 170, esc_maker_id = replicate 32 1,
       esc_taker_id = replicate 32 2, esc_amount = 1000, esc_state = Claimed,
       esc_timelock = 1700000000000, esc_preimage = Some (replicate 32 7) \<rparr>"

lemma encodable_sample [simp]: "encodable sample_escrow"
  by (simp add: sample_escrow_def encodable_def wf_escrow_def is_bytes32_def)

theorem escrow_roundtrip_witness:
  "from_bytes 64 (to_bytes sample_escrow) = Inr sample_escrow \<and>
   to_bytes sample_escrow = take (125 + preimage_len (to_bytes sample_escrow)) (to_bytes sample_escrow)"
  using escrow_roundtrip [of 64 sample_escrow "to_bytes sample_escrow" sample_escrow] by simp

text \<open>
  C27. The decoder panics on exactly these inputs: fewer than 125 bytes, a state byte other
  than 0, 1 or 2, or a non-zero preimage length that the data does not hold (or that, added to
  125, overflows \<open>usize\<close>). On every other input it returns an escrow.
\<close>

theorem from_bytes_panics_iff:
  "(\<exists>m. from_bytes n d = Inl m) \<longleftrightarrow>
     length d < 125 \<or> 2 < d ! 112 \<or>
     (0 < preimage_len d \<and> (2 ^ n \<le> 125 + preimage_len d \<or> length d < 125 + preimage_len d))"
  using byte_above_two [of "d ! 112"]
  by (auto simp: from_bytes_def state_of_byte_def decode_preimage_def Let_def assert_or_def)

end
