(* ===== verification/Htlc_Spec.thy ===== *)
theory Htlc_Spec
  imports Swap_Prelude
begin

text \<open>
  The contract both chains promise: a hash-time-locked payment. A leg is absent, then open
  under fixed terms, then either paid against a preimage of the hashlock or returned after its
  expiry, and it never leaves a final state. The locale \<open>htlc_leg\<close> is the interface: a
  transition system with an invariant and a view that steps the way the contract does. Its
  lemmas are what the swap relies on. The LEZ program and the Ethereum contract each
  interpret it on their own definitions.
\<close>

section \<open>The abstract contract\<close>

record 'p htlc_terms =
  terms_hashlock :: bytes32
  terms_payer :: 'p
  terms_payee :: 'p
  terms_amount :: nat
  terms_expiry :: nat

datatype 'p leg =
    LegAbsent
  | LegOpen "'p htlc_terms"
  | LegPaid "'p htlc_terms" bytes
  | LegReturned "'p htlc_terms"

fun leg_terms :: "'p leg \<Rightarrow> 'p htlc_terms option" where
  "leg_terms LegAbsent = None"
| "leg_terms (LegOpen t) = Some t"
| "leg_terms (LegPaid t p) = Some t"
| "leg_terms (LegReturned t) = Some t"

fun leg_final :: "'p leg \<Rightarrow> bool" where
  "leg_final (LegPaid t p) = True"
| "leg_final (LegReturned t) = True"
| "leg_final _ = False"

text \<open>\<open>abs_step H now l l'\<close>: one step at time \<open>now\<close>, with \<open>H\<close> the hash function.\<close>

inductive abs_step :: "(bytes \<Rightarrow> bytes) \<Rightarrow> nat \<Rightarrow> 'p leg \<Rightarrow> 'p leg \<Rightarrow> bool"
  for H :: "bytes \<Rightarrow> bytes" and now :: nat where
  abs_idle: "abs_step H now l l"
| abs_lock: "abs_step H now LegAbsent (LegOpen t)"
| abs_pay: "length p = 32 \<Longrightarrow> H p = terms_hashlock t \<Longrightarrow> abs_step H now (LegOpen t) (LegPaid t p)"
| abs_return: "terms_expiry t \<le> now \<Longrightarrow> abs_step H now (LegOpen t) (LegReturned t)"

inductive_simps abs_step_from_open: "abs_step H now (LegOpen t) l"
inductive_simps abs_step_from_paid: "abs_step H now (LegPaid t p) l"
inductive_simps abs_step_from_returned: "abs_step H now (LegReturned t) l"

lemma abs_step_final: "abs_step H now l l' \<Longrightarrow> leg_final l \<Longrightarrow> l' = l"
  by (induction rule: abs_step.induct) auto

lemma abs_step_terms: "abs_step H now l l' \<Longrightarrow> leg_terms l = Some t \<Longrightarrow> leg_terms l' = Some t"
  by (induction rule: abs_step.induct) auto

lemma abs_step_paid:
  "abs_step H now l (LegPaid t p) \<Longrightarrow> l = LegPaid t p \<or> (l = LegOpen t \<and> H p = terms_hashlock t \<and> length p = 32)"
  by (cases rule: abs_step.cases) auto

lemma abs_step_returned:
  "abs_step H now l (LegReturned t) \<Longrightarrow> l = LegReturned t \<or> (l = LegOpen t \<and> terms_expiry t \<le> now)"
  by (cases rule: abs_step.cases) auto

text \<open>
  One transaction of a chain may make several steps of a leg, when the party that is paid calls
  back into the contract.
\<close>

lemma abs_steps_final: "(abs_step H now)\<^sup>*\<^sup>* l l' \<Longrightarrow> leg_final l \<Longrightarrow> l' = l"
  by (induction rule: rtranclp_induct) (auto dest: abs_step_final)

lemma abs_steps_terms:
  "(abs_step H now)\<^sup>*\<^sup>* l l' \<Longrightarrow> leg_terms l = Some t \<Longrightarrow> leg_terms l' = Some t"
  by (induction rule: rtranclp_induct) (auto dest: abs_step_terms)

lemma abs_steps_paid:
  "(abs_step H now)\<^sup>*\<^sup>* l (LegPaid t p) \<Longrightarrow> l = LegPaid t p \<or> (H p = terms_hashlock t \<and> length p = 32)"
  by (induction l' \<equiv> "LegPaid t p" rule: rtranclp_induct) (auto dest: abs_step_paid)

lemma abs_steps_returned:
  "(abs_step H now)\<^sup>*\<^sup>* l (LegReturned t) \<Longrightarrow> l = LegReturned t \<or> terms_expiry t \<le> now"
  by (induction l' \<equiv> "LegReturned t" rule: rtranclp_induct) (auto dest: abs_step_returned)

section \<open>The interface of a leg\<close>

locale htlc_leg =
  fixes H :: "bytes \<Rightarrow> bytes"
    and step :: "'s \<Rightarrow> 's \<Rightarrow> bool"
    and inv :: "'s \<Rightarrow> bool"
    and view :: "'s \<Rightarrow> 'p leg"
    and now :: "'s \<Rightarrow> nat"
  assumes inv_step: "step s s' \<Longrightarrow> inv s \<Longrightarrow> inv s'"
    and view_step: "step s s' \<Longrightarrow> inv s \<Longrightarrow> (abs_step H (now s))\<^sup>*\<^sup>* (view s) (view s')"
    and now_step: "step s s' \<Longrightarrow> now s \<le> now s'"
begin

lemma inv_steps: "step\<^sup>*\<^sup>* s s' \<Longrightarrow> inv s \<Longrightarrow> inv s'"
  by (induction rule: rtranclp_induct) (auto intro: inv_step)

lemma now_steps: "step\<^sup>*\<^sup>* s s' \<Longrightarrow> now s \<le> now s'"
  by (induction rule: rtranclp_induct) (auto dest: now_step)

lemma terms_fixed:
  "step\<^sup>*\<^sup>* s s' \<Longrightarrow> inv s \<Longrightarrow> leg_terms (view s) = Some t \<Longrightarrow> leg_terms (view s') = Some t"
  by (induction rule: rtranclp_induct) (auto dest: view_step abs_steps_terms inv_steps)

lemma final_fixed: "step\<^sup>*\<^sup>* s s' \<Longrightarrow> inv s \<Longrightarrow> leg_final (view s) \<Longrightarrow> view s' = view s"
proof (induction rule: rtranclp_induct)
  case (step y z)
  then show ?case using view_step [of y z] abs_steps_final [of H "now y" "view y" "view z"] inv_steps
    by metis
qed simp

lemma paid_needs_preimage:
  assumes "step\<^sup>*\<^sup>* s s'" "inv s" "view s' = LegPaid t p" "\<not> leg_final (view s)"
  shows "H p = terms_hashlock t \<and> length p = 32"
  using assms
proof (induction rule: rtranclp_induct)
  case base
  then show ?case by simp
next
  case (step y z)
  then have "(abs_step H (now y))\<^sup>*\<^sup>* (view y) (LegPaid t p)"
    by (metis inv_steps view_step)
  then show ?case using step abs_steps_paid by fastforce
qed

lemma returned_after_expiry:
  assumes "step\<^sup>*\<^sup>* s s'" "inv s" "view s' = LegReturned t" "\<not> leg_final (view s)"
  shows "terms_expiry t \<le> now s'"
  using assms
proof (induction rule: rtranclp_induct)
  case base
  then show ?case by simp
next
  case (step y z)
  then have "(abs_step H (now y))\<^sup>*\<^sup>* (view y) (LegReturned t)"
    by (metis inv_steps view_step)
  moreover have "now y \<le> now z" using step by (simp add: now_step)
  ultimately show ?case using step abs_steps_returned by fastforce
qed

text \<open>Before its expiry an open leg can only have stayed open or been paid.\<close>

lemma open_before_expiry:
  assumes "step\<^sup>*\<^sup>* s s'" "inv s" "view s = LegOpen t" "now s' < terms_expiry t"
  shows "view s' = LegOpen t \<or> (\<exists>p. view s' = LegPaid t p \<and> H p = terms_hashlock t)"
proof -
  have t: "leg_terms (view s') = Some t"
    using assms(1-3) by (auto intro: terms_fixed)
  show ?thesis
  proof (cases "view s'")
    case (LegReturned t')
    then have "terms_expiry t' \<le> now s'"
      using returned_after_expiry assms by fastforce
    with LegReturned t assms(4) show ?thesis by simp
  next
    case (LegPaid t' p)
    then show ?thesis using t paid_needs_preimage assms by fastforce
  qed (use t in auto)
qed

end

end
