(* ===== verification/Lez_Htlc_Program.thy ===== *)
theory Lez_Htlc_Program
  imports Escrow_Codec Htlc_Spec
begin

text \<open>
  The LEZ HTLC program, \<open>programs/lez-htlc/methods/guest/src/main.rs\<close>: the three
  instructions over the account pre-states, each a function that returns the post-states or
  the message of the assertion that failed, and the dispatcher \<open>main\<close>. The step relation
  \<open>escrow_step\<close> is the life of one escrow account under these instructions and under
  deposits by other programs; \<open>abs_step\<close> is the hash-time-locked contract it implements.
\<close>

section \<open>Accounts and the parameters of the guest\<close>

text \<open>
  \<open>lee_core\<close>'s account types, with the fields the source reads and writes. What the source
  takes from \<open>lee_core\<close> and \<open>risc0_zkvm\<close> beyond that is a parameter: SHA-256, the capacity
  of an account's \<open>Data\<close>, and \<open>Account::default()\<close>.
\<close>

record account =
  program_owner :: "u32 list"
  balance :: u128
  data :: bytes
  nonce :: u128

record account_with_metadata =
  am_account :: account
  is_authorized :: bool
  am_account_id :: account_id

datatype pda_claim = PdaClaim bytes32

record account_post_state =
  post_account :: account
  required_claim :: "pda_claim option"

record lee =
  sha256 :: "bytes \<Rightarrow> bytes"
  data_fits :: "bytes \<Rightarrow> bool"
  default_account :: account

definition new_post :: "account \<Rightarrow> account_post_state" where
  "new_post a = \<lparr>post_account = a, required_claim = None\<rparr>"

definition new_claimed :: "account \<Rightarrow> pda_claim \<Rightarrow> account_post_state" where
  "new_claimed a c = \<lparr>post_account = a, required_claim = Some c\<rparr>"

text \<open>The guest is a 32-bit target.\<close>

definition guest_usize :: nat where
  "guest_usize = 32"

section \<open>The three instructions\<close>

text \<open>\<open>escrow.to_bytes().try_into().expect(...)\<close>, stored into the account.\<close>

definition store_escrow :: "lee \<Rightarrow> htlc_escrow \<Rightarrow> account \<Rightarrow> account checked" where
  "store_escrow rt e a =
     assert_or (data_fits rt (to_bytes e)) ''escrow data fits in Data'' (Inr (a\<lparr>data := to_bytes e\<rparr>))"

definition execute_lock ::
  "lee \<Rightarrow> account_with_metadata list \<Rightarrow> bytes32 \<Rightarrow> account_id \<Rightarrow> u128 \<Rightarrow> u64
   \<Rightarrow> account_post_state list checked" where
  "execute_lock rt pre_states hashlock taker_id amount timelock =
     (case pre_states of
        [maker, escrow_pda] \<Rightarrow>
          assert_or (is_authorized maker) ''maker must be authorized''
          (assert_or (am_account_id maker \<noteq> taker_id) ''maker and taker must differ''
          (assert_or (am_account escrow_pda = default_account rt) ''escrow PDA must be uninitialized''
          (case store_escrow rt
                  \<lparr> esc_hashlock = hashlock, esc_maker_id = am_account_id maker,
                    esc_taker_id = taker_id, esc_amount = amount, esc_state = Locked,
                    esc_timelock = timelock, esc_preimage = None \<rparr>
                  (am_account escrow_pda) of
             Inl m \<Rightarrow> Inl m
           | Inr escrow_account \<Rightarrow>
               Inr [new_post (am_account maker), new_claimed escrow_account (PdaClaim hashlock)])))
      | _ \<Rightarrow> Inl ''lock requires 2 accounts: [maker, escrow]'')"

definition execute_claim ::
  "lee \<Rightarrow> account_with_metadata list \<Rightarrow> bytes \<Rightarrow> account_post_state list checked" where
  "execute_claim rt pre_states preimage =
     (case pre_states of
        [taker, escrow_pda] \<Rightarrow>
          assert_or (length preimage = 32) ''preimage must be exactly 32 bytes''
          (assert_or (is_authorized taker) ''taker must be authorized''
          (case from_bytes guest_usize (data (am_account escrow_pda)) of
             Inl m \<Rightarrow> Inl m
           | Inr escrow \<Rightarrow>
               assert_or (esc_state escrow = Locked) ''escrow must be Locked''
               (assert_or (am_account_id taker = esc_taker_id escrow) ''only designated taker can claim''
               (assert_or (sha256 rt preimage = esc_hashlock escrow) ''invalid preimage''
               (assert_or (esc_amount escrow \<le> balance (am_account escrow_pda))
                  ''escrow balance insufficient for claim''
               (case store_escrow rt (escrow\<lparr>esc_state := Claimed, esc_preimage := Some preimage\<rparr>)
                       ((am_account escrow_pda)
                          \<lparr>balance := balance (am_account escrow_pda) - esc_amount escrow\<rparr>) of
                  Inl m \<Rightarrow> Inl m
                | Inr escrow_account \<Rightarrow>
                    Inr [new_post ((am_account taker)
                           \<lparr>balance := balance (am_account taker) + esc_amount escrow\<rparr>),
                         new_post escrow_account]))))))
      | _ \<Rightarrow> Inl ''claim requires 2 accounts: [taker, escrow]'')"

definition execute_refund ::
  "lee \<Rightarrow> account_with_metadata list \<Rightarrow> (account_post_state list \<times> u64) checked" where
  "execute_refund rt pre_states =
     (case pre_states of
        [maker, escrow_pda] \<Rightarrow>
          assert_or (is_authorized maker) ''maker must be authorized''
          (case from_bytes guest_usize (data (am_account escrow_pda)) of
             Inl m \<Rightarrow> Inl m
           | Inr escrow \<Rightarrow>
               assert_or (esc_state escrow = Locked) ''escrow must be Locked''
               (assert_or (am_account_id maker = esc_maker_id escrow) ''only maker can refund''
               (assert_or (esc_amount escrow \<le> balance (am_account escrow_pda))
                  ''escrow balance insufficient for refund''
               (case store_escrow rt (escrow\<lparr>esc_state := Refunded\<rparr>)
                       ((am_account escrow_pda)
                          \<lparr>balance := balance (am_account escrow_pda) - esc_amount escrow\<rparr>) of
                  Inl m \<Rightarrow> Inl m
                | Inr escrow_account \<Rightarrow>
                    Inr ([new_post ((am_account maker)
                            \<lparr>balance := balance (am_account maker) + esc_amount escrow\<rparr>),
                          new_post escrow_account], esc_timelock escrow)))))
      | _ \<Rightarrow> Inl ''refund requires 2 accounts: [maker, escrow]'')"

section \<open>The dispatcher\<close>

text \<open>
  \<open>main\<close> writes the post-states with, for a refund only, the timestamp validity window
  \<open>timelock..\<close>: the lower bound is \<open>Some\<close>.
\<close>

record program_output =
  post_states :: "account_post_state list"
  valid_from :: "u64 option"

fun htlc_main ::
  "lee \<Rightarrow> account_with_metadata list \<Rightarrow> htlc_instruction \<Rightarrow> program_output checked" where
  "htlc_main rt pre (LockInstr hashlock taker_id amount timelock) =
     (case execute_lock rt pre hashlock taker_id amount timelock of
        Inl m \<Rightarrow> Inl m
      | Inr post \<Rightarrow> Inr \<lparr>post_states = post, valid_from = None\<rparr>)"
| "htlc_main rt pre (ClaimInstr preimage) =
     (case execute_claim rt pre preimage of
        Inl m \<Rightarrow> Inl m
      | Inr post \<Rightarrow> Inr \<lparr>post_states = post, valid_from = None\<rparr>)"
| "htlc_main rt pre RefundInstr =
     (case execute_refund rt pre of
        Inl m \<Rightarrow> Inl m
      | Inr (post, timelock) \<Rightarrow> Inr \<lparr>post_states = post, valid_from = Some timelock\<rparr>)"

section \<open>Inversion of a successful instruction\<close>

lemma execute_lock_Inr_iff:
  "execute_lock rt pre h t amt tlk = Inr post \<longleftrightarrow>
     (\<exists>mk pda. pre = [mk, pda] \<and> is_authorized mk \<and> am_account_id mk \<noteq> t \<and>
        am_account pda = default_account rt \<and>
        (let e = \<lparr> esc_hashlock = h, esc_maker_id = am_account_id mk, esc_taker_id = t,
                   esc_amount = amt, esc_state = Locked, esc_timelock = tlk, esc_preimage = None \<rparr>
         in data_fits rt (to_bytes e) \<and>
            post = [new_post (am_account mk),
                    new_claimed ((am_account pda)\<lparr>data := to_bytes e\<rparr>) (PdaClaim h)]))"
  by (auto simp: execute_lock_def store_escrow_def Let_def assert_or_def split: list.splits sum.splits if_splits)

lemma execute_claim_Inr_iff:
  "execute_claim rt pre p = Inr post \<longleftrightarrow>
     (\<exists>tk pda e. pre = [tk, pda] \<and> length p = 32 \<and> is_authorized tk \<and>
        from_bytes guest_usize (data (am_account pda)) = Inr e \<and> esc_state e = Locked \<and>
        am_account_id tk = esc_taker_id e \<and> sha256 rt p = esc_hashlock e \<and>
        esc_amount e \<le> balance (am_account pda) \<and>
        (let e' = e\<lparr>esc_state := Claimed, esc_preimage := Some p\<rparr>
         in data_fits rt (to_bytes e') \<and>
            post = [new_post ((am_account tk)\<lparr>balance := balance (am_account tk) + esc_amount e\<rparr>),
                    new_post ((am_account pda)\<lparr>balance := balance (am_account pda) - esc_amount e,
                                               data := to_bytes e'\<rparr>)]))"
  by (auto simp: execute_claim_def store_escrow_def Let_def assert_or_def split: list.splits sum.splits if_splits)

lemma execute_refund_Inr_iff:
  "execute_refund rt pre = Inr (post, tlk) \<longleftrightarrow>
     (\<exists>mk pda e. pre = [mk, pda] \<and> is_authorized mk \<and>
        from_bytes guest_usize (data (am_account pda)) = Inr e \<and> esc_state e = Locked \<and>
        am_account_id mk = esc_maker_id e \<and> tlk = esc_timelock e \<and>
        esc_amount e \<le> balance (am_account pda) \<and>
        (let e' = e\<lparr>esc_state := Refunded\<rparr>
         in data_fits rt (to_bytes e') \<and>
            post = [new_post ((am_account mk)\<lparr>balance := balance (am_account mk) + esc_amount e\<rparr>),
                    new_post ((am_account pda)\<lparr>balance := balance (am_account pda) - esc_amount e,
                                               data := to_bytes e'\<rparr>)]))"
  by (auto simp: execute_refund_def store_escrow_def Let_def assert_or_def split: list.splits sum.splits if_splits)

section \<open>The life of an escrow account\<close>

text \<open>
  The sequencer runs a transaction on the signer's account and the escrow account and writes
  the post-states back when the program returned and its validity window contains the block
  time. Balances of other accounts, and the escrow's own by a deposit, also move by native
  transfers; the data of the escrow account changes only through its owning program.
\<close>

record lez_world =
  lez_accounts :: "account_id \<Rightarrow> account"
  lez_now :: u64

datatype lez_event =
    LezTx account_id bool htlc_instruction
  | LezTransfer account_id account_id u128
  | LezTick u64

fun window_ok :: "u64 option \<Rightarrow> u64 \<Rightarrow> bool" where
  "window_ok None t = True"
| "window_ok (Some from) t \<longleftrightarrow> from \<le> t"

definition apply_tx ::
  "lee \<Rightarrow> account_id \<Rightarrow> account_id \<Rightarrow> bool \<Rightarrow> htlc_instruction \<Rightarrow> lez_world \<Rightarrow> lez_world checked" where
  "apply_tx rt pda signer sig instr w =
     (case htlc_main rt
             [\<lparr>am_account = lez_accounts w signer, is_authorized = sig, am_account_id = signer\<rparr>,
              \<lparr>am_account = lez_accounts w pda, is_authorized = False, am_account_id = pda\<rparr>] instr of
        Inl m \<Rightarrow> Inl m
      | Inr out \<Rightarrow>
          assert_or (window_ok (valid_from out) (lez_now w)) ''outside the validity window''
            (case post_states out of
               [s, e] \<Rightarrow> Inr (w\<lparr>lez_accounts :=
                   (lez_accounts w)(signer := post_account s, pda := post_account e)\<rparr>)
             | _ \<Rightarrow> Inl ''post-states must match pre-states''))"

fun wf_instr :: "htlc_instruction \<Rightarrow> bool" where
  "wf_instr (LockInstr h t a e) \<longleftrightarrow> is_bytes32 h \<and> is_bytes32 t"
| "wf_instr _ \<longleftrightarrow> True"

inductive lez_step :: "lee \<Rightarrow> account_id \<Rightarrow> lez_world \<Rightarrow> lez_event \<Rightarrow> lez_world \<Rightarrow> bool"
  for rt :: lee and pda :: account_id where
  lez_tx: "signer \<noteq> pda \<Longrightarrow> is_bytes32 signer \<Longrightarrow> wf_instr instr \<Longrightarrow>
    apply_tx rt pda signer sig instr w = Inr w' \<Longrightarrow>
    lez_step rt pda w (LezTx signer sig instr) w'"
| lez_transfer: "src \<noteq> pda \<Longrightarrow> src \<noteq> dst \<Longrightarrow> amt \<le> balance (lez_accounts w src) \<Longrightarrow>
    lez_step rt pda w (LezTransfer src dst amt)
      (w\<lparr>lez_accounts := (lez_accounts w)
           (src := (lez_accounts w src)\<lparr>balance := balance (lez_accounts w src) - amt\<rparr>,
            dst := (lez_accounts w dst)\<lparr>balance := balance (lez_accounts w dst) + amt\<rparr>)\<rparr>)"
| lez_tick: "lez_now w \<le> t \<Longrightarrow> lez_step rt pda w (LezTick t) (w\<lparr>lez_now := t\<rparr>)"

inductive_cases lez_step_txE: "lez_step rt pda w (LezTx signer sig instr) w'"

text \<open>What the escrow account is, as a leg of the swap.\<close>

definition terms_of :: "htlc_escrow \<Rightarrow> account_id htlc_terms" where
  "terms_of e = \<lparr>terms_hashlock = esc_hashlock e, terms_payer = esc_maker_id e,
     terms_payee = esc_taker_id e, terms_amount = unat (esc_amount e),
     terms_expiry = unat (esc_timelock e)\<rparr>"

definition leg_of_escrow :: "htlc_escrow \<Rightarrow> account_id leg" where
  "leg_of_escrow e =
     (case esc_state e of
        Locked \<Rightarrow> LegOpen (terms_of e)
      | Claimed \<Rightarrow> LegPaid (terms_of e) (case esc_preimage e of Some p \<Rightarrow> p | None \<Rightarrow> [])
      | Refunded \<Rightarrow> LegReturned (terms_of e))"

definition escrow_leg :: "account_id \<Rightarrow> lez_world \<Rightarrow> account_id leg" where
  "escrow_leg pda w =
     (case from_bytes guest_usize (data (lez_accounts w pda)) of
        Inl _ \<Rightarrow> LegAbsent
      | Inr e \<Rightarrow> leg_of_escrow e)"

definition escrow_ok :: "lee \<Rightarrow> htlc_escrow \<Rightarrow> bool" where
  "escrow_ok rt e \<longleftrightarrow> wf_escrow e \<and> esc_maker_id e \<noteq> esc_taker_id e \<and>
     (case esc_state e of
        Claimed \<Rightarrow> (\<exists>p. esc_preimage e = Some p \<and> length p = 32 \<and> sha256 rt p = esc_hashlock e)
      | _ \<Rightarrow> esc_preimage e = None)"

definition escrow_inv :: "lee \<Rightarrow> account_id \<Rightarrow> lez_world \<Rightarrow> bool" where
  "escrow_inv rt pda w \<longleftrightarrow>
     data (lez_accounts w pda) = [] \<or>
     (\<exists>e. data (lez_accounts w pda) = to_bytes e \<and> escrow_ok rt e)"

lemma escrow_ok_encodable: "escrow_ok rt e \<Longrightarrow> encodable e"
  by (auto simp: escrow_ok_def encodable_def split: htlc_state.splits)

lemma decode_ok: "escrow_ok rt e \<Longrightarrow> from_bytes guest_usize (to_bytes e) = Inr e"
  by (simp add: escrow_ok_encodable from_bytes_to_bytes guest_usize_def)

lemma decode_empty: "\<exists>m. from_bytes n [] = Inl m"
  by (simp add: from_bytes_def)

lemma from_bytes_Nil [simp]: "from_bytes n [] \<noteq> Inr e"
  by (simp add: from_bytes_def)

lemma escrow_inv_decode:
  "escrow_inv rt pda w \<Longrightarrow> from_bytes guest_usize (data (lez_accounts w pda)) = Inr e \<Longrightarrow>
   data (lez_accounts w pda) = to_bytes e \<and> escrow_ok rt e"
  by (auto simp: escrow_inv_def decode_ok)

text \<open>The effect of each accepted transaction on the two accounts.\<close>

definition locked_escrow :: "bytes32 \<Rightarrow> account_id \<Rightarrow> account_id \<Rightarrow> u128 \<Rightarrow> u64 \<Rightarrow> htlc_escrow" where
  "locked_escrow h maker taker amt tlk =
     \<lparr> esc_hashlock = h, esc_maker_id = maker, esc_taker_id = taker, esc_amount = amt,
       esc_state = Locked, esc_timelock = tlk, esc_preimage = None \<rparr>"

lemma apply_lock_iff:
  "apply_tx rt pda s sig (LockInstr h t amt tlk) w = Inr w' \<longleftrightarrow>
     sig \<and> s \<noteq> t \<and> lez_accounts w pda = default_account rt \<and>
     data_fits rt (to_bytes (locked_escrow h s t amt tlk)) \<and>
     w' = w\<lparr>lez_accounts := (lez_accounts w)(s := lez_accounts w s,
              pda := (lez_accounts w pda)\<lparr>data := to_bytes (locked_escrow h s t amt tlk)\<rparr>)\<rparr>"
  by (auto simp: apply_tx_def checked_bind_Inr_iff execute_lock_Inr_iff Let_def new_post_def
      new_claimed_def locked_escrow_def)

lemma apply_claim_iff:
  "apply_tx rt pda s sig (ClaimInstr p) w = Inr w' \<longleftrightarrow>
     (\<exists>e. sig \<and> length p = 32 \<and> from_bytes guest_usize (data (lez_accounts w pda)) = Inr e \<and>
        esc_state e = Locked \<and> s = esc_taker_id e \<and> sha256 rt p = esc_hashlock e \<and>
        esc_amount e \<le> balance (lez_accounts w pda) \<and>
        data_fits rt (to_bytes (e\<lparr>esc_state := Claimed, esc_preimage := Some p\<rparr>)) \<and>
        w' = w\<lparr>lez_accounts := (lez_accounts w)
          (s := (lez_accounts w s)\<lparr>balance := balance (lez_accounts w s) + esc_amount e\<rparr>,
           pda := (lez_accounts w pda)\<lparr>balance := balance (lez_accounts w pda) - esc_amount e,
                    data := to_bytes (e\<lparr>esc_state := Claimed, esc_preimage := Some p\<rparr>)\<rparr>)\<rparr>)"
  by (auto simp: apply_tx_def checked_bind_Inr_iff execute_claim_Inr_iff Let_def new_post_def)

lemma apply_refund_iff:
  "apply_tx rt pda s sig RefundInstr w = Inr w' \<longleftrightarrow>
     (\<exists>e. sig \<and> from_bytes guest_usize (data (lez_accounts w pda)) = Inr e \<and>
        esc_state e = Locked \<and> s = esc_maker_id e \<and> esc_timelock e \<le> lez_now w \<and>
        esc_amount e \<le> balance (lez_accounts w pda) \<and>
        data_fits rt (to_bytes (e\<lparr>esc_state := Refunded\<rparr>)) \<and>
        w' = w\<lparr>lez_accounts := (lez_accounts w)
          (s := (lez_accounts w s)\<lparr>balance := balance (lez_accounts w s) + esc_amount e\<rparr>,
           pda := (lez_accounts w pda)\<lparr>balance := balance (lez_accounts w pda) - esc_amount e,
                    data := to_bytes (e\<lparr>esc_state := Refunded\<rparr>)\<rparr>)\<rparr>)"
  by (auto simp: apply_tx_def checked_bind_Inr_iff execute_refund_Inr_iff Let_def new_post_def
      split: prod.splits)

lemmas apply_tx_iff = apply_lock_iff apply_claim_iff apply_refund_iff

text \<open>
  One step of the escrow account: its data is untouched, or a lock, claim or refund rewrote
  it. Every proof about the escrow's life goes through these four cases.
\<close>

lemma lez_step_data_cases [consumes 1, case_names same lock claim refund]:
  assumes "lez_step rt pda w ev w'"
  obtains "data (lez_accounts w' pda) = data (lez_accounts w pda)"
  | h s t amt tlk where
      "lez_accounts w pda = default_account rt" "s \<noteq> t" "is_bytes32 h" "is_bytes32 s" "is_bytes32 t"
      "data (lez_accounts w' pda) = to_bytes (locked_escrow h s t amt tlk)"
  | e p where
      "from_bytes guest_usize (data (lez_accounts w pda)) = Inr e" "esc_state e = Locked"
      "length p = 32" "sha256 rt p = esc_hashlock e"
      "data (lez_accounts w' pda) = to_bytes (e\<lparr>esc_state := Claimed, esc_preimage := Some p\<rparr>)"
  | e where
      "from_bytes guest_usize (data (lez_accounts w pda)) = Inr e" "esc_state e = Locked"
      "esc_timelock e \<le> lez_now w"
      "data (lez_accounts w' pda) = to_bytes (e\<lparr>esc_state := Refunded\<rparr>)"
  using assms
proof cases
  case (lez_tx s instr sig)
  show thesis
  proof (cases instr)
    case (LockInstr h t amt tlk)
    with lez_tx show ?thesis by (intro that(2) [of s t h amt tlk]) (auto simp: apply_lock_iff)
  next
    case (ClaimInstr p)
    with lez_tx show ?thesis by (auto simp: apply_claim_iff intro: that(3))
  next
    case RefundInstr
    with lez_tx show ?thesis by (auto simp: apply_refund_iff intro: that(4))
  qed
next
  case (lez_transfer src dst amt)
  then show thesis by (intro that(1)) auto
next
  case (lez_tick t)
  then show thesis by (intro that(1)) auto
qed

lemma escrow_ok_claim:
  "escrow_ok rt e \<Longrightarrow> esc_state e = Locked \<Longrightarrow> length p = 32 \<Longrightarrow> sha256 rt p = esc_hashlock e \<Longrightarrow>
   escrow_ok rt (e\<lparr>esc_state := Claimed, esc_preimage := Some p\<rparr>)"
  by (simp add: escrow_ok_def wf_escrow_def)

lemma escrow_ok_refund:
  "escrow_ok rt e \<Longrightarrow> esc_state e = Locked \<Longrightarrow> escrow_ok rt (e\<lparr>esc_state := Refunded\<rparr>)"
  by (simp add: escrow_ok_def wf_escrow_def)

lemma escrow_ok_lock:
  "is_bytes32 h \<Longrightarrow> is_bytes32 s \<Longrightarrow> is_bytes32 t \<Longrightarrow> s \<noteq> t \<Longrightarrow> escrow_ok rt (locked_escrow h s t amt tlk)"
  by (simp add: escrow_ok_def locked_escrow_def wf_escrow_def)

lemmas escrow_ok_intros = escrow_ok_claim escrow_ok_refund escrow_ok_lock

lemma escrow_inv_step:
  assumes "lez_step rt pda w ev w'" "escrow_inv rt pda w"
  shows "escrow_inv rt pda w'"
  using assms(1)
proof (cases rule: lez_step_data_cases)
  case (claim e p)
  then show ?thesis using escrow_inv_decode [OF assms(2)] escrow_ok_claim by (metis escrow_inv_def)
next
  case (refund e)
  then show ?thesis using escrow_inv_decode [OF assms(2)] escrow_ok_refund by (metis escrow_inv_def)
qed (use assms(2) in \<open>auto simp: escrow_inv_def dest: escrow_ok_lock\<close>)

lemma escrow_leg_decoded:
  "data (lez_accounts w pda) = to_bytes e \<Longrightarrow> escrow_ok rt e \<Longrightarrow> escrow_leg pda w = leg_of_escrow e"
  by (simp add: escrow_leg_def decode_ok)

lemma escrow_refines:
  assumes "lez_step rt pda w ev w'" "escrow_inv rt pda w" "data (default_account rt) = []"
  shows "abs_step (sha256 rt) (unat (lez_now w)) (escrow_leg pda w) (escrow_leg pda w')"
  using assms(1)
proof (cases rule: lez_step_data_cases)
  case same
  then show ?thesis by (simp add: escrow_leg_def abs_idle)
next
  case (lock h s t amt tlk)
  have "escrow_leg pda w = LegAbsent"
    using lock(1) assms(3) decode_empty [of guest_usize] by (auto simp: escrow_leg_def)
  moreover have "escrow_leg pda w' = leg_of_escrow (locked_escrow h s t amt tlk)"
    by (rule escrow_leg_decoded [OF lock(6) escrow_ok_lock]) (use lock in auto)
  ultimately show ?thesis by (simp add: leg_of_escrow_def locked_escrow_def abs_lock)
next
  case (claim e p)
  then have "escrow_leg pda w' = leg_of_escrow (e\<lparr>esc_state := Claimed, esc_preimage := Some p\<rparr>)"
    using escrow_inv_decode [OF assms(2)] by (auto intro: escrow_leg_decoded escrow_ok_claim)
  with claim show ?thesis
    by (simp add: escrow_leg_def leg_of_escrow_def terms_of_def abs_pay)
next
  case (refund e)
  then have "escrow_leg pda w' = leg_of_escrow (e\<lparr>esc_state := Refunded\<rparr>)"
    using escrow_inv_decode [OF assms(2)] by (auto intro: escrow_leg_decoded escrow_ok_refund)
  with refund show ?thesis
    by (simp add: escrow_leg_def leg_of_escrow_def terms_of_def abs_return word_le_nat_alt)
qed

definition lez_moves :: "lee \<Rightarrow> account_id \<Rightarrow> lez_world \<Rightarrow> lez_world \<Rightarrow> bool" where
  "lez_moves rt pda w w' \<longleftrightarrow> (\<exists>ev. lez_step rt pda w ev w')"

definition lez_inv :: "lee \<Rightarrow> account_id \<Rightarrow> lez_world \<Rightarrow> bool" where
  "lez_inv rt pda w \<longleftrightarrow> data (default_account rt) = [] \<and> escrow_inv rt pda w"

lemma lez_now_step: "lez_step rt pda w ev w' \<Longrightarrow> unat (lez_now w) \<le> unat (lez_now w')"
proof (induction rule: lez_step.induct)
  case (lez_tx s instr sig w w')
  then show ?case
    by (cases instr) (auto simp: apply_tx_iff)
qed (simp_all add: word_le_nat_alt)

interpretation lez: htlc_leg "sha256 rt" "lez_moves rt pda" "lez_inv rt pda" "escrow_leg pda"
  "\<lambda>w. unat (lez_now w)" for rt :: lee and pda :: account_id
proof unfold_locales
  fix w w'
  assume "lez_moves rt pda w w'"
  then obtain ev where ev: "lez_step rt pda w ev w'" by (auto simp: lez_moves_def)
  show "lez_inv rt pda w \<Longrightarrow> lez_inv rt pda w'"
    using ev by (auto simp: lez_inv_def dest: escrow_inv_step)
  show "lez_inv rt pda w \<Longrightarrow>
      (abs_step (sha256 rt) (unat (lez_now w)))\<^sup>*\<^sup>* (escrow_leg pda w) (escrow_leg pda w')"
    using ev by (auto simp: lez_inv_def intro: escrow_refines)
  show "unat (lez_now w) \<le> unat (lez_now w')" using ev by (rule lez_now_step)
qed

lemma lez_move_refines:
  "lez_moves rt pda w w' \<Longrightarrow> lez_inv rt pda w \<Longrightarrow>
   abs_step (sha256 rt) (unat (lez_now w)) (escrow_leg pda w) (escrow_leg pda w')"
  by (auto simp: lez_moves_def lez_inv_def intro: escrow_refines)

text \<open>The escrow account before its lock.\<close>

definition fresh_escrow :: "lee \<Rightarrow> account_id \<Rightarrow> lez_world \<Rightarrow> bool" where
  "fresh_escrow rt pda w \<longleftrightarrow>
     lez_accounts w pda = default_account rt \<and> data (default_account rt) = []"

lemma fresh_inv: "fresh_escrow rt pda w \<Longrightarrow> lez_inv rt pda w"
  by (simp add: fresh_escrow_def lez_inv_def escrow_inv_def)

lemma fresh_leg: "fresh_escrow rt pda w \<Longrightarrow> escrow_leg pda w = LegAbsent"
  using decode_empty [of guest_usize] by (auto simp: fresh_escrow_def escrow_leg_def)

section \<open>Conservation\<close>

definition total_balance :: "account_id set \<Rightarrow> lez_world \<Rightarrow> nat" where
  "total_balance A w = (\<Sum>a\<in>A. unat (balance (lez_accounts w a)))"

fun event_accounts :: "lez_event \<Rightarrow> account_id set" where
  "event_accounts (LezTx s sig i) = {s}"
| "event_accounts (LezTransfer src dst amt) = {src, dst}"
| "event_accounts (LezTick t) = {}"

text \<open>Moving \<open>amt\<close> between two accounts keeps the total, when the total fits in 128 bits.\<close>

lemma move_total:
  fixes f g :: "'k \<Rightarrow> u128"
  assumes fin: "finite A" and ab: "a \<in> A" "b \<in> A" "a \<noteq> b"
    and lim: "(\<Sum>x\<in>A. unat (f x)) < 2 ^ 128"
    and amt: "amt \<le> f a" and g: "g a = f a - amt" "g b = f b + amt"
    and rest: "\<And>x. x \<in> A \<Longrightarrow> x \<noteq> a \<Longrightarrow> x \<noteq> b \<Longrightarrow> g x = f x"
  shows "(\<Sum>x\<in>A. unat (g x)) = (\<Sum>x\<in>A. unat (f x))"
proof -
  have split: "(\<Sum>x\<in>A. unat (h x)) = unat (h a) + unat (h b) + (\<Sum>x\<in>A - {a, b}. unat (h x))"
    for h :: "'k \<Rightarrow> u128"
  proof -
    have "(\<Sum>x\<in>{a, b} \<union> (A - {a, b}). unat (h x)) =
        (\<Sum>x\<in>{a, b}. unat (h x)) + (\<Sum>x\<in>A - {a, b}. unat (h x))"
      using fin by (intro sum.union_disjoint) auto
    moreover have "{a, b} \<union> (A - {a, b}) = A" using ab by auto
    ultimately show ?thesis using ab by simp
  qed
  have "unat (f b) + unat amt < 2 ^ 128"
    using lim amt split [of f] unfolding word_le_nat_alt by linarith
  then have "unat (g b) = unat (f b) + unat amt"
    by (simp add: g unat_word_ariths)
  moreover have "unat (g a) = unat (f a) - unat amt" using amt g by (simp add: unat_sub)
  moreover have "(\<Sum>x\<in>A - {a, b}. unat (g x)) = (\<Sum>x\<in>A - {a, b}. unat (f x))"
    using rest by (intro sum.cong) auto
  ultimately show ?thesis using amt split [of f] split [of g] by (simp add: word_le_nat_alt)
qed

lemma lez_step_total:
  assumes "lez_step rt pda w ev w'" "finite A" "pda \<in> A" "event_accounts ev \<subseteq> A"
    "total_balance A w < 2 ^ 128"
  shows "total_balance A w' = total_balance A w"
  using assms(1)
proof cases
  case (lez_tx s instr sig)
  show ?thesis
  proof (cases instr)
    case (LockInstr h t amt tlk)
    with lez_tx show ?thesis by (auto simp: apply_lock_iff total_balance_def intro: sum.cong)
  next
    case (ClaimInstr p)
    with lez_tx assms show ?thesis
      by (auto simp: apply_claim_iff total_balance_def intro!: move_total [of A pda s])
  next
    case RefundInstr
    with lez_tx assms show ?thesis
      by (auto simp: apply_refund_iff total_balance_def intro!: move_total [of A pda s])
  qed
next
  case (lez_transfer src dst amt)
  with assms show ?thesis
    by (auto simp: total_balance_def intro!: move_total [of A src dst])
qed (simp add: total_balance_def)

section \<open>A concrete runtime\<close>

text \<open>
  For the witnesses: a hash that is injective on 32-byte strings, accounts of at most 100 KiB,
  and an escrow locked by account 1 for account 2, in a world where it is funded.
\<close>

definition toy_hash :: "bytes \<Rightarrow> bytes" where
  "toy_hash b = take 32 (b @ zero32)"

definition toy_rt :: lee where
  "toy_rt = \<lparr> sha256 = toy_hash, data_fits = (\<lambda>d. length d \<le> 102400),
     default_account = \<lparr>program_owner = replicate 8 0, balance = 0, data = [], nonce = 0\<rparr> \<rparr>"

definition toy_secret :: bytes where "toy_secret = replicate 32 7"
definition toy_maker :: account_id where "toy_maker = replicate 32 1"
definition toy_taker :: account_id where "toy_taker = replicate 32 2"
definition toy_pda :: account_id where "toy_pda = replicate 32 9"

definition toy_escrow :: htlc_escrow where
  "toy_escrow = locked_escrow toy_secret toy_maker toy_taker 1000 60000"

definition toy_account :: "u128 \<Rightarrow> bytes \<Rightarrow> account" where
  "toy_account b d = \<lparr>program_owner = replicate 8 0, balance = b, data = d, nonce = 0\<rparr>"

definition toy_world :: "u128 \<Rightarrow> bytes \<Rightarrow> lez_world" where
  "toy_world b d =
     \<lparr> lez_accounts = (\<lambda>a. toy_account 0 [])(toy_pda := toy_account b d, toy_maker := toy_account 5000 []),
       lez_now = 70000 \<rparr>"

lemmas toy_defs = toy_hash_def toy_rt_def toy_secret_def toy_maker_def toy_taker_def toy_pda_def
  toy_escrow_def toy_account_def toy_world_def zero32_def

lemma toy_distinct [simp]:
  "toy_maker \<noteq> toy_taker" "toy_taker \<noteq> toy_maker" "toy_pda \<noteq> toy_maker" "toy_maker \<noteq> toy_pda"
  "toy_pda \<noteq> toy_taker" "toy_taker \<noteq> toy_pda"
  "is_bytes32 toy_maker" "is_bytes32 toy_taker" "is_bytes32 toy_pda" "length toy_secret = 32"
  "is_bytes32 toy_secret"
  by (simp_all add: toy_defs is_bytes32_def)

lemma toy_escrow_ok [simp]: "escrow_ok toy_rt toy_escrow"
  by (simp add: escrow_ok_def toy_defs locked_escrow_def wf_escrow_def is_bytes32_def)

lemma toy_escrow_simps [simp]:
  "esc_state toy_escrow = Locked" "esc_taker_id toy_escrow = toy_taker"
  "esc_maker_id toy_escrow = toy_maker" "esc_hashlock toy_escrow = toy_secret"
  "esc_amount toy_escrow = 1000" "esc_timelock toy_escrow = 60000"
  by (simp_all add: toy_escrow_def locked_escrow_def)

lemma toy_sha [simp]: "sha256 toy_rt toy_secret = toy_secret"
  by (simp add: toy_defs)

lemma toy_fits [simp]:
  "data_fits toy_rt (to_bytes toy_escrow)"
  "data_fits toy_rt (to_bytes (toy_escrow\<lparr>esc_state := Refunded\<rparr>))"
  "data_fits toy_rt (to_bytes (toy_escrow\<lparr>esc_state := Claimed, esc_preimage := Some toy_secret\<rparr>))"
  by (simp_all add: toy_defs locked_escrow_def length_to_bytes wf_escrow_def is_bytes32_def)

text \<open>Claiming the toy escrow, from its lock on.\<close>

definition toy_fresh :: lez_world where
  "toy_fresh = toy_world 0 []"

definition toy_locked :: lez_world where
  "toy_locked = toy_world 0 (to_bytes toy_escrow)"

definition toy_funded :: lez_world where
  "toy_funded = toy_locked\<lparr>lez_accounts := (lez_accounts toy_locked)
     (toy_maker := toy_account 4000 [], toy_pda := toy_account 1000 (to_bytes toy_escrow))\<rparr>"

definition toy_claimed :: lez_world where
  "toy_claimed = toy_funded\<lparr>lez_accounts := (lez_accounts toy_funded)
     (toy_taker := toy_account 1000 [],
      toy_pda := toy_account 0 (to_bytes (toy_escrow\<lparr>esc_state := Claimed, esc_preimage := Some toy_secret\<rparr>)))\<rparr>"

lemmas toy_run_defs = toy_fresh_def toy_locked_def toy_funded_def toy_claimed_def toy_world_def
  toy_account_def

lemma toy_lock_step: "lez_moves toy_rt toy_pda toy_fresh toy_locked"
proof -
  have "apply_tx toy_rt toy_pda toy_maker True (LockInstr toy_secret toy_taker 1000 60000) toy_fresh
      = Inr toy_locked"
    unfolding apply_lock_iff using toy_fits(1)
    by (auto simp: toy_escrow_def toy_run_defs toy_rt_def fun_eq_iff)
  then show ?thesis
    unfolding lez_moves_def
    by (intro exI [where x = "LezTx toy_maker True (LockInstr toy_secret toy_taker 1000 60000)"] lez_tx)
      simp_all
qed

lemma toy_fund_step: "lez_moves toy_rt toy_pda toy_locked toy_funded"
proof -
  have "lez_step toy_rt toy_pda toy_locked (LezTransfer toy_maker toy_pda 1000)
     (toy_locked\<lparr>lez_accounts := (lez_accounts toy_locked)
           (toy_maker := (lez_accounts toy_locked toy_maker)
              \<lparr>balance := balance (lez_accounts toy_locked toy_maker) - 1000\<rparr>,
            toy_pda := (lez_accounts toy_locked toy_pda)
              \<lparr>balance := balance (lez_accounts toy_locked toy_pda) + 1000\<rparr>)\<rparr>)"
    by (rule lez_transfer) (simp_all add: toy_run_defs)
  then show ?thesis unfolding lez_moves_def
    by (intro exI) (simp add: toy_run_defs fun_upd_twist)
qed

lemma toy_claim_event:
  "lez_step toy_rt toy_pda toy_funded (LezTx toy_taker True (ClaimInstr toy_secret)) toy_claimed"
proof -
  have "apply_tx toy_rt toy_pda toy_taker True (ClaimInstr toy_secret) toy_funded = Inr toy_claimed"
    unfolding apply_claim_iff using toy_fits(3) decode_ok [OF toy_escrow_ok]
    by (auto simp: toy_run_defs fun_eq_iff)
  then show ?thesis by (intro lez_tx) simp_all
qed

lemma toy_claim_step: "lez_moves toy_rt toy_pda toy_funded toy_claimed"
  using toy_claim_event unfolding lez_moves_def by blast

lemma toy_fresh_ok: "fresh_escrow toy_rt toy_pda toy_fresh"
  by (simp add: fresh_escrow_def toy_run_defs toy_rt_def)

lemma toy_steps: "(lez_moves toy_rt toy_pda)\<^sup>*\<^sup>* toy_fresh toy_claimed"
  using toy_lock_step toy_fund_step toy_claim_step by (meson converse_rtranclp_into_rtranclp rtranclp.rtrancl_refl)

lemma toy_claimed_leg: "leg_final (escrow_leg toy_pda toy_claimed)"
proof -
  have "escrow_ok toy_rt (toy_escrow\<lparr>esc_state := Claimed, esc_preimage := Some toy_secret\<rparr>)"
    by (rule escrow_ok_claim) simp_all
  then show ?thesis
    using decode_ok by (simp add: escrow_leg_def leg_of_escrow_def toy_claimed_def toy_account_def)
qed

section \<open>Properties\<close>

text \<open>
  C25. A claim on an escrow account that holds a well-formed escrow is accepted exactly when
  the signer is authorized and is the designated taker, the escrow is locked, the preimage is
  32 bytes long and hashes to the hashlock, the account holds the amount and the new data
  fits; it then moves exactly the amount from the escrow to the taker, stores the preimage
  with the state \<open>Claimed\<close> and changes no other field.
\<close>

theorem claim_correct:
  assumes "escrow_ok rt e" and "data (am_account pda) = to_bytes e"
  shows "htlc_main rt [tk, pda] (ClaimInstr p) = Inr out \<longleftrightarrow>
      is_authorized tk \<and> am_account_id tk = esc_taker_id e \<and> esc_state e = Locked \<and>
      length p = 32 \<and> sha256 rt p = esc_hashlock e \<and> esc_amount e \<le> balance (am_account pda) \<and>
      data_fits rt (to_bytes (e\<lparr>esc_state := Claimed, esc_preimage := Some p\<rparr>)) \<and>
      out = \<lparr>post_states =
          [new_post ((am_account tk)\<lparr>balance := balance (am_account tk) + esc_amount e\<rparr>),
           new_post ((am_account pda)\<lparr>balance := balance (am_account pda) - esc_amount e,
             data := to_bytes (e\<lparr>esc_state := Claimed, esc_preimage := Some p\<rparr>)\<rparr>)],
        valid_from = None\<rparr>"
  using decode_ok [OF assms(1)] assms(2)
  by (auto simp: checked_bind_Inr_iff execute_claim_Inr_iff Let_def)

theorem claim_correct_witness:
  "\<exists>out. htlc_main toy_rt
     [\<lparr>am_account = toy_account 5 [], is_authorized = True, am_account_id = toy_taker\<rparr>,
      \<lparr>am_account = toy_account 1000 (to_bytes toy_escrow), is_authorized = False, am_account_id = toy_pda\<rparr>]
     (ClaimInstr toy_secret) = Inr out"
  by (subst claim_correct [OF toy_escrow_ok]) (simp_all add: toy_account_def)

text \<open>
  A refund on an escrow account that holds a well-formed escrow is accepted exactly when
  the signer is authorized and is the maker, the escrow is locked, the account holds the
  amount and the new data fits; it moves exactly the amount back to the maker, and the output
  is valid only from the escrow's timelock on.
\<close>

lemma refund_correct:
  assumes "escrow_ok rt e" and "data (am_account pda) = to_bytes e"
  shows "htlc_main rt [mk, pda] RefundInstr = Inr out \<longleftrightarrow>
      is_authorized mk \<and> am_account_id mk = esc_maker_id e \<and> esc_state e = Locked \<and>
      esc_amount e \<le> balance (am_account pda) \<and> data_fits rt (to_bytes (e\<lparr>esc_state := Refunded\<rparr>)) \<and>
      out = \<lparr>post_states =
          [new_post ((am_account mk)\<lparr>balance := balance (am_account mk) + esc_amount e\<rparr>),
           new_post ((am_account pda)\<lparr>balance := balance (am_account pda) - esc_amount e,
                                      data := to_bytes (e\<lparr>esc_state := Refunded\<rparr>)\<rparr>)],
        valid_from = Some (esc_timelock e)\<rparr>"
  using decode_ok [OF assms(1)] assms(2)
  by (auto simp: checked_bind_Inr_iff execute_refund_Inr_iff Let_def split: prod.splits)

lemma refund_correct_witness:
  "\<exists>out. htlc_main toy_rt
     [\<lparr>am_account = toy_account 5 [], is_authorized = True, am_account_id = toy_maker\<rparr>,
      \<lparr>am_account = toy_account 1000 (to_bytes toy_escrow), is_authorized = False, am_account_id = toy_pda\<rparr>]
     RefundInstr = Inr out \<and> valid_from out = Some 60000"
  by (subst refund_correct [OF toy_escrow_ok]) (simp_all add: toy_account_def)

text \<open>
  C9. The escrow account implements the hash-time-locked contract: from an uninitialized
  account, every step of any sequence of transactions, transfers and clock ticks is a step of
  the abstract contract; and whatever is reached, a claimed escrow stores a 32-byte preimage
  of its hashlock and a refunded one is past its timelock.
\<close>

theorem escrow_implements_htlc:
  assumes "fresh_escrow rt pda w0" and "(lez_moves rt pda)\<^sup>*\<^sup>* w0 w" and "lez_moves rt pda w w'"
  shows "abs_step (sha256 rt) (unat (lez_now w)) (escrow_leg pda w) (escrow_leg pda w') \<and>
    (escrow_leg pda w = LegPaid t p \<longrightarrow> sha256 rt p = terms_hashlock t \<and> length p = 32) \<and>
    (escrow_leg pda w = LegReturned t \<longrightarrow> terms_expiry t \<le> unat (lez_now w))"
  using lez_move_refines [OF assms(3) lez.inv_steps [OF assms(2) fresh_inv [OF assms(1)]]]
    lez.paid_needs_preimage [OF assms(2) fresh_inv [OF assms(1)]]
    lez.returned_after_expiry [OF assms(2) fresh_inv [OF assms(1)]] fresh_leg [OF assms(1)]
  by auto

theorem escrow_implements_htlc_witness:
  "abs_step toy_hash 70000 (escrow_leg toy_pda toy_funded) (escrow_leg toy_pda toy_claimed)"
proof -
  have "(lez_moves toy_rt toy_pda)\<^sup>*\<^sup>* toy_fresh toy_funded"
    using toy_lock_step toy_fund_step by (meson converse_rtranclp_into_rtranclp rtranclp.rtrancl_refl)
  moreover have "sha256 toy_rt = toy_hash" "unat (lez_now toy_funded) = 70000"
    by (simp_all add: toy_rt_def toy_run_defs)
  ultimately show ?thesis
    using escrow_implements_htlc [OF toy_fresh_ok _ toy_claim_step] by metis
qed

text \<open>
  C11. An escrow is settled once: after a lock its hashlock, parties, amount and timelock never
  change, and after a claim or a refund nothing about it changes any more, whatever
  transactions follow.
\<close>

theorem escrow_settles_once:
  assumes "fresh_escrow rt pda w0" and "(lez_moves rt pda)\<^sup>*\<^sup>* w0 w" and "(lez_moves rt pda)\<^sup>*\<^sup>* w w'"
  shows "(leg_terms (escrow_leg pda w) = Some t \<longrightarrow> leg_terms (escrow_leg pda w') = Some t) \<and>
    (leg_final (escrow_leg pda w) \<longrightarrow> escrow_leg pda w' = escrow_leg pda w)"
  using assms lez.inv_steps [OF assms(2) fresh_inv [OF assms(1)]]
  by (blast intro: lez.terms_fixed lez.final_fixed)

theorem escrow_settles_once_witness:
  "escrow_leg toy_pda (toy_claimed\<lparr>lez_now := 80000\<rparr>) = escrow_leg toy_pda toy_claimed"
proof -
  have "lez_step toy_rt toy_pda toy_claimed (LezTick 80000) (toy_claimed\<lparr>lez_now := 80000\<rparr>)"
    by (rule lez_tick) (simp add: toy_run_defs)
  then have "(lez_moves toy_rt toy_pda)\<^sup>*\<^sup>* toy_claimed (toy_claimed\<lparr>lez_now := 80000\<rparr>)"
    unfolding lez_moves_def by blast
  then show ?thesis
    using escrow_settles_once [OF toy_fresh_ok toy_steps] toy_claimed_leg by blast
qed

text \<open>
  The program and native transfers create and destroy nothing: over any finite set of
  accounts that contains the escrow and the accounts of the event, whose total fits in 128
  bits, every step keeps the total of the balances.
\<close>

lemma lez_conserves_balance:
  assumes "lez_step rt pda w ev w'" and "finite A" and "pda \<in> A" and "event_accounts ev \<subseteq> A"
    and "total_balance A w < 2 ^ 128"
  shows "total_balance A w' = total_balance A w"
  using assms by (rule lez_step_total)

lemma lez_conserves_balance_witness:
  "total_balance {toy_pda, toy_maker, toy_taker} toy_claimed =
   total_balance {toy_pda, toy_maker, toy_taker} toy_funded"
  by (rule lez_conserves_balance [OF toy_claim_event]) (simp_all add: total_balance_def toy_run_defs)

text \<open>
  A locked escrow whose account holds less than its amount is stuck: a claim with any
  preimage and a refund at any time both fail, whoever signs them, and locking again fails
  too, so only a further deposit can free it.
\<close>

lemma underfunded_escrow_stuck:
  assumes "escrow_ok rt e" and "data (am_account pda) = to_bytes e" and "esc_state e = Locked"
    and "balance (am_account pda) < esc_amount e" and "data (default_account rt) = []"
  shows "\<exists>m. htlc_main rt [s, pda] instr = Inl m"
proof -
  have "to_bytes e \<noteq> []"
    using assms(1) length_to_bytes [of e] by (auto simp: escrow_ok_def)
  then have "am_account pda \<noteq> default_account rt" using assms(2,5) by auto
  then have "htlc_main rt [s, pda] instr \<noteq> Inr out" for out
    using assms(1-4) decode_ok [OF assms(1)]
    by (cases instr) (auto simp: checked_bind_Inr_iff execute_lock_Inr_iff execute_claim_Inr_iff
        execute_refund_Inr_iff Let_def split: prod.splits)
  then show ?thesis by (cases "htlc_main rt [s, pda] instr") auto
qed

lemma underfunded_escrow_stuck_witness:
  "\<exists>m. htlc_main toy_rt
     [\<lparr>am_account = toy_account 5 [], is_authorized = True, am_account_id = toy_taker\<rparr>,
      \<lparr>am_account = toy_account 999 (to_bytes toy_escrow), is_authorized = False, am_account_id = toy_pda\<rparr>]
     (ClaimInstr toy_secret) = Inl m"
  by (rule underfunded_escrow_stuck [OF toy_escrow_ok]) (simp_all add: toy_account_def toy_rt_def)

end
