(* ===== verification/Eth_Htlc_Contract.thy ===== *)
theory Eth_Htlc_Contract
  imports Htlc_Spec
begin

text \<open>
  The Ethereum side, \<open>contracts/src/EthHTLC.sol\<close>: \<open>lock\<close>, \<open>claim\<close>, \<open>refund\<close> and
  \<open>getHTLC\<close> with every revert as a branch. The value transfer of a claim or refund hands
  control to the recipient, which may call back into the contract before it accepts or rejects
  the payment; a transaction therefore carries the calls its callee makes, and all theorems
  hold for every such re-entrant behaviour.
\<close>

section \<open>State\<close>

datatype swap_state = EMPTY | OPEN | CLAIMED | REFUNDED

record eth_htlc =
  htlc_sender :: address
  htlc_recipient :: address
  htlc_amount :: u256
  htlc_hashlock :: bytes32
  htlc_timelock :: u256
  htlc_takerLezAccount :: bytes32
  htlc_swapState :: swap_state

datatype eth_event =
    EvLocked bytes32 address address u256 bytes32 u256 bytes32
  | EvClaimed bytes32 bytes32
  | EvRefunded bytes32

datatype eth_error =
    InvalidAmount | InvalidHashLock | InvalidTimelock | InvalidRecipient | InvalidTakerLezAccount
  | SwapAlreadyExists | SwapNotOpen | InvalidPreimage | TimelockNotExpired | NotRecipient
  | NotSender | TransferFailed | ArithmeticPanic

text \<open>
  The contract's storage, its balance in wei, the block time, and two histories: the events
  emitted and the payments made (the swap, the payee, the amount).
\<close>

record eth_state =
  htlcs :: "bytes32 \<Rightarrow> eth_htlc"
  contract_balance :: nat
  block_timestamp :: u256
  eth_events :: "eth_event list"
  eth_payments :: "(bytes32 \<times> address \<times> u256) list"

text \<open>The two hash functions of the EVM and the constructor's immutable.\<close>

record eth_env =
  keccak256 :: "bytes \<Rightarrow> bytes32"
  eth_sha256 :: "bytes \<Rightarrow> bytes32"
  minTimelockDelta :: u256

definition empty_htlc :: eth_htlc where
  "empty_htlc = \<lparr> htlc_sender = 0, htlc_recipient = 0, htlc_amount = 0, htlc_hashlock = zero32,
     htlc_timelock = 0, htlc_takerLezAccount = zero32, htlc_swapState = EMPTY \<rparr>"

definition deployed :: "u256 \<Rightarrow> eth_state" where
  "deployed t = \<lparr> htlcs = (\<lambda>_. empty_htlc), contract_balance = 0, block_timestamp = t,
     eth_events = [], eth_payments = [] \<rparr>"

definition getHTLC :: "bytes32 \<Rightarrow> eth_state \<Rightarrow> eth_htlc" where
  "getHTLC swapId s = htlcs s swapId"

definition set_state :: "bytes32 \<Rightarrow> swap_state \<Rightarrow> eth_state \<Rightarrow> eth_state" where
  "set_state swapId st s = s\<lparr>htlcs := (htlcs s)(swapId := (htlcs s swapId)\<lparr>htlc_swapState := st\<rparr>)\<rparr>"

definition emit_ev :: "eth_event \<Rightarrow> eth_state \<Rightarrow> eth_state" where
  "emit_ev ev s = s\<lparr>eth_events := eth_events s @ [ev]\<rparr>"

section \<open>Operations\<close>

definition packed_terms :: "address \<Rightarrow> address \<Rightarrow> u256 \<Rightarrow> bytes32 \<Rightarrow> u256 \<Rightarrow> bytes32 \<Rightarrow> bytes" where
  "packed_terms sender recipient amount hashlock timelock takerLez =
     be_bytes 20 sender @ be_bytes 20 recipient @ be_bytes 32 amount @ hashlock @
     be_bytes 32 timelock @ takerLez"

definition lock ::
  "eth_env \<Rightarrow> address \<Rightarrow> u256 \<Rightarrow> bytes32 \<Rightarrow> u256 \<Rightarrow> address \<Rightarrow> bytes32 \<Rightarrow> eth_state
   \<Rightarrow> eth_error + (bytes32 \<times> eth_state)" where
  "lock env sender val hashlock timelock recipient takerLez s =
     (if val = 0 then Inl InvalidAmount
      else if 2 ^ 256 \<le> unat (block_timestamp s) + unat (minTimelockDelta env) then Inl ArithmeticPanic
      else if timelock \<le> block_timestamp s + minTimelockDelta env then Inl InvalidTimelock
      else if recipient = 0 then Inl InvalidRecipient
      else if hashlock = zero32 then Inl InvalidHashLock
      else if takerLez = zero32 then Inl InvalidTakerLezAccount
      else
        let swapId = keccak256 env (packed_terms sender recipient val hashlock timelock takerLez) in
        if htlc_swapState (htlcs s swapId) \<noteq> EMPTY then Inl SwapAlreadyExists
        else Inr (swapId,
          emit_ev (EvLocked swapId sender recipient val hashlock timelock takerLez)
            (s\<lparr>htlcs := (htlcs s)(swapId :=
                 \<lparr> htlc_sender = sender, htlc_recipient = recipient, htlc_amount = val,
                   htlc_hashlock = hashlock, htlc_timelock = timelock,
                   htlc_takerLezAccount = takerLez, htlc_swapState = OPEN \<rparr>),
               contract_balance := contract_balance s + unat val\<rparr>)))"

text \<open>
  \<open>to.call{value: amount}("")\<close>: the payment is recorded, then \<open>callee\<close> runs on the state
  after it; \<open>None\<close> is a callee that reverts, and the caller reverts with it.
\<close>

definition send_value ::
  "(eth_state \<Rightarrow> eth_state option) \<Rightarrow> bytes32 \<Rightarrow> address \<Rightarrow> u256 \<Rightarrow> eth_state \<Rightarrow> eth_state option" where
  "send_value callee swapId to amount s =
     (if contract_balance s < unat amount then None
      else callee (s\<lparr>contract_balance := contract_balance s - unat amount,
                     eth_payments := eth_payments s @ [(swapId, to, amount)]\<rparr>))"

definition claim ::
  "eth_env \<Rightarrow> (eth_state \<Rightarrow> eth_state option) \<Rightarrow> address \<Rightarrow> bytes32 \<Rightarrow> bytes32 \<Rightarrow> eth_state
   \<Rightarrow> eth_error + eth_state" where
  "claim env callee sender swapId preimage s =
     (let htlc = htlcs s swapId in
      if htlc_swapState htlc \<noteq> OPEN then Inl SwapNotOpen
      else if sender \<noteq> htlc_recipient htlc then Inl NotRecipient
      else if eth_sha256 env preimage \<noteq> htlc_hashlock htlc then Inl InvalidPreimage
      else
        (case send_value callee swapId (htlc_recipient htlc) (htlc_amount htlc)
                (emit_ev (EvClaimed swapId preimage) (set_state swapId CLAIMED s)) of
           None \<Rightarrow> Inl TransferFailed
         | Some s' \<Rightarrow> Inr s'))"

definition refund ::
  "(eth_state \<Rightarrow> eth_state option) \<Rightarrow> address \<Rightarrow> bytes32 \<Rightarrow> eth_state \<Rightarrow> eth_error + eth_state" where
  "refund callee sender swapId s =
     (let htlc = htlcs s swapId in
      if htlc_swapState htlc \<noteq> OPEN then Inl SwapNotOpen
      else if block_timestamp s < htlc_timelock htlc then Inl TimelockNotExpired
      else if sender \<noteq> htlc_sender htlc then Inl NotSender
      else
        (case send_value callee swapId (htlc_sender htlc) (htlc_amount htlc)
                (emit_ev (EvRefunded swapId) (set_state swapId REFUNDED s)) of
           None \<Rightarrow> Inl TransferFailed
         | Some s' \<Rightarrow> Inr s'))"

section \<open>Transactions\<close>

text \<open>
  A call to the contract, and for a claim or a refund what the paid account does when it
  receives the value: the calls it makes (those that revert have no effect) and whether it
  accepts.
\<close>

datatype eth_tx =
    TxLock address u256 bytes32 u256 address bytes32
  | TxClaim address bytes32 bytes32 "eth_tx list" bool
  | TxRefund address bytes32 "eth_tx list" bool

fun exec_tx :: "eth_env \<Rightarrow> eth_tx \<Rightarrow> eth_state \<Rightarrow> eth_error + eth_state"
and run_callee :: "eth_env \<Rightarrow> eth_tx list \<Rightarrow> bool \<Rightarrow> eth_state \<Rightarrow> eth_state option" where
  "exec_tx env (TxLock sender val hashlock timelock recipient takerLez) s =
     (case lock env sender val hashlock timelock recipient takerLez s of
        Inl e \<Rightarrow> Inl e | Inr (swapId, s') \<Rightarrow> Inr s')"
| "exec_tx env (TxClaim sender swapId preimage calls accept) s =
     claim env (\<lambda>s'. run_callee env calls accept s') sender swapId preimage s"
| "exec_tx env (TxRefund sender swapId calls accept) s =
     refund (\<lambda>s'. run_callee env calls accept s') sender swapId s"
| "run_callee env [] accept s = (if accept then Some s else None)"
| "run_callee env (t # ts) accept s =
     run_callee env ts accept (case exec_tx env t s of Inl e \<Rightarrow> s | Inr s' \<Rightarrow> s')"

fun wf_tx :: "eth_tx \<Rightarrow> bool" where
  "wf_tx (TxLock sender val hashlock timelock recipient takerLez) \<longleftrightarrow>
     is_bytes32 hashlock \<and> is_bytes32 takerLez"
| "wf_tx (TxClaim sender swapId preimage calls accept) \<longleftrightarrow>
     is_bytes32 preimage \<and> list_all wf_tx calls"
| "wf_tx (TxRefund sender swapId calls accept) \<longleftrightarrow> list_all wf_tx calls"

section \<open>Every transaction is a sequence of atomic effects\<close>

definition paid_out :: "bytes32 \<Rightarrow> address \<Rightarrow> u256 \<Rightarrow> eth_state \<Rightarrow> eth_state" where
  "paid_out swapId to amount s =
     s\<lparr>contract_balance := contract_balance s - unat amount,
       eth_payments := eth_payments s @ [(swapId, to, amount)]\<rparr>"

inductive micro :: "eth_env \<Rightarrow> eth_state \<Rightarrow> eth_state \<Rightarrow> bool" for env :: eth_env where
  m_lock: "is_bytes32 h \<Longrightarrow> is_bytes32 acc \<Longrightarrow> lock env sender val h t r acc s = Inr (i, s') \<Longrightarrow> micro env s s'"
| m_claim: "htlc_swapState (htlcs s i) = OPEN \<Longrightarrow> is_bytes32 p \<Longrightarrow>
    eth_sha256 env p = htlc_hashlock (htlcs s i) \<Longrightarrow>
    unat (htlc_amount (htlcs s i)) \<le> contract_balance s \<Longrightarrow>
    micro env s (paid_out i (htlc_recipient (htlcs s i)) (htlc_amount (htlcs s i))
       (emit_ev (EvClaimed i p) (set_state i CLAIMED s)))"
| m_refund: "htlc_swapState (htlcs s i) = OPEN \<Longrightarrow> htlc_timelock (htlcs s i) \<le> block_timestamp s \<Longrightarrow>
    unat (htlc_amount (htlcs s i)) \<le> contract_balance s \<Longrightarrow>
    micro env s (paid_out i (htlc_sender (htlcs s i)) (htlc_amount (htlcs s i))
       (emit_ev (EvRefunded i) (set_state i REFUNDED s)))"

lemma contract_balance_set_emit [simp]:
  "contract_balance (emit_ev ev s) = contract_balance s"
  "contract_balance (set_state i st s) = contract_balance s"
  by (simp_all add: emit_ev_def set_state_def)

lemma send_value_Some:
  "send_value callee i to amt s = Some s' \<longleftrightarrow>
     unat amt \<le> contract_balance s \<and> callee (paid_out i to amt s) = Some s'"
  by (auto simp: send_value_def paid_out_def)

lemma exec_micro:
  shows "exec_tx env t s = Inr s' \<Longrightarrow> wf_tx t \<Longrightarrow> (micro env)\<^sup>*\<^sup>* s s'"
    and "run_callee env ts accept s = Some s' \<Longrightarrow> list_all wf_tx ts \<Longrightarrow> (micro env)\<^sup>*\<^sup>* s s'"
proof (induction env t s and env ts accept s arbitrary: s' and s' rule: exec_tx_run_callee.induct)
  case (1 env sender val hashlock timelock recipient takerLez s)
  then show ?case by (auto split: sum.splits intro: m_lock)
next
  case (2 env sender swapId preimage calls accept s)
  let ?h = "htlcs s swapId"
  let ?s = "paid_out swapId (htlc_recipient ?h) (htlc_amount ?h)
    (emit_ev (EvClaimed swapId preimage) (set_state swapId CLAIMED s))"
  from 2(2,3) have "run_callee env calls accept ?s = Some s'"
      and g: "htlc_swapState ?h = OPEN" "eth_sha256 env preimage = htlc_hashlock ?h"
        "unat (htlc_amount ?h) \<le> contract_balance s" "is_bytes32 preimage"
    by (auto simp: claim_def Let_def send_value_Some split: if_splits option.splits)
  then have "(micro env)\<^sup>*\<^sup>* ?s s'" using 2 by simp
  moreover have "micro env s ?s" using g by (intro m_claim)
  ultimately show ?case by (rule converse_rtranclp_into_rtranclp [rotated])
next
  case (3 env sender swapId calls accept s)
  let ?h = "htlcs s swapId"
  let ?s = "paid_out swapId (htlc_sender ?h) (htlc_amount ?h)
    (emit_ev (EvRefunded swapId) (set_state swapId REFUNDED s))"
  from 3(2,3) have "run_callee env calls accept ?s = Some s'"
      and g: "htlc_swapState ?h = OPEN" "htlc_timelock ?h \<le> block_timestamp s"
        "unat (htlc_amount ?h) \<le> contract_balance s"
    by (auto simp: refund_def Let_def send_value_Some split: if_splits option.splits)
  then have "(micro env)\<^sup>*\<^sup>* ?s s'" using 3 by simp
  moreover have "micro env s ?s" using g by (intro m_refund)
  ultimately show ?case by (rule converse_rtranclp_into_rtranclp [rotated])
next
  case (4 env accept s)
  then show ?case by (simp split: if_splits)
next
  case (5 env t ts accept s)
  show ?case
  proof (cases "exec_tx env t s")
    case (Inl e)
    then show ?thesis using 5 by simp
  next
    case (Inr s1)
    then have "(micro env)\<^sup>*\<^sup>* s s1" using 5 by simp
    moreover have "(micro env)\<^sup>*\<^sup>* s1 s'" using 5 Inr by simp
    ultimately show ?thesis by simp
  qed
qed

section \<open>Invariant\<close>

definition open_swaps :: "eth_state \<Rightarrow> bytes32 set" where
  "open_swaps s = {i. htlc_swapState (htlcs s i) = OPEN}"

definition used_swaps :: "eth_state \<Rightarrow> bytes32 set" where
  "used_swaps s = {i. htlc_swapState (htlcs s i) \<noteq> EMPTY}"

definition open_total :: "eth_state \<Rightarrow> nat" where
  "open_total s = (\<Sum>i\<in>open_swaps s. unat (htlc_amount (htlcs s i)))"

fun claims_of :: "bytes32 \<Rightarrow> eth_event list \<Rightarrow> bytes32 list" where
  "claims_of i [] = []"
| "claims_of i (EvClaimed j p # evs) = (if j = i then p # claims_of i evs else claims_of i evs)"
| "claims_of i (_ # evs) = claims_of i evs"

definition payments_of :: "bytes32 \<Rightarrow> eth_state \<Rightarrow> (address \<times> u256) list" where
  "payments_of i s = map snd (filter (\<lambda>x. fst x = i) (eth_payments s))"

lemma claims_of_append [simp]: "claims_of i (xs @ ys) = claims_of i xs @ claims_of i ys"
  by (induction i xs rule: claims_of.induct) auto

text \<open>What the histories say of one swap, by its state.\<close>

definition swap_ok :: "eth_env \<Rightarrow> eth_state \<Rightarrow> bytes32 \<Rightarrow> bool" where
  "swap_ok env s i \<longleftrightarrow>
     (let h = htlcs s i in
      case htlc_swapState h of
        CLAIMED \<Rightarrow> payments_of i s = [(htlc_recipient h, htlc_amount h)] \<and>
          (\<exists>p. claims_of i (eth_events s) = [p] \<and> is_bytes32 p \<and> eth_sha256 env p = htlc_hashlock h)
      | REFUNDED \<Rightarrow> payments_of i s = [(htlc_sender h, htlc_amount h)] \<and> claims_of i (eth_events s) = []
      | _ \<Rightarrow> payments_of i s = [] \<and> claims_of i (eth_events s) = [])"

definition eth_inv :: "eth_env \<Rightarrow> eth_state \<Rightarrow> bool" where
  "eth_inv env s \<longleftrightarrow> finite (used_swaps s) \<and> open_total s \<le> contract_balance s \<and> (\<forall>i. swap_ok env s i)"

lemma lock_Inr_iff:
  "lock env sender val h t r acc s = Inr (i, s') \<longleftrightarrow>
     val \<noteq> 0 \<and> unat (block_timestamp s) + unat (minTimelockDelta env) < 2 ^ 256 \<and>
     block_timestamp s + minTimelockDelta env < t \<and> r \<noteq> 0 \<and> h \<noteq> zero32 \<and> acc \<noteq> zero32 \<and>
     i = keccak256 env (packed_terms sender r val h t acc) \<and> htlc_swapState (htlcs s i) = EMPTY \<and>
     s' = emit_ev (EvLocked i sender r val h t acc)
       (s\<lparr>htlcs := (htlcs s)(i := \<lparr> htlc_sender = sender, htlc_recipient = r, htlc_amount = val,
            htlc_hashlock = h, htlc_timelock = t, htlc_takerLezAccount = acc, htlc_swapState = OPEN \<rparr>),
          contract_balance := contract_balance s + unat val\<rparr>)"
  by (auto simp: lock_def Let_def)

lemma finite_open: "finite (used_swaps s) \<Longrightarrow> finite (open_swaps s)"
  by (rule finite_subset [of _ "used_swaps s"]) (auto simp: open_swaps_def used_swaps_def)

text \<open>The locked total after a lock and after a settlement.\<close>

lemma open_total_add:
  assumes "finite (used_swaps s)" "i \<notin> open_swaps s" "htlc_swapState h = OPEN"
    "htlcs s' = (htlcs s)(i := h)"
  shows "open_total s' = open_total s + unat (htlc_amount h)"
proof -
  have "open_swaps s' = insert i (open_swaps s)"
    using assms by (auto simp: open_swaps_def)
  moreover have "(\<Sum>j\<in>open_swaps s. unat (htlc_amount (htlcs s' j))) = open_total s"
    unfolding open_total_def using assms by (intro sum.cong) auto
  ultimately show ?thesis
    using assms finite_open [of s] by (simp add: open_total_def)
qed

lemma open_total_remove:
  assumes "finite (used_swaps s)" "i \<in> open_swaps s" "htlc_swapState h \<noteq> OPEN"
    "htlcs s' = (htlcs s)(i := h)"
  shows "open_total s = open_total s' + unat (htlc_amount (htlcs s i))"
proof -
  have "open_swaps s' = open_swaps s - {i}"
    using assms by (auto simp: open_swaps_def)
  moreover have "(\<Sum>j\<in>open_swaps s - {i}. unat (htlc_amount (htlcs s' j))) =
      (\<Sum>j\<in>open_swaps s - {i}. unat (htlc_amount (htlcs s j)))"
    using assms by (intro sum.cong) auto
  ultimately show ?thesis
    using assms finite_open [of s] by (simp add: open_total_def sum.remove)
qed

lemma swap_open_amount:
  "eth_inv env s \<Longrightarrow> htlc_swapState (htlcs s i) = OPEN \<Longrightarrow> unat (htlc_amount (htlcs s i)) \<le> contract_balance s"
  using member_le_sum [of i "open_swaps s" "\<lambda>i. unat (htlc_amount (htlcs s i))"] finite_open [of s]
  by (auto simp: eth_inv_def open_total_def open_swaps_def)

lemmas effect_defs = paid_out_def emit_ev_def set_state_def

lemma used_swaps_finite_upd:
  "finite (used_swaps s) \<Longrightarrow> htlcs s' = (htlcs s)(i := h) \<Longrightarrow> finite (used_swaps s')"
  by (rule finite_subset [of _ "insert i (used_swaps s)"]) (auto simp: used_swaps_def)

lemma micro_inv:
  assumes "micro env s s'" "eth_inv env s"
  shows "eth_inv env s'"
  using assms
proof (induction rule: micro.induct)
  case (m_lock h acc sender val t r s i s')
  then have fin: "finite (used_swaps s)" and e: "htlc_swapState (htlcs s i) = EMPTY"
      and s': "htlcs s' = (htlcs s)(i := \<lparr> htlc_sender = sender, htlc_recipient = r, htlc_amount = val,
            htlc_hashlock = h, htlc_timelock = t, htlc_takerLezAccount = acc, htlc_swapState = OPEN \<rparr>)"
      and b: "contract_balance s' = contract_balance s + unat val"
      and ev: "eth_events s' = eth_events s @ [EvLocked i sender r val h t acc]" "eth_payments s' = eth_payments s"
    by (auto simp: lock_Inr_iff eth_inv_def emit_ev_def)
  have "open_total s' = open_total s + unat val"
    using open_total_add [OF fin _ _ s'] e by (simp add: open_swaps_def)
  moreover have "swap_ok env s' j" for j
    using m_lock e by (auto simp: eth_inv_def swap_ok_def s' ev payments_of_def Let_def split: swap_state.splits dest: spec [of _ i])
  ultimately show ?case using m_lock used_swaps_finite_upd [OF fin s'] b by (auto simp: eth_inv_def)
next
  case (m_claim s i p)
  let ?s = "paid_out i (htlc_recipient (htlcs s i)) (htlc_amount (htlcs s i))
    (emit_ev (EvClaimed i p) (set_state i CLAIMED s))"
  have fin: "finite (used_swaps s)" using m_claim by (simp add: eth_inv_def)
  have upd: "htlcs ?s = (htlcs s)(i := (htlcs s i)\<lparr>htlc_swapState := CLAIMED\<rparr>)"
    by (simp add: effect_defs)
  have "open_total s = open_total ?s + unat (htlc_amount (htlcs s i))"
    using open_total_remove [OF fin _ _ upd] m_claim by (simp add: open_swaps_def)
  moreover have "swap_ok env ?s j" for j
    using m_claim by (auto simp: eth_inv_def swap_ok_def effect_defs payments_of_def Let_def
        split: swap_state.splits dest: spec [of _ i])
  ultimately show ?case using m_claim used_swaps_finite_upd [OF fin upd]
    by (auto simp: eth_inv_def effect_defs)
next
  case (m_refund s i)
  let ?s = "paid_out i (htlc_sender (htlcs s i)) (htlc_amount (htlcs s i))
    (emit_ev (EvRefunded i) (set_state i REFUNDED s))"
  have fin: "finite (used_swaps s)" using m_refund by (simp add: eth_inv_def)
  have upd: "htlcs ?s = (htlcs s)(i := (htlcs s i)\<lparr>htlc_swapState := REFUNDED\<rparr>)"
    by (simp add: effect_defs)
  have "open_total s = open_total ?s + unat (htlc_amount (htlcs s i))"
    using open_total_remove [OF fin _ _ upd] m_refund by (simp add: open_swaps_def)
  moreover have "swap_ok env ?s j" for j
    using m_refund by (auto simp: eth_inv_def swap_ok_def effect_defs payments_of_def Let_def
        split: swap_state.splits dest: spec [of _ i])
  ultimately show ?case using m_refund used_swaps_finite_upd [OF fin upd]
    by (auto simp: eth_inv_def effect_defs)
qed

lemma micros_inv: "(micro env)\<^sup>*\<^sup>* s s' \<Longrightarrow> eth_inv env s \<Longrightarrow> eth_inv env s'"
  by (induction rule: rtranclp_induct) (auto intro: micro_inv)

lemma micro_time: "micro env s s' \<Longrightarrow> block_timestamp s' = block_timestamp s"
  by (induction rule: micro.induct) (auto simp: lock_Inr_iff effect_defs)

lemma micros_time: "(micro env)\<^sup>*\<^sup>* s s' \<Longrightarrow> block_timestamp s' = block_timestamp s"
  by (induction rule: rtranclp_induct) (auto dest: micro_time)

section \<open>The contract as a leg of the swap\<close>

inductive eth_step :: "eth_env \<Rightarrow> eth_state \<Rightarrow> eth_state \<Rightarrow> bool" for env :: eth_env where
  eth_exec: "wf_tx t \<Longrightarrow> exec_tx env t s = Inr s' \<Longrightarrow> eth_step env s s'"
| eth_force: "eth_step env s (s\<lparr>contract_balance := contract_balance s + n\<rparr>)"
| eth_tick: "block_timestamp s \<le> t \<Longrightarrow> eth_step env s (s\<lparr>block_timestamp := t\<rparr>)"

definition eth_terms :: "eth_htlc \<Rightarrow> address htlc_terms" where
  "eth_terms h = \<lparr>terms_hashlock = htlc_hashlock h, terms_payer = htlc_sender h,
     terms_payee = htlc_recipient h, terms_amount = unat (htlc_amount h),
     terms_expiry = unat (htlc_timelock h)\<rparr>"

definition eth_leg :: "bytes32 \<Rightarrow> eth_state \<Rightarrow> address leg" where
  "eth_leg i s =
     (let h = htlcs s i in
      case htlc_swapState h of
        EMPTY \<Rightarrow> LegAbsent
      | OPEN \<Rightarrow> LegOpen (eth_terms h)
      | CLAIMED \<Rightarrow> LegPaid (eth_terms h) (hd (claims_of i (eth_events s)))
      | REFUNDED \<Rightarrow> LegReturned (eth_terms h))"

lemma eth_terms_state [simp]: "eth_terms (h\<lparr>htlc_swapState := st\<rparr>) = eth_terms h"
  by (simp add: eth_terms_def)

lemma claimed_has_event:
  "eth_inv env s \<Longrightarrow> htlc_swapState (htlcs s i) = CLAIMED \<Longrightarrow> claims_of i (eth_events s) \<noteq> []"
  unfolding eth_inv_def swap_ok_def Let_def by (drule conjunct2, drule conjunct2, drule spec [of _ i]) auto

lemma open_no_event:
  "eth_inv env s \<Longrightarrow> htlc_swapState (htlcs s i) = OPEN \<Longrightarrow> claims_of i (eth_events s) = []"
  unfolding eth_inv_def swap_ok_def Let_def by (drule conjunct2, drule conjunct2, drule spec [of _ i]) auto

lemma eth_leg_frame:
  assumes "eth_inv env s" "htlcs s' i = htlcs s i" "eth_events s' = eth_events s @ evs"
  shows "eth_leg i s' = eth_leg i s"
  using assms claimed_has_event [OF assms(1), of i] by (auto simp: eth_leg_def Let_def split: swap_state.splits)

lemma micro_refines:
  assumes "micro env s s'" "eth_inv env s"
  shows "abs_step (eth_sha256 env) (unat (block_timestamp s)) (eth_leg j s) (eth_leg j s')"
  using assms
proof (induction rule: micro.induct)
  case (m_lock h acc sender val t r s i s')
  show ?case
  proof (cases "j = i")
    case True
    with m_lock show ?thesis by (auto simp: lock_Inr_iff eth_leg_def emit_ev_def Let_def intro: abs_lock)
  next
    case False
    have "eth_leg j s' = eth_leg j s"
      by (rule eth_leg_frame) (use m_lock False in \<open>auto simp: lock_Inr_iff emit_ev_def\<close>)
    then show ?thesis by (simp add: abs_idle)
  qed
next
  case (m_claim s i p)
  let ?s = "paid_out i (htlc_recipient (htlcs s i)) (htlc_amount (htlcs s i))
    (emit_ev (EvClaimed i p) (set_state i CLAIMED s))"
  show ?case
  proof (cases "j = i")
    case True
    with m_claim open_no_event [of env s i] show ?thesis
      by (auto simp: eth_leg_def effect_defs Let_def eth_terms_def is_bytes32_def intro!: abs_pay)
  next
    case False
    have "eth_leg j ?s = eth_leg j s"
      by (rule eth_leg_frame) (use m_claim False in \<open>auto simp: effect_defs\<close>)
    then show ?thesis by (simp add: abs_idle)
  qed
next
  case (m_refund s i)
  let ?s = "paid_out i (htlc_sender (htlcs s i)) (htlc_amount (htlcs s i))
    (emit_ev (EvRefunded i) (set_state i REFUNDED s))"
  show ?case
  proof (cases "j = i")
    case True
    with m_refund show ?thesis
      by (auto simp: eth_leg_def effect_defs Let_def eth_terms_def word_le_nat_alt intro!: abs_return)
  next
    case False
    have "eth_leg j ?s = eth_leg j s"
      by (rule eth_leg_frame) (use m_refund False in \<open>auto simp: effect_defs\<close>)
    then show ?thesis by (simp add: abs_idle)
  qed
qed

lemma micros_refine:
  assumes "(micro env)\<^sup>*\<^sup>* s s'" "eth_inv env s"
  shows "(abs_step (eth_sha256 env) (unat (block_timestamp s)))\<^sup>*\<^sup>* (eth_leg j s) (eth_leg j s')"
  using assms
proof (induction rule: rtranclp_induct)
  case (step y z)
  have "abs_step (eth_sha256 env) (unat (block_timestamp s)) (eth_leg j y) (eth_leg j z)"
    using micro_refines [OF step(2) micros_inv [OF step(1,4)]] micros_time [OF step(1)] by simp
  with step show ?case by simp
qed simp

lemma swap_ok_frame:
  "htlcs s' = htlcs s \<Longrightarrow> eth_events s' = eth_events s \<Longrightarrow> eth_payments s' = eth_payments s \<Longrightarrow>
   swap_ok env s' i = swap_ok env s i"
  by (simp add: swap_ok_def payments_of_def Let_def split: swap_state.splits)

lemma eth_leg_balance_time [simp]:
  "eth_leg i (s\<lparr>contract_balance := n\<rparr>) = eth_leg i s" "eth_leg i (s\<lparr>block_timestamp := t\<rparr>) = eth_leg i s"
  by (simp_all add: eth_leg_def Let_def split: swap_state.splits)

lemma eth_inv_balance_time:
  "eth_inv env s \<Longrightarrow> eth_inv env (s\<lparr>contract_balance := contract_balance s + n\<rparr>)"
  "eth_inv env s \<Longrightarrow> eth_inv env (s\<lparr>block_timestamp := t\<rparr>)"
  by (auto simp: eth_inv_def used_swaps_def open_total_def open_swaps_def
      intro: swap_ok_frame [THEN iffD2])

lemma eth_step_inv: "eth_step env s s' \<Longrightarrow> eth_inv env s \<Longrightarrow> eth_inv env s'"
  by (induction rule: eth_step.induct) (auto intro: micros_inv exec_micro eth_inv_balance_time)

interpretation eth: htlc_leg "eth_sha256 env" "eth_step env" "eth_inv env" "eth_leg i"
  "\<lambda>s. unat (block_timestamp s)" for env :: eth_env and i :: bytes32
proof unfold_locales
  fix s s'
  assume step: "eth_step env s s'"
  then show "eth_inv env s \<Longrightarrow> eth_inv env s'" by (rule eth_step_inv)
  show "eth_inv env s \<Longrightarrow>
      (abs_step (eth_sha256 env) (unat (block_timestamp s)))\<^sup>*\<^sup>* (eth_leg i s) (eth_leg i s')"
    using step by (induction rule: eth_step.induct)
      (auto intro: micros_refine exec_micro)
  show "unat (block_timestamp s) \<le> unat (block_timestamp s')"
    using step by (induction rule: eth_step.induct)
      (auto dest!: exec_micro micros_time simp: word_le_nat_alt)
qed

lemma deployed_inv: "eth_inv env (deployed t)"
  by (simp add: eth_inv_def deployed_def used_swaps_def empty_htlc_def open_total_def open_swaps_def
      swap_ok_def payments_of_def)

lemma reachable_inv: "(eth_step env)\<^sup>*\<^sup>* (deployed t) s \<Longrightarrow> eth_inv env s"
  by (rule eth.inv_steps [OF _ deployed_inv])

lemma deployed_leg: "eth_leg i (deployed t) = LegAbsent"
  by (simp add: eth_leg_def deployed_def empty_htlc_def)

section \<open>A concrete run\<close>

definition toy_eth :: eth_env where
  "toy_eth = \<lparr> keccak256 = (\<lambda>b. take 32 (drop 8 b)), eth_sha256 = (\<lambda>b. b), minTimelockDelta = 60 \<rparr>"

definition toy_lock_tx :: eth_tx where
  "toy_lock_tx = TxLock 11 500 (replicate 32 7) 9000 22 (replicate 32 2)"

definition toy_swap_id :: bytes32 where
  "toy_swap_id = take 32 (drop 8 (packed_terms 11 22 500 (replicate 32 7) 9000 (replicate 32 2)))"

definition toy_open :: eth_state where
  "toy_open = emit_ev (EvLocked toy_swap_id 11 22 500 (replicate 32 7) 9000 (replicate 32 2))
     ((deployed 1000)\<lparr>htlcs := (htlcs (deployed 1000))(toy_swap_id :=
          \<lparr> htlc_sender = 11, htlc_recipient = 22, htlc_amount = 500, htlc_hashlock = replicate 32 7,
            htlc_timelock = 9000, htlc_takerLezAccount = replicate 32 2, htlc_swapState = OPEN \<rparr>),
        contract_balance := 500\<rparr>)"

lemma toy_lock_runs: "exec_tx toy_eth toy_lock_tx (deployed 1000) = Inr toy_open"
proof -
  have "replicate 32 7 \<noteq> zero32" "replicate 32 2 \<noteq> zero32" by (simp_all add: zero32_def)
  then have "lock toy_eth 11 500 (replicate 32 7) 9000 22 (replicate 32 2) (deployed 1000)
      = Inr (toy_swap_id, toy_open)"
    unfolding lock_Inr_iff
    by (simp add: toy_eth_def toy_swap_id_def toy_open_def deployed_def empty_htlc_def)
  then show ?thesis by (simp add: toy_lock_tx_def)
qed

lemma toy_open_reachable: "(eth_step toy_eth)\<^sup>*\<^sup>* (deployed 1000) toy_open"
  using toy_lock_runs by (intro r_into_rtranclp eth_exec [of toy_lock_tx])
    (simp_all add: toy_lock_tx_def is_bytes32_def)

lemma toy_open_swap:
  "htlc_swapState (htlcs toy_open toy_swap_id) = OPEN"
  "htlc_recipient (htlcs toy_open toy_swap_id) = 22"
  "htlc_hashlock (htlcs toy_open toy_swap_id) = replicate 32 7"
  by (simp_all add: toy_open_def emit_ev_def)

section \<open>Properties\<close>

text \<open>
  C14. The contract is solvent and an open swap can always be paid: in every state reachable
  from deployment, under any transactions and any re-entrant behaviour of the accounts that
  are paid, the balance covers the sum of all open swaps; and the claim of an open swap by its
  recipient with a preimage of the hashlock never reverts, provided the recipient accepts the
  payment.
\<close>

theorem eth_solvent:
  assumes "(eth_step env)\<^sup>*\<^sup>* (deployed t) s"
  shows "open_total s \<le> contract_balance s \<and>
    (htlc_swapState (htlcs s i) = OPEN \<and> eth_sha256 env p = htlc_hashlock (htlcs s i) \<longrightarrow>
       (\<exists>s'. exec_tx env (TxClaim (htlc_recipient (htlcs s i)) i p [] True) s = Inr s' \<and>
             htlc_swapState (htlcs s' i) = CLAIMED))"
proof -
  note inv = reachable_inv [OF assms]
  have "\<exists>s'. exec_tx env (TxClaim (htlc_recipient (htlcs s i)) i p [] True) s = Inr s' \<and>
      htlc_swapState (htlcs s' i) = CLAIMED"
    if "htlc_swapState (htlcs s i) = OPEN" "eth_sha256 env p = htlc_hashlock (htlcs s i)"
    using that swap_open_amount [OF inv that(1)]
    by (simp add: claim_def Let_def send_value_def effect_defs)
  then show ?thesis using inv by (simp add: eth_inv_def)
qed

theorem eth_solvent_witness:
  "\<exists>s'. exec_tx toy_eth (TxClaim 22 toy_swap_id (replicate 32 7) [] True) toy_open = Inr s' \<and>
     htlc_swapState (htlcs s' toy_swap_id) = CLAIMED"
  using eth_solvent [OF toy_open_reachable, of toy_swap_id "replicate 32 7"]
  by (simp add: toy_open_swap) (simp add: toy_eth_def)

text \<open>
  C8. Every swap pays out at most once and to the right party: in every reachable state the
  payments made for a swap are none while it is empty or open, exactly its amount to the
  recipient once a 32-byte preimage of the hashlock was published by a \<open>Claimed\<close> event, or
  exactly its amount back to the sender, which happens only at or after its timelock.
\<close>

theorem eth_pays_once:
  assumes "(eth_step env)\<^sup>*\<^sup>* (deployed t) s"
  shows "case htlc_swapState (htlcs s i) of
      EMPTY \<Rightarrow> payments_of i s = []
    | OPEN \<Rightarrow> payments_of i s = []
    | CLAIMED \<Rightarrow> payments_of i s = [(htlc_recipient (htlcs s i), htlc_amount (htlcs s i))] \<and>
        (\<exists>p. claims_of i (eth_events s) = [p] \<and> is_bytes32 p \<and> eth_sha256 env p = htlc_hashlock (htlcs s i))
    | REFUNDED \<Rightarrow> payments_of i s = [(htlc_sender (htlcs s i), htlc_amount (htlcs s i))] \<and>
        htlc_timelock (htlcs s i) \<le> block_timestamp s"
proof -
  have "swap_ok env s i" using reachable_inv [OF assms] by (simp add: eth_inv_def)
  moreover have "htlc_timelock (htlcs s i) \<le> block_timestamp s" if "htlc_swapState (htlcs s i) = REFUNDED"
  proof -
    have "eth_leg i s = LegReturned (eth_terms (htlcs s i))" using that by (simp add: eth_leg_def)
    then have "terms_expiry (eth_terms (htlcs s i)) \<le> unat (block_timestamp s)"
      by (rule eth.returned_after_expiry [OF assms deployed_inv]) (simp add: deployed_leg)
    then show ?thesis by (simp add: eth_terms_def word_le_nat_alt)
  qed
  ultimately show ?thesis by (auto simp: swap_ok_def Let_def split: swap_state.splits)
qed

theorem eth_pays_once_witness: "payments_of toy_swap_id toy_open = []"
  using eth_pays_once [OF toy_open_reachable, of toy_swap_id] by (simp add: toy_open_swap)

text \<open>
  Two locks share a swap id only if they agree on sender, recipient, amount, hashlock,
  timelock and taker account, or the ids exhibit a collision of Keccak-256: the packed
  encoding is injective on 32-byte hashlocks and accounts.
\<close>

lemma swap_id_binds_terms:
  assumes "is_bytes32 h" and "is_bytes32 h'" and "is_bytes32 acc" and "is_bytes32 acc'"
    and "lock env sdr amt h t r acc s1 = Inr (i, s1')" and "lock env sdr' amt' h' t' r' acc' s2 = Inr (i, s2')"
  shows "(sdr, r, amt, h, t, acc) = (sdr', r', amt', h', t', acc') \<or>
    (\<exists>x y. x \<noteq> y \<and> keccak256 env x = keccak256 env y)"
proof (cases "packed_terms sdr r amt h t acc = packed_terms sdr' r' amt' h' t' acc'")
  case True
  then show ?thesis using assms(1-4)
    by (simp add: packed_terms_def is_bytes32_def append_eq_same_length be_bytes_inject)
next
  case False
  then show ?thesis using assms(5,6) unfolding lock_Inr_iff by metis
qed

lemma swap_id_binds_terms_witness:
  "(11::address, 22::address, 500::u256, replicate 32 (7::u8), 9000::u256, replicate 32 (2::u8)) =
   (11, 22, 500, replicate 32 7, 9000, replicate 32 2) \<or>
   (\<exists>x y. x \<noteq> y \<and> keccak256 toy_eth x = keccak256 toy_eth y)"
proof -
  have "lock toy_eth 11 500 (replicate 32 7) 9000 22 (replicate 32 2) (deployed 1000)
      = Inr (toy_swap_id, toy_open)"
    using toy_lock_runs
    by (auto simp: toy_lock_tx_def toy_eth_def toy_swap_id_def lock_Inr_iff split: sum.splits)
  then show ?thesis by (intro swap_id_binds_terms) (simp_all add: is_bytes32_def)
qed

text \<open>
  C10. The contract implements the hash-time-locked contract for every swap id at once: each
  transaction, whatever its callees do, takes the swap through steps of the abstract contract,
  so its terms are fixed by the lock and a settled swap never changes again.
\<close>

theorem eth_implements_htlc:
  assumes "(eth_step env)\<^sup>*\<^sup>* (deployed t) s" and "eth_step env s s'"
  shows "(abs_step (eth_sha256 env) (unat (block_timestamp s)))\<^sup>*\<^sup>* (eth_leg i s) (eth_leg i s') \<and>
    (leg_terms (eth_leg i s) = Some tm \<longrightarrow> leg_terms (eth_leg i s') = Some tm) \<and>
    (leg_final (eth_leg i s) \<longrightarrow> eth_leg i s' = eth_leg i s)"
  using eth.view_step [OF assms(2) reachable_inv [OF assms(1)]]
    eth.terms_fixed [OF r_into_rtranclp [of "eth_step env", OF assms(2)] reachable_inv [OF assms(1)]]
    eth.final_fixed [OF r_into_rtranclp [of "eth_step env", OF assms(2)] reachable_inv [OF assms(1)]]
  by blast

theorem eth_implements_htlc_witness:
  "(abs_step (eth_sha256 toy_eth) 1000)\<^sup>*\<^sup>* (eth_leg toy_swap_id (deployed 1000)) (eth_leg toy_swap_id toy_open)"
proof -
  have "eth_step toy_eth (deployed 1000) toy_open"
    using toy_lock_runs by (intro eth_exec [of toy_lock_tx]) (simp_all add: toy_lock_tx_def is_bytes32_def)
  then show ?thesis
    using eth_implements_htlc [of toy_eth 1000 "deployed 1000" toy_open toy_swap_id] by (simp add: deployed_def)
qed

end
