(* ===== verification/Atomic_Swap.thy ===== *)
theory Atomic_Swap
  imports Lez_Htlc_Program Eth_Htlc_Contract
begin

text \<open>
  The two chains side by side. A swap has a leg on each, under one hash lock: the taker's ETH in
  \<open>contracts/src/EthHTLC.sol\<close> and the maker's LEZ in an escrow account of the guest program. The
  chains move independently, in any order. \<open>two_legs\<close> composes two interfaces \<open>htlc_leg\<close>; it is
  interpreted on the models of the two contracts.
\<close>

section \<open>Two legs\<close>

inductive joint_step :: "('a \<Rightarrow> 'a \<Rightarrow> bool) \<Rightarrow> ('b \<Rightarrow> 'b \<Rightarrow> bool) \<Rightarrow> 'a \<times> 'b \<Rightarrow> 'a \<times> 'b \<Rightarrow> bool"
  for sa :: "'a \<Rightarrow> 'a \<Rightarrow> bool" and sb :: "'b \<Rightarrow> 'b \<Rightarrow> bool" where
  joint_left: "sa x x' \<Longrightarrow> joint_step sa sb (x, y) (x', y)"
| joint_right: "sb y y' \<Longrightarrow> joint_step sa sb (x, y) (x, y')"

lemma joint_steps_project:
  "(joint_step sa sb)\<^sup>*\<^sup>* u v \<Longrightarrow> sa\<^sup>*\<^sup>* (fst u) (fst v) \<and> sb\<^sup>*\<^sup>* (snd u) (snd v)"
proof (induction rule: rtranclp_induct)
  case (step v w)
  from step(2) show ?case by cases (use step(3) in \<open>auto intro: rtranclp.rtrancl_into_rtrancl\<close>)
qed simp

lemma joint_steps_left: "sa\<^sup>*\<^sup>* x x' \<Longrightarrow> (joint_step sa sb)\<^sup>*\<^sup>* (x, y) (x', y)"
  by (induction rule: rtranclp_induct) (auto intro: joint_left rtranclp.rtrancl_into_rtrancl)

lemma joint_steps_right: "sb\<^sup>*\<^sup>* y y' \<Longrightarrow> (joint_step sa sb)\<^sup>*\<^sup>* (x, y) (x, y')"
  by (induction rule: rtranclp_induct) (auto intro: joint_right rtranclp.rtrancl_into_rtrancl)

locale two_legs = left: htlc_leg H sa ia va na + right: htlc_leg H sb ib vb nb
  for H :: "bytes \<Rightarrow> bytes"
    and sa :: "'a \<Rightarrow> 'a \<Rightarrow> bool" and ia :: "'a \<Rightarrow> bool" and va :: "'a \<Rightarrow> 'p leg" and na :: "'a \<Rightarrow> nat"
    and sb :: "'b \<Rightarrow> 'b \<Rightarrow> bool" and ib :: "'b \<Rightarrow> bool" and vb :: "'b \<Rightarrow> 'q leg" and nb :: "'b \<Rightarrow> nat"
begin

text \<open>
  Once the left leg is paid, the published preimage opens the right leg under the same hash lock
  at every later point before its expiry, unless that leg has been paid already.
\<close>

lemma reveal_opens:
  assumes "(joint_step sa sb)\<^sup>*\<^sup>* (x0, y0) (x, y)" "ia x0" "ib y0" "\<not> leg_final (va x0)"
    and "va x = LegPaid ta p" "vb y = LegOpen tb" "terms_hashlock ta = terms_hashlock tb"
    and "(joint_step sa sb)\<^sup>*\<^sup>* (x, y) (x', y')" "nb y' < terms_expiry tb"
  shows "H p = terms_hashlock tb \<and> length p = 32 \<and> va x' = LegPaid ta p \<and>
    (vb y' = LegOpen tb \<or> (\<exists>q. vb y' = LegPaid tb q \<and> H q = terms_hashlock tb))"
proof -
  have run: "sa\<^sup>*\<^sup>* x0 x" "sb\<^sup>*\<^sup>* y0 y" "sa\<^sup>*\<^sup>* x x'" "sb\<^sup>*\<^sup>* y y'"
    using joint_steps_project [OF assms(1)] joint_steps_project [OF assms(8)] by auto
  have "ia x" "ib y" using run(1,2) assms(2,3) left.inv_steps right.inv_steps by auto
  then show ?thesis
    using left.paid_needs_preimage [OF run(1) assms(2,5,4)] left.final_fixed [OF run(3)] assms(5-7,9)
      right.open_before_expiry [OF run(4)] by simp
qed

text \<open>A leg that was returned was past its expiry; it is never paid later.\<close>

lemma returned_stays:
  assumes "(joint_step sa sb)\<^sup>*\<^sup>* (x0, y0) (x, y)" "ia x0" "\<not> leg_final (va x0)" "va x = LegReturned ta"
    and "(joint_step sa sb)\<^sup>*\<^sup>* (x, y) (x', y')"
  shows "terms_expiry ta \<le> na x \<and> va x' = LegReturned ta"
proof -
  have run: "sa\<^sup>*\<^sup>* x0 x" "sa\<^sup>*\<^sup>* x x'"
    using joint_steps_project [OF assms(1)] joint_steps_project [OF assms(5)] by auto
  then show ?thesis using left.returned_after_expiry [OF run(1) assms(2,4,3)] left.final_fixed [OF run(2)]
      left.inv_steps [OF run(1) assms(2)] assms(4) by simp
qed

end

text \<open>Both chains hash with SHA-256.\<close>

definition on_lez :: "eth_env \<Rightarrow> lee \<Rightarrow> lee" where
  "on_lez env rt = rt\<lparr>sha256 := eth_sha256 env\<rparr>"

interpretation chains: two_legs "eth_sha256 env" "lez_moves (on_lez env rt) pda" "lez_inv (on_lez env rt) pda"
  "escrow_leg pda" "\<lambda>w. unat (lez_now w)" "eth_step env" "eth_inv env" "eth_leg i"
  "\<lambda>s. unat (block_timestamp s)" for env :: eth_env and rt :: lee and pda :: account_id and i :: bytes32
proof -
  have "sha256 (on_lez env rt) = eth_sha256 env" by (simp add: on_lez_def)
  then show "two_legs (eth_sha256 env) (lez_moves (on_lez env rt) pda) (lez_inv (on_lez env rt) pda)
      (escrow_leg pda) (\<lambda>w. unat (lez_now w)) (eth_step env) (eth_inv env) (eth_leg i)
      (\<lambda>s. unat (block_timestamp s))"
    using lez.htlc_leg_axioms [of "on_lez env rt" pda] eth.htlc_leg_axioms [of env i]
    by (simp add: two_legs_def)
qed

section \<open>Paying out\<close>

lemma open_leg_iff: "eth_leg i s = LegOpen t \<longleftrightarrow> htlc_swapState (htlcs s i) = OPEN \<and> t = eth_terms (htlcs s i)"
  by (auto simp: eth_leg_def Let_def split: swap_state.splits)

lemma paid_leg_state: "eth_leg i s = LegPaid t q \<Longrightarrow> htlc_swapState (htlcs s i) = CLAIMED \<and> t = eth_terms (htlcs s i)"
  by (auto simp: eth_leg_def Let_def split: swap_state.splits)

lemma eth_inv_swap: "eth_inv env s \<Longrightarrow> swap_ok env s i"
  by (simp add: eth_inv_def)

lemma eth_terms_eq:
  "eth_terms h = eth_terms h' \<Longrightarrow>
   htlc_recipient h = htlc_recipient h' \<and> htlc_amount h = htlc_amount h' \<and> htlc_hashlock h = htlc_hashlock h'"
  by (simp add: eth_terms_def word_unat_eq_iff)

text \<open>\<open>pays env i x s t\<close>: the transaction is accepted and pays exactly \<open>x\<close> to \<open>r\<close>.\<close>

definition pays :: "eth_env \<Rightarrow> bytes32 \<Rightarrow> address \<times> u256 \<Rightarrow> eth_state \<Rightarrow> eth_tx \<Rightarrow> bool" where
  "pays env i x s t \<longleftrightarrow> (\<exists>s'. exec_tx env t s = Inr s' \<and> payments_of i s' = [x])"

lemma open_claim_pays:
  assumes "eth_inv env s" "htlc_swapState (htlcs s i) = OPEN" "eth_sha256 env p = htlc_hashlock (htlcs s i)"
  shows "pays env i (htlc_recipient (htlcs s i), htlc_amount (htlcs s i)) s
    (TxClaim (htlc_recipient (htlcs s i)) i p [] True)"
  using assms swap_open_amount [OF assms(1,2)] eth_inv_swap [OF assms(1), of i]
  by (simp add: pays_def claim_def Let_def send_value_def effect_defs swap_ok_def payments_of_def)

lemma open_refund_pays:
  assumes "eth_inv env s" "htlc_swapState (htlcs s i) = OPEN"
  shows "pays env i (htlc_sender (htlcs s i), htlc_amount (htlcs s i)) s
    (TxRefund (htlc_sender (htlcs s i)) i [] True) \<longleftrightarrow> htlc_timelock (htlcs s i) \<le> block_timestamp s"
  using assms swap_open_amount [OF assms] eth_inv_swap [OF assms(1), of i]
  by (auto simp: pays_def refund_def Let_def send_value_def effect_defs swap_ok_def payments_of_def)

section \<open>A concrete joint run\<close>

definition toy_lee :: lee where "toy_lee = on_lez toy_eth toy_rt"

lemma toy_lee_hash: "length b = 32 \<Longrightarrow> sha256 toy_lee b = sha256 toy_rt b"
  by (simp add: toy_lee_def on_lez_def toy_eth_def toy_rt_def toy_hash_def)

lemma toy_lee_simps [simp]:
  "data_fits toy_lee = data_fits toy_rt" "default_account toy_lee = default_account toy_rt"
  by (simp_all add: toy_lee_def on_lez_def)

lemma toy_lee_steps: "(lez_moves toy_lee toy_pda)\<^sup>*\<^sup>* toy_fresh toy_claimed"
proof -
  have tx: "apply_tx toy_lee toy_pda s sig instr w = Inr w' \<longleftrightarrow> apply_tx toy_rt toy_pda s sig instr w = Inr w'"
    for s sig instr w w'
    by (cases instr) (auto simp: apply_tx_iff toy_lee_hash)
  have "lez_moves toy_lee toy_pda w w'" if m: "lez_moves toy_rt toy_pda w w'" for w w'
  proof -
    from m obtain ev where "lez_step toy_rt toy_pda w ev w'" by (auto simp: lez_moves_def)
    then have "lez_step toy_lee toy_pda w ev w'"
      by cases (auto simp: tx intro: lez_step.intros)
    then show ?thesis by (auto simp: lez_moves_def)
  qed
  then have "lez_moves toy_rt toy_pda \<le> lez_moves toy_lee toy_pda" by blast
  from rtranclp_mono [OF this] show ?thesis using toy_steps by blast
qed

lemma toy_lee_fresh: "fresh_escrow toy_lee toy_pda toy_fresh"
  using toy_fresh_ok by (simp add: fresh_escrow_def)

lemma toy_joint_run:
  "(joint_step (lez_moves toy_lee toy_pda) (eth_step toy_eth))\<^sup>*\<^sup>* (toy_fresh, deployed 1000) (toy_claimed, toy_open)"
  using joint_steps_left [OF toy_lee_steps] joint_steps_right [OF toy_open_reachable] by (rule rtranclp_trans)

lemma toy_paid_leg:
  "escrow_leg toy_pda toy_claimed = LegPaid (terms_of toy_escrow) toy_secret"
proof -
  have "escrow_ok toy_rt (toy_escrow\<lparr>esc_state := Claimed, esc_preimage := Some toy_secret\<rparr>)"
    by (rule escrow_ok_claim) simp_all
  then show ?thesis
    using decode_ok by (simp add: escrow_leg_def leg_of_escrow_def toy_claimed_def toy_account_def terms_of_def)
qed

section \<open>Properties\<close>

text \<open>
  C1. The reveal pays the maker: in any run of the two chains, once the LEZ escrow of a swap is
  claimed while the ETH under the same hash lock is still open, then at every later point before
  the ETH time lock the ETH has either been paid to its recipient already, or the claim by the
  recipient with the preimage that the escrow account stores is accepted and pays it the whole
  amount. Nobody can take this away before the time lock.
\<close>

theorem reveal_pays_eth_recipient:
  assumes "fresh_escrow (on_lez env rt) pda w0"
    and "(joint_step (lez_moves (on_lez env rt) pda) (eth_step env))\<^sup>*\<^sup>* (w0, deployed t0) (w, s)"
    and "escrow_leg pda w = LegPaid ta p" and "htlc_swapState (htlcs s i) = OPEN"
    and "htlc_hashlock (htlcs s i) = terms_hashlock ta"
    and "(joint_step (lez_moves (on_lez env rt) pda) (eth_step env))\<^sup>*\<^sup>* (w, s) (w', s')"
    and "block_timestamp s' < htlc_timelock (htlcs s i)"
  shows "escrow_leg pda w' = LegPaid ta p \<and>
    (payments_of i s' = [(htlc_recipient (htlcs s i), htlc_amount (htlcs s i))] \<or>
     pays env i (htlc_recipient (htlcs s i), htlc_amount (htlcs s i)) s'
       (TxClaim (htlc_recipient (htlcs s i)) i p [] True))"
proof -
  let ?h = "htlcs s i" let ?h' = "htlcs s' i"
  have inv: "eth_inv env s'"
    using joint_steps_project [OF assms(2)] joint_steps_project [OF assms(6)] reachable_inv
    by (metis rtranclp_trans snd_conv)
  have leg: "eth_leg i s = LegOpen (eth_terms ?h)" using assms(4) by (simp add: open_leg_iff)
  have start: "\<not> leg_final (escrow_leg pda w0)" by (simp add: fresh_leg [OF assms(1)])
  have lock: "terms_hashlock ta = terms_hashlock (eth_terms ?h)" "unat (block_timestamp s') < terms_expiry (eth_terms ?h)"
    using assms(5,7) by (simp_all add: eth_terms_def word_less_nat_alt)
  have "eth_sha256 env p = htlc_hashlock ?h \<and> escrow_leg pda w' = LegPaid ta p \<and>
      (eth_leg i s' = LegOpen (eth_terms ?h) \<or> (\<exists>q. eth_leg i s' = LegPaid (eth_terms ?h) q))"
    using chains.reveal_opens [OF assms(2) fresh_inv [OF assms(1)] deployed_inv start assms(3) leg lock(1)
        assms(6) lock(2)] by (auto simp: eth_terms_def)
  then show ?thesis using inv eth_inv_swap [OF inv, of i] open_claim_pays [OF inv, of i p]
    by (auto simp: open_leg_iff swap_ok_def Let_def dest!: paid_leg_state eth_terms_eq)
qed

theorem reveal_pays_eth_recipient_witness:
  "pays toy_eth toy_swap_id (22, 500) toy_open (TxClaim 22 toy_swap_id toy_secret [] True)"
proof -
  have "htlc_hashlock (htlcs toy_open toy_swap_id) = terms_hashlock (terms_of toy_escrow)"
    by (simp add: toy_open_swap terms_of_def) (simp add: toy_secret_def)
  moreover have "block_timestamp toy_open < htlc_timelock (htlcs toy_open toy_swap_id)"
      "htlc_amount (htlcs toy_open toy_swap_id) = 500" "payments_of toy_swap_id toy_open = []"
    by (simp_all add: toy_open_def emit_ev_def deployed_def payments_of_def)
  ultimately show ?thesis
    using reveal_pays_eth_recipient [of toy_eth toy_rt toy_pda toy_fresh 1000 toy_claimed toy_open
        "terms_of toy_escrow" toy_secret toy_swap_id toy_claimed toy_open]
      toy_joint_run toy_lee_fresh toy_paid_leg toy_open_swap by (simp add: toy_lee_def)
qed

text \<open>
  Locked ETH is never stuck: in every reachable state of the contract an open swap can be
  claimed by its recipient with any preimage of its hash lock, and refunded to its sender for the
  whole amount exactly from the time lock on.
\<close>

lemma open_swap_exits:
  assumes "(eth_step env)\<^sup>*\<^sup>* (deployed t) s" and "htlc_swapState (htlcs s i) = OPEN"
  shows "(eth_sha256 env p = htlc_hashlock (htlcs s i) \<longrightarrow>
      pays env i (htlc_recipient (htlcs s i), htlc_amount (htlcs s i)) s
        (TxClaim (htlc_recipient (htlcs s i)) i p [] True)) \<and>
    (pays env i (htlc_sender (htlcs s i), htlc_amount (htlcs s i)) s
       (TxRefund (htlc_sender (htlcs s i)) i [] True) \<longleftrightarrow> htlc_timelock (htlcs s i) \<le> block_timestamp s)"
  using open_claim_pays [OF reachable_inv [OF assms(1)] assms(2)]
    open_refund_pays [OF reachable_inv [OF assms(1)] assms(2)] by simp

lemma open_swap_exits_witness:
  "\<not> pays toy_eth toy_swap_id (11, 500) toy_open (TxRefund 11 toy_swap_id [] True)"
proof -
  have "htlc_sender (htlcs toy_open toy_swap_id) = 11" "htlc_amount (htlcs toy_open toy_swap_id) = 500"
      "\<not> htlc_timelock (htlcs toy_open toy_swap_id) \<le> block_timestamp toy_open"
    by (simp_all add: toy_open_def emit_ev_def deployed_def)
  then show ?thesis using open_swap_exits [OF toy_open_reachable toy_open_swap(1)] by simp
qed

text \<open>
  C24. The data of an escrow account is always well typed: whatever transactions reach a state
  from an uninitialised account, its data is empty or exactly the encoding of an escrow that
  decodes again, with 32-byte ids and hash lock, different parties, and a 32-byte preimage of the
  hash lock if and only if it is claimed.
\<close>

theorem escrow_data_well_typed:
  assumes "fresh_escrow rt pda w0" and "(lez_moves rt pda)\<^sup>*\<^sup>* w0 w"
  shows "data (lez_accounts w pda) = [] \<or>
    (\<exists>e. from_bytes guest_usize (data (lez_accounts w pda)) = Inr e \<and> data (lez_accounts w pda) = to_bytes e \<and>
       wf_escrow e \<and> esc_maker_id e \<noteq> esc_taker_id e \<and>
       (esc_state e = Claimed \<longleftrightarrow> esc_preimage e \<noteq> None) \<and>
       (esc_preimage e = None \<or> (\<exists>p. esc_preimage e = Some p \<and> length p = 32 \<and> sha256 rt p = esc_hashlock e)))"
proof -
  have "escrow_inv rt pda w" using lez.inv_steps [OF assms(2) fresh_inv [OF assms(1)]] by (simp add: lez_inv_def)
  then show ?thesis unfolding escrow_inv_def
    by (elim disjE exE conjE) (auto simp: decode_ok escrow_ok_def split: htlc_state.splits)
qed

theorem escrow_data_well_typed_witness:
  "\<exists>e. from_bytes guest_usize (data (lez_accounts toy_claimed toy_pda)) = Inr e"
proof -
  have "data (lez_accounts toy_claimed toy_pda) \<noteq> []"
    using toy_paid_leg decode_empty [of guest_usize] by (auto simp: escrow_leg_def)
  then show ?thesis using escrow_data_well_typed [OF toy_fresh_ok toy_steps] by blast
qed

end
