(* ===== verification/Swap_Config.thy ===== *)
theory Swap_Config
  imports Swap_Prelude
begin

text \<open>
  The vocabulary of the orchestration code: the configuration and its parsers
  (\<open>src/config.rs\<close>), the error type (\<open>src/error.rs\<close>), the outcome of a swap
  (\<open>src/swap/types.rs\<close>), the progress events (\<open>src/swap/progress.rs\<close>) and the off-chain
  timelock check (\<open>src/swap/refund.rs\<close>). The theorems are the exact round trip of the ETH
  amount printer and parser, where the parser wraps around, and the round trip of program ids.
  Strings are ASCII, so that the byte offsets of the source are character offsets.
\<close>

section \<open>Errors, outcomes, progress\<close>

datatype swap_error =
    EthRpc string
  | EthReverted string
  | EthAbiMismatch string
  | EthLogsUncorroborated string
  | LezSequencer string
  | LezTransaction string
  | EscrowDecode string
  | EscrowStateUnknown string
  | EthClaimUnresolved string
  | InvalidState string string
  | Timeout string
  | InvalidPreimage
  | TimelockNotExpired u64
  | Scaffold string
  | MissingEnvVar string
  | InvalidConfig string
  | Cancelled

datatype swap_outcome =
    Completed bytes32 bytes32 string
  | OutcomeRefunded "bytes32 option" "string option"

datatype swap_progress =
    PreimageGenerated string
  | LockingEth
  | EthLocked string string u64
  | WaitingForLezLock
  | LezLockDetected
  | VerifyingLezEscrow
  | LezEscrowVerified
  | ClaimingLez
  | LezClaimed string
  | WaitingForEthLock
  | EthLockDetected string string string string u64
  | EthLockRejected string u64 u64
  | EthLockRejectedTakerAccount string string string
  | LezLocking
  | LezLocked string
  | WaitingForPreimage
  | PreimageRevealed string
  | ClaimingEth
  | EthClaimed string
  | TimelockExpired
  | Refunding
  | RefundComplete
  | AutoAcceptStarted
  | AutoAcceptIteration u32
  | AutoAcceptSwapCompleted u32 string
  | AutoAcceptSwapFailed u32 string
  | AutoAcceptTransientError u32 string
  | AutoAcceptInsufficientFunds string string
  | AutoAcceptStopped u32 u32 u32
  | AutoAcceptCancelled

section \<open>Configuration\<close>

datatype lez_auth =
    RawKey string
  | Wallet string account_id

type_synonym program_id = "u32 list"

record swap_config =
  eth_rpc_url :: string
  eth_private_key :: string
  eth_htlc_address :: address
  lez_sequencer_url :: string
  lez_sequencer_url_explicit :: bool
  lez_auth_mode :: lez_auth
  lez_htlc_program_id :: program_id
  lez_amount :: u128
  eth_amount :: u128
  lez_timelock :: u64
  eth_timelock :: u64
  eth_recipient_address :: address
  lez_taker_account_id :: "account_id option"
  poll_interval :: nat

text \<open>The clock, read once per call, is an argument; \<open>+\<close> and \<open>*\<close> wrap as in a release build.\<close>

definition with_fresh_timelocks :: "u64 \<Rightarrow> swap_config \<Rightarrow> u64 \<Rightarrow> u64 \<Rightarrow> swap_config" where
  "with_fresh_timelocks now cfg lez_minutes eth_minutes =
     cfg\<lparr>lez_timelock := now + lez_minutes * 60, eth_timelock := now + eth_minutes * 60\<rparr>"

definition check_lez_timelock :: "u64 \<Rightarrow> u64 \<Rightarrow> (swap_error, unit) res" where
  "check_lez_timelock now timelock =
     (if now < timelock then Err (TimelockNotExpired (timelock - now)) else Ok ())"

section \<open>Decimal numbers\<close>

definition digit_char :: "nat \<Rightarrow> char" where
  "digit_char d = char_of (48 + d)"

definition digit_val :: "char \<Rightarrow> nat option" where
  "digit_val c = (let k = of_char c in if 48 \<le> k \<and> k \<le> 57 then Some (k - 48) else None)"

fun show_nat :: "nat \<Rightarrow> string" where
  "show_nat n = (if n < 10 then [digit_char n] else show_nat (n div 10) @ [digit_char (n mod 10)])"

declare show_nat.simps [simp del]

text \<open>\<open>format!("{:018}", n)\<close>.\<close>

definition show_padded :: "nat \<Rightarrow> nat \<Rightarrow> string" where
  "show_padded k n = replicate (k - length (show_nat n)) (CHR ''0'') @ show_nat n"

fun parse_digits :: "nat \<Rightarrow> string \<Rightarrow> nat option" where
  "parse_digits acc [] = Some acc"
| "parse_digits acc (c # cs) =
     (case digit_val c of None \<Rightarrow> None | Some d \<Rightarrow> parse_digits (10 * acc + d) cs)"

text \<open>\<open>str::parse::<u128>()\<close>: an optional \<open>+\<close>, at least one digit, no overflow.\<close>

definition parse_u128 :: "string \<Rightarrow> string + u128" where
  "parse_u128 s =
     (if s = [] then Inl ''cannot parse integer from empty string''
      else
        let ds = (if hd s = CHR ''+'' then List.tl s else s) in
        if ds = [] then Inl ''invalid digit found in string''
        else
          (case parse_digits 0 ds of
             None \<Rightarrow> Inl ''invalid digit found in string''
           | Some n \<Rightarrow> if n < 2 ^ 128 then Inr (of_nat n)
                       else Inl ''number too large to fit in target type''))"

section \<open>ETH amounts\<close>

definition is_space :: "char \<Rightarrow> bool" where
  "is_space c = (let k = (of_char c :: nat) in (9 \<le> k \<and> k \<le> 13) \<or> k = 32)"

definition trim :: "string \<Rightarrow> string" where
  "trim s = rev (dropWhile is_space (rev (dropWhile is_space s)))"

fun split_once :: "char \<Rightarrow> string \<Rightarrow> (string \<times> string) option" where
  "split_once d [] = None"
| "split_once d (c # cs) =
     (if c = d then Some ([], cs)
      else (case split_once d cs of None \<Rightarrow> None | Some (a, b) \<Rightarrow> Some (c # a, b)))"

definition eth_to_wei :: "string \<Rightarrow> string + u128" where
  "eth_to_wei s0 =
     (let s = trim s0;
          (int_part, frac_part) = (case split_once (CHR ''.'') s of Some p \<Rightarrow> p | None \<Rightarrow> (s, []));
          int_val = (if int_part = [] then Inr 0 else parse_u128 int_part);
          frac = take 18 frac_part;
          frac_val = (if frac = [] then Inr 0
                      else parse_u128 (frac @ replicate (18 - length frac) (CHR ''0'')))
      in case int_val of
           Inl e \<Rightarrow> Inl (''invalid ETH amount: '' @ e)
         | Inr i \<Rightarrow>
             (case frac_val of
                Inl e \<Rightarrow> Inl (''invalid ETH amount fraction: '' @ e)
              | Inr f \<Rightarrow> Inr (i * 1000000000000000000 + f)))"

definition wei_to_eth_string :: "u128 \<Rightarrow> string" where
  "wei_to_eth_string wei =
     (let whole = unat wei div 10 ^ 18; frac = unat wei mod 10 ^ 18 in
      if frac = 0 then show_nat whole
      else show_nat whole @ ''.'' @
           rev (dropWhile (\<lambda>c. c = CHR ''0'') (rev (show_padded 18 frac))))"

section \<open>Identifiers\<close>

text \<open>
  The \<open>base58\<close> and \<open>hex\<close> crates are parameters; an \<open>Inl\<close> is their error, printed.
\<close>

definition account_id_to_base58 :: "(bytes \<Rightarrow> string) \<Rightarrow> account_id \<Rightarrow> string" where
  "account_id_to_base58 to_base58 acc = to_base58 acc"

definition parse_base58_account_id ::
  "(string \<Rightarrow> string + bytes) \<Rightarrow> string \<Rightarrow> (swap_error, account_id) res" where
  "parse_base58_account_id from_base58 s =
     (case from_base58 s of
        Inl e \<Rightarrow> Err (InvalidConfig (''invalid base58 account ID: '' @ e))
      | Inr b \<Rightarrow> if length b = 32 then Ok b
                 else Err (InvalidConfig ''base58 account ID must decode to 32 bytes''))"

definition strip_0x :: "string \<Rightarrow> string" where
  "strip_0x s = (case s of a # b # r \<Rightarrow> if a = CHR ''0'' \<and> b = CHR ''x'' then r else s | _ \<Rightarrow> s)"

fun chunks_u32 :: "bytes \<Rightarrow> u32 list" where
  "chunks_u32 (a # b # c # d # r) = of_le_bytes [a, b, c, d] # chunks_u32 r"
| "chunks_u32 _ = []"

definition parse_program_id ::
  "(string \<Rightarrow> string + bytes) \<Rightarrow> string \<Rightarrow> (swap_error, program_id) res" where
  "parse_program_id hex_decode hex_str =
     (case hex_decode (strip_0x hex_str) of
        Inl e \<Rightarrow> Err (InvalidConfig (''invalid program ID hex: '' @ e))
      | Inr b \<Rightarrow> if length b \<noteq> 32 then Err (InvalidConfig ''program ID must be 32 bytes'')
                 else Ok (chunks_u32 b))"

text \<open>\<open>src/cli/bot.rs\<close>: the printer of program ids.\<close>

definition program_id_to_hex :: "(bytes \<Rightarrow> string) \<Rightarrow> program_id \<Rightarrow> string" where
  "program_id_to_hex hex_encode pid = hex_encode (concat (map (le_bytes 4) pid))"

text \<open>A lower-case hex codec, which instantiates the \<open>hex\<close> crate in the witnesses.\<close>

definition hex_digit :: "nat \<Rightarrow> char" where
  "hex_digit k = (if k < 10 then char_of (48 + k) else char_of (87 + k))"

definition hex_val :: "char \<Rightarrow> nat option" where
  "hex_val c = (let k = (of_char c :: nat) in
     if 48 \<le> k \<and> k \<le> 57 then Some (k - 48)
     else if 97 \<le> k \<and> k \<le> 102 then Some (k - 87)
     else if 65 \<le> k \<and> k \<le> 70 then Some (k - 55) else None)"

fun hex_of :: "bytes \<Rightarrow> string" where
  "hex_of [] = []"
| "hex_of (b # bs) = hex_digit (unat b div 16) # hex_digit (unat b mod 16) # hex_of bs"

fun of_hex :: "string \<Rightarrow> string + bytes" where
  "of_hex [] = Inr []"
| "of_hex [c] = Inl ''Odd number of digits''"
| "of_hex (c # d # cs) =
     (case (hex_val c, hex_val d) of
        (Some x, Some y) \<Rightarrow>
          (case of_hex cs of Inl e \<Rightarrow> Inl e | Inr bs \<Rightarrow> Inr (of_nat (16 * x + y) # bs))
      | _ \<Rightarrow> Inl ''Invalid character'')"

lemma of_char_hex_digit: "k < 16 \<Longrightarrow> (of_char (hex_digit k) :: nat) = (if k < 10 then 48 + k else 87 + k)"
  by (simp add: hex_digit_def of_char_of take_bit_nat_eq_self)

lemma hex_val_hex_digit: "k < 16 \<Longrightarrow> hex_val (hex_digit k) = Some k"
  by (simp add: hex_val_def of_char_hex_digit)

lemma of_hex_hex_of [simp]: "of_hex (hex_of bs) = Inr bs"
proof (induction bs)
  case (Cons b bs)
  have "unat b < 2 ^ 8" using unat_less_pow [of b] by simp
  then have "unat b div 16 < 16" by (simp add: less_mult_imp_div_less)
  then show ?case using Cons by (simp add: hex_val_hex_digit)
qed simp

lemma strip_0x_hex_of [simp]: "strip_0x (hex_of bs) = hex_of bs"
proof (cases bs)
  case (Cons b cs)
  have "hex_digit (unat b mod 16) \<noteq> CHR ''x''"
  proof
    assume "hex_digit (unat b mod 16) = CHR ''x''"
    then have "hex_val (CHR ''x'') = Some (unat b mod 16)" by (metis hex_val_hex_digit mod_less_divisor zero_less_numeral)
    then show False by (simp add: hex_val_def)
  qed
  with Cons show ?thesis by (simp add: strip_0x_def)
qed (simp add: strip_0x_def)

section \<open>Facts about decimal numbers\<close>

lemma of_char_digit: "d < 10 \<Longrightarrow> (of_char (digit_char d) :: nat) = 48 + d"
  by (simp add: digit_char_def of_char_of take_bit_nat_eq_self)

lemma digit_val_digit_char [simp]: "d < 10 \<Longrightarrow> digit_val (digit_char d) = Some d"
  by (simp add: digit_val_def of_char_digit)

definition is_digits :: "string \<Rightarrow> bool" where
  "is_digits s \<longleftrightarrow> (\<forall>c\<in>set s. digit_val c \<noteq> None)"

lemma is_digits_append [simp]: "is_digits (xs @ ys) \<longleftrightarrow> is_digits xs \<and> is_digits ys"
  by (auto simp: is_digits_def)

lemma is_digits_replicate [simp]: "is_digits (replicate n (CHR ''0''))"
  by (simp add: is_digits_def digit_val_def)

lemma parse_digits_append:
  "parse_digits acc (xs @ ys) =
     (case parse_digits acc xs of None \<Rightarrow> None | Some a \<Rightarrow> parse_digits a ys)"
  by (induction acc xs rule: parse_digits.induct) (auto split: option.splits)

lemma show_nat_nonempty [simp]: "show_nat n \<noteq> []"
  by (subst show_nat.simps) simp

lemma is_digits_show_nat [simp]: "is_digits (show_nat n)"
proof (induction n rule: show_nat.induct)
  case (1 n)
  then show ?case by (subst show_nat.simps) (auto simp: is_digits_def)
qed

lemma parse_show_nat: "parse_digits acc (show_nat n) = Some (acc * 10 ^ length (show_nat n) + n)"
proof (induction n arbitrary: acc rule: show_nat.induct)
  case (1 n)
  show ?case
  proof (cases "n < 10")
    case True
    then show ?thesis by (simp add: show_nat.simps [of n])
  next
    case False
    then show ?thesis
      by (simp add: show_nat.simps [of n] parse_digits_append 1 algebra_simps)
  qed
qed

lemma parse_zeros: "parse_digits 0 (replicate k (CHR ''0'') @ xs) = parse_digits 0 xs"
  by (induction k) (simp_all add: digit_val_def)

lemma length_show_nat: "n < 10 ^ k \<Longrightarrow> 0 < k \<Longrightarrow> length (show_nat n) \<le> k"
proof (induction n arbitrary: k rule: show_nat.induct)
  case (1 n)
  show ?case
  proof (cases "n < 10")
    case True
    then show ?thesis using 1 by (simp add: show_nat.simps [of n])
  next
    case False
    with 1(2) have k: "1 < k" by (cases "k = 1") (use 1(3) in auto)
    have "n div 10 < 10 ^ (k - 1)"
      using 1(2) k by (simp add: div_less_iff_less_mult flip: power_Suc2)
    then show ?thesis using 1(1) [OF False, of "k - 1"] False k
      by (simp add: show_nat.simps [of n])
  qed
qed

lemma digit_not_special:
  assumes "digit_val c \<noteq> None"
  shows "c \<noteq> CHR ''.''" and "c \<noteq> CHR ''+''" and "\<not> is_space c"
  using assms by (auto simp: digit_val_def is_space_def Let_def split: if_splits)

lemma parse_u128_digits:
  "is_digits s \<Longrightarrow> s \<noteq> [] \<Longrightarrow> parse_digits 0 s = Some n \<Longrightarrow> n < 2 ^ 128 \<Longrightarrow>
   parse_u128 s = Inr (of_nat n)"
  using digit_not_special(2) [of "hd s"] by (auto simp: parse_u128_def is_digits_def)

lemma split_once_append: "d \<notin> set xs \<Longrightarrow> split_once d (xs @ d # ys) = Some (xs, ys)"
  by (induction xs) auto

lemma split_once_None: "d \<notin> set xs \<Longrightarrow> split_once d xs = None"
  by (induction xs) auto

lemma trim_id: "s \<noteq> [] \<Longrightarrow> \<not> is_space (hd s) \<Longrightarrow> \<not> is_space (last s) \<Longrightarrow> trim s = s"
proof -
  assume a: "s \<noteq> []" "\<not> is_space (hd s)" "\<not> is_space (last s)"
  then have "dropWhile is_space s = s" by (simp add: dropWhile_eq_self_iff)
  moreover have "dropWhile is_space (rev s) = rev s" using a by (simp add: dropWhile_eq_self_iff hd_rev)
  ultimately show ?thesis by (simp add: trim_def)
qed

lemma digits_ends:
  assumes "is_digits s" "s \<noteq> []"
  shows "\<not> is_space (hd s)" and "\<not> is_space (last s)" and "CHR ''.'' \<notin> set s"
  using assms digit_not_special(1) [of "CHR ''.''"] digit_not_special(3) [of "hd s"]
    digit_not_special(3) [of "last s"]
  by (auto simp: is_digits_def)

lemma strip_suffix:
  "\<exists>k. xs = rev (dropWhile (\<lambda>c. c = z) (rev xs)) @ replicate k z"
proof -
  have "takeWhile (\<lambda>c. c = z) (rev xs) = replicate (length (takeWhile (\<lambda>c. c = z) (rev xs))) z"
    by (induction "rev xs" arbitrary: xs) (metis (mono_tags) replicate_eqI set_takeWhileD)+
  then show ?thesis
    by (metis (no_types, lifting) rev_append rev_replicate rev_rev_ident takeWhile_dropWhile_id)
qed

section \<open>Text codecs\<close>

text \<open>
  A comma-separated format with strings in hex and numbers in decimal. It instantiates the
  JSON codecs of the journal and of the ledger in their witnesses.
\<close>

abbreviation newline :: char where
  "newline \<equiv> CHR 0x0A"

definition hx :: "string \<Rightarrow> string" where
  "hx s = hex_of (map (\<lambda>c. of_nat (of_char c)) s)"

definition unhx :: "string \<Rightarrow> string" where
  "unhx s = (case of_hex s of Inl _ \<Rightarrow> [] | Inr b \<Rightarrow> map (\<lambda>w. char_of (unat w)) b)"

definition toy_nat :: "string \<Rightarrow> nat" where
  "toy_nat s = (case parse_digits 0 s of Some n \<Rightarrow> n | None \<Rightarrow> 0)"

lemma toy_nat_show [simp]: "toy_nat (show_nat n) = n"
  by (simp add: toy_nat_def parse_show_nat)

lemma unhx_hx [simp]: "unhx (hx s) = s"
proof -
  have "char_of (unat (word_of_nat (of_char c) :: u8)) = c" for c :: char
    using of_char_mod_256 [of c, where 'a = nat] by (simp add: unat_of_nat)
  then show ?thesis by (simp add: unhx_def hx_def o_def)
qed

lemma hex_digit_plain:
  assumes "k < 16"
  shows "hex_digit k \<noteq> CHR '',''" and "hex_digit k \<noteq> newline" 
  using hex_val_hex_digit [OF assms] by (auto simp: hex_val_def)

lemma hex_of_plain: "CHR '','' \<notin> set (hex_of b)" "newline \<notin> set (hex_of b)"
proof -
  have lt: "unat w div 16 < 16" for w :: u8
    using unat_less_pow [of w] by (simp add: less_mult_imp_div_less)
  show "CHR '','' \<notin> set (hex_of b)"
    by (induction b) (use hex_digit_plain(1) lt in \<open>auto dest: sym\<close>)
  show "newline \<notin> set (hex_of b)"
    by (induction b) (use hex_digit_plain(2) lt in \<open>auto dest: sym\<close>)
qed

lemma show_nat_plain: "CHR '','' \<notin> set (show_nat n)" "newline \<notin> set (show_nat n)"
  using is_digits_show_nat [of n] by (auto simp: is_digits_def digit_val_def dest: bspec)

lemma plain_tokens [simp]: "CHR '','' \<notin> set (hx s)" "CHR '','' \<notin> set (show_nat n)"
  by (simp_all add: hx_def hex_of_plain show_nat_plain)

fun join_tokens :: "string list \<Rightarrow> string" where
  "join_tokens [] = []"
| "join_tokens (t # ts) = t @ CHR '','' # join_tokens ts"

fun split_tokens :: "nat \<Rightarrow> string \<Rightarrow> string list" where
  "split_tokens 0 s = []"
| "split_tokens (Suc n) s =
     (case split_once (CHR '','') s of None \<Rightarrow> [] | Some (t, r) \<Rightarrow> t # split_tokens n r)"

lemma split_join_tokens:
  "\<forall>t\<in>set ts. CHR '','' \<notin> set t \<Longrightarrow> length ts \<le> n \<Longrightarrow> split_tokens n (join_tokens ts) = ts"
proof (induction ts arbitrary: n)
  case Nil
  then show ?case by (cases n) simp_all
next
  case (Cons t ts)
  then obtain m where "n = Suc m" by (cases n) auto
  with Cons show ?case by (simp add: split_once_append)
qed

lemma length_join_tokens: "length ts \<le> length (join_tokens ts)"
  by (induction ts) auto

section \<open>Properties\<close>

lemma le_bytes_4: "le_bytes 4 (w :: u32) = [ucast w, ucast (drop_bit 8 w), ucast (drop_bit 16 w), ucast (drop_bit 24 w)]"
  by (simp add: numeral_eq_Suc drop_bit_drop_bit)

lemma chunks_u32_concat: "chunks_u32 (concat (map (le_bytes 4) ws)) = ws"
proof (induction ws)
  case (Cons w ws)
  have "of_le_bytes (le_bytes 4 w) = w" by (rule of_le_bytes_le_bytes) simp
  then show ?case using Cons by (simp add: le_bytes_4)
qed simp

lemma length_concat_le_bytes: "length (concat (map (le_bytes 4) ws)) = 4 * length ws"
  by (induction ws) auto

lemma wei_parts:
  fixes wei :: u128
  shows "of_nat (unat wei div 10 ^ 18) * 1000000000000000000 + of_nat (unat wei mod 10 ^ 18) = wei"
proof -
  have "of_nat (unat wei div 10 ^ 18 * 10 ^ 18 + unat wei mod 10 ^ 18) = wei"
    by (simp only: div_mult_mod_eq) simp
  then show ?thesis by (simp only: of_nat_add of_nat_mult) simp
qed

text \<open>
  The printer and the parser of ETH amounts are inverse: for every amount in wei, the
  decimal string that is printed parses back to the same amount.
\<close>

lemma wei_roundtrip: "eth_to_wei (wei_to_eth_string wei) = Inr wei"
proof -
  let ?w = "unat wei div 10 ^ 18" and ?f = "unat wei mod 10 ^ 18"
  have wlt: "?w < 2 ^ 128" using unat_less_pow [of wei] by (simp add: less_mult_imp_div_less)
  have pw: "parse_u128 (show_nat ?w) = Inr (of_nat ?w)"
    using wlt by (intro parse_u128_digits) (simp_all add: parse_show_nat)
  show ?thesis
  proof (cases "?f = 0")
    case True
    then have "trim (show_nat ?w) = show_nat ?w" "split_once (CHR ''.'') (show_nat ?w) = None"
      using digits_ends [of "show_nat ?w"] by (simp_all add: trim_id split_once_None)
    then show ?thesis
      using pw True wei_parts [of wei] by (simp add: wei_to_eth_string_def eth_to_wei_def Let_def)
  next
    case False
    let ?p = "show_padded 18 ?f"
    obtain t k where t: "?p = t @ replicate k (CHR ''0'')"
      and td: "t = rev (dropWhile (\<lambda>c. c = CHR ''0'') (rev ?p))"
      using strip_suffix [of ?p "CHR ''0''"] by blast
    have len: "length ?p = 18"
      using length_show_nat [of ?f 18] by (simp add: show_padded_def)
    have val: "parse_digits 0 ?p = Some ?f"
      by (simp add: show_padded_def parse_zeros parse_show_nat)
    have "is_digits ?p" by (simp add: show_padded_def)
    then have dt: "is_digits t" unfolding t by simp
    have ne: "t \<noteq> []"
    proof
      assume "t = []"
      then have "parse_digits 0 ?p = Some 0"
        unfolding t using parse_zeros [of k "[]"] by simp
      with val False show False by simp
    qed
    have k: "take 18 t = t" "18 - length t = k" using len unfolding t by simp_all
    have pf: "parse_u128 (t @ replicate k (CHR ''0'')) = Inr (of_nat ?f)"
      using val dt ne unfolding t
      by (intro parse_u128_digits) (simp_all add: less_trans [OF mod_less_divisor])
    let ?s = "show_nat ?w @ CHR ''.'' # t"
    have "trim ?s = ?s" "split_once (CHR ''.'') ?s = Some (show_nat ?w, t)"
      using digits_ends [of "show_nat ?w"] digits_ends [of t] dt ne
      by (simp_all add: trim_id split_once_append)
    moreover have "wei_to_eth_string wei = ?s"
      using False unfolding td by (simp add: wei_to_eth_string_def Let_def)
    ultimately show ?thesis
      using pw pf k ne wei_parts [of wei] by (simp add: eth_to_wei_def Let_def)
  qed
qed

text \<open>
  The parser does not check the scaling: an amount whose integer part parses but whose
  wei value exceeds 128 bits is accepted with the value reduced modulo \<open>2 ^ 128\<close>. For
  instance 340282366920938463464 ETH reads as less than one ETH.
\<close>

lemma eth_to_wei_wraps:
  "eth_to_wei ''340282366920938463464'' = Inr 625392568231788544 \<and>
   340282366920938463464 * 10 ^ 18 \<noteq> (625392568231788544 :: nat)"
proof -
  have "eth_to_wei ''340282366920938463464'' = Inr (340282366920938463464 * 1000000000000000000)"
    by (simp add: eth_to_wei_def trim_def is_space_def parse_u128_def digit_val_def)
  then show ?thesis by simp
qed

text \<open>
  Program ids round trip through their hex form: printing a program id of eight words and
  parsing the result, with or without a \<open>0x\<close> prefix, returns it, whenever the hex codec
  decodes what it encodes and never itself starts with \<open>0x\<close>.
\<close>

lemma program_id_roundtrip:
  assumes "\<And>b. hex_decode (hex_encode b) = Inr b" and "\<And>b. strip_0x (hex_encode b) = hex_encode b"
    and "length pid = 8"
  shows "parse_program_id hex_decode (program_id_to_hex hex_encode pid) = Ok pid \<and>
    parse_program_id hex_decode (''0x'' @ program_id_to_hex hex_encode pid) = Ok pid"
  using assms by (simp add: parse_program_id_def program_id_to_hex_def strip_0x_def
      chunks_u32_concat length_concat_le_bytes)

lemma program_id_roundtrip_witness:
  "parse_program_id of_hex (program_id_to_hex hex_of [1, 2, 3, 4, 5, 6, 7, 8]) =
     Ok [1, 2, 3, 4, 5, 6, 7, 8]"
  using program_id_roundtrip [of of_hex hex_of "[1, 2, 3, 4, 5, 6, 7, 8]"] by simp

end
