(* ===== verification/Ops_Ledger.thy ===== *)
theory Ops_Ledger
  imports Swap_Config "HOL-Library.AList" "HOL-Library.Product_Lexorder"
    "HOL-Library.Multiset"
begin

text \<open>
  The operations ledger, \<open>src/ops.rs\<close>: an append-only file of events and the record map
  that replaying it gives. The event codec (\<open>serde_json\<close>) and the release string are
  parameters; what the file system did with a write is an argument of each operation: success,
  or an error after some of the characters reached the file. The theorems are that the file
  replays to the map in memory, that the first terminal state of a swap wins, and that the
  report counts every swap once. The locale \<open>ops_recorder\<close> is the trait the maker calls.
\<close>

section \<open>Records and events\<close>

datatype failure_code =
    FcEthClaimUnresolved | FcLezRefundUnresolved | FcPartialLockWedge | FcPreLockAbandoned
  | FcCorruptEntry | FcOther

text \<open>\<open>derive(PartialOrd, Ord)\<close>: the order of the declaration.\<close>

fun code_rank :: "failure_code \<Rightarrow> nat" where
  "code_rank FcEthClaimUnresolved = 0"
| "code_rank FcLezRefundUnresolved = 1"
| "code_rank FcPartialLockWedge = 2"
| "code_rank FcPreLockAbandoned = 3"
| "code_rank FcCorruptEntry = 4"
| "code_rank FcOther = 5"

lemma code_rank_inject [simp]: "code_rank a = code_rank b \<longleftrightarrow> a = b"
  by (cases a; cases b) simp_all

instantiation failure_code :: linorder
begin

definition less_eq_failure_code :: "failure_code \<Rightarrow> failure_code \<Rightarrow> bool" where
  "less_eq_failure_code a b \<longleftrightarrow> code_rank a \<le> code_rank b"

definition less_failure_code :: "failure_code \<Rightarrow> failure_code \<Rightarrow> bool" where
  "less_failure_code a b \<longleftrightarrow> code_rank a < code_rank b"

instance
  by standard (auto simp: less_eq_failure_code_def less_failure_code_def)

end

datatype record_state = RsAccepted | RsCompleted | RsRefunded | RsFailed failure_code

record ops_record =
  rec_version :: string
  rec_hashlock :: string
  rec_swap_id :: string
  rec_release :: string
  accepted_at :: u64
  final_at :: "u64 option"
  rec_state :: record_state

datatype ledger_event =
    LeAccepted string string string u64
  | LeTerminal string record_state u64

type_synonym ops_records = "(string \<times> ops_record) list"

definition schema_version :: string where
  "schema_version = ''trial-ops/1''"

text \<open>\<open>trim_start_matches("0x")\<close> removes every leading occurrence.\<close>

fun trim_start_0x :: "string \<Rightarrow> string" where
  "trim_start_0x (a # b # r) = (if a = CHR ''0'' \<and> b = CHR ''x'' then trim_start_0x r else a # b # r)"
| "trim_start_0x s = s"

definition looks_like_hex_id :: "string \<Rightarrow> nat \<Rightarrow> bool" where
  "looks_like_hex_id s expected_bytes =
     (let t = trim_start_0x s in
      length t = expected_bytes * 2 \<and> list_all (\<lambda>c. hex_val c \<noteq> None) t)"

fun apply_event :: "ops_records \<Rightarrow> ledger_event \<Rightarrow> ops_records" where
  "apply_event records (LeAccepted h i release ts) =
     (case map_of records h of
        None \<Rightarrow> records @ [(h, \<lparr> rec_version = schema_version, rec_hashlock = h, rec_swap_id = i,
                 rec_release = release, accepted_at = ts, final_at = None, rec_state = RsAccepted \<rparr>)]
      | Some _ \<Rightarrow> records)"
| "apply_event records (LeTerminal h st ts) =
     (case map_of records h of
        Some r \<Rightarrow> if rec_state r = RsAccepted
                  then AList.update h (r\<lparr>rec_state := st, final_at := Some ts\<rparr>) records
                  else records
      | None \<Rightarrow> records)"

section \<open>The file\<close>

fun lines_of :: "string \<Rightarrow> string list" where
  "lines_of [] = []"
| "lines_of (c # cs) =
     (if c = CHR 0x0A then [] # lines_of cs
      else (case lines_of cs of [] \<Rightarrow> [[c]] | l # ls \<Rightarrow> (c # l) # ls))"

text \<open>
  \<open>Path::parent\<close> and \<open>Path::join\<close> on Unix, for paths without a final \<open>.\<close> component, and the
  default place of the ledger beside the journal.
\<close>

definition strip_slashes :: "string \<Rightarrow> string" where
  "strip_slashes s = rev (dropWhile (\<lambda>c. c = CHR ''/'') (rev s))"

definition path_parent :: "string \<Rightarrow> string option" where
  "path_parent s =
     (let t = strip_slashes s; d = rev (dropWhile (\<lambda>c. c \<noteq> CHR ''/'') (rev t)) in
      if t = [] then None
      else Some (if d \<noteq> [] \<and> strip_slashes d = [] then ''/'' else strip_slashes d))"

definition path_join :: "string \<Rightarrow> string \<Rightarrow> string" where
  "path_join dir name =
     (if dir = [] then name
      else if hd (rev dir) = CHR ''/'' then dir @ name else dir @ ''/'' @ name)"

definition default_ledger_file :: "string \<Rightarrow> string" where
  "default_ledger_file state_file =
     (case path_parent state_file of
        Some dir \<Rightarrow> if dir \<noteq> [] then path_join dir ''maker-ops.jsonl'' else ''maker-ops.jsonl''
      | None \<Rightarrow> ''maker-ops.jsonl'')"

lemma default_ledger_file_cases:
  "default_ledger_file ''.maker-state.json'' = ''maker-ops.jsonl''"
  "default_ledger_file ''/data/journal.json'' = ''/data/maker-ops.jsonl''"
  "default_ledger_file ''/journal.json'' = ''/maker-ops.jsonl''"
  "default_ledger_file ''home/wallet/.maker-state.json'' = ''home/wallet/maker-ops.jsonl''"
  by (simp_all add: default_ledger_file_def path_parent_def path_join_def strip_slashes_def Let_def)

text \<open>
  \<open>serde_json\<close>'s printer and parser of events. \<open>Inl\<close> is a parse error.
\<close>

record event_codec =
  event_to_string :: "ledger_event \<Rightarrow> string"
  event_from_str :: "string \<Rightarrow> string + ledger_event"

fun replay_lines :: "event_codec \<Rightarrow> ops_records \<Rightarrow> string list \<Rightarrow> ops_records" where
  "replay_lines cd records [] = records"
| "replay_lines cd records (l # ls) =
     (let line = trim l in
      if line = [] then replay_lines cd records ls
      else (case event_from_str cd line of
              Inr ev \<Rightarrow> replay_lines cd (apply_event records ev) ls
            | Inl e \<Rightarrow> replay_lines cd records ls))"

record ops_ledger =
  ledger_file :: string
  ledger_release :: string
  ledger_records :: ops_records

text \<open>What reading the file gave: its content, not found, or another error.\<close>

datatype file_read = FileContent string | FileNotFound | FileError string

definition ledger_load :: "event_codec \<Rightarrow> string \<Rightarrow> file_read \<Rightarrow> (swap_error, ops_ledger) res" where
  "ledger_load cd release rd =
     (case rd of
        FileContent raw \<Rightarrow> Ok \<lparr> ledger_file = raw, ledger_release = release,
                              ledger_records = replay_lines cd [] (lines_of raw) \<rparr>
      | FileNotFound \<Rightarrow> Ok \<lparr> ledger_file = [], ledger_release = release, ledger_records = [] \<rparr>
      | FileError e \<Rightarrow> Err (InvalidConfig (''cannot read ops ledger: '' @ e)))"

text \<open>
  \<open>writeln!\<close> and \<open>sync_all\<close>: \<open>None\<close> is success; \<open>Some k\<close> is an error after \<open>k\<close> characters
  of the line and its newline reached the file.
\<close>

definition ledger_append ::
  "event_codec \<Rightarrow> nat option \<Rightarrow> ledger_event \<Rightarrow> ops_ledger \<Rightarrow> bool \<times> ops_ledger" where
  "ledger_append cd io ev l =
     (let out = event_to_string cd ev @ [CHR 0x0A] in
      case io of
        None \<Rightarrow> (True, l\<lparr>ledger_file := ledger_file l @ out\<rparr>)
      | Some k \<Rightarrow> (False, l\<lparr>ledger_file := ledger_file l @ take k out\<rparr>))"

section \<open>Recording\<close>

definition ops_accepted ::
  "event_codec \<Rightarrow> nat option \<Rightarrow> u64 \<Rightarrow> string \<Rightarrow> string \<Rightarrow> ops_ledger \<Rightarrow> ops_ledger" where
  "ops_accepted cd io now h swap_id l =
     (if \<not> looks_like_hex_id h 32 \<or> \<not> looks_like_hex_id swap_id 32 then l
      else if map_of (ledger_records l) h \<noteq> None then l
      else
        let ev = LeAccepted h swap_id (ledger_release l) now;
            (ok, l') = ledger_append cd io ev l in
        if ok then l'\<lparr>ledger_records := apply_event (ledger_records l') ev\<rparr> else l')"

definition record_terminal ::
  "event_codec \<Rightarrow> nat option \<Rightarrow> u64 \<Rightarrow> string \<Rightarrow> record_state \<Rightarrow> ops_ledger \<Rightarrow> ops_ledger" where
  "record_terminal cd io now h st l =
     (if \<not> looks_like_hex_id h 32 then l
      else
        (case map_of (ledger_records l) h of
           Some r \<Rightarrow>
             if rec_state r = RsAccepted then
               let ev = LeTerminal h st now; (ok, l') = ledger_append cd io ev l in
               if ok then l'\<lparr>ledger_records := apply_event (ledger_records l') ev\<rparr> else l'
             else l
         | None \<Rightarrow> l))"

definition ops_completed :: "event_codec \<Rightarrow> nat option \<Rightarrow> u64 \<Rightarrow> string \<Rightarrow> ops_ledger \<Rightarrow> ops_ledger" where
  "ops_completed cd io now h l = record_terminal cd io now h RsCompleted l"

definition ops_refunded :: "event_codec \<Rightarrow> nat option \<Rightarrow> u64 \<Rightarrow> string \<Rightarrow> ops_ledger \<Rightarrow> ops_ledger" where
  "ops_refunded cd io now h l = record_terminal cd io now h RsRefunded l"

definition ops_failed ::
  "event_codec \<Rightarrow> nat option \<Rightarrow> u64 \<Rightarrow> string \<Rightarrow> failure_code \<Rightarrow> ops_ledger \<Rightarrow> ops_ledger" where
  "ops_failed cd io now h code l = record_terminal cd io now h (RsFailed code) l"

section \<open>Reporting\<close>

record ops_report =
  accepted_total :: nat
  rep_completed :: nat
  rep_refunded :: nat
  rep_failed :: nat
  failed_by_code :: "(failure_code \<times> nat) list"
  in_flight :: nat

record report_counts =
  cnt_completed :: nat
  cnt_refunded :: nat
  cnt_failed :: nat
  cnt_codes :: "(failure_code \<times> nat) list"

fun bump_code :: "failure_code \<Rightarrow> (failure_code \<times> nat) list \<Rightarrow> (failure_code \<times> nat) list" where
  "bump_code c [] = [(c, 1)]"
| "bump_code c ((d, n) # r) = (if d = c then (d, n + 1) # r else (d, n) # bump_code c r)"

definition count_record :: "ops_record \<Rightarrow> report_counts \<Rightarrow> report_counts" where
  "count_record r a =
     (case rec_state r of
        RsAccepted \<Rightarrow> a
      | RsCompleted \<Rightarrow> a\<lparr>cnt_completed := cnt_completed a + 1\<rparr>
      | RsRefunded \<Rightarrow> a\<lparr>cnt_refunded := cnt_refunded a + 1\<rparr>
      | RsFailed c \<Rightarrow> a\<lparr>cnt_failed := cnt_failed a + 1, cnt_codes := bump_code c (cnt_codes a)\<rparr>)"

definition ledger_report :: "ops_ledger \<Rightarrow> ops_report" where
  "ledger_report l =
     (let a = fold count_record (map snd (ledger_records l))
                \<lparr>cnt_completed = 0, cnt_refunded = 0, cnt_failed = 0, cnt_codes = []\<rparr>;
          n = length (ledger_records l) in
      \<lparr> accepted_total = n, rep_completed = cnt_completed a, rep_refunded = cnt_refunded a,
        rep_failed = cnt_failed a, failed_by_code = sort (cnt_codes a),
        in_flight = n - (cnt_completed a + cnt_refunded a + cnt_failed a) \<rparr>)"

definition records_snapshot :: "ops_ledger \<Rightarrow> ops_record list" where
  "records_snapshot l = sort_key accepted_at (map snd (ledger_records l))"

section \<open>The recorder interface\<close>

datatype ops_call = CallAccepted string string | CallTerminal string record_state

fun run_call ::
  "('i \<Rightarrow> string \<Rightarrow> string \<Rightarrow> 's \<Rightarrow> 's) \<Rightarrow> ('i \<Rightarrow> string \<Rightarrow> record_state \<Rightarrow> 's \<Rightarrow> 's) \<Rightarrow>
   'i \<times> ops_call \<Rightarrow> 's \<Rightarrow> 's" where
  "run_call acc trm (i, CallAccepted h d) s = acc i h d s"
| "run_call acc trm (i, CallTerminal h st) s = trm i h st s"

locale ops_recorder =
  fixes acc :: "'i \<Rightarrow> string \<Rightarrow> string \<Rightarrow> 's \<Rightarrow> 's"
    and trm :: "'i \<Rightarrow> string \<Rightarrow> record_state \<Rightarrow> 's \<Rightarrow> 's"
    and outcome :: "'s \<Rightarrow> string \<Rightarrow> record_state option"
  assumes acc_law: "outcome (acc i k d s) h = outcome s h \<or>
      (h = k \<and> outcome s h = None \<and> outcome (acc i k d s) h = Some RsAccepted)"
    and trm_law: "outcome (trm i k st s) h = outcome s h \<or>
      (h = k \<and> outcome s h = Some RsAccepted \<and> outcome (trm i k st s) h = Some st)"
begin

lemma call_law:
  "outcome (run_call acc trm c s) h = outcome s h \<or>
   (outcome s h = None \<and> outcome (run_call acc trm c s) h = Some RsAccepted \<and>
      (\<exists>i d. c = (i, CallAccepted h d))) \<or>
   (outcome s h = Some RsAccepted \<and>
      (\<exists>i st. c = (i, CallTerminal h st) \<and> outcome (run_call acc trm c s) h = Some st))"
proof -
  obtain i k where c: "c = (i, k)" by (cases c)
  show ?thesis
  proof (cases k)
    case (CallAccepted h' d)
    then show ?thesis using acc_law [of i h' d s h] by (auto simp: c)
  next
    case (CallTerminal h' st)
    then show ?thesis using trm_law [of i h' st s h] by (auto simp: c)
  qed
qed

lemma first_terminal_wins:
  "outcome s h = Some st \<Longrightarrow> st \<noteq> RsAccepted \<Longrightarrow> outcome (fold (run_call acc trm) cs s) h = Some st"
proof (induction cs arbitrary: s)
  case (Cons c cs)
  then show ?case using call_law [of c s h] by auto
qed simp

lemma recorded_was_called:
  assumes "outcome s h = None" "outcome (fold (run_call acc trm) cs s) h = Some st"
  shows "(\<exists>i d. (i, CallAccepted h d) \<in> set cs) \<and>
    (st \<noteq> RsAccepted \<longrightarrow> (\<exists>i. (i, CallTerminal h st) \<in> set cs))"
proof -
  have from_accepted: "(\<exists>i. (i, CallTerminal h st) \<in> set cs)"
    if "outcome s h = Some RsAccepted" "outcome (fold (run_call acc trm) cs s) h = Some st" "st \<noteq> RsAccepted"
    for cs s
    using that
  proof (induction cs arbitrary: s)
    case (Cons c cs)
    show ?case
    proof (cases "outcome (run_call acc trm c s) h = Some RsAccepted")
      case True
      then show ?thesis using Cons by auto
    next
      case False
      with Cons call_law [of c s h] obtain i st' where
        c: "c = (i, CallTerminal h st')" "outcome (run_call acc trm c s) h = Some st'" "st' \<noteq> RsAccepted"
        by auto
      then show ?thesis using Cons(3) first_terminal_wins [of "run_call acc trm c s" h st' cs] by auto
    qed
  qed simp
  show ?thesis using assms
  proof (induction cs arbitrary: s)
    case (Cons c cs)
    let ?s = "run_call acc trm c s"
    have rest: "outcome (fold (run_call acc trm) cs ?s) h = Some st" using Cons.prems by simp
    show ?case
    proof (cases "outcome ?s h")
      case None
      with Cons.IH [OF None rest] show ?thesis by auto
    next
      case (Some x)
      then have "x = RsAccepted" "\<exists>i d. c = (i, CallAccepted h d)"
        using call_law [of c s h] Cons.prems by auto
      then show ?thesis using from_accepted [of ?s cs] Some rest by auto
    qed
  qed simp
qed

end

definition ledger_outcome :: "ops_ledger \<Rightarrow> string \<Rightarrow> record_state option" where
  "ledger_outcome l h = map_option rec_state (map_of (ledger_records l) h)"

definition ledger_acc ::
  "event_codec \<Rightarrow> nat option \<times> u64 \<Rightarrow> string \<Rightarrow> string \<Rightarrow> ops_ledger \<Rightarrow> ops_ledger" where
  "ledger_acc cd i h d l = ops_accepted cd (fst i) (snd i) h d l"

definition ledger_trm ::
  "event_codec \<Rightarrow> nat option \<times> u64 \<Rightarrow> string \<Rightarrow> record_state \<Rightarrow> ops_ledger \<Rightarrow> ops_ledger" where
  "ledger_trm cd i h st l = record_terminal cd (fst i) (snd i) h st l"

lemma ledger_append_fields [simp]:
  "ledger_records (snd (ledger_append cd io ev l)) = ledger_records l"
  "fst (ledger_append cd io ev l) \<longleftrightarrow> io = None"
  by (simp_all add: ledger_append_def Let_def split: option.splits)

interpretation ledger: ops_recorder "ledger_acc cd" "ledger_trm cd" ledger_outcome for cd :: event_codec
proof unfold_locales
  fix i k d st s h
  show "ledger_outcome (ledger_acc cd i k d s) h = ledger_outcome s h \<or>
      (h = k \<and> ledger_outcome s h = None \<and> ledger_outcome (ledger_acc cd i k d s) h = Some RsAccepted)"
    by (auto simp: ledger_acc_def ops_accepted_def ledger_outcome_def ledger_append_def Let_def map_add_def
        split: option.splits)
  show "ledger_outcome (ledger_trm cd i k st s) h = ledger_outcome s h \<or>
      (h = k \<and> ledger_outcome s h = Some RsAccepted \<and> ledger_outcome (ledger_trm cd i k st s) h = Some st)"
    by (auto simp: ledger_trm_def record_terminal_def ledger_outcome_def ledger_append_def Let_def
        update_conv' split: option.splits)
qed

section \<open>Replay\<close>

definition codec_ok :: "event_codec \<Rightarrow> bool" where
  "codec_ok cd \<longleftrightarrow> (\<forall>ev. event_from_str cd (event_to_string cd ev) = Inr ev \<and>
     event_to_string cd ev \<noteq> [] \<and> newline \<notin> set (event_to_string cd ev) \<and>
     trim (event_to_string cd ev) = event_to_string cd ev)"

definition whole_lines :: "string \<Rightarrow> bool" where
  "whole_lines raw \<longleftrightarrow> raw = [] \<or> last raw = newline"

lemma lines_of_empty_iff [simp]: "lines_of s = [] \<longleftrightarrow> s = []"
  by (cases s) (auto split: list.splits)

lemma lines_of_line: "newline \<notin> set l \<Longrightarrow> lines_of (l @ [newline]) = [l]"
  by (induction l) auto

lemma lines_of_append:
  "whole_lines raw \<Longrightarrow> lines_of (raw @ rest) = lines_of raw @ lines_of rest"
proof (induction raw)
  case (Cons c cs)
  then show ?case
    by (cases cs) (auto simp: whole_lines_def split: list.splits)
qed (simp add: whole_lines_def)

lemma replay_append: "replay_lines cd r (xs @ ys) = replay_lines cd (replay_lines cd r xs) ys"
  by (induction cd r xs rule: replay_lines.induct) (auto simp: Let_def split: sum.splits)

lemma replay_event:
  "codec_ok cd \<Longrightarrow> replay_lines cd r [event_to_string cd ev] = apply_event r ev"
  by (simp add: codec_ok_def)

text \<open>The ledger in memory is what its file replays to.\<close>

definition ledger_synced :: "event_codec \<Rightarrow> ops_ledger \<Rightarrow> bool" where
  "ledger_synced cd l \<longleftrightarrow> whole_lines (ledger_file l) \<and>
     replay_lines cd [] (lines_of (ledger_file l)) = ledger_records l"

definition clean_io :: "nat option \<Rightarrow> bool" where
  "clean_io io \<longleftrightarrow> io = None \<or> io = Some 0"

lemma synced_append:
  assumes "codec_ok cd" "ledger_synced cd l"
  shows "ledger_synced cd (l\<lparr>ledger_file := ledger_file l @ event_to_string cd ev @ [newline],
    ledger_records := apply_event (ledger_records l) ev\<rparr>)"
proof -
  have "lines_of (ledger_file l @ event_to_string cd ev @ [newline]) =
      lines_of (ledger_file l) @ [event_to_string cd ev]"
    using assms by (simp add: lines_of_append lines_of_line ledger_synced_def codec_ok_def)
  then show ?thesis
    using assms replay_event [OF assms(1)] by (simp add: ledger_synced_def replay_append whole_lines_def)
qed

lemma call_synced:
  assumes "codec_ok cd" "ledger_synced cd l" "clean_io (fst (fst c))"
  shows "ledger_synced cd (run_call (ledger_acc cd) (ledger_trm cd) c l)"
proof -
  obtain io now k where c: "c = ((io, now), k)" by (metis surj_pair)
  show ?thesis
  proof (cases k)
    case (CallAccepted h d)
    then show ?thesis using assms synced_append [OF assms(1,2), of "LeAccepted h d (ledger_release l) now"]
      by (auto simp: c ledger_acc_def ops_accepted_def ledger_append_def clean_io_def Let_def)
  next
    case (CallTerminal h st)
    then show ?thesis using assms synced_append [OF assms(1,2), of "LeTerminal h st now"]
      by (auto simp: c ledger_trm_def record_terminal_def ledger_append_def clean_io_def Let_def
          split: option.splits)
  qed
qed

lemma calls_synced:
  "codec_ok cd \<Longrightarrow> ledger_synced cd l \<Longrightarrow> \<forall>c\<in>set cs. clean_io (fst (fst c)) \<Longrightarrow>
   ledger_synced cd (fold (run_call (ledger_acc cd) (ledger_trm cd)) cs l)"
  by (induction cs arbitrary: l) (auto intro: call_synced)

section \<open>Distinct keys and counting\<close>

lemma apply_event_distinct:
  "distinct (map fst r) \<Longrightarrow> distinct (map fst (apply_event r ev))"
  by (cases ev) (auto simp: distinct_update map_of_eq_None_iff split: option.splits)

lemma replay_distinct: "distinct (map fst r) \<Longrightarrow> distinct (map fst (replay_lines cd r ls))"
  by (induction cd r ls rule: replay_lines.induct) (auto simp: Let_def apply_event_distinct split: sum.splits)

lemma bump_code_total: "sum_list (map snd (bump_code c xs)) = Suc (sum_list (map snd xs))"
  by (induction c xs rule: bump_code.induct) auto

lemma bump_code_keys: "set (map fst (bump_code c xs)) = insert c (set (map fst xs))"
  by (induction c xs rule: bump_code.induct) auto

lemma bump_code_distinct: "distinct (map fst xs) \<Longrightarrow> distinct (map fst (bump_code c xs))"
  by (induction c xs rule: bump_code.induct) (auto simp: bump_code_keys simp del: set_map list.set_map)

lemma fold_count:
  assumes "sum_list (map snd (cnt_codes a)) = cnt_failed a" "distinct (map fst (cnt_codes a))"
  shows "let b = fold count_record rs a in
     sum_list (map snd (cnt_codes b)) = cnt_failed b \<and> distinct (map fst (cnt_codes b)) \<and>
     cnt_completed b + cnt_refunded b + cnt_failed b =
       cnt_completed a + cnt_refunded a + cnt_failed a +
       length (filter (\<lambda>r. rec_state r \<noteq> RsAccepted) rs) \<and>
     cnt_completed b = cnt_completed a + length (filter (\<lambda>r. rec_state r = RsCompleted) rs) \<and>
     cnt_refunded b = cnt_refunded a + length (filter (\<lambda>r. rec_state r = RsRefunded) rs)"
  using assms
proof (induction rs arbitrary: a)
  case (Cons r rs)
  have "sum_list (map snd (cnt_codes (count_record r a))) = cnt_failed (count_record r a)"
      "distinct (map fst (cnt_codes (count_record r a)))"
    using Cons.prems by (auto simp: count_record_def bump_code_total bump_code_distinct split: record_state.splits)
  from Cons.IH [OF this] show ?case
    by (auto simp: Let_def count_record_def split: record_state.splits)
qed simp

lemma sort_codes:
  fixes xs :: "(failure_code \<times> nat) list"
  shows "sum_list (map snd (sort xs)) = sum_list (map snd xs)"
    and "distinct (map fst (sort xs)) = distinct (map fst xs)"
proof -
  have srt: "mset (sort xs) = mset xs" by simp
  show "sum_list (map snd (sort xs)) = sum_list (map snd xs)"
    by (metis srt mset_map sum_mset_sum_list)
  show "distinct (map fst (sort xs)) = distinct (map fst xs)"
    by (metis srt mset_map mset_eq_imp_distinct_iff)
qed

section \<open>A concrete codec\<close>

text \<open>
  For the witnesses: an event as its fields, strings in hex and numbers in decimal, separated
  by commas.
\<close>

fun state_rank :: "record_state \<Rightarrow> nat" where
  "state_rank RsAccepted = 0"
| "state_rank RsCompleted = 1"
| "state_rank RsRefunded = 2"
| "state_rank (RsFailed c) = 3 + code_rank c"

definition state_of_rank :: "nat \<Rightarrow> record_state" where
  "state_of_rank n = [RsAccepted, RsCompleted, RsRefunded, RsFailed FcEthClaimUnresolved,
     RsFailed FcLezRefundUnresolved, RsFailed FcPartialLockWedge, RsFailed FcPreLockAbandoned,
     RsFailed FcCorruptEntry, RsFailed FcOther] ! n"

fun toy_to_string :: "ledger_event \<Rightarrow> string" where
  "toy_to_string (LeAccepted h i r ts) =
     ''A'' @ hx h @ '','' @ hx i @ '','' @ hx r @ '','' @ show_nat (unat ts)"
| "toy_to_string (LeTerminal h st ts) =
     ''T'' @ hx h @ '','' @ show_nat (state_rank st) @ '','' @ show_nat (unat ts)"

definition toy_from_str :: "string \<Rightarrow> string + ledger_event" where
  "toy_from_str s =
     (case split_once (CHR '','') (drop 1 s) of
        None \<Rightarrow> Inl ''no field''
      | Some (h, r1) \<Rightarrow>
          (case split_once (CHR '','') r1 of
             None \<Rightarrow> Inl ''no field''
           | Some (x, r2) \<Rightarrow>
               if take 1 s = ''T'' then Inr (LeTerminal (unhx h) (state_of_rank (toy_nat x)) (of_nat (toy_nat r2)))
               else (case split_once (CHR '','') r2 of
                       None \<Rightarrow> Inl ''no field''
                     | Some (r, t) \<Rightarrow> Inr (LeAccepted (unhx h) (unhx x) (unhx r) (of_nat (toy_nat t))))))"

definition toy_codec :: event_codec where
  "toy_codec = \<lparr>event_to_string = toy_to_string, event_from_str = toy_from_str\<rparr>"

lemma state_of_rank [simp]: "state_of_rank (state_rank st) = st"
proof (cases st)
  case (RsFailed c)
  then show ?thesis by (cases c) (simp_all add: state_of_rank_def)
qed (simp_all add: state_of_rank_def)

lemma toy_codec_ok: "codec_ok toy_codec"
  unfolding codec_ok_def
proof (intro allI conjI)
  fix ev
  have sp: "split_once (CHR '','') (hx s @ CHR '','' # r) = Some (hx s, r)"
      "split_once (CHR '','') (show_nat n @ CHR '','' # r) = Some (show_nat n, r)" for s r n
    by (simp_all add: split_once_append hx_def hex_of_plain show_nat_plain)
  show "event_from_str toy_codec (event_to_string toy_codec ev) = Inr ev"
    by (cases ev) (simp_all add: toy_codec_def toy_from_str_def sp)
  show "event_to_string toy_codec ev \<noteq> []" by (cases ev) (simp_all add: toy_codec_def)
  show "newline \<notin> set (event_to_string toy_codec ev)"
    by (cases ev) (simp_all add: toy_codec_def hx_def hex_of_plain show_nat_plain)
  show "trim (event_to_string toy_codec ev) = event_to_string toy_codec ev"
    by (cases ev; intro trim_id)
      (simp_all add: toy_codec_def is_space_def digits_ends(2) [unfolded is_space_def])
qed

definition toy_hashlock :: string where "toy_hashlock = replicate 64 (CHR ''a'')"

definition toy_ledger :: ops_ledger where
  "toy_ledger = \<lparr>ledger_file = [], ledger_release = ''0.3'', ledger_records = []\<rparr>"

definition toy_calls :: "((nat option \<times> u64) \<times> ops_call) list" where
  "toy_calls = [((None, 5), CallAccepted toy_hashlock toy_hashlock),
     ((Some 0, 6), CallTerminal toy_hashlock RsCompleted),
     ((None, 7), CallTerminal toy_hashlock RsRefunded)]"

lemma toy_hashlock_ok: "looks_like_hex_id toy_hashlock 32"
  by (simp add: looks_like_hex_id_def toy_hashlock_def numeral_eq_Suc hex_val_def)

lemma toy_calls_outcome:
  "ledger_outcome (fold (run_call (ledger_acc toy_codec) (ledger_trm toy_codec)) toy_calls toy_ledger) toy_hashlock
     = Some RsRefunded"
  by (simp add: toy_calls_def toy_ledger_def ledger_acc_def ledger_trm_def ops_accepted_def record_terminal_def
      toy_hashlock_ok ledger_append_def Let_def ledger_outcome_def)

section \<open>Properties\<close>

text \<open>
  C40. The first confirmed terminal state of a swap is final in the ledger: once a hashlock
  has completed, was refunded or failed, no later call, in any order, with any outcome of the
  writes, changes it; and nothing is recorded for a hashlock without a call that accepted it,
  nor a terminal state without a call that reported exactly that state.
\<close>

theorem ledger_first_terminal_wins:
  "(ledger_outcome l h = Some st \<and> st \<noteq> RsAccepted \<longrightarrow>
      ledger_outcome (fold (run_call (ledger_acc cd) (ledger_trm cd)) cs l) h = Some st) \<and>
   (ledger_outcome l h = None \<and>
      ledger_outcome (fold (run_call (ledger_acc cd) (ledger_trm cd)) cs l) h = Some st \<longrightarrow>
      (\<exists>i d. (i, CallAccepted h d) \<in> set cs) \<and>
      (st \<noteq> RsAccepted \<longrightarrow> (\<exists>i. (i, CallTerminal h st) \<in> set cs)))"
  using ledger.first_terminal_wins ledger.recorded_was_called by blast

theorem ledger_first_terminal_wins_witness:
  "ledger_outcome (fold (run_call (ledger_acc toy_codec) (ledger_trm toy_codec)) toy_calls
      (fold (run_call (ledger_acc toy_codec) (ledger_trm toy_codec)) toy_calls toy_ledger)) toy_hashlock
     = Some RsRefunded"
  using ledger_first_terminal_wins [of "fold (run_call (ledger_acc toy_codec) (ledger_trm toy_codec)) toy_calls toy_ledger"
      toy_hashlock RsRefunded toy_codec toy_calls] toy_calls_outcome by simp

text \<open>
  The report counts every accepted swap exactly once: completed, refunded, failed and
  in-flight swaps add up to the number of distinct hashlocks, each count is the number of
  records in that state, and the failure codes are listed in order, without repetition, with
  counts that add up to the failures.
\<close>

lemma report_partitions:
  "let r = ledger_report l; n = (\<lambda>P. length (filter P (map snd (ledger_records l)))) in
     accepted_total r = rep_completed r + rep_refunded r + rep_failed r + in_flight r \<and>
     rep_completed r = n (\<lambda>x. rec_state x = RsCompleted) \<and>
     rep_refunded r = n (\<lambda>x. rec_state x = RsRefunded) \<and>
     in_flight r = n (\<lambda>x. rec_state x = RsAccepted) \<and>
     sum_list (map snd (failed_by_code r)) = rep_failed r \<and>
     distinct (map fst (failed_by_code r)) \<and> sorted (failed_by_code r)"
proof -
  let ?rs = "map snd (ledger_records l)"
  let ?z = "\<lparr>cnt_completed = 0, cnt_refunded = 0, cnt_failed = 0, cnt_codes = []\<rparr>"
  note c = fold_count [of ?z ?rs, simplified Let_def, simplified]
  have n: "length (filter (\<lambda>x. rec_state x \<noteq> RsAccepted) ?rs) + length (filter (\<lambda>x. rec_state x = RsAccepted) ?rs)
      = length ?rs"
    using sum_length_filter_compl [of "\<lambda>x. rec_state x = RsAccepted" ?rs] by simp
  show ?thesis using c n
    by (auto simp: ledger_report_def Let_def filter_map o_def sort_codes)
qed

text \<open>
  The ledger survives a restart: after any sequence of calls whose writes either reached
  the file whole or failed before the first character, loading the file gives back exactly the
  records that were in memory, each hashlock once.
\<close>

lemma ledger_replays:
  assumes "codec_ok cd" and "ledger_load cd rel rd = Ok l0" and "whole_lines (ledger_file l0)"
    and "\<forall>c\<in>set cs. clean_io (fst (fst c))"
    and "l = fold (run_call (ledger_acc cd) (ledger_trm cd)) cs l0"
  shows "\<exists>l'. ledger_load cd rel (FileContent (ledger_file l)) = Ok l' \<and>
    ledger_records l' = ledger_records l \<and> distinct (map fst (ledger_records l))"
proof -
  have "ledger_synced cd l0"
    using assms(2,3) by (auto simp: ledger_load_def ledger_synced_def split: file_read.splits)
  then have "ledger_synced cd l" unfolding assms(5) by (rule calls_synced [OF assms(1) _ assms(4)])
  then show ?thesis using replay_distinct [of "[]" cd "lines_of (ledger_file l)"]
    by (simp add: ledger_load_def ledger_synced_def)
qed

lemma ledger_replays_witness:
  "\<exists>l'. ledger_load toy_codec ''0.3'' (FileContent (ledger_file
       (fold (run_call (ledger_acc toy_codec) (ledger_trm toy_codec)) toy_calls toy_ledger))) = Ok l' \<and>
     ledger_outcome l' toy_hashlock = Some RsRefunded"
proof -
  have "ledger_load toy_codec ''0.3'' FileNotFound = Ok toy_ledger"
    by (simp add: ledger_load_def toy_ledger_def)
  moreover have "\<forall>c\<in>set toy_calls. clean_io (fst (fst c))" by (simp add: toy_calls_def clean_io_def)
  ultimately show ?thesis
    using ledger_replays [OF toy_codec_ok, of "''0.3''" FileNotFound toy_ledger toy_calls] toy_calls_outcome
    by (force simp: toy_ledger_def whole_lines_def ledger_outcome_def)
qed

end
