(* ===== verification/Maker_Types.thy ===== *)
theory Maker_Types
  imports Swap_Config
begin

text \<open>
  Types of the maker service that the world of the orchestration code mentions: the progress of
  account funding (\<open>src/lez/onboard.rs\<close>), the updates of the shared health state and its
  snapshot (\<open>src/cli/bot.rs\<close>), what the supervisor of the offer publisher waits for, and the
  background tasks of the standing loop (\<open>src/cli/maker.rs\<close>).
\<close>

datatype funding_progress =
    Initializing
  | AccountInitialized string
  | AlreadyInitializedEv
  | CheckingBalance u128 u128
  | TargetReached u128
  | ClaimSubmitted string
  | FaucetClaimed "string option" u64 u128
  | ClaimFailed string u32

datatype status_op =
    SetLoopState string
  | NoteOfferPublish u64
  | SetPublisherAlive bool
  | IncrCompleted
  | IncrFailed
  | IncrTransient
  | SetLezBalance u128
  | SetEthBalance u128

text \<open>The shared health state; its snapshot is what the status file holds.\<close>

record status_state =
  st_started_at :: u64
  st_last_offer_publish_ms :: u64
  st_publisher_alive :: bool
  st_completed :: u32
  st_failed :: u32
  st_transient_errors :: u32
  st_loop_state :: string
  st_lez_balance :: u128
  st_eth_balance_wei :: u128

record maker_status =
  ms_started_at :: u64
  ms_last_offer_publish_ms :: "u64 option"
  ms_lez_balance :: string
  ms_eth_balance_wei :: string
  ms_in_flight :: nat
  ms_quarantined :: nat
  ms_completed :: u32
  ms_failed :: u32
  ms_transient_errors :: u32
  ms_loop_state :: string
  ms_publisher_alive :: bool
  ms_updated_at :: u64

text \<open>
  The outcome of a write of the status file: all went well, the temporary file could not be
  written in full (what landed in it is \<open>Some\<close> text or nothing), the rename failed.
\<close>

datatype status_io = StatusIoOk | StatusTmpErr "string option" | StatusRenameErr

text \<open>The child process of the offer publisher: a line of output, its end, or a cancellation seen first.\<close>

datatype child_event = ChildLine string | ChildEnded | ChildCancelSeen

datatype maker_task = TkResume nat | TkSignal | TkPublisher | TkStatusWriter | TkFundTopper | TkDrain

datatype task_event = TaskSpawned maker_task | TaskJoined maker_task | TaskAborted maker_task

end
