(* ===== verification/Mcp_Fingerprint.thy ===== *)
theory Mcp_Fingerprint
  imports Swap_Config
begin

text \<open>
  The configuration of the MCP server (\<open>lez-mcp/src/config.rs\<close>, \<open>lib.rs\<close>) and its version
  fingerprint (\<open>lez-mcp/src/fingerprint.rs\<close>): the ids of the builtin programs that the binary
  embeds against the ids that the sequencer reports. A \<open>BTreeMap\<close> is its list of entries in the
  order of the keys; the environment, the files, the url parser, the hex and base58 codecs and the
  embedded ids are parameters.
\<close>

section \<open>Configuration\<close>

definition default_sequencer_url :: string where
  "default_sequencer_url = ''https://testnet.lez.logos.co''"

definition default_eth_rpc_url :: string where
  "default_eth_rpc_url = ''wss://ethereum-sepolia-rpc.publicnode.com''"

definition default_eth_htlc_address :: string where
  "default_eth_htlc_address = ''0x351B0EA07739FA9F6769213927D7836a790A5FAF''"

definition default_eth_htlc_from_block :: u64 where
  "default_eth_htlc_from_block = 11417462"

definition default_lez_htlc_program_id :: string where
  "default_lez_htlc_program_id = ''9eb88f51aae87a58fb74b8d2dc7327b39333585e63280e3f9cf8d86dac0ed702''"

record mcp_config =
  mc_sequencer_url :: string
  mc_lez_auth :: "lez_auth option"
  mc_eth_rpc_url :: string
  mc_eth_htlc_address :: string
  mc_eth_htlc_from_block :: u64
  mc_lez_htlc_program_id :: string

text \<open>An environment variable that is set and not blank, or the default.\<close>

definition blank :: "string \<Rightarrow> bool" where
  "blank s \<longleftrightarrow> trim s = []"

definition var_or :: "(string \<Rightarrow> string option) \<Rightarrow> string \<Rightarrow> string \<Rightarrow> string" where
  "var_or var name dflt = (case var name of Some s \<Rightarrow> if blank s then dflt else s | None \<Rightarrow> dflt)"

definition nonempty_var :: "(string \<Rightarrow> string option) \<Rightarrow> string \<Rightarrow> string option" where
  "nonempty_var var name = (case var name of Some s \<Rightarrow> if s = [] then None else Some s | None \<Rightarrow> None)"

definition parse_u64 :: "string \<Rightarrow> string + u64" where
  "parse_u64 s =
     (if s = [] then Inl ''cannot parse integer from empty string''
      else
        let ds = (if hd s = CHR ''+'' then List.tl s else s) in
        if ds = [] then Inl ''invalid digit found in string''
        else
          (case parse_digits 0 ds of
             None \<Rightarrow> Inl ''invalid digit found in string''
           | Some n \<Rightarrow> if n < 2 ^ 64 then Inr (of_nat n)
                       else Inl ''number too large to fit in target type''))"

text \<open>The signing configuration: the raw key, the key file, the wallet, in this order.\<close>

definition wallet_from_env ::
  "(string \<Rightarrow> string option) \<Rightarrow> (string \<Rightarrow> (swap_error, account_id) res) \<Rightarrow> (swap_error \<Rightarrow> string) \<Rightarrow> string + lez_auth option" where
  "wallet_from_env var parse_account show_error =
     (case (nonempty_var var ''LEZ_WALLET_HOME'', nonempty_var var ''LEZ_ACCOUNT_ID'') of
        (Some home, Some account) \<Rightarrow>
          (case parse_account account of
             Ok account_id \<Rightarrow> Inr (Some (Wallet home account_id))
           | Err e \<Rightarrow> Inl (''invalid LEZ_ACCOUNT_ID: '' @ show_error e)
           | _ \<Rightarrow> Inl [])
      | (None, None) \<Rightarrow> Inr None
      | _ \<Rightarrow> Inl ''LEZ_WALLET_HOME and LEZ_ACCOUNT_ID must be set together (or use LEZ_SIGNING_KEY)'')"

definition key_file_auth :: "(string \<Rightarrow> string + string) \<Rightarrow> string \<Rightarrow> string + lez_auth option" where
  "key_file_auth read_file path =
     (case read_file (trim path) of
        Inl e \<Rightarrow> Inl (''cannot read LEZ_SIGNING_KEY_FILE: '' @ e)
      | Inr key \<Rightarrow> if trim key = [] then Inl ''LEZ_SIGNING_KEY_FILE is empty'' else Inr (Some (RawKey (trim key))))"

definition auth_from_env ::
  "(string \<Rightarrow> string option) \<Rightarrow> (string \<Rightarrow> string + string) \<Rightarrow> (string \<Rightarrow> (swap_error, account_id) res) \<Rightarrow>
     (swap_error \<Rightarrow> string) \<Rightarrow> string + lez_auth option" where
  "auth_from_env var read_file parse_account show_error =
     (let key = var_or var ''LEZ_SIGNING_KEY'' []; path = var_or var ''LEZ_SIGNING_KEY_FILE'' [] in
      if key \<noteq> [] then Inr (Some (RawKey (trim key)))
      else if path \<noteq> [] then key_file_auth read_file path
      else wallet_from_env var parse_account show_error)"

definition from_env ::
  "(string \<Rightarrow> string option) \<Rightarrow> (string \<Rightarrow> string + string) \<Rightarrow> (string \<Rightarrow> (swap_error, account_id) res) \<Rightarrow>
     (swap_error \<Rightarrow> string) \<Rightarrow> string + mcp_config" where
  "from_env var read_file parse_account show_error =
     (case auth_from_env var read_file parse_account show_error of
        Inl e \<Rightarrow> Inl e
      | Inr auth \<Rightarrow>
          (case (let s = var_or var ''ETH_HTLC_FROM_BLOCK'' [] in
                 if s = [] then Inr default_eth_htlc_from_block else parse_u64 (trim s)) of
             Inl e \<Rightarrow> Inl (''invalid ETH_HTLC_FROM_BLOCK: '' @ e)
           | Inr from_block \<Rightarrow>
               Inr \<lparr> mc_sequencer_url = var_or var ''LEZ_SEQUENCER_URL'' default_sequencer_url,
                     mc_lez_auth = auth,
                     mc_eth_rpc_url = var_or var ''ETH_RPC_URL'' default_eth_rpc_url,
                     mc_eth_htlc_address = var_or var ''ETH_HTLC_ADDRESS'' default_eth_htlc_address,
                     mc_eth_htlc_from_block = from_block,
                     mc_lez_htlc_program_id = var_or var ''LEZ_HTLC_PROGRAM_ID'' default_lez_htlc_program_id \<rparr>))"

definition swap_config_for :: "(string \<Rightarrow> string + bytes) \<Rightarrow> mcp_config \<Rightarrow> lez_auth \<Rightarrow> swap_config" where
  "swap_config_for hex_decode cfg auth =
     \<lparr> eth_rpc_url = mc_eth_rpc_url cfg, eth_private_key = [], eth_htlc_address = 0,
       lez_sequencer_url = mc_sequencer_url cfg, lez_sequencer_url_explicit = True, lez_auth_mode = auth,
       lez_htlc_program_id = (case parse_program_id hex_decode (mc_lez_htlc_program_id cfg) of
                                Ok pid \<Rightarrow> pid | _ \<Rightarrow> replicate 8 0),
       lez_amount = 0, eth_amount = 0, lez_timelock = 0, eth_timelock = 0, eth_recipient_address = 0,
       lez_taker_account_id = None, poll_interval = 2000 \<rparr>"

section \<open>The fingerprint\<close>

definition client_tag :: string where "client_tag = ''v0.2.2''"
definition client_commit :: string where "client_commit = ''d6e4ae69''"

record parsed_url =
  pu_scheme :: string
  pu_host :: "string option"
  pu_port :: "nat option"

definition redact_url :: "(string \<Rightarrow> parsed_url option) \<Rightarrow> string \<Rightarrow> string" where
  "redact_url parse_url raw =
     (case parse_url raw of
        None \<Rightarrow> ''<unparseable-url>''
      | Some u \<Rightarrow>
          (case (pu_host u, pu_port u) of
             (Some host, Some port) \<Rightarrow> pu_scheme u @ ''://'' @ host @ '':'' @ show_nat port
           | (Some host, None) \<Rightarrow> pu_scheme u @ ''://'' @ host
           | (None, _) \<Rightarrow> pu_scheme u @ ''://<redacted>''))"

definition program_id_hex :: "program_id \<Rightarrow> string" where
  "program_id_hex pid = hex_of (concat (List.map (le_bytes 4) pid))"

type_synonym id_table = "(string \<times> program_id) list"

record builtin_ids =
  bi_amm :: program_id
  bi_authenticated_transfer :: program_id
  bi_pinata :: program_id
  bi_privacy_preserving_circuit :: program_id
  bi_token :: program_id

definition embedded_program_ids :: "builtin_ids \<Rightarrow> id_table" where
  "embedded_program_ids b =
     [(''amm'', bi_amm b), (''authenticated_transfer'', bi_authenticated_transfer b), (''pinata'', bi_pinata b),
      (''privacy_preserving_circuit'', bi_privacy_preserving_circuit b), (''token'', bi_token b)]"

record program_fingerprint =
  pf_embedded :: string
  pf_sequencer :: "string option"
  pf_matches :: bool

record fingerprint_report =
  fr_sequencer_url :: string
  fr_client_tag :: string
  fr_client_commit :: string
  fr_matched :: bool
  fr_programs :: "(string \<times> program_fingerprint) list"
  fr_extra_sequencer_programs :: "string list"
  fr_mismatches :: "string list"

definition program_line :: "id_table \<Rightarrow> string \<times> program_id \<Rightarrow> string \<times> program_fingerprint" where
  "program_line remote entry =
     (case entry of (name, local_id) \<Rightarrow>
        (name, \<lparr> pf_embedded = program_id_hex local_id,
                 pf_sequencer = map_option program_id_hex (map_of remote name),
                 pf_matches = (map_of remote name = Some local_id) \<rparr>))"

definition build_report :: "(string \<Rightarrow> string) \<Rightarrow> string \<Rightarrow> id_table \<Rightarrow> id_table \<Rightarrow> fingerprint_report" where
  "build_report redact url embedded remote =
     (let mismatches = List.map fst (filter (\<lambda>(name, local_id). map_of remote name \<noteq> Some local_id) embedded) in
      \<lparr> fr_sequencer_url = redact url, fr_client_tag = client_tag, fr_client_commit = client_commit,
        fr_matched = (mismatches = []),
        fr_programs = List.map (program_line remote) embedded,
        fr_extra_sequencer_programs =
          filter (\<lambda>name. name \<notin> set (List.map fst embedded)) (List.map fst remote),
        fr_mismatches = mismatches \<rparr>)"

text \<open>\<open>run_fingerprint\<close>, from the answer to its one request.\<close>

definition fingerprint_of ::
  "(string \<Rightarrow> string) \<Rightarrow> string \<Rightarrow> builtin_ids \<Rightarrow> string + id_table \<Rightarrow> string + fingerprint_report" where
  "fingerprint_of redact url b answer =
     (case answer of
        Inl e \<Rightarrow> Inl (''getProgramIds RPC failed: '' @ e)
      | Inr remote \<Rightarrow> Inr (build_report redact url (embedded_program_ids b) remote))"

section \<open>What a report shows\<close>

lemma hex_of_inj: "hex_of xs = hex_of ys \<Longrightarrow> xs = ys"
  by (metis of_hex_hex_of sum.inject(2))

lemma le_bytes_inj: "le_bytes 4 a = le_bytes 4 b \<Longrightarrow> a = b" for a b :: u32
  by (simp add: le_bytes_inject)

lemma words_inj:
  fixes xs ys :: "u32 list"
  shows "length xs = length ys \<Longrightarrow> concat (List.map (le_bytes 4) xs) = concat (List.map (le_bytes 4) ys) \<Longrightarrow> xs = ys"
proof (induction xs ys rule: list_induct2)
  case (Cons x xs y ys)
  then have "le_bytes 4 x = le_bytes 4 y" "concat (List.map (le_bytes 4) xs) = concat (List.map (le_bytes 4) ys)"
    by (simp_all add: append_eq_append_conv)
  then show ?case using Cons.IH le_bytes_inj by simp
qed simp

lemma program_id_hex_inj: "length a = length b \<Longrightarrow> program_id_hex a = program_id_hex b \<longleftrightarrow> a = b"
  unfolding program_id_hex_def using hex_of_inj words_inj by metis

text \<open>Ids of eight words on both sides, and one entry for a name.\<close>

definition well_formed_ids :: "id_table \<Rightarrow> bool" where
  "well_formed_ids t \<longleftrightarrow> distinct (List.map fst t) \<and> list_all (\<lambda>(name, pid). length pid = 8) t"

lemma shown_match:
  assumes "length pid = 8" "well_formed_ids remote"
  shows "map_option program_id_hex (map_of remote name) = Some (program_id_hex pid) \<longleftrightarrow> map_of remote name = Some pid"
proof (cases "map_of remote name")
  case (Some pid')
  then have "(name, pid') \<in> set remote" by (rule map_of_SomeD)
  then have "length pid' = 8" using assms(2) by (auto simp: well_formed_ids_def list_all_iff)
  then show ?thesis using Some assms(1) program_id_hex_inj by simp
qed simp

text \<open>
  The verdict of a fingerprint is what its report shows: it matches exactly when for every
  embedded program the sequencer reports an id whose printed form is the printed embedded one,
  the names listed as mismatches are exactly the others, the extra names are exactly those of the
  sequencer that are not embedded, and of the url only what the redaction leaves is shown.
\<close>

lemma report_shows_verdict:
  assumes "well_formed_ids embedded" "well_formed_ids remote"
  shows "let r = build_report redact url embedded remote in
    (fr_matched r \<longleftrightarrow> list_all (\<lambda>(name, p). pf_sequencer p = Some (pf_embedded p)) (fr_programs r)) \<and>
    set (fr_mismatches r) = fst ` {(name, p) \<in> set (fr_programs r). pf_sequencer p \<noteq> Some (pf_embedded p)} \<and>
    set (fr_extra_sequencer_programs r) = fst ` set remote - fst ` set (fr_programs r) \<and>
    List.map fst (fr_programs r) = List.map fst embedded \<and> fr_sequencer_url r = redact url"
proof -
  let ?line = "program_line remote"
  have shown: "pf_sequencer (snd (?line e)) = Some (pf_embedded (snd (?line e))) \<longleftrightarrow> map_of remote (fst e) = Some (snd e)"
    if "e \<in> set embedded" for e
  proof -
    have "length (snd e) = 8" using that assms(1) by (auto simp: well_formed_ids_def list_all_iff)
    then show ?thesis using shown_match [OF _ assms(2)] by (simp add: program_line_def case_prod_unfold)
  qed
  have fst_line: "fst (?line e) = fst e" for e by (simp add: program_line_def case_prod_unfold)
  have "list_all (\<lambda>(name, p). pf_sequencer p = Some (pf_embedded p)) (List.map ?line embedded) \<longleftrightarrow>
      filter (\<lambda>(name, local_id). map_of remote name \<noteq> Some local_id) embedded = []"
    using shown by (auto simp: list_all_iff filter_empty_conv case_prod_unfold)
  moreover have "fst ` {e \<in> set embedded. map_of remote (fst e) \<noteq> Some (snd e)} =
      fst ` {q \<in> ?line ` set embedded. pf_sequencer (snd q) \<noteq> Some (pf_embedded (snd q))}" (is "?l = ?r")
  proof (rule set_eqI, rule iffI)
    fix n assume "n \<in> ?l"
    then obtain e where "e \<in> set embedded" "map_of remote (fst e) \<noteq> Some (snd e)" "n = fst e" by auto
    then show "n \<in> ?r" using shown fst_line by (intro image_eqI [of _ _ "?line e"]) auto
  next
    fix n assume "n \<in> ?r"
    then show "n \<in> ?l" using shown fst_line by force
  qed
  moreover have "fst ` ?line ` set embedded = fst ` set embedded" by (simp add: image_image fst_line)
  ultimately show ?thesis
    by (auto simp: build_report_def Let_def case_prod_unfold fst_line)
qed

text \<open>At work: one id of another build, one missing, one more than embedded.\<close>

definition sample_ids :: id_table where
  "sample_ids = [(''amm'', replicate 8 1), (''pinata'', replicate 8 2), (''token'', replicate 8 3)]"

definition sample_remote :: id_table where
  "sample_remote = [(''amm'', replicate 8 1), (''token'', replicate 8 4), (''vault'', replicate 8 5)]"

lemma report_shows_verdict_witness:
  "let r = build_report id [] sample_ids sample_remote in
    (fr_matched r \<longleftrightarrow> list_all (\<lambda>(name, p). pf_sequencer p = Some (pf_embedded p)) (fr_programs r)) \<and>
    set (fr_mismatches r) = fst ` {(name, p) \<in> set (fr_programs r). pf_sequencer p \<noteq> Some (pf_embedded p)} \<and>
    set (fr_extra_sequencer_programs r) = fst ` set sample_remote - fst ` set (fr_programs r) \<and>
    List.map fst (fr_programs r) = List.map fst sample_ids \<and> fr_sequencer_url r = id []"
  by (rule report_shows_verdict) (simp_all add: well_formed_ids_def sample_ids_def sample_remote_def)

lemma sample_report:
  "fr_mismatches (build_report id [] sample_ids sample_remote) = [''pinata'', ''token'']"
  "fr_extra_sequencer_programs (build_report id [] sample_ids sample_remote) = [''vault'']"
  by (simp_all add: build_report_def sample_ids_def sample_remote_def)

end
