(* ===== verification/Mcp_Gate.thy ===== *)
theory Mcp_Gate
  imports Mcp_Fingerprint
begin

text \<open>
  The write gate of the MCP server (\<open>lez-mcp/src/server.rs\<close>): a verdict on the sequencer with
  the instant it was stored, refreshed by one caller at a time. The callers run concurrently, so
  the refresh is a step relation of a world that any number of them share; time passes between
  any two of their steps, and a caller may be dropped wherever it waits.
\<close>

section \<open>Verdicts\<close>

datatype gate =
    Verified fingerprint_report
  | Mismatch fingerprint_report
  | Unverified string

fun writes_enabled :: "gate \<Rightarrow> bool" where
  "writes_enabled (Verified r) = True"
| "writes_enabled (Mismatch r) = False"
| "writes_enabled (Unverified e) = False"

text \<open>What a fingerprint makes the gate.\<close>

definition gate_of :: "string + fingerprint_report \<Rightarrow> gate" where
  "gate_of outcome =
     (case outcome of
        Inr r \<Rightarrow> if fr_matched r then Verified r else Mismatch r
      | Inl e \<Rightarrow> Unverified e)"

record gate_state =
  gs_gate :: gate
  gs_checked_at :: nat

definition fingerprint_ttl :: nat where "fingerprint_ttl = 60000"

definition gate_is_fresh :: "gate_state \<Rightarrow> nat \<Rightarrow> nat \<Rightarrow> bool" where
  "gate_is_fresh gs ttl now \<longleftrightarrow> writes_enabled (gs_gate gs) \<and> now - gs_checked_at gs < ttl"

lemma writes_enabled_gate_of: "writes_enabled (gate_of r) \<longleftrightarrow> (\<exists>report. r = Inr report \<and> fr_matched report)"
  by (cases r) (auto simp: gate_of_def)

section \<open>Callers\<close>

text \<open>
  Where a caller stands: before its fast path; waiting for the lock; holding it; its request under
  way since an instant; answered by what the sequencer was at an instant; through, at an instant, with
  the instant at which the verdict it acts on was stored, and the verdict. The flag tells an explicit re-check, which skips the freshness tests.
\<close>

datatype phase =
    Idle
  | Queued bool
  | Holding bool
  | Asking bool nat
  | Answered bool nat gate
  | Decided nat nat gate

fun holds_lock :: "phase \<Rightarrow> bool" where
  "holds_lock (Holding e) = True"
| "holds_lock (Asking e t) = True"
| "holds_lock (Answered e t g) = True"
| "holds_lock _ = False"

text \<open>\<open>gw_seen\<close> is not state of the code: the instant at which the sequencer was what the stored verdict says.\<close>

record gate_world =
  gw_now :: nat
  gw_gate :: gate_state
  gw_lock :: "nat option"
  gw_phase :: "nat \<Rightarrow> phase"
  gw_seen :: nat

definition put_phase :: "nat \<Rightarrow> phase \<Rightarrow> gate_world \<Rightarrow> gate_world" where
  "put_phase i p w = w\<lparr>gw_phase := (gw_phase w)(i := p)\<rparr>"

definition release :: "gate_world \<Rightarrow> gate_world" where
  "release w = w\<lparr>gw_lock := None\<rparr>"

definition store_verdict :: "nat \<Rightarrow> gate \<Rightarrow> gate_world \<Rightarrow> gate_world" where
  "store_verdict seen g w = w\<lparr>gw_gate := \<lparr> gs_gate = g, gs_checked_at = gw_now w \<rparr>, gw_seen := seen\<rparr>"

text \<open>
  The steps; \<open>live t\<close> is the verdict on the sequencer as it is at \<open>t\<close>. The request is answered by
  what the sequencer is at some instant between its start and its answer.
\<close>

inductive gate_step :: "(nat \<Rightarrow> gate) \<Rightarrow> gate_world \<Rightarrow> gate_world \<Rightarrow> bool" for live where
  tick: "gate_step live w (w\<lparr>gw_now := gw_now w + d\<rparr>)"
| fast: "gw_phase w i = Idle \<Longrightarrow> gate_is_fresh (gw_gate w) fingerprint_ttl (gw_now w) \<Longrightarrow>
    gate_step live w (put_phase i (Decided (gw_now w) (gs_checked_at (gw_gate w)) (gs_gate (gw_gate w))) w)"
| slow: "gw_phase w i = Idle \<Longrightarrow> \<not> gate_is_fresh (gw_gate w) fingerprint_ttl (gw_now w) \<Longrightarrow>
    gate_step live w (put_phase i (Queued False) w)"
| recheck: "gw_phase w i = Idle \<Longrightarrow> gate_step live w (put_phase i (Queued True) w)"
| acquire: "gw_phase w i = Queued e \<Longrightarrow> gw_lock w = None \<Longrightarrow>
    gate_step live w (put_phase i (Holding e) (w\<lparr>gw_lock := Some i\<rparr>))"
| reuse: "gw_phase w i = Holding False \<Longrightarrow> gate_is_fresh (gw_gate w) fingerprint_ttl (gw_now w) \<Longrightarrow>
    gate_step live w (put_phase i (Decided (gw_now w) (gs_checked_at (gw_gate w)) (gs_gate (gw_gate w))) (release w))"
| ask: "gw_phase w i = Holding e \<Longrightarrow> e \<or> \<not> gate_is_fresh (gw_gate w) fingerprint_ttl (gw_now w) \<Longrightarrow>
    gate_step live w (put_phase i (Asking e (gw_now w)) w)"
| answer: "gw_phase w i = Asking e t0 \<Longrightarrow> t0 \<le> t \<Longrightarrow> t \<le> gw_now w \<Longrightarrow>
    gate_step live w (put_phase i (Answered e t (live t)) w)"
| store: "gw_phase w i = Answered e t g \<Longrightarrow>
    gate_step live w (put_phase i (Decided (gw_now w) (gw_now w) g) (release (store_verdict t g w)))"
| drop_waiting: "gw_phase w i = Queued e \<Longrightarrow> gate_step live w (put_phase i Idle w)"
| drop_holding: "holds_lock (gw_phase w i) \<Longrightarrow> gate_step live w (put_phase i Idle (release w))"
| again: "gw_phase w i = Decided n s g \<Longrightarrow> gate_step live w (put_phase i Idle w)"

text \<open>The server starts with the verdict of its startup fingerprint and no caller.\<close>

inductive gate_reaches :: "(nat \<Rightarrow> gate) \<Rightarrow> gate_world \<Rightarrow> bool" for live where
  start: "seen \<le> now \<Longrightarrow> gate_reaches live \<lparr> gw_now = now,
      gw_gate = \<lparr> gs_gate = live seen, gs_checked_at = now \<rparr>, gw_lock = None, gw_phase = (\<lambda>_. Idle), gw_seen = seen \<rparr>"
| step: "gate_reaches live w \<Longrightarrow> gate_step live w w' \<Longrightarrow> gate_reaches live w'"

section \<open>The invariant\<close>

text \<open>A caller's phase in a world: what it acts on, and what it may still store.\<close>

fun phase_ok :: "(nat \<Rightarrow> gate) \<Rightarrow> gate_world \<Rightarrow> phase \<Rightarrow> bool" where
  "phase_ok live w (Asking e t0) \<longleftrightarrow> gs_checked_at (gw_gate w) \<le> t0 \<and> t0 \<le> gw_now w"
| "phase_ok live w (Answered e t g) \<longleftrightarrow> g = live t \<and> gs_checked_at (gw_gate w) \<le> t \<and> t \<le> gw_now w"
| "phase_ok live w (Decided n s g) \<longleftrightarrow> n \<le> gw_now w \<and> s \<le> n \<and> n - s < fingerprint_ttl \<and> (\<exists>t. t \<le> s \<and> g = live t)"
| "phase_ok live w p \<longleftrightarrow> True"

definition gate_inv :: "(nat \<Rightarrow> gate) \<Rightarrow> gate_world \<Rightarrow> bool" where
  "gate_inv live w \<longleftrightarrow>
     gs_gate (gw_gate w) = live (gw_seen w) \<and> gw_seen w \<le> gs_checked_at (gw_gate w) \<and>
     gs_checked_at (gw_gate w) \<le> gw_now w \<and>
     (\<forall>i. holds_lock (gw_phase w i) \<longleftrightarrow> gw_lock w = Some i) \<and>
     (\<forall>i. phase_ok live w (gw_phase w i))"

lemma phase_ok_mono:
  "phase_ok live w p \<Longrightarrow> gw_gate w' = gw_gate w \<Longrightarrow> gw_now w \<le> gw_now w' \<Longrightarrow> phase_ok live w' p"
  by (cases p) auto

text \<open>A step of one caller that leaves the gate alone.\<close>

lemma gate_inv_put:
  assumes "gate_inv live w" "phase_ok live w p"
    and "holds_lock p \<longleftrightarrow> l = Some i" "\<And>j. j \<noteq> i \<Longrightarrow> gw_lock w = Some j \<longleftrightarrow> l = Some j"
  shows "gate_inv live (put_phase i p (w\<lparr>gw_lock := l\<rparr>))"
proof -
  have "phase_ok live (put_phase i p (w\<lparr>gw_lock := l\<rparr>)) q" if "phase_ok live w q" for q
    by (rule phase_ok_mono [OF that]) (simp_all add: put_phase_def)
  then show ?thesis using assms unfolding gate_inv_def by (auto simp: put_phase_def)
qed

lemma gate_inv_same_lock:
  assumes "gate_inv live w" "phase_ok live w p" "holds_lock p \<longleftrightarrow> holds_lock (gw_phase w i)"
  shows "gate_inv live (put_phase i p w)"
  using gate_inv_put [OF assms(1,2), of "gw_lock w" i] assms(1,3) by (simp add: gate_inv_def)

lemma gate_inv_release:
  assumes "gate_inv live w" "phase_ok live w p" "holds_lock (gw_phase w i)" "\<not> holds_lock p"
  shows "gate_inv live (put_phase i p (release w))"
proof -
  have "gw_lock w = Some i" using assms(1,3) by (simp add: gate_inv_def)
  then show ?thesis using gate_inv_put [OF assms(1,2), of None i] assms(4) by (simp add: release_def)
qed

text \<open>Nobody else is under way when a verdict is stored.\<close>

lemma gate_inv_store:
  assumes inv: "gate_inv live w" and ph: "gw_phase w i = Answered e t g"
  shows "gate_inv live (put_phase i (Decided (gw_now w) (gw_now w) g) (release (store_verdict t g w)))"
proof -
  have me: "gw_lock w = Some i" using inv ph by (metis gate_inv_def holds_lock.simps(3))
  have ok: "g = live t" "gs_checked_at (gw_gate w) \<le> t" "t \<le> gw_now w"
    using inv ph unfolding gate_inv_def by (metis phase_ok.simps(2))+
  have others: "\<not> holds_lock (gw_phase w j)" if "j \<noteq> i" for j
    using inv me that by (simp add: gate_inv_def)
  let ?w = "put_phase i (Decided (gw_now w) (gw_now w) g) (release (store_verdict t g w))"
  have "phase_ok live ?w (gw_phase w j)" if "j \<noteq> i" for j
  proof -
    have "phase_ok live w (gw_phase w j)" using inv by (simp add: gate_inv_def)
    then show ?thesis using others [OF that]
      by (cases "gw_phase w j") (simp_all add: put_phase_def release_def store_verdict_def)
  qed
  moreover have "phase_ok live ?w (Decided (gw_now w) (gw_now w) g)"
    using ok by (auto simp: put_phase_def release_def store_verdict_def fingerprint_ttl_def)
  moreover have "gw_phase ?w = (gw_phase w)(i := Decided (gw_now w) (gw_now w) g)"
    by (simp add: put_phase_def release_def store_verdict_def)
  ultimately show ?thesis using ok others
    by (auto simp: gate_inv_def put_phase_def release_def store_verdict_def)
qed

lemma gate_inv_step: "gate_step live w w' \<Longrightarrow> gate_inv live w \<Longrightarrow> gate_inv live w'"
proof (induction rule: gate_step.induct)
  case (tick w d)
  have "phase_ok live (w\<lparr>gw_now := gw_now w + d\<rparr>) (gw_phase w i)" for i
  proof (rule phase_ok_mono)
    show "phase_ok live w (gw_phase w i)" using tick by (simp add: gate_inv_def)
  qed simp_all
  then show ?case using tick by (simp add: gate_inv_def)
next
  case (fast w i)
  then show ?case by (intro gate_inv_same_lock) (auto simp: gate_inv_def gate_is_fresh_def)
next
  case (slow w i)
  then show ?case by (intro gate_inv_same_lock) auto
next
  case (recheck w i)
  then show ?case by (intro gate_inv_same_lock) auto
next
  case (acquire w i e)
  then show ?case by (intro gate_inv_put) auto
next
  case (reuse w i)
  then show ?case by (intro gate_inv_release) (auto simp: gate_inv_def gate_is_fresh_def)
next
  case (ask w i e)
  then show ?case by (intro gate_inv_same_lock) (auto simp: gate_inv_def)
next
  case (answer w i e t0 t)
  then have "phase_ok live w (Asking e t0)" by (metis gate_inv_def)
  then show ?case using answer by (intro gate_inv_same_lock) auto
next
  case (store w i e t g)
  then show ?case by (intro gate_inv_store)
next
  case (drop_waiting w i e)
  then show ?case by (intro gate_inv_same_lock) auto
next
  case (drop_holding w i)
  then show ?case by (intro gate_inv_release) auto
next
  case (again w i n s g)
  then show ?case by (intro gate_inv_same_lock) auto
qed

lemma gate_reaches_inv: "gate_reaches live w \<Longrightarrow> gate_inv live w"
proof (induction rule: gate_reaches.induct)
  case (start seen now)
  then show ?case by (simp add: gate_inv_def)
next
  case (step w w')
  then show ?case by (blast intro: gate_inv_step)
qed

lemma seen_mono: "gate_step live w w' \<Longrightarrow> gate_inv live w \<Longrightarrow> gw_seen w \<le> gw_seen w'"
proof (induction rule: gate_step.induct)
  case (store w i e t g)
  then have "phase_ok live w (Answered e t g)" by (metis gate_inv_def)
  then show ?case using store by (simp add: gate_inv_def put_phase_def release_def store_verdict_def)
qed (simp_all add: put_phase_def release_def)

section \<open>Properties\<close>

definition act_ok :: "(nat \<Rightarrow> gate) \<Rightarrow> phase \<Rightarrow> bool" where
  "act_ok live p \<longleftrightarrow>
     (case p of Decided n s g \<Rightarrow> s \<le> n \<and> n - s < fingerprint_ttl \<and> (\<exists>t. t \<le> s \<and> g = live t) | _ \<Rightarrow> True)"

definition gate_safe :: "(nat \<Rightarrow> gate) \<Rightarrow> gate_world \<Rightarrow> bool" where
  "gate_safe live w \<longleftrightarrow>
     {i. holds_lock (gw_phase w i)} = set_option (gw_lock w) \<and>
     (\<forall>i. act_ok live (gw_phase w i)) \<and>
     gs_gate (gw_gate w) = live (gw_seen w) \<and>
     (\<forall>w'. gate_step live w w' \<longrightarrow> gw_seen w \<le> gw_seen w')"

text \<open>
  C13. However the writers and the explicit re-checks interleave, wherever requests are dropped and
  however long the sequencer takes, at most one fingerprint is under way, a stored verdict is
  never replaced by one on an earlier state of the sequencer, and whoever passes the gate acts on
  a verdict that was stored less than a minute before and that the sequencer justified at an
  instant no later than that.
\<close>

theorem gate_single_flight:
  assumes "gate_reaches live w"
  shows "gate_safe live w"
proof -
  have inv: "gate_inv live w" by (rule gate_reaches_inv [OF assms])
  have "act_ok live (gw_phase w i)" for i
  proof -
    have "phase_ok live w (gw_phase w i)" using inv by (simp add: gate_inv_def)
    then show ?thesis by (cases "gw_phase w i") (auto simp: act_ok_def)
  qed
  moreover have "{i. holds_lock (gw_phase w i)} = set_option (gw_lock w)"
    using inv unfolding gate_inv_def by (cases "gw_lock w") auto
  moreover have "\<forall>w'. gate_step live w w' \<longrightarrow> gw_seen w \<le> gw_seen w'" using seen_mono inv by blast
  moreover have "gs_gate (gw_gate w) = live (gw_seen w)" using inv by (simp add: gate_inv_def)
  ultimately show ?thesis by (simp add: gate_safe_def)
qed

text \<open>At work: two writers find the startup verdict unusable; the second rides the first one's refresh.\<close>

definition sample_report_ok :: fingerprint_report where
  "sample_report_ok = build_report id [] sample_ids sample_ids"

definition sample_live :: "nat \<Rightarrow> gate" where
  "sample_live t = (if t < 10 then Unverified [] else gate_of (Inr sample_report_ok))"

definition sample_gate_world :: gate_world where
  "sample_gate_world = \<lparr> gw_now = 5, gw_gate = \<lparr> gs_gate = sample_live 3, gs_checked_at = 5 \<rparr>, gw_lock = None,
     gw_phase = (\<lambda>_. Idle), gw_seen = 3 \<rparr>"

lemma sample_gate_run:
  "gate_reaches sample_live
     (put_phase 1 (Holding False) (put_phase 0 (Decided 20 20 (sample_live 12))
        (sample_gate_world\<lparr>gw_now := 20, gw_lock := Some 1, gw_gate := \<lparr> gs_gate = sample_live 12, gs_checked_at = 20 \<rparr>,
           gw_seen := 12\<rparr>)))" (is "gate_reaches _ ?goal")
proof -
  let ?w0 = sample_gate_world
  have w0: "gate_reaches sample_live ?w0" unfolding sample_gate_world_def by (rule gate_reaches.start) simp
  have stale: "\<not> gate_is_fresh (gw_gate ?w0) fingerprint_ttl (gw_now ?w0)"
    by (simp add: sample_gate_world_def sample_live_def gate_is_fresh_def)
  let ?w1 = "put_phase 0 (Queued False) ?w0"
  have w1: "gate_reaches sample_live ?w1"
    by (rule gate_reaches.step [OF w0]) (rule gate_step.slow [OF _ stale], simp add: sample_gate_world_def)
  let ?w2 = "put_phase 1 (Queued False) ?w1"
  have w2: "gate_reaches sample_live ?w2"
    by (rule gate_reaches.step [OF w1], rule gate_step.slow)
      (use stale in \<open>simp_all add: sample_gate_world_def put_phase_def\<close>)
  let ?w3 = "put_phase 0 (Holding False) (?w2\<lparr>gw_lock := Some 0\<rparr>)"
  have w3: "gate_reaches sample_live ?w3"
    by (rule gate_reaches.step [OF w2], rule gate_step.acquire) (simp_all add: sample_gate_world_def put_phase_def)
  let ?w4 = "put_phase 0 (Asking False 5) ?w3"
  have "gate_step sample_live ?w3 (put_phase 0 (Asking False (gw_now ?w3)) ?w3)"
    by (rule gate_step.ask [where e = False])
      (use stale in \<open>simp_all add: sample_gate_world_def put_phase_def\<close>)
  then have w4: "gate_reaches sample_live ?w4"
    using gate_reaches.step [OF w3] by (simp add: sample_gate_world_def put_phase_def)
  define w5 where "w5 = ?w4\<lparr>gw_now := gw_now ?w4 + 15\<rparr>"
  have w5: "gate_reaches sample_live w5" unfolding w5_def by (rule gate_reaches.step [OF w4 gate_step.tick])
  have at: "gw_phase w5 0 = Asking False 5" "12 \<le> gw_now w5"
    by (simp_all add: w5_def sample_gate_world_def put_phase_def)
  define w6 where "w6 = put_phase 0 (Answered False 12 (sample_live 12)) w5"
  have w6: "gate_reaches sample_live w6"
    unfolding w6_def by (rule gate_reaches.step [OF w5 gate_step.answer [OF at(1) _ at(2)]]) simp
  let ?w7 = "put_phase 0 (Decided (gw_now w6) (gw_now w6) (sample_live 12)) (release (store_verdict 12 (sample_live 12) w6))"
  have w7: "gate_reaches sample_live ?w7"
    by (rule gate_reaches.step [OF w6], rule gate_step.store [where e = False]) (simp add: w6_def put_phase_def)
  let ?w8 = "put_phase 1 (Holding False) (?w7\<lparr>gw_lock := Some 1\<rparr>)"
  have w8: "gate_reaches sample_live ?w8"
    by (rule gate_reaches.step [OF w7], rule gate_step.acquire)
      (simp_all add: sample_gate_world_def put_phase_def release_def store_verdict_def w6_def w5_def)
  have "?w8 = ?goal"
    by (simp add: sample_gate_world_def put_phase_def release_def store_verdict_def w6_def w5_def fun_eq_iff)
  then show ?thesis using w8 by simp
qed

theorem gate_single_flight_witness:
  "gate_safe sample_live
     (put_phase 1 (Holding False) (put_phase 0 (Decided 20 20 (sample_live 12))
        (sample_gate_world\<lparr>gw_now := 20, gw_lock := Some 1, gw_gate := \<lparr> gs_gate = sample_live 12, gs_checked_at = 20 \<rparr>,
           gw_seen := 12\<rparr>)))"
  by (rule gate_single_flight [OF sample_gate_run])

end
