(* ===== verification/Mcp_Tokens.thy ===== *)
theory Mcp_Tokens
  imports Swap_Prelude
begin

text \<open>
  The preview tokens of the MCP server (\<open>lez-mcp/src/server.rs\<close>): issued by a dry run for the
  exact transfer it previewed, required and consumed by the broadcast. The store is a map behind
  a mutex, so its operations, by whichever callers, form one sequence. The locale
  \<open>preview_store\<close> states what the transfer tool relies on.
\<close>

section \<open>The store\<close>

definition preview_ttl :: nat where "preview_ttl = 180000"

record preview_token =
  pt_from :: account_id
  pt_to :: account_id
  pt_amount :: u128
  pt_expires :: nat

type_synonym token_store = "string \<rightharpoonup> preview_token"

datatype token_check = TokenOk | TokenMissing | TokenExpired | TokenMismatch

definition prune_preview_tokens_at :: "token_store \<Rightarrow> nat \<Rightarrow> token_store" where
  "prune_preview_tokens_at store now =
     (\<lambda>t. case store t of Some pt \<Rightarrow> if now < pt_expires pt then Some pt else None | None \<Rightarrow> None)"

definition check_and_consume_token ::
  "token_store \<Rightarrow> string \<Rightarrow> account_id \<Rightarrow> account_id \<Rightarrow> u128 \<Rightarrow> nat \<Rightarrow> token_check \<times> token_store" where
  "check_and_consume_token store token from to amount now =
     (let pruned = prune_preview_tokens_at store now in
      case pruned token of
        None \<Rightarrow> (TokenMissing, pruned)
      | Some pt \<Rightarrow>
          (if pt_expires pt \<le> now then TokenExpired
           else if pt_from pt \<noteq> from \<or> pt_to pt \<noteq> to \<or> pt_amount pt \<noteq> amount then TokenMismatch
           else TokenOk,
           pruned(token := None)))"

text \<open>What the dry run of \<open>lez_transfer\<close> does with the store.\<close>

definition issue_token :: "token_store \<Rightarrow> string \<Rightarrow> account_id \<Rightarrow> account_id \<Rightarrow> u128 \<Rightarrow> nat \<Rightarrow> token_store" where
  "issue_token store token from to amount now =
     (prune_preview_tokens_at store now)(token \<mapsto>
        \<lparr> pt_from = from, pt_to = to, pt_amount = amount, pt_expires = now + preview_ttl \<rparr>)"

lemma token_never_expired:
  "fst (check_and_consume_token store token from to amount now) \<noteq> TokenExpired"
  by (auto simp: check_and_consume_token_def prune_preview_tokens_at_def Let_def split: option.splits)

section \<open>The interface\<close>

type_synonym preview_terms = "account_id \<times> account_id \<times> u128"

datatype token_op = Issue string preview_terms nat | Consume string preview_terms nat

fun op_token :: "token_op \<Rightarrow> string" where
  "op_token (Issue t p now) = t"
| "op_token (Consume t p now) = t"

fun op_time :: "token_op \<Rightarrow> nat" where
  "op_time (Issue t p now) = now"
| "op_time (Consume t p now) = now"

text \<open>A sequence of operations on a store, each an issue or a check.\<close>

fun apply_op ::
  "('s \<Rightarrow> string \<Rightarrow> preview_terms \<Rightarrow> nat \<Rightarrow> 's) \<Rightarrow> ('s \<Rightarrow> string \<Rightarrow> preview_terms \<Rightarrow> nat \<Rightarrow> token_check \<times> 's) \<Rightarrow> token_op \<Rightarrow> 's \<Rightarrow> 's" where
  "apply_op issue consume (Issue t p now) s = issue s t p now"
| "apply_op issue consume (Consume t p now) s = snd (consume s t p now)"

definition apply_ops ::
  "('s \<Rightarrow> string \<Rightarrow> preview_terms \<Rightarrow> nat \<Rightarrow> 's) \<Rightarrow> ('s \<Rightarrow> string \<Rightarrow> preview_terms \<Rightarrow> nat \<Rightarrow> token_check \<times> 's) \<Rightarrow> token_op list \<Rightarrow> 's \<Rightarrow> 's" where
  "apply_ops issue consume ops s = fold (apply_op issue consume) ops s"

text \<open>The last operation on a token.\<close>

definition last_on :: "string \<Rightarrow> token_op list \<Rightarrow> token_op option" where
  "last_on t ops = (let xs = filter (\<lambda>x. op_token x = t) ops in if xs = [] then None else Some (List.last xs))"

lemma last_on_snoc: "last_on t (ops @ [x]) = (if op_token x = t then Some x else last_on t ops)"
  by (simp add: last_on_def Let_def)

lemma last_on_Some:
  "last_on t ops = Some x \<Longrightarrow> \<exists>us vs. ops = us @ x # vs \<and> list_all (\<lambda>y. op_token y \<noteq> t) vs"
proof (induction ops rule: rev_induct)
  case (snoc y ops)
  show ?case
  proof (cases "op_token y = t")
    case True
    then show ?thesis using snoc.prems by (intro exI [of _ ops] exI [of _ "[]"]) (simp add: last_on_snoc)
  next
    case False
    then obtain us vs where "ops = us @ x # vs" "list_all (\<lambda>y. op_token y \<noteq> t) vs"
      using snoc by (auto simp: last_on_snoc)
    then show ?thesis using False by (intro exI [of _ us] exI [of _ "vs @ [y]"]) simp
  qed
qed (simp add: last_on_def)

locale preview_store =
  fixes issue :: "'s \<Rightarrow> string \<Rightarrow> preview_terms \<Rightarrow> nat \<Rightarrow> 's"
    and consume :: "'s \<Rightarrow> string \<Rightarrow> preview_terms \<Rightarrow> nat \<Rightarrow> token_check \<times> 's"
    and lookup :: "'s \<Rightarrow> string \<Rightarrow> (preview_terms \<times> nat) option"
    and lifetime :: nat
    and fresh_store :: 's
  assumes lookup_fresh: "lookup fresh_store t = None"
    and lookup_issue: "lookup (issue s t p now) t' = Some b \<Longrightarrow>
      (if t' = t then b = (p, now + lifetime) else lookup s t' = Some b)"
    and lookup_consume: "lookup (snd (consume s t p now)) t' = Some b \<Longrightarrow> t' \<noteq> t \<and> lookup s t' = Some b"
    and issue_keeps: "lookup s t' = Some (q, x) \<Longrightarrow> t' \<noteq> t \<Longrightarrow> now < x \<Longrightarrow> lookup (issue s t p now) t' = Some (q, x)"
    and issued: "0 < lifetime \<Longrightarrow> lookup (issue s t p now) t = Some (p, now + lifetime)"
    and consume_keeps: "lookup s t' = Some (q, x) \<Longrightarrow> t' \<noteq> t \<Longrightarrow> now < x \<Longrightarrow>
      lookup (snd (consume s t p now)) t' = Some (q, x)"
    and consume_iff: "fst (consume s t p now) = TokenOk \<longleftrightarrow> (\<exists>x. lookup s t = Some (p, x) \<and> now < x)"
    and positive: "0 < lifetime"
begin

lemma lookup_last:
  "lookup (apply_ops issue consume ops fresh_store) t = Some (p, x) \<Longrightarrow>
    \<exists>n. last_on t ops = Some (Issue t p n) \<and> x = n + lifetime"
proof (induction ops rule: rev_induct)
  case Nil
  then show ?case by (simp add: apply_ops_def lookup_fresh)
next
  case (snoc y ops)
  let ?s = "apply_ops issue consume ops fresh_store"
  show ?case
  proof (cases y)
    case (Issue t' q n)
    then have l: "lookup (issue ?s t' q n) t = Some (p, x)" using snoc.prems by (simp add: apply_ops_def)
    show ?thesis using lookup_issue [OF l] snoc.IH Issue by (auto simp: last_on_snoc split: if_splits)
  next
    case (Consume t' q n)
    then have l: "lookup (snd (consume ?s t' q n)) t = Some (p, x)" using snoc.prems by (simp add: apply_ops_def)
    show ?thesis using lookup_consume [OF l] snoc.IH Consume by (auto simp: last_on_snoc)
  qed
qed

lemma last_lookup:
  "last_on t ops = Some (Issue t p n) \<Longrightarrow> list_all (\<lambda>y. op_time y < n + lifetime) ops \<Longrightarrow>
    lookup (apply_ops issue consume ops fresh_store) t = Some (p, n + lifetime)"
proof (induction ops rule: rev_induct)
  case Nil
  then show ?case by (simp add: last_on_def)
next
  case (snoc y ops)
  let ?s = "apply_ops issue consume ops fresh_store"
  have run: "apply_ops issue consume (ops @ [y]) fresh_store = apply_op issue consume y ?s"
    by (simp add: apply_ops_def)
  show ?case
  proof (cases "op_token y = t")
    case True
    then have "y = Issue t p n" using snoc.prems(1) by (simp add: last_on_snoc)
    then show ?thesis unfolding run by (simp add: issued positive)
  next
    case False
    then have "lookup ?s t = Some (p, n + lifetime)" using snoc by (simp add: last_on_snoc)
    then show ?thesis unfolding run using False snoc.prems(2)
      by (cases y) (simp_all add: issue_keeps consume_keeps)
  qed
qed

text \<open>With a clock that does not go back, a check passes exactly when it should.\<close>

lemma consume_passes_iff:
  assumes "list_all (\<lambda>y. op_time y \<le> now) ops"
  shows "fst (consume (apply_ops issue consume ops fresh_store) t p now) = TokenOk \<longleftrightarrow>
    (\<exists>n. last_on t ops = Some (Issue t p n) \<and> now < n + lifetime)"
proof
  assume "fst (consume (apply_ops issue consume ops fresh_store) t p now) = TokenOk"
  then show "\<exists>n. last_on t ops = Some (Issue t p n) \<and> now < n + lifetime"
    using lookup_last by (fastforce simp: consume_iff)
next
  assume "\<exists>n. last_on t ops = Some (Issue t p n) \<and> now < n + lifetime"
  then obtain n where n: "last_on t ops = Some (Issue t p n)" "now < n + lifetime" by blast
  have "list_all (\<lambda>y. op_time y < n + lifetime) ops" using assms n(2) by (auto simp: list_all_iff)
  then show "fst (consume (apply_ops issue consume ops fresh_store) t p now) = TokenOk"
    using last_lookup [OF n(1)] n(2) by (simp add: consume_iff)
qed

end

section \<open>The store of the server\<close>

definition token_terms :: "preview_token \<Rightarrow> preview_terms \<times> nat" where
  "token_terms pt = ((pt_from pt, pt_to pt, pt_amount pt), pt_expires pt)"

definition store_issue :: "token_store \<Rightarrow> string \<Rightarrow> preview_terms \<Rightarrow> nat \<Rightarrow> token_store" where
  "store_issue store t p now = (case p of (from, to, amount) \<Rightarrow> issue_token store t from to amount now)"

definition store_consume :: "token_store \<Rightarrow> string \<Rightarrow> preview_terms \<Rightarrow> nat \<Rightarrow> token_check \<times> token_store" where
  "store_consume store t p now = (case p of (from, to, amount) \<Rightarrow> check_and_consume_token store t from to amount now)"

definition store_lookup :: "token_store \<Rightarrow> string \<Rightarrow> (preview_terms \<times> nat) option" where
  "store_lookup store t = map_option token_terms (store t)"

lemma prune_Some: "prune_preview_tokens_at store now t = Some pt \<longleftrightarrow> store t = Some pt \<and> now < pt_expires pt"
  by (auto simp: prune_preview_tokens_at_def split: option.splits)

lemma snd_consume:
  "snd (check_and_consume_token store t from to amount now) = (prune_preview_tokens_at store now)(t := None)"
proof (cases "prune_preview_tokens_at store now t")
  case None
  then have "(prune_preview_tokens_at store now)(t := None) = prune_preview_tokens_at store now"
    by (rule fun_upd_idem)
  then show ?thesis using None by (simp add: check_and_consume_token_def Let_def)
next
  case (Some pt)
  then show ?thesis by (simp add: check_and_consume_token_def Let_def)
qed

lemma fst_consume:
  "fst (check_and_consume_token store t from to amount now) = TokenOk \<longleftrightarrow>
    (\<exists>pt. store t = Some pt \<and> now < pt_expires pt \<and> pt_from pt = from \<and> pt_to pt = to \<and> pt_amount pt = amount)"
proof (cases "prune_preview_tokens_at store now t")
  case None
  then have "\<not> (store t = Some pt \<and> now < pt_expires pt)" for pt
    by (metis option.distinct(1) prune_Some)
  then show ?thesis using None by (simp add: check_and_consume_token_def Let_def) blast
next
  case (Some pt)
  then have "store t = Some pt" "now < pt_expires pt" by (simp_all add: prune_Some)
  then show ?thesis using Some by (simp add: check_and_consume_token_def Let_def)
qed

interpretation previews: preview_store store_issue store_consume store_lookup preview_ttl "\<lambda>_. None"
proof unfold_locales
  fix s t p now t' b
  show "store_lookup (store_issue s t p now) t' = Some b \<Longrightarrow>
      (if t' = t then b = (p, now + preview_ttl) else store_lookup s t' = Some b)"
    by (cases p) (auto simp: store_lookup_def store_issue_def issue_token_def token_terms_def prune_Some
      split: if_splits)
  show "store_lookup (snd (store_consume s t p now)) t' = Some b \<Longrightarrow> t' \<noteq> t \<and> store_lookup s t' = Some b"
    by (cases p) (auto simp: store_lookup_def store_consume_def snd_consume prune_Some split: if_splits)
next
  fix s t p now
  show "store_lookup (store_issue s t p now) t = Some (p, now + preview_ttl)"
    by (cases p) (simp add: store_lookup_def store_issue_def issue_token_def token_terms_def)
  show "(fst (store_consume s t p now) = TokenOk) = (\<exists>x. store_lookup s t = Some (p, x) \<and> now < x)"
    by (cases p) (auto simp: store_lookup_def store_consume_def fst_consume token_terms_def)
next
  fix s t' q x t now p
  assume a: "store_lookup s t' = Some (q, x)" "t' \<noteq> t" "now < x"
  then obtain pt where pt: "s t' = Some pt" "token_terms pt = (q, x)" by (auto simp: store_lookup_def)
  then have "prune_preview_tokens_at s now t' = Some pt" using a(3) by (simp add: prune_Some token_terms_def)
  then show "store_lookup (store_issue s t p now) t' = Some (q, x)"
    "store_lookup (snd (store_consume s t p now)) t' = Some (q, x)"
    using a(2) pt(2)
    by (cases p; simp add: store_lookup_def store_issue_def issue_token_def store_consume_def snd_consume)+
qed (simp_all add: store_lookup_def preview_ttl_def)

section \<open>Properties\<close>

text \<open>
  C22. In any sequence of previews and confirmations, by any callers, a confirmation passes the
  token check exactly when the last thing done with its token was a preview of the very same
  sender, recipient and amount less than three minutes before: a token that was used, whether the
  use passed or not, or that was issued for anything else, or never, does not pass.
\<close>

theorem token_single_use:
  assumes "list_all (\<lambda>y. op_time y \<le> now) ops"
  shows "fst (check_and_consume_token (apply_ops store_issue store_consume ops (\<lambda>_. None)) t from to amount now) = TokenOk \<longleftrightarrow>
    (\<exists>n. last_on t ops = Some (Issue t (from, to, amount) n) \<and> now < n + preview_ttl)"
  using previews.consume_passes_iff [OF assms, of t "(from, to, amount)"] by (simp add: store_consume_def)

text \<open>At work: previewed and confirmed; previewed, then tried with another amount and again with the right one.\<close>

theorem token_single_use_witness:
  "fst (check_and_consume_token (apply_ops store_issue store_consume [Issue ''t'' ([1], [2], 5) 10] (\<lambda>_. None))
      ''t'' [1] [2] 5 30) = TokenOk \<and>
   fst (check_and_consume_token (apply_ops store_issue store_consume
      [Issue ''t'' ([1], [2], 5) 10, Consume ''t'' ([1], [2], 6) 20] (\<lambda>_. None)) ''t'' [1] [2] 5 30) \<noteq> TokenOk"
  using token_single_use [of 30 "[Issue ''t'' ([1], [2], 5) 10]" "''t''" "[1]" "[2]" 5]
    token_single_use [of 30 "[Issue ''t'' ([1], [2], 5) 10, Consume ''t'' ([1], [2], 6) 20]" "''t''" "[1]" "[2]" 5]
  by (simp add: last_on_def preview_ttl_def)

end
