(* ===== verification/Mcp_Types.thy ===== *)
theory Mcp_Types
  imports Mcp_Gate Mcp_Tokens
begin

text \<open>
  What the tools of the MCP server exchange with the outside and with each other, beside the
  requests that the rest of the program makes too: the locks, the shared gate, the token store, and
  the answers of the sequencer that only this server reads.
\<close>

text \<open>\<open>lee_core::account::Account\<close>, a parameter of the model as far as the code looks at it.\<close>

record lee_account =
  la_program_owner :: program_id
  la_balance :: u128
  la_nonce :: u128
  la_data :: bytes

definition default_account :: lee_account where
  "default_account = \<lparr> la_program_owner = replicate 8 0, la_balance = 0, la_nonce = 0, la_data = [] \<rparr>"

datatype mcp_lock = RefreshLock | ClaimLock | SignedWriteLock

datatype mcp_event =
    MLock mcp_lock
  | MUnlock mcp_lock
  | MGateRead gate_state
  | MGateStore gate_state
  | MProgramIds "string + id_table"
  | MGetTx string "string + bool"
  | MAccount account_id "string + lee_account"
  | MIssue string preview_terms nat
  | MCheck string preview_terms nat token_check

end
