(* ===== verification/Swap_World.thy ===== *)
theory Swap_World
  imports Escrow_Codec Eth_Htlc_Contract Swap_Config Ops_Ledger Maker_Types Mcp_Types
begin

text \<open>
  The world of the orchestration code. Everything the clients, the maker, the taker and the
  bot do outside themselves (a sequencer or RPC request, a read of the clock, a wait, a journal
  or ledger call, a progress report) is an \<open>interaction\<close>, recorded with its answer in a trace.
  The record \<open>env\<close> holds what answers: each answer is a function of the whole history, so a
  theorem for every \<open>env\<close> holds whatever the chains, the network, the other party and the file
  system do, and in whatever order. Programs are state transformers over the trace.
\<close>

section \<open>Interactions\<close>

datatype lez_payload = HtlcPayload htlc_instruction | TransferPayload u128 | InitializePayload | PinataPayload u128

text \<open>
  The errors of a contract call, as far as the code tells them apart: no data, data the ABI
  cannot decode, a transport error (with the node's JSON-RPC error response, if there is one:
  whether it carries revert data, and its message), anything else. The string is the printed
  error.
\<close>

datatype contract_error =
    ZeroData string
  | AbiError string
  | TransportError "(bool \<times> string) option" string
  | OtherCallError string

fun show_contract_error :: "contract_error \<Rightarrow> string" where
  "show_contract_error (ZeroData m) = m"
| "show_contract_error (AbiError m) = m"
| "show_contract_error (TransportError resp m) = m"
| "show_contract_error (OtherCallError m) = m"

datatype eth_watch_event =
    WatchLocked bytes32 address address u256 bytes32 u256 bytes32 bytes32
  | WatchClaimed bytes32 bytes32
  | WatchRefunded bytes32

datatype lez_watch_event =
    LezLockedEv account_id
  | LezClaimedEv account_id bytes
  | LezRefundedEv account_id

text \<open>Which branch of a \<open>tokio::select!\<close> completed.\<close>

datatype eth_select = SelEthEvent eth_watch_event | SelEthTimeout | SelEthCancel

datatype lez_select = SelLezEvent lez_watch_event | SelLezTimeout

datatype interaction =
    XNow u64
  | XInstant nat
  | XSleep nat
  | XAccount account_id "string + bytes"
  | XBalance account_id "string + u128"
  | XNonces "account_id list" "string + u128 list"
  | XSend program_id "account_id list" lez_payload "string + string"
  | XConnect "string + unit"
  | XVersion address "contract_error + u256"
  | XChainId "string + u64"
  | XEthLock bytes32 u64 address bytes32 u256 "string + (bytes32 \<times> bytes32 option list)"
  | XEthClaim bytes32 bytes32 "string + bytes32"
  | XEthRefund bytes32 "string + bytes32"
  | XEthGet bytes32 "string + eth_htlc"
  | XEthSelect u64 eth_select
  | XLezSelect u64 lez_select
  | XCancelled bool
  | XProgress swap_progress
  | XRecord string string "(swap_error, unit) res"
  | XFunded string
  | XClear string
  | XContains string bool
  | XBusy bool
  | XQuarantine string string
  | XOpsAccepted string string
  | XOpsTerminal string record_state
  | XBlockNumber "string + u64"
  | XLockedLogs u64 u64 "string + eth_watch_event list"
  | XClaimedLogs u64 u64 "string + eth_watch_event list"
  | XRefundedLogs u64 u64 "string + eth_watch_event list"
  | XSendEth eth_watch_event bool
  | XSendLez lez_watch_event bool
  | XOwner account_id "string + program_id"
  | XElapsed bool
  | XPow "string + u128"
  | XFunding funding_progress
  | XStatus status_op
  | XSpawn "string + unit"
  | XChild child_event
  | XKill
  | XEthBalance address "string + u256"
  | XWriteStatus maker_status status_io
  | XTask task_event
  | XSetCancel
  | XSnapshot "status_state \<times> nat \<times> nat"
  | XMcp mcp_event
  | XClearCancel

type_synonym trace = "interaction list"

type_synonym 'a io = "(trace, 'a) state"

type_synonym 'a rio = "(trace, (swap_error, 'a) res) state"

text \<open>
  The environment. The fields after the oracles are the deterministic functions of the crates
  the code calls: the PDA derivation, the ids of the transfer program, of the faucet program and
  of its account, the message builder (the
  error it reports, if any), SHA-256, the hex encoder and the printer of 32-byte values.
\<close>

record env =
  a_now :: "trace \<Rightarrow> u64"
  a_instant :: "trace \<Rightarrow> nat"
  a_account :: "trace \<Rightarrow> account_id \<Rightarrow> string + bytes"
  a_balance :: "trace \<Rightarrow> account_id \<Rightarrow> string + u128"
  a_nonces :: "trace \<Rightarrow> account_id list \<Rightarrow> string + u128 list"
  a_send :: "trace \<Rightarrow> program_id \<Rightarrow> account_id list \<Rightarrow> lez_payload \<Rightarrow> string + string"
  a_connect :: "trace \<Rightarrow> string + unit"
  a_version :: "trace \<Rightarrow> address \<Rightarrow> contract_error + u256"
  a_chain_id :: "trace \<Rightarrow> string + u64"
  a_eth_lock :: "trace \<Rightarrow> bytes32 \<Rightarrow> u64 \<Rightarrow> address \<Rightarrow> bytes32 \<Rightarrow> u256 \<Rightarrow> string + (bytes32 \<times> bytes32 option list)"
  a_eth_claim :: "trace \<Rightarrow> bytes32 \<Rightarrow> bytes32 \<Rightarrow> string + bytes32"
  a_eth_refund :: "trace \<Rightarrow> bytes32 \<Rightarrow> string + bytes32"
  a_eth_get :: "trace \<Rightarrow> bytes32 \<Rightarrow> string + eth_htlc"
  a_eth_select :: "trace \<Rightarrow> u64 \<Rightarrow> eth_select"
  a_lez_select :: "trace \<Rightarrow> u64 \<Rightarrow> lez_select"
  a_cancelled :: "trace \<Rightarrow> bool"
  a_record :: "trace \<Rightarrow> string \<Rightarrow> string \<Rightarrow> (swap_error, unit) res"
  a_contains :: "trace \<Rightarrow> string \<Rightarrow> bool"
  a_busy :: "trace \<Rightarrow> bool"
  a_block_number :: "trace \<Rightarrow> string + u64"
  a_locked_logs :: "trace \<Rightarrow> u64 \<Rightarrow> u64 \<Rightarrow> string + eth_watch_event list"
  a_claimed_logs :: "trace \<Rightarrow> u64 \<Rightarrow> u64 \<Rightarrow> string + eth_watch_event list"
  a_refunded_logs :: "trace \<Rightarrow> u64 \<Rightarrow> u64 \<Rightarrow> string + eth_watch_event list"
  a_send_eth :: "trace \<Rightarrow> eth_watch_event \<Rightarrow> bool"
  a_send_lez :: "trace \<Rightarrow> lez_watch_event \<Rightarrow> bool"
  a_owner :: "trace \<Rightarrow> account_id \<Rightarrow> string + program_id"
  a_elapsed :: "trace \<Rightarrow> bool"
  a_pow_late :: "trace \<Rightarrow> u128 \<Rightarrow> bool"
  a_spawn :: "trace \<Rightarrow> string + unit"
  a_child :: "trace \<Rightarrow> child_event"
  a_eth_balance :: "trace \<Rightarrow> address \<Rightarrow> string + u256"
  a_status_io :: "trace \<Rightarrow> status_io"
  a_snapshot :: "trace \<Rightarrow> status_state \<times> nat \<times> nat"
  c_pda :: "program_id \<Rightarrow> bytes32 \<Rightarrow> account_id"
  c_transfer_program :: program_id
  c_pinata_program :: program_id
  c_pinata_account :: account_id
  c_message_err :: "program_id \<Rightarrow> account_id list \<Rightarrow> lez_payload \<Rightarrow> string option"
  c_sha256 :: "bytes \<Rightarrow> bytes32"
  c_hex :: "bytes \<Rightarrow> string"
  c_show32 :: "bytes32 \<Rightarrow> string"
  c_show_error :: "swap_error \<Rightarrow> string"

section \<open>Programs\<close>

definition ext :: "('a \<Rightarrow> interaction) \<Rightarrow> (trace \<Rightarrow> 'a) \<Rightarrow> 'a io" where
  "ext mk answer = State (\<lambda>tr. (answer tr, tr @ [mk (answer tr)]))"

lemma run_ext [run_simps]: "run_state (ext mk answer) tr = (answer tr, tr @ [mk (answer tr)])"
  by (simp add: ext_def)

definition now_unix :: "env \<Rightarrow> u64 io" where
  "now_unix en = ext XNow (a_now en)"

definition instant_now :: "env \<Rightarrow> nat io" where
  "instant_now en = ext XInstant (a_instant en)"

definition sleep :: "nat \<Rightarrow> unit io" where
  "sleep d = ext (\<lambda>_. XSleep d) (\<lambda>_. ())"

text \<open>\<open>progress::report\<close> with the flag for whether a sender is present.\<close>

definition report :: "bool \<Rightarrow> swap_progress \<Rightarrow> unit io" where
  "report sender p = (if sender then ext (\<lambda>_. XProgress p) (\<lambda>_. ()) else ret ())"

text \<open>\<open>map_err\<close> of an answer whose error is a printed message.\<close>

definition map_err :: "(string \<Rightarrow> swap_error) \<Rightarrow> string + 'a \<Rightarrow> (swap_error, 'a) res" where
  "map_err f a = (case a of Inl e \<Rightarrow> Err (f e) | Inr x \<Rightarrow> Ok x)"

lemma map_err_Ok [simp]: "map_err f a = Ok x \<longleftrightarrow> a = Inr x"
  by (auto simp: map_err_def split: sum.splits)

lemma map_err_not_Panic [simp]: "map_err f a \<noteq> Panic p" "map_err f a \<noteq> Pending"
  by (auto simp: map_err_def split: sum.splits)

section \<open>What a program emits\<close>

text \<open>
  \<open>emits P m\<close>: the program only appends to the trace, and everything it appends satisfies
  \<open>P\<close>. The rules follow the constructs of the source, for a trace of events of any type.
\<close>

definition emits :: "('x \<Rightarrow> bool) \<Rightarrow> ('x list, 'a) state \<Rightarrow> bool" where
  "emits P m \<longleftrightarrow> (\<forall>tr. \<exists>e. snd (run_state m tr) = tr @ e \<and> list_all P e)"

named_theorems emits_intros \<open>rules for what a program emits\<close>

lemma emits_ret [emits_intros]: "emits P (ret a)"
  by (simp add: emits_def)

lemma emits_ext [emits_intros]: "(\<And>a. P (mk a)) \<Longrightarrow> emits P (ext mk f)"
  by (simp add: emits_def run_ext)

lemma emits_bind [emits_intros]:
  assumes "emits P m" "\<And>a. emits P (f a)"
  shows "emits P (m \<bind> f)"
proof -
  have "\<exists>e. snd (run_state (m \<bind> f) tr) = tr @ e \<and> list_all P e" for tr
  proof -
    obtain a tr1 where r: "run_state m tr = (a, tr1)" by fastforce
    then obtain e1 where e1: "tr1 = tr @ e1" "list_all P e1"
      using assms(1) unfolding emits_def by (metis snd_conv)
    obtain e2 where "snd (run_state (f a) tr1) = tr1 @ e2" "list_all P e2"
      using assms(2) unfolding emits_def by metis
    then show ?thesis using r e1 by (intro exI [of _ "e1 @ e2"]) simp
  qed
  then show ?thesis by (simp add: emits_def)
qed

lemma emits_tryM [emits_intros]: "emits P m \<Longrightarrow> (\<And>a. emits P (f a)) \<Longrightarrow> emits P (tryM m f)"
  unfolding tryM_def by (intro emits_bind) (auto split: res.splits intro: emits_ret)

lemma emits_if [emits_intros]: "emits P m \<Longrightarrow> emits P n \<Longrightarrow> emits P (if b then m else n)"
  by simp

lemma emits_option [emits_intros]:
  "emits P m \<Longrightarrow> (\<And>x. emits P (f x)) \<Longrightarrow> emits P (case v of None \<Rightarrow> m | Some x \<Rightarrow> f x)"
  by (cases v) auto

lemma emits_sum [emits_intros]:
  "(\<And>x. emits P (f x)) \<Longrightarrow> (\<And>x. emits P (g x)) \<Longrightarrow> emits P (case v of Inl x \<Rightarrow> f x | Inr x \<Rightarrow> g x)"
  by (cases v) auto

lemma emits_weaken: "emits P m \<Longrightarrow> (\<And>x. P x \<Longrightarrow> Q x) \<Longrightarrow> emits Q m"
  unfolding emits_def by (metis list.pred_mono_strong)

lemma emits_prefix:
  assumes "emits P m" "run_state m tr = (r, tr')"
  obtains e where "tr' = tr @ e" "list_all P e"
  using assms unfolding emits_def by (metis snd_conv)

lemma emits_now [emits_intros]: "(\<And>t. P (XNow t)) \<Longrightarrow> emits P (now_unix en)"
  by (simp add: now_unix_def emits_ext)

lemma emits_instant [emits_intros]: "(\<And>t. P (XInstant t)) \<Longrightarrow> emits P (instant_now en)"
  by (simp add: instant_now_def emits_ext)

lemma emits_sleep [emits_intros]: "P (XSleep d) \<Longrightarrow> emits P (sleep d)"
  by (simp add: sleep_def emits_ext)

lemma emits_report [emits_intros]: "P (XProgress p) \<Longrightarrow> emits P (report sender p)"
  by (simp add: report_def emits_ext emits_ret)

lemma run_instant [run_simps]: "run_state (instant_now en) tr = (a_instant en tr, tr @ [XInstant (a_instant en tr)])"
  by (simp add: instant_now_def run_ext)

lemma run_sleep [run_simps]: "run_state (sleep d) tr = ((), tr @ [XSleep d])"
  by (simp add: sleep_def run_ext)

lemma run_now [run_simps]: "run_state (now_unix en) tr = (a_now en tr, tr @ [XNow (a_now en tr)])"
  by (simp add: now_unix_def run_ext)

lemma run_report [run_simps]:
  "run_state (report sender p) tr = ((), if sender then tr @ [XProgress p] else tr)"
  by (simp add: report_def run_ext)

section \<open>Binding interactions\<close>

text \<open>
  Interactions that move funds, that change the journal or the ops ledger, or that ask whether
  the journal holds an unfinished swap; the others are \<open>quiet\<close>.
\<close>

fun binding :: "interaction \<Rightarrow> bool" where
  "binding (XSend pid accs p r) = True"
| "binding (XEthLock h t rc tk a r) = True"
| "binding (XEthClaim sid p r) = True"
| "binding (XEthRefund sid r) = True"
| "binding (XRecord h d r) = True"
| "binding (XBusy b) = True"
| "binding (XFunded h) = True"
| "binding (XClear h) = True"
| "binding (XQuarantine h d) = True"
| "binding (XOpsAccepted h d) = True"
| "binding (XOpsTerminal h st) = True"
| "binding _ = False"

fun is_progress :: "interaction \<Rightarrow> bool" where
  "is_progress (XProgress p) = True"
| "is_progress _ = False"

fun is_task :: "interaction \<Rightarrow> bool" where
  "is_task (XTask t) = True"
| "is_task _ = False"

abbreviation quiet :: "interaction \<Rightarrow> bool" where
  "quiet x \<equiv> \<not> binding x"

text \<open>Quiet, and neither a progress report nor about a task.\<close>

abbreviation silent :: "interaction \<Rightarrow> bool" where
  "silent x \<equiv> \<not> binding x \<and> \<not> is_progress x \<and> \<not> is_task x"

section \<open>The monotonic clock\<close>

text \<open>
  \<open>tokio::time::Instant\<close> never goes back, and a wait of \<open>d\<close> lasts at least \<open>d\<close>.
\<close>

definition clock_ok :: "env \<Rightarrow> bool" where
  "clock_ok en \<longleftrightarrow> (\<forall>tr e. a_instant en tr \<le> a_instant en (tr @ e)) \<and>
     (\<forall>tr d. a_instant en tr + d \<le> a_instant en (tr @ [XSleep d]))"

lemma clock_after_sleep:
  assumes "clock_ok en"
  shows "a_instant en tr + d \<le> a_instant en (tr @ e @ [x, XSleep d])"
proof -
  have "a_instant en tr \<le> a_instant en (tr @ e @ [x])" using assms by (simp add: clock_ok_def)
  moreover have "a_instant en (tr @ e @ [x]) + d \<le> a_instant en ((tr @ e @ [x]) @ [XSleep d])"
    using assms unfolding clock_ok_def by blast
  ultimately show ?thesis by simp
qed

section \<open>Order in a trace\<close>

text \<open>\<open>preceded c t tr\<close>: nothing satisfies \<open>t\<close> before something has satisfied \<open>c\<close>.\<close>

fun preceded :: "(interaction \<Rightarrow> bool) \<Rightarrow> (interaction \<Rightarrow> bool) \<Rightarrow> trace \<Rightarrow> bool" where
  "preceded c t [] = True"
| "preceded c t (x # xs) \<longleftrightarrow> \<not> t x \<and> (c x \<or> preceded c t xs)"

lemma list_ex_cons: "list_ex c (x # xs) \<longleftrightarrow> c x \<or> list_ex c xs"
  by simp

lemma preceded_append:
  "preceded c t (xs @ ys) \<longleftrightarrow> preceded c t xs \<and> (list_ex c xs \<or> preceded c t ys)"
  by (induction xs) auto

lemma preceded_none: "list_all (\<lambda>x. \<not> t x) xs \<Longrightarrow> preceded c t xs"
  by (induction xs) auto

lemma preceded_iff:
  "preceded c t tr \<longleftrightarrow> (\<forall>us x vs. tr = us @ x # vs \<and> t x \<longrightarrow> list_ex c us)"
proof (induction tr)
  case (Cons y ys)
  show ?case
  proof
    assume "preceded c t (y # ys)"
    then show "\<forall>us x vs. y # ys = us @ x # vs \<and> t x \<longrightarrow> list_ex c us"
      using Cons by (auto simp: Cons_eq_append_conv)
  next
    assume a: "\<forall>us x vs. y # ys = us @ x # vs \<and> t x \<longrightarrow> list_ex c us"
    have "\<not> t y" using a [rule_format, of "[]" y ys] by auto
    moreover have "c y \<or> (\<forall>us x vs. ys = us @ x # vs \<and> t x \<longrightarrow> list_ex c us)"
      using a by (metis append_Cons list_ex_cons)
    ultimately show "preceded c t (y # ys)" using Cons by simp
  qed
qed simp

section \<open>Events with their history\<close>

text \<open>\<open>each P us e\<close>: every event of \<open>e\<close> satisfies \<open>P\<close> with what came before it, first \<open>us\<close>.\<close>

fun each :: "(trace \<Rightarrow> interaction \<Rightarrow> bool) \<Rightarrow> trace \<Rightarrow> trace \<Rightarrow> bool" where
  "each P us [] = True"
| "each P us (x # xs) \<longleftrightarrow> P us x \<and> each P (us @ [x]) xs"

lemma each_append: "each P us (xs @ ys) \<longleftrightarrow> each P us xs \<and> each P (us @ xs) ys"
  by (induction xs arbitrary: us) auto

lemma each_iff: "each P us e \<longleftrightarrow> (\<forall>vs x ws. e = vs @ x # ws \<longrightarrow> P (us @ vs) x)"
proof (induction e arbitrary: us)
  case (Cons y e)
  show ?case
  proof
    assume "each P us (y # e)"
    then show "\<forall>vs x ws. y # e = vs @ x # ws \<longrightarrow> P (us @ vs) x"
      using Cons by (auto simp: Cons_eq_append_conv)
  next
    assume a: "\<forall>vs x ws. y # e = vs @ x # ws \<longrightarrow> P (us @ vs) x"
    have "P us y" using a [rule_format, of "[]" y e] by simp
    moreover have "each P (us @ [y]) e"
      unfolding Cons using a by (metis append.assoc append_Cons append_Nil)
    ultimately show "each P us (y # e)" by simp
  qed
qed simp

end
