(* ===== verification/Lez_Client.thy ===== *)
theory Lez_Client
  imports Swap_World
begin

text \<open>
  The LEZ side of the orchestrator: \<open>LezClient\<close> (\<open>src/lez/client.rs\<close>) and the escrow
  watcher (\<open>src/lez/watcher.rs\<close>), as programs over the trace of interactions. Diagnostic
  texts keep their fixed part. The polling loops take the number of rounds they may run; the
  theorems show that the rounds until the deadline suffice when time passes during a wait, what
  a returned outcome says about the reads that were made, and what is submitted on the way.
\<close>

section \<open>Types and pure decisions\<close>

datatype refund_outcome = RoRefunded string | RoClaimedByTaker bytes32

datatype refund_read_class = RrRefunded | RrClaimedByTaker | RrStillLocked | RrAbsent

record lez_client =
  lc_account_id :: account_id
  lc_program_id :: program_id
  lc_poll_interval :: nat

definition host_usize :: nat where
  "host_usize = 64"

fun classify_refund_read :: "htlc_state option \<Rightarrow> refund_read_class" where
  "classify_refund_read None = RrAbsent"
| "classify_refund_read (Some Refunded) = RrRefunded"
| "classify_refund_read (Some Claimed) = RrClaimedByTaker"
| "classify_refund_read (Some Locked) = RrStillLocked"

definition existing_escrow_blocks_fresh_lock :: "htlc_state option \<Rightarrow> bool" where
  "existing_escrow_blocks_fresh_lock existing \<longleftrightarrow> existing \<noteq> None"

definition escrow_confirms_our_lock ::
  "htlc_escrow \<Rightarrow> account_id \<Rightarrow> account_id \<Rightarrow> u128 \<Rightarrow> u64 \<Rightarrow> bool" where
  "escrow_confirms_our_lock e maker taker amount timelock_ms \<longleftrightarrow>
     esc_state e = Locked \<and> esc_maker_id e = maker \<and> esc_taker_id e = taker \<and>
     esc_amount e = amount \<and> esc_timelock e = timelock_ms"

definition build_lock_instruction :: "bytes32 \<Rightarrow> account_id \<Rightarrow> u128 \<Rightarrow> u64 \<Rightarrow> htlc_instruction" where
  "build_lock_instruction hashlock taker amount timelock_secs =
     LockInstr hashlock taker amount (timelock_secs * 1000)"

section \<open>Construction\<close>

text \<open>What \<open>from_raw_key\<close> and \<open>from_wallet\<close> take from other crates and from the disk.\<close>

record lez_setup =
  su_hex_decode :: "string \<Rightarrow> string + bytes"
  su_private_key :: "bytes \<Rightarrow> string + bytes"
  su_account_of_key :: "bytes \<Rightarrow> account_id"
  su_url_error :: "string \<Rightarrow> string option"
  su_build_error :: "string \<Rightarrow> string option"
  su_wallet_feature :: bool
  su_wallet_core :: "string \<Rightarrow> (swap_error, string \<times> (account_id \<Rightarrow> bytes option)) res"

definition make_client :: "lez_setup \<Rightarrow> swap_config \<Rightarrow> string \<Rightarrow> account_id \<Rightarrow> (swap_error, lez_client) res" where
  "make_client su cfg url acc =
     (case su_url_error su url of
        Some e \<Rightarrow> Err (InvalidConfig (''invalid sequencer URL: '' @ e))
      | None \<Rightarrow>
          (case su_build_error su url of
             Some e \<Rightarrow> Err (LezSequencer (''failed to create client: '' @ e))
           | None \<Rightarrow> Ok \<lparr> lc_account_id = acc, lc_program_id = lez_htlc_program_id cfg,
                           lc_poll_interval = poll_interval cfg \<rparr>))"

definition from_raw_key :: "lez_setup \<Rightarrow> string \<Rightarrow> swap_config \<Rightarrow> (swap_error, lez_client) res" where
  "from_raw_key su hex_key cfg =
     (case su_hex_decode su hex_key of
        Inl e \<Rightarrow> Err (InvalidConfig (''invalid LEZ signing key hex: '' @ e))
      | Inr b \<Rightarrow>
          if length b \<noteq> 32 then Err (InvalidConfig ''LEZ signing key must be 32 bytes'')
          else
            (case su_private_key su b of
               Inl e \<Rightarrow> Err (InvalidConfig (''invalid LEZ private key: '' @ e))
             | Inr key \<Rightarrow> make_client su cfg (lez_sequencer_url cfg) (su_account_of_key su key)))"

definition from_wallet :: "lez_setup \<Rightarrow> string \<Rightarrow> account_id \<Rightarrow> swap_config \<Rightarrow> (swap_error, lez_client) res" where
  "from_wallet su home target cfg =
     res_bind (su_wallet_core su home) (\<lambda>(wallet_url, key_of).
       case key_of target of
         None \<Rightarrow> Err (Scaffold ''wallet has no signing key for account'')
       | Some key \<Rightarrow>
           make_client su cfg
             (if lez_sequencer_url_explicit cfg then lez_sequencer_url cfg else wallet_url) target)"

definition lez_client_new :: "lez_setup \<Rightarrow> swap_config \<Rightarrow> (swap_error, lez_client) res" where
  "lez_client_new su cfg =
     (case lez_auth_mode cfg of
        RawKey hex_key \<Rightarrow> from_raw_key su hex_key cfg
      | Wallet home acc \<Rightarrow>
          if su_wallet_feature su then from_wallet su home acc cfg
          else Err (InvalidConfig ''scaffold wallet auth requires the scaffold-wallet feature''))"

section \<open>Reads\<close>

definition escrow_pda :: "env \<Rightarrow> lez_client \<Rightarrow> bytes32 \<Rightarrow> account_id" where
  "escrow_pda en c hashlock = c_pda en (lc_program_id c) hashlock"

definition decode_escrow_read :: "bytes32 \<Rightarrow> bytes \<Rightarrow> (swap_error, htlc_escrow option) res" where
  "decode_escrow_read hashlock d =
     (if length d < 125 then Ok None
      else
        (case from_bytes host_usize d of
           Inl m \<Rightarrow> Panic m
         | Inr escrow \<Rightarrow> if esc_hashlock escrow \<noteq> hashlock then Ok None else Ok (Some escrow)))"

definition get_escrow :: "env \<Rightarrow> lez_client \<Rightarrow> bytes32 \<Rightarrow> htlc_escrow option rio" where
  "get_escrow en c hashlock = do {
     resp \<leftarrow> ext (XAccount (escrow_pda en c hashlock)) (\<lambda>tr. a_account en tr (escrow_pda en c hashlock));
     ret (res_bind (map_err (\<lambda>e. LezSequencer (''get_account failed: '' @ e)) resp)
            (decode_escrow_read hashlock)) }"

definition get_balance :: "env \<Rightarrow> account_id \<Rightarrow> u128 rio" where
  "get_balance en acc = do {
     resp \<leftarrow> ext (XBalance acc) (\<lambda>tr. a_balance en tr acc);
     ret (map_err (\<lambda>e. LezSequencer (''get_account_balance failed: '' @ e)) resp) }"

text \<open>\<open>get_balance(..).await.unwrap_or(0)\<close>.\<close>

definition balance_or_zero :: "env \<Rightarrow> account_id \<Rightarrow> u128 io" where
  "balance_or_zero en acc = do {
     r \<leftarrow> get_balance en acc;
     ret (case r of Ok b \<Rightarrow> b | _ \<Rightarrow> 0) }"

text \<open>The closure \<open>on_transient\<close> may change what it captured, the argument \<open>captured\<close>.\<close>

fun balance_attempts ::
  "u128 rio \<Rightarrow> (swap_error \<Rightarrow> 'c \<Rightarrow> 'c io) \<Rightarrow> nat \<Rightarrow> nat \<Rightarrow> swap_error option \<Rightarrow> 'c \<Rightarrow>
     ((swap_error, u128) res \<times> 'c) io" where
  "balance_attempts fetch on_transient 0 delay last_err captured =
     (case last_err of
        Some e \<Rightarrow> do { captured' \<leftarrow> on_transient e captured; ret (Err e, captured') }
      | None \<Rightarrow> ret (Panic ''loop runs at least once, so an all-Err path always sets this'', captured))"
| "balance_attempts fetch on_transient (Suc n) delay last_err captured = do {
     r \<leftarrow> fetch;
     (case r of
        Ok b \<Rightarrow> (case last_err of
                   Some e \<Rightarrow> do { captured' \<leftarrow> on_transient e captured; ret (Ok b, captured') }
                 | None \<Rightarrow> ret (Ok b, captured))
      | Err e \<Rightarrow> (if 0 < n
                  then do { sleep delay;
                            balance_attempts fetch on_transient n (min (delay * 2) 30000) (Some e) captured }
                  else balance_attempts fetch on_transient n delay (Some e) captured)
      | Panic m \<Rightarrow> ret (Panic m, captured)
      | Pending \<Rightarrow> ret (Pending, captured)) }"

definition balance_retry_attempts :: nat where "balance_retry_attempts = 5"
definition balance_retry_initial_delay :: nat where "balance_retry_initial_delay = 3000"

definition balance_with_retry_core ::
  "u128 rio \<Rightarrow> (swap_error \<Rightarrow> 'c \<Rightarrow> 'c io) \<Rightarrow> 'c \<Rightarrow> ((swap_error, u128) res \<times> 'c) io" where
  "balance_with_retry_core fetch on_transient captured =
     balance_attempts fetch on_transient balance_retry_attempts balance_retry_initial_delay None captured"

definition get_balance_with_retry ::
  "env \<Rightarrow> account_id \<Rightarrow> (swap_error \<Rightarrow> 'c \<Rightarrow> 'c io) \<Rightarrow> 'c \<Rightarrow> ((swap_error, u128) res \<times> 'c) io" where
  "get_balance_with_retry en acc on_transient captured =
     balance_with_retry_core (get_balance en acc) on_transient captured"

section \<open>Submissions\<close>

definition get_nonces :: "env \<Rightarrow> account_id list \<Rightarrow> u128 list rio" where
  "get_nonces en signers = do {
     resp \<leftarrow> ext (XNonces signers) (\<lambda>tr. a_nonces en tr signers);
     ret (map_err (\<lambda>e. LezSequencer (''get_accounts_nonces failed: '' @ e)) resp) }"

definition submit_message ::
  "env \<Rightarrow> string \<Rightarrow> program_id \<Rightarrow> account_id list \<Rightarrow> lez_payload \<Rightarrow> string rio" where
  "submit_message en what pid accounts payload =
     (case c_message_err en pid accounts payload of
        Some e \<Rightarrow> ret (Err (LezTransaction (''failed to build message: '' @ e)))
      | None \<Rightarrow> do {
          resp \<leftarrow> ext (XSend pid accounts payload) (\<lambda>tr. a_send en tr pid accounts payload);
          ret (map_err (\<lambda>e. LezTransaction (what @ '' failed: '' @ e)) resp) })"

definition send_htlc_instruction ::
  "env \<Rightarrow> lez_client \<Rightarrow> account_id list \<Rightarrow> htlc_instruction \<Rightarrow> string rio" where
  "send_htlc_instruction en c accounts instr =
     tryM (get_nonces en [lc_account_id c])
       (\<lambda>_. submit_message en ''send_transaction'' (lc_program_id c) accounts (HtlcPayload instr))"

definition transfer :: "env \<Rightarrow> lez_client \<Rightarrow> account_id \<Rightarrow> u128 \<Rightarrow> string rio" where
  "transfer en c recipient amount =
     tryM (get_nonces en [lc_account_id c])
       (\<lambda>_. submit_message en ''transfer'' (c_transfer_program en) [lc_account_id c, recipient]
               (TransferPayload amount))"

definition lez_claim :: "env \<Rightarrow> lez_client \<Rightarrow> bytes32 \<Rightarrow> bytes32 \<Rightarrow> string rio" where
  "lez_claim en c hashlock preimage =
     send_htlc_instruction en c [lc_account_id c, escrow_pda en c hashlock] (ClaimInstr preimage)"

definition lez_refund :: "env \<Rightarrow> lez_client \<Rightarrow> bytes32 \<Rightarrow> string rio" where
  "lez_refund en c hashlock =
     send_htlc_instruction en c [lc_account_id c, escrow_pda en c hashlock] RefundInstr"

section \<open>Locking\<close>

definition lock_deadline :: nat where "lock_deadline = 300000"

fun await_lock ::
  "nat \<Rightarrow> env \<Rightarrow> lez_client \<Rightarrow> bytes32 \<Rightarrow> account_id \<Rightarrow> u128 \<Rightarrow> u64 \<Rightarrow> nat \<Rightarrow> unit rio" where
  "await_lock 0 en c hashlock taker amount timelock_ms deadline = ret Pending"
| "await_lock (Suc n) en c hashlock taker amount timelock_ms deadline =
     tryM (get_escrow en c hashlock) (\<lambda>eo.
       case eo of
         Some e \<Rightarrow>
           ret (if escrow_confirms_our_lock e (lc_account_id c) taker amount timelock_ms then Ok ()
                else Err (InvalidState ''our just-submitted Locked escrow''
                            ''pre-existing/mismatched escrow - refusing to fund''))
       | None \<Rightarrow> do {
           t \<leftarrow> instant_now en;
           if deadline \<le> t then ret (Err (Timeout ''LEZ lock confirmation''))
           else do { sleep (lc_poll_interval c);
                     await_lock n en c hashlock taker amount timelock_ms deadline } })"

fun await_funding :: "nat \<Rightarrow> env \<Rightarrow> lez_client \<Rightarrow> account_id \<Rightarrow> u128 \<Rightarrow> nat \<Rightarrow> unit rio" where
  "await_funding 0 en c pda amount deadline = ret Pending"
| "await_funding (Suc n) en c pda amount deadline = do {
     b \<leftarrow> balance_or_zero en pda;
     if amount \<le> b then ret (Ok ())
     else do {
       t \<leftarrow> instant_now en;
       if deadline \<le> t then ret (Err (LezTransaction ''LEZ escrow funding transfer did not land''))
       else do { sleep (lc_poll_interval c); await_funding n en c pda amount deadline } } }"

text \<open>Step 2 of \<open>lock\<close>: fund the escrow and wait until its balance reaches the amount.\<close>

definition fund_escrow :: "nat \<Rightarrow> env \<Rightarrow> lez_client \<Rightarrow> account_id \<Rightarrow> u128 \<Rightarrow> unit rio" where
  "fund_escrow fuel en c pda amount =
     tryM (transfer en c pda amount) (\<lambda>transfer_hash. do {
       t1 \<leftarrow> instant_now en;
       await_funding fuel en c pda amount (t1 + lock_deadline) })"

definition lez_lock ::
  "nat \<Rightarrow> env \<Rightarrow> lez_client \<Rightarrow> bytes32 \<Rightarrow> account_id \<Rightarrow> u128 \<Rightarrow> u64 \<Rightarrow> string rio" where
  "lez_lock fuel en c hashlock taker amount timelock_secs =
     (let pda = escrow_pda en c hashlock in
      tryM (get_escrow en c hashlock) (\<lambda>existing.
        if existing_escrow_blocks_fresh_lock (map_option esc_state existing) then do {
          b \<leftarrow> balance_or_zero en pda;
          ret (Err (InvalidState ''uninitialized escrow PDA before lock''
                      ''escrow PDA already exists - refusing to re-fund; this hashlock is already in flight'')) }
        else
          tryM (send_htlc_instruction en c [lc_account_id c, pda]
                  (build_lock_instruction hashlock taker amount timelock_secs)) (\<lambda>lock_hash. do {
            t0 \<leftarrow> instant_now en;
            tryM (await_lock fuel en c hashlock taker amount (timelock_secs * 1000) (t0 + lock_deadline)) (\<lambda>_.
              tryM (fund_escrow fuel en c pda amount) (\<lambda>_. ret (Ok lock_hash))) })))"

section \<open>Confirmed refund\<close>

definition claimed_outcome :: "htlc_escrow \<Rightarrow> (swap_error, refund_outcome) res" where
  "claimed_outcome e =
     (case esc_preimage e of
        Some p \<Rightarrow> if length p = 32 then Ok (RoClaimedByTaker p)
                  else Err (InvalidState ''revealed 32-byte preimage on claimed escrow''
                              ''missing or malformed preimage'')
      | None \<Rightarrow> Err (InvalidState ''revealed 32-byte preimage on claimed escrow''
                       ''missing or malformed preimage''))"

record refund_state =
  rs_submitted :: bool
  rs_submit_tx :: "string option"
  rs_submit_err :: "string option"
  rs_absent_reads :: nat

definition max_absent_reads :: nat where "max_absent_reads = 5"

text \<open>The end of a round: give up at the deadline, otherwise wait and go on.\<close>

definition refund_wait ::
  "env \<Rightarrow> lez_client \<Rightarrow> nat \<Rightarrow> string option \<Rightarrow> refund_outcome rio \<Rightarrow> refund_outcome rio" where
  "refund_wait en c deadline submit_err next_round = do {
     t \<leftarrow> instant_now en;
     if deadline \<le> t then
       ret (Err (EscrowStateUnknown (case submit_err of
         Some m \<Rightarrow> ''LEZ refund not confirmed before deadline (submit failed: '' @ m @ '')''
       | None \<Rightarrow> ''LEZ refund not confirmed before deadline (escrow state unknown)'')))
     else do { sleep (lc_poll_interval c); next_round } }"

fun refund_loop :: "nat \<Rightarrow> env \<Rightarrow> lez_client \<Rightarrow> bytes32 \<Rightarrow> nat \<Rightarrow> refund_state \<Rightarrow> refund_outcome rio" where
  "refund_loop 0 en c hashlock deadline rs = ret Pending"
| "refund_loop (Suc n) en c hashlock deadline rs =
     tryM (get_escrow en c hashlock) (\<lambda>eo.
       let again = (\<lambda>rs'. refund_wait en c deadline (rs_submit_err rs') (refund_loop n en c hashlock deadline rs')) in
       case classify_refund_read (map_option esc_state eo) of
         RrRefunded \<Rightarrow> ret (Ok (RoRefunded (case rs_submit_tx rs of Some t \<Rightarrow> t | None \<Rightarrow> [])))
       | RrClaimedByTaker \<Rightarrow>
           (case eo of Some e \<Rightarrow> ret (claimed_outcome e)
                     | None \<Rightarrow> ret (Panic ''claimed escrow present''))
       | RrStillLocked \<Rightarrow>
           (if rs_submitted rs then again (rs\<lparr>rs_absent_reads := 0\<rparr>)
            else do {
              submit \<leftarrow> lez_refund en c hashlock;
              (case submit of
                 Ok tx \<Rightarrow> again \<lparr> rs_submitted = True, rs_submit_tx = Some tx, rs_submit_err = None,
                                  rs_absent_reads = 0 \<rparr>
               | Err e \<Rightarrow> again \<lparr> rs_submitted = True, rs_submit_tx = None,
                                   rs_submit_err = Some (c_show_error en e), rs_absent_reads = 0 \<rparr>
               | Panic m \<Rightarrow> ret (Panic m)
               | Pending \<Rightarrow> ret Pending) })
       | RrAbsent \<Rightarrow>
           (let absent = rs_absent_reads rs + 1 in
            if max_absent_reads \<le> absent
            then ret (Err (EscrowStateUnknown ''escrow read absent (never a confirmed refund)''))
            else again (rs\<lparr>rs_absent_reads := absent\<rparr>)))"

definition refund_confirmed :: "nat \<Rightarrow> env \<Rightarrow> lez_client \<Rightarrow> bytes32 \<Rightarrow> refund_outcome rio" where
  "refund_confirmed fuel en c hashlock = do {
     t0 \<leftarrow> instant_now en;
     refund_loop fuel en c hashlock (t0 + 300000)
       \<lparr> rs_submitted = False, rs_submit_tx = None, rs_submit_err = None, rs_absent_reads = 0 \<rparr> }"

section \<open>Watching an escrow\<close>

definition watch_event :: "account_id \<Rightarrow> htlc_escrow \<Rightarrow> lez_watch_event" where
  "watch_event pda e =
     (case esc_state e of
        Locked \<Rightarrow> LezLockedEv pda
      | Claimed \<Rightarrow> LezClaimedEv pda (case esc_preimage e of Some p \<Rightarrow> p | None \<Rightarrow> [])
      | Refunded \<Rightarrow> LezRefundedEv pda)"

text \<open>
  The loop of \<open>watch_escrow\<close>. The limiter of the zero-balance warning only affects logging; its
  clock read is kept.
\<close>

fun watch_escrow_loop ::
  "nat \<Rightarrow> env \<Rightarrow> lez_client \<Rightarrow> bytes32 \<Rightarrow> nat \<Rightarrow> htlc_state option \<Rightarrow> unit rio" where
  "watch_escrow_loop 0 en c hashlock poll last_state = ret Pending"
| "watch_escrow_loop (Suc n) en c hashlock poll last_state = do {
     r \<leftarrow> get_escrow en c hashlock;
     (case r of
        Ok (Some e) \<Rightarrow> do {
          funded \<leftarrow> (if esc_state e = Locked \<and> last_state = None
                     then do { b \<leftarrow> balance_or_zero en (escrow_pda en c hashlock); ret (b \<noteq> 0) }
                     else ret True);
          if \<not> funded then do { _ \<leftarrow> instant_now en; sleep poll;
                                watch_escrow_loop n en c hashlock poll last_state }
          else if last_state \<noteq> Some (esc_state e) then do {
            sent \<leftarrow> ext (XSendLez (watch_event (escrow_pda en c hashlock) e))
                      (\<lambda>tr. a_send_lez en tr (watch_event (escrow_pda en c hashlock) e));
            if \<not> sent then ret (Ok ())
            else if esc_state e \<noteq> Locked then ret (Ok ())
            else do { sleep poll; watch_escrow_loop n en c hashlock poll (Some (esc_state e)) } }
          else do { sleep poll; watch_escrow_loop n en c hashlock poll last_state } }
      | Ok None \<Rightarrow> do { sleep poll; watch_escrow_loop n en c hashlock poll last_state }
      | Err e \<Rightarrow> do { sleep poll; watch_escrow_loop n en c hashlock poll last_state }
      | Panic m \<Rightarrow> ret (Panic m)
      | Pending \<Rightarrow> ret Pending) }"

definition watch_escrow :: "nat \<Rightarrow> env \<Rightarrow> lez_client \<Rightarrow> bytes32 \<Rightarrow> nat \<Rightarrow> unit rio" where
  "watch_escrow fuel en c hashlock poll = watch_escrow_loop fuel en c hashlock poll None"

section \<open>Running the reads and submissions\<close>

lemma run_get_escrow [run_simps]:
  "run_state (get_escrow en c h) tr =
     (res_bind (map_err (\<lambda>e. LezSequencer (''get_account failed: '' @ e)) (a_account en tr (escrow_pda en c h)))
        (decode_escrow_read h), tr @ [XAccount (escrow_pda en c h) (a_account en tr (escrow_pda en c h))])"
  by (simp add: get_escrow_def run_ext)

lemma run_get_balance [run_simps]:
  "run_state (get_balance en acc) tr =
     (map_err (\<lambda>e. LezSequencer (''get_account_balance failed: '' @ e)) (a_balance en tr acc),
      tr @ [XBalance acc (a_balance en tr acc)])"
  by (simp add: get_balance_def run_ext)

fun is_send :: "interaction \<Rightarrow> bool" where
  "is_send (XSend pid accs payload r) = True"
| "is_send _ = False"

definition sends :: "trace \<Rightarrow> nat" where
  "sends tr = length (filter is_send tr)"

lemma sends_simps [simp]:
  "sends [] = 0" "sends (x # xs) = (if is_send x then 1 else 0) + sends xs" "sends (xs @ ys) = sends xs + sends ys"
  by (simp_all add: sends_def)

fun submitted_result :: "('e, 'a) res \<Rightarrow> bool" where
  "submitted_result (Ok a) = True"
| "submitted_result (Err e) = True"
| "submitted_result _ = False"

lemma run_send_htlc:
  obtains r e where "run_state (send_htlc_instruction en c accs i) tr = (r, tr @ e)" "sends e \<le> 1"
    "submitted_result r"
proof -
  have "\<exists>r e. run_state (send_htlc_instruction en c accs i) tr = (r, tr @ e) \<and> sends e \<le> 1 \<and> submitted_result r"
    by (cases "a_nonces en tr [lc_account_id c]")
      (auto simp: send_htlc_instruction_def get_nonces_def submit_message_def run_simps map_err_def
        split: option.splits sum.splits)
  then show thesis using that by blast
qed

lemma run_refund_wait [run_simps]:
  "run_state (refund_wait en c dl err m) tr =
     (if dl \<le> a_instant en tr then
        (Err (EscrowStateUnknown (case err of
           Some m \<Rightarrow> ''LEZ refund not confirmed before deadline (submit failed: '' @ m @ '')''
         | None \<Rightarrow> ''LEZ refund not confirmed before deadline (escrow state unknown)'')),
         tr @ [XInstant (a_instant en tr)])
      else run_state m (tr @ [XInstant (a_instant en tr), XSleep (lc_poll_interval c)]))"
  by (simp add: refund_wait_def run_simps)

fun refund_evidence :: "htlc_escrow \<Rightarrow> refund_outcome \<Rightarrow> bool" where
  "refund_evidence e (RoRefunded tx) \<longleftrightarrow> esc_state e = Refunded"
| "refund_evidence e (RoClaimedByTaker p) \<longleftrightarrow> esc_state e = Claimed \<and> esc_preimage e = Some p \<and> length p = 32"

definition budget :: "refund_state \<Rightarrow> nat" where
  "budget rs = (if rs_submitted rs then 0 else 1)"

lemma refund_loop_cases:
  assumes "run_state (refund_loop (Suc n) en c h dl rs) tr = (r, tr')"
  obtains
    (final) e where "tr' = tr @ e" "sends e \<le> budget rs" "r \<noteq> Pending"
      "\<And>out. r = Ok out \<Longrightarrow> \<exists>d x. e = [XAccount (escrow_pda en c h) (Inr d)] \<and>
         decode_escrow_read h d = Ok (Some x) \<and> refund_evidence x out"
  | (again) e rs' where
      "run_state (refund_loop n en c h dl rs')
         (tr @ e @ [XInstant (a_instant en (tr @ e)), XSleep (lc_poll_interval c)]) = (r, tr')"
      "sends e + budget rs' \<le> budget rs" "\<not> dl \<le> a_instant en (tr @ e)"
proof (cases "a_account en tr (escrow_pda en c h)")
  case (Inl e)
  then show ?thesis using assms
    by (intro final [of "[XAccount (escrow_pda en c h) (Inl e)]"]) (auto simp: run_simps map_err_def)
next
  case (Inr d)
  let ?x = "XAccount (escrow_pda en c h) (Inr d)"
  show ?thesis
  proof (cases "decode_escrow_read h d")
    case (Ok eo)
    show ?thesis
    proof (cases eo)
      case None
      show ?thesis
      proof (cases "max_absent_reads \<le> Suc (rs_absent_reads rs) \<or> dl \<le> a_instant en (tr @ [?x])")
        case True
        then show ?thesis using assms Inr Ok None
          by (auto simp: run_simps map_err_def Let_def split: if_splits intro!: final)
      next
        case False
        then show ?thesis using assms Inr Ok None
          by (intro again [of "rs\<lparr>rs_absent_reads := Suc (rs_absent_reads rs)\<rparr>" "[?x]"])
            (auto simp: run_simps map_err_def Let_def budget_def)
      qed
    next
      case (Some x)
      show ?thesis
      proof (cases "esc_state x")
        case Locked
        show ?thesis
        proof (cases "rs_submitted rs")
          case True
          show ?thesis
          proof (cases "dl \<le> a_instant en (tr @ [?x])")
            case t: True
            show ?thesis using assms Inr Ok Some Locked True t
              by (auto simp: run_simps map_err_def Let_def budget_def intro!: final)
          next
            case t: False
            show ?thesis using assms Inr Ok Some Locked True t
              by (intro again [of "rs\<lparr>rs_absent_reads := 0\<rparr>" "[?x]"])
                (auto simp: run_simps map_err_def Let_def budget_def)
          qed
        next
          case False
          obtain q e where q: "run_state (lez_refund en c h) (tr @ [?x]) = (q, (tr @ [?x]) @ e)" "sends e \<le> 1"
              "submitted_result q"
            unfolding lez_refund_def by (rule run_send_htlc)
          let ?tr = "tr @ ?x # e"
          define rs' where "rs' = \<lparr> rs_submitted = True,
            rs_submit_tx = (case q of Ok tx \<Rightarrow> Some tx | _ \<Rightarrow> None),
            rs_submit_err = (case q of Err x \<Rightarrow> Some (c_show_error en x) | _ \<Rightarrow> None), rs_absent_reads = 0 \<rparr>"
          have rs': "rs_submitted rs'"
            "run_state (refund_loop (Suc n) en c h dl rs) tr =
               run_state (refund_wait en c dl (rs_submit_err rs') (refund_loop n en c h dl rs')) ?tr"
            using Inr Ok Some Locked False q
            by (cases q; simp add: rs'_def run_get_escrow run_tryM map_err_def Let_def)+
          show ?thesis
          proof (cases "dl \<le> a_instant en ?tr")
            case True
            then show ?thesis using assms rs' q(2) False
              unfolding run_refund_wait
              by (intro final [of "?x # e @ [XInstant (a_instant en ?tr)]"]) (auto simp: budget_def)
          next
            case t: False
            then show ?thesis using assms rs' q(2) False
              unfolding run_refund_wait
              by (intro again [of rs' "?x # e"]) (auto simp: budget_def)
          qed
        qed
      qed (use assms Inr Ok Some in \<open>auto simp: run_simps map_err_def Let_def claimed_outcome_def
          split: if_splits option.splits intro!: final\<close>)
    qed
  qed (use assms Inr in \<open>auto simp: run_simps map_err_def decode_escrow_read_def
      split: if_splits sum.splits intro!: final\<close>)
qed

lemma refund_loop_sound:
  "run_state (refund_loop n en c h dl rs) tr = (Ok out, tr') \<Longrightarrow>
   \<exists>tr0 d x. tr' = tr0 @ [XAccount (escrow_pda en c h) (Inr d)] \<and>
      decode_escrow_read h d = Ok (Some x) \<and> refund_evidence x out"
proof (induction n arbitrary: rs tr)
  case (Suc n)
  from Suc.prems show ?case
    by (cases rule: refund_loop_cases) (auto dest: Suc.IH)
qed simp

lemma refund_loop_submits:
  "run_state (refund_loop n en c h dl rs) tr = (r, tr') \<Longrightarrow> \<exists>e. tr' = tr @ e \<and> sends e \<le> budget rs"
proof (induction n arbitrary: rs tr)
  case (Suc n)
  from Suc.prems show ?case
  proof (cases rule: refund_loop_cases)
    case (again e rs')
    from Suc.IH [OF again(1)] again(2) show ?thesis by auto
  qed auto
qed simp

lemma refund_loop_returns:
  assumes "clock_ok en" "dl \<le> a_instant en tr + k * lc_poll_interval c" "k < n"
    "run_state (refund_loop n en c h dl rs) tr = (r, tr')"
  shows "r \<noteq> Pending"
  using assms(2-)
proof (induction n arbitrary: rs tr k)
  case (Suc n)
  from Suc.prems(3) show ?case
  proof (cases rule: refund_loop_cases)
    case (again e rs')
    have "a_instant en tr \<le> a_instant en (tr @ e)" using assms(1) by (simp add: clock_ok_def)
    with again(3) Suc.prems(1) obtain j where j: "k = Suc j" by (cases k) auto
    show ?thesis
    proof (rule Suc.IH [OF _ _ again(1)])
      show "j < n" using Suc.prems(2) j by simp
      show "dl \<le> a_instant en (tr @ e @ [XInstant (a_instant en (tr @ e)), XSleep (lc_poll_interval c)])
          + j * lc_poll_interval c"
        using clock_after_sleep [OF assms(1), of tr "lc_poll_interval c" e "XInstant (a_instant en (tr @ e))"]
          Suc.prems(1) j by simp
    qed
  qed auto
qed simp

section \<open>Locking funds only a confirmed escrow\<close>

abbreviation no_send :: "interaction \<Rightarrow> bool" where
  "no_send x \<equiv> \<not> is_send x"

lemma sends_none: "list_all no_send e \<longleftrightarrow> sends e = 0"
  by (induction e) auto

lemma run_balance_or_zero [run_simps]:
  "run_state (balance_or_zero en acc) tr =
     ((case a_balance en tr acc of Inr b \<Rightarrow> b | Inl _ \<Rightarrow> 0), tr @ [XBalance acc (a_balance en tr acc)])"
  by (simp add: balance_or_zero_def run_simps map_err_def split: sum.splits)

lemma emits_get_escrow [emits_intros]:
  "(\<And>a. P (XAccount (escrow_pda en c h) a)) \<Longrightarrow> emits P (get_escrow en c h)"
  by (simp add: emits_def run_get_escrow)

lemma emits_balance_or_zero [emits_intros]:
  "(\<And>a. P (XBalance acc a)) \<Longrightarrow> emits P (balance_or_zero en acc)"
  by (simp add: emits_def run_simps)

lemma emits_await_lock: "emits no_send (await_lock n en c h taker amt tms dl)"
  by (induction n) (auto intro!: emits_intros)

lemma emits_await_funding: "emits no_send (await_funding n en c pda amt dl)"
  by (induction n) (auto intro!: emits_intros)

lemma await_lock_Ok:
  "run_state (await_lock n en c h taker amt tms dl) tr = (Ok (), tr') \<Longrightarrow>
   \<exists>e d x. tr' = tr @ e @ [XAccount (escrow_pda en c h) (Inr d)] \<and> decode_escrow_read h d = Ok (Some x) \<and>
     escrow_confirms_our_lock x (lc_account_id c) taker amt tms"
proof (induction n arbitrary: tr)
  case (Suc n)
  show ?case
  proof (cases "a_account en tr (escrow_pda en c h)")
    case (Inl e)
    then show ?thesis using Suc.prems by (simp add: run_simps map_err_def)
  next
    case (Inr d)
    then show ?thesis using Suc.prems
      by (cases "decode_escrow_read h d")
        (auto simp: run_simps map_err_def split: option.splits if_splits dest!: Suc.IH)
  qed
qed simp

lemma await_funding_Ok:
  "run_state (await_funding n en c pda amt dl) tr = (Ok (), tr') \<Longrightarrow>
   \<exists>e a. tr' = tr @ e @ [XBalance pda a] \<and> (case a of Inr b \<Rightarrow> amt \<le> b | Inl _ \<Rightarrow> amt = 0)"
proof (induction n arbitrary: tr)
  case (Suc n)
  then show ?case
    by (cases "a_balance en tr pda") (auto simp: run_simps split: if_splits dest!: Suc.IH)
qed simp

lemma await_lock_returns:
  assumes "clock_ok en" "dl \<le> a_instant en tr + k * lc_poll_interval c" "k < n"
    "run_state (await_lock n en c h taker amt tms dl) tr = (r, tr')"
  shows "r \<noteq> Pending"
  using assms(2-)
proof (induction n arbitrary: tr k)
  case (Suc n)
  let ?x = "XAccount (escrow_pda en c h) (a_account en tr (escrow_pda en c h))"
  let ?t = "a_instant en (tr @ [?x])"
  consider (fin) "r \<noteq> Pending"
    | (again) "\<not> dl \<le> ?t"
      "run_state (await_lock n en c h taker amt tms dl)
         (tr @ [?x] @ [XInstant ?t, XSleep (lc_poll_interval c)]) = (r, tr')"
    using Suc.prems(3)
    by (cases "a_account en tr (escrow_pda en c h)")
      (auto simp: run_simps map_err_def decode_escrow_read_def split: option.splits if_splits sum.splits)
  then show ?case
  proof cases
    case again
    have "a_instant en tr \<le> ?t" using assms(1) by (simp add: clock_ok_def)
    with again(1) Suc.prems(1) obtain j where j: "k = Suc j" by (cases k) auto
    show ?thesis
    proof (rule Suc.IH [OF _ _ again(2)])
      show "j < n" using Suc.prems(2) j by simp
      show "dl \<le> a_instant en (tr @ [?x] @ [XInstant ?t, XSleep (lc_poll_interval c)]) + j * lc_poll_interval c"
        using clock_after_sleep [OF assms(1), of tr "lc_poll_interval c" "[?x]" "XInstant ?t"]
          Suc.prems(1) j by simp
    qed
  qed
qed simp

definition confirmed_read ::
  "env \<Rightarrow> lez_client \<Rightarrow> bytes32 \<Rightarrow> account_id \<Rightarrow> u128 \<Rightarrow> u64 \<Rightarrow> interaction \<Rightarrow> bool" where
  "confirmed_read en c h taker amt tms x \<longleftrightarrow>
     (\<exists>d e. x = XAccount (escrow_pda en c h) (Inr d) \<and> decode_escrow_read h d = Ok (Some e) \<and>
        escrow_confirms_our_lock e (lc_account_id c) taker amt tms)"

text \<open>The check before the lock: the escrow was read and there is none.\<close>

definition absent_read :: "env \<Rightarrow> lez_client \<Rightarrow> bytes32 \<Rightarrow> interaction \<Rightarrow> bool" where
  "absent_read en c h x \<longleftrightarrow> (\<exists>d. x = XAccount (escrow_pda en c h) (Inr d) \<and> decode_escrow_read h d = Ok None)"

text \<open>The two transactions of a lock, with what the sequencer answered.\<close>

definition lock_tx :: "env \<Rightarrow> lez_client \<Rightarrow> bytes32 \<Rightarrow> account_id \<Rightarrow> u128 \<Rightarrow> u64 \<Rightarrow> string + string \<Rightarrow> interaction" where
  "lock_tx en c h taker amt tsecs q =
     XSend (lc_program_id c) [lc_account_id c, escrow_pda en c h] (HtlcPayload (LockInstr h taker amt (tsecs * 1000))) q"

definition funding_tx :: "env \<Rightarrow> lez_client \<Rightarrow> bytes32 \<Rightarrow> u128 \<Rightarrow> string + string \<Rightarrow> interaction" where
  "funding_tx en c h amt q =
     XSend (c_transfer_program en) [lc_account_id c, escrow_pda en c h] (TransferPayload amt) q"

text \<open>
  Whatever a lock submits is the lock of these terms, as the first transaction and after the escrow
  was read as absent, or the transfer of exactly this amount from the maker to this escrow, as
  the second transaction and after a read that confirms the lock.
\<close>

definition lock_event_ok ::
  "env \<Rightarrow> lez_client \<Rightarrow> bytes32 \<Rightarrow> account_id \<Rightarrow> u128 \<Rightarrow> u64 \<Rightarrow> trace \<Rightarrow> interaction \<Rightarrow> bool" where
  "lock_event_ok en c h taker amt tsecs hist x \<longleftrightarrow> (is_send x \<longrightarrow>
     (\<exists>q. x = lock_tx en c h taker amt tsecs q) \<and> sends hist = 0 \<and> list_ex (absent_read en c h) hist \<or>
     (\<exists>q. x = funding_tx en c h amt q) \<and> sends hist = 1 \<and>
       list_ex (confirmed_read en c h taker amt (tsecs * 1000)) hist)"

lemma lock_ok_no_send: "list_all no_send e \<Longrightarrow> each (lock_event_ok en c h taker amt tsecs) us e"
  by (auto simp: each_iff lock_event_ok_def)

text \<open>One submission: the nonces, then the message if it could be built, answered as returned.\<close>

lemma run_submission:
  obtains r ns where
    "run_state (tryM (get_nonces en [acc]) (\<lambda>_. submit_message en what pid accs payload)) tr = (r, tr @ [XNonces [acc] ns])"
    "\<nexists>th. r = Ok th" "submitted_result r"
  | r ns q where
    "run_state (tryM (get_nonces en [acc]) (\<lambda>_. submit_message en what pid accs payload)) tr =
       (r, tr @ [XNonces [acc] ns, XSend pid accs payload q])"
    "\<And>th. r = Ok th \<Longrightarrow> q = Inr th" "submitted_result r"
proof (cases "a_nonces en tr [acc]")
  case (Inl m)
  then show ?thesis by (intro that(1)) (auto simp: get_nonces_def run_simps map_err_def)
next
  case (Inr ns)
  let ?tr = "tr @ [XNonces [acc] (Inr ns)]"
  show ?thesis
  proof (cases "c_message_err en pid accs payload")
    case None
    let ?q = "a_send en ?tr pid accs payload"
    show ?thesis using Inr None
      by (intro that(2) [of "map_err (\<lambda>e. LezTransaction (what @ '' failed: '' @ e)) ?q" "Inr ns" ?q])
        (auto simp: get_nonces_def submit_message_def run_simps map_err_def split: sum.splits)
  next
    case (Some m)
    then show ?thesis using Inr
      by (intro that(1)) (auto simp: get_nonces_def submit_message_def run_simps map_err_def)
  qed
qed

text \<open>What the end of a successful lock looks like: the escrow was read as funded.\<close>

definition funded_end :: "account_id \<Rightarrow> u128 \<Rightarrow> trace \<Rightarrow> bool" where
  "funded_end pda amt e \<longleftrightarrow>
     (\<exists>e0 a. e = e0 @ [XBalance pda a] \<and> (case a of Inr b \<Rightarrow> amt \<le> b | Inl _ \<Rightarrow> amt = 0))"

lemma funded_end_append: "funded_end pda amt e \<Longrightarrow> funded_end pda amt (e' @ e)"
  unfolding funded_end_def by (metis append_assoc)

lemma fund_escrow_trace:
  assumes "run_state (fund_escrow n en c (escrow_pda en c h) amt) tr = (r, tr')"
    and "sends us = 1" "list_ex (confirmed_read en c h taker amt (tsecs * 1000)) us"
  shows "\<exists>e. tr' = tr @ e \<and> each (lock_event_ok en c h taker amt tsecs) us e \<and>
    (r = Ok () \<longrightarrow> (\<exists>th. funding_tx en c h amt (Inr th) \<in> set e) \<and> funded_end (escrow_pda en c h) amt e)"
proof -
  let ?pda = "escrow_pda en c h" and ?ok = "lock_event_ok en c h taker amt tsecs"
  have tf: "transfer en c ?pda amt = tryM (get_nonces en [lc_account_id c])
      (\<lambda>_. submit_message en ''transfer'' (c_transfer_program en) [lc_account_id c, ?pda] (TransferPayload amt))"
    by (simp add: transfer_def)
  show ?thesis
  proof (rule run_submission [of en "lc_account_id c" "''transfer''" "c_transfer_program en"
        "[lc_account_id c, ?pda]" "TransferPayload amt" tr], fold tf)
    fix q ns assume "run_state (transfer en c ?pda amt) tr = (q, tr @ [XNonces [lc_account_id c] ns])"
      "\<nexists>th. q = Ok th" "submitted_result q"
    then show ?thesis using assms(1)
      by (cases q) (auto simp: fund_escrow_def run_simps lock_event_ok_def)
  next
    fix q ns a
    define e1 where "e1 = [XNonces [lc_account_id c] ns, XSend (c_transfer_program en) [lc_account_id c, ?pda] (TransferPayload amt) a]"
    assume "run_state (transfer en c ?pda amt) tr =
        (q, tr @ [XNonces [lc_account_id c] ns, XSend (c_transfer_program en) [lc_account_id c, ?pda] (TransferPayload amt) a])"
      and q: "\<And>th. q = Ok th \<Longrightarrow> a = Inr th" "submitted_result q"
    then have t: "run_state (transfer en c ?pda amt) tr = (q, tr @ e1)" by (simp add: e1_def)
    have ok: "each ?ok us e1" using assms(2,3) by (auto simp: e1_def lock_event_ok_def funding_tx_def)
    show ?thesis
    proof (cases q)
      case (Ok th)
      let ?tr = "tr @ e1" let ?t = "a_instant en ?tr"
      have aw: "run_state (await_funding n en c ?pda amt (?t + lock_deadline)) (?tr @ [XInstant ?t]) = (r, tr')"
        using assms(1) t Ok by (simp add: fund_escrow_def run_simps)
      from emits_prefix [OF emits_await_funding aw] obtain e2 where
        e2: "tr' = (?tr @ [XInstant ?t]) @ e2" "list_all no_send e2" by blast
      have "funded_end ?pda amt e2" if "r = Ok ()"
        using await_funding_Ok [of n en c ?pda amt "?t + lock_deadline" "?tr @ [XInstant ?t]" tr'] aw that e2
        by (auto simp: funded_end_def)
      moreover have "each ?ok (us @ e1) (XInstant ?t # e2)" using e2(2) by (intro lock_ok_no_send) simp
      moreover have "funding_tx en c h amt (Inr th) \<in> set e1" using q(1) [OF Ok] by (simp add: e1_def funding_tx_def)
      ultimately show ?thesis using e2(1) ok funded_end_append [of ?pda amt e2 "e1 @ [XInstant ?t]"]
        by (intro exI [of _ "e1 @ XInstant ?t # e2"]) (auto simp: each_append simp del: each.simps)
    qed (use assms(1) t ok q(2) in \<open>auto simp: fund_escrow_def run_simps\<close>)
  qed
qed

text \<open>Step 1 up to the confirmation: the lock, and a success ends with the confirming read.\<close>

definition lock_step1 ::
  "nat \<Rightarrow> env \<Rightarrow> lez_client \<Rightarrow> bytes32 \<Rightarrow> account_id \<Rightarrow> u128 \<Rightarrow> u64 \<Rightarrow> string rio" where
  "lock_step1 fuel en c h taker amt tsecs =
     tryM (send_htlc_instruction en c [lc_account_id c, escrow_pda en c h]
             (build_lock_instruction h taker amt tsecs)) (\<lambda>lh. do {
       t0 \<leftarrow> instant_now en;
       tryM (await_lock fuel en c h taker amt (tsecs * 1000) (t0 + lock_deadline)) (\<lambda>_. ret (Ok lh)) })"

lemma lock_step1_trace:
  assumes "run_state (lock_step1 fuel en c h taker amt tsecs) tr = (r, tr')"
    and "sends us = 0" "list_ex (absent_read en c h) us"
  shows "\<exists>e. tr' = tr @ e \<and> each (lock_event_ok en c h taker amt tsecs) us e \<and>
    (\<forall>lh. r = Ok lh \<longrightarrow> sends e = 1 \<and> lock_tx en c h taker amt tsecs (Inr lh) \<in> set e \<and>
       list_ex (confirmed_read en c h taker amt (tsecs * 1000)) e)"
proof -
  let ?accs = "[lc_account_id c, escrow_pda en c h]" and ?ok = "lock_event_ok en c h taker amt tsecs"
  let ?i = "build_lock_instruction h taker amt tsecs"
  have sh: "send_htlc_instruction en c ?accs ?i = tryM (get_nonces en [lc_account_id c])
      (\<lambda>_. submit_message en ''send_transaction'' (lc_program_id c) ?accs (HtlcPayload ?i))"
    by (simp add: send_htlc_instruction_def)
  show ?thesis
  proof (rule run_submission [of en "lc_account_id c" "''send_transaction''" "lc_program_id c" ?accs
        "HtlcPayload ?i" tr], fold sh)
    fix q ns assume "run_state (send_htlc_instruction en c ?accs ?i) tr = (q, tr @ [XNonces [lc_account_id c] ns])"
      "\<nexists>th. q = Ok th" "submitted_result q"
    then show ?thesis using assms(1)
      by (cases q) (auto simp: lock_step1_def run_simps lock_event_ok_def)
  next
    fix q ns a
    define e1 where "e1 = [XNonces [lc_account_id c] ns, XSend (lc_program_id c) ?accs (HtlcPayload ?i) a]"
    assume "run_state (send_htlc_instruction en c ?accs ?i) tr =
        (q, tr @ [XNonces [lc_account_id c] ns, XSend (lc_program_id c) ?accs (HtlcPayload ?i) a])"
      and q: "\<And>th. q = Ok th \<Longrightarrow> a = Inr th" "submitted_result q"
    then have l: "run_state (send_htlc_instruction en c ?accs ?i) tr = (q, tr @ e1)" by (simp add: e1_def)
    have ok: "each ?ok us e1" and one: "sends e1 = 1"
      using assms(2,3) by (auto simp: e1_def lock_event_ok_def lock_tx_def build_lock_instruction_def)
    show ?thesis
    proof (cases q)
      case (Ok lh)
      let ?tr = "tr @ e1" let ?t = "a_instant en ?tr" let ?tr2 = "?tr @ [XInstant ?t]"
      obtain q2 tr3 where aw: "run_state (await_lock fuel en c h taker amt (tsecs * 1000) (?t + lock_deadline)) ?tr2
          = (q2, tr3)" by fastforce
      from emits_prefix [OF emits_await_lock aw] obtain e2 where e2: "tr3 = ?tr2 @ e2" "list_all no_send e2" by blast
      have tr': "tr' = tr3" and r: "\<And>x. r = Ok x \<Longrightarrow> q2 = Ok () \<and> x = lh"
        using assms(1) l Ok aw by (cases q2; auto simp: lock_step1_def run_simps)+
      have "list_ex (confirmed_read en c h taker amt (tsecs * 1000)) e2" if "q2 = Ok ()"
        using await_lock_Ok [of fuel en c h taker amt "tsecs * 1000" "?t + lock_deadline" ?tr2 tr3] aw that e2(1)
        by (auto simp: confirmed_read_def)
      moreover have "each ?ok (us @ e1) (XInstant ?t # e2)" using e2(2) by (intro lock_ok_no_send) simp
      moreover have "lock_tx en c h taker amt tsecs (Inr lh) \<in> set e1"
        using q(1) [OF Ok] by (simp add: e1_def lock_tx_def build_lock_instruction_def)
      moreover have "sends (e1 @ XInstant ?t # e2) = 1" using e2(2) one by (simp add: sends_none)
      ultimately show ?thesis using e2(1) tr' r ok
        by (intro exI [of _ "e1 @ XInstant ?t # e2"]) (auto simp: each_append simp del: each.simps sends_simps)
    qed (use assms(1) l ok q(2) in \<open>auto simp: lock_step1_def run_simps\<close>)
  qed
qed

lemma lez_lock_steps:
  "run_state (lez_lock fuel en c h taker amt tsecs) tr =
   run_state (tryM (get_escrow en c h) (\<lambda>eo.
     if eo \<noteq> None then do {
       b \<leftarrow> balance_or_zero en (escrow_pda en c h);
       ret (Err (InvalidState ''uninitialized escrow PDA before lock''
              ''escrow PDA already exists - refusing to re-fund; this hashlock is already in flight'')) }
     else tryM (lock_step1 fuel en c h taker amt tsecs) (\<lambda>lh.
            tryM (fund_escrow fuel en c (escrow_pda en c h) amt) (\<lambda>_. ret (Ok lh))))) tr"
  by (simp add: lez_lock_def lock_step1_def run_simps Let_def existing_escrow_blocks_fresh_lock_def
      split: prod.splits res.splits)

text \<open>What a lock that succeeds has done.\<close>

definition lock_done ::
  "env \<Rightarrow> lez_client \<Rightarrow> bytes32 \<Rightarrow> account_id \<Rightarrow> u128 \<Rightarrow> u64 \<Rightarrow> trace \<Rightarrow> string \<Rightarrow> bool" where
  "lock_done en c h taker amt tsecs e lock_hash \<longleftrightarrow>
     lock_tx en c h taker amt tsecs (Inr lock_hash) \<in> set e \<and>
     list_ex (confirmed_read en c h taker amt (tsecs * 1000)) e \<and>
     (\<exists>th. funding_tx en c h amt (Inr th) \<in> set e) \<and> funded_end (escrow_pda en c h) amt e"

lemma lez_lock_trace:
  assumes "run_state (lez_lock fuel en c h taker amt tsecs) tr = (r, tr')"
  shows "\<exists>e. tr' = tr @ e \<and> each (lock_event_ok en c h taker amt tsecs) [] e \<and>
    (\<forall>lh. r = Ok lh \<longrightarrow> lock_done en c h taker amt tsecs e lh)"
proof -
  let ?pda = "escrow_pda en c h" and ?cr = "confirmed_read en c h taker amt (tsecs * 1000)"
  let ?a = "a_account en tr ?pda" let ?x0 = "XAccount ?pda ?a" let ?ok = "lock_event_ok en c h taker amt tsecs"
  have read: "each ?ok [] (?x0 # e)" if "list_all no_send e" for e
    using that by (intro lock_ok_no_send) simp
  show ?thesis
  proof (cases "res_bind (map_err (\<lambda>e. LezSequencer (''get_account failed: '' @ e)) ?a) (decode_escrow_read h)")
    case (Ok eo)
    then obtain d where d: "?a = Inr d" "decode_escrow_read h d = Ok eo"
      by (cases ?a) (auto simp: map_err_def)
    show ?thesis
    proof (cases eo)
      case (Some x)
      then show ?thesis using assms Ok read [of "[XBalance ?pda (a_balance en (tr @ [?x0]) ?pda)]"]
        by (auto simp: lez_lock_steps run_simps simp del: each.simps)
    next
      case None
      have us: "sends [?x0] = 0" "list_ex (absent_read en c h) [?x0]" using d None by (auto simp: absent_read_def)
      obtain q1 tr1 where s1: "run_state (lock_step1 fuel en c h taker amt tsecs) (tr @ [?x0]) = (q1, tr1)" by fastforce
      from lock_step1_trace [OF s1 us] obtain e1 where e1: "tr1 = (tr @ [?x0]) @ e1" "each ?ok [?x0] e1"
        "\<forall>lh. q1 = Ok lh \<longrightarrow> sends e1 = 1 \<and> lock_tx en c h taker amt tsecs (Inr lh) \<in> set e1 \<and> list_ex ?cr e1" by blast
      have start: "each ?ok [] (?x0 # e1)" using e1(2) by (simp add: lock_event_ok_def)
      show ?thesis
      proof (cases "\<exists>lh. q1 = Ok lh")
        case False
        then have "tr' = tr1 \<and> (\<nexists>lh. r = Ok lh)" using assms Ok None s1
          by (cases q1) (auto simp: lez_lock_steps run_simps)
        then show ?thesis using e1(1) start by (intro exI [of _ "?x0 # e1"]) auto
      next
        case True
        then obtain lh where lh: "q1 = Ok lh" by blast
        have us2: "sends (?x0 # e1) = 1" "list_ex ?cr (?x0 # e1)" using e1(3) lh by simp_all
        obtain q2 tr2 where s2: "run_state (fund_escrow fuel en c ?pda amt) tr1 = (q2, tr2)" by fastforce
        from fund_escrow_trace [OF s2 us2] obtain e2 where e2: "tr2 = tr1 @ e2" "each ?ok (?x0 # e1) e2"
          "q2 = Ok () \<longrightarrow> (\<exists>th. funding_tx en c h amt (Inr th) \<in> set e2) \<and> funded_end ?pda amt e2" by blast
        have "tr' = tr2 \<and> (\<forall>x. r = Ok x \<longrightarrow> q2 = Ok () \<and> x = lh)" using assms Ok None s1 s2 lh
          by (cases q2) (auto simp: lez_lock_steps run_simps)
        moreover have "lock_done en c h taker amt tsecs ((?x0 # e1) @ e2) lh" if "q2 = Ok ()"
          using that e1(3) e2(3) lh us2(2) funded_end_append [of ?pda amt e2 "?x0 # e1"]
          by (auto simp: lock_done_def)
        moreover have "each ?ok [] ((?x0 # e1) @ e2)" using start e2(2) unfolding each_append by simp
        ultimately show ?thesis using e1(1) e2(1) by (intro exI [of _ "(?x0 # e1) @ e2"]) auto
      qed
    qed
  qed (use assms read [of "[]"] in \<open>auto simp: lez_lock_steps run_simps simp del: each.simps\<close>)
qed


section \<open>What the client emits\<close>

lemma emits_await_lock_silent: "emits silent (await_lock n en c h taker amt tms dl)"
  by (induction n) (auto intro!: emits_intros)

lemma emits_await_funding_silent: "emits silent (await_funding n en c pda amt dl)"
  by (induction n) (auto intro!: emits_intros)

lemma emits_get_nonces [emits_intros]: "(\<And>r. P (XNonces s r)) \<Longrightarrow> emits P (get_nonces en s)"
  unfolding get_nonces_def by (intro emits_intros) simp_all

lemma emits_submit [emits_intros]:
  "(\<And>r. P (XSend pid accs p r)) \<Longrightarrow> emits P (submit_message en what pid accs p)"
  unfolding submit_message_def by (intro emits_intros) simp_all

lemma emits_send_htlc [emits_intros]:
  "(\<And>s r. P (XNonces s r)) \<Longrightarrow> (\<And>r. P (XSend (lc_program_id c) accs (HtlcPayload i) r)) \<Longrightarrow>
   emits P (send_htlc_instruction en c accs i)"
  unfolding send_htlc_instruction_def by (intro emits_intros) simp_all

lemma emits_fund_escrow:
  assumes "\<And>x. quiet x \<Longrightarrow> \<not> is_progress x \<Longrightarrow> \<not> is_task x \<Longrightarrow> P x"
    "\<And>r. P (XSend (c_transfer_program en) [lc_account_id c, pda] (TransferPayload amt) r)"
  shows "emits P (fund_escrow n en c pda amt)"
  unfolding fund_escrow_def transfer_def
  by (intro emits_intros emits_weaken [OF emits_await_funding_silent]) (auto simp: assms)

lemma emits_lez_lock:
  assumes "\<And>x. quiet x \<Longrightarrow> \<not> is_progress x \<Longrightarrow> \<not> is_task x \<Longrightarrow> P x"
    "\<And>r. P (XSend (c_transfer_program en) [lc_account_id c, escrow_pda en c h] (TransferPayload amt) r)"
    "\<And>r. P (XSend (lc_program_id c) [lc_account_id c, escrow_pda en c h]
             (HtlcPayload (build_lock_instruction h taker amt ts)) r)"
  shows "emits P (lez_lock n en c h taker amt ts)"
  unfolding lez_lock_def Let_def
  by (intro emits_intros emits_fund_escrow emits_weaken [OF emits_await_lock_silent]) (auto simp: assms)

lemma emits_refund_wait:
  "(\<And>t. P (XInstant t)) \<Longrightarrow> P (XSleep (lc_poll_interval c)) \<Longrightarrow> emits P k \<Longrightarrow> emits P (refund_wait en c dl err k)"
  unfolding refund_wait_def by (intro emits_intros) simp_all

lemma emits_refund_loop:
  assumes "\<And>x. quiet x \<Longrightarrow> \<not> is_progress x \<Longrightarrow> \<not> is_task x \<Longrightarrow> P x"
    "\<And>r. P (XSend (lc_program_id c) [lc_account_id c, escrow_pda en c h] (HtlcPayload RefundInstr) r)"
  shows "emits P (refund_loop n en c h dl rs)"
proof (induction n arbitrary: rs)
  case (Suc n)
  have again: "emits P (refund_wait en c dl err (refund_loop n en c h dl rs'))" for err rs'
    by (rule emits_refund_wait) (simp_all add: assms Suc.IH)
  have "emits P (lez_refund en c h)" unfolding lez_refund_def
    by (intro emits_intros) (simp_all add: assms)
  then show ?case using again unfolding refund_loop.simps Let_def
    by (intro emits_intros) (auto simp: assms split: refund_read_class.splits option.splits res.splits
        intro!: emits_intros)
qed (simp add: emits_ret)

lemma emits_refund_confirmed:
  assumes "\<And>x. quiet x \<Longrightarrow> \<not> is_progress x \<Longrightarrow> \<not> is_task x \<Longrightarrow> P x"
    "\<And>r. P (XSend (lc_program_id c) [lc_account_id c, escrow_pda en c h] (HtlcPayload RefundInstr) r)"
  shows "emits P (refund_confirmed n en c h)"
  unfolding refund_confirmed_def by (intro emits_intros emits_refund_loop) (simp_all add: assms)

section \<open>Retried balance reads\<close>

fun balance_answers :: "trace \<Rightarrow> (string + u128) list" where
  "balance_answers [] = []"
| "balance_answers (XBalance acc a # tr) = a # balance_answers tr"
| "balance_answers (_ # tr) = balance_answers tr"

lemma balance_answers_append [simp]: "balance_answers (xs @ ys) = balance_answers xs @ balance_answers ys"
  by (induction xs rule: balance_answers.induct) auto

text \<open>A closure that only reports and counts, as the maker loop passes it.\<close>

definition counting :: "bool \<Rightarrow> (swap_error \<Rightarrow> swap_progress) \<Rightarrow> swap_error \<Rightarrow> u32 \<Rightarrow> u32 io" where
  "counting sender P e k = do { report sender (P e); ret (k + 1) }"

lemma run_counting [run_simps]:
  "run_state (counting sender P e k) tr = (k + 1, if sender then tr @ [XProgress (P e)] else tr)"
  by (simp add: counting_def run_simps)

definition retried :: "nat \<Rightarrow> swap_error option \<Rightarrow> u32 \<Rightarrow> (swap_error, u128) res \<Rightarrow> u32 \<Rightarrow> trace \<Rightarrow> bool" where
  "retried n last_err k r k' e \<longleftrightarrow>
     (case r of
        Ok b \<Rightarrow> \<exists>fs. balance_answers e = map Inl fs @ [Inr b] \<and> length fs < n \<and>
                  k' = (if last_err = None \<and> fs = [] then k else k + 1)
      | Err x \<Rightarrow> \<exists>fs. balance_answers e = map Inl fs \<and> length fs = n \<and> k' = k + 1
      | _ \<Rightarrow> False)"

lemma retried_Cons:
  assumes "retried n (Some m) k r k' e" "balance_answers q = []"
  shows "retried (Suc n) le k r k' (XBalance acc (Inl f) # q @ e)"
proof (cases r)
  case (Ok b)
  with assms(1) obtain fs where "balance_answers e = map Inl fs @ [Inr b]" "length fs < n" "k' = k + 1"
    by (auto simp: retried_def)
  then show ?thesis using Ok assms(2) by (auto simp: retried_def intro!: exI [of _ "f # fs"])
next
  case (Err x)
  with assms(1) obtain fs where "balance_answers e = map Inl fs" "length fs = n" "k' = k + 1"
    by (auto simp: retried_def)
  then show ?thesis using Err assms(2) by (auto simp: retried_def intro!: exI [of _ "f # fs"])
qed (use assms in \<open>auto simp: retried_def\<close>)

lemma balance_attempts_trace:
  assumes "run_state (balance_attempts (get_balance en acc) (counting sender P) n delay last_err k) tr = ((r, k'), tr')"
    and "0 < n \<or> last_err \<noteq> None"
  shows "\<exists>e. tr' = tr @ e \<and> retried n last_err k r k' e"
  using assms
proof (induction n arbitrary: delay last_err tr)
  case 0
  then show ?case by (auto simp: run_simps retried_def split: if_splits)
next
  case (Suc n)
  show ?case
  proof (cases "a_balance en tr acc")
    case (Inr b)
    then show ?thesis using Suc.prems(1)
      by (auto simp: run_simps map_err_def retried_def split: option.splits if_splits intro: exI [of _ "[]"])
  next
    case (Inl m)
    let ?w = "if 0 < n then [XSleep delay] else []"
    let ?err = "LezSequencer (''get_account_balance failed: '' @ m)"
    have "run_state (balance_attempts (get_balance en acc) (counting sender P) n
        (if 0 < n then min (delay * 2) 30000 else delay) (Some ?err) k) (tr @ XBalance acc (Inl m) # ?w) = ((r, k'), tr')"
      using Suc.prems(1) Inl by (cases "0 < n") (simp_all add: run_simps map_err_def)
    from Suc.IH [OF this] obtain e where e: "tr' = tr @ XBalance acc (Inl m) # ?w @ e"
      "retried n (Some ?err) k r k' e" by auto
    then show ?thesis using retried_Cons [OF e(2), of ?w last_err acc m]
      by (intro exI [of _ "XBalance acc (Inl m) # ?w @ e"]) auto
  qed
qed

section \<open>The events of a watched escrow\<close>

fun lez_events :: "trace \<Rightarrow> lez_watch_event list" where
  "lez_events [] = []"
| "lez_events (XSendLez ev b # tr) = ev # lez_events tr"
| "lez_events (_ # tr) = lez_events tr"

lemma lez_events_append [simp]: "lez_events (xs @ ys) = lez_events xs @ lez_events ys"
  by (induction xs rule: lez_events.induct) auto

definition terminal_event :: "account_id \<Rightarrow> lez_watch_event \<Rightarrow> bool" where
  "terminal_event pda ev \<longleftrightarrow> ev = LezRefundedEv pda \<or> (\<exists>p. ev = LezClaimedEv pda p)"

definition read_supports :: "env \<Rightarrow> lez_client \<Rightarrow> bytes32 \<Rightarrow> lez_watch_event \<Rightarrow> interaction \<Rightarrow> bool" where
  "read_supports en c h ev x \<longleftrightarrow>
     (\<exists>d e. x = XAccount (escrow_pda en c h) (Inr d) \<and> decode_escrow_read h d = Ok (Some e) \<and>
        watch_event (escrow_pda en c h) e = ev)"

definition watch_ok :: "env \<Rightarrow> lez_client \<Rightarrow> bytes32 \<Rightarrow> htlc_state option \<Rightarrow> trace \<Rightarrow> bool" where
  "watch_ok en c h last_state e \<longleftrightarrow>
     (\<forall>ev\<in>set (lez_events e). list_ex (read_supports en c h ev) e) \<and>
     (let pda = escrow_pda en c h; evs = lez_events e in
      evs = [] \<or> (\<exists>t. evs = [t] \<and> (terminal_event pda t \<or> (last_state = None \<and> t = LezLockedEv pda))) \<or>
      (\<exists>t. last_state = None \<and> evs = [LezLockedEv pda, t] \<and> terminal_event pda t))"

lemma watch_ok_quiet:
  assumes "watch_ok en c h s e" "lez_events q = []"
  shows "watch_ok en c h s (q @ e)"
  using assms by (auto simp: watch_ok_def Let_def)

lemma watch_ok_single:
  assumes "list_ex (read_supports en c h ev) q" "lez_events q = []"
    and "terminal_event (escrow_pda en c h) ev \<or> (s = None \<and> ev = LezLockedEv (escrow_pda en c h))"
  shows "watch_ok en c h s (q @ [XSendLez ev b])"
  using assms by (auto simp: watch_ok_def Let_def)

lemma watch_ok_then:
  assumes "list_ex (read_supports en c h (LezLockedEv (escrow_pda en c h))) q" "lez_events q = []"
    and "watch_ok en c h (Some Locked) e"
  shows "watch_ok en c h None (q @ XSendLez (LezLockedEv (escrow_pda en c h)) b # XSleep poll # e)"
  using assms by (auto simp: watch_ok_def Let_def)

lemma watch_event_terminal: "esc_state x \<noteq> Locked \<Longrightarrow> terminal_event pda (watch_event pda x)"
  by (cases "esc_state x") (auto simp: watch_event_def terminal_event_def)

lemma watch_event_locked: "esc_state x = Locked \<Longrightarrow> watch_event pda x = LezLockedEv pda"
  by (simp add: watch_event_def)

text \<open>One round of the watcher that read an escrow.\<close>

lemma watch_round:
  fixes en c h defines "pda \<equiv> escrow_pda en c h"
  assumes rd: "a_account en tr pda = Inr d" "decode_escrow_read h d = Ok (Some x)"
    and run: "run_state (watch_escrow_loop (Suc n) en c h poll s) tr = (r, tr')"
  obtains
    (quiet) q where "lez_events q = []" "run_state (watch_escrow_loop n en c h poll s) (tr @ q) = (r, tr')"
  | (stop) q b where "lez_events q = []" "XAccount pda (Inr d) \<in> set q" "s \<noteq> Some (esc_state x)"
      "tr' = tr @ q @ [XSendLez (watch_event pda x) b]"
  | (go) q b where "lez_events q = []" "XAccount pda (Inr d) \<in> set q" "s \<noteq> Some (esc_state x)" "esc_state x = Locked"
      "run_state (watch_escrow_loop n en c h poll (Some Locked))
         (tr @ q @ [XSendLez (watch_event pda x) b, XSleep poll]) = (r, tr')"
proof -
  note dd = rd [unfolded pda_def]
  let ?x = "XAccount pda (Inr d)"
  let ?send = "\<lambda>q. let b = a_send_lez en (tr @ q) (watch_event pda x) in
     (if \<not> b \<or> esc_state x \<noteq> Locked then (Ok (), tr @ q @ [XSendLez (watch_event pda x) b])
      else run_state (watch_escrow_loop n en c h poll (Some Locked))
             (tr @ q @ [XSendLez (watch_event pda x) b, XSleep poll]))"
  have send: thesis if "?send q = (r, tr')" "lez_events q = []" "?x \<in> set q" "s \<noteq> Some (esc_state x)" for q
    using that(1) stop [OF that(2-4)] go [OF that(2-4)] by (auto simp: Let_def split: if_splits)
  show thesis
  proof (cases "esc_state x = Locked \<and> s = None")
    case True
    let ?a = "a_balance en (tr @ [?x]) pda" let ?q = "[?x, XBalance pda ?a]"
    show thesis
    proof (cases "(case ?a of Inr b \<Rightarrow> b | Inl _ \<Rightarrow> 0) = 0")
      case z: True
      then show thesis using run dd True
        by (intro quiet [of "?q @ [XInstant (a_instant en (tr @ ?q)), XSleep poll]"])
          (auto simp: run_simps map_err_def pda_def)
    next
      case z: False
      then show thesis using run dd True
        by (intro send [of ?q]) (auto simp: run_simps map_err_def pda_def Let_def)
    qed
  next
    case False
    show thesis
    proof (cases "s = Some (esc_state x)")
      case True
      then show thesis using run dd
        by (intro quiet [of "[?x, XSleep poll]"]) (auto simp: run_simps map_err_def pda_def)
    next
      case ne: False
      with False run dd show thesis
        by (intro send [of "[?x]"]) (auto simp: run_simps map_err_def pda_def Let_def split: if_splits)
    qed
  qed
qed

lemma watch_loop_ok:
  "run_state (watch_escrow_loop n en c h poll s) tr = (r, tr') \<Longrightarrow> s = None \<or> s = Some Locked \<Longrightarrow>
   \<exists>e. tr' = tr @ e \<and> watch_ok en c h s e"
proof (induction n arbitrary: s tr)
  case 0
  then show ?case by (auto simp: watch_ok_def)
next
  case (Suc n)
  let ?pda = "escrow_pda en c h"
  let ?x = "XAccount ?pda (a_account en tr ?pda)"
  have quiet: ?case if "lez_events q = []" "run_state (watch_escrow_loop n en c h poll s) (tr @ q) = (r, tr')" for q
    using Suc.IH [OF that(2) Suc.prems(2)] watch_ok_quiet [OF _ that(1)] by auto
  consider (some) d x where "a_account en tr ?pda = Inr d" "decode_escrow_read h d = Ok (Some x)"
    | (none) "res_bind (map_err (\<lambda>e. LezSequencer (''get_account failed: '' @ e)) (a_account en tr ?pda))
        (decode_escrow_read h) = Ok None"
    | (bad) "\<nexists>eo. res_bind (map_err (\<lambda>e. LezSequencer (''get_account failed: '' @ e)) (a_account en tr ?pda))
        (decode_escrow_read h) = Ok eo"
    by (cases "a_account en tr ?pda") (auto simp: map_err_def, metis not_None_eq)
  then show ?case
  proof cases
    case (some d x)
    have supp: "list_ex (read_supports en c h (watch_event ?pda x)) q" if "XAccount ?pda (Inr d) \<in> set q" for q
      using that some by (auto simp: read_supports_def list_ex_iff)
    from some Suc.prems(1) show ?thesis
    proof (cases rule: watch_round)
      case (stop q b)
      have "terminal_event ?pda (watch_event ?pda x) \<or> (s = None \<and> watch_event ?pda x = LezLockedEv ?pda)"
        using stop(3) Suc.prems(2) watch_event_terminal [of x ?pda] watch_event_locked [of x ?pda]
        by (cases "esc_state x = Locked") auto
      then show ?thesis using watch_ok_single [OF supp [OF stop(2)] stop(1)] stop(4) by blast
    next
      case (go q b)
      from Suc.IH [OF go(5)] obtain e where e: "tr' = tr @ q @ XSendLez (watch_event ?pda x) b # XSleep poll # e"
        "watch_ok en c h (Some Locked) e" by auto
      have "s = None" using go(3,4) Suc.prems(2) by auto
      with e watch_ok_then [of en c h q e b poll] supp [OF go(2)] go(1) watch_event_locked [OF go(4), of ?pda]
      show ?thesis by auto
    qed (rule quiet)
  next
    case none
    then show ?thesis using Suc.prems by (intro quiet [of "[?x, XSleep poll]"]) (simp_all add: run_simps)
  next
    case bad
    show ?thesis
    proof (cases "res_bind (map_err (\<lambda>e. LezSequencer (''get_account failed: '' @ e)) (a_account en tr ?pda))
        (decode_escrow_read h)")
      case (Err e)
      then show ?thesis using Suc.prems by (intro quiet [of "[?x, XSleep poll]"]) (simp_all add: run_simps)
    qed (use bad Suc.prems in \<open>auto simp: run_simps watch_ok_def\<close>)
  qed
qed

section \<open>A concrete environment\<close>

text \<open>
  For the witnesses: a sequencer that answers every account read with fixed data, fixed
  balances, and a clock that advances by the waits in the trace.
\<close>

fun slept :: "trace \<Rightarrow> nat" where
  "slept [] = 0"
| "slept (XSleep d # tr) = d + slept tr"
| "slept (_ # tr) = slept tr"

lemma slept_append [simp]: "slept (xs @ ys) = slept xs + slept ys"
  by (induction xs rule: slept.induct) auto

definition toy_env :: "(trace \<Rightarrow> string + bytes) \<Rightarrow> (trace \<Rightarrow> string + u128) \<Rightarrow> env" where
  "toy_env acc bal = \<lparr> a_now = (\<lambda>tr. of_nat (slept tr div 1000)), a_instant = slept,
     a_account = (\<lambda>tr _. acc tr), a_balance = (\<lambda>tr _. bal tr), a_nonces = (\<lambda>_ _. Inr [0]),
     a_send = (\<lambda>_ _ _ _. Inr ''tx''), a_connect = (\<lambda>_. Inr ()), a_version = (\<lambda>_ _. Inr 2),
     a_chain_id = (\<lambda>_. Inr 1), a_eth_lock = (\<lambda>_ _ _ _ _ _. Inr (zero32, [Some zero32])),
     a_eth_claim = (\<lambda>_ _ _. Inr zero32), a_eth_refund = (\<lambda>_ _. Inr zero32),
     a_eth_get = (\<lambda>_ _. Inr empty_htlc), a_eth_select = (\<lambda>_ _. SelEthTimeout),
     a_lez_select = (\<lambda>_ _. SelLezTimeout), a_cancelled = (\<lambda>_. False), a_record = (\<lambda>_ _ _. Ok ()),
     a_contains = (\<lambda>_ _. False), a_busy = (\<lambda>_. False), a_block_number = (\<lambda>_. Inr 1000),
     a_locked_logs = (\<lambda>_ _ _. Inr []), a_claimed_logs = (\<lambda>_ _ _. Inr []), a_refunded_logs = (\<lambda>_ _ _. Inr []),
     a_send_eth = (\<lambda>_ _. True), a_send_lez = (\<lambda>_ _. True),
     a_owner = (\<lambda>_ _. Inr []), a_elapsed = (\<lambda>_. False), a_pow_late = (\<lambda>_ _. False), a_spawn = (\<lambda>_. Inr ()),
     a_child = (\<lambda>_. ChildEnded), a_eth_balance = (\<lambda>_ _. Inr 0), a_status_io = (\<lambda>_. StatusIoOk),
     a_snapshot = (\<lambda>_. (\<lparr> st_started_at = 0, st_last_offer_publish_ms = 0, st_publisher_alive = False,
       st_completed = 0, st_failed = 0, st_transient_errors = 0, st_loop_state = ''stopped'',
       st_lez_balance = 0, st_eth_balance_wei = 0 \<rparr>, 0, 0)), c_pda = (\<lambda>_ h. h),
     c_transfer_program = [], c_pinata_program = [], c_pinata_account = zero32, c_message_err = (\<lambda>_ _ _. None), c_sha256 = (\<lambda>b. b), c_hex = hex_of,
     c_show32 = hex_of, c_show_error = (\<lambda>_. ''error'') \<rparr>"

lemma toy_pda: "escrow_pda (toy_env acc bal) c h = h"
  by (simp add: escrow_pda_def toy_env_def)

lemma toy_account: "a_account (toy_env acc bal) tr a = acc tr"
  by (simp add: toy_env_def)

lemma toy_clock: "clock_ok (toy_env acc bal)"
  by (simp add: clock_ok_def toy_env_def)

definition toy_client :: lez_client where
  "toy_client = \<lparr> lc_account_id = replicate 32 1, lc_program_id = [], lc_poll_interval = 2000 \<rparr>"

definition toy_read :: "htlc_state \<Rightarrow> bytes" where
  "toy_read st = to_bytes \<lparr> esc_hashlock = replicate 32 7, esc_maker_id = replicate 32 1,
     esc_taker_id = replicate 32 2, esc_amount = 1000, esc_state = st, esc_timelock = 60000,
     esc_preimage = (if st = Claimed then Some (replicate 32 7) else None) \<rparr>"

lemma toy_read_decodes:
  "decode_escrow_read (replicate 32 7) (toy_read st) =
     Ok (Some \<lparr> esc_hashlock = replicate 32 7, esc_maker_id = replicate 32 1,
       esc_taker_id = replicate 32 2, esc_amount = 1000, esc_state = st, esc_timelock = 60000,
       esc_preimage = (if st = Claimed then Some (replicate 32 7) else None) \<rparr>)"
  (is "_ = Ok (Some ?e)")
proof -
  have enc: "encodable ?e" by (simp add: encodable_def wf_escrow_def is_bytes32_def)
  then have "125 \<le> length (toy_read st)" unfolding toy_read_def encodable_def
    by (subst length_to_bytes) simp_all
  then show ?thesis using from_bytes_to_bytes [OF enc, of 64]
    by (simp add: decode_escrow_read_def host_usize_def toy_read_def)
qed

section \<open>Properties\<close>

text \<open>
  C29. A confirmed refund reports only what was read: when \<open>refund_confirmed\<close> returns
  \<open>Refunded\<close>, its last interaction read the escrow in the state \<open>Refunded\<close>; when it returns
  \<open>ClaimedByTaker(p)\<close>, it read a claimed escrow that stores the 32-byte preimage \<open>p\<close>. On every
  path it submits at most one transaction.
\<close>

theorem refund_confirmed_sound:
  assumes "run_state (refund_confirmed fuel en c h) tr = (r, tr')"
  shows "(\<exists>e. tr' = tr @ e \<and> sends e \<le> 1) \<and>
    (r = Ok out \<longrightarrow> (\<exists>tr0 d x. tr' = tr0 @ [XAccount (escrow_pda en c h) (Inr d)] \<and>
       decode_escrow_read h d = Ok (Some x) \<and> refund_evidence x out))"
  using assms refund_loop_submits [of fuel en c h _ _ _ r tr'] refund_loop_sound [of fuel en c h _ _ _ out tr']
  by (fastforce simp: refund_confirmed_def run_simps budget_def)

theorem refund_confirmed_sound_witness:
  "\<exists>tr0 d x. snd (run_state (refund_confirmed (Suc 0) (toy_env (\<lambda>_. Inr (toy_read Claimed)) (\<lambda>_. Inr 0)) toy_client
      (replicate 32 7)) []) = tr0 @ [XAccount (replicate 32 7) (Inr d)] \<and>
    decode_escrow_read (replicate 32 7) d = Ok (Some x) \<and> refund_evidence x (RoClaimedByTaker (replicate 32 7))"
proof -
  let ?en = "toy_env (\<lambda>_. Inr (toy_read Claimed)) (\<lambda>_. Inr 0)"
  have "fst (run_state (refund_confirmed (Suc 0) ?en toy_client (replicate 32 7)) []) = Ok (RoClaimedByTaker (replicate 32 7))"
    by (simp add: refund_confirmed_def run_simps toy_account toy_read_decodes map_err_def claimed_outcome_def)
  then show ?thesis
    using refund_confirmed_sound [of "Suc 0" ?en toy_client "replicate 32 7" "[]" "Ok (RoClaimedByTaker (replicate 32 7))"
        _ "RoClaimedByTaker (replicate 32 7)"] unfolding toy_pda
    by (metis prod.collapse)
qed

text \<open>
  C33. A confirmed refund always returns: when time passes during a wait and the poll
  interval is positive, \<open>300000 / poll_interval + 2\<close> rounds are enough for \<open>refund_confirmed\<close>
  to give a result, whatever the sequencer answers.
\<close>

theorem refund_confirmed_returns:
  assumes "clock_ok en" "0 < lc_poll_interval c" "300000 div lc_poll_interval c + 1 < fuel"
  shows "fst (run_state (refund_confirmed fuel en c h) tr) \<noteq> Pending"
proof -
  let ?p = "lc_poll_interval c" and ?t = "a_instant en tr" and ?tr = "tr @ [XInstant (a_instant en tr)]"
  have "300000 mod ?p < ?p" using assms(2) by simp
  then have "300000 \<le> (300000 div ?p + 1) * ?p"
    using div_mult_mod_eq [of 300000 ?p] by (simp only: distrib_right mult_1)
  moreover have "?t \<le> a_instant en ?tr" using assms(1) by (simp add: clock_ok_def)
  ultimately have "?t + 300000 \<le> a_instant en ?tr + (300000 div ?p + 1) * ?p" by linarith
  then show ?thesis using refund_loop_returns [OF assms(1) _ assms(3)]
    by (simp add: refund_confirmed_def run_simps prod_eq_iff)
qed

theorem refund_confirmed_returns_witness:
  "fst (run_state (refund_confirmed 200 (toy_env (\<lambda>_. Inr (toy_read Locked)) (\<lambda>_. Inr 0)) toy_client
     (replicate 32 7)) []) \<noteq> Pending"
  using refund_confirmed_returns [OF toy_clock, of toy_client 200 "\<lambda>_. Inr (toy_read Locked)" "\<lambda>_. Inr 0" "replicate 32 7" "[]"]
  by (simp add: toy_client_def)

text \<open>
  C28. A lock only funds its own escrow. Whatever \<open>lock\<close> submits is one of two transactions, in
  this order: the lock of these terms by this maker, after the escrow was read as absent; and the
  transfer of exactly the amount from the maker's account to this escrow, after a read of the escrow
  as locked for this maker, taker, amount and time lock. So at most two transactions are
  submitted and the escrow is funded at most once. It succeeds with the hash that the sequencer
  gave the lock, and then the confirming read was made, the transfer was accepted, and the last
  balance read covers the amount (a failed read counts as zero).
\<close>

theorem lez_lock_funds_confirmed:
  "case run_state (lez_lock fuel en c h taker amt tsecs) tr of (r, tr') \<Rightarrow>
     \<exists>e. tr' = tr @ e \<and> each (lock_event_ok en c h taker amt tsecs) [] e \<and>
       (case r of Ok lock_hash \<Rightarrow> lock_done en c h taker amt tsecs e lock_hash | _ \<Rightarrow> True)"
proof -
  obtain r tr' where rt: "run_state (lez_lock fuel en c h taker amt tsecs) tr = (r, tr')" by fastforce
  from lez_lock_trace [OF this] rt show ?thesis by (cases r) auto
qed

text \<open>
  The retried balance read: \<open>get_balance_with_retry\<close> makes at most five reads. It returns
  the first balance it reads, after only failed reads, and calls back once when one of them
  failed; it fails only when five reads failed, and then calls back once. So a transient
  failure is counted once per retried read, never per attempt.
\<close>

lemma balance_retry_counts:
  "\<exists>e. snd (run_state (get_balance_with_retry en acc (counting sender P) k) tr) = tr @ e \<and>
    (case fst (run_state (get_balance_with_retry en acc (counting sender P) k) tr) of
       (Ok b, k') \<Rightarrow> (\<exists>fs. balance_answers e = map Inl fs @ [Inr b] \<and> length fs < 5 \<and>
                        k' = (if fs = [] then k else k + 1))
     | (Err x, k') \<Rightarrow> (\<exists>fs. balance_answers e = map Inl fs \<and> length fs = 5 \<and> k' = k + 1)
     | _ \<Rightarrow> False)"
proof -
  obtain r k' tr' where rt: "run_state (get_balance_with_retry en acc (counting sender P) k) tr = ((r, k'), tr')"
    by (metis surj_pair)
  then have "run_state (balance_attempts (get_balance en acc) (counting sender P) 5 3000 None k) tr = ((r, k'), tr')"
    by (simp add: get_balance_with_retry_def balance_with_retry_core_def balance_retry_attempts_def
        balance_retry_initial_delay_def)
  from balance_attempts_trace [OF this] rt show ?thesis by (cases r) (auto simp: retried_def)
qed

text \<open>
  The watcher of an escrow sends at most \<open>Locked\<close> once and then at most one terminal
  event, nothing after it, and every event it sends is the one of an escrow it read.
\<close>

lemma watch_escrow_events:
  "\<exists>e. snd (run_state (watch_escrow fuel en c h poll) tr) = tr @ e \<and> watch_ok en c h None e"
proof -
  obtain r tr' where "run_state (watch_escrow_loop fuel en c h poll None) tr = (r, tr')" by fastforce
  with watch_loop_ok [OF this] show ?thesis by (simp add: watch_escrow_def)
qed

end
