(* ===== verification/Eth_Client.thy ===== *)
theory Eth_Client
  imports Swap_World
begin

text \<open>
  The Ethereum side of the orchestrator: \<open>EthClient\<close> with its version handshake
  (\<open>src/eth/client.rs\<close>) and the polling log watcher (\<open>src/eth/watcher.rs\<close>). The node, the
  wallet and the decoding of logs are the environment; the loops of the watcher take the number
  of rounds they may run, and the theorems hold after any number of rounds.
\<close>

section \<open>The version handshake\<close>

definition expected_interface_version :: u64 where
  "expected_interface_version = 2"

datatype verdict = VersionMatch | VersionMismatch u64 | Unversioned

fun version_verdict :: "u64 option \<Rightarrow> verdict" where
  "version_verdict (Some v) =
     (if v = expected_interface_version then VersionMatch else VersionMismatch v)"
| "version_verdict None = Unversioned"

text \<open>The message: its fixed part, shortened, and the version found.\<close>

fun version_mismatch_message :: "verdict \<Rightarrow> address \<Rightarrow> string checked" where
  "version_mismatch_message VersionMatch addr = Inl ''a match is not a mismatch''"
| "version_mismatch_message (VersionMismatch found) addr =
     Inr (''the EthHTLC reports INTERFACE_VERSION '' @ show_nat (unat found))"
| "version_mismatch_message Unversioned addr =
     Inr ''the contract has no INTERFACE_VERSION getter''"

definition to_ascii_lowercase :: "string \<Rightarrow> string" where
  "to_ascii_lowercase s =
     map (\<lambda>c. if 65 \<le> (of_char c :: nat) \<and> (of_char c :: nat) \<le> 90 then char_of (of_char c + 32 :: nat) else c) s"

fun contains_str :: "string \<Rightarrow> string \<Rightarrow> bool" where
  "contains_str [] pat \<longleftrightarrow> pat = []"
| "contains_str (c # cs) pat \<longleftrightarrow> take (length pat) (c # cs) = pat \<or> contains_str cs pat"

fun reads_as_missing_getter :: "contract_error \<Rightarrow> bool" where
  "reads_as_missing_getter (ZeroData m) = True"
| "reads_as_missing_getter (AbiError m) = True"
| "reads_as_missing_getter (TransportError resp m) \<longleftrightarrow>
     (case resp of
        Some (has_revert_data, message) \<Rightarrow>
          has_revert_data \<or> contains_str (to_ascii_lowercase message) ''execution reverted''
      | None \<Rightarrow> False)"
| "reads_as_missing_getter (OtherCallError m) = False"

definition saturating_to_u64 :: "u256 \<Rightarrow> u64" where
  "saturating_to_u64 v = (if unat v < 2 ^ 64 then ucast v else - 1)"

text \<open>The closure \<open>judge\<close>, and the reading of the getter's answer.\<close>

definition judge_version :: "address \<Rightarrow> u64 option \<Rightarrow> (swap_error, u64) res" where
  "judge_version addr reported =
     (case version_verdict reported of
        VersionMatch \<Rightarrow>
          (case reported of Some v \<Rightarrow> Ok v | None \<Rightarrow> Panic ''a matched verdict carries a version'')
      | other \<Rightarrow>
          res_bind (of_checked (version_mismatch_message other addr)) (\<lambda>m. Err (EthAbiMismatch m)))"

definition read_version :: "address \<Rightarrow> contract_error + u256 \<Rightarrow> (swap_error, u64) res" where
  "read_version addr answer =
     (case answer of
        Inr v \<Rightarrow> judge_version addr (Some (saturating_to_u64 v))
      | Inl e \<Rightarrow>
          if reads_as_missing_getter e then judge_version addr None
          else Err (EthRpc (''could not read INTERFACE_VERSION from the contract: '' @ show_contract_error e)))"

definition verify_interface_version :: "env \<Rightarrow> address \<Rightarrow> u64 rio" where
  "verify_interface_version en addr = do {
     answer \<leftarrow> ext (XVersion addr) (\<lambda>tr. a_version en tr addr);
     ret (read_version addr answer) }"

section \<open>The client\<close>

record eth_client =
  ec_contract :: address
  ec_chain_id :: u64

record eth_lock_receipt =
  lr_swap_id :: bytes32
  lr_tx_hash :: bytes32

text \<open>\<open>signer_err\<close> is the error of parsing the private key, if it has one.\<close>

definition eth_client_new :: "(string \<Rightarrow> string option) \<Rightarrow> env \<Rightarrow> swap_config \<Rightarrow> eth_client rio" where
  "eth_client_new signer_err en cfg =
     (case signer_err (eth_private_key cfg) of
        Some e \<Rightarrow> ret (Err (InvalidConfig (''invalid ETH private key: '' @ e)))
      | None \<Rightarrow> do {
          conn \<leftarrow> ext XConnect (a_connect en);
          (case conn of
             Inl e \<Rightarrow> ret (Err (EthRpc (''WebSocket connect failed: '' @ e)))
           | Inr _ \<Rightarrow>
               tryM (verify_interface_version en (eth_htlc_address cfg)) (\<lambda>_. do {
                 cid \<leftarrow> ext XChainId (a_chain_id en);
                 ret (res_bind (map_err EthRpc cid)
                   (\<lambda>chain_id. Ok \<lparr> ec_contract = eth_htlc_address cfg, ec_chain_id = chain_id \<rparr>)) })) })"

text \<open>
  The answer to \<open>lock\<close> is the receipt: the transaction hash and, for each log of it, the swap id
  if the log decodes as \<open>Locked\<close>.
\<close>

definition eth_lock :: "env \<Rightarrow> bytes32 \<Rightarrow> u64 \<Rightarrow> address \<Rightarrow> bytes32 \<Rightarrow> u256 \<Rightarrow> eth_lock_receipt rio" where
  "eth_lock en hashlock timelock recipient taker_lez_account amount = do {
     resp \<leftarrow> ext (XEthLock hashlock timelock recipient taker_lez_account amount)
               (\<lambda>tr. a_eth_lock en tr hashlock timelock recipient taker_lez_account amount);
     ret (res_bind (map_err EthRpc resp) (\<lambda>(tx, logs).
       case find (\<lambda>l. l \<noteq> None) logs of
         Some (Some sid) \<Rightarrow> Ok \<lparr> lr_swap_id = sid, lr_tx_hash = tx \<rparr>
       | _ \<Rightarrow> Err (EthReverted ''no Locked event in receipt''))) }"

definition eth_claim :: "env \<Rightarrow> bytes32 \<Rightarrow> bytes32 \<Rightarrow> bytes32 rio" where
  "eth_claim en swap_id preimage = do {
     resp \<leftarrow> ext (XEthClaim swap_id preimage) (\<lambda>tr. a_eth_claim en tr swap_id preimage);
     ret (map_err EthRpc resp) }"

definition eth_refund :: "env \<Rightarrow> bytes32 \<Rightarrow> bytes32 rio" where
  "eth_refund en swap_id = do {
     resp \<leftarrow> ext (XEthRefund swap_id) (\<lambda>tr. a_eth_refund en tr swap_id);
     ret (map_err EthRpc resp) }"

definition get_htlc :: "env \<Rightarrow> bytes32 \<Rightarrow> eth_htlc rio" where
  "get_htlc en swap_id = do {
     resp \<leftarrow> ext (XEthGet swap_id) (\<lambda>tr. a_eth_get en tr swap_id);
     ret (map_err EthRpc resp) }"

section \<open>The watcher\<close>

definition eth_poll_interval :: nat where "eth_poll_interval = 4000"
definition replay_blocks :: u64 where "replay_blocks = 256"

definition block_number :: "env \<Rightarrow> (string + u64) io" where
  "block_number en = ext XBlockNumber (a_block_number en)"

text \<open>Retry until the head is known; \<open>None\<close> when the rounds are used up.\<close>

fun initial_block :: "nat \<Rightarrow> env \<Rightarrow> u64 option io" where
  "initial_block 0 en = ret None"
| "initial_block (Suc n) en = do {
     r \<leftarrow> block_number en;
     (case r of
        Inr b \<Rightarrow> ret (Some b)
      | Inl e \<Rightarrow> do { sleep eth_poll_interval; initial_block n en }) }"

text \<open>Forward the events in order; \<open>False\<close> when the receiver is gone.\<close>

fun forward_events :: "env \<Rightarrow> eth_watch_event list \<Rightarrow> bool io" where
  "forward_events en [] = ret True"
| "forward_events en (ev # evs) = do {
     sent \<leftarrow> ext (XSendEth ev) (\<lambda>tr. a_send_eth en tr ev);
     if sent then forward_events en evs else ret False }"

datatype batch = BatchSent | BatchFailed | ReceiverGone

text \<open>One of the three log queries of a round, with the forwarding of what it returned.\<close>

definition query_batch :: "env \<Rightarrow> (string + eth_watch_event list) io \<Rightarrow> batch io" where
  "query_batch en query = do {
     r \<leftarrow> query;
     (case r of
        Inl e \<Rightarrow> ret BatchFailed
      | Inr evs \<Rightarrow> do { alive \<leftarrow> forward_events en evs; ret (if alive then BatchSent else ReceiverGone) }) }"

definition query_locked :: "env \<Rightarrow> u64 \<Rightarrow> u64 \<Rightarrow> (string + eth_watch_event list) io" where
  "query_locked en from_block to_block =
     ext (XLockedLogs from_block to_block) (\<lambda>tr. a_locked_logs en tr from_block to_block)"

definition query_claimed :: "env \<Rightarrow> u64 \<Rightarrow> u64 \<Rightarrow> (string + eth_watch_event list) io" where
  "query_claimed en from_block to_block =
     ext (XClaimedLogs from_block to_block) (\<lambda>tr. a_claimed_logs en tr from_block to_block)"

definition query_refunded :: "env \<Rightarrow> u64 \<Rightarrow> u64 \<Rightarrow> (string + eth_watch_event list) io" where
  "query_refunded en from_block to_block =
     ext (XRefundedLogs from_block to_block) (\<lambda>tr. a_refunded_logs en tr from_block to_block)"

text \<open>The three queries over one range: the first failure ends the round.\<close>

fun query_batches :: "env \<Rightarrow> (string + eth_watch_event list) io list \<Rightarrow> batch io" where
  "query_batches en [] = ret BatchSent"
| "query_batches en (q # qs) = do {
     b \<leftarrow> query_batch en q;
     (case b of BatchSent \<Rightarrow> query_batches en qs | _ \<Rightarrow> ret b) }"

fun watch_events_loop :: "nat \<Rightarrow> env \<Rightarrow> u64 \<Rightarrow> unit rio" where
  "watch_events_loop 0 en from_block = ret Pending"
| "watch_events_loop (Suc n) en from_block = do {
     r \<leftarrow> block_number en;
     (case r of
        Inl e \<Rightarrow> do { sleep eth_poll_interval; watch_events_loop n en from_block }
      | Inr latest \<Rightarrow>
          (let to_block = sat_sub latest 1 in
           if from_block \<le> to_block then do {
             b \<leftarrow> query_batches en [query_locked en from_block to_block, query_claimed en from_block to_block,
                                    query_refunded en from_block to_block];
             (case b of
                ReceiverGone \<Rightarrow> ret (Ok ())
              | BatchFailed \<Rightarrow> do { sleep eth_poll_interval; watch_events_loop n en from_block }
              | BatchSent \<Rightarrow> do { sleep eth_poll_interval; watch_events_loop n en (to_block + 1) }) }
           else do { sleep eth_poll_interval; watch_events_loop n en from_block })) }"

definition watch_events :: "nat \<Rightarrow> env \<Rightarrow> unit rio" where
  "watch_events fuel en = do {
     start \<leftarrow> initial_block fuel en;
     (case start of
        None \<Rightarrow> ret Pending
      | Some current_block \<Rightarrow> watch_events_loop fuel en (sat_sub current_block replay_blocks)) }"


section \<open>Running the client\<close>

lemma run_get_htlc [run_simps]:
  "run_state (get_htlc en sid) tr = (map_err EthRpc (a_eth_get en tr sid), tr @ [XEthGet sid (a_eth_get en tr sid)])"
  by (simp add: get_htlc_def run_simps)

lemma emits_get_htlc [emits_intros]: "(\<And>r. P (XEthGet sid r)) \<Longrightarrow> emits P (get_htlc en sid)"
  unfolding get_htlc_def by (intro emits_intros) auto

lemma run_eth_claim [run_simps]:
  "run_state (eth_claim en sid p) tr =
     (map_err EthRpc (a_eth_claim en tr sid p), tr @ [XEthClaim sid p (a_eth_claim en tr sid p)])"
  by (simp add: eth_claim_def run_simps)

lemma emits_verify_version: "(\<And>a r. P (XVersion a r)) \<Longrightarrow> emits P (verify_interface_version en addr)"
  unfolding verify_interface_version_def by (intro emits_intros) simp_all

lemma emits_eth_client_new:
  "(\<And>r. P (XConnect r)) \<Longrightarrow> (\<And>a r. P (XVersion a r)) \<Longrightarrow> (\<And>r. P (XChainId r)) \<Longrightarrow>
   emits P (eth_client_new se en cfg)"
  unfolding eth_client_new_def by (intro emits_intros emits_verify_version) simp_all

section \<open>Running the watcher\<close>

lemma run_block_number [run_simps]:
  "run_state (block_number en) tr = (a_block_number en tr, tr @ [XBlockNumber (a_block_number en tr)])"
  by (simp add: block_number_def run_ext)

text \<open>The three kinds of log query, by number, as the code runs them.\<close>

fun is_logs :: "u64 \<Rightarrow> u64 \<Rightarrow> nat \<Rightarrow> string + eth_watch_event list \<Rightarrow> interaction" where
  "is_logs f t k a = (if k = 0 then XLockedLogs f t a else if k = 1 then XClaimedLogs f t a else XRefundedLogs f t a)"

text \<open>An answered query all of whose events were delivered.\<close>

definition delivered :: "trace \<Rightarrow> u64 \<Rightarrow> u64 \<Rightarrow> nat \<Rightarrow> bool" where
  "delivered tr f t k \<longleftrightarrow>
     (\<exists>evs. is_logs f t k (Inr evs) \<in> set tr \<and> (\<forall>ev\<in>set evs. XSendEth ev True \<in> set tr))"

text \<open>Blocks all of whose logs were read and delivered.\<close>

definition covered :: "trace \<Rightarrow> u64 \<Rightarrow> bool" where
  "covered tr b \<longleftrightarrow> (\<exists>f t. f \<le> b \<and> b \<le> t \<and> delivered tr f t 0 \<and> delivered tr f t 1 \<and> delivered tr f t 2)"

definition sourced :: "trace \<Rightarrow> eth_watch_event \<Rightarrow> bool" where
  "sourced tr ev \<longleftrightarrow> (\<exists>f t k evs. is_logs f t k (Inr evs) \<in> set tr \<and> ev \<in> set evs)"

lemma delivered_append: "delivered tr f t k \<Longrightarrow> delivered (tr @ e) f t k"
  by (auto simp: delivered_def)

lemma covered_append: "covered tr b \<Longrightarrow> covered (tr @ e) b"
  unfolding covered_def using delivered_append by blast

text \<open>The last thing was an event that the receiver did not take.\<close>

definition gone :: "trace \<Rightarrow> bool" where
  "gone e \<longleftrightarrow> (\<exists>e0 ev. e = e0 @ [XSendEth ev False])"

lemma gone_append: "gone e \<Longrightarrow> gone (e' @ e)"
  unfolding gone_def by (metis append_assoc)

lemma forward_events_trace:
  assumes "run_state (forward_events en evs) tr = (alive, tr')"
  obtains e where "tr' = tr @ e" "\<forall>x\<in>set e. \<exists>ev b. x = XSendEth ev b \<and> ev \<in> set evs"
    "alive \<Longrightarrow> \<forall>ev\<in>set evs. XSendEth ev True \<in> set e" "\<not> alive \<Longrightarrow> gone e"
proof -
  from assms have "\<exists>e. tr' = tr @ e \<and> (\<forall>x\<in>set e. \<exists>ev b. x = XSendEth ev b \<and> ev \<in> set evs) \<and>
      (alive \<longrightarrow> (\<forall>ev\<in>set evs. XSendEth ev True \<in> set e)) \<and> (\<not> alive \<longrightarrow> gone e)"
  proof (induction evs arbitrary: tr)
    case (Cons ev evs)
    show ?case
    proof (cases "a_send_eth en tr ev")
      case True
      then have "run_state (forward_events en evs) (tr @ [XSendEth ev True]) = (alive, tr')"
        using Cons.prems by (simp add: run_simps)
      from Cons.IH [OF this] obtain e where "tr' = tr @ XSendEth ev True # e"
        "\<forall>x\<in>set e. \<exists>ev b. x = XSendEth ev b \<and> ev \<in> set evs" "alive \<longrightarrow> (\<forall>ev\<in>set evs. XSendEth ev True \<in> set e)"
        "\<not> alive \<longrightarrow> gone e"
        by auto
      then show ?thesis using gone_append [of e "[XSendEth ev True]"]
        by (intro exI [of _ "XSendEth ev True # e"]) auto
    qed (use Cons.prems in \<open>auto simp: run_simps gone_def\<close>)
  qed simp
  then show thesis using that by blast
qed

text \<open>A query program that asks for one range of one kind.\<close>

definition asks :: "(string + eth_watch_event list) io \<Rightarrow> u64 \<Rightarrow> u64 \<Rightarrow> nat \<Rightarrow> bool" where
  "asks q f t k \<longleftrightarrow> (\<forall>tr. \<exists>a. run_state q tr = (a, tr @ [is_logs f t k a]))"

lemma asks_queries: "asks (query_locked en f t) f t 0" "asks (query_claimed en f t) f t 1"
  "asks (query_refunded en f t) f t 2"
  by (simp_all add: asks_def query_locked_def query_claimed_def query_refunded_def run_ext)

lemma query_batch_trace:
  assumes "asks q f t k" "run_state (query_batch en q) tr = (b, tr')"
  obtains a e where "tr' = tr @ is_logs f t k a # e"
    "\<forall>x\<in>set e. \<exists>ev s. x = XSendEth ev s \<and> sourced [is_logs f t k a] ev"
    "b = BatchSent \<Longrightarrow> delivered (is_logs f t k a # e) f t k" "b = ReceiverGone \<Longrightarrow> gone e"
proof -
  from assms(1) obtain a where q: "run_state q tr = (a, tr @ [is_logs f t k a])" unfolding asks_def by blast
  show thesis
  proof (cases a)
    case (Inl m)
    then show thesis using assms(2) q by (intro that [of a "[]"]) (auto simp: query_batch_def)
  next
    case (Inr evs)
    obtain alive tr2 where fw: "run_state (forward_events en evs) (tr @ [is_logs f t k a]) = (alive, tr2)" by fastforce
    then obtain e where e: "tr2 = (tr @ [is_logs f t k a]) @ e"
      "\<forall>x\<in>set e. \<exists>ev b. x = XSendEth ev b \<and> ev \<in> set evs" "alive \<Longrightarrow> \<forall>ev\<in>set evs. XSendEth ev True \<in> set e"
      "\<not> alive \<Longrightarrow> gone e"
      using forward_events_trace [OF fw] by blast
    have "tr' = tr2" "b = (if alive then BatchSent else ReceiverGone)"
      using assms(2) q Inr fw by (auto simp: query_batch_def)
    moreover have "sourced [is_logs f t k a] ev" if "ev \<in> set evs" for ev
      using that Inr unfolding sourced_def by (metis list.set_intros(1))
    ultimately show thesis using e Inr
      by (intro that [of a e]) (fastforce simp: delivered_def split: if_splits)+
  qed
qed


section \<open>No gap in the watched range\<close>

text \<open>
  \<open>gap_free start us tr\<close>, for a trace \<open>tr\<close> that comes after \<open>us\<close>: whenever the watcher asks for
  the logs of a range, the range ends one block behind a head that it has read, and every block
  from \<open>start\<close> up to that range is covered; and every event it forwards was returned by a query
  before.
\<close>

definition may_ask :: "u64 \<Rightarrow> trace \<Rightarrow> u64 \<Rightarrow> u64 \<Rightarrow> bool" where
  "may_ask start us f t \<longleftrightarrow>
     f \<le> t \<and> (\<exists>head. XBlockNumber (Inr head) \<in> set us \<and> t = sat_sub head 1) \<and>
     (\<forall>b. start \<le> b \<and> b < f \<longrightarrow> covered us b)"

lemma may_ask_append: "may_ask start us f t \<Longrightarrow> may_ask start (us @ e) f t"
  unfolding may_ask_def using covered_append by auto

definition step_ok :: "u64 \<Rightarrow> trace \<Rightarrow> interaction \<Rightarrow> bool" where
  "step_ok start us x \<longleftrightarrow>
     (case x of
        XLockedLogs f t a \<Rightarrow> may_ask start us f t
      | XClaimedLogs f t a \<Rightarrow> may_ask start us f t
      | XRefundedLogs f t a \<Rightarrow> may_ask start us f t
      | XSendEth ev s \<Rightarrow> sourced us ev
      | _ \<Rightarrow> True)"

fun gap_free :: "u64 \<Rightarrow> trace \<Rightarrow> trace \<Rightarrow> bool" where
  "gap_free start us [] = True"
| "gap_free start us (x # xs) \<longleftrightarrow> step_ok start us x \<and> gap_free start (us @ [x]) xs"

lemma gap_free_append:
  "gap_free start us (xs @ ys) \<longleftrightarrow> gap_free start us xs \<and> gap_free start (us @ xs) ys"
  by (induction xs arbitrary: us) auto

lemma sourced_mono: "sourced us ev \<Longrightarrow> set us \<subseteq> set vs \<Longrightarrow> sourced vs ev"
  unfolding sourced_def by blast

lemma delivered_mono: "delivered us f t k \<Longrightarrow> set us \<subseteq> set vs \<Longrightarrow> delivered vs f t k"
  unfolding delivered_def by blast

lemma sourced_append: "sourced us ev \<Longrightarrow> sourced (us @ vs) ev"
  by (rule sourced_mono) auto

lemma gap_free_sends:
  "\<forall>x\<in>set e. \<exists>ev s. x = XSendEth ev s \<and> sourced us ev \<Longrightarrow> gap_free start us e"
proof (induction e arbitrary: us)
  case (Cons x e)
  have "\<forall>x\<in>set e. \<exists>ev s. x = XSendEth ev s \<and> sourced (us @ [x']) ev" for x'
    using Cons.prems by (metis list.set_intros(2) sourced_append)
  then show ?case using Cons by (auto simp: step_ok_def)
qed simp

lemma gap_free_quiet: "list_all (\<lambda>x. \<forall>us. step_ok start us x) e \<Longrightarrow> gap_free start us e"
  by (induction e arbitrary: us) auto

text \<open>The queries of a round, from the one of kind \<open>k\<close> on.\<close>

lemma query_batches_trace:
  assumes "list_all2 (\<lambda>q k. asks q f t k) qs ks" "run_state (query_batches en qs) tr = (b, tr')"
    "may_ask start us f t"
  shows "\<exists>e. tr' = tr @ e \<and> gap_free start us e \<and>
    (b = BatchSent \<longrightarrow> (\<forall>k\<in>set ks. delivered (us @ e) f t k)) \<and> (b = ReceiverGone \<longrightarrow> gone e)"
  using assms
proof (induction qs arbitrary: ks tr us)
  case Nil
  then show ?case by auto
next
  case (Cons q qs)
  from Cons.prems(1) obtain k ks' where ks: "ks = k # ks'" "asks q f t k" "list_all2 (\<lambda>q k. asks q f t k) qs ks'"
    by (auto simp: list_all2_Cons1)
  obtain b1 tr1 where q1: "run_state (query_batch en q) tr = (b1, tr1)" by fastforce
  obtain a e1 where e1: "tr1 = tr @ is_logs f t k a # e1"
    "\<forall>x\<in>set e1. \<exists>ev s. x = XSendEth ev s \<and> sourced [is_logs f t k a] ev"
    "b1 = BatchSent \<Longrightarrow> delivered (is_logs f t k a # e1) f t k" "b1 = ReceiverGone \<Longrightarrow> gone e1"
    using query_batch_trace [OF ks(2) q1] by blast
  let ?l = "is_logs f t k a" let ?us = "us @ ?l # e1"
  have "gap_free start (us @ [?l]) e1"
  proof (rule gap_free_sends)
    show "\<forall>x\<in>set e1. \<exists>ev s. x = XSendEth ev s \<and> sourced (us @ [?l]) ev"
      using e1(2) sourced_mono [of "[?l]" _ "us @ [?l]"] by fastforce
  qed
  moreover have "step_ok start us ?l"
    using Cons.prems(3) by (simp add: step_ok_def)
  ultimately have gf: "gap_free start us (?l # e1)" by simp
  show ?case
  proof (cases "b1 = BatchSent")
    case True
    then have rest: "run_state (query_batches en qs) tr1 = (b, tr')" using Cons.prems(2) q1 by simp
    have "may_ask start ?us f t" by (rule may_ask_append [OF Cons.prems(3)])
    from Cons.IH [OF ks(3) rest this] obtain e where e: "tr' = tr1 @ e" "gap_free start ?us e"
      "b = BatchSent \<longrightarrow> (\<forall>k\<in>set ks'. delivered (?us @ e) f t k)" "b = ReceiverGone \<longrightarrow> gone e" by blast
    have "delivered (?us @ e) f t k" by (rule delivered_mono [OF e1(3) [OF True]]) auto
    then show ?thesis using e e1(1) gf ks(1) gap_free_append [of start us "?l # e1" e] gone_append [of e "?l # e1"]
      by (intro exI [of _ "(?l # e1) @ e"]) auto
  next
    case False
    then have "b = b1" "tr' = tr1" using Cons.prems(2) q1 by (cases b1; simp)+
    then show ?thesis using gf e1(1,4) False gone_append [of e1 "[?l]"] by (intro exI [of _ "?l # e1"]) simp
  qed
qed

lemma range_covered:
  "\<forall>k\<in>set [0, 1, 2]. delivered tr f t k \<Longrightarrow> f \<le> b \<Longrightarrow> b \<le> t \<Longrightarrow> covered tr b"
  unfolding covered_def by (metis list.set_intros)

lemma before_next: "b < t + 1 \<Longrightarrow> b \<le> t" for b t :: u64
  using inc_le linorder_not_le by blast

text \<open>One round of the loop keeps the traces gap free and what lies before the cursor covered.\<close>

lemma watch_events_loop_gap_free:
  assumes "run_state (watch_events_loop n en from_block) (tr @ us) = (r, tr')"
    "\<forall>b. start \<le> b \<and> b < from_block \<longrightarrow> covered us b"
  shows "\<exists>e. tr' = tr @ us @ e \<and> gap_free start us e \<and>
    (case r of Ok u \<Rightarrow> gone e | Pending \<Rightarrow> True | _ \<Rightarrow> False)"
  using assms
proof (induction n arbitrary: us from_block)
  case 0
  then show ?case by (auto intro: exI [of _ "[]"])
next
  case (Suc n)
  let ?h = "XBlockNumber (a_block_number en (tr @ us))" and ?w = "XSleep eth_poll_interval"
  have go: ?case if p: "run_state (watch_events_loop n en from') (tr @ us @ q) = (r, tr')" "gap_free start us q"
    "\<forall>b. start \<le> b \<and> b < from' \<longrightarrow> covered (us @ q) b" for from' q
  proof -
    obtain e where "tr' = tr @ (us @ q) @ e" "gap_free start (us @ q) e"
      "case r of Ok u \<Rightarrow> gone e | Pending \<Rightarrow> True | _ \<Rightarrow> False"
      using Suc.IH [of from' "us @ q"] p(1,3) unfolding append_assoc by blast
    then show ?thesis using p(2) gone_append [of e q]
      by (intro exI [of _ "q @ e"]) (auto simp: gap_free_append split: res.splits)
  qed
  have keep: "\<forall>b. start \<le> b \<and> b < from_block \<longrightarrow> covered (us @ q) b" for q
    using Suc.prems(2) covered_append [of us] by blast
  have quiet: "gap_free start us [?h, ?w]" by (rule gap_free_quiet) (simp add: step_ok_def)
  show ?case
  proof (cases "a_block_number en (tr @ us)")
    case (Inl m)
    then show ?thesis using Suc.prems(1) quiet keep
      by (intro go [of from_block "[?h, ?w]"]) (auto simp: run_simps)
  next
    case (Inr latest)
    let ?to = "sat_sub latest 1"
    show ?thesis
    proof (cases "from_block \<le> ?to")
      case False
      then show ?thesis using Suc.prems(1) quiet keep Inr
        by (intro go [of from_block "[?h, ?w]"]) (auto simp: run_simps Let_def)
    next
      case True
      let ?qs = "[query_locked en from_block ?to, query_claimed en from_block ?to, query_refunded en from_block ?to]"
      obtain b tr2 where qb: "run_state (query_batches en ?qs) (tr @ us @ [?h]) = (b, tr2)" by fastforce
      have "list_all2 (\<lambda>q k. asks q from_block ?to k) ?qs [0, 1, 2]"
        by (simp add: asks_queries del: One_nat_def)
      moreover have "may_ask start (us @ [?h]) from_block ?to"
        using True keep [of "[?h]"] Inr by (auto simp: may_ask_def)
      ultimately obtain e where e: "tr2 = (tr @ us @ [?h]) @ e" "gap_free start (us @ [?h]) e"
        "b = BatchSent \<Longrightarrow> \<forall>k\<in>set [0, 1, 2]. delivered ((us @ [?h]) @ e) from_block ?to k"
        "b = ReceiverGone \<Longrightarrow> gone e"
        using query_batches_trace [OF _ qb] by blast
      have gf: "gap_free start us (?h # e @ [?w])" "gap_free start us (?h # e)"
        using e(2) by (auto simp: step_ok_def gap_free_append)
      have run: "run_state (case b of ReceiverGone \<Rightarrow> ret (Ok ())
          | BatchFailed \<Rightarrow> do { sleep eth_poll_interval; watch_events_loop n en from_block }
          | BatchSent \<Rightarrow> do { sleep eth_poll_interval; watch_events_loop n en (?to + 1) }) tr2 = (r, tr')"
        using Suc.prems(1) Inr True qb by (simp add: run_simps Let_def del: query_batches.simps)
      show ?thesis
      proof (cases b)
        case BatchSent
        have "covered (us @ ?h # e @ [?w]) b'" if "start \<le> b'" "b' < ?to + 1" for b'
        proof (cases "b' < from_block")
          case True
          then show ?thesis using keep that by blast
        next
          case False
          then show ?thesis
            using range_covered [OF e(3) [OF BatchSent]] before_next [OF that(2)]
              covered_append [of "(us @ [?h]) @ e" b' "[?w]"] by auto
        qed
        then show ?thesis using run BatchSent e(1) gf
          by (intro go [of "?to + 1" "?h # e @ [?w]"]) (auto simp: run_simps)
      next
        case BatchFailed
        then show ?thesis using run e(1) gf keep
          by (intro go [of from_block "?h # e @ [?w]"]) (auto simp: run_simps)
      next
        case ReceiverGone
        then show ?thesis using run e(1,4) gf gone_append [of e "[?h]"] by (intro exI [of _ "?h # e"]) auto
      qed
    qed
  qed
qed


text \<open>
  \<open>from_head tr\<close>: until a head is read there are only failed reads of it and waits; from the first
  head on the trace is gap free, and it starts 256 blocks behind that head.
\<close>

fun from_head :: "trace \<Rightarrow> bool" where
  "from_head [] = True"
| "from_head (XBlockNumber r # xs) =
     (case r of Inl e \<Rightarrow> from_head xs | Inr head \<Rightarrow> gap_free (sat_sub head 256) [] xs)"
| "from_head (XSleep d # xs) = from_head xs"
| "from_head (x # xs) = False"

fun before_head :: "interaction \<Rightarrow> bool" where
  "before_head (XBlockNumber (Inl e)) = True"
| "before_head (XSleep d) = True"
| "before_head x = False"

lemma from_head_skip: "list_all before_head q \<Longrightarrow> from_head (q @ xs) = from_head xs"
proof (induction q)
  case (Cons x q)
  then show ?case by (cases x rule: before_head.cases) simp_all
qed simp

lemma initial_block_trace:
  "run_state (initial_block n en) tr = (s, tr1) \<Longrightarrow>
   \<exists>q. list_all before_head q \<and>
       tr1 = tr @ q @ (case s of Some b \<Rightarrow> [XBlockNumber (Inr b)] | None \<Rightarrow> [])"
proof (induction n arbitrary: tr)
  case (Suc n)
  show ?case
  proof (cases "a_block_number en tr")
    case (Inl m)
    let ?q = "[XBlockNumber (Inl m), XSleep eth_poll_interval]"
    have "run_state (initial_block n en) (tr @ ?q) = (s, tr1)"
      using Suc.prems Inl by (simp add: run_simps)
    from Suc.IH [OF this] obtain q where "list_all before_head q"
      "tr1 = (tr @ ?q) @ q @ (case s of Some b \<Rightarrow> [XBlockNumber (Inr b)] | None \<Rightarrow> [])" by blast
    then show ?thesis by (intro exI [of _ "?q @ q"]) auto
  qed (use Suc.prems in \<open>auto simp: run_simps intro!: exI [of _ "[]"]\<close>)
qed (auto intro!: exI [of _ "[]"])

lemma saturating_to_u64_2: "saturating_to_u64 v = 2 \<longleftrightarrow> v = 2"
proof -
  have "unat v < 2 ^ 64 \<Longrightarrow> unat (ucast v :: u64) = unat v" by (simp add: unsigned_ucast_eq take_bit_nat_eq_self)
  then show ?thesis
    by (cases "unat v < 2 ^ 64") (auto simp: saturating_to_u64_def word_unat_eq_iff unat_minus_one_word_max)
qed

section \<open>Properties\<close>

text \<open>
  The version handshake. A client exists exactly when the key parses, the connection
  succeeds, the contract at the configured address answers that its interface version is 2 and
  the chain id is read; and a version skew is reported exactly when the deployment itself
  answered: with another version, or with an error that says the getter is missing.
\<close>

lemma version_handshake:
  "let out = fst (run_state (eth_client_new se en cfg) tr);
       live = (se (eth_private_key cfg) = None \<and> a_connect en tr = Inr ());
       addr = eth_htlc_address cfg;
       answer = a_version en (tr @ [XConnect (Inr ())]) addr in
   (out = Ok c) = (live \<and> answer = Inr 2 \<and> ec_contract c = addr \<and>
      a_chain_id en (tr @ [XConnect (Inr ()), XVersion addr (Inr 2)]) = Inr (ec_chain_id c)) \<and>
   (\<exists>m. out = Err (EthAbiMismatch m)) =
      (live \<and> (case answer of Inr v \<Rightarrow> v \<noteq> 2 | Inl e \<Rightarrow> reads_as_missing_getter e))"
proof -
  let ?answer = "a_version en (tr @ [XConnect (Inr ())]) (eth_htlc_address cfg)"
  consider (key) m where "se (eth_private_key cfg) = Some m"
    | (conn) m where "se (eth_private_key cfg) = None" "a_connect en tr = Inl m"
    | (live) "se (eth_private_key cfg) = None" "a_connect en tr = Inr ()"
    by (cases "se (eth_private_key cfg)"; cases "a_connect en tr") auto
  then show ?thesis
  proof cases
    case live
    show ?thesis
    proof (cases ?answer)
      case (Inl e)
      then show ?thesis using live
        by (auto simp: eth_client_new_def verify_interface_version_def read_version_def judge_version_def run_simps Let_def)
    next
      case (Inr v)
      then show ?thesis using live saturating_to_u64_2 [of v]
        by (cases "v = 2") (auto simp: eth_client_new_def verify_interface_version_def read_version_def judge_version_def run_simps Let_def
            expected_interface_version_def res_bind_Ok_iff map_err_def split: sum.splits)
    qed
  qed (simp_all add: eth_client_new_def run_simps)
qed

text \<open>
  C35. The log watcher leaves no gap. Until it has read a head it does nothing but try and wait. It
  starts 256 blocks behind the first head it read, and from there, whatever the node answers and
  however often queries fail, it asks for the logs of a range of blocks, of whatever kind, only when
  the range ends behind a head it has read and every earlier block is covered: its lock, claim and
  refund logs were read and every event in them was delivered. Every event it forwards was returned
  by a query before. It never fails, and it ends only when its receiver did not take an event.
\<close>

theorem watch_events_no_gap:
  "case run_state (watch_events fuel en) tr of (r, tr') \<Rightarrow>
     \<exists>e. tr' = tr @ e \<and> from_head e \<and> (case r of Ok u \<Rightarrow> gone e | Pending \<Rightarrow> True | _ \<Rightarrow> False)"
proof -
  obtain s tr1 where ib: "run_state (initial_block fuel en) tr = (s, tr1)" by fastforce
  from initial_block_trace [OF ib] obtain q where q: "list_all before_head q"
    "tr1 = tr @ q @ (case s of Some b \<Rightarrow> [XBlockNumber (Inr b)] | None \<Rightarrow> [])" by blast
  show ?thesis
  proof (cases s)
    case None
    then show ?thesis using ib q from_head_skip [OF q(1), of "[]"] by (simp add: watch_events_def)
  next
    case (Some b)
    obtain r tr2 where wl: "run_state (watch_events_loop fuel en (sat_sub b replay_blocks)) (tr1 @ []) = (r, tr2)" by fastforce
    from watch_events_loop_gap_free [OF wl, of "sat_sub b replay_blocks"]
    obtain e where e: "tr2 = tr1 @ e" "gap_free (sat_sub b 256) [] e"
      "case r of Ok u \<Rightarrow> gone e | Pending \<Rightarrow> True | _ \<Rightarrow> False"
      using linorder_not_le by (auto simp: replay_blocks_def)
    then have "from_head (q @ XBlockNumber (Inr b) # e)" using from_head_skip [OF q(1)] by simp
    then show ?thesis using ib Some wl q e gone_append [of e "q @ [XBlockNumber (Inr b)]"]
      by (auto simp: watch_events_def split: res.splits)
  qed
qed

end
