(* ===== verification/Swap_Maker.thy ===== *)
theory Swap_Maker
  imports Lez_Client Eth_Client
begin

text \<open>
  The maker (\<open>src/swap/maker.rs\<close>): the pure decision about a matched ETH lock, the claim of the
  ETH after the preimage is revealed, one swap (\<open>run_maker\<close>) and the auto-accept loop
  (\<open>run_maker_loop\<close>). The spawned watchers run concurrently; what their channels deliver, and
  which branch of a \<open>select!\<close> completes, is any choice of the environment. The journal and the
  ops ledger are called through the trace as well.
\<close>

section \<open>The decision about a candidate\<close>

record loop_guards =
  timelock_margin_secs :: u64
  lez_timelock_secs :: u64

definition fresh_lez_expiry_secs :: "u64 \<Rightarrow> u64 \<Rightarrow> u64" where
  "fresh_lez_expiry_secs now_secs timelock_secs = sat_add now_secs timelock_secs"

definition loop_must_stop_after_iteration :: "bool \<Rightarrow> bool" where
  "loop_must_stop_after_iteration journal_has_in_flight = journal_has_in_flight"

definition eth_timelock_covers_lez :: "u64 \<Rightarrow> u64 \<Rightarrow> u64 \<Rightarrow> bool" where
  "eth_timelock_covers_lez eth_expiry_secs lez_expiry_secs margin_secs \<longleftrightarrow>
     sat_add lez_expiry_secs margin_secs \<le> eth_expiry_secs"

datatype reject_reason = TimelockTooTight | UnusableTakerLezAccount | NotDesignatedTaker

datatype candidate_disposition = Skip | Reject reject_reason | Accept

definition taker_lez_account_is_usable :: "bytes32 \<Rightarrow> bytes32 \<Rightarrow> bool" where
  "taker_lez_account_is_usable taker_lez_account maker_lez_account \<longleftrightarrow>
     taker_lez_account \<noteq> zero32 \<and> taker_lez_account \<noteq> maker_lez_account"

definition designated_lez_claimant :: "bytes32 \<Rightarrow> bytes32 \<Rightarrow> account_id option" where
  "designated_lez_claimant taker_lez_account maker_lez_account =
     (if taker_lez_account_is_usable taker_lez_account maker_lez_account then Some taker_lez_account else None)"

record candidate =
  cand_hashlock :: bytes32
  cand_taker_lez_account :: bytes32
  cand_eth_timelock_secs :: u64

record maker_policy =
  pol_maker_lez_account :: bytes32
  pol_designated_taker :: "bytes32 option"
  pol_lez_expiry_secs :: u64
  pol_margin :: "u64 option"

definition default_timelock_margin_secs :: u64 where
  "default_timelock_margin_secs = 5 * 60"

text \<open>\<open>unwrap_or\<close>.\<close>

definition unwrap_or :: "'a option \<Rightarrow> 'a \<Rightarrow> 'a" where
  "unwrap_or v d = (case v of Some x \<Rightarrow> x | None \<Rightarrow> d)"

definition classify_candidate ::
  "candidate \<Rightarrow> maker_policy \<Rightarrow> bytes32 list \<Rightarrow> bool \<Rightarrow> candidate_disposition" where
  "classify_candidate cand policy rejected in_journal =
     (if cand_hashlock cand \<in> set rejected \<or> in_journal then Skip
      else if \<not> taker_lez_account_is_usable (cand_taker_lez_account cand) (pol_maker_lez_account policy)
      then Reject UnusableTakerLezAccount
      else if (case pol_designated_taker policy of
                 Some designated \<Rightarrow> cand_taker_lez_account cand \<noteq> designated | None \<Rightarrow> False)
      then Reject NotDesignatedTaker
      else if \<not> eth_timelock_covers_lez (cand_eth_timelock_secs cand) (pol_lez_expiry_secs policy)
                (unwrap_or (pol_margin policy) default_timelock_margin_secs)
      then Reject TimelockTooTight
      else Accept)"

section \<open>Claiming ETH\<close>

fun claim_attempts :: "env \<Rightarrow> bytes32 \<Rightarrow> bytes32 \<Rightarrow> nat \<Rightarrow> nat \<Rightarrow> string option \<Rightarrow> bytes32 rio" where
  "claim_attempts en swap_id preimage 0 delay last_err =
     ret (Err (EthClaimUnresolved (unwrap_or last_err ''unknown error'')))"
| "claim_attempts en swap_id preimage (Suc n) delay last_err = do {
     r \<leftarrow> eth_claim en swap_id preimage;
     (case r of
        Ok tx \<Rightarrow> ret (Ok tx)
      | Err e \<Rightarrow> do {
          h \<leftarrow> get_htlc en swap_id;
          if (case h of Ok htlc \<Rightarrow> htlc_swapState htlc = CLAIMED | _ \<Rightarrow> False) then ret (Ok zero32)
          else if 0 < n then do {
            sleep delay;
            claim_attempts en swap_id preimage n (min (delay * 2) 30000) (Some (c_show_error en e)) }
          else claim_attempts en swap_id preimage n delay (Some (c_show_error en e)) }
      | Panic m \<Rightarrow> ret (Panic m)
      | Pending \<Rightarrow> ret Pending) }"

definition claim_eth_after_reveal :: "env \<Rightarrow> bytes32 \<Rightarrow> bytes32 \<Rightarrow> bytes32 rio" where
  "claim_eth_after_reveal en swap_id preimage = claim_attempts en swap_id preimage 6 2000 None"

section \<open>One swap\<close>

text \<open>
  What is fixed during one swap: the environment, the configuration, the clients, whether
  progress is reported, and the guards of loop mode.
\<close>

record maker_run =
  mr_env :: env
  mr_setup :: lez_setup
  mr_signer_err :: "string \<Rightarrow> string option"
  mr_config :: swap_config
  mr_eth :: eth_client
  mr_lez :: lez_client
  mr_progress :: bool
  mr_guards :: "loop_guards option"

record matched_lock =
  ml_swap_id :: bytes32
  ml_hashlock :: bytes32
  ml_lez_expiry_secs :: u64
  ml_lez_claimant :: account_id

definition max_rejected :: nat where "max_rejected = 1024"

definition add_rejected :: "bytes32 \<Rightarrow> bytes32 list \<Rightarrow> bytes32 list" where
  "add_rejected hl rejected = (if length rejected < max_rejected then List.insert hl rejected else rejected)"

text \<open>The absolute LEZ expiry a candidate would be locked with.\<close>

definition lez_expiry_at_match :: "maker_run \<Rightarrow> u64 io" where
  "lez_expiry_at_match m =
     (case mr_guards m of
        Some g \<Rightarrow> do { now \<leftarrow> now_unix (mr_env m); ret (fresh_lez_expiry_secs now (lez_timelock_secs g)) }
      | None \<Rightarrow> ret (lez_timelock (mr_config m)))"

definition journal_contains :: "maker_run \<Rightarrow> bytes32 \<Rightarrow> bool io" where
  "journal_contains m hl =
     (case mr_guards m of
        Some g \<Rightarrow> ext (XContains (c_hex (mr_env m) hl)) (\<lambda>tr. a_contains (mr_env m) tr (c_hex (mr_env m) hl))
      | None \<Rightarrow> ret False)"

definition report_rejection :: "maker_run \<Rightarrow> bytes32 \<Rightarrow> bytes32 \<Rightarrow> u64 \<Rightarrow> u64 \<Rightarrow> reject_reason \<Rightarrow> unit io" where
  "report_rejection m swap_id taker eth_timelock_secs lez_expiry_secs reason =
     (case reason of
        TimelockTooTight \<Rightarrow>
          report (mr_progress m) (EthLockRejected (c_show32 (mr_env m) swap_id) eth_timelock_secs
            (sat_add lez_expiry_secs (unwrap_or (map_option timelock_margin_secs (mr_guards m))
               default_timelock_margin_secs)))
      | _ \<Rightarrow>
          report (mr_progress m) (EthLockRejectedTakerAccount (c_show32 (mr_env m) swap_id)
            (c_hex (mr_env m) taker)
            (if reason = UnusableTakerLezAccount then ''unusable takerLezAccount''
             else ''not the designated counterparty this maker serves'')))"

text \<open>
  An accepted candidate: resolve the claimant, skip a lock that is readably not open, and take it.
  \<open>Inl\<close> is \<open>continue\<close> with the rejected set, \<open>Inr\<close> the \<open>break\<close> out of the loop.
\<close>

definition take_candidate ::
  "maker_run \<Rightarrow> bytes32 list \<Rightarrow> bytes32 \<Rightarrow> bytes32 \<Rightarrow> bytes32 \<Rightarrow> bytes32 \<Rightarrow> u64 \<Rightarrow>
     (bytes32 list + matched_lock) io" where
  "take_candidate m rejected swap_id hl taker tx_hash lez_expiry_secs =
     (case designated_lez_claimant taker (lc_account_id (mr_lez m)) of
        None \<Rightarrow> ret (Inl (add_rejected hl rejected))
      | Some lez_claimant \<Rightarrow> do {
          h \<leftarrow> get_htlc (mr_env m) swap_id;
          if (case h of Ok htlc \<Rightarrow> htlc_swapState htlc \<noteq> OPEN | _ \<Rightarrow> False) then ret (Inl rejected)
          else do {
            report (mr_progress m) (EthLockDetected (c_show32 (mr_env m) swap_id) (c_hex (mr_env m) hl)
              (c_hex (mr_env m) taker) (c_show32 (mr_env m) tx_hash) (ec_chain_id (mr_eth m)));
            ret (Inr \<lparr> ml_swap_id = swap_id, ml_hashlock = hl, ml_lez_expiry_secs = lez_expiry_secs,
                       ml_lez_claimant = lez_claimant \<rparr>) } })"

definition policy_of :: "maker_run \<Rightarrow> u64 \<Rightarrow> maker_policy" where
  "policy_of m lez_expiry_secs = \<lparr> pol_maker_lez_account = lc_account_id (mr_lez m),
     pol_designated_taker = lez_taker_account_id (mr_config m), pol_lez_expiry_secs = lez_expiry_secs,
     pol_margin = map_option timelock_margin_secs (mr_guards m) \<rparr>"

definition event_matches :: "maker_run \<Rightarrow> bytes32 option \<Rightarrow> address \<Rightarrow> u256 \<Rightarrow> bytes32 \<Rightarrow> bool" where
  "event_matches m hashlock recipient amount hl \<longleftrightarrow>
     (case hashlock of Some want \<Rightarrow> hl = want | None \<Rightarrow> True) \<and>
     recipient = eth_recipient_address (mr_config m) \<and> ucast (eth_amount (mr_config m)) \<le> amount"

definition on_eth_event ::
  "maker_run \<Rightarrow> bytes32 option \<Rightarrow> bytes32 list \<Rightarrow> eth_watch_event \<Rightarrow> (bytes32 list + matched_lock) io" where
  "on_eth_event m hashlock rejected ev =
     (case ev of
        WatchLocked swap_id sender recipient amount hl event_timelock taker tx_hash \<Rightarrow>
          if event_matches m hashlock recipient amount hl then do {
            lez_expiry_secs \<leftarrow> lez_expiry_at_match m;
            in_journal \<leftarrow> journal_contains m hl;
            (let eth_timelock_secs = saturating_to_u64 event_timelock in
             case classify_candidate
                    \<lparr> cand_hashlock = hl, cand_taker_lez_account = taker,
                      cand_eth_timelock_secs = eth_timelock_secs \<rparr>
                    (policy_of m lez_expiry_secs) rejected in_journal of
               Skip \<Rightarrow> ret (Inl rejected)
             | Reject reason \<Rightarrow> do {
                 report_rejection m swap_id taker eth_timelock_secs lez_expiry_secs reason;
                 ret (Inl (add_rejected hl rejected)) }
             | Accept \<Rightarrow> take_candidate m rejected swap_id hl taker tx_hash lez_expiry_secs) }
          else ret (Inl rejected)
      | _ \<Rightarrow> ret (Inl rejected))"

text \<open>
  The \<open>select!\<close> of the waiting loop: an event, the expiry of the configured ETH time lock, or,
  when there is a cancel flag, the flag being set.
\<close>

definition select_eth :: "env \<Rightarrow> bool \<Rightarrow> u64 \<Rightarrow> eth_select io" where
  "select_eth en can_cancel secs = ext (XEthSelect secs) (\<lambda>tr.
     case a_eth_select en tr secs of
       SelEthCancel \<Rightarrow> if can_cancel then SelEthCancel else SelEthTimeout
     | answer \<Rightarrow> answer)"

fun match_loop ::
  "nat \<Rightarrow> maker_run \<Rightarrow> bytes32 option \<Rightarrow> bool \<Rightarrow> bytes32 list \<Rightarrow> (swap_outcome + matched_lock) rio" where
  "match_loop 0 m hashlock can_cancel rejected = ret Pending"
| "match_loop (Suc n) m hashlock can_cancel rejected = do {
     now \<leftarrow> now_unix (mr_env m);
     sel \<leftarrow> select_eth (mr_env m) can_cancel (sat_sub (eth_timelock (mr_config m)) now);
     (case sel of
        SelEthEvent ev \<Rightarrow> do {
          r \<leftarrow> on_eth_event m hashlock rejected ev;
          (case r of
             Inl rejected' \<Rightarrow> match_loop n m hashlock can_cancel rejected'
           | Inr ml \<Rightarrow> ret (Ok (Inr ml))) }
      | SelEthTimeout \<Rightarrow> do {
          report (mr_progress m) TimelockExpired;
          ret (Ok (Inl (OutcomeRefunded None None))) }
      | SelEthCancel \<Rightarrow> ret (Err Cancelled)) }"

text \<open>The durable record of the swap before any LEZ moves, in loop mode.\<close>

definition journal_match :: "maker_run \<Rightarrow> matched_lock \<Rightarrow> unit rio" where
  "journal_match m ml =
     (let en = mr_env m; hx = c_hex en (ml_hashlock ml); sid = c_show32 en (ml_swap_id ml) in
      case mr_guards m of
        Some g \<Rightarrow>
          tryM (ext (XRecord hx sid) (\<lambda>tr. a_record en tr hx sid)) (\<lambda>_. do {
            ext (\<lambda>_. XOpsAccepted hx sid) (\<lambda>_. ());
            ret (Ok ()) })
      | None \<Rightarrow> ret (Ok ()))"

definition when_loop :: "maker_run \<Rightarrow> interaction list \<Rightarrow> unit io" where
  "when_loop m xs =
     (case mr_guards m of
        Some g \<Rightarrow> State (\<lambda>tr. ((), tr @ xs))
      | None \<Rightarrow> ret ())"

text \<open>Lock LEZ for the taker's own account; afterwards mark the journal entry as funded.\<close>

definition lock_lez :: "nat \<Rightarrow> maker_run \<Rightarrow> matched_lock \<Rightarrow> string rio" where
  "lock_lez fuel m ml = do {
     report (mr_progress m) LezLocking;
     tryM (lez_lock fuel (mr_env m) (mr_lez m) (ml_hashlock ml) (ml_lez_claimant ml)
             (lez_amount (mr_config m)) (ml_lez_expiry_secs ml)) (\<lambda>lez_lock_tx. do {
       when_loop m [XFunded (c_hex (mr_env m) (ml_hashlock ml))];
       report (mr_progress m) (LezLocked lez_lock_tx);
       ret (Ok lez_lock_tx) }) }"

text \<open>Step 4: claim the ETH with the preimage, then clear the journal and record the completion.\<close>

definition settle_eth :: "maker_run \<Rightarrow> matched_lock \<Rightarrow> string \<Rightarrow> bytes32 \<Rightarrow> swap_outcome rio" where
  "settle_eth m ml lez_lock_tx preimage =
     (let en = mr_env m; hx = c_hex en (ml_hashlock ml) in do {
       report (mr_progress m) ClaimingEth;
       tryM (claim_eth_after_reveal en (ml_swap_id ml) preimage) (\<lambda>eth_claim_tx. do {
         report (mr_progress m) (EthClaimed (c_show32 en eth_claim_tx));
         when_loop m [XClear hx, XOpsTerminal hx RsCompleted];
         ret (Ok (Completed preimage eth_claim_tx lez_lock_tx)) }) })"

text \<open>The LEZ time lock expired: a confirmed refund, or the taker won the race.\<close>

definition refund_or_settle :: "nat \<Rightarrow> maker_run \<Rightarrow> matched_lock \<Rightarrow> string \<Rightarrow> swap_outcome rio" where
  "refund_or_settle fuel m ml lez_lock_tx =
     (let en = mr_env m; hx = c_hex en (ml_hashlock ml) in do {
       report (mr_progress m) TimelockExpired;
       report (mr_progress m) Refunding;
       tryM (refund_confirmed fuel en (mr_lez m) (ml_hashlock ml)) (\<lambda>out.
         case out of
           RoRefunded tx \<Rightarrow> do {
             report (mr_progress m) RefundComplete;
             when_loop m [XClear hx, XOpsTerminal hx RsRefunded];
             ret (Ok (OutcomeRefunded None (if tx = [] then None else Some tx))) }
         | RoClaimedByTaker preimage \<Rightarrow> do {
             report (mr_progress m) (PreimageRevealed (c_hex en preimage));
             settle_eth m ml lez_lock_tx preimage }) })"

fun await_claim :: "nat \<Rightarrow> nat \<Rightarrow> maker_run \<Rightarrow> matched_lock \<Rightarrow> string \<Rightarrow> swap_outcome rio" where
  "await_claim fuel 0 m ml lez_lock_tx = ret Pending"
| "await_claim fuel (Suc n) m ml lez_lock_tx = do {
     now \<leftarrow> now_unix (mr_env m);
     sel \<leftarrow> (let secs = sat_sub (ml_lez_expiry_secs ml) now in
             ext (XLezSelect secs) (\<lambda>tr. a_lez_select (mr_env m) tr secs));
     (case sel of
        SelLezEvent (LezClaimedEv pda preimage) \<Rightarrow>
          if length preimage = 32 then do {
            report (mr_progress m) (PreimageRevealed (c_hex (mr_env m) preimage));
            settle_eth m ml lez_lock_tx preimage }
          else ret (Err (InvalidState ''32-byte preimage'' ''wrong length''))
      | SelLezEvent (LezRefundedEv pda) \<Rightarrow> do {
          when_loop m [XClear (c_hex (mr_env m) (ml_hashlock ml)),
                       XOpsTerminal (c_hex (mr_env m) (ml_hashlock ml)) RsRefunded];
          ret (Ok (OutcomeRefunded None (Some lez_lock_tx))) }
      | SelLezEvent (LezLockedEv pda) \<Rightarrow> await_claim fuel n m ml lez_lock_tx
      | SelLezTimeout \<Rightarrow> refund_or_settle fuel m ml lez_lock_tx) }"

text \<open>Steps 2 to 4, after the journal entry: lock LEZ, then watch the escrow until the swap is settled.\<close>

definition serve :: "nat \<Rightarrow> maker_run \<Rightarrow> matched_lock \<Rightarrow> swap_outcome rio" where
  "serve fuel m ml =
     tryM (lock_lez fuel m ml) (\<lambda>lez_lock_tx. do {
       report (mr_progress m) WaitingForPreimage;
       tryM (ret (lez_client_new (mr_setup m) (mr_config m))) (\<lambda>watcher_lez_client.
         await_claim fuel fuel m ml lez_lock_tx) })"

definition run_maker :: "nat \<Rightarrow> maker_run \<Rightarrow> bytes32 option \<Rightarrow> bool \<Rightarrow> swap_outcome rio" where
  "run_maker fuel m hashlock can_cancel = do {
     report (mr_progress m) WaitingForEthLock;
     tryM (eth_client_new (mr_signer_err m) (mr_env m) (mr_config m)) (\<lambda>watcher_eth_client.
       tryM (match_loop fuel m hashlock can_cancel []) (\<lambda>found.
         case found of
           Inl out \<Rightarrow> ret (Ok out)
         | Inr ml \<Rightarrow>
             tryM (journal_match m ml) (\<lambda>_. serve fuel m ml))) }"


section \<open>The auto-accept loop\<close>

record auto_accept_config =
  aa_lez_timelock_minutes :: u64
  aa_eth_timelock_minutes :: u64

record loop_counters =
  total_completed :: u32
  total_failed :: u32
  total_transient_errors :: u32
  loop_iteration :: u32

record maker_loop =
  ml_env :: env
  ml_setup :: lez_setup
  ml_signer_err :: "string \<Rightarrow> string option"
  ml_base_config :: swap_config
  ml_auto_config :: auto_accept_config
  ml_progress :: bool
  ml_margin_secs :: u64

definition insufficient_funds_retry_delay :: nat where "insufficient_funds_retry_delay = 30000"

text \<open>Count a failure, report it; \<open>True\<close> stops the loop.\<close>

definition iteration_failed :: "maker_loop \<Rightarrow> loop_counters \<Rightarrow> string \<Rightarrow> loop_counters io" where
  "iteration_failed l k msg = do {
     report (ml_progress l) (AutoAcceptSwapFailed (loop_iteration k) msg);
     ret (k\<lparr>total_failed := total_failed k + 1\<rparr>) }"

definition loop_guards_of :: "maker_loop \<Rightarrow> loop_guards" where
  "loop_guards_of l = \<lparr> timelock_margin_secs = ml_margin_secs l,
     lez_timelock_secs = aa_lez_timelock_minutes (ml_auto_config l) * 60 \<rparr>"

definition run_of :: "maker_loop \<Rightarrow> swap_config \<Rightarrow> eth_client \<Rightarrow> lez_client \<Rightarrow> maker_run" where
  "run_of l cfg ec lc = \<lparr> mr_env = ml_env l, mr_setup = ml_setup l, mr_signer_err = ml_signer_err l,
     mr_config = cfg, mr_eth = ec, mr_lez = lc, mr_progress = ml_progress l,
     mr_guards = Some (loop_guards_of l) \<rparr>"

text \<open>
  One swap of the loop and what follows it: the outcome is counted and reported, and unless the
  swap was cancelled the journal decides whether the loop stops.
\<close>

definition accept_swap ::
  "nat \<Rightarrow> maker_loop \<Rightarrow> swap_config \<Rightarrow> eth_client \<Rightarrow> lez_client \<Rightarrow> loop_counters \<Rightarrow> (bool \<times> loop_counters) rio" where
  "accept_swap fuel l cfg ec lc k =
     (let after = (\<lambda>k'. do {
            busy \<leftarrow> ext XBusy (a_busy (ml_env l));
            if loop_must_stop_after_iteration busy then do {
              report (ml_progress l) (AutoAcceptSwapFailed (loop_iteration k')
                ''in-flight journal entry unresolved after swap - stopping loop for supervised restart'');
              ret (Ok (True, k')) }
            else ret (Ok (False, k')) }) in do {
      out \<leftarrow> run_maker fuel (run_of l cfg ec lc) None True;
      (case out of
         Ok (Completed preimage eth_tx lez_tx) \<Rightarrow> do {
           report (ml_progress l) (AutoAcceptSwapCompleted (loop_iteration k) ''completed'');
           after (k\<lparr>total_completed := total_completed k + 1\<rparr>) }
       | Ok (OutcomeRefunded eth_refund_tx lez_refund_tx) \<Rightarrow> do {
           k' \<leftarrow> iteration_failed l k ''swap refunded (taker timed out)'';
           after k' }
       | Err e \<Rightarrow>
           if e = Cancelled then do { report (ml_progress l) AutoAcceptCancelled; ret (Ok (True, k)) }
           else do { k' \<leftarrow> iteration_failed l k (c_show_error (ml_env l) e); after k' }
       | Panic msg \<Rightarrow> ret (Panic msg)
       | Pending \<Rightarrow> ret Pending) })"

text \<open>One iteration after the cancel check; \<open>True\<close> is the \<open>break\<close>.\<close>

definition maker_iteration :: "nat \<Rightarrow> maker_loop \<Rightarrow> loop_counters \<Rightarrow> (bool \<times> loop_counters) rio" where
  "maker_iteration fuel l k0 =
     (let en = ml_env l; base = ml_base_config l; k = k0\<lparr>loop_iteration := loop_iteration k0 + 1\<rparr>;
          retry_later = (\<lambda>delay k'. do { sleep delay; ret (Ok (False, k')) }) in do {
      now \<leftarrow> now_unix en;
      (let cfg = with_fresh_timelocks now base (aa_lez_timelock_minutes (ml_auto_config l))
                   (aa_eth_timelock_minutes (ml_auto_config l)) in
       case lez_client_new (ml_setup l) cfg of
         Err e \<Rightarrow> do {
           k' \<leftarrow> iteration_failed l k (''LEZ client init failed: '' @ c_show_error en e);
           retry_later (poll_interval base) k' }
       | Panic msg \<Rightarrow> ret (Panic msg)
       | Pending \<Rightarrow> ret Pending
       | Ok lc \<Rightarrow> do {
           (balance_read, transient') \<leftarrow> get_balance_with_retry en (lc_account_id lc)
             (counting (ml_progress l) (\<lambda>e. AutoAcceptTransientError (loop_iteration k)
                (''balance check: '' @ c_show_error en e))) (total_transient_errors k);
           (let k = k\<lparr>total_transient_errors := transient'\<rparr> in
            case balance_read of
              Err e \<Rightarrow> retry_later (poll_interval base) k
            | Panic msg \<Rightarrow> ret (Panic msg)
            | Pending \<Rightarrow> ret Pending
            | Ok balance \<Rightarrow>
                if balance < lez_amount cfg then do {
                  report (ml_progress l) (AutoAcceptInsufficientFunds (show_nat (unat balance))
                    (show_nat (unat (lez_amount cfg))));
                  retry_later insufficient_funds_retry_delay k }
                else do {
                  report (ml_progress l) (AutoAcceptIteration (loop_iteration k));
                  ec \<leftarrow> eth_client_new (ml_signer_err l) en cfg;
                  (case ec of
                     Err e \<Rightarrow> do {
                       k' \<leftarrow> iteration_failed l k (''ETH client init failed: '' @ c_show_error en e);
                       retry_later (poll_interval base) k' }
                   | Panic msg \<Rightarrow> ret (Panic msg)
                   | Pending \<Rightarrow> ret Pending
                   | Ok ec \<Rightarrow> accept_swap fuel l cfg ec lc k) }) }) })"

fun maker_iterations :: "nat \<Rightarrow> nat \<Rightarrow> maker_loop \<Rightarrow> loop_counters \<Rightarrow> loop_counters rio" where
  "maker_iterations fuel 0 l k = ret Pending"
| "maker_iterations fuel (Suc n) l k = do {
     cancelled \<leftarrow> ext XCancelled (a_cancelled (ml_env l));
     if cancelled then do { report (ml_progress l) AutoAcceptCancelled; ret (Ok k) }
     else tryM (maker_iteration fuel l k) (\<lambda>(stop, k').
            if stop then ret (Ok k') else maker_iterations fuel n l k') }"

definition run_maker_loop :: "nat \<Rightarrow> nat \<Rightarrow> maker_loop \<Rightarrow> loop_counters rio" where
  "run_maker_loop rounds fuel l = do {
     report (ml_progress l) AutoAcceptStarted;
     tryM (maker_iterations fuel rounds l
             \<lparr> total_completed = 0, total_failed = 0, total_transient_errors = 0, loop_iteration = 0 \<rparr>) (\<lambda>k. do {
       report (ml_progress l) (AutoAcceptStopped (total_completed k) (total_failed k) (total_transient_errors k));
       ret (Ok k) }) }"

section \<open>Manual refunds\<close>

definition refund_lez :: "env \<Rightarrow> lez_client \<Rightarrow> bytes32 \<Rightarrow> u64 \<Rightarrow> string rio" where
  "refund_lez en c hashlock timelock = do {
     now \<leftarrow> now_unix en;
     tryM (ret (check_lez_timelock now timelock)) (\<lambda>_. lez_refund en c hashlock) }"

definition refund_eth :: "env \<Rightarrow> bytes32 \<Rightarrow> bytes32 rio" where
  "refund_eth en swap_id = eth_refund en swap_id"


section \<open>Facts about the decision\<close>

lemma saturating_to_u64_le: "unat (saturating_to_u64 v) \<le> unat v"
  by (auto simp: saturating_to_u64_def unsigned_ucast_eq take_bit_nat_eq_self unat_minus_one_word_max)

lemma unat_ucast_up: "unat (ucast (w :: u128) :: u256) = unat w"
  by (simp add: unsigned_ucast_eq take_bit_nat_eq_self unat_less_pow [THEN order_less_le_trans])

lemma classify_Accept_iff:
  "classify_candidate cand policy rejected in_journal = Accept \<longleftrightarrow>
     \<not> in_journal \<and> cand_hashlock cand \<notin> set rejected \<and>
     taker_lez_account_is_usable (cand_taker_lez_account cand) (pol_maker_lez_account policy) \<and>
     (\<forall>d. pol_designated_taker policy = Some d \<longrightarrow> cand_taker_lez_account cand = d) \<and>
     eth_timelock_covers_lez (cand_eth_timelock_secs cand) (pol_lez_expiry_secs policy)
       (unwrap_or (pol_margin policy) default_timelock_margin_secs)"
  by (auto simp: classify_candidate_def split: option.splits)

lemma covers_unat:
  "eth_timelock_covers_lez a b c \<longleftrightarrow> min (unat b + unat c) (2 ^ 64 - 1) \<le> unat a"
  by (simp add: eth_timelock_covers_lez_def word_le_nat_alt unat_sat_add)

section \<open>What a matched lock is backed by\<close>

definition margin_of :: "maker_run \<Rightarrow> u64" where
  "margin_of m = unwrap_or (map_option timelock_margin_secs (mr_guards m)) default_timelock_margin_secs"

text \<open>
  The expiry was computed at match time from a clock that was read, and the journal said that the
  hash lock is not in flight (loop mode); without the guards it is the configured one.
\<close>

definition expiry_source :: "maker_run \<Rightarrow> trace \<Rightarrow> matched_lock \<Rightarrow> bool" where
  "expiry_source m us ml \<longleftrightarrow>
     (case mr_guards m of
        Some g \<Rightarrow> (\<exists>now. XNow now \<in> set us \<and> ml_lez_expiry_secs ml = sat_add now (lez_timelock_secs g)) \<and>
                   XContains (c_hex (mr_env m) (ml_hashlock ml)) False \<in> set us
      | None \<Rightarrow> ml_lez_expiry_secs ml = lez_timelock (mr_config m))"

text \<open>The lock event: to the maker's address, of at least its amount, outlasting the LEZ expiry by the margin.\<close>

definition lock_seen :: "maker_run \<Rightarrow> trace \<Rightarrow> matched_lock \<Rightarrow> bool" where
  "lock_seen m us ml \<longleftrightarrow>
     (\<exists>secs sender amount tl tx.
        XEthSelect secs (SelEthEvent (WatchLocked (ml_swap_id ml) sender (eth_recipient_address (mr_config m))
          amount (ml_hashlock ml) tl (ml_lez_claimant ml) tx)) \<in> set us \<and>
        unat (eth_amount (mr_config m)) \<le> unat amount \<and>
        min (unat (ml_lez_expiry_secs ml) + unat (margin_of m)) (2 ^ 64 - 1) \<le> unat tl)"

text \<open>The lock was looked up, and was open if the lookup succeeded.\<close>

definition looked_up :: "trace \<Rightarrow> matched_lock \<Rightarrow> bool" where
  "looked_up us ml \<longleftrightarrow>
     (\<exists>r. XEthGet (ml_swap_id ml) r \<in> set us \<and> (case r of Inr h \<Rightarrow> htlc_swapState h = OPEN | Inl _ \<Rightarrow> True))"

definition justified :: "maker_run \<Rightarrow> trace \<Rightarrow> matched_lock \<Rightarrow> bool" where
  "justified m us ml \<longleftrightarrow>
     lock_seen m us ml \<and> looked_up us ml \<and> expiry_source m us ml \<and>
     taker_lez_account_is_usable (ml_lez_claimant ml) (lc_account_id (mr_lez m)) \<and>
     (\<forall>d. lez_taker_account_id (mr_config m) = Some d \<longrightarrow> ml_lez_claimant ml = d)"

lemma justified_mono:
  assumes "justified m us ml" "set us \<subseteq> set vs"
  shows "justified m vs ml"
proof -
  have "lock_seen m vs ml" using assms unfolding justified_def lock_seen_def by blast
  moreover have "looked_up vs ml" using assms unfolding justified_def looked_up_def by blast
  moreover have "expiry_source m vs ml" using assms unfolding justified_def expiry_source_def
    by (auto split: option.splits)
  ultimately show ?thesis using assms(1) by (simp add: justified_def)
qed

lemma emits_take_candidate: "emits quiet (take_candidate m rej sid hl taker tx ex)"
  unfolding take_candidate_def by (intro emits_intros) simp_all

lemma take_candidate_Inr:
  assumes "run_state (take_candidate m rej sid hl taker tx ex) tr = (Inr ml, tr')"
  shows "ml = \<lparr> ml_swap_id = sid, ml_hashlock = hl, ml_lez_expiry_secs = ex, ml_lez_claimant = taker \<rparr>"
    "\<exists>r e. tr' = tr @ XEthGet sid r # e \<and> (case r of Inr h \<Rightarrow> htlc_swapState h = OPEN | Inl _ \<Rightarrow> True)"
  using assms
  by (auto simp: take_candidate_def designated_lez_claimant_def run_simps map_err_def
      split: if_splits sum.splits res.splits)

lemma emits_lez_expiry: "emits quiet (lez_expiry_at_match m)"
  unfolding lez_expiry_at_match_def by (intro emits_intros) simp_all

lemma emits_journal_contains: "emits quiet (journal_contains m hl)"
  unfolding journal_contains_def by (intro emits_intros) simp_all

lemma emits_report_rejection: "emits quiet (report_rejection m sid taker a b reason)"
  unfolding report_rejection_def by (cases reason) (simp_all add: emits_report)

lemma emits_on_eth_event: "emits quiet (on_eth_event m hashlock rej ev)"
  unfolding on_eth_event_def Let_def
  by (cases ev)
    (auto intro!: emits_intros emits_lez_expiry emits_journal_contains emits_report_rejection emits_take_candidate
      split: candidate_disposition.splits)


text \<open>The trace of a matching event, decision by decision.\<close>

lemma run_lez_expiry:
  assumes "run_state (lez_expiry_at_match m) tr = (ex, tr1)"
  shows "\<exists>e. tr1 = tr @ e \<and> (case mr_guards m of
     Some g \<Rightarrow> \<exists>now. XNow now \<in> set e \<and> ex = sat_add now (lez_timelock_secs g)
   | None \<Rightarrow> ex = lez_timelock (mr_config m))"
  using assms
  by (auto simp: lez_expiry_at_match_def fresh_lez_expiry_secs_def run_simps split: option.splits)

lemma run_journal_contains:
  assumes "run_state (journal_contains m hl) tr = (b, tr1)"
  shows "\<exists>e. tr1 = tr @ e \<and> (mr_guards m \<noteq> None \<longrightarrow> XContains (c_hex (mr_env m) hl) b \<in> set e)"
  using assms by (auto simp: journal_contains_def run_simps split: option.splits)

lemma on_eth_event_justified:
  assumes run: "run_state (on_eth_event m hashlock rej ev) tr = (Inr ml, tr')"
  shows "\<exists>e. tr' = tr @ e \<and> justified m (XEthSelect secs (SelEthEvent ev) # e) ml"
proof (cases ev)
  case (WatchLocked sid sender rcp amount hl tl taker tx)
  obtain ex tr1 where r1: "run_state (lez_expiry_at_match m) tr = (ex, tr1)" by fastforce
  obtain b tr2 where r2: "run_state (journal_contains m hl) tr1 = (b, tr2)" by fastforce
  let ?cand = "\<lparr> cand_hashlock = hl, cand_taker_lez_account = taker, cand_eth_timelock_secs = saturating_to_u64 tl \<rparr>"
  have em: "event_matches m hashlock rcp amount hl"
    using run WatchLocked by (auto simp: on_eth_event_def split: if_splits)
  have acc: "classify_candidate ?cand (policy_of m ex) rej b = Accept"
    using run WatchLocked em r1 r2
    by (auto simp: on_eth_event_def Let_def split: candidate_disposition.splits prod.splits)
  have run3: "run_state (take_candidate m rej sid hl taker tx ex) tr2 = (Inr ml, tr')"
    using run WatchLocked em acc r1 r2 by (simp add: on_eth_event_def Let_def)
  from run_lez_expiry [OF r1] obtain e1 where e1: "tr1 = tr @ e1" "case mr_guards m of
     Some g \<Rightarrow> \<exists>now. XNow now \<in> set e1 \<and> ex = sat_add now (lez_timelock_secs g)
   | None \<Rightarrow> ex = lez_timelock (mr_config m)" by blast
  from run_journal_contains [OF r2] obtain e2 where e2: "tr2 = tr1 @ e2"
    "mr_guards m \<noteq> None \<longrightarrow> XContains (c_hex (mr_env m) hl) b \<in> set e2" by blast
  from take_candidate_Inr [OF run3] obtain r e3 where e3:
    "ml = \<lparr> ml_swap_id = sid, ml_hashlock = hl, ml_lez_expiry_secs = ex, ml_lez_claimant = taker \<rparr>"
    "tr' = tr2 @ XEthGet sid r # e3" "case r of Inr h \<Rightarrow> htlc_swapState h = OPEN | Inl _ \<Rightarrow> True" by blast
  let ?e = "e1 @ e2 @ XEthGet sid r # e3" and ?x = "XEthSelect secs (SelEthEvent ev)"
  note acc' = acc [unfolded classify_Accept_iff, simplified]
  have "looked_up (?x # ?e) ml" using e3 by (auto simp: looked_up_def)
  moreover have "lock_seen m (?x # ?e) ml"
  proof -
    have "unat (eth_amount (mr_config m)) \<le> unat amount" "rcp = eth_recipient_address (mr_config m)"
      using em by (simp_all add: event_matches_def word_le_nat_alt unat_ucast_up)
    moreover have "min (unat ex + unat (margin_of m)) (2 ^ 64 - 1) \<le> unat tl"
      using acc' saturating_to_u64_le [of tl]
      by (simp add: covers_unat policy_of_def margin_of_def)
    ultimately show ?thesis using WatchLocked e3(1) unfolding lock_seen_def
      by (intro exI [of _ secs] exI [of _ sender] exI [of _ amount] exI [of _ tl] exI [of _ tx]) simp
  qed
  moreover have "expiry_source m (?x # ?e) ml" using e1(2) e2(2) e3(1) acc'
    by (auto simp: expiry_source_def split: option.splits)
  ultimately show ?thesis using acc' e1(1) e2(1) e3(1,2)
    by (intro exI [of _ ?e]) (auto simp: justified_def policy_of_def)
qed (use run in \<open>auto simp: on_eth_event_def\<close>)

lemma run_select_eth [run_simps]:
  "run_state (select_eth en b secs) tr =
     (let sel = (case a_eth_select en tr secs of SelEthCancel \<Rightarrow> if b then SelEthCancel else SelEthTimeout | a \<Rightarrow> a)
      in (sel, tr @ [XEthSelect secs sel]))"
  by (simp add: select_eth_def run_simps Let_def)

lemma emits_select_eth: "(\<And>a. P (XEthSelect secs a)) \<Longrightarrow> emits P (select_eth en b secs)"
  by (simp add: select_eth_def emits_ext)

lemma emits_case_eth_select:
  "(\<And>ev. emits P (f ev)) \<Longrightarrow> emits P a \<Longrightarrow> emits P b \<Longrightarrow>
   emits P (case sel of SelEthEvent ev \<Rightarrow> f ev | SelEthTimeout \<Rightarrow> a | SelEthCancel \<Rightarrow> b)"
  by (cases sel) auto

lemma emits_match_loop: "emits quiet (match_loop n m hashlock cc rej)"
proof (induction n arbitrary: rej)
  case (Suc n)
  show ?case unfolding match_loop.simps
    by (intro emits_intros emits_select_eth emits_case_eth_select emits_on_eth_event Suc.IH) simp_all
qed (simp add: emits_ret)

lemma match_loop_justified:
  "run_state (match_loop n m hashlock cc rej) tr = (Ok (Inr ml), tr') \<Longrightarrow>
   \<exists>e. tr' = tr @ e \<and> justified m e ml"
proof (induction n arbitrary: rej tr)
  case (Suc n)
  let ?now = "a_now (mr_env m) tr" let ?tr1 = "tr @ [XNow ?now]"
  let ?secs = "sat_sub (eth_timelock (mr_config m)) ?now"
  obtain ev where ev: "a_eth_select (mr_env m) ?tr1 ?secs = SelEthEvent ev"
    using Suc.prems by (auto simp: run_simps Let_def split: eth_select.splits if_splits)
  let ?tr2 = "tr @ [XNow ?now, XEthSelect ?secs (SelEthEvent ev)]"
  obtain r tr3 where r: "run_state (on_eth_event m hashlock rej ev) ?tr2 = (r, tr3)" by fastforce
  show ?case
  proof (cases r)
    case (Inl rej')
    then have "run_state (match_loop n m hashlock cc rej') tr3 = (Ok (Inr ml), tr')"
      using Suc.prems ev r by (simp add: run_simps Let_def)
    from Suc.IH [OF this] obtain e where e: "tr' = tr3 @ e" "justified m e ml" by blast
    obtain e1 where "tr3 = ?tr2 @ e1" using emits_prefix [OF emits_on_eth_event r] by blast
    then show ?thesis using e(1)
      by (intro exI [of _ "[XNow ?now, XEthSelect ?secs (SelEthEvent ev)] @ e1 @ e"])
        (auto intro: justified_mono [OF e(2)])
  next
    case (Inr ml')
    then have "ml' = ml" "tr3 = tr'" using Suc.prems ev r by (auto simp: run_simps Let_def)
    then obtain e where e: "tr' = ?tr2 @ e" "justified m (XEthSelect ?secs (SelEthEvent ev) # e) ml"
      using on_eth_event_justified [of m hashlock rej ev ?tr2 ml tr'] r Inr by blast
    then show ?thesis
      by (intro exI [of _ "[XNow ?now, XEthSelect ?secs (SelEthEvent ev)] @ e"])
        (auto intro: justified_mono [OF e(2)])
  qed
qed simp


section \<open>What the maker may do for a matched lock\<close>

text \<open>
  After the match, only this: the lock and the refund of the escrow of this hash lock, the
  transfer of the configured amount to it, the claim of this ETH lock, and journal and ops
  calls for this hash lock.
\<close>

definition allowed :: "maker_run \<Rightarrow> matched_lock \<Rightarrow> interaction \<Rightarrow> bool" where
  "allowed m ml x \<longleftrightarrow>
     (let hx = c_hex (mr_env m) (ml_hashlock ml); self = lc_account_id (mr_lez m);
          pda = escrow_pda (mr_env m) (mr_lez m) (ml_hashlock ml); amt = lez_amount (mr_config m) in
      case x of
        XSend pid accs p r \<Rightarrow>
          accs = [self, pda] \<and>
          (p = HtlcPayload (LockInstr (ml_hashlock ml) (ml_lez_claimant ml) amt (ml_lez_expiry_secs ml * 1000)) \<or>
           p = HtlcPayload RefundInstr \<or> p = TransferPayload amt)
      | XEthClaim sid preimage r \<Rightarrow> sid = ml_swap_id ml
      | XRecord h d r \<Rightarrow> h = hx
      | XFunded h \<Rightarrow> h = hx
      | XClear h \<Rightarrow> h = hx
      | XOpsAccepted h d \<Rightarrow> h = hx
      | XOpsTerminal h st \<Rightarrow> h = hx
      | _ \<Rightarrow> \<not> binding x)"

lemma allowed_quiet: "quiet x \<Longrightarrow> allowed m ml x"
  by (cases x) (simp_all add: allowed_def Let_def)


lemma allowed_own:
  "allowed m ml (XClear (c_hex (mr_env m) (ml_hashlock ml)))"
  "allowed m ml (XOpsTerminal (c_hex (mr_env m) (ml_hashlock ml)) st)"
  "allowed m ml (XFunded (c_hex (mr_env m) (ml_hashlock ml)))"
  "allowed m ml (XRecord (c_hex (mr_env m) (ml_hashlock ml)) d r)"
  "allowed m ml (XOpsAccepted (c_hex (mr_env m) (ml_hashlock ml)) d)"
  "allowed m ml (XEthClaim (ml_swap_id ml) p a)"
  by (simp_all add: allowed_def Let_def)

section \<open>When the journal is cleared\<close>

definition eth_claimed :: "bytes32 \<Rightarrow> interaction \<Rightarrow> bool" where
  "eth_claimed sid x \<longleftrightarrow>
     (\<exists>p tx. x = XEthClaim sid p (Inr tx)) \<or> (\<exists>h. x = XEthGet sid (Inr h) \<and> htlc_swapState h = CLAIMED)"

definition lez_refunded :: "env \<Rightarrow> lez_client \<Rightarrow> bytes32 \<Rightarrow> interaction \<Rightarrow> bool" where
  "lez_refunded en c h x \<longleftrightarrow>
     (\<exists>d e. x = XAccount (escrow_pda en c h) (Inr d) \<and> decode_escrow_read h d = Ok (Some e) \<and> esc_state e = Refunded) \<or>
     (\<exists>secs pda. x = XLezSelect secs (SelLezEvent (LezRefundedEv pda)))"

text \<open>Evidence that the swap of a matched lock is over for the maker.\<close>

definition finished :: "maker_run \<Rightarrow> matched_lock \<Rightarrow> interaction \<Rightarrow> bool" where
  "finished m ml x \<longleftrightarrow> eth_claimed (ml_swap_id ml) x \<or> lez_refunded (mr_env m) (mr_lez m) (ml_hashlock ml) x"

fun is_clear :: "interaction \<Rightarrow> bool" where
  "is_clear (XClear h) = True"
| "is_clear _ = False"

lemma quiet_not_clear: "quiet x \<Longrightarrow> \<not> is_clear x"
  by (cases x) auto

text \<open>A finishing stage: cleared only after the evidence, and exactly when it succeeds.\<close>

definition settled :: "maker_run \<Rightarrow> matched_lock \<Rightarrow> (swap_error, swap_outcome) res \<Rightarrow> trace \<Rightarrow> bool" where
  "settled m ml r e \<longleftrightarrow> list_all (allowed m ml) e \<and> preceded (finished m ml) is_clear e \<and>
     (is_Ok r \<longrightarrow> list_ex (finished m ml) e) \<and> (mr_guards m \<noteq> None \<longrightarrow> list_ex is_clear e = is_Ok r)"

lemma settled_prefix:
  assumes "settled m ml r e" "list_all (allowed m ml) q" "list_all (\<lambda>x. \<not> is_clear x) q"
  shows "settled m ml r (q @ e)"
  using assms preceded_none [OF assms(3)]
  by (auto simp: settled_def preceded_append list_all_iff list_ex_iff)

lemma settled_fail:
  assumes "list_all (allowed m ml) q" "list_all (\<lambda>x. \<not> is_clear x) q" "\<not> is_Ok r"
  shows "settled m ml r q"
  using assms preceded_none [OF assms(2)] by (auto simp: settled_def list_all_iff list_ex_iff)

lemma settled_fails:
  assumes "list_all (allowed m ml) q" "list_all (\<lambda>x. \<not> is_clear x) q"
  shows "settled m ml (Err x) q" "settled m ml (Panic msg) q" "settled m ml Pending q"
  by (rule settled_fail [OF assms]; simp)+

definition clear_calls :: "maker_run \<Rightarrow> matched_lock \<Rightarrow> record_state \<Rightarrow> trace" where
  "clear_calls m ml st = (case mr_guards m of None \<Rightarrow> [] | Some g \<Rightarrow>
     [XClear (c_hex (mr_env m) (ml_hashlock ml)), XOpsTerminal (c_hex (mr_env m) (ml_hashlock ml)) st])"

lemma settled_clear:
  assumes "list_all (allowed m ml) q" "list_all (\<lambda>x. \<not> is_clear x) q" "list_ex (finished m ml) q" "is_Ok r"
  shows "settled m ml r (q @ clear_calls m ml st)"
  using assms preceded_none [OF assms(2)] allowed_own [of m ml]
  by (cases "mr_guards m") (auto simp: settled_def preceded_append clear_calls_def)

lemma run_when_loop [run_simps]:
  "run_state (when_loop m xs) tr = ((), tr @ (case mr_guards m of Some g \<Rightarrow> xs | None \<Rightarrow> []))"
  by (simp add: when_loop_def split: option.splits)

lemma run_clear:
  "run_state (when_loop m [XClear (c_hex (mr_env m) (ml_hashlock ml)),
     XOpsTerminal (c_hex (mr_env m) (ml_hashlock ml)) st]) tr = ((), tr @ clear_calls m ml st)"
  by (simp add: run_when_loop clear_calls_def split: option.splits)

lemma refund_confirmed_read:
  assumes "run_state (refund_confirmed n en c h) tr = (Ok out, tr')"
  shows "\<exists>e d x. tr' = tr @ e @ [XAccount (escrow_pda en c h) (Inr d)] \<and>
    decode_escrow_read h d = Ok (Some x) \<and> refund_evidence x out"
proof -
  let ?t = "XInstant (a_instant en tr)"
  obtain dl rs where run: "run_state (refund_loop n en c h dl rs) (tr @ [?t]) = (Ok out, tr')"
    using assms by (auto simp: refund_confirmed_def run_simps)
  obtain e where e: "tr' = (tr @ [?t]) @ e" using refund_loop_submits [OF run] by blast
  from refund_loop_sound [OF run] obtain tr0 d x where
    "tr' = tr0 @ [XAccount (escrow_pda en c h) (Inr d)]" "decode_escrow_read h d = Ok (Some x)" "refund_evidence x out"
    by blast
  moreover from this(1) e have "\<exists>q. e = q @ [XAccount (escrow_pda en c h) (Inr d)]"
    by (cases e rule: rev_cases) auto
  ultimately show ?thesis using e by auto
qed

text \<open>The ETH claim: at most as many submissions as attempts, all of this lock; success has evidence.\<close>

fun is_eth_claim :: "interaction \<Rightarrow> bool" where
  "is_eth_claim (XEthClaim sid p r) = True"
| "is_eth_claim _ = False"

definition claim_step :: "bytes32 \<Rightarrow> bytes32 \<Rightarrow> interaction \<Rightarrow> bool" where
  "claim_step sid p x \<longleftrightarrow> (\<exists>r. x = XEthClaim sid p r) \<or> (\<exists>r. x = XEthGet sid r) \<or> (\<exists>d. x = XSleep d)"

definition claim_trace ::
  "bytes32 \<Rightarrow> bytes32 \<Rightarrow> nat \<Rightarrow> (swap_error, bytes32) res \<Rightarrow> trace \<Rightarrow> bool" where
  "claim_trace sid p n r e \<longleftrightarrow> list_all (claim_step sid p) e \<and>
     length (filter is_eth_claim e) \<le> n \<and>
     (case r of
        Ok tx \<Rightarrow> e \<noteq> [] \<and> eth_claimed sid (last e)
      | Err x \<Rightarrow> (\<exists>m. x = EthClaimUnresolved m) \<and> length (filter is_eth_claim e) = n
      | _ \<Rightarrow> False)"

lemma claim_trace_Cons:
  assumes "claim_trace sid p n r e" "list_all (claim_step sid p) q" "filter is_eth_claim q = []"
  shows "claim_trace sid p (Suc n) r (XEthClaim sid p a # q @ e)"
  using assms by (auto simp: claim_trace_def claim_step_def split: res.splits)

lemma claim_attempts_trace:
  "run_state (claim_attempts en sid p n delay le) tr = (r, tr') \<Longrightarrow> \<exists>e. tr' = tr @ e \<and> claim_trace sid p n r e"
proof (induction n arbitrary: delay le tr)
  case 0
  then show ?case by (auto simp: claim_trace_def)
next
  case (Suc n)
  show ?case
  proof (cases "a_eth_claim en tr sid p")
    case (Inr tx)
    then show ?thesis using Suc.prems
      by (auto simp: run_simps map_err_def claim_trace_def claim_step_def eth_claimed_def)
  next
    case (Inl msg)
    let ?c = "XEthClaim sid p (Inl msg)"
    let ?a = "a_eth_get en (tr @ [?c]) sid"
    show ?thesis
    proof (cases "\<exists>h. ?a = Inr h \<and> htlc_swapState h = CLAIMED")
      case True
      then show ?thesis using Suc.prems Inl
        by (auto simp: run_simps map_err_def claim_trace_def claim_step_def eth_claimed_def)
    next
      case False
      let ?w = "if 0 < n then [XSleep delay] else []"
      let ?d = "if 0 < n then min (delay * 2) 30000 else delay"
      have "run_state (claim_attempts en sid p n ?d (Some (c_show_error en (EthRpc msg))))
          (tr @ ?c # XEthGet sid ?a # ?w) = (r, tr')"
        using Suc.prems Inl False by (cases "0 < n"; cases ?a) (auto simp: run_simps map_err_def)
      from Suc.IH [OF this] obtain e where e: "tr' = tr @ ?c # (XEthGet sid ?a # ?w) @ e" "claim_trace sid p n r e"
        by auto
      then show ?thesis using claim_trace_Cons [OF e(2), of "XEthGet sid ?a # ?w" "Inl msg"]
        by (intro exI [of _ "?c # (XEthGet sid ?a # ?w) @ e"]) (auto simp: claim_step_def)
    qed
  qed
qed


lemma reported: "\<exists>q. run_state (report b p) tr = ((), tr @ q) \<and> list_all quiet q"
  by (simp add: run_simps)

lemma allowed_claim_step: "claim_step (ml_swap_id ml) p x \<Longrightarrow> allowed m ml x \<and> \<not> is_clear x"
  by (auto simp: claim_step_def allowed_own allowed_quiet)

lemma quiet_prefix:
  assumes "list_all quiet q"
  shows "list_all (allowed m ml) q" "list_all (\<lambda>x. \<not> is_clear x) q"
  using assms allowed_quiet quiet_not_clear by (auto simp: list_all_iff)

lemma settle_eth_trace:
  assumes "run_state (settle_eth m ml lx p) tr = (r, tr')"
  shows "\<exists>e. tr' = tr @ e \<and> settled m ml r e"
proof -
  obtain q where q: "run_state (report (mr_progress m) ClaimingEth) tr = ((), tr @ q)" "list_all quiet q"
    using reported by blast
  obtain c tr1 where c: "run_state (claim_eth_after_reveal (mr_env m) (ml_swap_id ml) p) (tr @ q) = (c, tr1)" by fastforce
  from claim_attempts_trace [OF c [unfolded claim_eth_after_reveal_def]] obtain e1 where
    e1: "tr1 = (tr @ q) @ e1" "claim_trace (ml_swap_id ml) p 6 c e1" by blast
  have steps: "list_all (allowed m ml) (q @ e1)" "list_all (\<lambda>x. \<not> is_clear x) (q @ e1)"
    using quiet_prefix [OF q(2)] allowed_claim_step e1(2) unfolding claim_trace_def
    by (fastforce simp: list_all_iff)+
  show ?thesis
  proof (cases c)
    case (Ok tx)
    obtain q2 where q2: "run_state (report (mr_progress m) (EthClaimed (c_show32 (mr_env m) tx))) tr1 = ((), tr1 @ q2)"
      "list_all quiet q2" using reported by blast
    have "list_ex (finished m ml) e1" using e1(2) Ok
      by (auto simp: claim_trace_def finished_def list_ex_iff intro!: bexI [of _ "last e1"])
    then have "settled m ml (Ok (Completed p tx lx)) (((q @ e1) @ q2) @ clear_calls m ml RsCompleted)"
      using steps quiet_prefix [OF q2(2)] by (intro settled_clear) auto
    moreover have "r = Ok (Completed p tx lx)" "tr' = tr @ (((q @ e1) @ q2) @ clear_calls m ml RsCompleted)"
      using assms q(1) c q2(1) Ok e1(1)
      by (auto simp: settle_eth_def Let_def run_tryM run_clear)
    ultimately show ?thesis by blast
  next
    case (Err x)
    then have "r = Err x" "tr' = tr @ (q @ e1)" using assms q(1) c e1(1)
      by (auto simp: settle_eth_def Let_def run_tryM)
    then show ?thesis using settled_fail [OF steps] by (metis is_Ok.simps(2))
  qed (use e1(2) in \<open>auto simp: claim_trace_def\<close>)
qed

lemma emits_refund_allowed: "emits (allowed m ml) (refund_confirmed n (mr_env m) (mr_lez m) (ml_hashlock ml))"
  by (rule emits_refund_confirmed) (auto simp: allowed_quiet, simp add: allowed_def Let_def)

lemma emits_refund_no_clear: "emits (\<lambda>x. \<not> is_clear x) (refund_confirmed n en c h)"
  by (rule emits_refund_confirmed) (auto simp: quiet_not_clear)

lemma refund_or_settle_trace:
  assumes "run_state (refund_or_settle n m ml lx) tr = (r, tr')"
  shows "\<exists>e. tr' = tr @ e \<and> settled m ml r e"
proof -
  obtain q1 where q1: "run_state (report (mr_progress m) TimelockExpired) tr = ((), tr @ q1)" "list_all quiet q1"
    using reported by blast
  obtain q2 where q2: "run_state (report (mr_progress m) Refunding) (tr @ q1) = ((), (tr @ q1) @ q2)" "list_all quiet q2"
    using reported by blast
  let ?tr = "(tr @ q1) @ q2"
  obtain c tr1 where c: "run_state (refund_confirmed n (mr_env m) (mr_lez m) (ml_hashlock ml)) ?tr = (c, tr1)" by fastforce
  obtain e1 where e1: "tr1 = ?tr @ e1" "list_all (allowed m ml) e1"
    using emits_prefix [OF emits_refund_allowed c] by blast
  have "list_all (\<lambda>x. \<not> is_clear x) e1" using emits_prefix [OF emits_refund_no_clear c] e1(1) by blast
  then have steps: "list_all (allowed m ml) (q1 @ q2 @ e1)" "list_all (\<lambda>x. \<not> is_clear x) (q1 @ q2 @ e1)"
    using quiet_prefix [OF q1(2)] quiet_prefix [OF q2(2)] e1(2) by auto
  note runs = assms q1(1) q2(1) c e1(1)
  show ?thesis
  proof (cases c)
    case (Ok out)
    from refund_confirmed_read [OF c [unfolded Ok]] obtain e2 d x where rd:
      "tr1 = ?tr @ e2 @ [XAccount (escrow_pda (mr_env m) (mr_lez m) (ml_hashlock ml)) (Inr d)]"
      "decode_escrow_read (ml_hashlock ml) d = Ok (Some x)" "refund_evidence x out" by blast
    show ?thesis
    proof (cases out)
      case (RoRefunded tx)
      obtain q3 where q3: "run_state (report (mr_progress m) RefundComplete) tr1 = ((), tr1 @ q3)" "list_all quiet q3"
        using reported by blast
      have "list_ex (finished m ml) e1" using rd RoRefunded e1(1)
        by (auto simp: finished_def lez_refunded_def)
      then have "settled m ml r (((q1 @ q2 @ e1) @ q3) @ clear_calls m ml RsRefunded)"
        using steps quiet_prefix [OF q3(2)] runs Ok RoRefunded q3(1)
        by (intro settled_clear) (auto simp: refund_or_settle_def Let_def run_tryM run_clear)
      moreover have "tr' = tr @ (((q1 @ q2 @ e1) @ q3) @ clear_calls m ml RsRefunded)"
        using runs Ok RoRefunded q3(1)
        by (auto simp: refund_or_settle_def Let_def run_tryM run_clear)
      ultimately show ?thesis by blast
    next
      case (RoClaimedByTaker p)
      obtain q3 where q3: "run_state (report (mr_progress m) (PreimageRevealed (c_hex (mr_env m) p))) tr1 = ((), tr1 @ q3)"
        "list_all quiet q3" using reported by blast
      have "run_state (settle_eth m ml lx p) (tr1 @ q3) = (r, tr')"
        using runs Ok RoClaimedByTaker q3(1) by (auto simp: refund_or_settle_def Let_def run_tryM)
      from settle_eth_trace [OF this] obtain e where "tr' = (tr1 @ q3) @ e" "settled m ml r e" by blast
      then show ?thesis using settled_prefix [of m ml r e "(q1 @ q2 @ e1) @ q3"] steps quiet_prefix [OF q3(2)] e1(1)
        by (intro exI [of _ "((q1 @ q2 @ e1) @ q3) @ e"]) auto
    qed
  qed (use runs in \<open>auto simp: refund_or_settle_def Let_def run_tryM settled_fails [OF steps]\<close>)
qed


lemma await_claim_trace:
  "run_state (await_claim fuel n m ml lx) tr = (r, tr') \<Longrightarrow> \<exists>e. tr' = tr @ e \<and> settled m ml r e"
proof (induction n arbitrary: tr)
  case 0
  then show ?case by (auto simp: settled_def)
next
  case (Suc n)
  let ?now = "a_now (mr_env m) tr" let ?secs = "sat_sub (ml_lez_expiry_secs ml) ?now"
  let ?sel = "a_lez_select (mr_env m) (tr @ [XNow ?now]) ?secs"
  let ?q = "[XNow ?now, XLezSelect ?secs ?sel]"
  have steps: "list_all (allowed m ml) ?q" "list_all (\<lambda>x. \<not> is_clear x) ?q" by (simp_all add: allowed_quiet)
  have pre: ?case if "\<exists>e. tr' = (tr @ ?q) @ e \<and> settled m ml r e"
    using that settled_prefix [OF _ steps] by (metis append_assoc)
  show ?case
  proof (cases ?sel)
    case SelLezTimeout
    then have "run_state (refund_or_settle fuel m ml lx) (tr @ ?q) = (r, tr')"
      using Suc.prems by (simp add: run_simps Let_def)
    from refund_or_settle_trace [OF this] show ?thesis by (rule pre)
  next
    case (SelLezEvent ev)
    show ?thesis
    proof (cases ev)
      case (LezLockedEv pda)
      then have "run_state (await_claim fuel n m ml lx) (tr @ ?q) = (r, tr')"
        using Suc.prems SelLezEvent by (simp add: run_simps Let_def)
      from Suc.IH [OF this] show ?thesis by (rule pre)
    next
      case (LezRefundedEv pda)
      have "list_ex (finished m ml) ?q" using SelLezEvent LezRefundedEv
        by (auto simp: finished_def lez_refunded_def)
      then have "settled m ml r (?q @ clear_calls m ml RsRefunded)"
        using Suc.prems SelLezEvent LezRefundedEv
        by (intro settled_clear steps) (auto simp: run_simps Let_def)
      then show ?thesis using Suc.prems SelLezEvent LezRefundedEv
        by (intro exI [of _ "?q @ clear_calls m ml RsRefunded"]) (auto simp: run_simps Let_def clear_calls_def)
    next
      case (LezClaimedEv pda p)
      show ?thesis
      proof (cases "length p = 32")
        case True
        obtain q2 where q2: "run_state (report (mr_progress m) (PreimageRevealed (c_hex (mr_env m) p))) (tr @ ?q)
            = ((), (tr @ ?q) @ q2)" "list_all quiet q2" using reported by blast
        have "run_state (settle_eth m ml lx p) ((tr @ ?q) @ q2) = (r, tr')"
          using Suc.prems SelLezEvent LezClaimedEv True q2(1)
          by (simp add: run_now run_ext run_tryM Let_def)
        from settle_eth_trace [OF this] obtain e where "tr' = ((tr @ ?q) @ q2) @ e" "settled m ml r e" by blast
        then show ?thesis using settled_prefix [OF _ quiet_prefix [OF q2(2)]] by (intro pre) (metis append_assoc)
      qed (use Suc.prems SelLezEvent LezClaimedEv steps in \<open>auto simp: run_simps Let_def settled_fails\<close>)
    qed
  qed
qed


section \<open>The trace of a swap\<close>

abbreviation working :: "maker_run \<Rightarrow> matched_lock \<Rightarrow> interaction \<Rightarrow> bool" where
  "working m ml x \<equiv> allowed m ml x \<and> \<not> is_clear x"

lemma working_quiet: "quiet x \<Longrightarrow> working m ml x"
  by (simp add: allowed_quiet quiet_not_clear)

lemma emits_when_loop: "list_all P xs \<Longrightarrow> emits P (when_loop m xs)"
  by (auto simp: emits_def run_when_loop split: option.splits)

lemma emits_lock_lez: "emits (working m ml) (lock_lez fuel m ml)"
proof -
  have "emits (working m ml) (lez_lock fuel (mr_env m) (mr_lez m) (ml_hashlock ml) (ml_lez_claimant ml)
      (lez_amount (mr_config m)) (ml_lez_expiry_secs ml))"
    by (rule emits_lez_lock) (auto simp: working_quiet, auto simp: allowed_def Let_def build_lock_instruction_def)
  then show ?thesis unfolding lock_lez_def
    by (intro emits_intros emits_when_loop) (simp_all add: allowed_own working_quiet)
qed

lemma working_prefix:
  assumes "list_all (working m ml) q"
  shows "list_all (allowed m ml) q" "list_all (\<lambda>x. \<not> is_clear x) q"
  using assms by (auto simp: list_all_iff)

lemma serve_trace:
  assumes "run_state (serve fuel m ml) tr = (r, tr')"
  shows "\<exists>e. tr' = tr @ e \<and> settled m ml r e"
proof -
  obtain c tr1 where c: "run_state (lock_lez fuel m ml) tr = (c, tr1)" by fastforce
  obtain e1 where e1: "tr1 = tr @ e1" "list_all (working m ml) e1"
    using emits_prefix [OF emits_lock_lez c] by blast
  note st = working_prefix [OF e1(2)]
  show ?thesis
  proof (cases c)
    case (Ok lx)
    obtain q where q: "run_state (report (mr_progress m) WaitingForPreimage) tr1 = ((), tr1 @ q)" "list_all quiet q"
      using reported by blast
    have st2: "list_all (allowed m ml) (e1 @ q)" "list_all (\<lambda>x. \<not> is_clear x) (e1 @ q)"
      using st quiet_prefix [OF q(2)] by auto
    show ?thesis
    proof (cases "lez_client_new (mr_setup m) (mr_config m)")
      case lc: (Ok lc)
      then have "run_state (await_claim fuel fuel m ml lx) (tr1 @ q) = (r, tr')"
        using assms c Ok q(1) by (simp add: serve_def run_tryM)
      from await_claim_trace [OF this] obtain e where "tr' = (tr1 @ q) @ e" "settled m ml r e" by blast
      then show ?thesis using settled_prefix [OF _ st2, of r e] e1(1) by auto
    qed (use assms c Ok q(1) e1(1) in \<open>auto simp: serve_def run_tryM settled_fails [OF st2]\<close>)
  qed (use assms c e1(1) in \<open>auto simp: serve_def run_tryM settled_fails [OF st]\<close>)
qed

text \<open>In loop mode the first thing done for a matched lock is its journal entry; without it nothing follows.\<close>

definition journalled :: "maker_run \<Rightarrow> matched_lock \<Rightarrow> trace \<Rightarrow> bool" where
  "journalled m ml e \<longleftrightarrow>
     (\<exists>q e'. e = XRecord (c_hex (mr_env m) (ml_hashlock ml)) (c_show32 (mr_env m) (ml_swap_id ml)) q # e' \<and>
        (q = Ok () \<or> e' = []))"

lemma matched_trace:
  assumes "run_state (tryM (journal_match m ml) (\<lambda>_. serve fuel m ml)) tr = (r, tr')"
  shows "\<exists>e. tr' = tr @ e \<and> settled m ml r e \<and> (mr_guards m \<noteq> None \<longrightarrow> journalled m ml e)"
proof (cases "mr_guards m")
  case None
  then have "run_state (serve fuel m ml) tr = (r, tr')" using assms by (simp add: journal_match_def run_tryM)
  from serve_trace [OF this] None show ?thesis by simp
next
  case (Some g)
  let ?hx = "c_hex (mr_env m) (ml_hashlock ml)" and ?sid = "c_show32 (mr_env m) (ml_swap_id ml)"
  let ?q = "a_record (mr_env m) tr ?hx ?sid"
  show ?thesis
  proof (cases ?q)
    case (Ok u)
    let ?e = "[XRecord ?hx ?sid ?q, XOpsAccepted ?hx ?sid]"
    have "run_state (serve fuel m ml) (tr @ ?e) = (r, tr')"
      using assms Some Ok by (simp add: journal_match_def run_tryM run_ext Let_def)
    from serve_trace [OF this] obtain e where "tr' = (tr @ ?e) @ e" "settled m ml r e" by blast
    then show ?thesis using settled_prefix [of m ml r e ?e] Ok
      by (intro exI [of _ "?e @ e"]) (auto simp: allowed_own journalled_def)
  qed (use assms Some in \<open>auto simp: journal_match_def run_tryM run_ext Let_def allowed_own journalled_def
      intro!: settled_fails\<close>)
qed

lemma match_loop_Inl:
  "run_state (match_loop n m hashlock cc rej) tr = (Ok (Inl out), tr') \<Longrightarrow> out = OutcomeRefunded None None"
proof (induction n arbitrary: rej tr)
  case (Suc n)
  then show ?case
    by (auto simp: run_simps Let_def split: eth_select.splits if_splits sum.splits prod.splits)
qed simp

definition waited_only :: "(swap_error, swap_outcome) res \<Rightarrow> trace \<Rightarrow> bool" where
  "waited_only r e \<longleftrightarrow> list_all quiet e \<and> (case r of Ok out \<Rightarrow> out = OutcomeRefunded None None | _ \<Rightarrow> True)"

definition served :: "maker_run \<Rightarrow> (swap_error, swap_outcome) res \<Rightarrow> trace \<Rightarrow> bool" where
  "served m r e \<longleftrightarrow>
     (\<exists>ml e1 e2. e = e1 @ e2 \<and> list_all quiet e1 \<and> justified m e1 ml \<and> settled m ml r e2 \<and>
        (mr_guards m \<noteq> None \<longrightarrow> journalled m ml e2))"

lemma served_prefix: "served m r e \<Longrightarrow> list_all quiet q \<Longrightarrow> served m r (q @ e)"
  unfolding served_def
  by (elim exE conjE, rule exI, rule_tac x = "q @ e1" in exI, rule exI) (auto intro: justified_mono)

lemma run_maker_trace:
  assumes "run_state (run_maker fuel m hashlock cc) tr = (r, tr')"
  shows "\<exists>e. tr' = tr @ e \<and> (waited_only r e \<or> served m r e)"
proof -
  obtain q where q: "run_state (report (mr_progress m) WaitingForEthLock) tr = ((), tr @ q)" "list_all quiet q"
    using reported by blast
  obtain c tr1 where c: "run_state (eth_client_new (mr_signer_err m) (mr_env m) (mr_config m)) (tr @ q) = (c, tr1)"
    by fastforce
  have "emits quiet (eth_client_new (mr_signer_err m) (mr_env m) (mr_config m))"
    by (rule emits_eth_client_new) simp_all
  from emits_prefix [OF this c] obtain e1 where e1: "tr1 = (tr @ q) @ e1" "list_all quiet e1" by blast
  obtain d tr2 where d: "run_state (match_loop fuel m hashlock cc []) tr1 = (d, tr2)" by fastforce
  from emits_prefix [OF emits_match_loop d] obtain e2 where e2: "tr2 = tr1 @ e2" "list_all quiet e2" by blast
  note runs = assms [unfolded run_maker_def] q(1) c d e1(1) e2(1)
  show ?thesis
  proof (cases c)
    case (Ok ec)
    show ?thesis
    proof (cases d)
      case dOk: (Ok found)
      show ?thesis
      proof (cases found)
        case (Inl out)
        then show ?thesis using runs Ok dOk match_loop_Inl [OF d [unfolded dOk Inl]] q(2) e1(2) e2(2)
          by (intro exI [of _ "q @ e1 @ e2"]) (auto simp: run_tryM waited_only_def)
      next
        case (Inr ml)
        then have "run_state (tryM (journal_match m ml) (\<lambda>_. serve fuel m ml)) tr2 = (r, tr')"
          using runs Ok dOk by (simp add: run_tryM)
        from matched_trace [OF this] obtain e3 where e3: "tr' = tr2 @ e3" "settled m ml r e3"
          "mr_guards m \<noteq> None \<longrightarrow> journalled m ml e3" by blast
        have "justified m e2 ml" using match_loop_justified [OF d [unfolded dOk Inr]] e2(1) by simp
        then have "served m r (e2 @ e3)" unfolding served_def using e2(2) e3(2,3) by blast
        then have "served m r ((q @ e1) @ e2 @ e3)" using q(2) e1(2) served_prefix [of m r "e2 @ e3" "q @ e1"] by simp
        then show ?thesis using e1(1) e2(1) e3(1) by auto
      qed
    qed (use runs Ok q(2) e1(2) e2(2) in \<open>auto simp: run_tryM waited_only_def\<close>)
  qed (use runs q(2) e1(2) in \<open>auto simp: run_tryM waited_only_def\<close>)
qed


lemma settled_journalled:
  assumes "settled m ml r e" "journalled m ml e" "mr_guards m \<noteq> None"
  shows "preceded (\<lambda>x. \<exists>h d. x = XRecord h d (Ok ())) is_send e" "list_ex is_clear e = is_Ok r"
  using assms by (auto simp: settled_def journalled_def)

lemma maker_journal_order:
  assumes "mr_guards m = Some g" "run_state (run_maker fuel m hashlock cc) tr = (r, tr')"
  shows "\<exists>e. tr' = tr @ e \<and> preceded (\<lambda>x. \<exists>h d. x = XRecord h d (Ok ())) is_send e \<and>
    (list_ex (\<lambda>x. \<exists>h d. x = XRecord h d (Ok ())) e \<longrightarrow> list_ex is_clear e = is_Ok r)"
proof -
  have nosend: "list_all (\<lambda>x. \<not> is_send x) e" and norec: "\<not> list_ex (\<lambda>x. \<exists>h d. x = XRecord h d (Ok ())) e"
    and noclear: "\<not> list_ex is_clear e" if "list_all quiet e" for e
    using that by (auto simp: list_all_iff list_ex_iff quiet_not_clear dest!: bspec elim: is_send.elims)
  from run_maker_trace [OF assms(2)] obtain e where e: "tr' = tr @ e" "waited_only r e \<or> served m r e" by blast
  from e(2) show ?thesis
  proof
    assume "waited_only r e"
    then have "list_all quiet e" by (simp add: waited_only_def)
    then show ?thesis using e(1) preceded_none [OF nosend] norec by blast
  next
    assume "served m r e"
    then obtain ml e1 e2 where s: "e = e1 @ e2" "list_all quiet e1" "settled m ml r e2" "journalled m ml e2"
      using assms(1) by (auto simp: served_def)
    note sj = settled_journalled [OF s(3,4)]
    have "preceded (\<lambda>x. \<exists>h d. x = XRecord h d (Ok ())) is_send e"
      using sj(1) assms(1) s(1) preceded_none [OF nosend [OF s(2)]] by (simp add: preceded_append)
    moreover have "list_ex is_clear e = is_Ok r"
      using sj(2) assms(1) s(1) noclear [OF s(2)] by simp
    ultimately show ?thesis using e(1) by blast
  qed
qed

section \<open>The journal decides whether the loop goes on\<close>

text \<open>After the journal was found busy, nothing happens but reports.\<close>

fun halts :: "trace \<Rightarrow> bool" where
  "halts [] = True"
| "halts (x # xs) = (if x = XBusy True then list_all is_progress xs else halts xs)"

lemma halts_skip: "XBusy True \<notin> set us \<Longrightarrow> halts (us @ vs) = halts vs"
  by (induction us) auto

lemma halts_report: "halts us \<Longrightarrow> list_all is_progress ws \<Longrightarrow> halts (us @ ws)"
proof (induction us)
  case Nil
  then show ?case by (induction ws) auto
qed (auto split: if_splits)

lemma halts_free: "XBusy True \<notin> set us \<Longrightarrow> halts us"
  using halts_skip [of us "[]"] by simp

lemma reports_only: "\<exists>q. run_state (report b p) tr = ((), tr @ q) \<and> list_all is_progress q"
  by (simp add: run_simps)

lemma progress_not_busy: "list_all is_progress q \<Longrightarrow> XBusy True \<notin> set q"
  by (induction q) auto

lemma quiet_not_busy: "list_all quiet q \<Longrightarrow> XBusy True \<notin> set q"
  by (induction q) auto

lemma run_maker_not_busy:
  assumes "run_state (run_maker fuel m hashlock cc) tr = (r, tr')"
  shows "\<exists>e. tr' = tr @ e \<and> XBusy True \<notin> set e"
proof -
  have "XBusy True \<notin> set e" if "settled m ml r e" for ml e
    using that by (auto simp: settled_def list_all_iff allowed_def Let_def)
  then show ?thesis using run_maker_trace [OF assms] quiet_not_busy
    by (fastforce simp: waited_only_def served_def)
qed

text \<open>What a stage of the loop leaves behind: nothing after a busy journal, and no further round then.\<close>

definition round_ok :: "(swap_error, bool \<times> loop_counters) res \<Rightarrow> trace \<Rightarrow> bool" where
  "round_ok r e \<longleftrightarrow> halts e \<and> (case r of Ok (False, k) \<Rightarrow> XBusy True \<notin> set e | _ \<Rightarrow> True)"

lemma round_ok_prefix: "round_ok r e \<Longrightarrow> XBusy True \<notin> set q \<Longrightarrow> round_ok r (q @ e)"
  by (auto simp: round_ok_def halts_skip split: res.splits bool.splits)

lemma round_ok_free: "XBusy True \<notin> set e \<Longrightarrow> round_ok r e"
  by (auto simp: round_ok_def halts_free split: res.splits bool.splits)

lemma run_iteration_failed:
  "run_state (iteration_failed l k msg) tr =
     (k\<lparr>total_failed := total_failed k + 1\<rparr>,
      if ml_progress l then tr @ [XProgress (AutoAcceptSwapFailed (loop_iteration k) msg)] else tr)"
  by (simp add: iteration_failed_def run_simps)

lemma accept_swap_trace:
  assumes "run_state (accept_swap fuel l cfg ec lc k) tr = (r, tr')"
  shows "\<exists>e. tr' = tr @ e \<and> round_ok r e"
proof -
  obtain c tr1 where c: "run_state (run_maker fuel (run_of l cfg ec lc) None True) tr = (c, tr1)" by fastforce
  from run_maker_not_busy [OF c] obtain e1 where e1: "tr1 = tr @ e1" "XBusy True \<notin> set e1" by blast
  have "\<exists>e. tr' = tr1 @ e \<and> round_ok r e"
  proof (cases c)
    case (Ok out)
    then show ?thesis using assms c
      by (cases out) (auto simp: accept_swap_def Let_def run_simps run_iteration_failed
          loop_must_stop_after_iteration_def round_ok_def split: if_splits)
  next
    case (Err x)
    then show ?thesis using assms c
      by (cases "x = Cancelled") (auto simp: accept_swap_def Let_def run_simps run_iteration_failed
          loop_must_stop_after_iteration_def round_ok_def split: if_splits)
  qed (use assms c in \<open>auto simp: accept_swap_def Let_def round_ok_def\<close>)
  then show ?thesis using e1 round_ok_prefix [OF _ e1(2)] by auto
qed

lemma emits_counting: "emits quiet (counting sender P e k)"
  unfolding counting_def by (intro emits_intros) simp

lemma emits_balance_attempts:
  "emits quiet (balance_attempts (get_balance en acc) (counting sender P) n delay le k)"
proof (induction n arbitrary: delay le)
  case 0
  show ?case by (auto intro!: emits_intros emits_counting split: option.splits)
next
  case (Suc n)
  have "emits quiet (get_balance en acc)" unfolding get_balance_def by (intro emits_intros) simp
  then show ?case
    by (auto intro!: emits_intros emits_counting Suc.IH split: option.splits res.splits)
qed


text \<open>The iteration is quiet until it comes to the swap.\<close>

lemma emits_iteration_failed: "emits quiet (iteration_failed l k msg)"
  unfolding iteration_failed_def by (intro emits_intros) simp

definition rounds :: "(bool \<times> loop_counters) rio \<Rightarrow> bool" where
  "rounds p \<longleftrightarrow> (\<forall>tr. \<exists>e. snd (run_state p tr) = tr @ e \<and> round_ok (fst (run_state p tr)) e)"

lemma rounds_quiet: "emits quiet p \<Longrightarrow> rounds p"
  unfolding emits_def rounds_def using quiet_not_busy round_ok_free by metis

lemma rounds_bind:
  assumes "emits quiet q" "\<And>a. rounds (f a)"
  shows "rounds (q \<bind> f)"
proof -
  have "\<exists>e. snd (run_state (q \<bind> f) tr) = tr @ e \<and> round_ok (fst (run_state (q \<bind> f) tr)) e" for tr
  proof -
    obtain a tr1 where q: "run_state q tr = (a, tr1)" by fastforce
    from emits_prefix [OF assms(1) q] obtain e1 where e1: "tr1 = tr @ e1" "list_all quiet e1" by blast
    obtain e2 where "snd (run_state (f a) tr1) = tr1 @ e2" "round_ok (fst (run_state (f a) tr1)) e2"
      using assms(2) unfolding rounds_def by metis
    then show ?thesis using q e1 round_ok_prefix [OF _ quiet_not_busy [OF e1(2)]]
      by (intro exI [of _ "e1 @ e2"]) simp
  qed
  then show ?thesis by (simp add: rounds_def)
qed

lemma rounds_accept_swap: "rounds (accept_swap fuel l cfg ec lc k)"
  unfolding rounds_def using accept_swap_trace by (metis prod.collapse)

lemma rounds_case_res:
  "(\<And>a. rounds (f a)) \<Longrightarrow> (\<And>e. rounds (g e)) \<Longrightarrow>
   rounds (case r of Ok a \<Rightarrow> f a | Err e \<Rightarrow> g e | Panic msg \<Rightarrow> ret (Panic msg) | Pending \<Rightarrow> ret Pending)"
  by (cases r) (auto intro: rounds_quiet emits_ret)

lemma rounds_case_prod: "(\<And>a b. rounds (f a b)) \<Longrightarrow> rounds (case p of (a, b) \<Rightarrow> f a b)"
  by (cases p) auto

lemma rounds_if: "rounds p \<Longrightarrow> rounds q \<Longrightarrow> rounds (if b then p else q)"
  by simp

lemma rounds_later: "rounds (sleep d \<bind> (\<lambda>_. ret v))"
  by (intro rounds_quiet emits_intros) simp

lemma emits_retry: "emits quiet (get_balance_with_retry en acc (counting sender P) k)"
  unfolding get_balance_with_retry_def balance_with_retry_core_def by (rule emits_balance_attempts)

lemma rounds_maker_iteration: "rounds (maker_iteration fuel l k)"
proof -
  have ec: "emits quiet (eth_client_new se en cfg)" for se en cfg
    by (rule emits_eth_client_new) simp_all
  show ?thesis unfolding maker_iteration_def Let_def
    by (intro rounds_bind rounds_case_res rounds_case_prod rounds_if rounds_later rounds_accept_swap
        emits_iteration_failed emits_retry ec emits_now emits_report) simp_all
qed

lemma maker_iterations_halts:
  "run_state (maker_iterations fuel n l k) tr = (r, tr') \<Longrightarrow> \<exists>e. tr' = tr @ e \<and> halts e"
proof (induction n arbitrary: k tr)
  case 0
  then show ?case by simp
next
  case (Suc n)
  let ?x = "XCancelled (a_cancelled (ml_env l) tr)"
  obtain c tr1 where c: "run_state (maker_iteration fuel l k) (tr @ [?x]) = (c, tr1)" by fastforce
  obtain e1 where e1: "tr1 = (tr @ [?x]) @ e1" "round_ok c e1"
    using rounds_maker_iteration [of fuel l k] c unfolding rounds_def by (metis fst_conv snd_conv)
  show ?case
  proof (cases "a_cancelled (ml_env l) tr")
    case True
    then show ?thesis using Suc.prems by (auto simp: run_simps)
  next
    case False
    show ?thesis
    proof (cases "\<exists>k'. c = Ok (False, k')")
      case True
      then obtain k' where k': "c = Ok (False, k')" by blast
      then have "run_state (maker_iterations fuel n l k') tr1 = (r, tr')"
        using Suc.prems False c by (simp add: run_ext run_tryM)
      from Suc.IH [OF this] obtain e where "tr' = tr1 @ e" "halts e" by blast
      moreover have "XBusy True \<notin> set (?x # e1)" using e1(2) k' by (simp add: round_ok_def)
      ultimately show ?thesis using e1(1) halts_skip [of "?x # e1" e]
        by (intro exI [of _ "(?x # e1) @ e"]) simp
    next
      case stop: False
      then have "tr' = tr1" using Suc.prems False c
        by (cases c) (auto simp: run_ext run_tryM split: if_splits)
      then show ?thesis using e1 by (intro exI [of _ "?x # e1"]) (auto simp: round_ok_def)
    qed
  qed
qed

section \<open>A concrete maker\<close>

definition toy_config :: swap_config where
  "toy_config = \<lparr> eth_rpc_url = ''ws'', eth_private_key = ''key'', eth_htlc_address = 7,
     lez_sequencer_url = ''http'', lez_sequencer_url_explicit = True, lez_auth_mode = RawKey ''00'',
     lez_htlc_program_id = [], lez_amount = 1000, eth_amount = 5, lez_timelock = 600, eth_timelock = 1200,
     eth_recipient_address = 9, lez_taker_account_id = None, poll_interval = 2000 \<rparr>"

definition toy_setup :: lez_setup where
  "toy_setup = \<lparr> su_hex_decode = (\<lambda>_. Inr (replicate 32 1)), su_private_key = Inr, su_account_of_key = (\<lambda>k. k),
     su_url_error = (\<lambda>_. None), su_build_error = (\<lambda>_. None), su_wallet_feature = False,
     su_wallet_core = (\<lambda>_. Err (Scaffold ''none'')) \<rparr>"

definition toy_run :: maker_run where
  "toy_run = \<lparr> mr_env = toy_env (\<lambda>_. Inr []) (\<lambda>_. Inr 0), mr_setup = toy_setup, mr_signer_err = (\<lambda>_. None),
     mr_config = toy_config, mr_eth = \<lparr> ec_contract = 7, ec_chain_id = 1 \<rparr>, mr_lez = toy_client,
     mr_progress = True, mr_guards = Some \<lparr> timelock_margin_secs = 300, lez_timelock_secs = 600 \<rparr> \<rparr>"

section \<open>Properties\<close>

text \<open>
  The maker accepts a candidate exactly when its hash lock is neither rejected nor
  journalled, its taker account is neither zero nor the maker's own, it is the designated
  taker's if one is configured, and the ETH time lock reaches the LEZ expiry plus the margin
  (five minutes when none is configured), as numbers up to the largest 64-bit value.
\<close>

lemma candidate_accepted_iff:
  "(classify_candidate cand policy rejected in_journal = Accept) =
     (\<not> in_journal \<and> cand_hashlock cand \<notin> set rejected \<and>
      cand_taker_lez_account cand \<noteq> zero32 \<and> cand_taker_lez_account cand \<noteq> pol_maker_lez_account policy \<and>
      pol_designated_taker policy \<in> {None, Some (cand_taker_lez_account cand)} \<and>
      min (unat (pol_lez_expiry_secs policy) + (case pol_margin policy of Some g \<Rightarrow> unat g | None \<Rightarrow> 300)) (2 ^ 64 - 1)
        \<le> unat (cand_eth_timelock_secs cand))"
  unfolding classify_Accept_iff covers_unat taker_lez_account_is_usable_def
  by (cases "pol_designated_taker policy"; cases "pol_margin policy")
    (auto simp: unwrap_or_def default_timelock_margin_secs_def)

text \<open>
  C3. What a swap does, whatever the chains, the other party, the journal and the clock do.
  Either the maker only waited (no transaction, no journal or ledger write, and at most the
  empty refund as outcome), or it first saw a lock event to its address, of at least its amount,
  for a usable claimant and outlasting the LEZ expiry by the margin (read from a fresh clock and
  with the hash lock not in the journal, in loop mode), and from then on touches only the
  escrow, the ETH lock and the journal entry of that lock: it locks exactly its configured
  amount for exactly that claimant. The journal entry is cleared only after evidence that the
  ETH was claimed or the LEZ refunded.
\<close>

theorem maker_serves_backed_lock:
  "\<exists>e. snd (run_state (run_maker fuel m hashlock cc) tr) = tr @ e \<and>
     (waited_only (fst (run_state (run_maker fuel m hashlock cc) tr)) e \<or>
      served m (fst (run_state (run_maker fuel m hashlock cc) tr)) e)"
  using run_maker_trace [of fuel m hashlock cc tr] by (metis prod.collapse)

text \<open>
  C17. In loop mode no LEZ transaction leaves before a journal write that succeeded, and once a
  swap is in the journal it is cleared exactly when the swap returns \<open>Ok\<close>: a failed, unfinished
  or panicking swap stays recorded for the next start.
\<close>

theorem maker_journals_first:
  assumes "mr_guards m = Some g" "run_state (run_maker fuel m hashlock cc) tr = (r, tr')"
  shows "\<exists>e. tr' = tr @ e \<and> preceded (\<lambda>x. \<exists>h d. x = XRecord h d (Ok ())) is_send e \<and>
    (list_ex (\<lambda>x. \<exists>h d. x = XRecord h d (Ok ())) e \<longrightarrow> list_ex is_clear e = is_Ok r)"
  using maker_journal_order [OF assms] .

theorem maker_journals_first_witness:
  "\<exists>e. snd (run_state (run_maker 3 toy_run None True) []) = e \<and>
    preceded (\<lambda>x. \<exists>h d. x = XRecord h d (Ok ())) is_send e"
proof -
  have "mr_guards toy_run = Some \<lparr> timelock_margin_secs = 300, lez_timelock_secs = 600 \<rparr>"
    by (simp add: toy_run_def)
  moreover obtain r tr' where rt: "run_state (run_maker 3 toy_run None True) [] = (r, tr')" by fastforce
  ultimately show ?thesis using maker_journals_first [OF _ rt] by auto
qed

text \<open>
  C36. The ETH claim after the reveal always returns, after at most six submissions, all of the
  given lock and preimage. Success means that the last interaction was an accepted claim or a
  read of the lock as claimed; the only failure is \<open>EthClaimUnresolved\<close>, after six of them.
\<close>

theorem claim_eth_after_reveal_sound:
  "\<exists>e. snd (run_state (claim_eth_after_reveal en sid p) tr) = tr @ e \<and>
     claim_trace sid p 6 (fst (run_state (claim_eth_after_reveal en sid p) tr)) e"
  unfolding claim_eth_after_reveal_def using claim_attempts_trace by (metis prod.collapse)

text \<open>
  The auto-accept loop never goes past an unfinished swap: once the journal says that an
  entry is in flight, the loop makes no further interaction but its closing reports.
\<close>

lemma maker_loop_halts_when_busy:
  "\<exists>e. snd (run_state (run_maker_loop n fuel l) tr) = tr @ e \<and> halts e"
proof -
  let ?k = "\<lparr> total_completed = 0, total_failed = 0, total_transient_errors = 0, loop_iteration = 0 \<rparr>"
  obtain q where q: "run_state (report (ml_progress l) AutoAcceptStarted) tr = ((), tr @ q)" "list_all is_progress q"
    using reports_only by blast
  obtain r tr1 where r: "run_state (maker_iterations fuel n l ?k) (tr @ q) = (r, tr1)" by fastforce
  from maker_iterations_halts [OF this] obtain e where e: "tr1 = (tr @ q) @ e" "halts e" by blast
  have qe: "halts (q @ e)" using e(2) halts_skip [OF progress_not_busy [OF q(2)]] by simp
  show ?thesis
  proof (cases r)
    case (Ok k)
    obtain w where w: "run_state (report (ml_progress l) (AutoAcceptStopped (total_completed k) (total_failed k)
        (total_transient_errors k))) tr1 = ((), tr1 @ w)" "list_all is_progress w" using reports_only by blast
    then show ?thesis using q(1) r Ok e(1) halts_report [OF qe w(2)]
      by (intro exI [of _ "(q @ e) @ w"]) (simp add: run_maker_loop_def run_tryM)
  qed (use q(1) r e(1) qe in \<open>auto simp: run_maker_loop_def run_tryM\<close>)
qed

end
