(* ===== verification/Swap_Taker.thy ===== *)
theory Swap_Taker
  imports Swap_Maker
begin

text \<open>
  The taker (\<open>src/swap/taker.rs\<close>): it locks ETH first, waits for the maker's escrow, checks the
  escrow and only then claims it, which reveals the preimage. As for the maker, the spawned
  watcher and the \<open>select!\<close> are any choice of the environment. The random preimage is an argument.
\<close>

section \<open>The binding of an escrow\<close>

definition lez_claim_margin_secs :: u64 where
  "lez_claim_margin_secs = 300"

text \<open>The texts of the errors keep their fixed part.\<close>

definition verify_escrow_binding ::
  "htlc_escrow \<Rightarrow> account_id \<Rightarrow> bytes32 \<Rightarrow> u64 \<Rightarrow> u64 \<Rightarrow> (swap_error, unit) res" where
  "verify_escrow_binding escrow our_account hashlock eth_timelock_secs now_secs =
     (if esc_taker_id escrow \<noteq> our_account then
        Err (InvalidState ''escrow taker_id == our account'' ''escrow taker_id'')
      else if esc_hashlock escrow \<noteq> hashlock then
        Err (InvalidState ''escrow hashlock'' ''escrow hashlock'')
      else
        (let lez_expiry_secs = esc_timelock escrow div 1000 in
         if lez_expiry_secs < sat_add now_secs lez_claim_margin_secs then
           Err (InvalidState ''LEZ timelock >= now + claim margin'' ''LEZ timelock'')
         else if eth_timelock_secs \<le> lez_expiry_secs then
           Err (InvalidState ''LEZ timelock < our ETH timelock'' ''LEZ timelock'')
         else Ok ()))"

section \<open>The taker's swap\<close>

record taker_run =
  tk_env :: env
  tk_setup :: lez_setup
  tk_config :: swap_config
  tk_eth :: eth_client
  tk_lez :: lez_client
  tk_progress :: bool

text \<open>Give up: ask for a refund of the ETH, whatever comes of it.\<close>

definition give_up :: "taker_run \<Rightarrow> bytes32 \<Rightarrow> swap_outcome rio" where
  "give_up t swap_id = do {
     report (tk_progress t) Refunding;
     r \<leftarrow> eth_refund (tk_env t) swap_id;
     report (tk_progress t) RefundComplete;
     ret (Ok (OutcomeRefunded (case r of Ok tx \<Rightarrow> Some tx | _ \<Rightarrow> None) None)) }"

text \<open>Step 3: wait for the maker's lock. \<open>Inr\<close> is the \<open>break\<close>, \<open>Inl\<close> the returned outcome.\<close>

fun await_lez_lock :: "nat \<Rightarrow> taker_run \<Rightarrow> bytes32 \<Rightarrow> (swap_outcome + unit) rio" where
  "await_lez_lock 0 t swap_id = ret Pending"
| "await_lez_lock (Suc n) t swap_id = do {
     now \<leftarrow> now_unix (tk_env t);
     sel \<leftarrow> (let secs = sat_sub (eth_timelock (tk_config t)) now in
             ext (XLezSelect secs) (\<lambda>tr. a_lez_select (tk_env t) tr secs));
     (case sel of
        SelLezEvent (LezLockedEv pda) \<Rightarrow> do { report (tk_progress t) LezLockDetected; ret (Ok (Inr ())) }
      | SelLezEvent (LezRefundedEv pda) \<Rightarrow>
          tryM (give_up t swap_id) (\<lambda>out. ret (Ok (Inl out)))
      | SelLezEvent (LezClaimedEv pda preimage) \<Rightarrow> await_lez_lock n t swap_id
      | SelLezTimeout \<Rightarrow> do {
          report (tk_progress t) TimelockExpired;
          tryM (give_up t swap_id) (\<lambda>out. ret (Ok (Inl out))) }) }"

text \<open>Step 4: read the escrow and check it.\<close>

definition verify_escrow :: "taker_run \<Rightarrow> bytes32 \<Rightarrow> unit rio" where
  "verify_escrow t hashlock =
     (let en = tk_env t; cfg = tk_config t in
      tryM (get_escrow en (tk_lez t) hashlock) (\<lambda>eo.
        case eo of
          None \<Rightarrow> ret (Err (InvalidState ''Locked escrow'' ''no escrow found''))
        | Some escrow \<Rightarrow>
            if esc_state escrow \<noteq> Locked then ret (Err (InvalidState ''Locked'' ''state''))
            else if esc_amount escrow < lez_amount cfg then ret (Err (InvalidState ''amount >='' ''amount''))
            else tryM (get_balance en (escrow_pda en (tk_lez t) hashlock)) (\<lambda>pda_balance.
              if pda_balance < lez_amount cfg then ret (Err (InvalidState ''PDA balance >='' ''PDA balance''))
              else do {
                now \<leftarrow> now_unix en;
                ret (verify_escrow_binding escrow (lc_account_id (tk_lez t)) hashlock (eth_timelock cfg) now) })))"

text \<open>Step 5: claim the escrow, which reveals the preimage.\<close>

definition reveal_claim :: "taker_run \<Rightarrow> bytes32 \<Rightarrow> bytes32 \<Rightarrow> swap_outcome rio" where
  "reveal_claim t preimage sid = do {
     report (tk_progress t) LezEscrowVerified;
     report (tk_progress t) ClaimingLez;
     tryM (lez_claim (tk_env t) (tk_lez t) (c_sha256 (tk_env t) preimage) preimage) (\<lambda>lez_claim_tx. do {
       report (tk_progress t) (LezClaimed lez_claim_tx);
       ret (Ok (Completed preimage sid lez_claim_tx)) }) }"

text \<open>Steps 3 to 5, after the lock of the ETH.\<close>

definition taker_serve :: "nat \<Rightarrow> taker_run \<Rightarrow> bytes32 \<Rightarrow> bytes32 \<Rightarrow> swap_outcome rio" where
  "taker_serve fuel t preimage swap_id =
     tryM (await_lez_lock fuel t swap_id) (\<lambda>waited.
       case waited of
         Inl out \<Rightarrow> ret (Ok out)
       | Inr u \<Rightarrow> do {
           report (tk_progress t) VerifyingLezEscrow;
           tryM (verify_escrow t (c_sha256 (tk_env t) preimage)) (\<lambda>_. reveal_claim t preimage swap_id) })"

definition run_taker :: "nat \<Rightarrow> taker_run \<Rightarrow> bytes32 \<Rightarrow> swap_outcome rio" where
  "run_taker fuel t preimage =
     (let en = tk_env t; cfg = tk_config t; hashlock = c_sha256 en preimage in do {
       report (tk_progress t) (PreimageGenerated (c_hex en hashlock));
       report (tk_progress t) LockingEth;
       tryM (eth_lock en hashlock (eth_timelock cfg) (eth_recipient_address cfg) (lc_account_id (tk_lez t))
               (ucast (eth_amount cfg))) (\<lambda>lock_receipt. do {
         (let swap_id = lr_swap_id lock_receipt in do {
           report (tk_progress t) (EthLocked (c_show32 en swap_id) (c_show32 en (lr_tx_hash lock_receipt))
             (ec_chain_id (tk_eth t)));
           report (tk_progress t) WaitingForLezLock;
           tryM (ret (lez_client_new (tk_setup t) cfg)) (\<lambda>watcher_lez_client.
             taker_serve fuel t preimage swap_id) }) }) })"


section \<open>What the checks establish\<close>

lemma run_eth_lock:
  "run_state (eth_lock en h tlk rc tk amt) tr =
     (let resp = a_eth_lock en tr h tlk rc tk amt in
      (res_bind (map_err EthRpc resp) (\<lambda>(tx, logs).
         case find (\<lambda>l. l \<noteq> None) logs of
           Some (Some sid) \<Rightarrow> Ok \<lparr> lr_swap_id = sid, lr_tx_hash = tx \<rparr>
         | _ \<Rightarrow> Err (EthReverted ''no Locked event in receipt'')),
       tr @ [XEthLock h tlk rc tk amt resp]))"
  by (simp add: eth_lock_def run_simps Let_def)

lemma emits_eth_lock: "emits no_send (eth_lock en h tlk rc tk amt)"
  by (simp add: emits_def run_eth_lock Let_def)

lemma emits_give_up: "emits no_send (give_up t sid)"
  unfolding give_up_def eth_refund_def by (intro emits_intros) simp_all

lemma emits_lez_select_case:
  "(\<And>pda. emits P (a pda)) \<Longrightarrow> (\<And>pda. emits P (b pda)) \<Longrightarrow> (\<And>pda p. emits P (c pda p)) \<Longrightarrow> emits P d \<Longrightarrow>
   emits P (case sel of SelLezEvent (LezLockedEv pda) \<Rightarrow> a pda | SelLezEvent (LezRefundedEv pda) \<Rightarrow> b pda
     | SelLezEvent (LezClaimedEv pda p) \<Rightarrow> c pda p | SelLezTimeout \<Rightarrow> d)"
  by (cases sel rule: lez_select.exhaust) (auto split: lez_watch_event.splits)

lemma emits_await_lez_lock: "emits no_send (await_lez_lock n t sid)"
proof (induction n)
  case (Suc n)
  show ?case unfolding await_lez_lock.simps Let_def
    by (intro emits_intros emits_lez_select_case emits_give_up Suc.IH) simp_all
qed (simp add: emits_ret)

lemma emits_get_balance: "(\<And>r. P (XBalance acc r)) \<Longrightarrow> emits P (get_balance en acc)"
  unfolding get_balance_def by (intro emits_intros) simp

lemma emits_verify_escrow: "emits no_send (verify_escrow t h)"
  unfolding verify_escrow_def Let_def by (intro emits_intros emits_get_balance) simp_all

text \<open>
  The checks before the reveal: an escrow of this hash lock that is locked for our account with
  at least the agreed amount, a balance of its account that covers the amount, and an expiry that
  leaves the claim margin from a clock read, and lies before our ETH time lock.
\<close>

definition escrow_checked :: "taker_run \<Rightarrow> bytes32 \<Rightarrow> trace \<Rightarrow> bool" where
  "escrow_checked t h us \<longleftrightarrow>
     (\<exists>d e b now. let pda = escrow_pda (tk_env t) (tk_lez t) h in
        XAccount pda (Inr d) \<in> set us \<and> decode_escrow_read h d = Ok (Some e) \<and> esc_state e = Locked \<and>
        lez_amount (tk_config t) \<le> esc_amount e \<and>
        XBalance pda (Inr b) \<in> set us \<and> lez_amount (tk_config t) \<le> b \<and>
        XNow now \<in> set us \<and> esc_taker_id e = lc_account_id (tk_lez t) \<and>
        min (unat now + 300) (2 ^ 64 - 1) \<le> unat (esc_timelock e) div 1000 \<and>
        unat (esc_timelock e) div 1000 < unat (eth_timelock (tk_config t)))"

lemma escrow_checked_append: "escrow_checked t h us \<Longrightarrow> escrow_checked t h (q @ us @ w)"
  unfolding escrow_checked_def Let_def set_append by blast

lemma binding_Ok_iff:
  "(verify_escrow_binding e acc h eth_secs now = Ok u) \<longleftrightarrow>
     esc_taker_id e = acc \<and> esc_hashlock e = h \<and>
     min (unat now + 300) (2 ^ 64 - 1) \<le> unat (esc_timelock e) div 1000 \<and>
     unat (esc_timelock e) div 1000 < unat eth_secs"
  by (auto simp: verify_escrow_binding_def Let_def lez_claim_margin_secs_def word_less_nat_alt word_le_nat_alt
      unat_sat_add unat_div not_less)

lemma verify_escrow_Ok:
  assumes "run_state (verify_escrow t h) tr = (Ok u, tr')"
  shows "\<exists>e. tr' = tr @ e \<and> escrow_checked t h e"
proof -
  let ?pda = "escrow_pda (tk_env t) (tk_lez t) h" and ?en = "tk_env t"
  obtain d e where rd: "a_account ?en tr ?pda = Inr d" "decode_escrow_read h d = Ok (Some e)"
    using assms by (cases "a_account ?en tr ?pda")
      (auto simp: verify_escrow_def Let_def run_simps map_err_def split: res.splits option.splits)
  let ?tr1 = "tr @ [XAccount ?pda (Inr d)]"
  obtain b where b: "a_balance ?en ?tr1 ?pda = Inr b" "esc_state e = Locked" "\<not> esc_amount e < lez_amount (tk_config t)"
    using assms rd by (cases "a_balance ?en ?tr1 ?pda")
      (auto simp: verify_escrow_def Let_def run_simps map_err_def split: if_splits)
  let ?tr2 = "?tr1 @ [XBalance ?pda (Inr b)]" let ?now = "a_now ?en ?tr2"
  have ok: "\<not> b < lez_amount (tk_config t)"
    "verify_escrow_binding e (lc_account_id (tk_lez t)) h (eth_timelock (tk_config t)) ?now = Ok u"
    "tr' = ?tr2 @ [XNow ?now]"
    using assms rd b by (auto simp: verify_escrow_def Let_def run_simps map_err_def split: if_splits)
  then show ?thesis using rd b
    by (intro exI [of _ "[XAccount ?pda (Inr d), XBalance ?pda (Inr b), XNow ?now]"])
      (auto simp: escrow_checked_def Let_def binding_Ok_iff not_less)
qed


section \<open>What a taker's swap sends\<close>

text \<open>
  The trace of a swap: nothing is sent until, after the checks, the claim with the preimage is;
  after it come only reports. \<open>Completed\<close> is returned exactly with an accepted claim.
\<close>

definition reveal :: "taker_run \<Rightarrow> bytes32 \<Rightarrow> string + string \<Rightarrow> interaction" where
  "reveal t p r = XSend (lc_program_id (tk_lez t))
     [lc_account_id (tk_lez t), escrow_pda (tk_env t) (tk_lez t) (c_sha256 (tk_env t) p)]
     (HtlcPayload (ClaimInstr p)) r"

fun is_completed :: "(swap_error, swap_outcome) res \<Rightarrow> bool" where
  "is_completed (Ok (Completed p e l)) = True"
| "is_completed _ = False"

definition reveals_after_checks :: "taker_run \<Rightarrow> bytes32 \<Rightarrow> (swap_error, swap_outcome) res \<Rightarrow> trace \<Rightarrow> bool" where
  "reveals_after_checks t p r e \<longleftrightarrow>
     (list_all no_send e \<and> \<not> is_completed r) \<or>
     (\<exists>us a ws. e = us @ reveal t p a # ws \<and> list_all no_send us \<and> list_all is_progress ws \<and>
        escrow_checked t (c_sha256 (tk_env t) p) us \<and>
        (case a of Inr tx \<Rightarrow> (\<exists>sid. r = Ok (Completed p sid tx)) | Inl m \<Rightarrow> \<not> is_completed r))"

lemma reveals_prefix:
  assumes "reveals_after_checks t p r e" "list_all no_send q"
  shows "reveals_after_checks t p r (q @ e)"
proof -
  consider "list_all no_send e \<and> \<not> is_completed r"
    | us a ws where "e = us @ reveal t p a # ws" "list_all no_send us" "list_all is_progress ws"
        "escrow_checked t (c_sha256 (tk_env t) p) us"
        "case a of Inr tx \<Rightarrow> (\<exists>sid. r = Ok (Completed p sid tx)) | Inl m \<Rightarrow> \<not> is_completed r"
    using assms(1) unfolding reveals_after_checks_def by blast
  then show ?thesis
  proof cases
    case 2
    then show ?thesis using assms(2) escrow_checked_append [OF 2(4), of q "[]"] unfolding reveals_after_checks_def
      by (intro disjI2 exI [of _ "q @ us"] exI [of _ a] exI [of _ ws]) simp
  qed (use assms(2) in \<open>simp add: reveals_after_checks_def\<close>)
qed

lemma reveals_none: "list_all no_send e \<Longrightarrow> \<not> is_completed r \<Longrightarrow> reveals_after_checks t p r e"
  by (simp add: reveals_after_checks_def)

lemma reported_quietly: "\<exists>q. run_state (report b p) tr = ((), tr @ q) \<and> list_all no_send q \<and> list_all is_progress q"
  by (simp add: run_simps)

lemma lez_claim_run:
  assumes "run_state (lez_claim (tk_env t) (tk_lez t) (c_sha256 (tk_env t) p) p) tr = (r, tr')"
  obtains (failed) q where "tr' = tr @ q" "list_all no_send q" "\<not> is_Ok r"
  | (sent) q a where "tr' = tr @ q @ [reveal t p a]" "list_all no_send q"
      "case a of Inr tx \<Rightarrow> r = Ok tx | Inl m \<Rightarrow> \<not> is_Ok r"
proof -
  let ?acc = "[lc_account_id (tk_lez t)]"
  let ?n = "a_nonces (tk_env t) tr ?acc" let ?q = "[XNonces ?acc ?n]"
  let ?accs = "[lc_account_id (tk_lez t), escrow_pda (tk_env t) (tk_lez t) (c_sha256 (tk_env t) p)]"
  let ?a = "a_send (tk_env t) (tr @ ?q) (lc_program_id (tk_lez t)) ?accs (HtlcPayload (ClaimInstr p))"
  note defs = lez_claim_def send_htlc_instruction_def get_nonces_def submit_message_def run_simps map_err_def
  show thesis
  proof (cases "c_message_err (tk_env t) (lc_program_id (tk_lez t)) ?accs (HtlcPayload (ClaimInstr p)) = None \<and>
      (\<exists>ns. ?n = Inr ns)")
    case True
    then show ?thesis using assms
      by (intro sent [of ?q ?a]) (auto simp: defs reveal_def split: sum.splits)
  next
    case False
    then show ?thesis using assms
      by (intro failed [of ?q]) (auto simp: defs split: sum.splits option.splits)
  qed
qed

lemma reveal_claim_trace:
  assumes "run_state (reveal_claim t p sid) tr = (r, tr')"
  shows "\<exists>e. tr' = tr @ e \<and> (\<forall>u. escrow_checked t (c_sha256 (tk_env t) p) u \<longrightarrow> list_all no_send u \<longrightarrow>
    reveals_after_checks t p r (u @ e))"
proof -
  obtain q1 where q1: "run_state (report (tk_progress t) LezEscrowVerified) tr = ((), tr @ q1)" "list_all no_send q1"
    using reported_quietly by blast
  obtain q2 where q2: "run_state (report (tk_progress t) ClaimingLez) (tr @ q1) = ((), (tr @ q1) @ q2)" "list_all no_send q2"
    using reported_quietly by blast
  let ?tr = "(tr @ q1) @ q2"
  obtain c tr1 where c: "run_state (lez_claim (tk_env t) (tk_lez t) (c_sha256 (tk_env t) p) p) ?tr = (c, tr1)" by fastforce
  from c show ?thesis
  proof (cases rule: lez_claim_run)
    case q: (failed q)
    then have "tr' = tr1" "\<not> is_completed r" using assms q1(1) q2(1) c
      by (cases c; auto simp: reveal_claim_def run_tryM)+
    then show ?thesis using q q1(2) q2(2) by (intro exI [of _ "q1 @ q2 @ q"]) (auto intro: reveals_none)
  next
    case q: (sent q a)
    obtain ws where ws: "tr' = tr1 @ ws" "list_all is_progress ws"
      "case a of Inr tx \<Rightarrow> r = Ok (Completed p sid tx) | Inl m \<Rightarrow> \<not> is_completed r"
    proof (cases a)
      case (Inl m)
      then show ?thesis using assms q1(1) q2(1) c q(3)
        by (intro that [of "[]"]) (cases c; auto simp: reveal_claim_def run_tryM)+
    next
      case (Inr tx)
      obtain w where "run_state (report (tk_progress t) (LezClaimed tx)) tr1 = ((), tr1 @ w)" "list_all is_progress w"
        using reported_quietly by blast
      then show ?thesis using assms q1(1) q2(1) c q(3) Inr
        by (intro that [of w]) (auto simp: reveal_claim_def run_tryM)
    qed
    have "reveals_after_checks t p r (u @ (q1 @ q2 @ q) @ reveal t p a # ws)"
      if "escrow_checked t (c_sha256 (tk_env t) p) u" "list_all no_send u" for u
      using that q q1(2) q2(2) ws(2,3) escrow_checked_append [OF that(1), of "[]" "q1 @ q2 @ q"]
      unfolding reveals_after_checks_def
      by (intro disjI2 exI [of _ "u @ q1 @ q2 @ q"] exI [of _ a] exI [of _ ws]) (auto split: sum.splits)
    then show ?thesis using q(1) ws(1) by (intro exI [of _ "(q1 @ q2 @ q) @ reveal t p a # ws"]) auto
  qed
qed


lemma await_lez_lock_Inl:
  "run_state (await_lez_lock n t sid) tr = (Ok (Inl out), tr') \<Longrightarrow> \<not> is_completed (Ok out)"
proof (induction n arbitrary: tr)
  case (Suc n)
  then show ?case
    by (auto simp: run_simps Let_def give_up_def eth_refund_def
        split: lez_select.splits lez_watch_event.splits res.splits if_splits)
qed simp

lemma taker_serve_trace:
  assumes "run_state (taker_serve fuel t p sid) tr = (r, tr')"
  shows "\<exists>e. tr' = tr @ e \<and> reveals_after_checks t p r e"
proof -
  let ?h = "c_sha256 (tk_env t) p"
  obtain c tr1 where c: "run_state (await_lez_lock fuel t sid) tr = (c, tr1)" by fastforce
  from emits_prefix [OF emits_await_lez_lock c] obtain e1 where e1: "tr1 = tr @ e1" "list_all no_send e1" by blast
  show ?thesis
  proof (cases c)
    case (Ok waited)
    show ?thesis
    proof (cases waited)
      case (Inl out)
      then show ?thesis using assms c Ok e1 await_lez_lock_Inl [OF c [unfolded Ok Inl]]
        by (auto simp: taker_serve_def run_tryM intro: reveals_none)
    next
      case (Inr u)
      obtain q where q: "run_state (report (tk_progress t) VerifyingLezEscrow) tr1 = ((), tr1 @ q)" "list_all no_send q"
        using reported_quietly by blast
      obtain v tr2 where v: "run_state (verify_escrow t ?h) (tr1 @ q) = (v, tr2)" by fastforce
      from emits_prefix [OF emits_verify_escrow v] obtain e2 where e2: "tr2 = (tr1 @ q) @ e2" "list_all no_send e2" by blast
      show ?thesis
      proof (cases v)
        case vOk: (Ok u')
        then have chk: "escrow_checked t ?h e2" using verify_escrow_Ok [OF v [unfolded vOk]] e2(1) by simp
        have "run_state (reveal_claim t p sid) tr2 = (r, tr')"
          using assms c Ok Inr q(1) v vOk by (simp add: taker_serve_def run_tryM)
        from reveal_claim_trace [OF this] chk e2(2) obtain e3 where
          "tr' = tr2 @ e3" "reveals_after_checks t p r (e2 @ e3)" by blast
        then show ?thesis using reveals_prefix [of t p r "e2 @ e3" "e1 @ q"] e1 q(2) e2(1) by auto
      qed (use assms c Ok Inr q v e1 e2 in \<open>auto simp: taker_serve_def run_tryM intro!: reveals_none\<close>)
    qed
  qed (use assms c e1 in \<open>auto simp: taker_serve_def run_tryM intro!: reveals_none\<close>)
qed

text \<open>An accepted lock of the ETH with the agreed terms.\<close>

definition eth_locked :: "taker_run \<Rightarrow> bytes32 \<Rightarrow> interaction \<Rightarrow> bool" where
  "eth_locked t h x \<longleftrightarrow>
     (\<exists>tx logs. x = XEthLock h (eth_timelock (tk_config t)) (eth_recipient_address (tk_config t))
        (lc_account_id (tk_lez t)) (ucast (eth_amount (tk_config t))) (Inr (tx, logs)))"

definition taker_trace :: "taker_run \<Rightarrow> bytes32 \<Rightarrow> (swap_error, swap_outcome) res \<Rightarrow> trace \<Rightarrow> bool" where
  "taker_trace t p r e \<longleftrightarrow>
     reveals_after_checks t p r e \<and> preceded (eth_locked t (c_sha256 (tk_env t) p)) is_send e"

lemma run_taker_trace:
  assumes "run_state (run_taker fuel t p) tr = (r, tr')"
  shows "\<exists>e. tr' = tr @ e \<and> taker_trace t p r e"
proof -
  let ?h = "c_sha256 (tk_env t) p" and ?cfg = "tk_config t"
  obtain q1 where q1: "run_state (report (tk_progress t) (PreimageGenerated (c_hex (tk_env t) ?h))) tr = ((), tr @ q1)"
    "list_all no_send q1" using reported_quietly by blast
  obtain q2 where q2: "run_state (report (tk_progress t) LockingEth) (tr @ q1) = ((), (tr @ q1) @ q2)" "list_all no_send q2"
    using reported_quietly by blast
  let ?tr = "(tr @ q1) @ q2"
  let ?lock = "eth_lock (tk_env t) ?h (eth_timelock ?cfg) (eth_recipient_address ?cfg) (lc_account_id (tk_lez t))
    (ucast (eth_amount ?cfg))"
  obtain c tr1 where c: "run_state ?lock ?tr = (c, tr1)" by fastforce
  then obtain a where a: "tr1 = ?tr @ [a]" "no_send a" "is_Ok c \<Longrightarrow> eth_locked t ?h a"
    by (auto simp: run_eth_lock Let_def eth_locked_def is_Ok_iff res_bind_Ok_iff map_err_def split: sum.splits)
  have pre: "list_all no_send (q1 @ q2 @ [a])" using q1(2) q2(2) a(2) by simp
  have stop: "taker_trace t p r' (q1 @ q2 @ a # w)" if "list_all no_send w" "\<not> is_completed r'" for w r'
    using that pre by (auto simp: taker_trace_def intro!: reveals_none preceded_none)
  show ?thesis
  proof (cases c)
    case (Ok rc)
    obtain q3 where q3: "run_state (report (tk_progress t) (EthLocked (c_show32 (tk_env t) (lr_swap_id rc))
        (c_show32 (tk_env t) (lr_tx_hash rc)) (ec_chain_id (tk_eth t)))) tr1 = ((), tr1 @ q3)" "list_all no_send q3"
      using reported_quietly by blast
    obtain q4 where q4: "run_state (report (tk_progress t) WaitingForLezLock) (tr1 @ q3) = ((), (tr1 @ q3) @ q4)"
      "list_all no_send q4" using reported_quietly by blast
    note runs = assms q1(1) q2(1) c Ok q3(1) q4(1)
    show ?thesis
    proof (cases "lez_client_new (tk_setup t) ?cfg")
      case lc: (Ok lc)
      then have "run_state (taker_serve fuel t p (lr_swap_id rc)) ((tr1 @ q3) @ q4) = (r, tr')"
        using runs by (simp add: run_taker_def Let_def run_tryM)
      from taker_serve_trace [OF this] obtain e where e: "tr' = ((tr1 @ q3) @ q4) @ e" "reveals_after_checks t p r e" by blast
      let ?u = "(q1 @ q2 @ [a]) @ q3 @ q4"
      have "reveals_after_checks t p r (?u @ e)" using e(2) pre q3(2) q4(2) by (intro reveals_prefix) auto
      moreover have "preceded (eth_locked t ?h) is_send (?u @ e)"
        using a(3) Ok preceded_none [OF pre] by (simp add: preceded_append)
      ultimately show ?thesis using e(1) a(1) by (intro exI [of _ "?u @ e"]) (simp add: taker_trace_def)
    qed (use runs a(1) q3(2) q4(2) in \<open>auto simp: run_taker_def Let_def run_tryM intro!: stop\<close>)
  qed (use assms q1(1) q2(1) c a(1) in \<open>auto simp: run_taker_def Let_def run_tryM intro!: stop\<close>)
qed

section \<open>Properties\<close>

text \<open>
  The binding check passes exactly when the escrow names our account and our hash lock, its
  expiry (in whole seconds) leaves five minutes from now, as numbers up to the largest 64-bit
  value, and lies strictly before our ETH time lock.
\<close>

lemma escrow_binding_iff:
  "(verify_escrow_binding escrow acc h eth_secs now = Ok u) =
     (esc_taker_id escrow = acc \<and> esc_hashlock escrow = h \<and>
      min (unat now + 300) (2 ^ 64 - 1) \<le> unat (esc_timelock escrow) div 1000 \<and>
      unat (esc_timelock escrow) div 1000 < unat eth_secs)"
  by (rule binding_Ok_iff)

text \<open>
  C2. The taker reveals its preimage at most once, and only after its ETH is locked and the
  escrow was read as locked for its own account with at least the agreed amount, funded with at
  least that amount, and with an expiry between now plus five minutes and its own time lock.
  The claim is the only LEZ transaction of the swap, nothing but a report follows it, and the
  swap is \<open>Completed\<close> exactly when that claim was accepted.
\<close>

theorem taker_reveals_after_checks:
  "\<exists>e. snd (run_state (run_taker fuel t p) tr) = tr @ e \<and>
     taker_trace t p (fst (run_state (run_taker fuel t p) tr)) e"
  using run_taker_trace [of fuel t p tr] by (metis prod.collapse)

end
