(* ===== verification/Report_Tally.thy ===== *)
theory Report_Tally
  imports Eth_Client "HOL-Library.List_Lexorder"
begin

text \<open>
  The pure part of the on-chain report (\<open>src/eth/report.rs\<close>): the reading of an RPC error, the
  tally of decoded events with the counts it collapses to, and the split of a block range into
  spans. A \<open>BTreeMap\<close> is an association list with ascending keys, a \<open>HashSet\<close> a set.
\<close>

section \<open>Ordered maps\<close>

text \<open>\<open>entry(k).or_insert(d)\<close>, with \<open>f\<close> applied to the value that is there afterwards.\<close>

fun bt_entry :: "'k::linorder \<Rightarrow> 'v \<Rightarrow> ('v \<Rightarrow> 'v) \<Rightarrow> ('k \<times> 'v) list \<Rightarrow> ('k \<times> 'v) list" where
  "bt_entry k d f [] = [(k, f d)]"
| "bt_entry k d f ((k', v) # m) =
     (if k < k' then (k, f d) # (k', v) # m
      else if k = k' then (k', f v) # m
      else (k', v) # bt_entry k d f m)"

abbreviation bt_ok :: "('k::linorder \<times> 'v) list \<Rightarrow> bool" where
  "bt_ok m \<equiv> sorted_wrt (<) (map fst m)"

lemma bt_keys: "set (map fst (bt_entry k d f m)) = insert k (set (map fst m))"
  by (induction k d f m rule: bt_entry.induct) auto

lemma bt_entry_ok: "bt_ok m \<Longrightarrow> bt_ok (bt_entry k d f m)"
proof (induction k d f m rule: bt_entry.induct)
  case (2 k d f k' v m)
  then show ?case using bt_keys [of k d f m] by (auto simp: image_iff)
qed simp

lemma bt_lookup:
  "bt_ok m \<Longrightarrow> map_of (bt_entry k d f m) = (map_of m)(k \<mapsto> f (case map_of m k of None \<Rightarrow> d | Some v \<Rightarrow> v))"
proof (induction k d f m rule: bt_entry.induct)
  case (2 k d f k' v m)
  have "map_of m k = None" if "k < k'"
    using 2(2) that by (force simp: map_of_eq_None_iff)
  then show ?case using 2 by (auto simp: fun_eq_iff split: option.splits)
qed (auto simp: fun_eq_iff)

lemma bt_distinct: "bt_ok m \<Longrightarrow> distinct (map fst m)"
  by (simp add: strict_sorted_iff)

lemma bt_keys_sorted: "bt_ok m \<Longrightarrow> map fst m = sorted_list_of_set (set (map fst m))"
  by (metis sorted_list_of_set_unique finite_set sorted_list_of_set.idem_if_sorted_distinct strict_sorted_iff)

text \<open>A map is determined by its lookup.\<close>

lemma bt_eqI: "bt_ok m \<Longrightarrow> bt_ok m' \<Longrightarrow> map_of m = map_of m' \<Longrightarrow> m = m'"
proof -
  assume a: "bt_ok m" "bt_ok m'" "map_of m = map_of m'"
  then have "map fst m = map fst m'"
    using bt_keys_sorted [of m] bt_keys_sorted [of m'] by (metis dom_map_of_conv_image_fst list.set_map)
  moreover have "m = map (\<lambda>k. (k, the (map_of m k))) (map fst m)" if "bt_ok m" for m :: "('a \<times> 'b) list"
    using bt_distinct [OF that] by (auto simp: o_def intro!: map_idI [symmetric])
  ultimately show "m = m'" using a by metis
qed

section \<open>Reading an RPC failure\<close>

datatype rpc_failure = RateLimited | RangeTooWide | OtherFailure

text \<open>\<open>u8::is_ascii_alphanumeric\<close>.\<close>

definition is_alnum :: "char \<Rightarrow> bool" where
  "is_alnum c = (let k = (of_char c :: nat) in
     (48 \<le> k \<and> k \<le> 57) \<or> (65 \<le> k \<and> k \<le> 90) \<or> (97 \<le> k \<and> k \<le> 122))"

text \<open>The two loops over the bytes: \<open>prev\<close> is the byte before the position, if there is one.\<close>

function scan_tokens :: "bool \<Rightarrow> string \<Rightarrow> char option \<Rightarrow> string \<Rightarrow> bool" where
  "scan_tokens neg digits prev [] = False"
| "scan_tokens neg digits prev (c # cs) =
     (if \<not> is_alnum c then scan_tokens neg digits (Some c) cs
      else
        (let tok = takeWhile is_alnum (c # cs); rest = dropWhile is_alnum (c # cs) in
         if (prev = Some (CHR ''-'')) = neg \<and> tok = digits then True
         else scan_tokens neg digits (Some (last tok)) rest))"
  by pat_completeness auto
termination
  by (relation "measure (\<lambda>(s, d, p, t). length t)") (auto simp: le_imp_less_Suc length_dropWhile_le)

definition mentions_number :: "string \<Rightarrow> string \<Rightarrow> bool" where
  "mentions_number text token =
     (case token of
        c # rest \<Rightarrow> if c = CHR ''-'' then scan_tokens True rest None text else scan_tokens False token None text
      | [] \<Rightarrow> scan_tokens False [] None text)"

definition classify_rpc_failure :: "string \<Rightarrow> rpc_failure" where
  "classify_rpc_failure message =
     (let m = to_ascii_lowercase message in
      if contains_str m ''rate limit'' \<or> contains_str m ''ratelimit'' \<or> contains_str m ''too many requests'' \<or>
         mentions_number m ''429'' \<or> mentions_number m ''-32005''
      then RateLimited
      else if contains_str m ''block range'' \<or> contains_str m ''range too'' \<or>
         contains_str m ''query returned more than'' \<or> contains_str m ''too many results'' \<or>
         contains_str m ''log response size'' \<or> contains_str m ''exceed maximum block range''
      then RangeTooWide
      else OtherFailure)"

section \<open>The tally\<close>

record locked_row =
  row_swap_id :: bytes32
  row_sender :: address
  row_recipient :: address

record swap_tally =
  tl_locks :: "(bytes32 \<times> locked_row) list"
  tl_claimed :: "bytes32 set"
  tl_refunded :: "bytes32 set"


definition new_tally :: swap_tally where
  "new_tally = \<lparr> tl_locks = [], tl_claimed = {}, tl_refunded = {} \<rparr>"

definition record_lock :: "locked_row \<Rightarrow> swap_tally \<Rightarrow> swap_tally" where
  "record_lock row t = t\<lparr>tl_locks := bt_entry (row_swap_id row) row (\<lambda>r. r) (tl_locks t)\<rparr>"

definition record_claim :: "bytes32 \<Rightarrow> swap_tally \<Rightarrow> swap_tally" where
  "record_claim swap_id t = t\<lparr>tl_claimed := insert swap_id (tl_claimed t)\<rparr>"

definition record_refund :: "bytes32 \<Rightarrow> swap_tally \<Rightarrow> swap_tally" where
  "record_refund swap_id t = t\<lparr>tl_refunded := insert swap_id (tl_refunded t)\<rparr>"

record maker_counts =
  mk_recipient :: string
  mk_attempted :: nat
  mk_completed :: nat
  mk_refunded :: nat
  mk_still_open :: nat

record swap_counts =
  sc_attempted :: nat
  sc_completed :: nat
  sc_refunded :: nat
  sc_still_open :: nat
  sc_distinct_taker_wallets :: nat
  sc_by_maker :: "maker_counts list"

definition empty_maker :: "(address \<Rightarrow> string) \<Rightarrow> address \<Rightarrow> maker_counts" where
  "empty_maker show_address r =
     \<lparr> mk_recipient = show_address r, mk_attempted = 0, mk_completed = 0, mk_refunded = 0, mk_still_open = 0 \<rparr>"

text \<open>The variables of the counting loop.\<close>

record count_state =
  per_maker :: "(address \<times> maker_counts) list"
  takers :: "address set"
  cs_completed :: nat
  cs_refunded :: nat

definition count_swap :: "(address \<Rightarrow> string) \<Rightarrow> swap_tally \<Rightarrow> locked_row \<Rightarrow> count_state \<Rightarrow> count_state" where
  "count_swap show_address t row c =
     (let bump = (\<lambda>f. bt_entry (row_recipient row) (empty_maker show_address (row_recipient row))
                     (\<lambda>e. f (e\<lparr>mk_attempted := mk_attempted e + 1\<rparr>)) (per_maker c));
          c' = c\<lparr>takers := insert (row_sender row) (takers c)\<rparr> in
      if row_swap_id row \<in> tl_claimed t
      then c'\<lparr>cs_completed := cs_completed c + 1, per_maker := bump (\<lambda>e. e\<lparr>mk_completed := mk_completed e + 1\<rparr>)\<rparr>
      else if row_swap_id row \<in> tl_refunded t
      then c'\<lparr>cs_refunded := cs_refunded c + 1, per_maker := bump (\<lambda>e. e\<lparr>mk_refunded := mk_refunded e + 1\<rparr>)\<rparr>
      else c'\<lparr>per_maker := bump (\<lambda>e. e\<lparr>mk_still_open := mk_still_open e + 1\<rparr>)\<rparr>)"

definition counts :: "(address \<Rightarrow> string) \<Rightarrow> swap_tally \<Rightarrow> swap_counts" where
  "counts show_address t =
     (let c = fold (count_swap show_address t) (map snd (tl_locks t))
                \<lparr> per_maker = [], takers = {}, cs_completed = 0, cs_refunded = 0 \<rparr>;
          attempted = length (tl_locks t) in
      \<lparr> sc_attempted = attempted, sc_completed = cs_completed c, sc_refunded = cs_refunded c,
        sc_still_open = attempted - cs_completed c - cs_refunded c,
        sc_distinct_taker_wallets = card (takers c), sc_by_maker = map snd (per_maker c) \<rparr>)"

text \<open>The decoded events, in the order in which they are ingested.\<close>

datatype tally_event = LockSeen locked_row | ClaimSeen bytes32 | RefundSeen bytes32

fun ingest :: "tally_event \<Rightarrow> swap_tally \<Rightarrow> swap_tally" where
  "ingest (LockSeen row) t = record_lock row t"
| "ingest (ClaimSeen i) t = record_claim i t"
| "ingest (RefundSeen i) t = record_refund i t"

definition tally_of :: "tally_event list \<Rightarrow> swap_tally" where
  "tally_of evs = fold ingest evs new_tally"

section \<open>Block spans\<close>

text \<open>The cursor loop; the \<open>break\<close> keeps \<open>end + 1\<close> from wrapping around.\<close>

function chunks_from :: "u64 \<Rightarrow> u64 \<Rightarrow> u64 \<Rightarrow> (u64 \<times> u64) list" where
  "chunks_from start to chunk =
     (if to < start then []
      else
        (let e = min (sat_add start (chunk - 1)) to in
         (start, e) # (if e = - 1 then [] else chunks_from (e + 1) to chunk)))"
  by pat_completeness auto

termination
proof (relation "measure (\<lambda>(s, t, c). Suc (unat t) - unat s)")
  fix start to chunk e :: u64
  assume a: "\<not> to < start" "e = min (sat_add start (chunk - 1)) to" "e \<noteq> - 1"
  have "start \<le> e" using a(1,2) sat_add_ge [of start "chunk - 1"] by (auto simp: min_def)
  moreover have "e \<le> to" using a(2) by simp
  ultimately show "((e + 1, to, chunk), start, to, chunk) \<in> measure (\<lambda>(s, t, c). Suc (unat t) - unat s)"
    using unat_succ [OF a(3)] by (simp add: word_le_nat_alt)
qed simp

declare chunks_from.simps [simp del]

definition block_chunks :: "u64 \<Rightarrow> u64 \<Rightarrow> u64 \<Rightarrow> (u64 \<times> u64) list" where
  "block_chunks from to chunk = chunks_from from to (max chunk 1)"

definition span_blocks :: "u64 \<times> u64 \<Rightarrow> nat list" where
  "span_blocks = (\<lambda>(a, b). [unat a..<Suc (unat b)])"

lemma chunks_from_cover:
  "chunk \<noteq> 0 \<Longrightarrow>
   concat (map span_blocks (chunks_from start to chunk)) = [unat start..<Suc (unat to)] \<and>
   list_all (\<lambda>p. length (span_blocks p) \<le> unat chunk \<and> span_blocks p \<noteq> []) (chunks_from start to chunk)"
proof (induction start to chunk rule: chunks_from.induct)
  case (1 start to chunk)
  show ?case
  proof (cases "to < start")
    case True
    then show ?thesis by (simp add: chunks_from.simps word_less_nat_alt)
  next
    case False
    define e where "e = min (sat_add start (chunk - 1)) to"
    have se: "unat start \<le> unat e" "unat e \<le> unat to"
      using False sat_add_ge [of start "chunk - 1"] by (auto simp: e_def min_def word_le_nat_alt not_less)
    have "unat (chunk - 1) = unat chunk - 1" "0 < unat chunk"
      using 1(2) by (simp_all add: unat_gt_0 unat_minus_one)
    moreover have "unat e \<le> unat (sat_add start (chunk - 1))"
      by (simp add: e_def flip: word_le_nat_alt)
    ultimately have len: "Suc (unat e) - unat start \<le> unat chunk" unfolding unat_sat_add by linarith
    have step: "chunks_from start to chunk = (start, e) # (if e = - 1 then [] else chunks_from (e + 1) to chunk)"
      using False by (subst chunks_from.simps) (simp add: e_def Let_def)
    show ?thesis
    proof (cases "e = - 1")
      case True
      then have "unat to = unat e" using se unat_less_pow [of to] by (simp add: unat_minus_one_word_max)
      then show ?thesis using se len True by (simp add: step span_blocks_def)
    next
      case e: False
      note IH = 1(1) [OF False e_def e 1(2)]
      have "[unat start..<Suc (unat e)] @ [Suc (unat e)..<Suc (unat to)] = [unat start..<Suc (unat to)]"
        using se upt_add_eq_append [of "unat start" "Suc (unat e)" "unat to - unat e"] by simp
      then show ?thesis using IH se len e by (simp add: step span_blocks_def unat_succ)
    qed
  qed
qed

section \<open>What the tally holds\<close>

definition locks_seen :: "tally_event list \<Rightarrow> bytes32 set" where
  "locks_seen evs = row_swap_id ` {r. LockSeen r \<in> set evs}"

text \<open>The first lock of a swap id that was ingested.\<close>

fun first_lock :: "tally_event list \<Rightarrow> bytes32 \<Rightarrow> locked_row option" where
  "first_lock [] i = None"
| "first_lock (LockSeen r # evs) i = (if row_swap_id r = i then Some r else first_lock evs i)"
| "first_lock (_ # evs) i = first_lock evs i"

lemma first_lock_snoc:
  "first_lock (evs @ [ev]) i =
     (case first_lock evs i of
        Some r \<Rightarrow> Some r
      | None \<Rightarrow> (case ev of LockSeen r \<Rightarrow> if row_swap_id r = i then Some r else None | _ \<Rightarrow> None))"
  by (induction evs i rule: first_lock.induct) (auto split: tally_event.splits)

lemma first_lock_seen: "first_lock evs i \<noteq> None \<longleftrightarrow> i \<in> locks_seen evs"
  by (induction evs i rule: first_lock.induct) (auto simp: locks_seen_def image_iff)

lemma first_lock_id: "first_lock evs i = Some r \<Longrightarrow> row_swap_id r = i"
  by (induction evs i rule: first_lock.induct) (auto split: if_splits)

lemma tally_state:
  "bt_ok (tl_locks (tally_of evs)) \<and> map_of (tl_locks (tally_of evs)) = first_lock evs \<and>
   tl_claimed (tally_of evs) = {i. ClaimSeen i \<in> set evs} \<and>
   tl_refunded (tally_of evs) = {i. RefundSeen i \<in> set evs}"
proof (induction evs rule: rev_induct)
  case Nil
  then show ?case by (simp add: tally_of_def new_tally_def fun_eq_iff)
next
  case (snoc ev evs)
  then show ?case
    by (cases ev) (auto simp: tally_of_def record_lock_def record_claim_def record_refund_def bt_entry_ok
        bt_lookup first_lock_snoc fun_eq_iff split: option.splits dest: first_lock_id)
qed

text \<open>The counting loop over a list of rows.\<close>

definition rows_where :: "locked_row list \<Rightarrow> (locked_row \<Rightarrow> bool) \<Rightarrow> nat" where
  "rows_where rows P = length (filter P rows)"

definition is_claimed :: "swap_tally \<Rightarrow> locked_row \<Rightarrow> bool" where
  "is_claimed t r \<longleftrightarrow> row_swap_id r \<in> tl_claimed t"

definition is_refunded :: "swap_tally \<Rightarrow> locked_row \<Rightarrow> bool" where
  "is_refunded t r \<longleftrightarrow> row_swap_id r \<notin> tl_claimed t \<and> row_swap_id r \<in> tl_refunded t"

definition is_open :: "swap_tally \<Rightarrow> locked_row \<Rightarrow> bool" where
  "is_open t r \<longleftrightarrow> row_swap_id r \<notin> tl_claimed t \<and> row_swap_id r \<notin> tl_refunded t"

lemmas outcome_defs = is_claimed_def is_refunded_def is_open_def

definition maker_row :: "(address \<Rightarrow> string) \<Rightarrow> swap_tally \<Rightarrow> locked_row list \<Rightarrow> address \<Rightarrow> maker_counts" where
  "maker_row show_address t rows a =
     \<lparr> mk_recipient = show_address a,
       mk_attempted = rows_where rows (\<lambda>r. row_recipient r = a),
       mk_completed = rows_where rows (\<lambda>r. row_recipient r = a \<and> is_claimed t r),
       mk_refunded = rows_where rows (\<lambda>r. row_recipient r = a \<and> is_refunded t r),
       mk_still_open = rows_where rows (\<lambda>r. row_recipient r = a \<and> is_open t r) \<rparr>"

definition count_loop :: "(address \<Rightarrow> string) \<Rightarrow> swap_tally \<Rightarrow> locked_row list \<Rightarrow> count_state" where
  "count_loop show_address t rows =
     fold (count_swap show_address t) rows \<lparr> per_maker = [], takers = {}, cs_completed = 0, cs_refunded = 0 \<rparr>"

lemma count_loop_state:
  "takers (count_loop sh t rows) = row_sender ` set rows \<and>
   cs_completed (count_loop sh t rows) = rows_where rows (is_claimed t) \<and>
   cs_refunded (count_loop sh t rows) = rows_where rows (is_refunded t) \<and>
   bt_ok (per_maker (count_loop sh t rows)) \<and>
   map_of (per_maker (count_loop sh t rows)) =
     (\<lambda>a. if a \<in> row_recipient ` set rows then Some (maker_row sh t rows a) else None)"
proof (induction rows rule: rev_induct)
  case Nil
  then show ?case by (simp add: count_loop_def rows_where_def)
next
  case (snoc row rows)
  let ?c = "count_loop sh t rows"
  have fresh: "maker_row sh t rows a = empty_maker sh a" if "a \<notin> row_recipient ` set rows" for a
    using that by (auto simp: maker_row_def empty_maker_def rows_where_def filter_empty_conv image_iff)
  have step: "count_loop sh t (rows @ [row]) = count_swap sh t row ?c" by (simp add: count_loop_def)
  show ?case using snoc fresh unfolding step
    by (auto simp: count_swap_def Let_def bt_entry_ok bt_lookup fun_eq_iff rows_where_def outcome_defs
        maker_row_def empty_maker_def)
qed


section \<open>The counts by definition\<close>

text \<open>
  The report as the documentation words it, over the events seen: every lock once, by its first
  event; completed when its claim was seen, refunded when only its refund was.
\<close>

definition ids_where :: "tally_event list \<Rightarrow> (bytes32 \<Rightarrow> bool) \<Rightarrow> nat" where
  "ids_where evs P = card {i \<in> locks_seen evs. P i}"

definition seen_sender :: "tally_event list \<Rightarrow> bytes32 \<Rightarrow> address" where
  "seen_sender evs i = row_sender (the (first_lock evs i))"

definition seen_recipient :: "tally_event list \<Rightarrow> bytes32 \<Rightarrow> address" where
  "seen_recipient evs i = row_recipient (the (first_lock evs i))"

definition ends_claimed :: "tally_event list \<Rightarrow> bytes32 \<Rightarrow> bool" where
  "ends_claimed evs i \<longleftrightarrow> ClaimSeen i \<in> set evs"

definition ends_refunded :: "tally_event list \<Rightarrow> bytes32 \<Rightarrow> bool" where
  "ends_refunded evs i \<longleftrightarrow> ClaimSeen i \<notin> set evs \<and> RefundSeen i \<in> set evs"

definition ends_open :: "tally_event list \<Rightarrow> bytes32 \<Rightarrow> bool" where
  "ends_open evs i \<longleftrightarrow> ClaimSeen i \<notin> set evs \<and> RefundSeen i \<notin> set evs"

definition reference_counts :: "(address \<Rightarrow> string) \<Rightarrow> tally_event list \<Rightarrow> swap_counts" where
  "reference_counts show_address evs =
     \<lparr> sc_attempted = ids_where evs (\<lambda>_. True),
       sc_completed = ids_where evs (ends_claimed evs),
       sc_refunded = ids_where evs (ends_refunded evs),
       sc_still_open = ids_where evs (ends_open evs),
       sc_distinct_taker_wallets = card (seen_sender evs ` locks_seen evs),
       sc_by_maker = map (\<lambda>a.
         \<lparr> mk_recipient = show_address a,
           mk_attempted = ids_where evs (\<lambda>i. seen_recipient evs i = a),
           mk_completed = ids_where evs (\<lambda>i. seen_recipient evs i = a \<and> ends_claimed evs i),
           mk_refunded = ids_where evs (\<lambda>i. seen_recipient evs i = a \<and> ends_refunded evs i),
           mk_still_open = ids_where evs (\<lambda>i. seen_recipient evs i = a \<and> ends_open evs i) \<rparr>)
         (sorted_list_of_set (seen_recipient evs ` locks_seen evs)) \<rparr>"

definition tally_rows :: "tally_event list \<Rightarrow> locked_row list" where
  "tally_rows evs = map snd (tl_locks (tally_of evs))"

lemma tally_rows_iff: "r \<in> set (tally_rows evs) \<longleftrightarrow> first_lock evs (row_swap_id r) = Some r"
proof -
  have d: "distinct (map fst (tl_locks (tally_of evs)))" and m: "map_of (tl_locks (tally_of evs)) = first_lock evs"
    using tally_state [of evs] bt_distinct by auto
  have "(i, r) \<in> set (tl_locks (tally_of evs)) \<longleftrightarrow> first_lock evs i = Some r" for i
    using map_of_eq_Some_iff [OF d, of i r] by (simp add: m)
  then have "r \<in> set (tally_rows evs) \<longleftrightarrow> (\<exists>i. first_lock evs i = Some r)"
    by (force simp: tally_rows_def)
  then show ?thesis using first_lock_id by blast
qed

lemma tally_rows_distinct: "distinct (map row_swap_id (tally_rows evs))"
proof -
  have b: "bt_ok (tl_locks (tally_of evs))" and m: "map_of (tl_locks (tally_of evs)) = first_lock evs"
    using tally_state [of evs] by auto
  have "row_swap_id (snd p) = fst p" if "p \<in> set (tl_locks (tally_of evs))" for p
    using that bt_distinct [OF b] m first_lock_id [of evs "fst p" "snd p"] by (metis map_of_is_SomeI prod.collapse)
  then have "map row_swap_id (tally_rows evs) = map fst (tl_locks (tally_of evs))"
    by (simp add: tally_rows_def)
  then show ?thesis using bt_distinct [OF b] by simp
qed

lemma seen_rows: "row_swap_id ` {r \<in> set (tally_rows evs). P r} = {i \<in> locks_seen evs. P (the (first_lock evs i))}"
proof (intro subset_antisym subsetI)
  fix i assume "i \<in> row_swap_id ` {r \<in> set (tally_rows evs). P r}"
  then obtain r where "first_lock evs i = Some r" "P r" by (auto simp: tally_rows_iff)
  then show "i \<in> {i \<in> locks_seen evs. P (the (first_lock evs i))}" using first_lock_seen [of evs i] by simp
next
  fix i assume "i \<in> {i \<in> locks_seen evs. P (the (first_lock evs i))}"
  then obtain r where "first_lock evs i = Some r" "P r" using first_lock_seen [of evs i] by auto
  then show "i \<in> row_swap_id ` {r \<in> set (tally_rows evs). P r}"
    using first_lock_id [of evs i r] by (intro image_eqI [of _ _ r]) (auto simp: tally_rows_iff)
qed

lemma rows_where_ids:
  "rows_where (tally_rows evs) P = ids_where evs (\<lambda>i. P (the (first_lock evs i)))"
proof -
  have inj: "inj_on row_swap_id (set (tally_rows evs))" "distinct (tally_rows evs)"
    using tally_rows_distinct [of evs] by (simp_all add: distinct_map)
  have "rows_where (tally_rows evs) P = card {r \<in> set (tally_rows evs). P r}"
    using inj(2) by (simp add: rows_where_def distinct_card [symmetric])
  also have "\<dots> = card (row_swap_id ` {r \<in> set (tally_rows evs). P r})"
    by (rule card_image [symmetric]) (auto intro: inj_on_subset [OF inj(1)])
  finally show ?thesis unfolding seen_rows ids_where_def .
qed

lemma first_id: "i \<in> locks_seen evs \<Longrightarrow> row_swap_id (the (first_lock evs i)) = i"
  using first_lock_seen [of evs i] by (auto dest: first_lock_id)

lemma ids_where_cong: "(\<And>i. i \<in> locks_seen evs \<Longrightarrow> P i = Q i) \<Longrightarrow> ids_where evs P = ids_where evs Q"
  unfolding ids_where_def by (rule arg_cong [of _ _ card]) auto

lemma outcome_at:
  assumes "i \<in> locks_seen evs"
  shows "is_claimed (tally_of evs) (the (first_lock evs i)) = ends_claimed evs i"
    "is_refunded (tally_of evs) (the (first_lock evs i)) = ends_refunded evs i"
    "is_open (tally_of evs) (the (first_lock evs i)) = ends_open evs i"
  using tally_state [of evs] first_id [OF assms]
  by (simp_all add: outcome_defs ends_claimed_def ends_refunded_def ends_open_def)

lemma outcome_ids:
  "rows_where (tally_rows evs) (\<lambda>r. A (row_recipient r) \<and> is_claimed (tally_of evs) r) =
     ids_where evs (\<lambda>i. A (seen_recipient evs i) \<and> ends_claimed evs i)"
  "rows_where (tally_rows evs) (\<lambda>r. A (row_recipient r) \<and> is_refunded (tally_of evs) r) =
     ids_where evs (\<lambda>i. A (seen_recipient evs i) \<and> ends_refunded evs i)"
  "rows_where (tally_rows evs) (\<lambda>r. A (row_recipient r) \<and> is_open (tally_of evs) r) =
     ids_where evs (\<lambda>i. A (seen_recipient evs i) \<and> ends_open evs i)"
  "rows_where (tally_rows evs) (\<lambda>r. A (row_recipient r)) = ids_where evs (\<lambda>i. A (seen_recipient evs i))"
  unfolding rows_where_ids by (rule ids_where_cong; simp add: outcome_at seen_recipient_def)+

lemma rows_split:
  "length rows = rows_where rows (is_claimed t) + rows_where rows (is_refunded t) + rows_where rows (is_open t)"
  by (induction rows) (auto simp: rows_where_def outcome_defs)

lemma maker_rows:
  "map snd (per_maker (count_loop sh t rows)) = map (maker_row sh t rows) (sorted_list_of_set (row_recipient ` set rows))"
proof -
  let ?m = "per_maker (count_loop sh t rows)"
  have ok: "bt_ok ?m" and m: "map_of ?m = (\<lambda>a. if a \<in> row_recipient ` set rows then Some (maker_row sh t rows a) else None)"
    using count_loop_state [of sh t rows] by auto
  have "dom (map_of ?m) = row_recipient ` set rows" by (auto simp: m split: if_splits)
  then have "set (map fst ?m) = row_recipient ` set rows" by (simp add: dom_map_of_conv_image_fst)
  then have keys: "map fst ?m = sorted_list_of_set (row_recipient ` set rows)" using bt_keys_sorted [OF ok] by simp
  have "snd p = maker_row sh t rows (fst p)" if "p \<in> set ?m" for p
    using map_of_is_SomeI [OF bt_distinct [OF ok], of "fst p" "snd p"] that m by (auto split: if_splits)
  then have "map snd ?m = map (maker_row sh t rows) (map fst ?m)" by simp
  then show ?thesis by (simp only: keys)
qed

lemma counts_reference:
  "counts show_address (tally_of evs) = reference_counts show_address evs"
proof -
  let ?t = "tally_of evs" let ?rows = "tally_rows evs"
  have loop: "fold (count_swap show_address ?t) (map snd (tl_locks ?t))
      \<lparr> per_maker = [], takers = {}, cs_completed = 0, cs_refunded = 0 \<rparr> = count_loop show_address ?t ?rows"
    by (simp add: count_loop_def tally_rows_def)
  note all = outcome_ids [of evs "\<lambda>_. True", simplified]
  have "length (tl_locks ?t) = length ?rows" by (simp add: tally_rows_def)
  moreover have "length ?rows = ids_where evs (\<lambda>_. True)"
    using rows_where_ids [of evs "\<lambda>_. True"] by (simp add: rows_where_def)
  moreover have "row_sender ` set ?rows = seen_sender evs ` locks_seen evs"
      "row_recipient ` set ?rows = seen_recipient evs ` locks_seen evs"
    using first_lock_seen [of evs] first_id [of _ evs]
    by (force simp: tally_rows_iff seen_sender_def seen_recipient_def image_iff)+
  ultimately show ?thesis
    using count_loop_state [of show_address ?t ?rows] rows_split [of ?rows ?t] maker_rows [of show_address ?t ?rows]
    unfolding counts_def loop Let_def reference_counts_def
    by (simp add: all maker_row_def outcome_ids [where A = "\<lambda>x. x = a" for a])
qed

section \<open>Properties\<close>

text \<open>
  C20. The report counts what it says: for any events, in any order and with any repetitions, the
  counts are those of the definition. Each swap id is one attempt, by its first lock; it is
  completed when a claim of it was seen, refunded when a refund and no claim was, open otherwise;
  the takers are counted as distinct senders; and the split by maker lists, in ascending order of
  the address, the same counts for the locks to that maker. Events of swaps that were not locked
  in the window count nowhere, and the subtraction never underflows.
\<close>

theorem counts_by_definition:
  "counts show_address (tally_of evs) = reference_counts show_address evs"
  by (rule counts_reference)

text \<open>
  The spans that a scan queries cover the block range exactly, once and in order, also at the
  largest block number; no span is empty or longer than the chunk, and an inverted range has none.
\<close>

lemma block_chunks_cover:
  "concat (map span_blocks (block_chunks from to chunk)) = [unat from..<Suc (unat to)] \<and>
   list_all (\<lambda>p. length (span_blocks p) \<le> unat (max chunk 1) \<and> span_blocks p \<noteq> []) (block_chunks from to chunk)"
proof -
  have "max chunk 1 \<noteq> 0" by (auto simp: max_def)
  from chunks_from_cover [OF this, of "from" to] show ?thesis by (simp add: block_chunks_def)
qed

end
