(* ===== verification/Report_Time.thy ===== *)
theory Report_Time
  imports Swap_Config "HOL-Library.Signed_Division"
begin

text \<open>
  Time windows of the on-chain report (\<open>src/eth/report.rs\<close>): the parser of a UTC time bound with
  its calendar arithmetic, and the two binary searches from a time to a block. The calendar is
  compared with counting days one by one, the searches with a linear scan. \<open>i64\<close> values are
  integers, wrapped to 64 bits after every operation that can leave them.
\<close>

section \<open>Calendar\<close>

definition wrap64 :: "int \<Rightarrow> int" where
  "wrap64 x = (x + 2 ^ 63) mod 2 ^ 64 - 2 ^ 63"

definition is_leap_year :: "int \<Rightarrow> bool" where
  "is_leap_year y \<longleftrightarrow> (y mod 4 = 0 \<and> y mod 100 \<noteq> 0) \<or> y mod 400 = 0"

definition days_in_month :: "int \<Rightarrow> nat \<Rightarrow> nat" where
  "days_in_month year month =
     (if month \<in> {1, 3, 5, 7, 8, 10, 12} then 31
      else if month \<in> {4, 6, 9, 11} then 30
      else if month = 2 then (if is_leap_year year then 29 else 28)
      else 0)"

definition days_from_civil :: "int \<Rightarrow> nat \<Rightarrow> nat \<Rightarrow> int" where
  "days_from_civil y0 m d =
     (let y = (if m \<le> 2 then wrap64 (y0 - 1) else y0);
          era = (if 0 \<le> y then y else wrap64 (y - 399)) sdiv 400;
          yoe = wrap64 (y - wrap64 (era * 400));
          mp = int ((m + 9) mod 12);
          doy = (153 * mp + 2) sdiv 5 + int d - 1;
          doe = yoe * 365 + yoe sdiv 4 - yoe sdiv 100 + doy in
      wrap64 (wrap64 (wrap64 (era * 146097) + doe) - 719468))"

section \<open>Parsing a bound\<close>

text \<open>\<open>str::parse\<close> for an unsigned integer below \<open>2 ^ w\<close>, and for \<open>i64\<close>.\<close>

definition parse_uint :: "nat \<Rightarrow> string \<Rightarrow> nat option" where
  "parse_uint w s =
     (let ds = (if s \<noteq> [] \<and> hd s = CHR ''+'' then List.tl s else s) in
      if ds = [] then None
      else (case parse_digits 0 ds of
              None \<Rightarrow> None
            | Some n \<Rightarrow> if n < 2 ^ w then Some n else None))"

definition parse_i64 :: "string \<Rightarrow> int option" where
  "parse_i64 s =
     (if s \<noteq> [] \<and> hd s = CHR ''-''
      then (if List.tl s = [] then None
            else (case parse_digits 0 (List.tl s) of
                    None \<Rightarrow> None
                  | Some n \<Rightarrow> if n \<le> 2 ^ 63 then Some (- int n) else None))
      else map_option int (parse_uint 63 s))"

fun split_on :: "char \<Rightarrow> string \<Rightarrow> string list" where
  "split_on d [] = [[]]"
| "split_on d (c # cs) =
     (if c = d then [] # split_on d cs
      else (case split_on d cs of p # ps \<Rightarrow> (c # p) # ps | [] \<Rightarrow> [[c]]))"

text \<open>\<open>split_once(['T', ' '])\<close>: at the first of either.\<close>

fun split_date_time :: "string \<Rightarrow> string \<times> string option" where
  "split_date_time [] = ([], None)"
| "split_date_time (c # cs) =
     (if c = CHR ''T'' \<or> c = CHR '' '' then ([], Some cs)
      else (case split_date_time cs of (d, t) \<Rightarrow> (c # d, t)))"

text \<open>An absent minute or second is 0.\<close>

definition time_part :: "string \<Rightarrow> string option \<Rightarrow> string + nat" where
  "time_part err part =
     (case part of
        None \<Rightarrow> Inr 0
      | Some p \<Rightarrow> (case parse_uint 64 p of Some n \<Rightarrow> Inr n | None \<Rightarrow> Inl err))"

definition nth_part :: "nat \<Rightarrow> string list \<Rightarrow> string option" where
  "nth_part k ps = (if k < length ps then Some (ps ! k) else None)"

definition parse_time_of_day :: "string option \<Rightarrow> string + nat \<times> nat \<times> nat" where
  "parse_time_of_day time =
     (case time of
        None \<Rightarrow> Inr (0, 0, 0)
      | Some t \<Rightarrow>
          (let ps = split_on (CHR '':'') t in
           case time_part ''invalid hour'' (nth_part 0 ps) of
             Inl e \<Rightarrow> Inl e
           | Inr hh \<Rightarrow>
               (case time_part ''invalid minute'' (nth_part 1 ps) of
                  Inl e \<Rightarrow> Inl e
                | Inr mm \<Rightarrow>
                    (case time_part ''invalid second'' (nth_part 2 ps) of
                       Inl e \<Rightarrow> Inl e
                     | Inr ss \<Rightarrow>
                         if 3 < length ps \<or> 23 < hh \<or> 59 < mm \<or> 59 < ss then Inl ''invalid time-of-day''
                         else Inr (hh, mm, ss)))))"

text \<open>\<open>u64::try_from\<close> of the seconds.\<close>

definition civil_seconds :: "int \<Rightarrow> nat \<Rightarrow> nat \<Rightarrow> nat \<times> nat \<times> nat \<Rightarrow> string + u64" where
  "civil_seconds year month day = (\<lambda>(hh, mm, ss).
     (let secs = wrap64 (wrap64 (days_from_civil year month day * 86400) + int (hh * 3600 + mm * 60 + ss)) in
      if secs < 0 then Inl ''before the Unix epoch'' else Inr (of_int secs)))"

definition parse_civil :: "string \<Rightarrow> string option \<Rightarrow> string + u64" where
  "parse_civil date time =
     (case split_on (CHR ''-'') date of
        [y, m, d] \<Rightarrow>
          (case parse_i64 y of
             None \<Rightarrow> Inl ''invalid year''
           | Some year \<Rightarrow>
               (case parse_uint 32 m of
                  None \<Rightarrow> Inl ''invalid month''
                | Some month \<Rightarrow>
                    (case parse_uint 32 d of
                       None \<Rightarrow> Inl ''invalid day''
                     | Some day \<Rightarrow>
                         if \<not> (1 \<le> month \<and> month \<le> 12) then Inl ''no such month''
                         else if \<not> (1 \<le> day \<and> day \<le> days_in_month year month) then Inl ''no such day''
                         else (case parse_time_of_day time of
                                 Inl e \<Rightarrow> Inl e
                               | Inr hms \<Rightarrow> civil_seconds year month day hms))))
      | _ \<Rightarrow> Inl ''expected a Unix timestamp, YYYY-MM-DD, or YYYY-MM-DDTHH:MM:SS (UTC)'')"

definition is_digit :: "char \<Rightarrow> bool" where
  "is_digit c \<longleftrightarrow> digit_val c \<noteq> None"

definition parse_time_arg :: "string \<Rightarrow> string + u64" where
  "parse_time_arg s0 =
     (let s = trim s0 in
      if s = [] then Inl ''empty time value''
      else if list_all is_digit s then
        (case parse_uint 64 s of Some n \<Rightarrow> Inr (of_nat n) | None \<Rightarrow> Inl ''invalid Unix timestamp'')
      else
        (let body = (if last s = CHR ''Z'' then butlast s else s) in
         case split_date_time body of (date, time) \<Rightarrow> parse_civil date time))"

section \<open>Counting days\<close>

text \<open>The reference: the day after a date, and the days since 1970-01-01 by counting.\<close>

fun next_day :: "int \<times> nat \<times> nat \<Rightarrow> int \<times> nat \<times> nat" where
  "next_day (y, m, d) =
     (if d < days_in_month y m then (y, m, d + 1)
      else if m < 12 then (y, m + 1, 1)
      else (y + 1, 1, 1))"

definition date_after :: "nat \<Rightarrow> int \<times> nat \<times> nat" where
  "date_after n = (next_day ^^ n) (1970, 1, 1)"

fun valid_date :: "int \<times> nat \<times> nat \<Rightarrow> bool" where
  "valid_date (y, m, d) \<longleftrightarrow> 1 \<le> m \<and> m \<le> 12 \<and> 1 \<le> d \<and> d \<le> days_in_month y m"

lemma wrap64_id: "- (2 ^ 63) \<le> x \<Longrightarrow> x < 2 ^ 63 \<Longrightarrow> wrap64 x = x"
  by (simp add: wrap64_def)

lemma sdiv_pos: "0 \<le> a \<Longrightarrow> 0 < b \<Longrightarrow> a sdiv b = a div b" for a b :: int
  by (auto simp: signed_divide_int_def sgn_if zdiv_zmult2_eq)

text \<open>The civil day number without the case splits on the era, for years that need no wrapping.\<close>

definition year_days :: "int \<Rightarrow> int" where
  "year_days y = 365 * y + y div 4 - y div 100 + y div 400"

definition month_days :: "nat \<Rightarrow> int" where
  "month_days m = (153 * int ((m + 9) mod 12) + 2) div 5"

lemma month_days_bounds: "0 \<le> month_days m" "month_days m \<le> 337"
proof -
  have "int ((m + 9) mod 12) \<le> 11" by simp
  then show "0 \<le> month_days m" "month_days m \<le> 337" by (auto simp: month_days_def)
qed

lemma days_from_civil_plain:
  assumes "0 \<le> y" "y \<le> 1000000000000" "m \<le> 12" "d \<le> 31"
  shows "days_from_civil y m d =
    year_days (if m \<le> 2 then y - 1 else y) + month_days m + int d - 1 - 719468"
proof -
  define y' where "y' = (if m \<le> 2 then y - 1 else y)"
  define q where "q = y' div 400"
  define r where "r = y' mod 400"
  have y': "- 1 \<le> y'" "y' \<le> 1000000000000" using assms by (auto simp: y'_def)
  have qr: "y' = 400 * q + r" "0 \<le> r" "r < 400" by (simp_all add: q_def r_def)
  have q: "- 1 \<le> q" "q \<le> 10000000000" using y' qr by linarith+
  have "wrap64 (y - 1) = y - 1" using assms by (intro wrap64_id) auto
  then have w: "(if m \<le> 2 then wrap64 (y - 1) else y) = y'" by (simp add: y'_def)
  have era: "(if 0 \<le> y' then y' else wrap64 (y' - 399)) sdiv 400 = q"
  proof (cases "0 \<le> y'")
    case False
    then have "y' = - 1" using y' by simp
    then show ?thesis by (simp add: q_def wrap64_def signed_divide_int_def)
  qed (simp add: sdiv_pos q_def)
  have "wrap64 (q * 400) = q * 400" using q by (intro wrap64_id) auto
  moreover have "wrap64 (y' - q * 400) = r" using qr by (subst wrap64_id) auto
  ultimately have yoe: "wrap64 (y' - wrap64 (q * 400)) = r" by simp
  have yd: "year_days y' = 146097 * q + (r * 365 + r div 4 - r div 100)"
  proof -
    have "y' div 4 = 100 * q + r div 4" "y' div 100 = 4 * q + r div 100" "y' div 400 = q"
      using qr by (simp_all add: q_def) (presburger+)?
    then show ?thesis using qr(1) by (simp add: year_days_def)
  qed
  define doe where "doe = r * 365 + r div 4 - r div 100 + (month_days m + int d - 1)"
  have "r div 4 \<le> 99" "0 \<le> r div 4" "r div 100 \<le> 3" "0 \<le> r div 100" using qr by auto
  then have doe: "- 1000 \<le> doe" "doe \<le> 200000"
    using qr month_days_bounds [of m] assms(4) by (auto simp: doe_def)
  have "wrap64 (q * 146097) = q * 146097" using q by (intro wrap64_id) auto
  moreover have "wrap64 (q * 146097 + doe) = q * 146097 + doe" using q doe by (intro wrap64_id) auto
  moreover have "wrap64 (q * 146097 + doe - 719468) = q * 146097 + doe - 719468" using q doe by (intro wrap64_id) auto
  moreover have "(153 * int ((m + 9) mod 12) + 2) sdiv 5 = month_days m"
    by (simp add: month_days_def sdiv_pos)
  ultimately show ?thesis
    unfolding days_from_civil_def Let_def w era yoe yd y'_def [symmetric]
    using qr(2) by (simp add: sdiv_pos doe_def)
qed

text \<open>One more day.\<close>

lemma div_pred: "0 < k \<Longrightarrow> (y - 1) div k = y div k - (if y mod k = 0 then 1 else 0)" for y k :: int
proof -
  assume k: "0 < k"
  have "(y - 1) div k = (y mod k - 1 + k * (y div k)) div k" by (simp add: algebra_simps)
  also have "\<dots> = (y mod k - 1) div k + y div k" using k by simp
  finally have "(y - 1) div k = (y mod k - 1) div k + y div k" .
  moreover have "(y mod k - 1) div k = (if y mod k = 0 then - 1 else 0)"
    using k pos_mod_bound [OF k, of y] pos_mod_sign [OF k, of y] by (auto simp: zdiv_eq_0_iff div_eq_minus1)
  ultimately show ?thesis by auto
qed

lemma year_step: "year_days y - year_days (y - 1) = (if is_leap_year y then 366 else 365)"
proof -
  have "y mod 100 = 0" if "y mod 400 = 0" using that by presburger
  moreover have "y mod 4 = 0" if "y mod 100 = 0" using that by presburger
  ultimately show ?thesis by (auto simp: year_days_def is_leap_year_def div_pred)
qed

lemma months: "1 \<le> m \<Longrightarrow> m \<le> 12 \<Longrightarrow> m = 1 \<or> m = 2 \<or> m = 3 \<or> m = 4 \<or> m = 5 \<or> m = 6 \<or> m = 7 \<or> m = 8 \<or> m = 9 \<or>
  m = 10 \<or> m = 11 \<or> m = (12::nat)"
  by presburger

lemma next_day_valid: "valid_date x \<Longrightarrow> valid_date (next_day x)"
proof (induction x rule: next_day.induct)
  case (1 y m d)
  then have "1 \<le> days_in_month y (m + 1)" if "m < 12"
    using that months [of m] by (auto simp: days_in_month_def)
  with 1 show ?case by (auto simp: days_in_month_def)
qed

fun civil :: "int \<times> nat \<times> nat \<Rightarrow> int" where
  "civil (y, m, d) = days_from_civil y m d"

lemma next_day_civil:
  assumes "valid_date (y, m, d)" "0 \<le> y" "y < 1000000000000"
  shows "civil (next_day (y, m, d)) = civil (y, m, d) + 1"
proof -
  have m: "m = 1 \<or> m = 2 \<or> m = 3 \<or> m = 4 \<or> m = 5 \<or> m = 6 \<or> m = 7 \<or> m = 8 \<or> m = 9 \<or> m = 10 \<or> m = 11 \<or> m = 12"
    using assms(1) months [of m] by simp
  have d: "d \<le> 31" "1 \<le> d" using assms(1) by (auto simp: days_in_month_def split: if_splits)
  show ?thesis
  proof (cases "d < days_in_month y m")
    case True
    then have "d + 1 \<le> 31" by (auto simp: days_in_month_def split: if_splits)
    with True show ?thesis using assms m d by (auto simp: days_from_civil_plain)
  next
    case False
    then have "d = days_in_month y m" using assms(1) by simp
    then show ?thesis using assms(2,3) m year_step [of y]
      by (elim disjE) (auto simp: days_from_civil_plain month_days_def days_in_month_def)
  qed
qed

lemma date_after_year: "valid_date (date_after n) \<and> 1970 \<le> fst (date_after n) \<and> fst (date_after n) \<le> 1970 + int n"
proof (induction n)
  case (Suc n)
  obtain y m d where x: "date_after n = (y, m, d)" by (cases "date_after n")
  have "date_after (Suc n) = next_day (y, m, d)" using x by (simp add: date_after_def)
  then show ?case using Suc x next_day_valid [of "(y, m, d)"] by auto
qed (simp add: date_after_def days_in_month_def)

lemma civil_date_after: "n \<le> 100000000000 \<Longrightarrow> civil (date_after n) = int n"
proof (induction n)
  case 0
  show ?case by (simp add: date_after_def days_from_civil_plain year_days_def month_days_def)
next
  case (Suc n)
  obtain y m d where x: "date_after n = (y, m, d)" by (cases "date_after n")
  have "date_after (Suc n) = next_day (y, m, d)" using x by (simp add: date_after_def)
  then show ?case using Suc next_day_civil [of y m d] date_after_year [of n] x by simp
qed


section \<open>Printing a date\<close>

fun print_date :: "int \<times> nat \<times> nat \<Rightarrow> string" where
  "print_date (y, m, d) = show_nat (nat y) @ CHR ''-'' # show_padded 2 m @ CHR ''-'' # show_padded 2 d"

lemma is_digits_padded [simp]: "is_digits (show_padded k n)"
  by (simp add: show_padded_def)

lemma parse_padded: "parse_digits 0 (show_padded k n) = Some n"
  by (simp add: show_padded_def parse_zeros parse_show_nat)

lemma padded_nonempty [simp]: "show_padded k n \<noteq> []"
  by (simp add: show_padded_def)

lemma parse_uint_digits:
  assumes "is_digits s" "s \<noteq> []" "parse_digits 0 s = Some n" "n < 2 ^ w"
  shows "parse_uint w s = Some n"
  using assms digit_not_special(2) [of "hd s"] by (auto simp: parse_uint_def is_digits_def)

lemma digit_not_sep: "digit_val c \<noteq> None \<Longrightarrow> c \<noteq> CHR ''-'' \<and> c \<noteq> CHR ''T'' \<and> c \<noteq> CHR '' '' \<and> c \<noteq> CHR ''Z''"
  by (auto simp: digit_val_def Let_def split: if_splits)

lemma split_on_None: "c \<notin> set xs \<Longrightarrow> split_on c xs = [xs]"
  by (induction xs) auto

lemma split_on_append: "c \<notin> set xs \<Longrightarrow> split_on c (xs @ c # ys) = xs # split_on c ys"
  by (induction xs) auto

lemma split_date_only: "CHR ''T'' \<notin> set xs \<Longrightarrow> CHR '' '' \<notin> set xs \<Longrightarrow> split_date_time xs = (xs, None)"
  by (induction xs) auto

lemma digits_notin: "is_digits s \<Longrightarrow> CHR ''-'' \<notin> set s \<and> CHR ''T'' \<notin> set s \<and> CHR '' '' \<notin> set s"
  using digit_not_sep unfolding is_digits_def by blast

lemma parse_printed_date:
  assumes "valid_date (y, m, d)" "0 \<le> y" "y < 2 ^ 63"
  shows "parse_time_arg (print_date (y, m, d)) = civil_seconds y m d (0, 0, 0)"
proof -
  let ?s = "print_date (y, m, d)"
  let ?y = "show_nat (nat y)" let ?m = "show_padded 2 m" let ?d = "show_padded 2 d"
  have dg: "is_digits ?y" "is_digits ?m" "is_digits ?d" "?y \<noteq> []" "?m \<noteq> []" "?d \<noteq> []" by simp_all
  have ends: "digit_val (hd ?s) \<noteq> None" "digit_val (last ?s) \<noteq> None"
    using dg hd_in_set [of ?y] last_in_set [of ?d] by (auto simp: is_digits_def)
  have t: "trim ?s = ?s" using ends digit_not_special(3) by (intro trim_id) auto
  have z: "last ?s \<noteq> CHR ''Z''" using digit_not_sep [OF ends(2)] by simp
  have nd: "\<not> list_all is_digit ?s" by (auto simp: is_digit_def digit_val_def)
  have st: "split_date_time ?s = (?s, None)"
    using digits_notin [OF dg(1)] digits_notin [OF dg(2)] digits_notin [OF dg(3)] by (intro split_date_only) auto
  have sp: "split_on (CHR ''-'') ?s = [?y, ?m, ?d]"
    using digits_notin [OF dg(1)] digits_notin [OF dg(2)] digits_notin [OF dg(3)]
    by (simp add: split_on_append split_on_None)
  have py: "parse_i64 ?y = Some y"
  proof -
    have "hd ?y \<noteq> CHR ''-''" using digits_notin [OF dg(1)] hd_in_set [OF dg(4)] by metis
    moreover have "parse_uint 63 ?y = Some (nat y)"
      using assms by (intro parse_uint_digits) (simp_all add: parse_show_nat)
    ultimately show ?thesis using assms by (simp add: parse_i64_def)
  qed
  have md: "m \<le> 12" "1 \<le> m" "1 \<le> d" "d \<le> days_in_month y m" "days_in_month y m \<le> 31"
    using assms(1) by (auto simp: days_in_month_def)
  have pm: "parse_uint 32 ?m = Some m" and pd: "parse_uint 32 ?d = Some d"
    using md by (intro parse_uint_digits; simp add: parse_padded)+
  have "?s \<noteq> []" by simp
  then have "parse_time_arg ?s = parse_civil ?s None"
    unfolding parse_time_arg_def Let_def t using nd z st by (simp del: print_date.simps)
  also have "\<dots> = civil_seconds y m d (0, 0, 0)"
    unfolding parse_civil_def sp using md by (simp add: py pm pd parse_time_of_day_def)
  finally show ?thesis .
qed

section \<open>From a time to a block\<close>

text \<open>\<open>fetch\<close> reads the timestamp of a block; it may do anything to the world \<open>'w\<close> and may fail.\<close>

function first_search ::
  "(u64 \<Rightarrow> ('w, (swap_error, u64) res) state) \<Rightarrow> u64 \<Rightarrow> u64 \<Rightarrow> u64 \<Rightarrow> ('w, (swap_error, u64 option) res) state" where
  "first_search fetch target lo hi =
     (if lo < hi then
        (let mid = lo + (hi - lo) div 2 in
         tryM (fetch mid) (\<lambda>ts.
           if target \<le> ts then first_search fetch target lo mid
           else first_search fetch target (mid + 1) hi))
      else ret (Ok (Some lo)))"
  by pat_completeness auto

lemma unat_mid: "lo < hi \<Longrightarrow> unat (lo + (hi - lo) div 2) = (unat lo + unat hi) div 2" for lo hi :: u64
proof -
  assume a: "lo < hi"
  then have d: "unat ((hi - lo) div 2) = (unat hi - unat lo) div 2"
    by (simp add: unat_div unat_sub word_less_nat_alt word_le_nat_alt)
  have "unat lo + (unat hi - unat lo) div 2 < 2 ^ 64"
    using a unat_less_pow [of hi] by (simp add: word_less_nat_alt)
  then show ?thesis using a d by (simp add: unat_word_ariths(1) word_less_nat_alt)
qed

lemma unat_next: "lo < hi \<Longrightarrow> unat (lo + (hi - lo) div 2 + 1) = Suc ((unat lo + unat hi) div 2)" for lo hi :: u64
proof -
  assume a: "lo < hi"
  have "Suc ((unat lo + unat hi) div 2) < 2 ^ 64"
    using a unat_less_pow [of hi] by (simp add: word_less_nat_alt)
  then show ?thesis using unat_mid [OF a] by (simp add: unat_word_ariths(1))
qed

termination first_search
  by (relation "measure (\<lambda>(f, t, lo, hi). unat hi - unat lo)") (auto simp: unat_mid unat_next word_less_nat_alt)

declare first_search.simps [simp del]

definition first_block_at_or_after ::
  "u64 \<Rightarrow> u64 \<Rightarrow> u64 \<Rightarrow> (u64 \<Rightarrow> ('w, (swap_error, u64) res) state) \<Rightarrow> ('w, (swap_error, u64 option) res) state" where
  "first_block_at_or_after lo hi target fetch =
     (if hi < lo then ret (Ok None)
      else tryM (fetch hi) (\<lambda>ts.
        if ts < target then ret (Ok None) else first_search fetch target lo hi))"

function last_search ::
  "(u64 \<Rightarrow> ('w, (swap_error, u64) res) state) \<Rightarrow> u64 \<Rightarrow> u64 \<Rightarrow> u64 \<Rightarrow> ('w, (swap_error, u64 option) res) state" where
  "last_search fetch target lo hi =
     (if lo < hi then
        (let mid = hi - (hi - lo) div 2 in
         tryM (fetch mid) (\<lambda>ts.
           if ts \<le> target then last_search fetch target mid hi
           else last_search fetch target lo (mid - 1)))
      else ret (Ok (Some lo)))"
  by pat_completeness auto

lemma unat_mid_up: "lo < hi \<Longrightarrow> unat (hi - (hi - lo) div 2) = (unat lo + unat hi + 1) div 2" for lo hi :: u64
proof -
  assume a: "lo < hi"
  then have d: "unat ((hi - lo) div 2) = (unat hi - unat lo) div 2"
    by (simp add: unat_div unat_sub word_less_nat_alt word_le_nat_alt)
  then have "(hi - lo) div 2 \<le> hi" by (simp add: word_le_nat_alt)
  then show ?thesis using a d by (simp add: unat_sub word_le_nat_alt word_less_nat_alt)
qed

lemma unat_prev: "lo < hi \<Longrightarrow> unat (hi - (hi - lo) div 2 - 1) = (unat lo + unat hi + 1) div 2 - 1" for lo hi :: u64
proof -
  assume a: "lo < hi"
  then have "0 < unat (hi - (hi - lo) div 2)" by (simp add: unat_mid_up word_less_nat_alt)
  then show ?thesis using unat_mid_up [OF a] by (metis neq0_conv unat_0 unat_minus_one)
qed

termination last_search
  by (relation "measure (\<lambda>(f, t, lo, hi). unat hi - unat lo)") (auto simp: unat_mid_up unat_prev word_less_nat_alt)

declare last_search.simps [simp del]

definition last_block_at_or_before ::
  "u64 \<Rightarrow> u64 \<Rightarrow> u64 \<Rightarrow> (u64 \<Rightarrow> ('w, (swap_error, u64) res) state) \<Rightarrow> ('w, (swap_error, u64 option) res) state" where
  "last_block_at_or_before lo hi target fetch =
     (if hi < lo then ret (Ok None)
      else tryM (fetch lo) (\<lambda>ts.
        if target < ts then ret (Ok None) else last_search fetch target lo hi))"


section \<open>The searches and a linear scan\<close>

text \<open>The blocks of a range in ascending order, and a fetch that logs what it was asked.\<close>

definition block_range :: "u64 \<Rightarrow> u64 \<Rightarrow> u64 list" where
  "block_range lo hi = map of_nat [unat lo..<Suc (unat hi)]"

definition logged :: "(u64 \<Rightarrow> u64) \<Rightarrow> u64 \<Rightarrow> (u64 list, (swap_error, u64) res) state" where
  "logged ts b = do { modify (\<lambda>l. l @ [b]); ret (Ok (ts b)) }"

lemma run_logged [simp]: "run_state (logged ts b) l = (Ok (ts b), l @ [b])"
  by (simp add: logged_def)

definition increasing :: "u64 \<Rightarrow> u64 \<Rightarrow> (u64 \<Rightarrow> u64) \<Rightarrow> bool" where
  "increasing lo hi ts \<longleftrightarrow> (\<forall>a b. lo \<le> a \<and> a \<le> b \<and> b \<le> hi \<longrightarrow> ts a \<le> ts b)"

lemma increasing_sub: "increasing lo hi ts \<Longrightarrow> lo \<le> lo' \<Longrightarrow> hi' \<le> hi \<Longrightarrow> increasing lo' hi' ts"
  unfolding increasing_def by (meson order_trans)

lemma increasingD: "increasing lo hi ts \<Longrightarrow> lo \<le> a \<Longrightarrow> a \<le> b \<Longrightarrow> b \<le> hi \<Longrightarrow> ts a \<le> ts b"
  unfolding increasing_def by blast

lemma unat_of_nat_le: "k \<le> unat hi \<Longrightarrow> unat (of_nat k :: u64) = k" for hi :: u64
  using unat_less_pow [of hi] by (simp add: unat_of_nat take_bit_nat_eq_self)

lemma find_first:
  assumes "lo \<le> b" "b \<le> hi" "P b" "\<And>a. lo \<le> a \<Longrightarrow> a < b \<Longrightarrow> \<not> P a"
  shows "find P (block_range lo hi) = Some b"
proof -
  let ?i = "unat b - unat lo" let ?xs = "block_range lo hi"
  have le: "unat lo \<le> unat b" "unat b \<le> unat hi" using assms(1,2) by (simp_all add: word_le_nat_alt)
  have nth: "?xs ! j = of_nat (unat lo + j)" if "j \<le> ?i" for j
    using that le by (simp add: block_range_def nth_append del: upt_Suc)
  have "\<not> P (?xs ! j)" if "j < ?i" for j
  proof -
    define a :: u64 where "a = of_nat (unat lo + j)"
    have "unat a = unat lo + j" using that le unfolding a_def by (intro unat_of_nat_le [of _ hi]) simp
    then have "\<not> P a" using that le by (intro assms(4)) (simp_all add: word_le_nat_alt word_less_nat_alt)
    then show ?thesis using nth [of j] that by (simp add: a_def)
  qed
  moreover have "?i < length ?xs" using le by (simp add: block_range_def)
  moreover have "?xs ! ?i = b" using nth [of ?i] le by simp
  ultimately show ?thesis using assms(3) unfolding find_Some_iff by metis
qed

lemma find_last:
  assumes "lo \<le> b" "b \<le> hi" "P b" "\<And>a. b < a \<Longrightarrow> a \<le> hi \<Longrightarrow> \<not> P a"
  shows "find P (rev (block_range lo hi)) = Some b"
proof -
  let ?i = "unat hi - unat b" let ?xs = "block_range lo hi"
  have le: "unat lo \<le> unat b" "unat b \<le> unat hi" using assms(1,2) by (simp_all add: word_le_nat_alt)
  have nth: "rev ?xs ! j = of_nat (unat hi - j)" if "j \<le> ?i" for j
    using that le by (simp add: block_range_def rev_nth nth_append Suc_diff_le del: upt_Suc)
  have "\<not> P (rev ?xs ! j)" if "j < ?i" for j
  proof -
    define a :: u64 where "a = of_nat (unat hi - j)"
    have "unat a = unat hi - j" unfolding a_def by (intro unat_of_nat_le [of _ hi]) simp
    then have "\<not> P a" using that le by (intro assms(4)) (simp_all add: word_le_nat_alt word_less_nat_alt)
    then show ?thesis using nth [of j] that by (simp add: a_def)
  qed
  moreover have "?i < length (rev ?xs)" using le by (simp add: block_range_def)
  moreover have "rev ?xs ! ?i = b" using nth [of ?i] le by simp
  ultimately show ?thesis using assms(3) unfolding find_Some_iff by metis
qed

lemma find_none: "(\<And>a. lo \<le> a \<Longrightarrow> a \<le> hi \<Longrightarrow> \<not> P a) \<Longrightarrow> find P (block_range lo hi) = None"
  by (auto simp: find_None_iff block_range_def word_le_nat_alt unat_of_nat_le [of _ hi] simp del: upt_Suc)

lemma find_none_rev: "(\<And>a. lo \<le> a \<Longrightarrow> a \<le> hi \<Longrightarrow> \<not> P a) \<Longrightarrow> find P (rev (block_range lo hi)) = None"
  using find_none [of lo hi P] by (simp add: find_None_iff)

lemma first_search_run:
  assumes "unat hi - unat lo < 2 ^ k" "lo \<le> hi" "increasing lo hi ts" "target \<le> ts hi"
  shows "\<exists>b l. run_state (first_search (logged ts) target lo hi) w = (Ok (Some b), w @ l) \<and> length l \<le> k \<and>
    lo \<le> b \<and> b \<le> hi \<and> target \<le> ts b \<and> (\<forall>a. lo \<le> a \<and> a < b \<longrightarrow> ts a < target)"
  using assms
proof (induction k arbitrary: lo hi w)
  case 0
  then have "lo = hi" by (simp add: word_unat_eq_iff word_le_nat_alt)
  then show ?case using 0 by (intro exI [of _ lo] exI [of _ "[]"]) (auto simp: first_search.simps [of _ _ hi hi])
next
  case (Suc k)
  show ?case
  proof (cases "lo < hi")
    case False
    then have "lo = hi" using Suc.prems by simp
    then show ?thesis using Suc.prems by (intro exI [of _ lo] exI [of _ "[]"]) (auto simp: first_search.simps [of _ _ hi hi])
  next
    case True
    define mid where "mid = lo + (hi - lo) div 2"
    have um: "unat mid = (unat lo + unat hi) div 2" "unat (mid + 1) = Suc ((unat lo + unat hi) div 2)"
      using unat_mid [OF True] unat_next [OF True] by (simp_all add: mid_def)
    have m: "lo \<le> mid" "mid < hi" "mid + 1 \<le> hi" "lo \<le> mid + 1"
      using True um by (simp_all add: word_le_nat_alt word_less_nat_alt)
    have size: "unat mid - unat lo < 2 ^ k" "unat hi - unat (mid + 1) < 2 ^ k"
      using Suc.prems(1) um True by (simp_all add: word_less_nat_alt)
    have step: "run_state (first_search (logged ts) target lo hi) w =
        run_state (if target \<le> ts mid then first_search (logged ts) target lo mid
          else first_search (logged ts) target (mid + 1) hi) (w @ [mid])"
      using True by (subst first_search.simps) (simp add: run_tryM mid_def Let_def)
    show ?thesis
    proof (cases "target \<le> ts mid")
      case t: True
      have "increasing lo mid ts" using m by (intro increasing_sub [OF Suc.prems(3)]) auto
      from Suc.IH [OF size(1) m(1) this t, of "w @ [mid]"]
      obtain b l where b: "run_state (first_search (logged ts) target lo mid) (w @ [mid]) = (Ok (Some b), (w @ [mid]) @ l)"
        "length l \<le> k" "lo \<le> b" "b \<le> mid" "target \<le> ts b" "\<forall>a. lo \<le> a \<and> a < b \<longrightarrow> ts a < target" by blast
      then show ?thesis unfolding step using t m by (intro exI [of _ b] exI [of _ "mid # l"]) auto
    next
      case f: False
      have below: "ts a < target" if "lo \<le> a" "a < mid + 1" for a
      proof -
        have "a \<le> mid" using that um by (simp add: word_le_nat_alt word_less_nat_alt)
        then show ?thesis using increasingD [OF Suc.prems(3) that(1)] m f by (meson less_imp_le not_le order.strict_trans1)
      qed
      have "increasing (mid + 1) hi ts" using m by (intro increasing_sub [OF Suc.prems(3)]) auto
      from Suc.IH [OF size(2) m(3) this Suc.prems(4), of "w @ [mid]"]
      obtain b l where b: "run_state (first_search (logged ts) target (mid + 1) hi) (w @ [mid]) = (Ok (Some b), (w @ [mid]) @ l)"
        "length l \<le> k" "mid + 1 \<le> b" "b \<le> hi" "target \<le> ts b" "\<forall>a. mid + 1 \<le> a \<and> a < b \<longrightarrow> ts a < target"
        by blast
      have "\<forall>a. lo \<le> a \<and> a < b \<longrightarrow> ts a < target" using b(6) below by (meson not_le)
      moreover have "lo \<le> b" using b(3) m(4) by simp
      ultimately show ?thesis unfolding step using f b by (intro exI [of _ b] exI [of _ "mid # l"]) simp
    qed
  qed
qed

lemma last_search_run:
  assumes "unat hi - unat lo < 2 ^ k" "lo \<le> hi" "increasing lo hi ts" "ts lo \<le> target"
  shows "\<exists>b l. run_state (last_search (logged ts) target lo hi) w = (Ok (Some b), w @ l) \<and> length l \<le> k \<and>
    lo \<le> b \<and> b \<le> hi \<and> ts b \<le> target \<and> (\<forall>a. b < a \<and> a \<le> hi \<longrightarrow> target < ts a)"
  using assms
proof (induction k arbitrary: lo hi w)
  case 0
  then have "lo = hi" by (simp add: word_unat_eq_iff word_le_nat_alt)
  then show ?case using 0 by (intro exI [of _ lo] exI [of _ "[]"]) (auto simp: last_search.simps [of _ _ hi hi])
next
  case (Suc k)
  show ?case
  proof (cases "lo < hi")
    case False
    then have "lo = hi" using Suc.prems by simp
    then show ?thesis using Suc.prems by (intro exI [of _ lo] exI [of _ "[]"]) (auto simp: last_search.simps [of _ _ hi hi])
  next
    case True
    define mid where "mid = hi - (hi - lo) div 2"
    have um: "unat mid = (unat lo + unat hi + 1) div 2" "unat (mid - 1) = (unat lo + unat hi + 1) div 2 - 1"
      using unat_mid_up [OF True] unat_prev [OF True] by (simp_all add: mid_def)
    have m: "lo < mid" "mid \<le> hi" "mid - 1 \<le> hi" "lo \<le> mid - 1"
      using True um by (simp_all add: word_le_nat_alt word_less_nat_alt)
    have size: "unat hi - unat mid < 2 ^ k" "unat (mid - 1) - unat lo < 2 ^ k"
      using Suc.prems(1) um True by (simp_all add: word_less_nat_alt)
    have step: "run_state (last_search (logged ts) target lo hi) w =
        run_state (if ts mid \<le> target then last_search (logged ts) target mid hi
          else last_search (logged ts) target lo (mid - 1)) (w @ [mid])"
      using True by (subst last_search.simps) (simp add: run_tryM mid_def Let_def)
    show ?thesis
    proof (cases "ts mid \<le> target")
      case t: True
      have "increasing mid hi ts" using m by (intro increasing_sub [OF Suc.prems(3)]) auto
      from Suc.IH [OF size(1) m(2) this t, of "w @ [mid]"]
      obtain b l where b: "run_state (last_search (logged ts) target mid hi) (w @ [mid]) = (Ok (Some b), (w @ [mid]) @ l)"
        "length l \<le> k" "mid \<le> b" "b \<le> hi" "ts b \<le> target" "\<forall>a. b < a \<and> a \<le> hi \<longrightarrow> target < ts a" by blast
      then show ?thesis unfolding step using t m by (intro exI [of _ b] exI [of _ "mid # l"]) auto
    next
      case f: False
      have above: "target < ts a" if "a \<le> hi" "\<not> a \<le> mid - 1" for a
      proof -
        have "mid \<le> a" using that um by (simp add: word_le_nat_alt)
        then show ?thesis using increasingD [OF Suc.prems(3) _ _ that(1)] m f by (meson less_imp_le not_le order.strict_trans2)
      qed
      have "increasing lo (mid - 1) ts" using m by (intro increasing_sub [OF Suc.prems(3)]) auto
      from Suc.IH [OF size(2) m(4) this Suc.prems(4), of "w @ [mid]"]
      obtain b l where b: "run_state (last_search (logged ts) target lo (mid - 1)) (w @ [mid]) = (Ok (Some b), (w @ [mid]) @ l)"
        "length l \<le> k" "lo \<le> b" "b \<le> mid - 1" "ts b \<le> target" "\<forall>a. b < a \<and> a \<le> mid - 1 \<longrightarrow> target < ts a" by blast
      then show ?thesis unfolding step using f m above by (intro exI [of _ b] exI [of _ "mid # l"]) auto
    qed
  qed
qed

lemma searches_scan:
  assumes "increasing lo hi ts"
  shows "\<exists>l l'. run_state (first_block_at_or_after lo hi target (logged ts)) [] =
      (Ok (find (\<lambda>b. target \<le> ts b) (block_range lo hi)), l) \<and> length l \<le> 65 \<and>
    run_state (last_block_at_or_before lo hi target (logged ts)) [] =
      (Ok (find (\<lambda>b. ts b \<le> target) (rev (block_range lo hi))), l') \<and> length l' \<le> 65"
proof -
  have size: "unat hi - unat lo < 2 ^ 64" using unat_less_pow [of hi] by simp
  have "\<exists>l. run_state (first_block_at_or_after lo hi target (logged ts)) [] =
      (Ok (find (\<lambda>b. target \<le> ts b) (block_range lo hi)), l) \<and> length l \<le> 65"
  proof (cases "lo \<le> hi \<and> target \<le> ts hi")
    case True
    from first_search_run [OF size _ assms, of target "[hi]"] True obtain b l where
      "run_state (first_search (logged ts) target lo hi) [hi] = (Ok (Some b), [hi] @ l)" "length l \<le> 64"
      "lo \<le> b" "b \<le> hi" "target \<le> ts b" "\<forall>a. lo \<le> a \<and> a < b \<longrightarrow> ts a < target" by blast
    moreover from this have "find (\<lambda>b. target \<le> ts b) (block_range lo hi) = Some b"
      by (intro find_first) (auto simp: not_le)
    ultimately show ?thesis using True by (auto simp: first_block_at_or_after_def run_tryM)
  next
    case False
    have "find (\<lambda>b. target \<le> ts b) (block_range lo hi) = None"
    proof (rule find_none)
      fix a assume "lo \<le> a" "a \<le> hi"
      then show "\<not> target \<le> ts a" using False increasingD [OF assms, of a hi] by (meson order.trans order.refl)
    qed
    then show ?thesis using False by (auto simp: first_block_at_or_after_def run_tryM)
  qed
  moreover have "\<exists>l. run_state (last_block_at_or_before lo hi target (logged ts)) [] =
      (Ok (find (\<lambda>b. ts b \<le> target) (rev (block_range lo hi))), l) \<and> length l \<le> 65"
  proof (cases "lo \<le> hi \<and> ts lo \<le> target")
    case True
    from last_search_run [OF size _ assms, of target "[lo]"] True obtain b l where
      "run_state (last_search (logged ts) target lo hi) [lo] = (Ok (Some b), [lo] @ l)" "length l \<le> 64"
      "lo \<le> b" "b \<le> hi" "ts b \<le> target" "\<forall>a. b < a \<and> a \<le> hi \<longrightarrow> target < ts a" by blast
    moreover from this have "find (\<lambda>b. ts b \<le> target) (rev (block_range lo hi)) = Some b"
      by (intro find_last) (auto simp: not_le)
    ultimately show ?thesis using True by (auto simp: last_block_at_or_before_def run_tryM)
  next
    case False
    have "find (\<lambda>b. ts b \<le> target) (rev (block_range lo hi)) = None"
    proof (rule find_none_rev)
      fix a assume "lo \<le> a" "a \<le> hi"
      then show "\<not> ts a \<le> target" using False increasingD [OF assms, of lo a] by (meson order.trans order.refl)
    qed
    then show ?thesis using False by (auto simp: last_block_at_or_before_def run_tryM)
  qed
  ultimately show ?thesis by blast
qed

text \<open>What else the fetch does to the world does not matter, if it always returns the block's time.\<close>

lemma first_search_any:
  assumes "\<And>b w. fst (run_state (fetch b) w) = Ok (ts b)"
  shows "fst (run_state (first_search fetch target lo hi) w) = fst (run_state (first_search (logged ts) target lo hi) l)"
proof (induction "unat hi - unat lo" arbitrary: lo hi w l rule: less_induct)
  case less
  show ?case
  proof (cases "lo < hi")
    case True
    let ?mid = "lo + (hi - lo) div 2"
    obtain w' where "run_state (fetch ?mid) w = (Ok (ts ?mid), w')" using assms by (metis prod.collapse)
    moreover have "unat ?mid - unat lo < unat hi - unat lo" "unat hi - unat (?mid + 1) < unat hi - unat lo"
      using True unat_mid [OF True] unat_next [OF True] by (auto simp: word_less_nat_alt)
    ultimately show ?thesis using True less [of ?mid lo] less [of hi "?mid + 1"]
      by (simp add: first_search.simps [of _ _ lo hi] run_tryM Let_def)
  qed (simp add: first_search.simps [of _ _ lo hi])
qed

lemma last_search_any:
  assumes "\<And>b w. fst (run_state (fetch b) w) = Ok (ts b)"
  shows "fst (run_state (last_search fetch target lo hi) w) = fst (run_state (last_search (logged ts) target lo hi) l)"
proof (induction "unat hi - unat lo" arbitrary: lo hi w l rule: less_induct)
  case less
  show ?case
  proof (cases "lo < hi")
    case True
    let ?mid = "hi - (hi - lo) div 2"
    obtain w' where "run_state (fetch ?mid) w = (Ok (ts ?mid), w')" using assms by (metis prod.collapse)
    moreover have "unat hi - unat ?mid < unat hi - unat lo" "unat (?mid - 1) - unat lo < unat hi - unat lo"
      using True unat_mid_up [OF True] unat_prev [OF True] by (auto simp: word_less_nat_alt)
    ultimately show ?thesis using True less [of hi ?mid] less [of "?mid - 1" lo]
      by (simp add: last_search.simps [of _ _ lo hi] run_tryM Let_def)
  qed (simp add: last_search.simps [of _ _ lo hi])
qed

lemma searches_any:
  assumes "\<And>b w. fst (run_state (fetch b) w) = Ok (ts b)" "increasing lo hi ts"
  shows "fst (run_state (first_block_at_or_after lo hi target fetch) w) =
      Ok (find (\<lambda>b. target \<le> ts b) (block_range lo hi))"
    and "fst (run_state (last_block_at_or_before lo hi target fetch) w) =
      Ok (find (\<lambda>b. ts b \<le> target) (rev (block_range lo hi)))"
proof -
  from searches_scan [OF assms(2), of target] obtain l l' where s:
    "run_state (first_block_at_or_after lo hi target (logged ts)) [] = (Ok (find (\<lambda>b. target \<le> ts b) (block_range lo hi)), l)"
    "run_state (last_block_at_or_before lo hi target (logged ts)) [] =
      (Ok (find (\<lambda>b. ts b \<le> target) (rev (block_range lo hi))), l')" by blast
  obtain w1 w2 where w: "run_state (fetch hi) w = (Ok (ts hi), w1)" "run_state (fetch lo) w = (Ok (ts lo), w2)"
    using assms(1) by (metis prod.collapse)
  have "fst (run_state (first_block_at_or_after lo hi target fetch) w) =
      fst (run_state (first_block_at_or_after lo hi target (logged ts)) [])"
    using w(1) first_search_any [OF assms(1), where target = target and lo = lo and hi = hi and w = w1 and l = "[hi]"]
    by (simp add: first_block_at_or_after_def run_tryM)
  then show "fst (run_state (first_block_at_or_after lo hi target fetch) w) =
      Ok (find (\<lambda>b. target \<le> ts b) (block_range lo hi))" using s(1) by simp
  have "fst (run_state (last_block_at_or_before lo hi target fetch) w) =
      fst (run_state (last_block_at_or_before lo hi target (logged ts)) [])"
    using w(2) last_search_any [OF assms(1), where target = target and lo = lo and hi = hi and w = w2 and l = "[lo]"]
    by (simp add: last_block_at_or_before_def run_tryM)
  then show "fst (run_state (last_block_at_or_before lo hi target fetch) w) =
      Ok (find (\<lambda>b. ts b \<le> target) (rev (block_range lo hi)))" using s(2) by simp
qed

section \<open>Properties\<close>

text \<open>
  The calendar is right: the date that is \<open>n\<close> days after 1970-01-01, found by counting days
  with the Gregorian month lengths, printed as year, month and day, parses to the time of its
  midnight, for every \<open>n\<close> up to a hundred billion.
\<close>

lemma printed_date_parses:
  assumes "n \<le> 100000000000"
  shows "parse_time_arg (print_date (date_after n)) = Inr (of_nat (86400 * n))"
proof -
  obtain y m d where x: "date_after n = (y, m, d)" by (cases "date_after n")
  have v: "valid_date (y, m, d)" "1970 \<le> y" "y \<le> 1970 + int n" using date_after_year [of n] by (simp_all add: x)
  have c: "days_from_civil y m d = int n" using civil_date_after [OF assms] by (simp add: x)
  have "wrap64 (int n * 86400) = int n * 86400" using assms by (intro wrap64_id) auto
  then have "civil_seconds y m d (0, 0, 0) = Inr (of_nat (86400 * n))"
    using assms by (simp add: civil_seconds_def c wrap64_id mult.commute)
  then show ?thesis using parse_printed_date [of y m d] v assms by (simp add: x)
qed

lemma printed_date_parses_witness: "parse_time_arg (print_date (date_after 59)) = Inr 5097600"
  using printed_date_parses [of 59] by simp

text \<open>
  The searches find what a scan of all blocks finds: over blocks whose times do not decrease,
  \<open>first_block_at_or_after\<close> returns the first block of the range that is not older than the target,
  \<open>last_block_at_or_before\<close> the last one that is not newer, \<open>None\<close> when there is none, and each
  asks for at most 65 block times.
\<close>

lemma searches_match_scan:
  assumes "increasing lo hi ts"
  shows "\<exists>l l'. run_state (first_block_at_or_after lo hi target (logged ts)) [] =
      (Ok (find (\<lambda>b. target \<le> ts b) (block_range lo hi)), l) \<and> length l \<le> 65 \<and>
    run_state (last_block_at_or_before lo hi target (logged ts)) [] =
      (Ok (find (\<lambda>b. ts b \<le> target) (rev (block_range lo hi))), l') \<and> length l' \<le> 65"
  using searches_scan [OF assms] by blast

lemma searches_match_scan_witness:
  "\<exists>l. run_state (first_block_at_or_after 3 9 50 (logged (\<lambda>b. 12 * b))) [] = (Ok (Some 5), l) \<and> length l \<le> 65"
proof -
  have "increasing 3 9 (\<lambda>b. 12 * b)"
    by (auto simp: increasing_def word_le_nat_alt unat_word_ariths)
  moreover have "find (\<lambda>b. 50 \<le> 12 * b) (block_range 3 9) = Some 5"
    by (simp add: block_range_def)
  ultimately show ?thesis using searches_match_scan [of 3 9 "\<lambda>b. 12 * b" 50] by auto
qed

end
