(* ===== verification/Report_Scan.thy ===== *)
theory Report_Scan
  imports Report_Tally Report_Time
begin

text \<open>
  The scan of the on-chain report (\<open>src/eth/report.rs\<close>): probing both ends of the range for
  anchors, the decision whether a count may be published, the batched log queries, and the walk
  over the range. Every request is an event of a trace with its answer, and the record \<open>rpc\<close> holds
  an endpoint whose answers depend on the whole history. What the ABI bindings and the JSON-RPC
  client do (the three topics, the decoders, building a batch) are parameters.
\<close>

section \<open>The endpoint\<close>

record log_filter =
  lf_address :: "address option"
  lf_topics :: "bytes32 list"
  lf_from :: u64
  lf_to :: u64

record rpc_log =
  log_address :: address
  log_topics :: "bytes32 list"
  log_data :: bytes

type_synonym logs_answer = "string + rpc_log list"

datatype scan_event =
    SLogs log_filter logs_answer
  | SBatch log_filter "log_filter list" "string + logs_answer \<times> (nat \<Rightarrow> logs_answer)"
  | SWait nat
  | SConnect string "string + unit"
  | SVersion address "contract_error + u256"
  | SChainId "string + u64"
  | SHead "string + u64"
  | SBlockTime u64 "string + u64 option"

type_synonym 'a scan = "(scan_event list, 'a) state"

type_synonym 'a rscan = "(scan_event list, (swap_error, 'a) res) state"

record rpc =
  r_logs :: "scan_event list \<Rightarrow> log_filter \<Rightarrow> logs_answer"
  r_batch :: "scan_event list \<Rightarrow> log_filter \<Rightarrow> log_filter list \<Rightarrow> string + logs_answer \<times> (nat \<Rightarrow> logs_answer)"
  r_connect :: "scan_event list \<Rightarrow> string \<Rightarrow> string + unit"
  r_version :: "scan_event list \<Rightarrow> address \<Rightarrow> contract_error + u256"
  r_chain_id :: "scan_event list \<Rightarrow> string + u64"
  r_head :: "scan_event list \<Rightarrow> string + u64"
  r_block_time :: "scan_event list \<Rightarrow> u64 \<Rightarrow> string + u64 option"
  r_build_error :: "log_filter \<Rightarrow> string option"
  r_locked :: bytes32
  r_claimed :: bytes32
  r_refunded :: bytes32
  r_decode_locked :: "rpc_log \<Rightarrow> string + locked_row"
  r_decode_claimed :: "rpc_log \<Rightarrow> string + bytes32"
  r_decode_refunded :: "rpc_log \<Rightarrow> string + bytes32"

definition ask :: "('a \<Rightarrow> scan_event) \<Rightarrow> (scan_event list \<Rightarrow> 'a) \<Rightarrow> 'a scan" where
  "ask mk answer = State (\<lambda>tr. (answer tr, tr @ [mk (answer tr)]))"

lemma run_ask [run_simps]: "run_state (ask mk answer) tr = (answer tr, tr @ [mk (answer tr)])"
  by (simp add: ask_def)

definition get_logs :: "rpc \<Rightarrow> log_filter \<Rightarrow> logs_answer scan" where
  "get_logs p f = ask (SLogs f) (\<lambda>tr. r_logs p tr f)"

definition send_batch :: "rpc \<Rightarrow> log_filter \<Rightarrow> log_filter list \<Rightarrow> (string + logs_answer \<times> (nat \<Rightarrow> logs_answer)) scan" where
  "send_batch p f probes = ask (SBatch f probes) (\<lambda>tr. r_batch p tr f probes)"

definition wait :: "nat \<Rightarrow> unit scan" where
  "wait ms = ask (\<lambda>_. SWait ms) (\<lambda>_. ())"

section \<open>Anchors\<close>

record canary =
  ca_filter :: log_filter
  ca_expected :: nat

definition canary_probe_blocks :: nat where "canary_probe_blocks = 16"
definition canary_probe_attempts :: nat where "canary_probe_attempts = 5"
definition canary_rate_limit_retries :: nat where "canary_rate_limit_retries = 3"
definition max_corroboration_attempts :: nat where "max_corroboration_attempts = 6"
definition corroboration_retry_delay :: nat where "corroboration_retry_delay = 150"
definition min_chunk_blocks :: u64 where "min_chunk_blocks = 1000"
definition chunk_pacing :: nat where "chunk_pacing = 120"
definition rate_limit_backoff :: nat where "rate_limit_backoff = 500"
definition max_rate_limit_retries :: nat where "max_rate_limit_retries = 6"

definition is_corroborated :: "(nat \<times> nat) list \<Rightarrow> bool" where
  "is_corroborated canaries \<longleftrightarrow> list_all (\<lambda>(observed, expected). expected \<le> observed) canaries"

datatype scan_end = Oldest | Newest

fun end_label :: "scan_end \<Rightarrow> string" where
  "end_label Oldest = ''oldest''"
| "end_label Newest = ''newest''"

fun opposite :: "scan_end \<Rightarrow> scan_end" where
  "opposite Oldest = Newest"
| "opposite Newest = Oldest"

record probe_miss =
  empty_responses :: nat
  rate_limited :: nat
  failed_requests :: nat
  last_error :: "string option"

definition no_miss :: probe_miss where
  "no_miss = \<lparr> empty_responses = 0, rate_limited = 0, failed_requests = 0, last_error = None \<rparr>"

definition answered_successfully :: "probe_miss \<Rightarrow> bool" where
  "answered_successfully m \<longleftrightarrow> 0 < empty_responses m"

definition never_answered :: "probe_miss \<Rightarrow> bool" where
  "never_answered m \<longleftrightarrow> \<not> answered_successfully m"

fun join :: "string \<Rightarrow> string list \<Rightarrow> string" where
  "join sep [] = []"
| "join sep [s] = s"
| "join sep (s # ss) = s @ sep @ join sep ss"

definition describe_parts :: "probe_miss \<Rightarrow> string list" where
  "describe_parts m =
     (let p1 = (if 0 < empty_responses m
                then [show_nat (empty_responses m) @ '' probe requests came back with an empty log list''] else []);
          p2 = p1 @ (if 0 < rate_limited m then [show_nat (rate_limited m) @ '' were rate-limited''] else []);
          shown = (case last_error m of Some e \<Rightarrow> e | None \<Rightarrow> ''unknown'') in
      p2 @ (if 0 < failed_requests m
            then [if p2 = []
                  then ''all '' @ show_nat (failed_requests m) @ '' probe requests failed (last error: '' @ shown @ '')''
                  else show_nat (failed_requests m) @ '' failed (last error: '' @ shown @ '')'']
            else []))"

definition describe :: "probe_miss \<Rightarrow> string" where
  "describe m =
     (let parts = describe_parts m in
      if parts = [] then ''no probe request was made''
      else if length parts = 1 then hd parts
      else join '', '' (butlast parts) @ '' and '' @ last parts)"

datatype probe_outcome = AnchoredAt canary | Missed probe_miss

datatype anchoring =
    Anchored "canary list"
  | PartiallyAnchored canary scan_end probe_miss
  | Unanchored probe_miss probe_miss

fun canaries :: "anchoring \<Rightarrow> canary list" where
  "canaries (Anchored cs) = cs"
| "canaries (PartiallyAnchored c e m) = [c]"
| "canaries (Unanchored m m') = []"

fun missed_ends :: "anchoring \<Rightarrow> (scan_end \<times> probe_miss) list" where
  "missed_ends (Anchored cs) = []"
| "missed_ends (PartiallyAnchored c e m) = [(e, m)]"
| "missed_ends (Unanchored m m') = [(Oldest, m), (Newest, m')]"

definition unanswered_ends :: "anchoring \<Rightarrow> (scan_end \<times> probe_miss) list" where
  "unanswered_ends a = filter (\<lambda>(e, m). never_answered m) (missed_ends a)"

datatype scan_decision_result = Corroborated | ProceedUnproven | Refuse

definition scan_decision :: "anchoring \<Rightarrow> bool \<Rightarrow> scan_decision_result" where
  "scan_decision a allow_uncorroborated =
     (if (case a of Anchored cs \<Rightarrow> True | _ \<Rightarrow> False) then Corroborated
      else if unanswered_ends a \<noteq> [] then Refuse
      else if allow_uncorroborated then ProceedUnproven else Refuse)"

text \<open>The texts are cut to what varies; \<open>range\<close> is the text ``blocks from-to''.\<close>

definition refusal_message :: "u64 \<Rightarrow> u64 \<Rightarrow> anchoring \<Rightarrow> string option" where
  "refusal_message from to a =
     (let range = ''blocks '' @ show_nat (unat from) @ ''-'' @ show_nat (unat to);
          unanswered = unanswered_ends a in
      if unanswered \<noteq> [] then
        (let ends = join '' and '' (map (end_label \<circ> fst) unanswered);
             detail = join '', '' (map (\<lambda>(e, m). ''at the '' @ end_label e @ '' end '' @ describe m) unanswered);
             only_throttled = list_all (\<lambda>(e, m). failed_requests m = 0) unanswered in
         Some (if only_throttled
               then range @ '': never answered an anchor probe at the '' @ ends @ '' end ('' @ detail @ '')''
               else range @ '': did not answer a single anchor probe at the '' @ ends @ '' end - '' @ detail))
      else
        (case a of
           Anchored cs \<Rightarrow> None
         | PartiallyAnchored c missing m \<Rightarrow>
             Some (range @ '': the '' @ end_label (opposite missing) @ '' end anchored, but the '' @
                   end_label missing @ '' end did not - '' @ describe m)
         | Unanchored oldest newest \<Rightarrow>
             Some (range @ '': neither end could be anchored - at the oldest end '' @ describe oldest @
                   '', at the newest end '' @ describe newest)))"

section \<open>Probing\<close>

definition block_filter :: "address option \<Rightarrow> u64 \<Rightarrow> log_filter" where
  "block_filter a block = \<lparr> lf_address = a, lf_topics = [], lf_from = block, lf_to = block \<rparr>"

definition count_by_address :: "rpc_log list \<Rightarrow> (address \<times> nat) list" where
  "count_by_address logs = fold (\<lambda>l. bt_entry (log_address l) 0 (\<lambda>n. n + 1)) logs []"

text \<open>\<open>min_by_key\<close>: the first of the smallest.\<close>

fun min_by_count :: "(address \<times> nat) list \<Rightarrow> (address \<times> nat) option" where
  "min_by_count [] = None"
| "min_by_count (x # xs) =
     (case min_by_count xs of
        None \<Rightarrow> Some x
      | Some y \<Rightarrow> Some (if snd x \<le> snd y then x else y))"

definition anchor_on :: "u64 \<Rightarrow> rpc_log list \<Rightarrow> probe_outcome" where
  "anchor_on block logs =
     (case min_by_count (count_by_address logs) of
        Some (anchor, expected) \<Rightarrow>
          AnchoredAt \<lparr> ca_filter = block_filter (Some anchor) block, ca_expected = expected \<rparr>
      | None \<Rightarrow> Missed no_miss)"

text \<open>
  The attempts on one candidate block. \<open>first\<close> is whether no request was made yet in this walk.
  The result is an anchor, or the misses so far with \<open>first\<close>.
\<close>

function anchor_attempts ::
  "rpc \<Rightarrow> u64 \<Rightarrow> nat \<Rightarrow> nat \<Rightarrow> bool \<Rightarrow> probe_miss \<Rightarrow> (canary + probe_miss \<times> bool) scan" where
  "anchor_attempts p block attempt retries first miss =
     (if canary_probe_attempts \<le> attempt then ret (Inr (miss, first))
      else do {
        (if first then ret () else wait chunk_pacing);
        r \<leftarrow> get_logs p (block_filter None block);
        (case r of
           Inl msg \<Rightarrow>
             if classify_rpc_failure msg = RateLimited then
               (let miss' = miss\<lparr>rate_limited := rate_limited miss + 1\<rparr> in
                if retries < canary_rate_limit_retries then do {
                  wait rate_limit_backoff;
                  anchor_attempts p block attempt (retries + 1) False miss' }
                else anchor_attempts p block (attempt + 1) retries False miss')
             else
               anchor_attempts p block (attempt + 1) retries False
                 (miss\<lparr>failed_requests := failed_requests miss + 1, last_error := Some msg\<rparr>)
         | Inr logs \<Rightarrow>
             if logs = [] then
               anchor_attempts p block (attempt + 1) retries False
                 (miss\<lparr>empty_responses := empty_responses miss + 1\<rparr>)
             else
               (case anchor_on block logs of
                  AnchoredAt c \<Rightarrow> ret (Inl c)
                | Missed m \<Rightarrow> ret (Inr (miss, False)))) })"
  by pat_completeness auto
termination
  by (relation "measure (\<lambda>(p, b, attempt, retries, f, m).
      (canary_probe_attempts - attempt) + (canary_rate_limit_retries - retries))") auto

declare anchor_attempts.simps [simp del]

fun anchor_blocks :: "rpc \<Rightarrow> u64 list \<Rightarrow> bool \<Rightarrow> probe_miss \<Rightarrow> probe_outcome scan" where
  "anchor_blocks p [] first miss = ret (Missed miss)"
| "anchor_blocks p (block # blocks) first miss = do {
     r \<leftarrow> anchor_attempts p block 0 0 first miss;
     (case r of
        Inl c \<Rightarrow> ret (AnchoredAt c)
      | Inr (miss', first') \<Rightarrow> anchor_blocks p blocks first' miss') }"

definition anchor_in :: "rpc \<Rightarrow> u64 list \<Rightarrow> probe_outcome scan" where
  "anchor_in p candidates = anchor_blocks p candidates True no_miss"

definition probe_canaries :: "rpc \<Rightarrow> u64 \<Rightarrow> u64 \<Rightarrow> anchoring scan" where
  "probe_canaries p from to = do {
     oldest \<leftarrow> anchor_in p (take canary_probe_blocks (block_range from to));
     newest \<leftarrow> anchor_in p (take canary_probe_blocks (rev (block_range from to)));
     ret (case (oldest, newest) of
            (AnchoredAt a, AnchoredAt b) \<Rightarrow> Anchored (if ca_filter a = ca_filter b then [a] else [a, b])
          | (AnchoredAt a, Missed m) \<Rightarrow> PartiallyAnchored a Newest m
          | (Missed m, AnchoredAt b) \<Rightarrow> PartiallyAnchored b Oldest m
          | (Missed m, Missed m') \<Rightarrow> Unanchored m m') }"

section \<open>Corroborated queries\<close>

text \<open>The number of logs a canary was answered with; a failed one scores 0.\<close>

fun observed :: "logs_answer \<Rightarrow> nat" where
  "observed (Inl e) = 0"
| "observed (Inr logs) = length logs"

fun first_build_error :: "rpc \<Rightarrow> log_filter list \<Rightarrow> string option" where
  "first_build_error p [] = None"
| "first_build_error p (f # fs) = (case r_build_error p f of Some e \<Rightarrow> Some e | None \<Rightarrow> first_build_error p fs)"

definition scores :: "(nat \<Rightarrow> logs_answer) \<Rightarrow> canary list \<Rightarrow> (nat \<times> nat) list" where
  "scores answers cs = map (\<lambda>(k, c). (observed (answers k), ca_expected c)) (enumerate 0 cs)"

definition corroborated_get_logs :: "rpc \<Rightarrow> log_filter \<Rightarrow> canary list \<Rightarrow> rpc_log list option rscan" where
  "corroborated_get_logs p f cs =
     (if cs = [] then do {
        r \<leftarrow> get_logs p f;
        ret (case r of Inl e \<Rightarrow> Err (EthRpc e) | Inr logs \<Rightarrow> Ok (Some logs)) }
      else
        (case r_build_error p f of
           Some e \<Rightarrow> ret (Err (EthRpc (''could not build a batched eth_getLogs: '' @ e)))
         | None \<Rightarrow>
             (case first_build_error p (map ca_filter cs) of
                Some e \<Rightarrow> ret (Err (EthRpc (''could not build a canary eth_getLogs: '' @ e)))
              | None \<Rightarrow> do {
                  b \<leftarrow> send_batch p f (map ca_filter cs);
                  ret (case b of
                         Inl e \<Rightarrow> Err (EthRpc e)
                       | Inr (subject, probes) \<Rightarrow>
                           (case subject of
                              Inl e \<Rightarrow> Err (EthRpc e)
                            | Inr logs \<Rightarrow> Ok (if is_corroborated (scores probes cs) then Some logs else None))) })))"

section \<open>The walk over a range\<close>

text \<open>\<open>Inl\<close> is the printed RPC error, \<open>Inr None\<close> an answer that never could be corroborated.\<close>

definition show_eth_rpc :: "swap_error \<Rightarrow> string" where
  "show_eth_rpc e = (case e of EthRpc m \<Rightarrow> ''Ethereum RPC error: '' @ m | _ \<Rightarrow> [])"

fun fetch_attempts ::
  "rpc \<Rightarrow> log_filter \<Rightarrow> canary list \<Rightarrow> nat \<Rightarrow> (string + rpc_log list option) scan" where
  "fetch_attempts p f cs 0 = ret (Inr None)"
| "fetch_attempts p f cs (Suc n) = do {
     r \<leftarrow> corroborated_get_logs p f cs;
     (case r of
        Ok (Some logs) \<Rightarrow> ret (Inr (Some logs))
      | Err e \<Rightarrow> ret (Inl (show_eth_rpc e))
      | _ \<Rightarrow> do { wait corroboration_retry_delay; fetch_attempts p f cs n }) }"

definition topic0 :: "rpc_log \<Rightarrow> bytes32 option" where
  "topic0 l = (case log_topics l of [] \<Rightarrow> None | t # ts \<Rightarrow> Some t)"

definition decode_log :: "rpc \<Rightarrow> rpc_log \<Rightarrow> (swap_error, tally_event option) res" where
  "decode_log p l =
     (case topic0 l of
        None \<Rightarrow> Ok None
      | Some t \<Rightarrow>
          if t = r_locked p then
            (case r_decode_locked p l of
               Inl e \<Rightarrow> Err (EthAbiMismatch (''could not decode a Locked log: '' @ e)) | Inr row \<Rightarrow> Ok (Some (LockSeen row)))
          else if t = r_claimed p then
            (case r_decode_claimed p l of
               Inl e \<Rightarrow> Err (EthAbiMismatch (''could not decode a Claimed log: '' @ e)) | Inr i \<Rightarrow> Ok (Some (ClaimSeen i)))
          else if t = r_refunded p then
            (case r_decode_refunded p l of
               Inl e \<Rightarrow> Err (EthAbiMismatch (''could not decode a Refunded log: '' @ e)) | Inr i \<Rightarrow> Ok (Some (RefundSeen i)))
          else Ok None)"

definition ingest_log :: "rpc \<Rightarrow> rpc_log \<Rightarrow> swap_tally \<Rightarrow> (swap_error, swap_tally) res" where
  "ingest_log p l t = res_bind (decode_log p l) (\<lambda>ev. Ok (case ev of None \<Rightarrow> t | Some x \<Rightarrow> ingest x t))"

fun ingest_all :: "rpc \<Rightarrow> rpc_log list \<Rightarrow> swap_tally \<Rightarrow> (swap_error, swap_tally) res" where
  "ingest_all p [] t = Ok t"
| "ingest_all p (l # ls) t = res_bind (ingest_log p l t) (ingest_all p ls)"

text \<open>
  One range in spans. \<open>to\<close> and \<open>chunk\<close> re-derive the spans after a rejected range, \<open>retries\<close>
  counts the back-offs since the last success, \<open>first\<close> is whether no request was made yet.
\<close>

function scan_spans ::
  "rpc \<Rightarrow> address \<Rightarrow> bytes32 list \<Rightarrow> canary list \<Rightarrow> u64 \<Rightarrow> u64 \<Rightarrow> (u64 \<times> u64) list \<Rightarrow> nat \<Rightarrow> bool \<Rightarrow> swap_tally
   \<Rightarrow> swap_tally rscan" where
  "scan_spans p a topics cs to chunk [] retries first t = ret (Ok t)"
| "scan_spans p a topics cs to chunk ((cursor, e) # spans) retries first t = do {
     (if first then ret () else wait chunk_pacing);
     r \<leftarrow> fetch_attempts p \<lparr> lf_address = Some a, lf_topics = topics, lf_from = cursor, lf_to = e \<rparr> cs
            max_corroboration_attempts;
     (case r of
        Inl msg \<Rightarrow>
          (let failed = ret (Err (EthRpc (''eth_getLogs failed for blocks '' @ show_nat (unat cursor) @ ''-'' @
                 show_nat (unat e) @ '' (span '' @ show_nat (unat chunk) @ ''): '' @ msg))) in
           case classify_rpc_failure msg of
             RateLimited \<Rightarrow>
               if retries < max_rate_limit_retries then do {
                 wait (rate_limit_backoff * 2 ^ retries);
                 scan_spans p a topics cs to chunk ((cursor, e) # spans) (retries + 1) False t }
               else failed
           | RangeTooWide \<Rightarrow>
               if min_chunk_blocks < chunk then
                 (let chunk' = max (chunk div 2) min_chunk_blocks in
                  scan_spans p a topics cs to chunk' (block_chunks cursor to chunk') retries False t)
               else failed
           | OtherFailure \<Rightarrow> failed)
      | Inr None \<Rightarrow>
          ret (Err (EthLogsUncorroborated (''blocks '' @ show_nat (unat cursor) @ ''-'' @ show_nat (unat e))))
      | Inr (Some logs) \<Rightarrow>
          (case ingest_all p logs t of
             Ok t' \<Rightarrow> scan_spans p a topics cs to chunk spans 0 False t'
           | Err err \<Rightarrow> ret (Err err)
           | Panic m \<Rightarrow> ret (Panic m)
           | Pending \<Rightarrow> ret Pending)) }"
  by pat_completeness auto

lemma halved_chunk: "min_chunk_blocks < chunk \<Longrightarrow> unat (max (chunk div 2) min_chunk_blocks) < unat chunk"
  by (auto simp: max_def word_less_nat_alt unat_div min_chunk_blocks_def)

termination scan_spans
  by (relation "measures [\<lambda>(p, a, ts, cs, to, chunk, spans, r, f, t). unat chunk,
      \<lambda>(p, a, ts, cs, to, chunk, spans, r, f, t). length spans,
      \<lambda>(p, a, ts, cs, to, chunk, spans, r, f, t). max_rate_limit_retries - r]") (auto dest: halved_chunk)

definition scan_range ::
  "rpc \<Rightarrow> address \<Rightarrow> u64 \<Rightarrow> u64 \<Rightarrow> bytes32 list \<Rightarrow> u64 \<Rightarrow> canary list \<Rightarrow> swap_tally \<Rightarrow> swap_tally rscan" where
  "scan_range p a from to topics chunk cs t =
     scan_spans p a topics cs to (max chunk 1) (block_chunks from to (max chunk 1)) 0 True t"

section \<open>The count\<close>

record report_window =
  locks_from :: u64
  locks_to :: u64
  outcomes_to :: u64

record scan_result =
  sr_tally :: swap_tally
  sr_corroborated :: bool

definition collect_tally :: "rpc \<Rightarrow> address \<Rightarrow> report_window \<Rightarrow> u64 \<Rightarrow> bool \<Rightarrow> scan_result rscan" where
  "collect_tally p a w chunk allow_uncorroborated =
     (let span_end = max (outcomes_to w) (locks_to w) in
      if span_end < locks_from w then ret (Ok \<lparr> sr_tally = new_tally, sr_corroborated = True \<rparr>)
      else do {
        anc \<leftarrow> probe_canaries p (locks_from w) span_end;
        (let decision = scan_decision anc allow_uncorroborated; cs = canaries anc in
         if decision = Refuse then
           ret (case refusal_message (locks_from w) span_end anc of
                  Some m \<Rightarrow> Err (EthLogsUncorroborated m)
                | None \<Rightarrow> Panic ''a refused scan always has a reason'')
         else
           tryM (scan_range p a (locks_from w) (locks_to w) [r_locked p, r_claimed p, r_refunded p] chunk cs new_tally)
             (\<lambda>t. tryM (if locks_to w < outcomes_to w
                        then scan_range p a (locks_to w + 1) (outcomes_to w) [r_claimed p, r_refunded p] chunk cs t
                        else ret (Ok t))
               (\<lambda>t'. ret (Ok \<lparr> sr_tally = t', sr_corroborated = (decision = Corroborated) \<rparr>)))) })"


section \<open>Running the scan\<close>

lemma run_scan [run_simps]:
  "run_state (get_logs p f) tr = (r_logs p tr f, tr @ [SLogs f (r_logs p tr f)])"
  "run_state (send_batch p f ps) tr = (r_batch p tr f ps, tr @ [SBatch f ps (r_batch p tr f ps)])"
  "run_state (wait ms) tr = ((), tr @ [SWait ms])"
  by (simp_all add: get_logs_def send_batch_def wait_def run_ask)

fun is_request :: "scan_event \<Rightarrow> bool" where
  "is_request (SWait ms) = False"
| "is_request _ = True"

abbreviation requests :: "scan_event list \<Rightarrow> nat" where
  "requests e \<equiv> length (filter is_request e)"

subsection \<open>Anchors\<close>

lemma count_by_address_state:
  "bt_ok (count_by_address logs) \<and>
   map_of (count_by_address logs) = (\<lambda>a. if a \<in> log_address ` set logs
     then Some (length (filter (\<lambda>l. log_address l = a) logs)) else None)"
proof (induction logs rule: rev_induct)
  case (snoc l logs)
  have "length (filter (\<lambda>l. log_address l = a) logs) = 0" if "a \<notin> log_address ` set logs" for a
    using that by (auto simp: filter_empty_conv image_iff)
  then show ?case using snoc
    by (auto simp: count_by_address_def bt_entry_ok bt_lookup fun_eq_iff)
qed (simp add: count_by_address_def)

lemma min_by_count_mem: "min_by_count xs = Some y \<Longrightarrow> y \<in> set xs"
  by (induction xs arbitrary: y) (auto split: option.splits if_splits)

lemma min_by_count_None: "min_by_count xs = None \<longleftrightarrow> xs = []"
  by (cases xs) (auto split: option.splits)

text \<open>
  An anchor is backed by an answer in the trace: some block of the range was read whole, and the
  anchor asks for the logs of an address that had exactly the expected number in it, at least one.
\<close>

definition anchor_backed :: "u64 list \<Rightarrow> scan_event list \<Rightarrow> canary \<Rightarrow> bool" where
  "anchor_backed blocks e c \<longleftrightarrow>
     (\<exists>b\<in>set blocks. \<exists>logs a. SLogs (block_filter None b) (Inr logs) \<in> set e \<and>
        ca_filter c = block_filter (Some a) b \<and>
        ca_expected c = length (filter (\<lambda>l. log_address l = a) logs) \<and> 0 < ca_expected c)"

lemma anchor_on_backed:
  assumes "logs \<noteq> []"
  obtains c where "anchor_on b logs = AnchoredAt c"
    "anchor_backed [b] (e @ [SLogs (block_filter None b) (Inr logs)]) c"
proof -
  have ne: "count_by_address logs \<noteq> []"
  proof
    assume "count_by_address logs = []"
    then have "log_address ` set logs = {}" using count_by_address_state [of logs]
      by (auto simp: fun_eq_iff split: if_splits)
    then show False using assms by simp
  qed
  then obtain a n where m: "min_by_count (count_by_address logs) = Some (a, n)"
    using min_by_count_None by fastforce
  have "map_of (count_by_address logs) a = Some n"
    using min_by_count_mem [OF m] bt_distinct count_by_address_state [of logs] by (metis map_of_is_SomeI)
  then have n: "a \<in> log_address ` set logs" "n = length (filter (\<lambda>l. log_address l = a) logs)"
    using count_by_address_state [of logs] by (auto split: if_splits)
  then have "0 < n" by (auto simp: filter_empty_conv)
  moreover have "anchor_on b logs = AnchoredAt \<lparr> ca_filter = block_filter (Some a) b, ca_expected = n \<rparr>"
    using m by (simp add: anchor_on_def)
  ultimately show thesis
    by (intro that) (auto simp: anchor_backed_def n(2) intro!: exI [of _ logs] exI [of _ a])
qed

lemma anchor_backed_mono:
  "anchor_backed bs e c \<Longrightarrow> set bs \<subseteq> set bs' \<Longrightarrow> set e \<subseteq> set e' \<Longrightarrow> anchor_backed bs' e' c"
  unfolding anchor_backed_def by blast

text \<open>An end was answered when some probe of it came back with an empty list.\<close>

definition probe_answered :: "scan_event list \<Rightarrow> bool" where
  "probe_answered e \<longleftrightarrow> (\<exists>f. SLogs f (Inr []) \<in> set e)"

definition attempts_ok ::
  "u64 list \<Rightarrow> nat \<Rightarrow> probe_miss \<Rightarrow> canary + probe_miss \<times> bool \<Rightarrow> scan_event list \<Rightarrow> bool" where
  "attempts_ok blocks n miss r e \<longleftrightarrow> requests e \<le> n \<and>
     (case r of
        Inl c \<Rightarrow> anchor_backed blocks e c
      | Inr (miss', first) \<Rightarrow> answered_successfully miss' \<longleftrightarrow> answered_successfully miss \<or> probe_answered e)"

lemma attempts_ok_step:
  assumes "attempts_ok bs n miss' r e" "requests us + n \<le> n'"
    and "answered_successfully miss' \<longleftrightarrow> answered_successfully miss \<or> probe_answered us"
  shows "attempts_ok bs n' miss r (us @ e)"
proof (cases r)
  case (Inl c)
  then show ?thesis using assms anchor_backed_mono [of bs e c bs "us @ e"] by (simp add: attempts_ok_def)
next
  case (Inr m)
  then show ?thesis using assms by (cases m) (auto simp: attempts_ok_def probe_answered_def)
qed

lemma anchor_attempts_run:
  "\<exists>r e. run_state (anchor_attempts p b attempt retries first miss) tr = (r, tr @ e) \<and>
     attempts_ok [b] ((canary_probe_attempts - attempt) + (canary_rate_limit_retries - retries)) miss r e"
proof (induction "(canary_probe_attempts - attempt) + (canary_rate_limit_retries - retries)"
    arbitrary: attempt retries first miss tr rule: less_induct)
  case less
  let ?n = "(canary_probe_attempts - attempt) + (canary_rate_limit_retries - retries)"
  show ?case
  proof (cases "canary_probe_attempts \<le> attempt")
    case True
    then show ?thesis by (subst anchor_attempts.simps) (simp add: attempts_ok_def probe_answered_def)
  next
    case False
    let ?w = "if first then [] else [SWait chunk_pacing]"
    let ?ans = "r_logs p (tr @ ?w) (block_filter None b)"
    let ?us = "?w @ [SLogs (block_filter None b) ?ans]"
    have next_try: ?thesis
      if run: "run_state (anchor_attempts p b attempt retries first miss) tr =
          run_state (anchor_attempts p b attempt' retries' False miss') (tr @ ?us @ vs)"
        and dec: "requests vs = 0" "Suc ((canary_probe_attempts - attempt') + (canary_rate_limit_retries - retries')) \<le> ?n"
        and ans: "answered_successfully miss' \<longleftrightarrow> answered_successfully miss \<or> probe_answered (?us @ vs)"
      for attempt' retries' miss' vs
    proof -
      from less [of attempt' retries' False miss' "tr @ ?us @ vs"] dec(2) obtain r e where
        e: "run_state (anchor_attempts p b attempt' retries' False miss') (tr @ ?us @ vs) = (r, (tr @ ?us @ vs) @ e)"
        "attempts_ok [b] ((canary_probe_attempts - attempt') + (canary_rate_limit_retries - retries')) miss' r e"
        by (metis Suc_le_lessD)
      have "attempts_ok [b] ?n miss r ((?us @ vs) @ e)"
        using dec by (intro attempts_ok_step [OF e(2) _ ans]) simp
      then show ?thesis using run e(1) by (intro exI [of _ r] exI [of _ "(?us @ vs) @ e"]) simp
    qed
    show ?thesis
    proof (cases ?ans)
      case (Inl msg)
      show ?thesis
      proof (cases "classify_rpc_failure msg = RateLimited \<and> retries < canary_rate_limit_retries")
        case True
        show ?thesis
          by (rule next_try [of attempt "retries + 1" "miss\<lparr>rate_limited := rate_limited miss + 1\<rparr>" "[SWait rate_limit_backoff]"])
            (use False True Inl in \<open>auto simp: anchor_attempts.simps [of p b attempt] run_simps Let_def
              answered_successfully_def probe_answered_def\<close>)
      next
        case nr: False
        let ?m = "if classify_rpc_failure msg = RateLimited then miss\<lparr>rate_limited := rate_limited miss + 1\<rparr>
          else miss\<lparr>failed_requests := failed_requests miss + 1, last_error := Some msg\<rparr>"
        show ?thesis
          by (rule next_try [of "attempt + 1" retries ?m "[]"])
            (use False nr Inl in \<open>auto simp: anchor_attempts.simps [of p b attempt] run_simps Let_def
              answered_successfully_def probe_answered_def\<close>)
      qed
    next
      case (Inr logs)
      show ?thesis
      proof (cases "logs = []")
        case True
        show ?thesis
          by (rule next_try [of "attempt + 1" retries "miss\<lparr>empty_responses := empty_responses miss + 1\<rparr>" "[]"])
            (use False True Inr in \<open>auto simp: anchor_attempts.simps [of p b attempt] run_simps
              answered_successfully_def probe_answered_def\<close>)
      next
        case ne: False
        from anchor_on_backed [OF ne, of b ?w] obtain c where c: "anchor_on b logs = AnchoredAt c"
          "anchor_backed [b] (?w @ [SLogs (block_filter None b) (Inr logs)]) c" .
        then show ?thesis using False ne Inr
          by (intro exI [of _ "Inl c"] exI [of _ ?us]) (auto simp: anchor_attempts.simps [of p b attempt] run_simps attempts_ok_def)
      qed
    qed
  qed
qed


lemma anchor_blocks_run:
  "\<exists>o' e. run_state (anchor_blocks p bs first miss) tr = (o', tr @ e) \<and> requests e \<le> 8 * length bs \<and>
     (case o' of
        AnchoredAt c \<Rightarrow> anchor_backed bs e c
      | Missed miss' \<Rightarrow> answered_successfully miss' \<longleftrightarrow> answered_successfully miss \<or> probe_answered e)"
proof (induction bs arbitrary: first miss tr)
  case Nil
  then show ?case by (simp add: probe_answered_def)
next
  case (Cons b bs)
  from anchor_attempts_run [of p b 0 0 first miss tr] obtain r e where
    r: "run_state (anchor_attempts p b 0 0 first miss) tr = (r, tr @ e)" and ok: "attempts_ok [b] 8 miss r e"
    by (auto simp: canary_probe_attempts_def canary_rate_limit_retries_def)
  show ?case
  proof (cases r)
    case (Inl c)
    then show ?thesis using r ok anchor_backed_mono [of "[b]" e c "b # bs" e]
      by (intro exI [of _ "AnchoredAt c"] exI [of _ e]) (simp add: attempts_ok_def)
  next
    case (Inr m)
    obtain miss' first' where m: "m = (miss', first')" by fastforce
    from Cons [of first' miss' "tr @ e"] obtain o' e' where
      o': "run_state (anchor_blocks p bs first' miss') (tr @ e) = (o', (tr @ e) @ e')" "requests e' \<le> 8 * length bs"
      "case o' of AnchoredAt c \<Rightarrow> anchor_backed bs e' c
       | Missed m \<Rightarrow> answered_successfully m \<longleftrightarrow> answered_successfully miss' \<or> probe_answered e'" by blast
    have "case o' of AnchoredAt c \<Rightarrow> anchor_backed (b # bs) (e @ e') c
       | Missed m \<Rightarrow> answered_successfully m \<longleftrightarrow> answered_successfully miss \<or> probe_answered (e @ e')"
      using o'(3) ok anchor_backed_mono [of bs e' _ "b # bs" "e @ e'"]
      by (cases o') (auto simp: attempts_ok_def Inr m probe_answered_def)
    then show ?thesis using r ok o' Inr m
      by (intro exI [of _ o'] exI [of _ "e @ e'"]) (simp add: attempts_ok_def)
  qed
qed

lemma anchor_in_run:
  "\<exists>o' e. run_state (anchor_in p bs) tr = (o', tr @ e) \<and> requests e \<le> 8 * length bs \<and>
     (case o' of
        AnchoredAt c \<Rightarrow> anchor_backed bs e c
      | Missed miss' \<Rightarrow> answered_successfully miss' \<longleftrightarrow> probe_answered e)"
proof -
  have "\<not> answered_successfully no_miss" by (simp add: no_miss_def answered_successfully_def)
  then show ?thesis using anchor_blocks_run [of p bs True no_miss tr]
    by (auto simp: anchor_in_def split: probe_outcome.splits)
qed

text \<open>
  What the probes of a scan establish: every anchor is backed by an answer, both ends have one
  when the result says so, and an end counts as answered exactly when some probe of it was.
\<close>

definition anchoring_ok :: "u64 \<Rightarrow> u64 \<Rightarrow> anchoring \<Rightarrow> scan_event list \<Rightarrow> scan_event list \<Rightarrow> bool" where
  "anchoring_ok from to a e1 e2 \<longleftrightarrow>
     (let old = take canary_probe_blocks (block_range from to); new = take canary_probe_blocks (rev (block_range from to)) in
      case a of
        Anchored cs \<Rightarrow> (\<exists>c\<in>set cs. anchor_backed old e1 c) \<and>
          (\<exists>c c'. c \<in> set cs \<and> anchor_backed new e2 c' \<and> ca_filter c = ca_filter c')
      | PartiallyAnchored c Newest m \<Rightarrow> anchor_backed old e1 c \<and> (answered_successfully m \<longleftrightarrow> probe_answered e2)
      | PartiallyAnchored c Oldest m \<Rightarrow> anchor_backed new e2 c \<and> (answered_successfully m \<longleftrightarrow> probe_answered e1)
      | Unanchored m m' \<Rightarrow> (answered_successfully m \<longleftrightarrow> probe_answered e1) \<and>
          (answered_successfully m' \<longleftrightarrow> probe_answered e2))"

lemma probe_canaries_run:
  "\<exists>a e1 e2. run_state (probe_canaries p from to) tr = (a, tr @ e1 @ e2) \<and> anchoring_ok from to a e1 e2 \<and>
     requests (e1 @ e2) \<le> 256"
proof -
  let ?old = "take canary_probe_blocks (block_range from to)" let ?new = "take canary_probe_blocks (rev (block_range from to))"
  from anchor_in_run [of p ?old tr] obtain o1 e1 where
    o1: "run_state (anchor_in p ?old) tr = (o1, tr @ e1)" "requests e1 \<le> 8 * length ?old"
    "case o1 of AnchoredAt c \<Rightarrow> anchor_backed ?old e1 c | Missed m \<Rightarrow> answered_successfully m \<longleftrightarrow> probe_answered e1"
    by blast
  from anchor_in_run [of p ?new "tr @ e1"] obtain o2 e2 where
    o2: "run_state (anchor_in p ?new) (tr @ e1) = (o2, (tr @ e1) @ e2)" "requests e2 \<le> 8 * length ?new"
    "case o2 of AnchoredAt c \<Rightarrow> anchor_backed ?new e2 c | Missed m \<Rightarrow> answered_successfully m \<longleftrightarrow> probe_answered e2"
    by blast
  have "length ?old \<le> 16" "length ?new \<le> 16" by (simp_all add: canary_probe_blocks_def)
  then have req: "requests (e1 @ e2) \<le> 256" using o1(2) o2(2) by simp
  show ?thesis
  proof (cases o1)
    case a: (AnchoredAt c)
    show ?thesis
    proof (cases o2)
      case b: (AnchoredAt c')
      let ?cs = "if ca_filter c = ca_filter c' then [c] else [c, c']"
      have "anchoring_ok from to (Anchored ?cs) e1 e2"
        using o1(3) o2(3) a b by (auto simp: anchoring_ok_def Let_def)
      then show ?thesis using o1(1) o2(1) a b req
        by (intro exI [of _ "Anchored ?cs"] exI [of _ e1] exI [of _ e2]) (auto simp: probe_canaries_def)
    next
      case (Missed m)
      then show ?thesis using o1 o2 a req
        by (intro exI [of _ "PartiallyAnchored c Newest m"] exI [of _ e1] exI [of _ e2])
          (simp add: probe_canaries_def anchoring_ok_def)
    qed
  next
    case m: (Missed m)
    show ?thesis
    proof (cases o2)
      case (AnchoredAt c')
      then show ?thesis using o1 o2 m req
        by (intro exI [of _ "PartiallyAnchored c' Oldest m"] exI [of _ e1] exI [of _ e2])
          (simp add: probe_canaries_def anchoring_ok_def)
    next
      case (Missed m')
      then show ?thesis using o1 o2 m req
        by (intro exI [of _ "Unanchored m m'"] exI [of _ e1] exI [of _ e2])
          (simp add: probe_canaries_def anchoring_ok_def)
    qed
  qed
qed

subsection \<open>Answers that are counted\<close>

text \<open>\<open>served cs f logs e\<close>: the answer is in the trace, in one batch with an answer to every anchor.\<close>

definition served :: "canary list \<Rightarrow> log_filter \<Rightarrow> rpc_log list \<Rightarrow> scan_event list \<Rightarrow> bool" where
  "served cs f logs e \<longleftrightarrow>
     (if cs = [] then SLogs f (Inr logs) \<in> set e
      else (\<exists>answers. SBatch f (map ca_filter cs) (Inr (Inr logs, answers)) \<in> set e \<and>
              (\<forall>k<length cs. ca_expected (cs ! k) \<le> observed (answers k))))"

lemma served_mono: "served cs f logs e \<Longrightarrow> set e \<subseteq> set e' \<Longrightarrow> served cs f logs e'"
  by (auto simp: served_def split: if_splits)

lemma is_corroborated_iff:
  "is_corroborated (scores answers cs) \<longleftrightarrow> (\<forall>k<length cs. ca_expected (cs ! k) \<le> observed (answers k))"
  by (auto simp: is_corroborated_def scores_def list_all_length nth_enumerate_eq)

lemma corroborated_run:
  "\<exists>r e. run_state (corroborated_get_logs p f cs) tr = (r, tr @ e) \<and>
     (\<forall>logs. r = Ok (Some logs) \<longrightarrow> served cs f logs e)"
proof (cases "cs = []")
  case True
  then show ?thesis
    by (auto simp: corroborated_get_logs_def run_simps served_def split: sum.splits)
next
  case False
  then show ?thesis
    by (auto simp: corroborated_get_logs_def run_simps served_def is_corroborated_iff
        split: option.splits sum.splits)
qed

lemma fetch_run:
  "\<exists>r e. run_state (fetch_attempts p f cs n) tr = (r, tr @ e) \<and>
     (\<forall>logs. r = Inr (Some logs) \<longrightarrow> served cs f logs e)"
proof (induction n arbitrary: tr)
  case (Suc n)
  from corroborated_run [of p f cs tr] obtain r e where
    r: "run_state (corroborated_get_logs p f cs) tr = (r, tr @ e)" "\<forall>logs. r = Ok (Some logs) \<longrightarrow> served cs f logs e" by blast
  show ?case
  proof (cases "\<exists>logs er. r = Ok (Some logs) \<or> r = Err er")
    case True
    then show ?thesis using r by auto
  next
    case False
    from Suc [of "(tr @ e) @ [SWait corroboration_retry_delay]"] obtain r' e' where
      "run_state (fetch_attempts p f cs n) ((tr @ e) @ [SWait corroboration_retry_delay]) =
        (r', ((tr @ e) @ [SWait corroboration_retry_delay]) @ e')" "\<forall>logs. r' = Inr (Some logs) \<longrightarrow> served cs f logs e'" by blast
    then show ?thesis using r False served_mono [of cs f _ e' "e @ SWait corroboration_retry_delay # e'"]
      by (cases r) (auto simp: run_simps split: option.splits)
  qed
qed simp

section \<open>The events of the logs\<close>

definition event_of :: "rpc \<Rightarrow> rpc_log \<Rightarrow> tally_event list" where
  "event_of p l = (case decode_log p l of Ok (Some ev) \<Rightarrow> [ev] | _ \<Rightarrow> [])"

definition events_of :: "rpc \<Rightarrow> rpc_log list \<Rightarrow> tally_event list" where
  "events_of p logs = concat (map (event_of p) logs)"

definition decodable :: "rpc \<Rightarrow> rpc_log list \<Rightarrow> bool" where
  "decodable p logs \<longleftrightarrow> list_all (\<lambda>l. \<exists>x. decode_log p l = Ok x) logs"

lemma ingest_all_Ok:
  "ingest_all p logs t = Ok t' \<longleftrightarrow> decodable p logs \<and> t' = fold ingest (events_of p logs) t"
proof (induction logs arbitrary: t)
  case (Cons l logs)
  have "ingest_log p l t = Ok u \<longleftrightarrow> (\<exists>x. decode_log p l = Ok x) \<and> u = fold ingest (event_of p l) t" for u
    by (cases "decode_log p l") (auto simp: ingest_log_def event_of_def split: option.splits)
  then show ?case using Cons by (auto simp: res_bind_Ok_iff decodable_def events_of_def)
qed (auto simp: decodable_def events_of_def)


subsection \<open>The walk\<close>

definition spans_ok :: "u64 \<Rightarrow> (u64 \<times> u64) list \<Rightarrow> bool" where
  "spans_ok to spans \<longleftrightarrow> list_all (\<lambda>s. span_blocks s \<noteq> []) spans \<and>
     (\<exists>lo. concat (map span_blocks spans) = [lo..<Suc (unat to)])"

text \<open>The spans counted, with their logs.\<close>

type_synonym counted_spans = "((u64 \<times> u64) \<times> rpc_log list) list"

definition span_filter :: "address \<Rightarrow> bytes32 list \<Rightarrow> u64 \<times> u64 \<Rightarrow> log_filter" where
  "span_filter a topics s = \<lparr> lf_address = Some a, lf_topics = topics, lf_from = fst s, lf_to = snd s \<rparr>"

definition counted ::
  "rpc \<Rightarrow> address \<Rightarrow> bytes32 list \<Rightarrow> canary list \<Rightarrow> counted_spans \<Rightarrow> scan_event list \<Rightarrow> bool" where
  "counted p a topics cs parts e \<longleftrightarrow>
     list_all (\<lambda>(s, logs). served cs (span_filter a topics s) logs e \<and> decodable p logs) parts"

definition covered :: "counted_spans \<Rightarrow> nat list" where
  "covered parts = concat (map (span_blocks \<circ> fst) parts)"

definition counted_logs :: "counted_spans \<Rightarrow> rpc_log list" where
  "counted_logs parts = concat (map snd parts)"

lemma counted_mono: "counted p a ts cs parts e \<Longrightarrow> set e \<subseteq> set e' \<Longrightarrow> counted p a ts cs parts e'"
  by (auto simp: counted_def list_all_iff intro: served_mono)

lemma block_chunks_spans: "spans_ok to (block_chunks from to chunk)"
proof -
  have "max chunk 1 \<noteq> 0" by (auto simp: max_def)
  from chunks_from_cover [OF this, of "from" to] show ?thesis
    by (auto simp: spans_ok_def block_chunks_def list_all_iff)
qed

lemma block_chunks_blocks: "concat (map span_blocks (block_chunks from to chunk)) = [unat from..<Suc (unat to)]"
proof -
  have "max chunk 1 \<noteq> 0" by (auto simp: max_def)
  from chunks_from_cover [OF this, of "from" to] show ?thesis by (simp add: block_chunks_def)
qed

lemma spans_ok_head:
  assumes "spans_ok to ((c, e) # spans)"
  shows "concat (map span_blocks ((c, e) # spans)) = [unat c..<Suc (unat to)]" "spans_ok to spans"
proof -
  from assms obtain lo where lo: "span_blocks (c, e) @ concat (map span_blocks spans) = [lo..<Suc (unat to)]"
    and ne: "span_blocks (c, e) \<noteq> []" "list_all (\<lambda>s. span_blocks s \<noteq> []) spans" by (auto simp: spans_ok_def)
  have "hd (span_blocks (c, e)) = unat c" using ne(1) by (auto simp: span_blocks_def simp del: upt_Suc)
  moreover have "[lo..<Suc (unat to)] \<noteq> []" using lo ne(1) by (metis append_is_Nil_conv)
  then have "hd [lo..<Suc (unat to)] = lo" by (intro hd_upt) (simp del: upt_Suc)
  ultimately have "lo = unat c" using lo ne(1) by (metis hd_append2)
  then show "concat (map span_blocks ((c, e) # spans)) = [unat c..<Suc (unat to)]" using lo by simp
  have "concat (map span_blocks spans) = drop (length (span_blocks (c, e))) [lo..<Suc (unat to)]"
    using lo by (metis append_eq_conv_conj)
  then show "spans_ok to spans" using ne(2) unfolding spans_ok_def drop_upt by blast
qed

definition walk_ok ::
  "rpc \<Rightarrow> address \<Rightarrow> bytes32 list \<Rightarrow> canary list \<Rightarrow> nat list \<Rightarrow> swap_tally \<Rightarrow> (swap_error, swap_tally) res
   \<Rightarrow> scan_event list \<Rightarrow> bool" where
  "walk_ok p a topics cs blocks t r e \<longleftrightarrow>
     (case r of
        Ok t' \<Rightarrow> \<exists>parts. counted p a topics cs parts e \<and> covered parts = blocks \<and>
          t' = fold ingest (events_of p (counted_logs parts)) t
      | Err err \<Rightarrow> True
      | _ \<Rightarrow> False)"

lemma walk_ok_mono: "walk_ok p a ts cs bs t r e \<Longrightarrow> set e \<subseteq> set e' \<Longrightarrow> walk_ok p a ts cs bs t r e'"
  by (auto simp: walk_ok_def split: res.splits intro: counted_mono)

lemma events_of_append: "events_of p (xs @ ys) = events_of p xs @ events_of p ys"
  by (simp add: events_of_def)

lemma walk_ok_Cons:
  assumes "walk_ok p a ts cs bs t' r e'" "served cs (span_filter a ts s) logs e" "ingest_all p logs t = Ok t'"
  shows "walk_ok p a ts cs (span_blocks s @ bs) t r (e @ e')"
proof (cases r)
  case (Ok t'')
  then obtain parts where "counted p a ts cs parts e'" "covered parts = bs"
    "t'' = fold ingest (events_of p (counted_logs parts)) t'" using assms(1) by (auto simp: walk_ok_def)
  then show ?thesis
    using assms(2,3) Ok counted_mono [of p a ts cs parts e' "e @ e'"] served_mono [of cs _ logs e "e @ e'"]
    by (auto simp: walk_ok_def counted_def covered_def counted_logs_def ingest_all_Ok events_of_append
        intro!: exI [of _ "(s, logs) # parts"])
qed (use assms(1) in \<open>auto simp: walk_ok_def\<close>)

lemma ingest_not_panic: "ingest_all p logs t \<noteq> Panic m \<and> ingest_all p logs t \<noteq> Pending"
proof (induction logs arbitrary: t)
  case (Cons l logs)
  have "decode_log p l \<noteq> Panic m" "decode_log p l \<noteq> Pending"
    by (auto simp: decode_log_def split: option.splits sum.splits)
  then show ?case using Cons by (cases "decode_log p l") (auto simp: ingest_log_def)
qed simp

lemma scan_spans_run:
  "spans_ok to spans \<Longrightarrow>
   \<exists>r e. run_state (scan_spans p a topics cs to chunk spans retries first t) tr = (r, tr @ e) \<and>
     walk_ok p a topics cs (concat (map span_blocks spans)) t r e"
proof (induction p a topics cs to chunk spans retries first t arbitrary: tr rule: scan_spans.induct)
  case (1 p a topics cs to chunk retries first t)
  then show ?case by (auto simp: walk_ok_def counted_def covered_def counted_logs_def events_of_def
      intro!: exI [of _ "[]"])
next
  case (2 p a topics cs to chunk cursor e spans retries first t)
  let ?w = "if first then [] else [SWait chunk_pacing]"
  let ?f = "\<lparr> lf_address = Some a, lf_topics = topics, lf_from = cursor, lf_to = e \<rparr>"
  let ?bs = "concat (map span_blocks ((cursor, e) # spans))"
  let ?s = "scan_spans p a topics cs to chunk ((cursor, e) # spans) retries first t"
  from fetch_run [of p ?f cs max_corroboration_attempts "tr @ ?w"] obtain fr us where
    fr: "run_state (fetch_attempts p ?f cs max_corroboration_attempts) (tr @ ?w) = (fr, (tr @ ?w) @ us)"
    "\<forall>logs. fr = Inr (Some logs) \<longrightarrow> served cs ?f logs us" by blast
  have head: "run_state (if first then ret () else wait chunk_pacing) tr = ((), tr @ ?w)" by (simp add: run_simps)
  note run = scan_spans.simps(2) [of p a topics cs to chunk cursor e spans retries first t] run_state_bind head fr(1)
  have failed: ?case if "run_state ?s tr = (Err err, (tr @ ?w) @ us)" for err
    using that by (intro exI [of _ "Err err"] exI [of _ "?w @ us"]) (simp add: walk_ok_def)
  show ?case
  proof (cases fr)
    case (Inl msg)
    show ?thesis
    proof (cases "classify_rpc_failure msg")
      case RateLimited
      show ?thesis
      proof (cases "retries < max_rate_limit_retries")
        case True
        let ?tr = "((tr @ ?w) @ us) @ [SWait (rate_limit_backoff * 2 ^ retries)]"
        from "2.IH"(1) [OF refl RateLimited True "2.prems", of ?tr] obtain r e' where
          "run_state (scan_spans p a topics cs to chunk ((cursor, e) # spans) (retries + 1) False t) ?tr = (r, ?tr @ e')"
          "walk_ok p a topics cs ?bs t r e'" by auto
        then show ?thesis using Inl RateLimited True
          by (intro exI [of _ r] exI [of _ "?w @ us @ [SWait (rate_limit_backoff * 2 ^ retries)] @ e'"])
            (auto simp: run run_simps intro: walk_ok_mono)
      next
        case False
        then show ?thesis by (rule_tac failed) (simp add: run Inl RateLimited)
      qed
    next
      case RangeTooWide
      show ?thesis
      proof (cases "min_chunk_blocks < chunk")
        case True
        let ?chunk = "max (chunk div 2) min_chunk_blocks" let ?tr = "(tr @ ?w) @ us"
        from "2.IH"(2) [OF refl RangeTooWide True refl block_chunks_spans, of ?tr] obtain r e' where
          "run_state (scan_spans p a topics cs to ?chunk (block_chunks cursor to ?chunk) retries False t) ?tr = (r, ?tr @ e')"
          "walk_ok p a topics cs (concat (map span_blocks (block_chunks cursor to ?chunk))) t r e'" by auto
        then show ?thesis using Inl RangeTooWide True
          unfolding block_chunks_blocks spans_ok_head(1) [OF "2.prems"]
          by (intro exI [of _ r] exI [of _ "?w @ us @ e'"]) (auto simp: run Let_def intro: walk_ok_mono)
      next
        case False
        then show ?thesis by (rule_tac failed) (simp add: run Inl RangeTooWide)
      qed
    next
      case OtherFailure
      then show ?thesis by (rule_tac failed) (simp add: run Inl)
    qed
  next
    case (Inr ans)
    show ?thesis
    proof (cases ans)
      case None
      then show ?thesis by (rule_tac failed) (simp add: run Inr)
    next
      case (Some logs)
      show ?thesis
      proof (cases "ingest_all p logs t")
        case (Ok t')
        from "2.IH"(3) [OF Ok spans_ok_head(2) [OF "2.prems"], of "(tr @ ?w) @ us"] obtain r e' where
          r: "run_state (scan_spans p a topics cs to chunk spans 0 False t') ((tr @ ?w) @ us) = (r, ((tr @ ?w) @ us) @ e')"
          "walk_ok p a topics cs (concat (map span_blocks spans)) t' r e'" by auto
        have "served cs (span_filter a topics (cursor, e)) logs (?w @ us)"
          using fr(2) Inr Some served_mono [of cs ?f logs us "?w @ us"] by (simp add: span_filter_def)
        from walk_ok_Cons [OF r(2) this Ok] r(1) show ?thesis
          by (intro exI [of _ r] exI [of _ "(?w @ us) @ e'"]) (simp add: run Inr Some Ok)
      next
        case (Err err)
        then show ?thesis by (rule_tac failed) (simp add: run Inr Some)
      qed (use ingest_not_panic [of p logs t] in auto)
    qed
  qed
qed

lemma scan_range_run:
  "\<exists>r e. run_state (scan_range p a from to topics chunk cs t) tr = (r, tr @ e) \<and>
     walk_ok p a topics cs [unat from..<Suc (unat to)] t r e"
  using scan_spans_run [OF block_chunks_spans, where to = to] unfolding scan_range_def
  by (metis block_chunks_blocks)


section \<open>What a published count rests on\<close>

text \<open>
  The tally is that of the logs of two lists of spans that cover the attempt window and the rest
  of the outcome window, each block once and in order, and every answer counted came in one batch
  with an answer to every anchor of the scan.
\<close>

definition counted_over ::
  "rpc \<Rightarrow> address \<Rightarrow> report_window \<Rightarrow> canary list \<Rightarrow> swap_tally \<Rightarrow> scan_event list \<Rightarrow> bool" where
  "counted_over p a w cs t e \<longleftrightarrow>
     (\<exists>locks outcomes.
        counted p a [r_locked p, r_claimed p, r_refunded p] cs locks e \<and>
        covered locks = [unat (locks_from w)..<Suc (unat (locks_to w))] \<and>
        counted p a [r_claimed p, r_refunded p] cs outcomes e \<and>
        covered outcomes = [Suc (unat (locks_to w))..<Suc (unat (outcomes_to w))] \<and>
        t = tally_of (events_of p (counted_logs locks @ counted_logs outcomes)))"

text \<open>
  A result of a scan, with its trace. A count is published with the flag \<open>corroborated\<close> only if
  both ends anchored; without it only if the caller allowed it and every end that has no anchor
  answered some probe.
\<close>

definition scan_ok ::
  "rpc \<Rightarrow> address \<Rightarrow> report_window \<Rightarrow> bool \<Rightarrow> (swap_error, scan_result) res \<Rightarrow> scan_event list \<Rightarrow> bool" where
  "scan_ok p a w allow r e \<longleftrightarrow>
     (let span_end = max (outcomes_to w) (locks_to w) in
      case r of
        Ok res \<Rightarrow>
          (span_end < locks_from w \<and> e = [] \<and> res = \<lparr> sr_tally = new_tally, sr_corroborated = True \<rparr>) \<or>
          (\<exists>anc e1 e2 e3. e = e1 @ e2 @ e3 \<and> anchoring_ok (locks_from w) span_end anc e1 e2 \<and>
             counted_over p a w (canaries anc) (sr_tally res) e \<and>
             (if sr_corroborated res then \<exists>cs. anc = Anchored cs
              else allow \<and> list_all (\<lambda>(en, m). answered_successfully m) (missed_ends anc)))
      | Err err \<Rightarrow> True
      | _ \<Rightarrow> False)"

lemma refuse_has_reason: "scan_decision a allow = Refuse \<Longrightarrow> refusal_message from to a \<noteq> None"
  by (cases a) (auto simp: scan_decision_def refusal_message_def Let_def split: if_splits)

lemma decision_unproven:
  "scan_decision a allow = ProceedUnproven \<Longrightarrow>
   allow \<and> list_all (\<lambda>(en, m). answered_successfully m) (missed_ends a)"
  by (cases a) (auto simp: scan_decision_def unanswered_ends_def never_answered_def split: if_splits)

lemma decision_corroborated: "scan_decision a allow = Corroborated \<longleftrightarrow> (\<exists>cs. a = Anchored cs)"
  by (cases a) (auto simp: scan_decision_def)

lemma collect_tally_run:
  "\<exists>r e. run_state (collect_tally p a w chunk allow) tr = (r, tr @ e) \<and> scan_ok p a w allow r e"
proof (cases "max (outcomes_to w) (locks_to w) < locks_from w")
  case True
  then show ?thesis by (auto simp: collect_tally_def Let_def scan_ok_def)
next
  case False
  let ?hi = "max (outcomes_to w) (locks_to w)" let ?all = "[r_locked p, r_claimed p, r_refunded p]"
  from probe_canaries_run [of p "locks_from w" ?hi tr] obtain anc e1 e2 where
    anc: "run_state (probe_canaries p (locks_from w) ?hi) tr = (anc, tr @ e1 @ e2)"
    "anchoring_ok (locks_from w) ?hi anc e1 e2" by blast
  let ?cs = "canaries anc"
  note run = collect_tally_def Let_def False anc(1)
  have ending: ?thesis if "run_state (collect_tally p a w chunk allow) tr = (Err err, tr @ e)" for err e
    using that by (auto simp: scan_ok_def)
  show ?thesis
  proof (cases "scan_decision anc allow = Refuse")
    case True
    from refuse_has_reason [OF True] obtain m where "refusal_message (locks_from w) ?hi anc = Some m" by blast
    then show ?thesis using False True by (intro ending) (simp add: run)
  next
    case go: False
    from scan_range_run [of p a "locks_from w" "locks_to w" ?all chunk ?cs new_tally "tr @ e1 @ e2"] obtain r3 e3 where
      r3: "run_state (scan_range p a (locks_from w) (locks_to w) ?all chunk ?cs new_tally) (tr @ e1 @ e2) = (r3, (tr @ e1 @ e2) @ e3)"
      "walk_ok p a ?all ?cs [unat (locks_from w)..<Suc (unat (locks_to w))] new_tally r3 e3" by blast
    show ?thesis
    proof (cases r3)
      case (Err err)
      then show ?thesis using False go r3(1) by (intro ending) (simp add: run run_tryM)
    next
      case (Ok t)
      then obtain parts where parts: "counted p a ?all ?cs parts e3"
        "covered parts = [unat (locks_from w)..<Suc (unat (locks_to w))]"
        "t = fold ingest (events_of p (counted_logs parts)) new_tally" using r3(2) by (auto simp: walk_ok_def)
      let ?second = "if locks_to w < outcomes_to w
          then scan_range p a (locks_to w + 1) (outcomes_to w) [r_claimed p, r_refunded p] chunk ?cs t else ret (Ok t)"
      have "\<exists>r e. run_state ?second ((tr @ e1 @ e2) @ e3) = (r, ((tr @ e1 @ e2) @ e3) @ e) \<and>
          walk_ok p a [r_claimed p, r_refunded p] ?cs [Suc (unat (locks_to w))..<Suc (unat (outcomes_to w))] t r e"
      proof (cases "locks_to w < outcomes_to w")
        case True
        then have "locks_to w \<noteq> - 1" by auto
        then have "unat (locks_to w + 1) = Suc (unat (locks_to w))" by (rule unat_succ)
        then show ?thesis using True
            scan_range_run [of p a "locks_to w + 1" "outcomes_to w" "[r_claimed p, r_refunded p]" chunk ?cs t "(tr @ e1 @ e2) @ e3"]
          by (simp del: upt_Suc)
      next
        case nf: False
        then have "[Suc (unat (locks_to w))..<Suc (unat (outcomes_to w))] = []"
          by (simp add: word_less_nat_alt)
        then show ?thesis using nf
          by (auto simp: walk_ok_def counted_def covered_def counted_logs_def events_of_def intro!: exI [of _ "[]"])
      qed
      then obtain r4 e4 where r4: "run_state ?second ((tr @ e1 @ e2) @ e3) = (r4, ((tr @ e1 @ e2) @ e3) @ e4)"
        "walk_ok p a [r_claimed p, r_refunded p] ?cs [Suc (unat (locks_to w))..<Suc (unat (outcomes_to w))] t r4 e4"
        by blast
      show ?thesis
      proof (cases r4)
        case (Err err)
        then show ?thesis using False go r3(1) r4(1) Ok by (intro ending) (simp add: run run_tryM)
      next
        case ok2: (Ok t')
        then obtain parts2 where parts2: "counted p a [r_claimed p, r_refunded p] ?cs parts2 e4"
          "covered parts2 = [Suc (unat (locks_to w))..<Suc (unat (outcomes_to w))]"
          "t' = fold ingest (events_of p (counted_logs parts2)) t" using r4(2) by (auto simp: walk_ok_def)
        let ?e = "e1 @ e2 @ e3 @ e4" let ?res = "\<lparr> sr_tally = t', sr_corroborated = (scan_decision anc allow = Corroborated) \<rparr>"
        have "t' = tally_of (events_of p (counted_logs parts @ counted_logs parts2))"
          using parts(3) parts2(3) by (simp add: tally_of_def events_of_append)
        then have "counted_over p a w ?cs t' ?e" unfolding counted_over_def
          using counted_mono [OF parts(1), of ?e] parts(2) counted_mono [OF parts2(1), of ?e] parts2(2)
          by (metis Un_upper1 Un_upper2 le_supI2 set_append)
        moreover have "if sr_corroborated ?res then \<exists>cs. anc = Anchored cs
            else allow \<and> list_all (\<lambda>(en, m). answered_successfully m) (missed_ends anc)"
          using go decision_unproven [of anc allow] decision_corroborated [of anc allow]
          by (cases "scan_decision anc allow") simp_all
        ultimately have "scan_ok p a w allow (Ok ?res) ?e"
          unfolding scan_ok_def Let_def res.case using anc(2)
          by (intro disjI2 exI [of _ anc] exI [of _ e1] exI [of _ e2] exI [of _ "e3 @ e4"]) simp
        moreover have "run_state (collect_tally p a w chunk allow) tr = (Ok ?res, tr @ ?e)"
          using False go r3(1) r4(1) Ok ok2 by (auto simp: run run_tryM)
        ultimately show ?thesis by blast
      qed (use r4(2) in \<open>auto simp: walk_ok_def\<close>)
    qed (use r3(2) in \<open>auto simp: walk_ok_def\<close>)
  qed
qed

section \<open>Properties\<close>

text \<open>
  C19. No unproven number: whatever the endpoint answers, a scan ends with an error or publishes a
  count. A published count is the tally of all logs of the attempt window, and of the outcomes
  after it, with each block covered exactly once; every answer it counts came in one batch in which
  every anchor was answered in full. It carries the flag \<open>corroborated\<close> only when both ends of the
  range anchored on a block whose logs the endpoint served; without an anchor at both ends it
  needs the caller's consent, and an end the endpoint never answered is refused even then.
\<close>

theorem published_count_is_proven:
  "\<exists>e. snd (run_state (collect_tally p a w chunk allow) tr) = tr @ e \<and>
     scan_ok p a w allow (fst (run_state (collect_tally p a w chunk allow) tr)) e"
  using collect_tally_run [of p a w chunk allow tr] by auto

text \<open>
  The probes are bounded and sound: probing both ends makes at most 256 requests, every
  anchor it reports is backed by a block whose logs were read, with at least one log expected, and
  an end without anchor counts as answered exactly when a probe of it came back with an empty list.
\<close>

lemma probes_bounded_and_backed:
  "\<exists>e1 e2. snd (run_state (probe_canaries p from to) tr) = tr @ e1 @ e2 \<and> requests (e1 @ e2) \<le> 256 \<and>
     anchoring_ok from to (fst (run_state (probe_canaries p from to) tr)) e1 e2"
  using probe_canaries_run [of p "from" to tr] by (metis fst_conv snd_conv)

end
