(* ===== verification/Report_Command.thy ===== *)
theory Report_Command
  imports Report_Scan
begin

text \<open>
  The \<open>chain-report\<close> command (\<open>src/cli/report.rs\<close>): the choice of the transport, the opening
  handshake with its reconnects, the window of blocks, the scan with its reconnects, and the
  report. Parsing and printing of addresses are parameters, as is the printed help text; the
  report is returned, its lines are not modelled.
\<close>

section \<open>Transport\<close>

text \<open>\<open>split_once("://")\<close>.\<close>

fun split_scheme :: "string \<Rightarrow> (string \<times> string) option" where
  "split_scheme [] = None"
| "split_scheme (c # cs) =
     (if take 3 (c # cs) = ''://'' then Some ([], drop 3 (c # cs))
      else (case split_scheme cs of None \<Rightarrow> None | Some (a, b) \<Rightarrow> Some (c # a, b)))"

definition eq_ignore_ascii_case :: "string \<Rightarrow> string \<Rightarrow> bool" where
  "eq_ignore_ascii_case a b \<longleftrightarrow> to_ascii_lowercase a = to_ascii_lowercase b"

definition to_http_url :: "string \<Rightarrow> string" where
  "to_http_url url =
     (case split_scheme url of
        Some (scheme, rest) \<Rightarrow>
          if eq_ignore_ascii_case scheme ''wss'' then ''https://'' @ rest
          else if eq_ignore_ascii_case scheme ''ws'' then ''http://'' @ rest
          else url
      | None \<Rightarrow> url)"

definition url_scheme :: "string \<Rightarrow> string option" where
  "url_scheme url = map_option (\<lambda>(scheme, rest). to_ascii_lowercase scheme) (split_scheme url)"

definition batching_schemes :: "string list" where
  "batching_schemes = [''http'', ''https'']"

definition connect :: "rpc \<Rightarrow> string \<Rightarrow> unit rscan" where
  "connect p url =
     (let http = to_http_url url; scheme = url_scheme http in
      if \<not> (case scheme of Some s \<Rightarrow> s \<in> set batching_schemes | None \<Rightarrow> False)
      then ret (Err (InvalidConfig (''--eth-rpc-url must be an http:// or https:// endpoint, but this one has '' @
             (case scheme of Some s \<Rightarrow> ''scheme '' @ s | None \<Rightarrow> ''no scheme''))))
      else do {
        r \<leftarrow> ask (SConnect http) (\<lambda>tr. r_connect p tr http);
        ret (case r of Inl e \<Rightarrow> Err (EthRpc (''RPC connect failed: '' @ e)) | Inr u \<Rightarrow> Ok ()) })"

section \<open>Throttling\<close>

definition max_scan_attempts :: nat where "max_scan_attempts = 5"

definition is_retryable_handshake_failure :: "swap_error \<Rightarrow> bool" where
  "is_retryable_handshake_failure e \<longleftrightarrow> (case e of EthRpc m \<Rightarrow> True | _ \<Rightarrow> False)"

definition throttle_backoff :: "swap_error \<Rightarrow> nat \<Rightarrow> nat" where
  "throttle_backoff e attempt =
     (case e of
        EthRpc msg \<Rightarrow> if classify_rpc_failure msg = RateLimited then rate_limit_backoff * 2 ^ min (attempt - 1) 6 else 0
      | _ \<Rightarrow> 0)"

definition name_the_block :: "u64 \<Rightarrow> swap_error \<Rightarrow> swap_error" where
  "name_the_block block e =
     (case e of
        EthRpc msg \<Rightarrow> EthRpc (''eth_getBlockByNumber('' @ show_nat (unat block) @ '') failed: '' @ msg)
      | _ \<Rightarrow> e)"

definition block_timestamp :: "rpc \<Rightarrow> u64 \<Rightarrow> u64 rscan" where
  "block_timestamp p block = do {
     r \<leftarrow> ask (SBlockTime block) (\<lambda>tr. r_block_time p tr block);
     ret (case r of
            Inl e \<Rightarrow> Err (EthRpc e)
          | Inr None \<Rightarrow> Err (EthRpc ''no such block'')
          | Inr (Some t) \<Rightarrow> Ok t) }"

function paced_attempts :: "u64 \<Rightarrow> u64 rscan \<Rightarrow> nat \<Rightarrow> u64 rscan" where
  "paced_attempts block fetch attempt = do {
     r \<leftarrow> fetch;
     (case r of
        Err e \<Rightarrow>
          (let backoff = throttle_backoff e attempt in
           if backoff = 0 \<or> max_rate_limit_retries < attempt then ret (Err (name_the_block block e))
           else do { wait backoff; paced_attempts block fetch (attempt + 1) })
      | _ \<Rightarrow> ret r) }"
  by pat_completeness auto
termination
  by (relation "measure (\<lambda>(b, f, attempt). Suc max_rate_limit_retries - attempt)") auto

declare paced_attempts.simps [simp del]

definition block_timestamp_paced :: "u64 \<Rightarrow> u64 rscan \<Rightarrow> u64 rscan" where
  "block_timestamp_paced block fetch = paced_attempts block fetch 1"

section \<open>The command\<close>

record report_args =
  ra_eth_rpc_url :: string
  ra_eth_htlc_address :: string
  ra_from_block :: "u64 option"
  ra_to_block :: "u64 option"
  ra_since :: "u64 option"
  ra_until :: "u64 option"
  ra_chunk_blocks :: u64
  ra_allow_uncorroborated :: bool

record address_text =
  at_parse :: "string \<Rightarrow> string + address"
  at_show :: "address \<Rightarrow> string"

record chain_report =
  cr_contract_address :: string
  cr_is_pinned_venue :: bool
  cr_chain_id :: u64
  cr_interface_version :: u64
  cr_from_block :: u64
  cr_to_block :: u64
  cr_outcomes_to_block :: u64
  cr_corroborated :: bool
  cr_counts :: swap_counts

definition pinned_eth_htlc_address :: string where
  "pinned_eth_htlc_address = ''0x351B0EA07739FA9F6769213927D7836a790A5FAF''"

definition pinned_deploy_block :: u64 where "pinned_deploy_block = 11417462"

definition superseded_eth_htlc_address :: string where
  "superseded_eth_htlc_address = ''0x8636Fe66DFee166589a913140f14d5F57394834A''"

definition opening_handshake :: "rpc \<Rightarrow> address \<Rightarrow> (u64 \<times> u64 \<times> u64) rscan" where
  "opening_handshake p a = do {
     answer \<leftarrow> ask (SVersion a) (\<lambda>tr. r_version p tr a);
     tryM (ret (read_version a answer)) (\<lambda>version. do {
       c \<leftarrow> ask SChainId (r_chain_id p);
       (case c of
          Inl e \<Rightarrow> ret (Err (EthRpc (''eth_chainId failed: '' @ e)))
        | Inr chain_id \<Rightarrow> do {
            h \<leftarrow> ask SHead (r_head p);
            ret (case h of
                   Inl e \<Rightarrow> Err (EthRpc (''eth_blockNumber failed: '' @ e))
                 | Inr head \<Rightarrow> Ok (version, chain_id, head)) }) }) }"

definition search_floor :: "bool \<Rightarrow> u64 option \<Rightarrow> u64" where
  "search_floor is_pinned_venue from_block =
     (case from_block of
        Some explicit \<Rightarrow> explicit
      | None \<Rightarrow> if is_pinned_venue then pinned_deploy_block else 0)"

definition exhausted_message :: "string \<Rightarrow> string" where
  "exhausted_message refusal =
     refusal @ '' This was retried '' @ show_nat max_scan_attempts @ '' times, on a fresh connection each time''"

function open_attempts :: "rpc \<Rightarrow> string \<Rightarrow> address \<Rightarrow> nat \<Rightarrow> (u64 \<times> u64 \<times> u64) rscan" where
  "open_attempts p url a attempt =
     tryM (connect p url) (\<lambda>_. do {
       r \<leftarrow> opening_handshake p a;
       (case r of
          Err e \<Rightarrow>
            if \<not> is_retryable_handshake_failure e then ret (Err e)
            else if attempt < max_scan_attempts then do {
              wait (throttle_backoff e attempt);
              open_attempts p url a (attempt + 1) }
            else (case e of
                    EthRpc msg \<Rightarrow> ret (Err (EthRpc (exhausted_message msg)))
                  | _ \<Rightarrow> ret (Err e))
        | _ \<Rightarrow> ret r) })"
  by pat_completeness auto
termination
  by (relation "measure (\<lambda>(p, u, a, attempt). max_scan_attempts - attempt)") auto

declare open_attempts.simps [simp del]

text \<open>The window of blocks, from the head and the bounds given.\<close>

definition window_from :: "rpc \<Rightarrow> report_args \<Rightarrow> u64 \<Rightarrow> u64 \<Rightarrow> u64 rscan" where
  "window_from p args default_from head =
     (case ra_since args of
        None \<Rightarrow> ret (Ok default_from)
      | Some ts \<Rightarrow>
          tryM (first_block_at_or_after default_from head ts (\<lambda>b. block_timestamp_paced b (block_timestamp p b)))
            (\<lambda>o'. ret (Ok (case o' of Some b \<Rightarrow> b | None \<Rightarrow> sat_add head 1))))"

definition window_to :: "rpc \<Rightarrow> report_args \<Rightarrow> u64 \<Rightarrow> u64 \<Rightarrow> u64 rscan" where
  "window_to p args from_block head =
     (case ra_until args of
        None \<Rightarrow> ret (Ok (min (case ra_to_block args of Some b \<Rightarrow> b | None \<Rightarrow> head) head))
      | Some ts \<Rightarrow>
          tryM (last_block_at_or_before (min from_block head) head ts
                  (\<lambda>b. block_timestamp_paced b (block_timestamp p b)))
            (\<lambda>o'. ret (Ok (case o' of Some b \<Rightarrow> b | None \<Rightarrow> sat_sub from_block 1))))"

definition window_of :: "u64 \<Rightarrow> u64 \<Rightarrow> u64 \<Rightarrow> report_window" where
  "window_of from_block to_block head =
     \<lparr> locks_from = from_block, locks_to = to_block,
       outcomes_to = (if to_block < from_block then to_block else max head to_block) \<rparr>"

text \<open>The scan on up to five connections; \<open>n\<close> attempts are left, and \<open>refusal\<close> is the last one.\<close>

fun scan_attempts ::
  "rpc \<Rightarrow> report_args \<Rightarrow> address \<Rightarrow> report_window \<Rightarrow> bool \<Rightarrow> string \<Rightarrow> nat \<Rightarrow> scan_result rscan" where
  "scan_attempts p args a w fresh refusal 0 = ret (Err (EthLogsUncorroborated (exhausted_message refusal)))"
| "scan_attempts p args a w fresh refusal (Suc n) =
     tryM (if fresh then connect p (ra_eth_rpc_url args) else ret (Ok ())) (\<lambda>_. do {
       r \<leftarrow> collect_tally p a w (ra_chunk_blocks args) (ra_allow_uncorroborated args);
       (case r of
          Err (EthLogsUncorroborated msg) \<Rightarrow> scan_attempts p args a w True msg n
        | _ \<Rightarrow> ret r) })"

definition check_args :: "address_text \<Rightarrow> report_args \<Rightarrow> (swap_error, address \<times> bool) res" where
  "check_args t args =
     (case at_parse t (ra_eth_htlc_address args) of
        Inl e \<Rightarrow> Err (InvalidConfig (''invalid eth-htlc-address: '' @ e))
      | Inr a \<Rightarrow>
          (case at_parse t pinned_eth_htlc_address of
             Inl e \<Rightarrow> Panic ''pinned venue address is a compile-time constant''
           | Inr pinned \<Rightarrow>
               if ra_chunk_blocks args = 0 then Err (InvalidConfig ''--chunk-blocks must be at least 1'')
               else if a \<noteq> pinned \<and> ra_from_block args = None \<and> ra_since args = None then
                 Err (InvalidConfig (''not the pinned venue'' @
                   (if at_parse t superseded_eth_htlc_address = Inr a then '' SUPERSEDED'' else '''')))
               else Ok (a, a = pinned)))"

definition cmd_chain_report :: "rpc \<Rightarrow> address_text \<Rightarrow> report_args \<Rightarrow> chain_report rscan" where
  "cmd_chain_report p t args =
     tryM (ret (check_args t args)) (\<lambda>(a, is_pinned_venue).
     tryM (open_attempts p (ra_eth_rpc_url args) a 1) (\<lambda>(version, chain_id, head).
     tryM (window_from p args (search_floor is_pinned_venue (ra_from_block args)) head) (\<lambda>from_block.
     tryM (window_to p args from_block head) (\<lambda>to_block.
       let w = window_of from_block to_block head in
       tryM (scan_attempts p args a w False [] max_scan_attempts) (\<lambda>scan.
         ret (Ok \<lparr> cr_contract_address = at_show t a, cr_is_pinned_venue = is_pinned_venue,
                   cr_chain_id = chain_id, cr_interface_version = version,
                   cr_from_block = locks_from w, cr_to_block = locks_to w, cr_outcomes_to_block = outcomes_to w,
                   cr_corroborated = sr_corroborated scan, cr_counts = counts (at_show t) (sr_tally scan) \<rparr>))))))"


section \<open>What the command sends\<close>

text \<open>Every connection is over HTTP, so that a batch is one request to one backend.\<close>

fun batching :: "scan_event \<Rightarrow> bool" where
  "batching (SConnect url r) \<longleftrightarrow> (\<exists>s. url_scheme url = Some s \<and> s \<in> set batching_schemes)"
| "batching _ = True"

lemma emits_ask: "(\<And>a. P (mk a)) \<Longrightarrow> emits P (ask mk f)"
  by (simp add: emits_def run_ask)

lemmas scan_emits = emits_ret emits_bind emits_tryM emits_ask

lemma emits_scan_calls:
  "emits batching (get_logs p f)" "emits batching (send_batch p f fs)" "emits batching (wait ms)"
  by (simp_all add: get_logs_def send_batch_def wait_def emits_ask)

lemma emits_connect: "emits batching (connect p url)"
  by (auto simp: connect_def Let_def intro!: scan_emits split: option.splits)

lemma emits_anchor_attempts: "emits batching (anchor_attempts p b attempt retries first miss)"
proof (induction "(canary_probe_attempts - attempt) + (canary_rate_limit_retries - retries)"
    arbitrary: attempt retries first miss rule: less_induct)
  case less
  then show ?case
    by (subst anchor_attempts.simps)
      (auto simp: Let_def intro!: scan_emits emits_scan_calls less split: sum.splits probe_outcome.splits)
qed

lemma emits_anchor_in: "emits batching (anchor_in p bs)"
proof -
  have "emits batching (anchor_blocks p bs first miss)" for first miss
    by (induction bs arbitrary: first miss)
      (auto intro!: scan_emits emits_anchor_attempts split: sum.splits)
  then show ?thesis by (simp add: anchor_in_def)
qed

lemma emits_fetch: "emits batching (fetch_attempts p f cs n)"
  by (induction n)
    (auto simp: corroborated_get_logs_def intro!: scan_emits emits_scan_calls split: res.splits option.splits)

lemma emits_scan_spans: "emits batching (scan_spans p a ts cs to chunk spans retries first t)"
proof (induction p a ts cs to chunk spans retries first t rule: scan_spans.induct)
  case (2 p a ts cs to chunk c e spans retries first t)
  show ?case
    apply (subst scan_spans.simps)
    apply (intro emits_bind)
      apply (simp add: emits_ret emits_scan_calls)
     apply (rule emits_fetch)
    subgoal for u r
      apply (cases r)
      subgoal for msg
        by (cases "classify_rpc_failure msg")
          (use "2.IH"(1) "2.IH"(2) in \<open>auto simp: Let_def simp del: scan_spans.simps
            intro!: emits_ret emits_bind emits_scan_calls\<close>)
      subgoal for ans
        apply (cases ans)
         apply (simp add: emits_ret)
        subgoal for logs
          by (cases "ingest_all p logs t") (simp_all add: emits_ret "2.IH"(3) del: scan_spans.simps)
        done
      done
    done
qed (simp add: emits_ret)

lemma emits_collect: "emits batching (collect_tally p a w chunk allow)"
  unfolding collect_tally_def probe_canaries_def scan_range_def
  by (auto simp: Let_def intro!: scan_emits emits_anchor_in emits_scan_spans split: option.splits)

lemma emits_paced: "emits batching fetch \<Longrightarrow> emits batching (paced_attempts b fetch attempt)"
proof (induction "Suc max_rate_limit_retries - attempt" arbitrary: attempt rule: less_induct)
  case less
  then show ?case
    by (subst paced_attempts.simps)
      (auto simp: Let_def intro!: scan_emits emits_scan_calls split: res.splits)
qed

lemma emits_block_time: "emits batching (block_timestamp_paced b (block_timestamp p b))"
  unfolding block_timestamp_paced_def block_timestamp_def by (auto intro!: emits_paced scan_emits)

lemma emits_first_search: "(\<And>b. emits P (fetch b)) \<Longrightarrow> emits P (first_search fetch target lo hi)"
proof (induction fetch target lo hi rule: first_search.induct)
  case (1 fetch target lo hi)
  then show ?case by (subst first_search.simps) (simp add: Let_def emits_ret emits_tryM)
qed

lemma emits_last_search: "(\<And>b. emits P (fetch b)) \<Longrightarrow> emits P (last_search fetch target lo hi)"
proof (induction fetch target lo hi rule: last_search.induct)
  case (1 fetch target lo hi)
  then show ?case by (subst last_search.simps) (simp add: Let_def emits_ret emits_tryM)
qed

lemma emits_searches:
  assumes "\<And>b. emits P (fetch b)"
  shows "emits P (first_block_at_or_after lo hi target fetch)" "emits P (last_block_at_or_before lo hi target fetch)"
  using assms
  by (simp_all add: first_block_at_or_after_def last_block_at_or_before_def emits_ret emits_tryM
      emits_first_search emits_last_search)

lemma emits_window: "emits batching (window_from p args d head)" "emits batching (window_to p args f head)"
  unfolding window_from_def window_to_def
  by (auto intro!: scan_emits emits_searches emits_block_time split: option.splits)

lemma emits_handshake: "emits batching (opening_handshake p a)"
  unfolding opening_handshake_def by (auto intro!: scan_emits split: sum.splits)

lemma emits_open: "emits batching (open_attempts p url a attempt)"
proof (induction "max_scan_attempts - attempt" arbitrary: attempt rule: less_induct)
  case less
  then show ?case
    by (subst open_attempts.simps)
      (auto intro!: scan_emits emits_connect emits_handshake emits_scan_calls split: res.splits swap_error.splits)
qed

lemma emits_scan_attempts: "emits batching (scan_attempts p args a w fresh refusal n)"
  by (induction n arbitrary: fresh refusal)
    (auto intro!: scan_emits emits_connect emits_collect split: res.splits swap_error.splits)


section \<open>What a report rests on\<close>

lemma read_version_Ok: "read_version a ans = Ok v \<longleftrightarrow> ans = Inr 2 \<and> v = 2"
  using saturating_to_u64_2
  by (cases ans) (auto simp: read_version_def judge_version_def expected_interface_version_def res_bind_Ok_iff
      split: if_splits)

lemma handshake_run:
  assumes "run_state (opening_handshake p a) tr = (Ok (v, cid, head), tr')"
  shows "\<exists>e. tr' = tr @ e \<and> v = 2 \<and> SVersion a (Inr 2) \<in> set e \<and> SHead (Inr head) \<in> set e"
  using assms
  by (auto simp: opening_handshake_def run_tryM run_ask read_version_Ok split: res.splits sum.splits)

definition opened :: "address \<Rightarrow> u64 \<Rightarrow> u64 \<Rightarrow> scan_event list \<Rightarrow> bool" where
  "opened a v head e \<longleftrightarrow> v = 2 \<and> SVersion a (Inr 2) \<in> set e \<and> SHead (Inr head) \<in> set e"

lemma opened_mono: "opened a v head e \<Longrightarrow> opened a v head (q @ e) \<and> opened a v head (e @ q)"
  by (auto simp: opened_def)

lemma open_attempts_run:
  "run_state (open_attempts p url a attempt) tr = (Ok (v, cid, head), tr') \<Longrightarrow>
   \<exists>e. tr' = tr @ e \<and> opened a v head e"
proof (induction "max_scan_attempts - attempt" arbitrary: attempt tr rule: less_induct)
  case less
  obtain c tr1 where c: "run_state (connect p url) tr = (c, tr1)" by fastforce
  obtain e1 where e1: "tr1 = tr @ e1" using emits_prefix [OF emits_connect c] by blast
  obtain h tr2 where h: "run_state (opening_handshake p a) tr1 = (h, tr2)" by fastforce
  obtain e2 where e2: "tr2 = tr1 @ e2" using emits_prefix [OF emits_handshake h] by blast
  have "c = Ok ()" using less(2) c by (cases c) (auto simp: open_attempts.simps [of p url a attempt] run_tryM)
  note run = less(2) [unfolded open_attempts.simps [of p url a attempt]] c h this
  show ?case
  proof (cases h)
    case (Ok x)
    then have "run_state (opening_handshake p a) tr1 = (Ok (v, cid, head), tr')" using run by (auto simp: run_tryM)
    from handshake_run [OF this] e1 show ?thesis by (auto simp: opened_def)
  next
    case (Err er)
    then have go: "attempt < max_scan_attempts"
      "run_state (open_attempts p url a (attempt + 1)) (tr2 @ [SWait (throttle_backoff er attempt)]) = (Ok (v, cid, head), tr')"
      using run by (auto simp: run_tryM run_simps split: if_splits swap_error.splits)
    have "max_scan_attempts - (attempt + 1) < max_scan_attempts - attempt" using go(1) by simp
    from less(1) [OF this go(2)] obtain e where
      "tr' = (tr2 @ [SWait (throttle_backoff er attempt)]) @ e" "opened a v head e" by blast
    then show ?thesis using e1 e2 opened_mono [of a v head e "e1 @ e2 @ [SWait (throttle_backoff er attempt)]"] by auto
  qed (use run in \<open>auto simp: run_tryM\<close>)
qed

lemma scan_attempts_run:
  "run_state (scan_attempts p args a w fresh refusal n) tr = (Ok scan, tr') \<Longrightarrow>
   \<exists>q e. tr' = tr @ q @ e \<and> scan_ok p a w (ra_allow_uncorroborated args) (Ok scan) e"
proof (induction n arbitrary: fresh refusal tr)
  case (Suc n)
  let ?m = "if fresh then connect p (ra_eth_rpc_url args) else ret (Ok ())"
  obtain c tr1 where c: "run_state ?m tr = (c, tr1)" by fastforce
  have "emits batching ?m" by (simp add: emits_connect emits_ret)
  then obtain q where q: "tr1 = tr @ q" using emits_prefix [OF _ c] by blast
  have ok: "c = Ok ()" using Suc.prems c by (cases c) (auto simp: run_tryM)
  from collect_tally_run [of p a w "ra_chunk_blocks args" "ra_allow_uncorroborated args" tr1] obtain r e where
    r: "run_state (collect_tally p a w (ra_chunk_blocks args) (ra_allow_uncorroborated args)) tr1 = (r, tr1 @ e)"
    "scan_ok p a w (ra_allow_uncorroborated args) r e" by blast
  show ?case
  proof (cases "\<exists>msg. r = Err (EthLogsUncorroborated msg)")
    case True
    then obtain msg where "r = Err (EthLogsUncorroborated msg)" by blast
    then have "run_state (scan_attempts p args a w True msg n) (tr1 @ e) = (Ok scan, tr')"
      using Suc.prems c ok r(1) by (simp add: run_tryM)
    from Suc.IH [OF this] q show ?thesis by (metis append_assoc)
  next
    case False
    then have "r = Ok scan \<and> tr' = tr1 @ e" using Suc.prems c ok r(1)
      by (cases r) (auto simp: run_tryM split: swap_error.splits)
    then show ?thesis using r(2) q by auto
  qed
qed simp

lemma scan_ok_counts:
  assumes "scan_ok p a w allow (Ok scan) e"
  shows "\<exists>evs. sr_tally scan = tally_of evs"
proof -
  have "tally_of [] = new_tally" by (simp add: tally_of_def)
  then show ?thesis using assms unfolding scan_ok_def counted_over_def Let_def
    by (auto simp: exI [of "\<lambda>evs. new_tally = tally_of evs" "[]"])
qed

text \<open>
  A report: the arguments were accepted, the contract answered the version handshake with 2 and
  the node its head before the scan, the scan of the window that the report names ended well on
  one connection, and the counts are those of the events it tallied.
\<close>

definition report_ok ::
  "rpc \<Rightarrow> address_text \<Rightarrow> report_args \<Rightarrow> (swap_error, chain_report) res \<Rightarrow> scan_event list \<Rightarrow> bool" where
  "report_ok p t args r e \<longleftrightarrow>
     (case r of
        Ok rep \<Rightarrow>
          \<exists>a scan e0 e1 head evs. e = e0 @ e1 \<and> check_args t args = Ok (a, cr_is_pinned_venue rep) \<and>
            opened a (cr_interface_version rep) head e0 \<and>
            scan_ok p a (window_of (cr_from_block rep) (cr_to_block rep) head) (ra_allow_uncorroborated args) (Ok scan) e1 \<and>
            cr_corroborated rep = sr_corroborated scan \<and> sr_tally scan = tally_of evs \<and>
            cr_counts rep = reference_counts (at_show t) evs
      | _ \<Rightarrow> True)"

lemma cmd_emits: "emits batching (cmd_chain_report p t args)"
  unfolding cmd_chain_report_def
  by (auto simp: Let_def intro!: scan_emits emits_open emits_window emits_scan_attempts split: prod.splits)

lemma cmd_ok_run:
  assumes "run_state (cmd_chain_report p t args) tr = (Ok rep, tr')"
  shows "\<exists>e. tr' = tr @ e \<and> report_ok p t args (Ok rep) e"
proof -
  from assms obtain a pin where a: "check_args t args = Ok (a, pin)"
    unfolding cmd_chain_report_def by (cases "check_args t args") (auto simp: run_tryM)
  let ?o = "open_attempts p (ra_eth_rpc_url args) a 1"
  obtain o' tr1 where o': "run_state ?o tr = (o', tr1)" by fastforce
  from assms o' a obtain v cid head where ok1: "o' = Ok (v, cid, head)"
    unfolding cmd_chain_report_def by (cases o') (auto simp: run_tryM)
  let ?f = "window_from p args (search_floor pin (ra_from_block args)) head"
  obtain f tr2 where f: "run_state ?f tr1 = (f, tr2)" by fastforce
  from assms o' a ok1 f obtain from_block where ok2: "f = Ok from_block"
    unfolding cmd_chain_report_def by (cases f) (auto simp: run_tryM)
  let ?t = "window_to p args from_block head"
  obtain x tr3 where x: "run_state ?t tr2 = (x, tr3)" by fastforce
  from assms o' a ok1 f ok2 x obtain to_block where ok3: "x = Ok to_block"
    unfolding cmd_chain_report_def by (cases x) (auto simp: run_tryM)
  let ?w = "window_of from_block to_block head"
  let ?s = "scan_attempts p args a ?w False [] max_scan_attempts"
  obtain y tr4 where y: "run_state ?s tr3 = (y, tr4)" by fastforce
  from assms o' a ok1 f ok2 x ok3 y obtain scan where ok4: "y = Ok scan"
    unfolding cmd_chain_report_def by (cases y) (auto simp: run_tryM Let_def)
  have rep: "tr' = tr4" "cr_is_pinned_venue rep = pin" "cr_interface_version rep = v" "cr_from_block rep = from_block"
    "cr_to_block rep = to_block" "cr_corroborated rep = sr_corroborated scan"
    "cr_counts rep = counts (at_show t) (sr_tally scan)"
    using assms o' a ok1 f ok2 x ok3 y ok4 unfolding cmd_chain_report_def
    by (auto simp: run_tryM Let_def window_of_def)
  from open_attempts_run [OF o' [unfolded ok1]] obtain e1 where e1: "tr1 = tr @ e1" "opened a v head e1" by blast
  obtain e2 where e2: "tr2 = tr1 @ e2" using emits_prefix [OF emits_window(1) f] by blast
  obtain e3 where e3: "tr3 = tr2 @ e3" using emits_prefix [OF emits_window(2) x] by blast
  from scan_attempts_run [OF y [unfolded ok4]] obtain q e4 where
    e4: "tr4 = tr3 @ q @ e4" "scan_ok p a ?w (ra_allow_uncorroborated args) (Ok scan) e4" by blast
  obtain evs where evs: "sr_tally scan = tally_of evs" using scan_ok_counts [OF e4(2)] by blast
  have "opened a v head (e1 @ e2 @ e3 @ q)" using opened_mono [OF e1(2)] by blast
  then have "report_ok p t args (Ok rep) ((e1 @ e2 @ e3 @ q) @ e4)"
    unfolding report_ok_def res.case
    using a rep e4(2) evs counts_reference [of "at_show t" evs]
    by (intro exI [of _ a] exI [of _ scan] exI [of _ "e1 @ e2 @ e3 @ q"] exI [of _ e4] exI [of _ head] exI [of _ evs])
      simp
  then show ?thesis using e1(1) e2 e3 e4(1) rep(1) by auto
qed

text \<open>
  C23. Whatever the endpoint answers, the command connects over HTTP only, and a report that it
  returns counts, by the reference definition, exactly the events of a scan of its window that
  ended well, on a contract that answered the version handshake with 2, for accepted arguments.
\<close>

theorem report_published:
  "\<exists>e. snd (run_state (cmd_chain_report p t args) tr) = tr @ e \<and> list_all batching e \<and>
     report_ok p t args (fst (run_state (cmd_chain_report p t args) tr)) e"
proof -
  obtain r tr' where run: "run_state (cmd_chain_report p t args) tr = (r, tr')" by fastforce
  obtain e where e: "tr' = tr @ e" "list_all batching e"
    using cmd_emits run unfolding emits_def by (metis snd_conv)
  have "report_ok p t args r e"
  proof (cases r)
    case (Ok rep)
    from cmd_ok_run [OF run [unfolded this]] e(1) Ok show ?thesis by simp
  qed (simp_all add: report_ok_def)
  then show ?thesis using run e by auto
qed

section \<open>The window of a time bound\<close>

text \<open>An endpoint that answers every block time of the range with \<open>ts\<close>.\<close>

definition tells_time :: "rpc \<Rightarrow> (u64 \<Rightarrow> u64) \<Rightarrow> bool" where
  "tells_time p ts \<longleftrightarrow> (\<forall>tr b. r_block_time p tr b = Inr (Some (ts b)))"

lemma paced_told:
  assumes "tells_time p ts"
  shows "fst (run_state (block_timestamp_paced b (block_timestamp p b)) w) = Ok (ts b)"
proof -
  have "run_state (block_timestamp p b) w = (Ok (ts b), w @ [SBlockTime b (Inr (Some (ts b)))])"
    using assms by (simp add: block_timestamp_def run_ask tells_time_def)
  then show ?thesis
    unfolding block_timestamp_paced_def by (subst paced_attempts.simps) simp
qed

lemma block_range_set: "b \<in> set (block_range lo hi) \<longleftrightarrow> lo \<le> b \<and> b \<le> hi"
proof
  assume "b \<in> set (block_range lo hi)"
  then show "lo \<le> b \<and> b \<le> hi"
    by (auto simp: block_range_def word_le_nat_alt unat_of_nat_le [of _ hi] simp del: upt_Suc)
next
  assume "lo \<le> b \<and> b \<le> hi"
  then have "b = of_nat (unat b)" "unat b \<in> set [unat lo..<Suc (unat hi)]"
    by (auto simp: word_le_nat_alt)
  then show "b \<in> set (block_range lo hi)" unfolding block_range_def set_map by (rule image_eqI)
qed

lemma find_SomeD: "find P xs = Some x \<Longrightarrow> x \<in> set xs \<and> P x"
  by (induction xs) (auto split: if_splits)

lemma find_is_first:
  assumes "find P (block_range lo hi) = Some f" "lo \<le> b" "b \<le> hi" "P b"
  shows "f \<le> b"
proof -
  define S where "S = {a. lo \<le> a \<and> a \<le> hi \<and> P a}"
  define m where "m = Min S"
  have b: "b \<in> S" using assms(2-4) by (simp add: S_def)
  have m: "m \<in> S" "\<And>a. a \<in> S \<Longrightarrow> m \<le> a"
    unfolding m_def using b by (blast intro: Min_in Min_le finite)+
  have first: "\<not> P a" if "lo \<le> a" "a < m" for a
  proof
    assume "P a"
    then have "a \<in> S" using that m(1) by (auto simp: S_def)
    then show False using that(2) m(2) by (meson leD)
  qed
  have "lo \<le> m" "m \<le> hi" "P m" using m(1) by (simp_all add: S_def)
  from find_first [of lo m hi P, OF this first] show ?thesis using assms(1) m(2) [OF b] by simp
qed

lemma find_is_last:
  assumes "find P (rev (block_range lo hi)) = Some f" "lo \<le> b" "b \<le> hi" "P b"
  shows "b \<le> f"
proof -
  define S where "S = {a. lo \<le> a \<and> a \<le> hi \<and> P a}"
  define m where "m = Max S"
  have b: "b \<in> S" using assms(2-4) by (simp add: S_def)
  have m: "m \<in> S" "\<And>a. a \<in> S \<Longrightarrow> a \<le> m"
    unfolding m_def using b by (blast intro: Max_in Max_ge finite)+
  have last: "\<not> P a" if "m < a" "a \<le> hi" for a
  proof
    assume "P a"
    then have "a \<in> S" using that m(1) by (auto simp: S_def)
    then show False using that(1) m(2) by (meson leD)
  qed
  have "lo \<le> m" "m \<le> hi" "P m" using m(1) by (simp_all add: S_def)
  from find_last [of lo m hi P, OF this last] show ?thesis using assms(1) m(2) [OF b] by simp
qed

lemma succ_beyond:
  assumes "(head :: u64) \<noteq> - 1"
  shows "head < sat_add head 1"
proof -
  have "unat (- 1 :: u64) = 18446744073709551615" by (simp add: unat_minus_one_word_max)
  then have "unat head \<noteq> 18446744073709551615" using assms by (metis word_unat_eq_iff)
  then show ?thesis using unat_less_pow [of head] by (simp add: word_less_nat_alt unat_sat_add min_def)
qed

lemma window_from_told:
  assumes "tells_time p ts" "increasing floor head ts" "ra_since args = Some since" "head \<noteq> - 1" "floor \<noteq> 0"
  shows "\<exists>f. fst (run_state (window_from p args floor head) tr) = Ok f \<and> f \<noteq> 0 \<and>
    (f \<le> head \<longrightarrow> floor \<le> f) \<and>
    (\<forall>b. floor \<le> b \<and> b \<le> head \<longrightarrow> (f \<le> b \<longleftrightarrow> since \<le> ts b))"
proof -
  let ?r = "find (\<lambda>b. since \<le> ts b) (block_range floor head)"
  have "fst (run_state (first_block_at_or_after floor head since
      (\<lambda>b. block_timestamp_paced b (block_timestamp p b))) tr) = Ok ?r"
    by (rule searches_any(1) [OF paced_told [OF assms(1)] assms(2)])
  then have run: "fst (run_state (window_from p args floor head) tr) =
      Ok (case ?r of Some b \<Rightarrow> b | None \<Rightarrow> sat_add head 1)"
    by (auto simp: window_from_def assms(3) run_tryM split: prod.splits)
  show ?thesis
  proof (cases ?r)
    case None
    have "\<not> since \<le> ts b" if "floor \<le> b" "b \<le> head" for b
      using None that block_range_set [of b floor head] by (auto simp: find_None_iff)
    then show ?thesis using run None succ_beyond [OF assms(4)] by auto
  next
    case (Some f)
    have f: "floor \<le> f" "f \<le> head" "since \<le> ts f"
      using find_SomeD [OF Some] by (auto simp: block_range_set)
    have "f \<le> b \<longleftrightarrow> since \<le> ts b" if b: "floor \<le> b" "b \<le> head" for b
      using find_is_first [OF Some b] f increasingD [OF assms(2) f(1) _ b(2)] by (meson order_trans)
    then show ?thesis using run Some f assms(5) by auto
  qed
qed

lemma window_to_told:
  assumes "tells_time p ts" "increasing f head ts" "ra_until args = Some until" "f \<noteq> 0"
  shows "\<exists>t. fst (run_state (window_to p args f head) tr) = Ok t \<and>
    (\<forall>b. f \<le> b \<and> b \<le> head \<longrightarrow> (b \<le> t \<longleftrightarrow> ts b \<le> until))"
proof -
  let ?lo = "min f head"
  let ?r = "find (\<lambda>b. ts b \<le> until) (rev (block_range ?lo head))"
  have inc: "increasing ?lo head ts"
  proof (cases "f \<le> head")
    case False
    then have "?lo = head" by simp
    then show ?thesis by (auto simp: increasing_def) (metis antisym order_trans order.refl)
  qed (use assms(2) in \<open>simp add: min_def\<close>)
  have "fst (run_state (last_block_at_or_before ?lo head until
      (\<lambda>b. block_timestamp_paced b (block_timestamp p b))) tr) = Ok ?r"
    by (rule searches_any(2) [OF paced_told [OF assms(1)] inc])
  then have run: "fst (run_state (window_to p args f head) tr) =
      Ok (case ?r of Some b \<Rightarrow> b | None \<Rightarrow> sat_sub f 1)"
    by (auto simp: window_to_def assms(3) run_tryM split: prod.splits)
  show ?thesis
  proof (cases ?r)
    case None
    have "\<not> ts b \<le> until \<and> \<not> b \<le> sat_sub f 1" if "f \<le> b" "b \<le> head" for b
    proof -
      have "\<not> ts b \<le> until"
        using None that block_range_set [of b ?lo head] by (auto simp: find_None_iff)
      moreover have "sat_sub f 1 < b"
        using that(1) assms(4) unat_eq_zero [of f]
        by (simp add: word_less_nat_alt word_le_nat_alt unat_sat_sub)
      ultimately show ?thesis by simp
    qed
    then show ?thesis using run None by auto
  next
    case (Some t)
    have t: "?lo \<le> t" "t \<le> head" "ts t \<le> until"
      using find_SomeD [OF Some] by (auto simp: block_range_set)
    have "b \<le> t \<longleftrightarrow> ts b \<le> until" if b: "f \<le> b" "b \<le> head" for b
      using find_is_last [OF Some _ b(2)] t b increasingD [OF assms(2) b(1) _ t(2)]
      by (meson min.coboundedI1 order_trans)
    then show ?thesis using run Some by auto
  qed
qed

text \<open>
  On an endpoint whose block times never decrease, a report that is asked for the swaps
  since one time and until another scans exactly the blocks of those times.
\<close>

lemma window_is_the_times:
  assumes "tells_time p ts" "increasing floor head ts" "ra_since args = Some since" "ra_until args = Some until"
    and "head \<noteq> - 1" "floor \<noteq> 0"
  shows "\<exists>f t. fst (run_state (tryM (window_from p args floor head)
        (\<lambda>f. tryM (window_to p args f head) (\<lambda>t. ret (Ok (f, t))))) tr) = Ok (f, t) \<and>
      (\<forall>b. floor \<le> b \<and> b \<le> head \<longrightarrow>
         (locks_from (window_of f t head) \<le> b \<and> b \<le> locks_to (window_of f t head) \<longleftrightarrow>
          since \<le> ts b \<and> ts b \<le> until))"
proof -
  obtain f where f: "fst (run_state (window_from p args floor head) tr) = Ok f" "f \<noteq> 0"
      "f \<le> head \<longrightarrow> floor \<le> f" "\<And>b. floor \<le> b \<Longrightarrow> b \<le> head \<Longrightarrow> f \<le> b \<longleftrightarrow> since \<le> ts b"
    using window_from_told [OF assms(1-3,5,6), of tr] by blast
  obtain tr1 where tr1: "run_state (window_from p args floor head) tr = (Ok f, tr1)"
    using f(1) by (metis prod.collapse)
  have "increasing f head ts"
    using f(3) increasing_sub [OF assms(2)] by (cases "f \<le> head") (auto simp: increasing_def)
  from window_to_told [OF assms(1) this assms(4) f(2), of tr1] obtain t where
    t: "fst (run_state (window_to p args f head) tr1) = Ok t"
      "\<And>b. f \<le> b \<Longrightarrow> b \<le> head \<Longrightarrow> b \<le> t \<longleftrightarrow> ts b \<le> until" by blast
  obtain tr2 where "run_state (window_to p args f head) tr1 = (Ok t, tr2)" using t(1) by (metis prod.collapse)
  then have "fst (run_state (tryM (window_from p args floor head)
        (\<lambda>f. tryM (window_to p args f head) (\<lambda>t. ret (Ok (f, t))))) tr) = Ok (f, t)"
    using tr1 by (simp add: run_tryM)
  then show ?thesis using f(4) t(2) by (auto simp: window_of_def)
qed

text \<open>An endpoint with a block every twelve seconds.\<close>

definition ticking :: rpc where
  "ticking =
     \<lparr> r_logs = \<lambda>tr f. Inr [], r_batch = \<lambda>tr f fs. Inl [], r_connect = \<lambda>tr url. Inr (),
       r_version = \<lambda>tr a. Inr 2, r_chain_id = \<lambda>tr. Inr 1, r_head = \<lambda>tr. Inr 20,
       r_block_time = \<lambda>tr b. Inr (Some (b * 12)), r_build_error = \<lambda>f. None,
       r_locked = [1], r_claimed = [2], r_refunded = [3],
       r_decode_locked = \<lambda>l. Inl [], r_decode_claimed = \<lambda>l. Inl [], r_decode_refunded = \<lambda>l. Inl [] \<rparr>"

definition two_minutes :: report_args where
  "two_minutes =
     \<lparr> ra_eth_rpc_url = ''http://n'', ra_eth_htlc_address = ''a'', ra_from_block = Some 1, ra_to_block = None,
       ra_since = Some 60, ra_until = Some 180, ra_chunk_blocks = 10, ra_allow_uncorroborated = False \<rparr>"

lemma window_is_the_times_witness:
  "\<exists>f t. fst (run_state (tryM (window_from ticking two_minutes 1 20)
        (\<lambda>f. tryM (window_to ticking two_minutes f 20) (\<lambda>t. ret (Ok (f, t))))) []) = Ok (f, t) \<and>
      (locks_from (window_of f t 20) \<le> 7 \<and> 7 \<le> locks_to (window_of f t 20)) \<and>
      \<not> (locks_from (window_of f t 20) \<le> 16 \<and> 16 \<le> locks_to (window_of f t 20))"
proof -
  have "tells_time ticking (\<lambda>b. b * 12)" by (simp add: tells_time_def ticking_def)
  moreover have "increasing 1 20 (\<lambda>b. b * 12)"
    unfolding increasing_def
  proof (intro allI impI)
    fix a b :: u64
    assume "1 \<le> a \<and> a \<le> b \<and> b \<le> 20"
    then have "unat a \<le> unat b" "unat b \<le> 20" by (auto simp: word_le_nat_alt)
    then show "a * 12 \<le> b * 12" by (simp add: word_le_nat_alt unat_word_ariths)
  qed
  moreover have "ra_since two_minutes = Some 60" "ra_until two_minutes = Some 180" by (simp_all add: two_minutes_def)
  ultimately obtain f t where
    run: "fst (run_state (tryM (window_from ticking two_minutes 1 20)
        (\<lambda>f. tryM (window_to ticking two_minutes f 20) (\<lambda>t. ret (Ok (f, t))))) []) = Ok (f, t)"
    and all: "\<And>b. 1 \<le> b \<Longrightarrow> b \<le> 20 \<Longrightarrow>
      (locks_from (window_of f t 20) \<le> b \<and> b \<le> locks_to (window_of f t 20)) = (60 \<le> b * 12 \<and> b * 12 \<le> 180)"
    using window_is_the_times [of ticking "\<lambda>b. b * 12" 1 20 two_minutes 60 180 "[]"] by auto
  show ?thesis using run all [of 7] all [of 16] by auto
qed

end
