(* ===== verification/Maker_Status.thy ===== *)
theory Maker_Status
  imports Swap_Maker
begin

text \<open>
  The health of the standing maker: the shared state that its tasks update and the status file
  (\<open>src/cli/bot.rs\<close>), the effect of progress events on it, the heartbeat of the offer publisher
  and the verdict of \<open>maker --status\<close> (\<open>src/cli/maker.rs\<close>). serde_json is a parameter.
\<close>

section \<open>The shared state\<close>

definition status_new :: "u64 \<Rightarrow> status_state" where
  "status_new started_at = \<lparr> st_started_at = started_at, st_last_offer_publish_ms = 0,
     st_publisher_alive = False, st_completed = 0, st_failed = 0, st_transient_errors = 0,
     st_loop_state = ''starting'', st_lez_balance = 0, st_eth_balance_wei = 0 \<rparr>"

fun apply_status :: "status_op \<Rightarrow> status_state \<Rightarrow> status_state" where
  "apply_status (SetLoopState s) st = st\<lparr>st_loop_state := s\<rparr>"
| "apply_status (NoteOfferPublish now_ms) st = st\<lparr>st_last_offer_publish_ms := now_ms\<rparr>"
| "apply_status (SetPublisherAlive alive) st = st\<lparr>st_publisher_alive := alive\<rparr>"
| "apply_status IncrCompleted st = st\<lparr>st_completed := st_completed st + 1\<rparr>"
| "apply_status IncrFailed st = st\<lparr>st_failed := st_failed st + 1\<rparr>"
| "apply_status IncrTransient st = st\<lparr>st_transient_errors := st_transient_errors st + 1\<rparr>"
| "apply_status (SetLezBalance b) st = st\<lparr>st_lez_balance := b\<rparr>"
| "apply_status (SetEthBalance b) st = st\<lparr>st_eth_balance_wei := b\<rparr>"

definition status_snapshot :: "status_state \<Rightarrow> nat \<Rightarrow> nat \<Rightarrow> u64 \<Rightarrow> maker_status" where
  "status_snapshot st n_in_flight n_quarantined now =
     (let last_publish = st_last_offer_publish_ms st in
      \<lparr> ms_started_at = st_started_at st,
        ms_last_offer_publish_ms = (if 0 < last_publish then Some last_publish else None),
        ms_lez_balance = show_nat (unat (st_lez_balance st)),
        ms_eth_balance_wei = show_nat (unat (st_eth_balance_wei st)),
        ms_in_flight = n_in_flight, ms_quarantined = n_quarantined,
        ms_completed = st_completed st, ms_failed = st_failed st,
        ms_transient_errors = st_transient_errors st, ms_loop_state = st_loop_state st,
        ms_publisher_alive = st_publisher_alive st, ms_updated_at = now \<rparr>)"

fun note_status_from_progress :: "swap_progress \<Rightarrow> status_op list" where
  "note_status_from_progress AutoAcceptStarted = [SetLoopState ''starting'']"
| "note_status_from_progress (AutoAcceptIteration i) = [SetLoopState ''waiting_for_taker'']"
| "note_status_from_progress (EthLockDetected s h t x c) = [SetLoopState ''locking_lez'']"
| "note_status_from_progress LezLocking = [SetLoopState ''locking_lez'']"
| "note_status_from_progress (LezLocked x) = [SetLoopState ''waiting_for_claim'']"
| "note_status_from_progress WaitingForPreimage = [SetLoopState ''waiting_for_claim'']"
| "note_status_from_progress (PreimageRevealed p) = [SetLoopState ''claiming_eth'']"
| "note_status_from_progress ClaimingEth = [SetLoopState ''claiming_eth'']"
| "note_status_from_progress (AutoAcceptSwapCompleted i s) = [IncrCompleted, SetLoopState ''waiting_for_taker'']"
| "note_status_from_progress (AutoAcceptSwapFailed i e) = [IncrFailed, SetLoopState ''waiting_for_taker'']"
| "note_status_from_progress (AutoAcceptTransientError i e) = [IncrTransient, SetLoopState ''waiting_for_taker'']"
| "note_status_from_progress (AutoAcceptInsufficientFunds b r) = [SetLoopState ''insufficient_funds_waiting'']"
| "note_status_from_progress AutoAcceptCancelled = [SetLoopState ''cancelled'']"
| "note_status_from_progress (AutoAcceptStopped c f t) = [SetLoopState ''stopped'']"
| "note_status_from_progress _ = []"

section \<open>The status file\<close>

record status_codec =
  status_to_json :: "maker_status \<Rightarrow> string + string"
  status_of_json :: "string \<Rightarrow> string + maker_status"

text \<open>The status file and the temporary file beside it.\<close>

record status_files =
  sf_file :: "string option"
  sf_tmp :: "string option"

fun store_status :: "status_io \<Rightarrow> string \<Rightarrow> status_files \<Rightarrow> bool \<times> status_files" where
  "store_status StatusIoOk j d = (True, d\<lparr>sf_file := Some j, sf_tmp := None\<rparr>)"
| "store_status (StatusTmpErr t) j d = (False, d\<lparr>sf_tmp := t\<rparr>)"
| "store_status StatusRenameErr j d = (False, d\<lparr>sf_tmp := Some j\<rparr>)"

definition write_status_file :: "status_codec \<Rightarrow> status_io \<Rightarrow> maker_status \<Rightarrow> status_files \<Rightarrow> bool \<times> status_files" where
  "write_status_file js io status d =
     (case status_to_json js status of
        Inl e \<Rightarrow> (False, d)
      | Inr j \<Rightarrow> store_status io j d)"

definition read_status_file :: "status_codec \<Rightarrow> status_files \<Rightarrow> (swap_error, maker_status) res" where
  "read_status_file js d =
     (case sf_file d of
        None \<Rightarrow> Err (InvalidConfig ''cannot read status file'')
      | Some raw \<Rightarrow>
          (case status_of_json js raw of
             Inl e \<Rightarrow> Err (InvalidConfig (''corrupt status file: '' @ e))
           | Inr s \<Rightarrow> Ok s))"

section \<open>The heartbeat\<close>

definition parse_boolish :: "string \<Rightarrow> string + bool" where
  "parse_boolish s =
     (let t = to_ascii_lowercase (trim s) in
      if t \<in> set [''1'', ''true'', ''yes'', ''y'', ''on''] then Inr True
      else if t \<in> set [''0'', ''false'', ''no'', ''n'', ''off''] then Inr False
      else Inl (''expected a boolean (1/0, true/false, yes/no, on/off), got '' @ t))"

record heartbeat =
  hb_secs :: u64
  hb_source :: string
  hb_warnings :: "string list"

definition default_heartbeat_secs :: u64 where "default_heartbeat_secs = 30"

fun resolve_heartbeat :: "u64 option \<Rightarrow> u64 option \<Rightarrow> heartbeat" where
  "resolve_heartbeat (Some secs) (Some ignored) =
     \<lparr> hb_secs = secs, hb_source = ''OFFER_HEARTBEAT_SECS'',
       hb_warnings = [''FALLBACK_HEARTBEAT_SECS is DEPRECATED and was IGNORED''] \<rparr>"
| "resolve_heartbeat (Some secs) None =
     \<lparr> hb_secs = secs, hb_source = ''OFFER_HEARTBEAT_SECS'', hb_warnings = [] \<rparr>"
| "resolve_heartbeat None (Some secs) =
     \<lparr> hb_secs = secs, hb_source = ''FALLBACK_HEARTBEAT_SECS (deprecated)'',
       hb_warnings = [''FALLBACK_HEARTBEAT_SECS is DEPRECATED - rename it to OFFER_HEARTBEAT_SECS''] \<rparr>"
| "resolve_heartbeat None None =
     \<lparr> hb_secs = default_heartbeat_secs, hb_source = ''default'', hb_warnings = [] \<rparr>"

section \<open>The verdict\<close>

definition status_write_interval_secs :: u64 where "status_write_interval_secs = 15"

text \<open>The check of the offer publisher: its last confirmed publish, or the time since the start.\<close>

definition publish_verdict :: "u64 \<Rightarrow> u64 \<Rightarrow> maker_status \<Rightarrow> (swap_error, unit) res" where
  "publish_verdict now_ms heartbeat_secs status =
     (let max_publish_age_ms = 3 * heartbeat_secs * 1000 in
      case ms_last_offer_publish_ms status of
        Some last_ms \<Rightarrow>
          if max_publish_age_ms < sat_sub now_ms last_ms
          then Err (InvalidConfig ''unhealthy: last confirmed offer publish is too old'') else Ok ()
      | None \<Rightarrow>
          if max_publish_age_ms < sat_sub now_ms (ms_started_at status * 1000)
          then Err (InvalidConfig ''unhealthy: no confirmed offer publish after startup'') else Ok ())"

definition status_verdict :: "u64 \<Rightarrow> u64 \<Rightarrow> maker_status \<Rightarrow> (swap_error, unit) res" where
  "status_verdict now_unix_secs heartbeat_secs status =
     (let now_ms = now_unix_secs * 1000; now_secs = now_ms div 1000 in
      if 3 * status_write_interval_secs < sat_sub now_secs (ms_updated_at status)
      then Err (InvalidConfig ''unhealthy: status file is stale'')
      else if 0 < heartbeat_secs \<and> \<not> ms_publisher_alive status
      then Err (InvalidConfig ''unhealthy: offer-publisher sidecar is not alive'')
      else
        res_bind (if 0 < heartbeat_secs then publish_verdict now_ms heartbeat_secs status else Ok ()) (\<lambda>_.
          if ms_loop_state status \<in> set [''stopped'', ''cancelled'']
          then Err (InvalidConfig ''unhealthy: the standing loop has exited'') else Ok ()))"

definition cmd_maker_status ::
  "status_codec \<Rightarrow> status_files \<Rightarrow> u64 \<Rightarrow> u64 option \<Rightarrow> u64 option \<Rightarrow> (swap_error, unit) res" where
  "cmd_maker_status js d now_unix_secs heartbeat_arg fallback_arg =
     (case read_status_file js d of
        Ok status \<Rightarrow> status_verdict now_unix_secs (hb_secs (resolve_heartbeat heartbeat_arg fallback_arg)) status
      | Err e \<Rightarrow> Err (InvalidConfig ''unhealthy: no status file yet, or the writer is dead'')
      | Panic m \<Rightarrow> Panic m
      | Pending \<Rightarrow> Pending)"

section \<open>What the drain of the progress events does to the state\<close>

fun drain_event :: "interaction \<Rightarrow> status_state \<Rightarrow> status_state" where
  "drain_event (XProgress p) st = fold apply_status (note_status_from_progress p) st"
| "drain_event _ st = st"

definition drain :: "trace \<Rightarrow> status_state \<Rightarrow> status_state" where
  "drain e st = fold drain_event e st"

fun tells_completed :: "interaction \<Rightarrow> bool" where
  "tells_completed (XProgress (AutoAcceptSwapCompleted i s)) = True" | "tells_completed _ = False"

fun tells_failed :: "interaction \<Rightarrow> bool" where
  "tells_failed (XProgress (AutoAcceptSwapFailed i s)) = True" | "tells_failed _ = False"

fun tells_transient :: "interaction \<Rightarrow> bool" where
  "tells_transient (XProgress (AutoAcceptTransientError i s)) = True" | "tells_transient _ = False"

definition times_told :: "(interaction \<Rightarrow> bool) \<Rightarrow> trace \<Rightarrow> u32" where
  "times_told P e = of_nat (length (filter P e))"

lemma times_told_simps [simp]:
  "times_told P [] = 0" "times_told P (x # e) = (if P x then 1 else 0) + times_told P e" "times_told P (e @ e') = times_told P e + times_told P e'"
  by (simp_all add: times_told_def)

text \<open>Neither counted, nor the busy answer of the journal, nor about a task.\<close>

definition neutral :: "interaction \<Rightarrow> bool" where
  "neutral x \<longleftrightarrow> \<not> tells_completed x \<and> \<not> tells_failed x \<and> \<not> tells_transient x \<and> x \<noteq> XBusy True \<and>
     \<not> is_task x"

lemma drain_event_counts:
  "st_completed (drain_event x st) = st_completed st + (if tells_completed x then 1 else 0)"
  "st_failed (drain_event x st) = st_failed st + (if tells_failed x then 1 else 0)"
  "st_transient_errors (drain_event x st) = st_transient_errors st + (if tells_transient x then 1 else 0)"
proof -
  have "st_completed (fold apply_status (note_status_from_progress q) st) =
      st_completed st + (if tells_completed (XProgress q) then 1 else 0) \<and>
    st_failed (fold apply_status (note_status_from_progress q) st) =
      st_failed st + (if tells_failed (XProgress q) then 1 else 0) \<and>
    st_transient_errors (fold apply_status (note_status_from_progress q) st) =
      st_transient_errors st + (if tells_transient (XProgress q) then 1 else 0)" for q
    by (cases q) simp_all
  then show
    "st_completed (drain_event x st) = st_completed st + (if tells_completed x then 1 else 0)"
    "st_failed (drain_event x st) = st_failed st + (if tells_failed x then 1 else 0)"
    "st_transient_errors (drain_event x st) = st_transient_errors st + (if tells_transient x then 1 else 0)"
    by (cases x; simp)+
qed

lemma drain_counts:
  "st_completed (drain e st) = st_completed st + times_told tells_completed e"
  "st_failed (drain e st) = st_failed st + times_told tells_failed e"
  "st_transient_errors (drain e st) = st_transient_errors st + times_told tells_transient e"
  by (induction e arbitrary: st) (simp_all add: drain_def drain_event_counts)

lemma neutral_told:
  assumes "list_all neutral e"
  shows "times_told tells_completed e = 0" "times_told tells_failed e = 0" "times_told tells_transient e = 0" "XBusy True \<notin> set e"
    "\<not> list_ex is_task e"
  using assms by (induction e) (auto simp: neutral_def)

section \<open>One swap tells nothing that is counted\<close>

lemma silent_neutral: "silent x \<Longrightarrow> neutral x"
  by (cases x) (auto simp: neutral_def)

lemma neutral_simps [simp]:
  "neutral (XNow t)" "neutral (XContains h b)" "neutral (XEthGet sid r)" "neutral (XEthSelect secs es)"
  "neutral (XLezSelect secs ls)" "neutral (XRecord h d u)" "neutral (XOpsAccepted h d)" "neutral (XFunded h)"
  "neutral (XClear h)" "neutral (XOpsTerminal h os)" "neutral (XEthClaim sid p c)" "neutral (XSleep ms)"
  "neutral (XSend pid accs pl tx)" "neutral (XConnect cn)" "neutral (XVersion a v)" "neutral (XChainId ci)"
  "neutral (XCancelled b)" "neutral (XBalance acc bal)" "neutral (XBusy False)"
  by (simp_all add: neutral_def)

lemma neutral_progress:
  "neutral (XProgress p) \<longleftrightarrow> (case p of AutoAcceptSwapCompleted i s \<Rightarrow> False | AutoAcceptSwapFailed i s \<Rightarrow> False
     | AutoAcceptTransientError i s \<Rightarrow> False | _ \<Rightarrow> True)"
  by (cases p) (simp_all add: neutral_def)

lemma neutral_report: "neutral (XProgress p) \<Longrightarrow> emits neutral (report b p)"
  by (simp add: emits_report)

lemma neutral_claim: "emits neutral (claim_eth_after_reveal en sid p)"
proof -
  have "emits neutral (claim_attempts en sid p n delay le)" for n delay le
  proof (induction n arbitrary: delay le)
    case (Suc n)
    have "emits neutral (eth_claim en sid p)" unfolding eth_claim_def by (intro emits_intros) simp_all
    moreover have "emits neutral (get_htlc en sid)" by (intro emits_intros) simp
    moreover have "emits neutral (sleep delay)" for delay by (intro emits_intros) simp
    ultimately show ?case unfolding claim_attempts.simps
      by (intro emits_bind) (auto intro!: emits_bind emits_ret Suc.IH split: res.split)
  qed (simp add: emits_ret)
  then show ?thesis by (simp add: claim_eth_after_reveal_def)
qed

lemma neutral_settle: "emits neutral (settle_eth m ml lx p)"
  unfolding settle_eth_def Let_def
  by (intro emits_intros neutral_claim emits_when_loop) (simp_all add: neutral_progress)

lemma neutral_refund: "emits neutral (refund_or_settle n m ml lx)"
proof -
  have "emits neutral (refund_confirmed n (mr_env m) (mr_lez m) (ml_hashlock ml))"
    by (rule emits_refund_confirmed) (simp_all add: silent_neutral)
  then show ?thesis unfolding refund_or_settle_def Let_def
    by (auto intro!: emits_intros emits_when_loop neutral_settle simp: neutral_progress split: refund_outcome.split)
qed

lemma neutral_await: "emits neutral (await_claim fuel n m ml lx)"
proof (induction n)
  case (Suc n)
  show ?case unfolding await_claim.simps Let_def
    by (auto intro!: emits_intros emits_when_loop neutral_settle neutral_refund Suc.IH
        simp: neutral_progress split: lez_select.split lez_watch_event.split)
qed (simp add: emits_ret)

lemma neutral_lock_lez: "emits neutral (lock_lez fuel m ml)"
  unfolding lock_lez_def
  by (intro emits_intros emits_when_loop emits_lez_lock) (auto simp: neutral_progress silent_neutral)

lemma neutral_journal_match: "emits neutral (journal_match m ml)"
  unfolding journal_match_def Let_def by (intro emits_intros) simp_all

lemma neutral_on_eth_event: "emits neutral (on_eth_event m hashlock rej ev)"
proof -
  have "emits neutral (take_candidate m r sid hl t x ex)" for r sid hl t x ex
    unfolding take_candidate_def by (intro emits_intros) (simp_all add: neutral_progress)
  moreover have "emits neutral (report_rejection m sid t a b reason)" for sid t a b reason
    unfolding report_rejection_def by (cases reason) (simp_all add: neutral_report neutral_progress)
  moreover have "emits neutral (lez_expiry_at_match m)" "emits neutral (journal_contains m hl)" for hl
    unfolding lez_expiry_at_match_def journal_contains_def by (intro emits_intros; simp)+
  ultimately show ?thesis unfolding on_eth_event_def Let_def
    by (cases ev) (auto intro!: emits_intros split: candidate_disposition.splits)
qed

lemma neutral_match_loop: "emits neutral (match_loop n m hashlock cc rej)"
proof (induction n arbitrary: rej)
  case (Suc n)
  show ?case unfolding match_loop.simps
    by (intro emits_intros emits_select_eth emits_case_eth_select neutral_on_eth_event Suc.IH)
      (simp_all add: neutral_progress)
qed (simp add: emits_ret)

lemma neutral_run_maker: "emits neutral (run_maker fuel m hashlock cc)"
proof -
  have "emits neutral (eth_client_new se en cfg)" for se en cfg by (rule emits_eth_client_new) simp_all
  moreover have "emits neutral (serve fuel m ml)" for ml
    unfolding serve_def by (intro emits_intros neutral_lock_lez neutral_await) (simp add: neutral_progress)
  ultimately show ?thesis unfolding run_maker_def
    by (intro emits_intros neutral_match_loop neutral_journal_match) (simp_all add: neutral_progress)
qed

section \<open>The loop counts what it tells\<close>

text \<open>
  The counters grow by what was told; the failures by one less once the journal answered busy,
  because the report that stops the loop is not counted. Tasks are no business of the loop.
\<close>

definition counted :: "loop_counters \<Rightarrow> loop_counters \<Rightarrow> trace \<Rightarrow> bool" where
  "counted k k' e \<longleftrightarrow>
     total_completed k' = total_completed k + times_told tells_completed e \<and>
     total_transient_errors k' = total_transient_errors k + times_told tells_transient e \<and>
     total_failed k' + (if XBusy True \<in> set e then 1 else 0) = total_failed k + times_told tells_failed e \<and>
     \<not> list_ex is_task e"

definition stage_ok :: "loop_counters \<Rightarrow> (swap_error, bool \<times> loop_counters) res \<Rightarrow> trace \<Rightarrow> bool" where
  "stage_ok k r e \<longleftrightarrow>
     (case r of Ok (stop, k') \<Rightarrow> counted k k' e \<and> (stop \<or> XBusy True \<notin> set e) | _ \<Rightarrow> True)"

definition keeps_count :: "loop_counters \<Rightarrow> (bool \<times> loop_counters) rio \<Rightarrow> bool" where
  "keeps_count k p \<longleftrightarrow> (\<forall>tr. \<exists>e. snd (run_state p tr) = tr @ e \<and> stage_ok k (fst (run_state p tr)) e)"

lemma counted_append: "counted k k1 e1 \<Longrightarrow> counted k1 k2 e2 \<Longrightarrow> XBusy True \<notin> set e1 \<Longrightarrow> counted k k2 (e1 @ e2)"
  by (auto simp: counted_def algebra_simps)

lemma counted_neutral: "list_all neutral e \<Longrightarrow> counted k k e"
  using neutral_told [of e] by (simp add: counted_def)

lemma stage_ok_append:
  "counted k k1 e1 \<Longrightarrow> XBusy True \<notin> set e1 \<Longrightarrow> stage_ok k1 r e2 \<Longrightarrow> stage_ok k r (e1 @ e2)"
  using counted_append by (auto simp: stage_ok_def split: res.splits)

lemma keeps_bind:
  assumes "\<And>tr. \<exists>e. snd (run_state q tr) = tr @ e \<and> XBusy True \<notin> set e \<and>
      counted k (g (fst (run_state q tr))) e"
    and "\<And>a. keeps_count (g a) (f a)"
  shows "keeps_count k (q \<bind> f)"
proof -
  have "\<exists>e. snd (run_state (q \<bind> f) tr) = tr @ e \<and> stage_ok k (fst (run_state (q \<bind> f) tr)) e" for tr
  proof -
    obtain a tr1 where q: "run_state q tr = (a, tr1)" by fastforce
    from assms(1) [of tr] q obtain e1 where e1: "tr1 = tr @ e1" "XBusy True \<notin> set e1" "counted k (g a) e1" by auto
    obtain e2 where "snd (run_state (f a) tr1) = tr1 @ e2" "stage_ok (g a) (fst (run_state (f a) tr1)) e2"
      using assms(2) [of a] unfolding keeps_count_def by blast
    then show ?thesis using q e1 stage_ok_append [OF e1(3,2)] by (intro exI [of _ "e1 @ e2"]) simp
  qed
  then show ?thesis by (simp add: keeps_count_def)
qed

lemma keeps_quiet:
  assumes "emits neutral q" "\<And>a. keeps_count k (f a)"
  shows "keeps_count k (q \<bind> f)"
proof (rule keeps_bind [where g = "\<lambda>_. k"])
  fix tr
  obtain a tr1 where q: "run_state q tr = (a, tr1)" by fastforce
  from emits_prefix [OF assms(1) q] show "\<exists>e. snd (run_state q tr) = tr @ e \<and> XBusy True \<notin> set e \<and> counted k k e"
    using q neutral_told(4) counted_neutral by (metis snd_conv)
qed (rule assms(2))

lemma keeps_ret: "keeps_count k (ret (Ok (b, k)))"
  by (simp add: keeps_count_def stage_ok_def counted_def)

lemma keeps_fail: "keeps_count k (ret (Err e))" "keeps_count k (ret (Panic m))" "keeps_count k (ret Pending)"
  by (simp_all add: keeps_count_def stage_ok_def)

lemma keeps_failed:
  assumes "ml_progress l" "keeps_count (k\<lparr>total_failed := total_failed k + 1\<rparr>) (f (k\<lparr>total_failed := total_failed k + 1\<rparr>))"
  shows "keeps_count k (iteration_failed l k msg \<bind> f)"
proof -
  let ?k = "k\<lparr>total_failed := total_failed k + 1\<rparr>" let ?x = "XProgress (AutoAcceptSwapFailed (loop_iteration k) msg)"
  have "counted k ?k [?x]" "XBusy True \<notin> set [?x]" by (simp_all add: counted_def)
  from stage_ok_append [OF this] have "stage_ok ?k r e \<Longrightarrow> stage_ok k r (?x # e)" for r e by simp
  moreover have "run_state (iteration_failed l k msg \<bind> f) tr = run_state (f ?k) (tr @ [?x])" for tr
    using assms(1) by (simp add: run_iteration_failed run_simps)
  ultimately show ?thesis using assms(2) unfolding keeps_count_def by (metis append.assoc append_Cons append_Nil)
qed

lemma keeps_completed:
  assumes "keeps_count (k\<lparr>total_completed := total_completed k + 1\<rparr>) p"
  shows "keeps_count k (report True (AutoAcceptSwapCompleted i s) \<bind> (\<lambda>_. p))"
proof -
  let ?k = "k\<lparr>total_completed := total_completed k + 1\<rparr>" let ?x = "XProgress (AutoAcceptSwapCompleted i s)"
  have "counted k ?k [?x]" "XBusy True \<notin> set [?x]" by (simp_all add: counted_def)
  from stage_ok_append [OF this] have "stage_ok ?k r e \<Longrightarrow> stage_ok k r (?x # e)" for r e by simp
  then show ?thesis using assms unfolding keeps_count_def
    by (simp add: run_simps) (metis append.assoc append_Cons append_Nil)
qed

lemma counted_iteration [simp]: "counted (k\<lparr>loop_iteration := i\<rparr>) = counted k"
  by (intro ext) (simp add: counted_def)

lemma keeps_iteration: "keeps_count (k\<lparr>loop_iteration := i\<rparr>) p = keeps_count k p"
proof -
  have "stage_ok (k\<lparr>loop_iteration := i\<rparr>) r e = stage_ok k r e" for r e
    by (auto simp: stage_ok_def split: res.splits)
  then show ?thesis by (simp add: keeps_count_def)
qed

text \<open>A retried balance read counts at most one transient failure, and tells it.\<close>

definition tallied :: "u32 \<Rightarrow> u32 \<Rightarrow> trace \<Rightarrow> bool" where
  "tallied c c' e \<longleftrightarrow> \<not> list_ex is_task e \<and> XBusy True \<notin> set e \<and> times_told tells_completed e = 0 \<and> times_told tells_failed e = 0 \<and>
     c' = c + times_told tells_transient e"

lemma tallied_neutral: "list_all neutral e \<Longrightarrow> tallied c c e"
  using neutral_told [of e] by (simp add: tallied_def)

lemma tallied_append: "tallied c c1 e1 \<Longrightarrow> tallied c1 c2 e2 \<Longrightarrow> tallied c c2 (e1 @ e2)"
  by (auto simp: tallied_def)

definition tallies :: "u32 \<Rightarrow> ('a \<times> u32) io \<Rightarrow> bool" where
  "tallies c p \<longleftrightarrow> (\<forall>tr. \<exists>e. snd (run_state p tr) = tr @ e \<and> tallied c (snd (fst (run_state p tr))) e)"

lemma tallies_ret: "tallies c (ret (a, c))"
  using tallied_neutral [of "[]" c] by (simp add: tallies_def)

lemma tallies_quiet:
  assumes "emits neutral q" "\<And>a. tallies c (f a)"
  shows "tallies c (q \<bind> f)"
proof -
  have "\<exists>e. snd (run_state (q \<bind> f) tr) = tr @ e \<and> tallied c (snd (fst (run_state (q \<bind> f) tr))) e" for tr
  proof -
    obtain a tr1 where q: "run_state q tr = (a, tr1)" by fastforce
    from emits_prefix [OF assms(1) q] obtain e1 where e1: "tr1 = tr @ e1" "list_all neutral e1" by blast
    obtain e2 where "snd (run_state (f a) tr1) = tr1 @ e2" "tallied c (snd (fst (run_state (f a) tr1))) e2"
      using assms(2) [of a] unfolding tallies_def by blast
    then show ?thesis using q e1(1) tallied_append [OF tallied_neutral [OF e1(2)]] by (intro exI [of _ "e1 @ e2"]) simp
  qed
  then show ?thesis by (simp add: tallies_def)
qed

lemma tallies_told:
  assumes "\<And>x. tells_transient (XProgress (P x))"
  shows "tallies c (counting True P x c \<bind> (\<lambda>c'. ret (a, c')))"
proof -
  have "\<not> tells_completed (XProgress (P x))" "\<not> tells_failed (XProgress (P x))" using assms [of x] by (cases "P x"; simp)+
  with assms [of x] have "tallied c (c + 1) [XProgress (P x)]" by (simp add: tallied_def)
  then show ?thesis by (simp add: tallies_def run_counting)
qed

lemma tallies_balance:
  assumes "\<And>x. tells_transient (XProgress (P x))" "emits neutral fetch"
  shows "tallies c (balance_attempts fetch (counting True P) n d le c)"
proof (induction n arbitrary: d le)
  case 0
  show ?case by (auto intro: tallies_ret tallies_told [OF assms(1)] split: option.split)
next
  case (Suc n)
  have "emits neutral (sleep d)" for d by (intro emits_intros) simp
  then show ?case unfolding balance_attempts.simps
    by (intro tallies_quiet [OF assms(2)])
      (auto intro: tallies_ret tallies_told [OF assms(1)] tallies_quiet Suc.IH split: res.split option.split)
qed

lemma keeps_tally:
  assumes "tallies (total_transient_errors k) q"
    and "\<And>a t. keeps_count (k\<lparr>total_transient_errors := t\<rparr>) (f (a, t))"
  shows "keeps_count k (q \<bind> f)"
proof (rule keeps_bind [where g = "\<lambda>a. k\<lparr>total_transient_errors := snd a\<rparr>"])
  fix tr
  show "\<exists>e. snd (run_state q tr) = tr @ e \<and> XBusy True \<notin> set e \<and>
      counted k (k\<lparr>total_transient_errors := snd (fst (run_state q tr))\<rparr>) e"
    using assms(1) unfolding tallies_def tallied_def by (auto simp: counted_def)
next
  fix a
  show "keeps_count (k\<lparr>total_transient_errors := snd a\<rparr>) (f a)" using assms(2) [of "snd a" "fst a"] by simp
qed

lemma keeps_after:
  assumes "ml_progress l"
  shows "keeps_count k (ext XBusy (a_busy en) \<bind> (\<lambda>busy.
      if loop_must_stop_after_iteration busy then
        report (ml_progress l) (AutoAcceptSwapFailed i msg) \<bind> (\<lambda>_. ret (Ok (True, k)))
      else ret (Ok (False, k))))" (is "keeps_count k ?p")
proof -
  have "\<exists>e. snd (run_state ?p tr) = tr @ e \<and> stage_ok k (fst (run_state ?p tr)) e" for tr
    using assms by (cases "a_busy en tr") (auto simp: run_simps loop_must_stop_after_iteration_def stage_ok_def counted_def)
  then show ?thesis unfolding keeps_count_def by blast
qed

lemma keeps_case_res:
  "(\<And>a. keeps_count k (f a)) \<Longrightarrow> (\<And>e. keeps_count k (g e)) \<Longrightarrow>
   keeps_count k (case r of Ok a \<Rightarrow> f a | Err e \<Rightarrow> g e | Panic msg \<Rightarrow> ret (Panic msg) | Pending \<Rightarrow> ret Pending)"
  by (cases r) (auto intro: keeps_fail)

lemma keeps_cancelled: "keeps_count k (report True AutoAcceptCancelled \<bind> (\<lambda>_. ret (Ok (True, k))))"
  by (intro keeps_quiet keeps_ret neutral_report) (simp add: neutral_progress)

lemma keeps_accept_swap:
  assumes "ml_progress l"
  shows "keeps_count k (accept_swap fuel l cfg ec lc k)"
  unfolding accept_swap_def Let_def
  by (intro keeps_quiet [OF neutral_run_maker] keeps_case_res)
    (auto split: swap_outcome.split simp: assms
      intro!: keeps_cancelled keeps_completed keeps_failed [OF assms] keeps_after [OF assms])

lemma keeps_later: "keeps_count k (sleep d \<bind> (\<lambda>_. ret (Ok (b, k))))"
  by (intro keeps_quiet keeps_ret emits_intros) simp

lemma keeps_maker_iteration:
  assumes "ml_progress l"
  shows "keeps_count k (maker_iteration fuel l k)"
proof -
  have ec: "emits neutral (eth_client_new se en cfg)" for se en cfg
    by (rule emits_eth_client_new) simp_all
  have now: "emits neutral (now_unix en)" for en by (intro emits_intros) simp
  have balance: "tallies (total_transient_errors k) (get_balance_with_retry en acc
      (counting (ml_progress l) (\<lambda>e. AutoAcceptTransientError i (m e))) (total_transient_errors k))" for k en acc i m
  proof -
    have "emits neutral (get_balance en acc)" unfolding get_balance_def by (intro emits_intros) simp
    then show ?thesis using assms unfolding get_balance_with_retry_def balance_with_retry_core_def
      by (simp add: tallies_balance)
  qed
  have funds: "emits neutral (report (ml_progress l) (AutoAcceptInsufficientFunds b r))"
    "emits neutral (report (ml_progress l) (AutoAcceptIteration i))" for b r i
    by (rule neutral_report, simp add: neutral_progress)+
  let ?k = "k\<lparr>loop_iteration := loop_iteration k + 1\<rparr>"
  have "keeps_count ?k (maker_iteration fuel l k)"
    unfolding maker_iteration_def Let_def
    by (intro keeps_quiet [OF now] keeps_case_res keeps_tally [OF balance])
      (auto intro!: keeps_case_res keeps_later keeps_failed [OF assms] keeps_quiet [OF ec] keeps_quiet [OF funds(1)]
        keeps_quiet [OF funds(2)] keeps_accept_swap [OF assms])
  then show ?thesis by (simp add: keeps_iteration)
qed

lemma maker_iterations_counted:
  assumes "ml_progress l"
  shows "run_state (maker_iterations fuel n l k) tr = (Ok k', tr') \<Longrightarrow> \<exists>e. tr' = tr @ e \<and> counted k k' e"
proof (induction n arbitrary: k tr)
  case 0
  then show ?case by simp
next
  case (Suc n)
  let ?x = "XCancelled (a_cancelled (ml_env l) tr)"
  have x: "counted k k [?x]" "XBusy True \<notin> set [?x]" by (simp_all add: counted_def)
  obtain c tr1 where c: "run_state (maker_iteration fuel l k) (tr @ [?x]) = (c, tr1)" by fastforce
  obtain e1 where e1: "tr1 = (tr @ [?x]) @ e1" "stage_ok k c e1"
    using keeps_maker_iteration [OF assms, of k fuel] c unfolding keeps_count_def by (metis fst_conv snd_conv)
  show ?case
  proof (cases "a_cancelled (ml_env l) tr")
    case True
    then show ?thesis using Suc.prems assms by (auto simp: run_simps counted_def)
  next
    case False
    then obtain stop k1 where k1: "c = Ok (stop, k1)"
      using Suc.prems c by (cases c) (auto simp: run_ext run_tryM)
    with e1 have k1e: "counted k k1 e1" "stop \<or> XBusy True \<notin> set e1" by (simp_all add: stage_ok_def)
    note pre = counted_append [OF x(1) k1e(1) x(2)]
    show ?thesis
    proof (cases stop)
      case True
      then show ?thesis using Suc.prems False c k1 e1(1) pre
        by (intro exI [of _ "?x # e1"]) (auto simp: run_ext run_tryM)
    next
      case go: False
      then have "run_state (maker_iterations fuel n l k1) tr1 = (Ok k', tr')"
        using Suc.prems False c k1 by (simp add: run_ext run_tryM)
      from Suc.IH [OF this] obtain e where e: "tr' = tr1 @ e" "counted k1 k' e" by blast
      moreover have "XBusy True \<notin> set ([?x] @ e1)" using k1e(2) go by simp
      ultimately show ?thesis using e1(1) counted_append [OF pre e(2)]
        by (intro exI [of _ "([?x] @ e1) @ e"]) simp
    qed
  qed
qed

lemma drain_append: "drain (e @ e') st = drain e' (drain e st)"
  by (simp add: drain_def)

text \<open>
  C37. The status file mirrors the loop: draining the progress events that one run of the
  auto-accept loop tells, the shared state shows the loop stopped, and the completed, the
  transient and the failed counts are those the loop returns. Only the report that stops the loop
  after the journal answered busy is counted by the drain as a failure and not by the loop.
\<close>

theorem status_mirrors_loop:
  "case run_state (run_maker_loop n fuel (l\<lparr>ml_progress := True\<rparr>)) tr of
     (Ok k, tr') \<Rightarrow> \<exists>e. tr' = tr @ e \<and>
       (let st = drain e (status_new t) in
        st_completed st = total_completed k \<and> st_transient_errors st = total_transient_errors k \<and>
        st_failed st = total_failed k + (if XBusy True \<in> set e then 1 else 0) \<and>
        st_loop_state st = ''stopped'')
   | _ \<Rightarrow> True"
proof -
  let ?l = "l\<lparr>ml_progress := True\<rparr>" let ?s = "XProgress AutoAcceptStarted"
  let ?k0 = "\<lparr> total_completed = 0, total_failed = 0, total_transient_errors = 0, loop_iteration = 0 \<rparr>"
  obtain r tr1 where r: "run_state (maker_iterations fuel n ?l ?k0) (tr @ [?s]) = (r, tr1)" by fastforce
  show ?thesis
  proof (cases r)
    case (Ok k)
    let ?q = "XProgress (AutoAcceptStopped (total_completed k) (total_failed k) (total_transient_errors k))"
    from maker_iterations_counted [OF _ r [unfolded Ok]] obtain e
      where e: "tr1 = (tr @ [?s]) @ e" "counted ?k0 k e" by auto
    have "run_state (run_maker_loop n fuel ?l) tr = (Ok k, tr @ (?s # e @ [?q]))"
      using r Ok e(1) by (simp add: run_maker_loop_def run_tryM run_simps)
    moreover have "st_completed (drain (?s # e @ [?q]) (status_new t)) = total_completed k"
      "st_transient_errors (drain (?s # e @ [?q]) (status_new t)) = total_transient_errors k"
      "st_failed (drain (?s # e @ [?q]) (status_new t)) =
         total_failed k + (if XBusy True \<in> set (?s # e @ [?q]) then 1 else 0)"
      using e(2) by (simp_all add: drain_counts counted_def status_new_def)
    moreover have "st_loop_state (drain (?s # e @ [?q]) (status_new t)) = ''stopped''"
      using drain_append [of "?s # e" "[?q]"] by (simp add: drain_def)
    ultimately show ?thesis by (auto simp: Let_def)
  qed (use r in \<open>simp_all add: run_maker_loop_def run_tryM run_simps\<close>)
qed

section \<open>The status file over many writes\<close>

text \<open>The writes of a service's life, each with what the file system answers.\<close>

definition write_statuses :: "status_codec \<Rightarrow> (status_io \<times> maker_status) list \<Rightarrow> status_files \<Rightarrow> status_files" where
  "write_statuses js ws d = fold (\<lambda>(io, st) d. snd (write_status_file js io st d)) ws d"

definition write_lands :: "status_codec \<Rightarrow> status_io \<times> maker_status \<Rightarrow> bool" where
  "write_lands js w \<longleftrightarrow> fst w = StatusIoOk \<and> \<not> isl (status_to_json js (snd w))"

lemma write_statuses_simps [simp]:
  "write_statuses js [] d = d"
  "write_statuses js (ws @ [(io, st)]) d = snd (write_status_file js io st (write_statuses js ws d))"
  by (simp_all add: write_statuses_def)

lemma write_status_file_reports: "fst (write_status_file js io st d) = write_lands js (io, st)"
  by (cases io) (auto simp: write_status_file_def write_lands_def split: sum.split)

lemma sf_file_write:
  "sf_file (snd (write_status_file js io st d)) =
     (if write_lands js (io, st) then Some (projr (status_to_json js st)) else sf_file d)"
  by (cases io) (auto simp: write_status_file_def write_lands_def split: sum.split)

text \<open>
  The status file is never torn: whatever fails in a sequence of writes (the encoding, the
  temporary file, half of it written, or the rename), a reader gets the last status whose write
  reported success, and what was there before when none did, as long as the encoding of the
  statuses reads back.
\<close>

lemma status_file_atomic:
  assumes "\<And>io st j. (io, st) \<in> set ws \<Longrightarrow> status_to_json js st = Inr j \<Longrightarrow> status_of_json js j = Inr st"
  shows "read_status_file js (write_statuses js ws d) =
    (let ok = filter (write_lands js) ws in if ok = [] then read_status_file js d else Ok (snd (last ok)))"
  using assms
proof (induction ws rule: rev_induct)
  case (snoc w ws)
  obtain io st where w: "w = (io, st)" by fastforce
  have IH: "read_status_file js (write_statuses js ws d) =
    (let ok = filter (write_lands js) ws in if ok = [] then read_status_file js d else Ok (snd (last ok)))"
    by (rule snoc.IH) (use snoc.prems in auto)
  show ?case
  proof (cases "write_lands js w")
    case True
    then obtain j where j: "status_to_json js st = Inr j"
      by (cases "status_to_json js st") (auto simp: write_lands_def w)
    with snoc.prems [of io st j] have "status_of_json js j = Inr st" by (simp add: w)
    then have "read_status_file js (write_statuses js (ws @ [w]) d) = Ok st"
      using True j by (simp add: w read_status_file_def sf_file_write)
    then show ?thesis using True by (simp add: w Let_def)
  next
    case False
    then have "sf_file (write_statuses js (ws @ [w]) d) = sf_file (write_statuses js ws d)"
      by (simp add: w sf_file_write)
    then show ?thesis using IH False by (simp add: read_status_file_def)
  qed
qed simp

definition toy_status :: "u64 \<Rightarrow> maker_status" where
  "toy_status t = status_snapshot ((status_new 100)\<lparr>st_publisher_alive := True, st_last_offer_publish_ms := t * 1000\<rparr>) 0 0 t"

definition toy_status_codec :: status_codec where
  "toy_status_codec = \<lparr>
     status_to_json = (\<lambda>s. if s = toy_status 200 then Inr ''a'' else if s = toy_status 215 then Inr ''b'' else Inl ''no''),
     status_of_json = (\<lambda>j. if j = ''a'' then Inr (toy_status 200) else if j = ''b'' then Inr (toy_status 215) else Inl ''no'') \<rparr>"

lemma toy_status_neq [simp]: "toy_status 200 \<noteq> toy_status 215"
  by (simp add: toy_status_def status_snapshot_def Let_def)

lemma status_file_atomic_witness:
  "read_status_file toy_status_codec (write_statuses toy_status_codec
     [(StatusIoOk, toy_status 200), (StatusTmpErr (Some ''{'') , toy_status 215), (StatusRenameErr, toy_status 215)]
     \<lparr>sf_file = None, sf_tmp = None\<rparr>) = Ok (toy_status 200)"
proof -
  have reads: "status_to_json toy_status_codec st = Inr j \<Longrightarrow> status_of_json toy_status_codec j = Inr st" for st j
    by (auto simp: toy_status_codec_def split: if_splits)
  have "write_lands toy_status_codec (StatusIoOk, toy_status 200)" by (simp add: write_lands_def toy_status_codec_def)
  then show ?thesis using status_file_atomic [OF reads, where ws = "[(StatusIoOk, toy_status 200), (StatusTmpErr (Some ''{''), toy_status 215),
      (StatusRenameErr, toy_status 215)]" and d = "\<lparr>sf_file = None, sf_tmp = None\<rparr>"]
    by (simp add: write_lands_def)
qed

section \<open>The verdict over unbounded numbers\<close>

lemma unat_times: "unat a * n < 2 ^ 64 \<Longrightarrow> n < 2 ^ 64 \<Longrightarrow> unat (a * of_nat n :: u64) = unat a * n"
  by (simp add: unat_word_ariths unat_of_nat)

definition publish_fresh :: "nat \<Rightarrow> nat \<Rightarrow> maker_status \<Rightarrow> bool" where
  "publish_fresh now_secs hb st \<longleftrightarrow> 1000 * now_secs \<le> 3000 * hb +
     (case ms_last_offer_publish_ms st of Some ms \<Rightarrow> unat ms | None \<Rightarrow> 1000 * unat (ms_started_at st))"

text \<open>
  The verdict of \<open>maker --status\<close> is the intended one: as long as the clock, the start time and
  the heartbeat fit in milliseconds, a status is healthy exactly when it was written at most
  45 seconds ago, the publisher (where one is expected) is alive and its last publish, or the
  start, is at most three heartbeats old, and the loop has not ended.
\<close>

lemma healthy_iff:
  assumes "unat now * 1000 < 2 ^ 64" "unat hb * 3000 < 2 ^ 64" "unat (ms_started_at st) * 1000 < 2 ^ 64"
  shows "status_verdict now hb st = Ok () \<longleftrightarrow>
    unat now \<le> unat (ms_updated_at st) + 45 \<and>
    (hb = 0 \<or> ms_publisher_alive st \<and> publish_fresh (unat now) (unat hb) st) \<and>
    ms_loop_state st \<noteq> ''stopped'' \<and> ms_loop_state st \<noteq> ''cancelled''"
proof -
  have now: "unat (now * 1000) = unat now * 1000" using unat_times [OF assms(1)] by simp
  have hb: "unat (3 * hb * 1000) = unat hb * 3000"
    using unat_times [OF assms(2)] by (simp add: mult.commute mult.left_commute)
  have start: "unat (ms_started_at st * 1000) = unat (ms_started_at st) * 1000" using unat_times [OF assms(3)] by simp
  have secs: "now * 1000 div 1000 = now" by (simp add: word_unat_eq_iff unat_div now)
  have pos: "0 < hb \<longleftrightarrow> hb \<noteq> 0" by (rule word_neq_0_conv [symmetric])
  have age: "3 * status_write_interval_secs < sat_sub now u \<longleftrightarrow> unat u + 45 < unat now" for u
  proof -
    have "unat (3 * status_write_interval_secs) = 45" by (simp add: status_write_interval_secs_def)
    then show ?thesis by (simp only: word_less_nat_alt unat_sat_sub less_diff_conv add.commute)
  qed
  have gap: "3 * hb * 1000 < sat_sub (now * 1000) u \<longleftrightarrow> unat u + unat hb * 3000 < unat now * 1000" for u
    by (simp only: word_less_nat_alt unat_sat_sub hb now less_diff_conv add.commute)
  have "3 * hb * 1000 = 3000 * hb" by simp
  note gap' = gap [unfolded this]
  have "publish_verdict (now * 1000) hb st = Ok () \<longleftrightarrow> publish_fresh (unat now) (unat hb) st"
    by (cases "ms_last_offer_publish_ms st") (auto simp: publish_verdict_def publish_fresh_def Let_def gap' start)
  moreover have "publish_verdict (now * 1000) hb st \<noteq> Ok () \<Longrightarrow> \<exists>e. publish_verdict (now * 1000) hb st = Err e"
    by (auto simp: publish_verdict_def Let_def split: option.splits if_splits)
  ultimately show ?thesis
    by (cases "publish_verdict (now * 1000) hb st = Ok ()") (auto simp: status_verdict_def Let_def secs pos age)
qed

lemma healthy_iff_witness: "status_verdict 230 30 (toy_status 215) = Ok ()"
  using healthy_iff [of 230 30 "toy_status 215"]
  by (simp add: toy_status_def status_snapshot_def status_new_def publish_fresh_def Let_def word_less_nat_alt)

end
