(* ===== verification/Bot_Journal.thy ===== *)
theory Bot_Journal
  imports Swap_Config
begin

text \<open>
  The in-flight swap journal, \<open>StateStore\<close> of \<open>src/cli/bot.rs\<close>, and the interface the
  maker drives it through, the trait \<open>SwapJournal\<close> of \<open>src/swap/maker.rs\<close>. The store is
  the state in memory together with the content of its file; \<open>serde_json\<close> is a parameter and
  what the file system did with a write is an argument: success, or an error after which a
  later read sees the new content or still the old one. The theorem is that a hashlock in
  memory is always on disk, so that a successful \<open>record\<close> survives a crash until it is
  cleared.
\<close>

section \<open>Entries\<close>

datatype swap_stage = PreLock | Funded

record in_flight_swap =
  ifs_hashlock :: string
  ifs_swap_id :: string
  recorded_at :: u64
  stage :: swap_stage

record quarantined_swap =
  qs_hashlock :: string
  qs_swap_id :: string
  qs_reason :: string
  quarantined_at :: u64

record bot_state =
  in_flight_swaps :: "in_flight_swap list"
  quarantined :: "quarantined_swap list"

definition default_bot_state :: bot_state where
  "default_bot_state = \<lparr>in_flight_swaps = [], quarantined = []\<rparr>"

record state_store =
  mem :: bot_state
  disk :: "string option"

record state_codec =
  state_to_json :: "bot_state \<Rightarrow> string"
  state_from_json :: "string \<Rightarrow> string + bot_state"

section \<open>Loading and persisting\<close>

text \<open>\<open>Inr None\<close> is a missing file, \<open>Inl\<close> another read error.\<close>

definition store_load :: "state_codec \<Rightarrow> string + string option \<Rightarrow> (swap_error, state_store) res" where
  "store_load js rd =
     (case rd of
        Inr (Some raw) \<Rightarrow>
          (case state_from_json js raw of
             Inr st \<Rightarrow> Ok \<lparr>mem = st, disk = Some raw\<rparr>
           | Inl e \<Rightarrow> Err (InvalidConfig (''corrupt maker state file: '' @ e)))
      | Inr None \<Rightarrow> Ok \<lparr>mem = default_bot_state, disk = None\<rparr>
      | Inl e \<Rightarrow> Err (InvalidConfig (''cannot read maker state file: '' @ e)))"

text \<open>
  Temporary file, \<open>fsync\<close>, rename, \<open>fsync\<close> of the directory: an error before the rename
  leaves the old content; after it, either may be what a later read sees.
\<close>

datatype persist_io = PersistOk | PersistErr bool

fun persist :: "state_codec \<Rightarrow> persist_io \<Rightarrow> bot_state \<Rightarrow> string option \<Rightarrow> bool \<times> string option" where
  "persist js PersistOk st d = (True, Some (state_to_json js st))"
| "persist js (PersistErr landed) st d = (False, if landed then Some (state_to_json js st) else d)"

definition persist_logged :: "state_codec \<Rightarrow> persist_io \<Rightarrow> bot_state \<Rightarrow> state_store \<Rightarrow> state_store" where
  "persist_logged js io st s = s\<lparr>mem := st, disk := snd (persist js io st (disk s))\<rparr>"

section \<open>Mutations\<close>

definition record_swap ::
  "state_codec \<Rightarrow> persist_io \<Rightarrow> in_flight_swap \<Rightarrow> state_store \<Rightarrow> (swap_error, unit) res \<times> state_store" where
  "record_swap js io swap s =
     (if list_ex (\<lambda>e. ifs_hashlock e = ifs_hashlock swap) (in_flight_swaps (mem s)) then (Ok (), s)
      else
        let st = (mem s)\<lparr>in_flight_swaps := in_flight_swaps (mem s) @ [swap]\<rparr>;
            (ok, d) = persist js io st (disk s) in
        if ok then (Ok (), s\<lparr>mem := st, disk := d\<rparr>)
        else (Err (InvalidConfig ''failed to durably journal in-flight swap''),
              s\<lparr>mem := st\<lparr>in_flight_swaps := butlast (in_flight_swaps st)\<rparr>, disk := d\<rparr>))"

definition mark_funded :: "state_codec \<Rightarrow> persist_io \<Rightarrow> string \<Rightarrow> state_store \<Rightarrow> state_store" where
  "mark_funded js io h s =
     (let hit = (\<lambda>e. ifs_hashlock e = h \<and> stage e \<noteq> Funded);
          st = (mem s)\<lparr>in_flight_swaps :=
                 map (\<lambda>e. if hit e then e\<lparr>stage := Funded\<rparr> else e) (in_flight_swaps (mem s))\<rparr> in
      if list_ex hit (in_flight_swaps (mem s)) then persist_logged js io st s else s)"

definition remove_swap :: "state_codec \<Rightarrow> persist_io \<Rightarrow> string \<Rightarrow> state_store \<Rightarrow> state_store" where
  "remove_swap js io h s =
     (let kept = filter (\<lambda>e. ifs_hashlock e \<noteq> h) (in_flight_swaps (mem s)) in
      if length kept \<noteq> length (in_flight_swaps (mem s))
      then persist_logged js io ((mem s)\<lparr>in_flight_swaps := kept\<rparr>) s else s)"

definition snapshot :: "state_store \<Rightarrow> in_flight_swap list" where
  "snapshot s = in_flight_swaps (mem s)"

definition quarantined_snapshot :: "state_store \<Rightarrow> quarantined_swap list" where
  "quarantined_snapshot s = quarantined (mem s)"

definition quarantine ::
  "state_codec \<Rightarrow> persist_io \<Rightarrow> u64 \<Rightarrow> string \<Rightarrow> string \<Rightarrow> state_store \<Rightarrow> state_store" where
  "quarantine js io now h reason s =
     (let swap_id = (case find (\<lambda>e. ifs_hashlock e = h) (in_flight_swaps (mem s)) of
                       Some e \<Rightarrow> ifs_swap_id e | None \<Rightarrow> []);
          kept = filter (\<lambda>e. ifs_hashlock e \<noteq> h) (in_flight_swaps (mem s));
          q = (if list_ex (\<lambda>e. qs_hashlock e = h) (quarantined (mem s)) then quarantined (mem s)
               else quarantined (mem s) @ [\<lparr> qs_hashlock = h, qs_swap_id = swap_id, qs_reason = reason,
                                             quarantined_at = now \<rparr>]) in
      persist_logged js io \<lparr>in_flight_swaps = kept, quarantined = q\<rparr> s)"

definition contains :: "string \<Rightarrow> state_store \<Rightarrow> bool" where
  "contains h s = list_ex (\<lambda>e. ifs_hashlock e = h) (in_flight_swaps (mem s))"

definition has_in_flight :: "state_store \<Rightarrow> bool" where
  "has_in_flight s \<longleftrightarrow> in_flight_swaps (mem s) \<noteq> []"

section \<open>The trait implementation\<close>

definition journal_record ::
  "state_codec \<Rightarrow> persist_io \<times> u64 \<Rightarrow> string \<Rightarrow> string \<Rightarrow> state_store
   \<Rightarrow> (swap_error, unit) res \<times> state_store" where
  "journal_record js io h swap_id s =
     record_swap js (fst io) \<lparr> ifs_hashlock = h, ifs_swap_id = swap_id, recorded_at = snd io,
       stage = PreLock \<rparr> s"

definition journal_mark_funded :: "state_codec \<Rightarrow> persist_io \<times> u64 \<Rightarrow> string \<Rightarrow> state_store \<Rightarrow> state_store" where
  "journal_mark_funded js io h s = mark_funded js (fst io) h s"

definition journal_clear :: "state_codec \<Rightarrow> persist_io \<times> u64 \<Rightarrow> string \<Rightarrow> state_store \<Rightarrow> state_store" where
  "journal_clear js io h s = remove_swap js (fst io) h s"

section \<open>The interface of a journal\<close>

text \<open>
  A client sees which hashlocks are in flight; \<open>durable\<close> says which ones a restart would find.
\<close>

datatype journal_call = JRecord string string | JMarkFunded string | JClear string

fun journal_do ::
  "('i \<Rightarrow> string \<Rightarrow> string \<Rightarrow> 's \<Rightarrow> (swap_error, unit) res \<times> 's) \<Rightarrow> ('i \<Rightarrow> string \<Rightarrow> 's \<Rightarrow> 's) \<Rightarrow>
   ('i \<Rightarrow> string \<Rightarrow> 's \<Rightarrow> 's) \<Rightarrow> 'i \<times> journal_call \<Rightarrow> 's \<Rightarrow> 's" where
  "journal_do recd mark clr (i, JRecord h d) s = snd (recd i h d s)"
| "journal_do recd mark clr (i, JMarkFunded h) s = mark i h s"
| "journal_do recd mark clr (i, JClear h) s = clr i h s"

locale swap_journal =
  fixes recd :: "'i \<Rightarrow> string \<Rightarrow> string \<Rightarrow> 's \<Rightarrow> (swap_error, unit) res \<times> 's"
    and mark :: "'i \<Rightarrow> string \<Rightarrow> 's \<Rightarrow> 's"
    and clr :: "'i \<Rightarrow> string \<Rightarrow> 's \<Rightarrow> 's"
    and has :: "string \<Rightarrow> 's \<Rightarrow> bool"
    and busy :: "'s \<Rightarrow> bool"
    and durable :: "string \<Rightarrow> 's \<Rightarrow> bool"
    and inv :: "'s \<Rightarrow> bool"
  assumes record_law: "has k (snd (recd i h d s)) \<longleftrightarrow> has k s \<or> (k = h \<and> fst (recd i h d s) = Ok ())"
    and mark_law: "has k (mark i h s) = has k s"
    and clear_law: "has k (clr i h s) \<longleftrightarrow> has k s \<and> k \<noteq> h"
    and busy_law: "busy s \<longleftrightarrow> (\<exists>k. has k s)"
    and durable_law: "inv s \<Longrightarrow> has k s \<Longrightarrow> durable k s"
    and inv_record: "inv s \<Longrightarrow> inv (snd (recd i h d s))"
    and inv_mark: "inv s \<Longrightarrow> inv (mark i h s)"
    and inv_clear: "inv s \<Longrightarrow> inv (clr i h s)"
begin

lemma inv_do: "inv s \<Longrightarrow> inv (journal_do recd mark clr c s)"
  by (cases "(recd, mark, clr, c, s)" rule: journal_do.cases) (simp_all add: inv_record inv_mark inv_clear)

lemma inv_dos: "inv s \<Longrightarrow> inv (fold (journal_do recd mark clr) cs s)"
  by (induction cs arbitrary: s) (auto intro: inv_do)

lemma kept_do:
  "has h s \<Longrightarrow> \<nexists>i. c = (i, JClear h) \<Longrightarrow> has h (journal_do recd mark clr c s)"
  by (cases "(recd, mark, clr, c, s)" rule: journal_do.cases) (auto simp: record_law mark_law clear_law)

lemma kept_dos:
  "has h s \<Longrightarrow> \<nexists>i. (i, JClear h) \<in> set cs \<Longrightarrow> has h (fold (journal_do recd mark clr) cs s)"
proof (induction cs arbitrary: s)
  case (Cons c cs)
  then have "has h (journal_do recd mark clr c s)" by (intro kept_do) auto
  then show ?case using Cons by simp
qed simp

text \<open>A recorded swap is found after a restart at any later point before it is cleared.\<close>

lemma recorded_is_durable:
  assumes "inv s" "fst (recd i h d s) = Ok ()" "\<nexists>i. (i, JClear h) \<in> set cs"
  shows "durable h (fold (journal_do recd mark clr) cs (snd (recd i h d s)))"
  using assms by (intro durable_law inv_dos inv_record kept_dos) (simp_all add: record_law)

lemma busy_while_recorded: "has h s \<Longrightarrow> busy s"
  using busy_law by blast

end

section \<open>The store implements the interface\<close>

definition json_ok :: "state_codec \<Rightarrow> bool" where
  "json_ok js \<longleftrightarrow> (\<forall>st. state_from_json js (state_to_json js st) = Inr st)"

definition keys :: "bot_state \<Rightarrow> string list" where
  "keys st = map ifs_hashlock (in_flight_swaps st)"

definition on_disk :: "state_codec \<Rightarrow> string \<Rightarrow> state_store \<Rightarrow> bool" where
  "on_disk js h s \<longleftrightarrow>
     (\<exists>raw st. disk s = Some raw \<and> state_from_json js raw = Inr st \<and> h \<in> set (keys st))"

definition store_inv :: "state_codec \<Rightarrow> state_store \<Rightarrow> bool" where
  "store_inv js s \<longleftrightarrow> json_ok js \<and> distinct (keys (mem s)) \<and> (\<forall>h. contains h s \<longrightarrow> on_disk js h s)"

lemma contains_keys: "contains h s \<longleftrightarrow> h \<in> set (keys (mem s))"
  by (auto simp: contains_def keys_def list_ex_iff)

lemma persist_logged_inv:
  assumes "store_inv js s" "distinct (keys st)" "set (keys st) \<subseteq> set (keys (mem s))"
  shows "store_inv js (persist_logged js io st s)"
proof (cases io)
  case PersistOk
  then show ?thesis using assms
    by (simp add: store_inv_def persist_logged_def on_disk_def contains_keys json_ok_def)
next
  case (PersistErr landed)
  then show ?thesis using assms
    by (cases landed)
      (auto simp: store_inv_def persist_logged_def on_disk_def contains_keys json_ok_def)
qed

lemma keys_map_stage [simp]:
  "keys (st\<lparr>in_flight_swaps := map (\<lambda>e. if P e then e\<lparr>stage := x\<rparr> else e) l\<rparr>) = map ifs_hashlock l"
  by (induction l) (auto simp: keys_def)

lemma mark_funded_keys: "keys (mem (mark_funded js io h s)) = keys (mem s)"
  by (simp add: mark_funded_def Let_def persist_logged_def keys_def o_def if_distrib cong: if_cong)

lemma remove_keys: "keys (mem (remove_swap js io h s)) = filter (\<lambda>k. k \<noteq> h) (keys (mem s))"
proof (cases "length (filter (\<lambda>e. ifs_hashlock e \<noteq> h) (in_flight_swaps (mem s))) = length (in_flight_swaps (mem s))")
  case True
  then have "filter (\<lambda>e. ifs_hashlock e \<noteq> h) (in_flight_swaps (mem s)) = in_flight_swaps (mem s)"
    by (metis filter_id_conv length_filter_less less_irrefl)
  then show ?thesis by (simp add: remove_swap_def Let_def keys_def filter_map o_def)
next
  case False
  then show ?thesis by (simp add: remove_swap_def Let_def keys_def filter_map o_def persist_logged_def)
qed

lemma record_keys:
  "keys (mem (snd (record_swap js io e s))) =
     (if contains (ifs_hashlock e) s \<or> fst (record_swap js io e s) \<noteq> Ok () then keys (mem s)
      else keys (mem s) @ [ifs_hashlock e])"
  by (cases io) (auto simp: record_swap_def Let_def contains_def keys_def)

lemma record_known: "contains (ifs_hashlock e) s \<Longrightarrow> fst (record_swap js io e s) = Ok ()"
  by (simp add: record_swap_def contains_def)

lemma record_inv:
  assumes "store_inv js s"
  shows "store_inv js (snd (record_swap js io e s))"
proof (cases "contains (ifs_hashlock e) s")
  case True
  then show ?thesis using assms by (simp add: record_swap_def contains_def)
next
  case False
  then have d: "distinct (keys (mem (snd (record_swap js io e s))))"
    using assms by (auto simp: record_keys store_inv_def contains_keys)
  show ?thesis
  proof (cases io)
    case PersistOk
    with False d assms show ?thesis
      by (auto simp: store_inv_def record_swap_def contains_def keys_def on_disk_def Let_def json_ok_def
          list_ex_iff)
  next
    case (PersistErr landed)
    with False d assms show ?thesis
      by (auto simp: store_inv_def record_swap_def contains_def keys_def on_disk_def Let_def json_ok_def
          list_ex_iff)
  qed
qed

lemma store_inv_distinct:
  "store_inv js s \<Longrightarrow> distinct (map ifs_hashlock (in_flight_swaps (mem s)))"
  by (simp add: store_inv_def keys_def)

lemmas store_persist = persist_logged_inv [OF _ _ subsetI]

lemma remove_inv: "store_inv js s \<Longrightarrow> store_inv js (remove_swap js io h s)"
  unfolding remove_swap_def Let_def using store_inv_distinct [of js s]
  by (auto intro!: store_persist simp: keys_def distinct_map_filter)

lemma mark_funded_inv: "store_inv js s \<Longrightarrow> store_inv js (mark_funded js io h s)"
  unfolding mark_funded_def Let_def using store_inv_distinct [of js s]
  by (auto intro!: store_persist simp: keys_def [of "mem s"])

lemma quarantine_inv: "store_inv js s \<Longrightarrow> store_inv js (quarantine js io now h reason s)"
  unfolding quarantine_def Let_def using store_inv_distinct [of js s]
  by (auto intro!: store_persist simp: keys_def distinct_map_filter)

interpretation store: swap_journal "journal_record js" "journal_mark_funded js" "journal_clear js"
  contains has_in_flight "on_disk js" "store_inv js" for js :: state_codec
proof unfold_locales
  fix k h d s and i :: "persist_io \<times> u64"
  show "contains k (snd (journal_record js i h d s)) \<longleftrightarrow>
      contains k s \<or> (k = h \<and> fst (journal_record js i h d s) = Ok ())"
    by (cases "contains h s")
      (auto simp: journal_record_def contains_keys [of k] record_keys record_known contains_keys [of h])
  show "contains k (journal_mark_funded js i h s) = contains k s"
    by (simp add: journal_mark_funded_def contains_keys mark_funded_keys)
  show "contains k (journal_clear js i h s) \<longleftrightarrow> contains k s \<and> k \<noteq> h"
    by (auto simp: journal_clear_def contains_keys remove_keys)
  show "has_in_flight s \<longleftrightarrow> (\<exists>k. contains k s)"
    by (cases "in_flight_swaps (mem s)") (auto simp: has_in_flight_def contains_def)
  show "store_inv js s \<Longrightarrow> contains k s \<Longrightarrow> on_disk js k s" by (simp add: store_inv_def)
  show "store_inv js s \<Longrightarrow> store_inv js (snd (journal_record js i h d s))"
    by (simp add: journal_record_def record_inv)
  show "store_inv js s \<Longrightarrow> store_inv js (journal_mark_funded js i h s)"
    by (simp add: journal_mark_funded_def mark_funded_inv)
  show "store_inv js s \<Longrightarrow> store_inv js (journal_clear js i h s)"
    by (simp add: journal_clear_def remove_inv)
qed

section \<open>A concrete codec\<close>

definition entry_tokens :: "in_flight_swap \<Rightarrow> string list" where
  "entry_tokens e = [hx (ifs_hashlock e), hx (ifs_swap_id e), show_nat (unat (recorded_at e)),
     show_nat (if stage e = PreLock then 0 else 1)]"

definition quarantine_tokens :: "quarantined_swap \<Rightarrow> string list" where
  "quarantine_tokens q = [hx (qs_hashlock q), hx (qs_swap_id q), hx (qs_reason q),
     show_nat (unat (quarantined_at q))]"

fun take_entries :: "nat \<Rightarrow> string list \<Rightarrow> in_flight_swap list \<times> string list" where
  "take_entries (Suc n) (h # i # t # st # ts) =
     (let (es, r) = take_entries n ts in
      (\<lparr> ifs_hashlock = unhx h, ifs_swap_id = unhx i, recorded_at = of_nat (toy_nat t),
         stage = (if toy_nat st = 0 then PreLock else Funded) \<rparr> # es, r))"
| "take_entries _ ts = ([], ts)"

fun take_quarantined :: "string list \<Rightarrow> quarantined_swap list" where
  "take_quarantined (h # i # w # t # ts) =
     \<lparr> qs_hashlock = unhx h, qs_swap_id = unhx i, qs_reason = unhx w, quarantined_at = of_nat (toy_nat t) \<rparr>
       # take_quarantined ts"
| "take_quarantined _ = []"

definition state_tokens :: "bot_state \<Rightarrow> string list" where
  "state_tokens st = show_nat (length (in_flight_swaps st)) #
     concat (map entry_tokens (in_flight_swaps st)) @ concat (map quarantine_tokens (quarantined st))"

definition toy_json :: state_codec where
  "toy_json = \<lparr> state_to_json = (\<lambda>st. join_tokens (state_tokens st)),
     state_from_json = (\<lambda>s. case split_tokens (length s) s of
        [] \<Rightarrow> Inl ''empty''
      | n # ts \<Rightarrow> (let (es, r) = take_entries (toy_nat n) ts in
                   Inr \<lparr>in_flight_swaps = es, quarantined = take_quarantined r\<rparr>)) \<rparr>"

lemma take_entries_tokens:
  "take_entries (length es) (concat (map entry_tokens es) @ r) = (es, r)"
proof (induction es)
  case (Cons e es)
  then show ?case by (cases "stage e") (simp_all add: entry_tokens_def)
qed (cases r, auto)

lemma take_quarantined_tokens: "take_quarantined (concat (map quarantine_tokens qs)) = qs"
  by (induction qs) (simp_all add: quarantine_tokens_def)

lemma toy_json_ok: "json_ok toy_json"
proof -
  have "split_tokens (length (join_tokens (state_tokens st))) (join_tokens (state_tokens st)) = state_tokens st" for st
    by (rule split_join_tokens [OF _ length_join_tokens])
      (auto simp: state_tokens_def entry_tokens_def quarantine_tokens_def)
  then show ?thesis
    by (simp add: json_ok_def toy_json_def)
      (simp add: state_tokens_def take_entries_tokens take_quarantined_tokens)
qed

lemma load_inv:
  "store_load js rd = Ok s \<Longrightarrow> json_ok js \<Longrightarrow> distinct (keys (mem s)) \<Longrightarrow> store_inv js s"
  by (auto simp: store_load_def store_inv_def contains_keys on_disk_def keys_def default_bot_state_def
      split: sum.splits option.splits)

section \<open>Properties\<close>

text \<open>
  C16. A durable record is never lost: starting from a loaded journal with distinct
  hashlocks, whatever writes fail in between, once \<open>record\<close> has returned \<open>Ok\<close> every later
  restart that happens before the entry is cleared reads a state file that parses and contains
  the hashlock.
\<close>

theorem record_survives_crash:
  assumes "json_ok js" and "store_load js rd = Ok s0" and "distinct (keys (mem s0))"
    and "s = fold (journal_do (journal_record js) (journal_mark_funded js) (journal_clear js)) cs s0"
    and "journal_record js io h d s = (Ok (), s1)" and "\<nexists>i. (i, JClear h) \<in> set cs'"
  shows "\<exists>s2. store_load js (Inr (disk (fold (journal_do (journal_record js) (journal_mark_funded js)
      (journal_clear js)) cs' s1))) = Ok s2 \<and> contains h s2"
proof -
  have "store_inv js s" unfolding assms(4) by (intro store.inv_dos load_inv [OF assms(2,1,3)])
  then have "on_disk js h (fold (journal_do (journal_record js) (journal_mark_funded js)
      (journal_clear js)) cs' s1)"
    using store.recorded_is_durable [of js s io h d cs'] assms(5,6) by simp
  then show ?thesis by (auto simp: on_disk_def store_load_def contains_keys)
qed

theorem record_survives_crash_witness:
  "\<exists>s2. store_load toy_json (Inr (disk (journal_mark_funded toy_json (PersistErr False, 9) ''ab''
      (snd (journal_record toy_json (PersistOk, 5) ''ab'' ''0x1'' \<lparr>mem = default_bot_state, disk = None\<rparr>)))))
     = Ok s2 \<and> contains ''ab'' s2"
proof -
  let ?s0 = "\<lparr>mem = default_bot_state, disk = None\<rparr>"
  have "store_load toy_json (Inr None) = Ok ?s0" by (simp add: store_load_def)
  moreover have "distinct (keys (mem ?s0))" by (simp add: keys_def default_bot_state_def)
  moreover have "journal_record toy_json (PersistOk, 5) ''ab'' ''0x1'' ?s0 =
      (Ok (), snd (journal_record toy_json (PersistOk, 5) ''ab'' ''0x1'' ?s0))"
    by (simp add: journal_record_def record_swap_def default_bot_state_def Let_def)
  ultimately show ?thesis
    using record_survives_crash [OF toy_json_ok, of "Inr None" ?s0 ?s0 "[]" "(PersistOk, 5)" "''ab''" "''0x1''"
        _ "[((PersistErr False, 9), JMarkFunded ''ab'')]"] by simp
qed

end
