(* ===== verification/Bot_Reconcile.thy ===== *)
theory Bot_Reconcile
  imports Swap_Maker Bot_Journal
begin

text \<open>
  Startup of the standing bot (\<open>src/cli/bot.rs\<close>): the time lock check of the configuration and
  the reconciliation of every journalled swap with the chains, with the bounded reads it decides
  on. Journal and ledger calls go through the trace; the entries are a snapshot of the store.
  Spawned resumptions are returned with their arguments, and \<open>resume_swap\<close> is the task.
\<close>

section \<open>Time locks\<close>

definition now_unix_ms :: "env \<Rightarrow> u64 io" where
  "now_unix_ms en = do { now \<leftarrow> now_unix en; ret (now * 1000) }"

definition loop_default_lez_timelock_minutes :: u64 where "loop_default_lez_timelock_minutes = 30"
definition loop_default_eth_timelock_minutes :: u64 where "loop_default_eth_timelock_minutes = 50"
definition timelock_transit_slack_minutes :: u64 where "timelock_transit_slack_minutes = 2"

definition validate_timelocks :: "u64 \<Rightarrow> u64 \<Rightarrow> u64 \<Rightarrow> (swap_error, unit) res" where
  "validate_timelocks lez_minutes eth_minutes margin_minutes =
     (if margin_minutes < 5 then Err (InvalidConfig ''timelock margin must be >= 5 minutes'')
      else
        (let required = sat_add (sat_add lez_minutes margin_minutes) timelock_transit_slack_minutes in
         if eth_minutes < required then Err (InvalidConfig ''unsafe timelocks'') else Ok ()))"

section \<open>Decisions\<close>

record reconcile_run =
  rc_env :: env
  rc_setup :: lez_setup
  rc_signer_err :: "string \<Rightarrow> string option"
  rc_config :: swap_config
  rc_hex_decode :: "string \<Rightarrow> string + bytes"
  rc_parse_swap_id :: "string \<Rightarrow> bytes32 option"

text \<open>\<open>trim_start_matches\<close> drops the prefix as often as it occurs.\<close>

fun trim_0x :: "string \<Rightarrow> string" where
  "trim_0x (a # b # r) = (if a = CHR ''0'' \<and> b = CHR ''x'' then trim_0x r else a # b # r)"
| "trim_0x s = s"

definition parse_hashlock_hex :: "(string \<Rightarrow> string + bytes) \<Rightarrow> string \<Rightarrow> bytes32 option" where
  "parse_hashlock_hex hex_decode s =
     (case hex_decode (trim_0x s) of
        Inr b \<Rightarrow> if length b = 32 then Some b else None
      | Inl e \<Rightarrow> None)"

definition is_partial_lock_wedge :: "htlc_state \<Rightarrow> u64 \<Rightarrow> u64 \<Rightarrow> u128 \<Rightarrow> u128 \<Rightarrow> bool" where
  "is_partial_lock_wedge st now_ms timelock_ms balance amount \<longleftrightarrow>
     st = Locked \<and> timelock_ms \<le> now_ms \<and> balance < amount"

datatype wedge_disposition = WdQuarantine | WdRecoverClaimed | WdDropped | WdRetain

definition classify_wedge_reread ::
  "htlc_state option \<Rightarrow> u128 option \<Rightarrow> htlc_state option \<Rightarrow> u64 \<Rightarrow> u64 \<Rightarrow> u128 \<Rightarrow> wedge_disposition" where
  "classify_wedge_reread pre_state balance post_state now_ms timelock_ms amount =
     (if pre_state = Some Claimed \<or> post_state = Some Claimed then WdRecoverClaimed
      else if post_state = Some Refunded then WdDropped
      else
        (case (pre_state, post_state, balance) of
           (Some Locked, Some Locked, Some b) \<Rightarrow>
             if is_partial_lock_wedge Locked now_ms timelock_ms b amount then WdQuarantine else WdRetain
         | _ \<Rightarrow> WdRetain))"

datatype absent_escrow_action = RetirePreLock | RetainFunded | RetainInconclusive

definition classify_absent_escrow :: "swap_stage \<Rightarrow> bool \<Rightarrow> absent_escrow_action" where
  "classify_absent_escrow st any_read_errored =
     (if any_read_errored then RetainInconclusive
      else case st of PreLock \<Rightarrow> RetirePreLock | Funded \<Rightarrow> RetainFunded)"

section \<open>Bounded reads\<close>

record bounded_escrow_read =
  br_escrow :: "htlc_escrow option"
  br_any_err :: bool
  br_absent_reads :: u32

definition max_reads :: nat where "max_reads = 5"

fun read_escrow_attempts ::
  "htlc_escrow option rio \<Rightarrow> nat \<Rightarrow> nat \<Rightarrow> bool \<Rightarrow> u32 \<Rightarrow> bounded_escrow_read rio" where
  "read_escrow_attempts fetch poll 0 any_err absent_reads =
     ret (Ok \<lparr> br_escrow = None, br_any_err = any_err, br_absent_reads = absent_reads \<rparr>)"
| "read_escrow_attempts fetch poll (Suc n) any_err absent_reads = do {
     r \<leftarrow> fetch;
     (let next_read = (\<lambda>err absent. do {
            (if 0 < n then sleep poll else ret ());
            read_escrow_attempts fetch poll n err absent }) in
      case r of
        Ok (Some escrow) \<Rightarrow>
          ret (Ok \<lparr> br_escrow = Some escrow, br_any_err = any_err, br_absent_reads = absent_reads \<rparr>)
      | Ok None \<Rightarrow> next_read any_err (absent_reads + 1)
      | Err e \<Rightarrow> next_read True absent_reads
      | Panic m \<Rightarrow> ret (Panic m)
      | Pending \<Rightarrow> ret Pending) }"

definition read_escrow_bounded_with :: "htlc_escrow option rio \<Rightarrow> nat \<Rightarrow> bounded_escrow_read rio" where
  "read_escrow_bounded_with fetch poll = read_escrow_attempts fetch poll max_reads False 0"

definition read_escrow_bounded :: "env \<Rightarrow> lez_client \<Rightarrow> bytes32 \<Rightarrow> bounded_escrow_read rio" where
  "read_escrow_bounded en c hashlock = read_escrow_bounded_with (get_escrow en c hashlock) (lc_poll_interval c)"

text \<open>The highest of the balances read, \<open>None\<close> when every read failed.\<close>

fun max_balance_attempts :: "u128 rio \<Rightarrow> nat \<Rightarrow> u128 \<Rightarrow> nat \<Rightarrow> u128 option \<Rightarrow> u128 option rio" where
  "max_balance_attempts fetch poll enough 0 best = ret (Ok best)"
| "max_balance_attempts fetch poll enough (Suc n) best = do {
     r \<leftarrow> fetch;
     (let next_read = (\<lambda>best'. do {
            (if 0 < n then sleep poll else ret ());
            max_balance_attempts fetch poll enough n best' }) in
      case r of
        Ok balance \<Rightarrow>
          (let m = (case best of None \<Rightarrow> balance | Some cur \<Rightarrow> max cur balance) in
           if enough \<le> m then ret (Ok (Some m)) else next_read (Some m))
      | Err e \<Rightarrow> next_read best
      | Panic msg \<Rightarrow> ret (Panic msg)
      | Pending \<Rightarrow> ret Pending) }"

definition max_escrow_balance_with :: "u128 rio \<Rightarrow> nat \<Rightarrow> u128 \<Rightarrow> u128 option rio" where
  "max_escrow_balance_with fetch poll enough = max_balance_attempts fetch poll enough max_reads None"

definition max_escrow_balance :: "env \<Rightarrow> lez_client \<Rightarrow> account_id \<Rightarrow> u128 \<Rightarrow> u128 option rio" where
  "max_escrow_balance en c pda enough = max_escrow_balance_with (get_balance en pda) (lc_poll_interval c) enough"

section \<open>Claiming the ETH\<close>

datatype eth_claim_outcome = EcClaimed | EcAlreadyTerminal | EcFailed

definition retain_after_eth_claim :: "eth_claim_outcome \<Rightarrow> bool" where
  "retain_after_eth_claim out \<longleftrightarrow> out = EcFailed"

definition claim_eth_open :: "env \<Rightarrow> bytes32 \<Rightarrow> bytes32 \<Rightarrow> eth_claim_outcome rio" where
  "claim_eth_open en swap_id preimage = do {
     h \<leftarrow> get_htlc en swap_id;
     if (case h of Ok htlc \<Rightarrow> htlc_swapState htlc \<noteq> OPEN | _ \<Rightarrow> False) then ret (Ok EcAlreadyTerminal)
     else do {
       r \<leftarrow> eth_claim en swap_id preimage;
       (case r of
          Ok tx \<Rightarrow> ret (Ok EcClaimed)
        | Err e \<Rightarrow> do {
            h2 \<leftarrow> get_htlc en swap_id;
            ret (Ok (if (case h2 of Ok htlc \<Rightarrow> htlc_swapState htlc = CLAIMED | _ \<Rightarrow> False)
                     then EcAlreadyTerminal else EcFailed)) }
        | Panic m \<Rightarrow> ret (Panic m)
        | Pending \<Rightarrow> ret Pending) } }"

definition claim_eth :: "reconcile_run \<Rightarrow> string \<Rightarrow> bytes32 \<Rightarrow> eth_claim_outcome rio" where
  "claim_eth rc swap_id_str preimage =
     (case rc_parse_swap_id rc swap_id_str of
        None \<Rightarrow> ret (Ok EcAlreadyTerminal)
      | Some swap_id \<Rightarrow> do {
          c \<leftarrow> eth_client_new (rc_signer_err rc) (rc_env rc) (rc_config rc);
          (case c of
             Ok eth \<Rightarrow> claim_eth_open (rc_env rc) swap_id preimage
           | Err e \<Rightarrow> ret (Ok EcFailed)
           | Panic m \<Rightarrow> ret (Panic m)
           | Pending \<Rightarrow> ret Pending) })"

section \<open>Journal and ledger calls\<close>

definition call :: "interaction \<Rightarrow> unit io" where
  "call x = ext (\<lambda>_. x) (\<lambda>_. ())"

definition store_remove :: "string \<Rightarrow> unit io" where "store_remove h = call (XClear h)"
definition store_quarantine :: "string \<Rightarrow> string \<Rightarrow> unit io" where "store_quarantine h reason = call (XQuarantine h reason)"
definition ops_terminal :: "string \<Rightarrow> record_state \<Rightarrow> unit io" where "ops_terminal h st = call (XOpsTerminal h st)"

text \<open>Collect the ETH of a claimed escrow and drop the entry unless the claim can be retried.\<close>

definition settle_claim :: "reconcile_run \<Rightarrow> in_flight_swap \<Rightarrow> bytes32 \<Rightarrow> unit rio" where
  "settle_claim rc entry preimage =
     tryM (claim_eth rc (ifs_swap_id entry) preimage) (\<lambda>out.
       if retain_after_eth_claim out then ret (Ok ())
       else do {
         store_remove (ifs_hashlock entry);
         ops_terminal (ifs_hashlock entry) RsCompleted;
         ret (Ok ()) })"

definition recover_claimed_escrow :: "reconcile_run \<Rightarrow> in_flight_swap \<Rightarrow> htlc_escrow \<Rightarrow> unit rio" where
  "recover_claimed_escrow rc entry escrow =
     (case esc_preimage escrow of
        Some preimage \<Rightarrow>
          if length preimage = 32 then settle_claim rc entry preimage
          else do { store_remove (ifs_hashlock entry);
                    ops_terminal (ifs_hashlock entry) (RsFailed FcEthClaimUnresolved); ret (Ok ()) }
      | None \<Rightarrow> do { store_remove (ifs_hashlock entry);
                    ops_terminal (ifs_hashlock entry) (RsFailed FcEthClaimUnresolved); ret (Ok ()) })"


section \<open>One entry\<close>

text \<open>The end of an expired escrow: a confirmed refund, or the claim of the ETH.\<close>

definition refund_expired :: "nat \<Rightarrow> reconcile_run \<Rightarrow> lez_client \<Rightarrow> in_flight_swap \<Rightarrow> bytes32 \<Rightarrow> unit rio" where
  "refund_expired fuel rc c entry hashlock = do {
     r \<leftarrow> refund_confirmed fuel (rc_env rc) c hashlock;
     (case r of
        Ok (RoRefunded tx) \<Rightarrow> do {
          store_remove (ifs_hashlock entry); ops_terminal (ifs_hashlock entry) RsRefunded; ret (Ok ()) }
      | Ok (RoClaimedByTaker preimage) \<Rightarrow> settle_claim rc entry preimage
      | Err e \<Rightarrow> ret (Ok ())
      | Panic m \<Rightarrow> ret (Panic m)
      | Pending \<Rightarrow> ret Pending) }"

text \<open>The fresh triple read for a suspected wedge: state, balance, state.\<close>

definition field_or :: "(htlc_escrow \<Rightarrow> 'a) \<Rightarrow> htlc_escrow option \<Rightarrow> 'a \<Rightarrow> 'a" where
  "field_or f eo d = (case eo of Some e \<Rightarrow> f e | None \<Rightarrow> d)"

definition claimed_read :: "htlc_escrow option \<Rightarrow> htlc_escrow option \<Rightarrow> htlc_escrow option" where
  "claimed_read post pre =
     (case post of
        Some e \<Rightarrow> if esc_state e = Claimed then Some e
                  else (case pre of Some e' \<Rightarrow> if esc_state e' = Claimed then Some e' else None | None \<Rightarrow> None)
      | None \<Rightarrow> (case pre of Some e' \<Rightarrow> if esc_state e' = Claimed then Some e' else None | None \<Rightarrow> None))"

definition wedge_decision ::
  "reconcile_run \<Rightarrow> in_flight_swap \<Rightarrow> htlc_escrow option \<Rightarrow> u128 option \<Rightarrow> htlc_escrow option \<Rightarrow>
     u64 \<Rightarrow> u64 \<Rightarrow> u128 \<Rightarrow> unit rio" where
  "wedge_decision rc entry pre fresh_balance post now_ms fresh_timelock fresh_amount =
     (case classify_wedge_reread (map_option esc_state pre) fresh_balance (map_option esc_state post)
             now_ms fresh_timelock fresh_amount of
        WdQuarantine \<Rightarrow> do {
          store_quarantine (ifs_hashlock entry) ''partial lock'';
          ops_terminal (ifs_hashlock entry) (RsFailed FcPartialLockWedge);
          ret (Ok ()) }
      | WdRecoverClaimed \<Rightarrow>
          (case claimed_read post pre of
             Some claimed \<Rightarrow> recover_claimed_escrow rc entry claimed
           | None \<Rightarrow> ret (Panic ''RecoverClaimed implies a Claimed escrow read''))
      | WdDropped \<Rightarrow> do {
          store_remove (ifs_hashlock entry); ops_terminal (ifs_hashlock entry) RsRefunded; ret (Ok ()) }
      | WdRetain \<Rightarrow> ret (Ok ()))"

definition recheck_wedge ::
  "reconcile_run \<Rightarrow> lez_client \<Rightarrow> in_flight_swap \<Rightarrow> bytes32 \<Rightarrow> htlc_escrow \<Rightarrow> unit rio" where
  "recheck_wedge rc c entry hashlock escrow =
     (let en = rc_env rc; pda = escrow_pda en c hashlock in
      tryM (read_escrow_bounded en c hashlock) (\<lambda>pre_read.
        let pre = br_escrow pre_read; pre_amount = field_or esc_amount pre (esc_amount escrow);
            pre_timelock = field_or esc_timelock pre (esc_timelock escrow) in
        tryM (max_escrow_balance en c pda pre_amount) (\<lambda>fresh_balance.
          tryM (read_escrow_bounded en c hashlock) (\<lambda>post_read.
            let post = br_escrow post_read in do {
            now_ms \<leftarrow> now_unix_ms en;
            wedge_decision rc entry pre fresh_balance post now_ms (field_or esc_timelock post pre_timelock)
              (field_or esc_amount post pre_amount) }))))"

text \<open>A locked escrow. \<open>Some\<close> is a spawned resumption, with its time lock.\<close>

definition reconcile_locked ::
  "nat \<Rightarrow> reconcile_run \<Rightarrow> lez_client \<Rightarrow> in_flight_swap \<Rightarrow> bytes32 \<Rightarrow> htlc_escrow \<Rightarrow> u64 option rio" where
  "reconcile_locked fuel rc c entry hashlock escrow =
     (let en = rc_env rc; pda = escrow_pda en c hashlock in
      tryM (max_escrow_balance en c pda (esc_amount escrow)) (\<lambda>b.
        case b of
          None \<Rightarrow> ret (Ok None)
        | Some balance \<Rightarrow> do {
            now_ms \<leftarrow> now_unix_ms en;
            if is_partial_lock_wedge (esc_state escrow) now_ms (esc_timelock escrow) balance (esc_amount escrow)
            then tryM (recheck_wedge rc c entry hashlock escrow) (\<lambda>_. ret (Ok None))
            else do {
              now_ms2 \<leftarrow> now_unix_ms en;
              if esc_timelock escrow \<le> now_ms2
              then tryM (refund_expired fuel rc c entry hashlock) (\<lambda>_. ret (Ok None))
              else ret (Ok (Some (esc_timelock escrow))) } }))"

definition reconcile_present ::
  "nat \<Rightarrow> reconcile_run \<Rightarrow> lez_client \<Rightarrow> in_flight_swap \<Rightarrow> bytes32 \<Rightarrow> htlc_escrow \<Rightarrow> u64 option rio" where
  "reconcile_present fuel rc c entry hashlock escrow =
     (let hx = ifs_hashlock entry in do {
      (if stage entry = PreLock then call (XFunded hx) else ret ());
      (case esc_state escrow of
         Claimed \<Rightarrow> tryM (recover_claimed_escrow rc entry escrow) (\<lambda>_. ret (Ok None))
       | Refunded \<Rightarrow> do { store_remove hx; ops_terminal hx RsRefunded; ret (Ok None) }
       | Locked \<Rightarrow> reconcile_locked fuel rc c entry hashlock escrow) })"

definition reconcile_absent :: "in_flight_swap \<Rightarrow> bounded_escrow_read \<Rightarrow> u64 option rio" where
  "reconcile_absent entry rd =
     (case classify_absent_escrow (stage entry) (br_any_err rd) of
        RetirePreLock \<Rightarrow> do {
          store_quarantine (ifs_hashlock entry) ''pre-lock-abandoned'';
          ops_terminal (ifs_hashlock entry) (RsFailed FcPreLockAbandoned);
          ret (Ok None) }
      | RetainInconclusive \<Rightarrow> ret (Ok None)
      | RetainFunded \<Rightarrow> ret (Ok None))"

definition reconcile_entry ::
  "nat \<Rightarrow> reconcile_run \<Rightarrow> lez_client \<Rightarrow> in_flight_swap \<Rightarrow> (bytes32 \<times> u64) option rio" where
  "reconcile_entry fuel rc c entry =
     (case parse_hashlock_hex (rc_hex_decode rc) (ifs_hashlock entry) of
        None \<Rightarrow> do {
          store_remove (ifs_hashlock entry);
          ops_terminal (ifs_hashlock entry) (RsFailed FcCorruptEntry);
          ret (Ok None) }
      | Some hashlock \<Rightarrow>
          tryM (read_escrow_bounded (rc_env rc) c hashlock) (\<lambda>rd.
            tryM (case br_escrow rd of
                    Some escrow \<Rightarrow> reconcile_present fuel rc c entry hashlock escrow
                  | None \<Rightarrow> reconcile_absent entry rd)
              (\<lambda>live. ret (Ok (map_option (\<lambda>timelock_ms. (hashlock, timelock_ms)) live)))))"

section \<open>The whole journal\<close>

type_synonym resumption = "in_flight_swap \<times> bytes32 \<times> u64"

fun reconcile_entries ::
  "nat \<Rightarrow> reconcile_run \<Rightarrow> lez_client \<Rightarrow> in_flight_swap list \<Rightarrow> resumption list rio" where
  "reconcile_entries fuel rc c [] = ret (Ok [])"
| "reconcile_entries fuel rc c (entry # entries) =
     tryM (reconcile_entry fuel rc c entry) (\<lambda>live.
       tryM (reconcile_entries fuel rc c entries) (\<lambda>handles.
         ret (Ok (case live of Some (h, timelock_ms) \<Rightarrow> (entry, h, timelock_ms) # handles | None \<Rightarrow> handles))))"

definition reconcile :: "nat \<Rightarrow> reconcile_run \<Rightarrow> state_store \<Rightarrow> resumption list rio" where
  "reconcile fuel rc st =
     (if snapshot st = [] then ret (Ok [])
      else
        (case lez_client_new (rc_setup rc) (rc_config rc) of
           Ok c \<Rightarrow> reconcile_entries fuel rc c (snapshot st)
         | Err e \<Rightarrow> ret (Ok [])
         | Panic m \<Rightarrow> ret (Panic m)
         | Pending \<Rightarrow> ret Pending))"

section \<open>Resumption\<close>

text \<open>The claim in the resumed task: \<open>True\<close> removes the entry.\<close>

definition resume_claim :: "reconcile_run \<Rightarrow> in_flight_swap \<Rightarrow> bytes32 \<Rightarrow> bool rio" where
  "resume_claim rc entry preimage =
     tryM (claim_eth rc (ifs_swap_id entry) preimage) (\<lambda>out.
       if retain_after_eth_claim out then ret (Ok False)
       else do { ops_terminal (ifs_hashlock entry) RsCompleted; ret (Ok True) })"

definition resume_expired :: "nat \<Rightarrow> reconcile_run \<Rightarrow> lez_client \<Rightarrow> in_flight_swap \<Rightarrow> bytes32 \<Rightarrow> bool rio" where
  "resume_expired fuel rc c entry hashlock = do {
     r \<leftarrow> refund_confirmed fuel (rc_env rc) c hashlock;
     (case r of
        Ok (RoRefunded tx) \<Rightarrow> do { ops_terminal (ifs_hashlock entry) RsRefunded; ret (Ok True) }
      | Ok (RoClaimedByTaker preimage) \<Rightarrow> resume_claim rc entry preimage
      | Err e \<Rightarrow> ret (Ok False)
      | Panic m \<Rightarrow> ret (Panic m)
      | Pending \<Rightarrow> ret Pending) }"

text \<open>\<open>expiry_secs\<close> is computed once; every \<open>select!\<close> waits for it anew.\<close>

fun resume_loop ::
  "nat \<Rightarrow> nat \<Rightarrow> reconcile_run \<Rightarrow> lez_client \<Rightarrow> in_flight_swap \<Rightarrow> bytes32 \<Rightarrow> u64 \<Rightarrow> bool rio" where
  "resume_loop fuel 0 rc c entry hashlock expiry_secs = ret Pending"
| "resume_loop fuel (Suc n) rc c entry hashlock expiry_secs = do {
     sel \<leftarrow> (let secs = max expiry_secs 1 in
             ext (XLezSelect secs) (\<lambda>tr. a_lez_select (rc_env rc) tr secs));
     (case sel of
        SelLezEvent (LezClaimedEv pda preimage) \<Rightarrow>
          if length preimage = 32 then resume_claim rc entry preimage else ret (Ok False)
      | SelLezEvent (LezRefundedEv pda) \<Rightarrow> do { ops_terminal (ifs_hashlock entry) RsRefunded; ret (Ok True) }
      | SelLezEvent (LezLockedEv pda) \<Rightarrow> resume_loop fuel n rc c entry hashlock expiry_secs
      | SelLezTimeout \<Rightarrow> resume_expired fuel rc c entry hashlock) }"

definition resume_swap :: "nat \<Rightarrow> reconcile_run \<Rightarrow> resumption \<Rightarrow> unit rio" where
  "resume_swap fuel rc = (\<lambda>(entry, hashlock, timelock_ms).
     (case lez_client_new (rc_setup rc) (rc_config rc) of
        Ok c \<Rightarrow>
          (case lez_client_new (rc_setup rc) (rc_config rc) of
             Ok watcher_client \<Rightarrow> do {
               now \<leftarrow> now_unix (rc_env rc);
               tryM (resume_loop fuel fuel rc c entry hashlock (sat_sub (timelock_ms div 1000) now)) (\<lambda>remove_entry.
                 do { (if remove_entry then store_remove (ifs_hashlock entry) else ret ()); ret (Ok ()) }) }
           | Err e \<Rightarrow> ret (Ok ())
           | Panic m \<Rightarrow> ret (Panic m)
           | Pending \<Rightarrow> ret Pending)
      | Err e \<Rightarrow> ret (Ok ())
      | Panic m \<Rightarrow> ret (Panic m)
      | Pending \<Rightarrow> ret Pending))"


section \<open>What the bounded reads establish\<close>

fun read_of :: "bytes32 \<Rightarrow> string + bytes \<Rightarrow> htlc_escrow option option" where
  "read_of h (Inl e) = None"
| "read_of h (Inr d) = (case decode_escrow_read h d of Ok eo \<Rightarrow> Some eo | _ \<Rightarrow> None)"

text \<open>The reads of an escrow in a trace: \<open>None\<close> for a failed one, \<open>Some None\<close> for an absent escrow.\<close>

fun escrow_reads :: "account_id \<Rightarrow> bytes32 \<Rightarrow> trace \<Rightarrow> htlc_escrow option option list" where
  "escrow_reads pda h [] = []"
| "escrow_reads pda h (XAccount a ans # tr) = (if a = pda then [read_of h ans] else []) @ escrow_reads pda h tr"
| "escrow_reads pda h (_ # tr) = escrow_reads pda h tr"

lemma escrow_reads_append [simp]: "escrow_reads pda h (xs @ ys) = escrow_reads pda h xs @ escrow_reads pda h ys"
  by (induction xs rule: escrow_reads.induct) auto

fun releases :: "interaction \<Rightarrow> bool" where
  "releases (XClear h) = True"
| "releases (XQuarantine h r) = True"
| "releases _ = False"

abbreviation stays :: "interaction \<Rightarrow> bool" where
  "stays x \<equiv> \<not> releases x"

lemma quiet_stays: "quiet x \<Longrightarrow> stays x"
  by (cases x) auto

lemma emits_reads:
  "emits quiet fetch \<Longrightarrow> emits quiet (read_escrow_attempts fetch poll n err k)"
proof (induction n arbitrary: err k)
  case (Suc n)
  show ?case unfolding read_escrow_attempts.simps Let_def
    by (intro emits_bind Suc.prems)
      (auto split: res.splits option.splits intro!: emits_intros Suc.IH Suc.prems)
qed (simp add: emits_ret)

lemma emits_max_balance:
  "emits quiet fetch \<Longrightarrow> emits quiet (max_balance_attempts fetch poll enough n best)"
proof (induction n arbitrary: best)
  case (Suc n)
  show ?case unfolding max_balance_attempts.simps Let_def
    by (intro emits_bind Suc.prems)
      (auto split: res.splits option.splits intro!: emits_intros Suc.IH Suc.prems)
qed (simp add: emits_ret)

lemma emits_bounded: "emits quiet (read_escrow_bounded en c h)"
  unfolding read_escrow_bounded_def read_escrow_bounded_with_def
  by (intro emits_reads emits_intros) simp

lemma emits_max_escrow_balance: "emits quiet (max_escrow_balance en c pda enough)"
  unfolding max_escrow_balance_def max_escrow_balance_with_def get_balance_def
  by (intro emits_max_balance emits_intros) simp

definition bounded_ok :: "nat \<Rightarrow> bool \<Rightarrow> bounded_escrow_read \<Rightarrow> htlc_escrow option option list \<Rightarrow> bool" where
  "bounded_ok n err rd reads \<longleftrightarrow>
     (case br_escrow rd of
        Some e \<Rightarrow> \<exists>vs. reads = vs @ [Some (Some e)] \<and> length vs < n
      | None \<Rightarrow> length reads = n \<and> (\<forall>r\<in>set reads. r = None \<or> r = Some None) \<and>
                br_any_err rd = (err \<or> None \<in> set reads))"

lemma bounded_ok_Cons:
  "bounded_ok n (err \<or> r = None) rd reads \<Longrightarrow> r = None \<or> r = Some None \<Longrightarrow> bounded_ok (Suc n) err rd (r # reads)"
  by (auto simp: bounded_ok_def split: option.splits)

lemma read_attempts_trace:
  "run_state (read_escrow_attempts (get_escrow en c h) poll n err k) tr = (Ok rd, tr') \<Longrightarrow>
   \<exists>e. tr' = tr @ e \<and> bounded_ok n err rd (escrow_reads (escrow_pda en c h) h e)"
proof (induction n arbitrary: err k tr)
  case 0
  then show ?case by (auto simp: bounded_ok_def)
next
  case (Suc n)
  let ?pda = "escrow_pda en c h" let ?a = "a_account en tr ?pda" let ?x = "XAccount ?pda ?a"
  let ?w = "if 0 < n then [XSleep poll] else []"
  have go: ?case if "run_state (read_escrow_attempts (get_escrow en c h) poll n (err \<or> read_of h ?a = None) k')
      (tr @ ?x # ?w) = (Ok rd, tr')" "read_of h ?a = None \<or> read_of h ?a = Some None" for k'
  proof -
    from Suc.IH [OF that(1)] obtain e where "tr' = (tr @ ?x # ?w) @ e"
      "bounded_ok n (err \<or> read_of h ?a = None) rd (escrow_reads ?pda h e)" by blast
    then show ?thesis using bounded_ok_Cons [OF _ that(2)] by (intro exI [of _ "?x # ?w @ e"]) auto
  qed
  show ?case
  proof (cases ?a)
    case (Inl m)
    then show ?thesis using Suc.prems
      by (intro go [of k]) (cases "0 < n"; auto simp: run_simps map_err_def Let_def)+
  next
    case (Inr d)
    show ?thesis
    proof (cases "decode_escrow_read h d")
      case (Ok eo)
      show ?thesis
      proof (cases eo)
        case None
        then show ?thesis using Suc.prems Inr Ok
          by (intro go [of "k + 1"]) (cases "0 < n"; auto simp: run_simps map_err_def Let_def)+
      next
        case (Some x)
        then show ?thesis using Suc.prems Inr Ok
          by (auto simp: run_simps map_err_def Let_def bounded_ok_def intro!: exI [of _ "[?x]"])
      qed
    next
      case (Err x)
      then show ?thesis by (auto simp: decode_escrow_read_def split: if_splits sum.splits)
    qed (use Suc.prems Inr in \<open>auto simp: run_simps map_err_def Let_def\<close>)
  qed
qed

definition balance_ok :: "u128 option \<Rightarrow> u128 option \<Rightarrow> (string + u128) list \<Rightarrow> bool" where
  "balance_ok best b reads \<longleftrightarrow>
     (case b of
        Some m \<Rightarrow> (best = Some m \<or> Inr m \<in> set reads) \<and> (\<forall>x. Inr x \<in> set reads \<longrightarrow> x \<le> m) \<and>
                  (\<forall>x. best = Some x \<longrightarrow> x \<le> m)
      | None \<Rightarrow> best = None \<and> (\<forall>x. Inr x \<notin> set reads))"

lemma max_balance_trace:
  "run_state (max_balance_attempts (get_balance en pda) poll enough n best) tr = (Ok b, tr') \<Longrightarrow>
   \<exists>e. tr' = tr @ e \<and> balance_ok best b (balance_answers e)"
proof (induction n arbitrary: best tr)
  case 0
  then show ?case by (auto simp: balance_ok_def split: option.splits)
next
  case (Suc n)
  let ?a = "a_balance en tr pda" let ?x = "XBalance pda ?a" let ?w = "if 0 < n then [XSleep poll] else []"
  show ?case
  proof (cases ?a)
    case (Inl m)
    then have "run_state (max_balance_attempts (get_balance en pda) poll enough n best) (tr @ ?x # ?w) = (Ok b, tr')"
      using Suc.prems by (cases "0 < n") (auto simp: run_simps map_err_def Let_def)
    from Suc.IH [OF this] obtain e where "tr' = (tr @ ?x # ?w) @ e" "balance_ok best b (balance_answers e)" by blast
    then show ?thesis using Inl
      by (intro exI [of _ "?x # ?w @ e"]) (auto simp: balance_ok_def split: option.splits)
  next
    case (Inr v)
    let ?m = "case best of None \<Rightarrow> v | Some cur \<Rightarrow> max cur v"
    show ?thesis
    proof (cases "enough \<le> ?m")
      case True
      then show ?thesis using Suc.prems Inr
        by (intro exI [of _ "[?x]"])
          (auto simp: run_simps map_err_def Let_def balance_ok_def max_def split: option.splits if_splits)
    next
      case False
      then have "run_state (max_balance_attempts (get_balance en pda) poll enough n (Some ?m)) (tr @ ?x # ?w) = (Ok b, tr')"
        using Suc.prems Inr by (cases "0 < n") (auto simp: run_simps map_err_def Let_def)
      from Suc.IH [OF this] obtain e where "tr' = (tr @ ?x # ?w) @ e" "balance_ok (Some ?m) b (balance_answers e)" by blast
      then show ?thesis using Inr
        by (intro exI [of _ "?x # ?w @ e"])
          (auto simp: balance_ok_def max_def split: option.splits if_splits)
    qed
  qed
qed


section \<open>What releases an entry\<close>

definition bad_preimage :: "htlc_escrow \<Rightarrow> bool" where
  "bad_preimage e \<longleftrightarrow> (case esc_preimage e of Some p \<Rightarrow> length p \<noteq> 32 | None \<Rightarrow> True)"

text \<open>
  Evidence that an entry is over: its ETH lock was claimed by us or read as terminal, its escrow
  was read as refunded or the watcher said so, or the escrow was claimed and the ETH can never be
  collected (no preimage, or no parseable swap id).
\<close>

definition eth_over :: "bytes32 option \<Rightarrow> interaction \<Rightarrow> bool" where
  "eth_over sid x \<longleftrightarrow>
     (\<exists>i. sid = Some i \<and> ((\<exists>p tx. x = XEthClaim i p (Inr tx)) \<or>
        (\<exists>hh. x = XEthGet i (Inr hh) \<and> htlc_swapState hh \<noteq> OPEN)))"

definition lez_over :: "bytes32 option \<Rightarrow> account_id \<Rightarrow> bytes32 \<Rightarrow> interaction \<Rightarrow> bool" where
  "lez_over sid pda h x \<longleftrightarrow>
     (\<exists>d e. x = XAccount pda (Inr d) \<and> decode_escrow_read h d = Ok (Some e) \<and>
        (esc_state e = Refunded \<or> (esc_state e = Claimed \<and> (sid = None \<or> bad_preimage e)))) \<or>
     (\<exists>secs a. x = XLezSelect secs (SelLezEvent (LezRefundedEv a))) \<or>
     (\<exists>secs a p. sid = None \<and> x = XLezSelect secs (SelLezEvent (LezClaimedEv a p)))"

definition entry_over :: "reconcile_run \<Rightarrow> lez_client \<Rightarrow> in_flight_swap \<Rightarrow> bytes32 \<Rightarrow> interaction \<Rightarrow> bool" where
  "entry_over rc c entry h x \<longleftrightarrow>
     eth_over (rc_parse_swap_id rc (ifs_swap_id entry)) x \<or>
     lez_over (rc_parse_swap_id rc (ifs_swap_id entry)) (escrow_pda (rc_env rc) c h) h x"

text \<open>
  Evidence for a wedge: the escrow read as locked, then its balance read at least once and
  always below the amount, then the escrow read as locked again, and its time lock reached by
  the clock.
\<close>

definition wedged :: "account_id \<Rightarrow> bytes32 \<Rightarrow> trace \<Rightarrow> bool" where
  "wedged pda h us \<longleftrightarrow>
     (\<exists>u0 u1 u2 u3 now v1 v2 e1 e2 b. us = u0 @ u1 @ u2 @ u3 @ [XNow now] \<and>
        escrow_reads pda h u1 = v1 @ [Some (Some e1)] \<and> esc_state e1 = Locked \<and>
        Inr b \<in> set (balance_answers u2) \<and> (\<forall>b'. Inr b' \<in> set (balance_answers u2) \<longrightarrow> b' < esc_amount e2) \<and>
        escrow_reads pda h u3 = v2 @ [Some (Some e2)] \<and> esc_state e2 = Locked \<and> esc_timelock e2 \<le> now * 1000)"

lemma wedged_prefix: "wedged pda h us \<Longrightarrow> wedged pda h (q @ us)"
  unfolding wedged_def by (metis append_assoc)

definition removed :: "reconcile_run \<Rightarrow> lez_client \<Rightarrow> in_flight_swap \<Rightarrow> bytes32 \<Rightarrow> trace \<Rightarrow> bool" where
  "removed rc c entry h e \<longleftrightarrow>
     (\<exists>us ws. e = us @ XClear (ifs_hashlock entry) # ws \<and> list_all stays us \<and> list_all stays ws \<and>
        list_ex (entry_over rc c entry h) us)"

definition wedge_parked :: "reconcile_run \<Rightarrow> lez_client \<Rightarrow> in_flight_swap \<Rightarrow> bytes32 \<Rightarrow> trace \<Rightarrow> bool" where
  "wedge_parked rc c entry h e \<longleftrightarrow>
     (\<exists>us reason. e = us @ [XQuarantine (ifs_hashlock entry) reason,
          XOpsTerminal (ifs_hashlock entry) (RsFailed FcPartialLockWedge)] \<and>
        list_all stays us \<and> wedged (escrow_pda (rc_env rc) c h) h us)"

definition released :: "reconcile_run \<Rightarrow> lez_client \<Rightarrow> in_flight_swap \<Rightarrow> bytes32 \<Rightarrow> trace \<Rightarrow> bool" where
  "released rc c entry h e \<longleftrightarrow> list_all stays e \<or> removed rc c entry h e \<or> wedge_parked rc c entry h e"

lemma released_kept: "list_all stays e \<Longrightarrow> released rc c entry h e"
  by (simp add: released_def)

lemma released_prefix:
  assumes "released rc c entry h e" "list_all stays q"
  shows "released rc c entry h (q @ e)"
proof -
  have "removed rc c entry h (q @ e)" if "removed rc c entry h e"
  proof -
    from that obtain us ws where "e = us @ XClear (ifs_hashlock entry) # ws" "list_all stays us" "list_all stays ws"
      "list_ex (entry_over rc c entry h) us" unfolding removed_def by blast
    then show ?thesis using assms(2) unfolding removed_def
      by (intro exI [of _ "q @ us"] exI [of _ ws]) simp
  qed
  moreover have "wedge_parked rc c entry h (q @ e)" if "wedge_parked rc c entry h e"
  proof -
    from that obtain us reason where "e = us @ [XQuarantine (ifs_hashlock entry) reason,
          XOpsTerminal (ifs_hashlock entry) (RsFailed FcPartialLockWedge)]" "list_all stays us"
      "wedged (escrow_pda (rc_env rc) c h) h us" unfolding wedge_parked_def by blast
    then show ?thesis using assms(2) wedged_prefix unfolding wedge_parked_def
      by (intro exI [of _ "q @ us"] exI [of _ reason]) simp
  qed
  ultimately show ?thesis using assms unfolding released_def by auto
qed

lemma released_remove:
  "list_all stays us \<Longrightarrow> list_ex (entry_over rc c entry h) us \<Longrightarrow> list_all stays ws \<Longrightarrow>
   released rc c entry h (us @ XClear (ifs_hashlock entry) # ws)"
  unfolding released_def removed_def by blast

section \<open>The stages of an entry\<close>

lemma run_call [run_simps]: "run_state (call x) tr = ((), tr @ [x])"
  by (simp add: call_def run_ext)

lemma run_store [run_simps]:
  "run_state (store_remove h) tr = ((), tr @ [XClear h])"
  "run_state (store_quarantine h r) tr = ((), tr @ [XQuarantine h r])"
  "run_state (ops_terminal h st) tr = ((), tr @ [XOpsTerminal h st])"
  by (simp_all add: store_remove_def store_quarantine_def ops_terminal_def run_call)

lemma emits_stays_client: "emits stays (eth_client_new se en cfg)"
  by (rule emits_eth_client_new) simp_all

lemma emits_claim_eth: "emits stays (claim_eth rc sid p)"
proof -
  have "emits stays (claim_eth_open en i p)" for en i
    unfolding claim_eth_open_def eth_claim_def
    by (auto intro!: emits_intros split: res.splits)
  then show ?thesis unfolding claim_eth_def
    by (auto intro!: emits_intros emits_stays_client split: option.splits res.splits)
qed

lemma claim_eth_over:
  assumes "run_state (claim_eth rc s p) tr = (Ok out, tr')" "\<not> retain_after_eth_claim out"
    "rc_parse_swap_id rc s = Some i" "tr' = tr @ e"
  shows "list_ex (eth_over (Some i)) e"
proof -
  obtain cl tr1 where cl: "run_state (eth_client_new (rc_signer_err rc) (rc_env rc) (rc_config rc)) tr = (cl, tr1)"
    by fastforce
  obtain q where q: "tr1 = tr @ q" using emits_prefix [OF emits_stays_client cl] by blast
  obtain ec where ec: "cl = Ok ec"
    using assms cl by (cases cl) (auto simp: claim_eth_def retain_after_eth_claim_def)
  let ?g = "a_eth_get (rc_env rc) tr1 i"
  have run: "run_state (claim_eth_open (rc_env rc) i p) tr1 = (Ok out, tr')"
    using assms cl ec by (simp add: claim_eth_def)
  show ?thesis
  proof (cases "\<exists>hh. ?g = Inr hh \<and> htlc_swapState hh \<noteq> OPEN")
    case True
    then show ?thesis using run assms(4) q by (auto simp: claim_eth_open_def run_simps map_err_def eth_over_def)
  next
    case False
    let ?tr2 = "tr1 @ [XEthGet i ?g]"
    let ?c = "a_eth_claim (rc_env rc) ?tr2 i p"
    show ?thesis
    proof (cases ?c)
      case (Inr tx)
      then show ?thesis using run assms(4) q False
        by (cases ?g) (auto simp: claim_eth_open_def run_simps map_err_def eth_over_def)
    next
      case (Inl m)
      let ?tr3 = "?tr2 @ [XEthClaim i p ?c]"
      have "\<exists>hh. a_eth_get (rc_env rc) ?tr3 i = Inr hh \<and> htlc_swapState hh = CLAIMED"
        using run assms(2) False Inl
        by (cases ?g; cases "a_eth_get (rc_env rc) ?tr3 i")
          (auto simp: claim_eth_open_def run_simps map_err_def retain_after_eth_claim_def split: if_splits)
      then show ?thesis using run assms(4) q False Inl
        by (cases ?g) (auto simp: claim_eth_open_def run_simps map_err_def eth_over_def)
    qed
  qed
qed

text \<open>
  A stage that is entered with some evidence \<open>ev\<close> on the trace before it, and after whatever
  came before, releases the entry only with evidence.
\<close>

definition safe_stage ::
  "reconcile_run \<Rightarrow> lez_client \<Rightarrow> in_flight_swap \<Rightarrow> bytes32 \<Rightarrow> (trace \<Rightarrow> bool) \<Rightarrow> 'a rio \<Rightarrow> bool" where
  "safe_stage rc c entry h ev p \<longleftrightarrow>
     (\<forall>tr. \<exists>e. snd (run_state p tr) = tr @ e \<and>
        (\<forall>us. list_all stays us \<longrightarrow> ev us \<longrightarrow> released rc c entry h (us @ e)))"

lemma safe_stays: "emits stays p \<Longrightarrow> safe_stage rc c entry h ev p"
  unfolding safe_stage_def emits_def by (metis list_all_append released_kept)

lemma safe_remove:
  assumes "\<And>us. ev us \<Longrightarrow> list_ex (entry_over rc c entry h) us"
  shows "safe_stage rc c entry h ev (do { store_remove (ifs_hashlock entry);
     ops_terminal (ifs_hashlock entry) st; ret v })"
  using assms by (auto simp: safe_stage_def run_simps intro!: released_remove)


lemma safe_mono: "safe_stage rc c entry h ev p \<Longrightarrow> (\<And>us. ev' us \<Longrightarrow> ev us) \<Longrightarrow> safe_stage rc c entry h ev' p"
  unfolding safe_stage_def by meson

lemma safe_any: "safe_stage rc c entry h (\<lambda>_. True) p \<Longrightarrow> safe_stage rc c entry h ev p"
  by (erule safe_mono) simp

lemma safe_if: "safe_stage rc c entry h ev p \<Longrightarrow> safe_stage rc c entry h ev q \<Longrightarrow>
  safe_stage rc c entry h ev (if b then p else q)"
  by simp

lemma safe_bind:
  assumes "emits stays m"
    "\<And>tr a q. run_state m tr = (a, tr @ q) \<Longrightarrow> safe_stage rc c entry h (\<lambda>us. \<exists>u. us = u @ q \<and> ev u) (f a)"
  shows "safe_stage rc c entry h ev (m \<bind> f)"
proof -
  have "\<exists>e. snd (run_state (m \<bind> f) tr) = tr @ e \<and>
      (\<forall>us. list_all stays us \<longrightarrow> ev us \<longrightarrow> released rc c entry h (us @ e))" for tr
  proof -
    obtain a tr1 where m: "run_state m tr = (a, tr1)" by fastforce
    obtain q where q: "tr1 = tr @ q" "list_all stays q" using emits_prefix [OF assms(1) m] by blast
    obtain e where e: "snd (run_state (f a) tr1) = tr1 @ e"
      "\<And>us. list_all stays us \<Longrightarrow> (\<exists>u. us = u @ q \<and> ev u) \<Longrightarrow> released rc c entry h (us @ e)"
      using assms(2) [OF m [unfolded q(1)]] unfolding safe_stage_def by metis
    have "released rc c entry h (us @ q @ e)" if "list_all stays us" "ev us" for us
      using e(2) [of "us @ q"] that q(2) by auto
    then show ?thesis using m e(1) q(1) by (intro exI [of _ "q @ e"]) simp
  qed
  then show ?thesis by (simp add: safe_stage_def)
qed

lemma safe_tryM:
  assumes "emits stays m"
    "\<And>tr a q. run_state m tr = (Ok a, tr @ q) \<Longrightarrow> safe_stage rc c entry h (\<lambda>us. \<exists>u. us = u @ q \<and> ev u) (f a)"
  shows "safe_stage rc c entry h ev (tryM m f)"
  unfolding tryM_def
proof (rule safe_bind [OF assms(1)])
  fix tr r q assume "run_state m tr = (r, tr @ q)"
  then show "safe_stage rc c entry h (\<lambda>us. \<exists>u. us = u @ q \<and> ev u)
      (case r of Ok a \<Rightarrow> f a | Err e \<Rightarrow> ret (Err e) | Panic p \<Rightarrow> ret (Panic p) | Pending \<Rightarrow> ret Pending)"
    using assms(2) by (cases r) (auto intro: safe_stays emits_ret)
qed

lemma safe_tryM_ret:
  assumes "safe_stage rc c entry h ev m"
  shows "safe_stage rc c entry h ev (tryM m (\<lambda>a. ret (g a)))"
proof -
  have "snd (run_state (tryM m (\<lambda>a. ret (g a))) tr) = snd (run_state m tr)" for tr
    by (auto simp: run_tryM split: prod.splits res.splits)
  then show ?thesis using assms by (simp add: safe_stage_def)
qed

definition lost_id :: "reconcile_run \<Rightarrow> lez_client \<Rightarrow> in_flight_swap \<Rightarrow> bytes32 \<Rightarrow> trace \<Rightarrow> bool" where
  "lost_id rc c entry h us \<longleftrightarrow>
     (rc_parse_swap_id rc (ifs_swap_id entry) = None \<longrightarrow> list_ex (entry_over rc c entry h) us)"

lemma claim_over_or_lost:
  assumes "run_state (claim_eth rc (ifs_swap_id entry) p) tr = (Ok out, tr @ q)" "\<not> retain_after_eth_claim out"
    "lost_id rc c entry h u"
  shows "list_ex (entry_over rc c entry h) (u @ q)"
proof (cases "rc_parse_swap_id rc (ifs_swap_id entry)")
  case None
  then show ?thesis using assms(3) by (simp add: lost_id_def)
next
  case (Some i)
  from claim_eth_over [OF assms(1,2) Some refl] show ?thesis
    using Some by (auto simp: list_ex_iff entry_over_def)
qed

lemma safe_settle_claim: "safe_stage rc c entry h (lost_id rc c entry h) (settle_claim rc entry p)"
  unfolding settle_claim_def
proof (rule safe_tryM [OF emits_claim_eth])
  fix tr out q assume run: "run_state (claim_eth rc (ifs_swap_id entry) p) tr = (Ok out, tr @ q)"
  show "safe_stage rc c entry h (\<lambda>us. \<exists>u. us = u @ q \<and> lost_id rc c entry h u)
      (if retain_after_eth_claim out then ret (Ok ())
       else do { store_remove (ifs_hashlock entry); ops_terminal (ifs_hashlock entry) RsCompleted; ret (Ok ()) })"
  proof (cases "retain_after_eth_claim out")
    case False
    then have "safe_stage rc c entry h (\<lambda>us. \<exists>u. us = u @ q \<and> lost_id rc c entry h u)
        (do { store_remove (ifs_hashlock entry); ops_terminal (ifs_hashlock entry) RsCompleted; ret (Ok ()) })"
      by (intro safe_remove) (auto dest: claim_over_or_lost [OF run])
    then show ?thesis using False by simp
  qed (simp add: safe_stays emits_ret)
qed

text \<open>The escrow was read in a final state.\<close>

definition read_as :: "reconcile_run \<Rightarrow> lez_client \<Rightarrow> bytes32 \<Rightarrow> htlc_escrow \<Rightarrow> trace \<Rightarrow> bool" where
  "read_as rc c h e us \<longleftrightarrow> (\<exists>d. XAccount (escrow_pda (rc_env rc) c h) (Inr d) \<in> set us \<and> decode_escrow_read h d = Ok (Some e))"

lemma read_as_append [simp]: "read_as rc c h e us \<Longrightarrow> read_as rc c h e (q @ us @ w)"
  by (auto simp: read_as_def)

lemma read_as_over:
  assumes "read_as rc c h e us"
    "esc_state e = Refunded \<or> (esc_state e = Claimed \<and> (rc_parse_swap_id rc (ifs_swap_id entry) = None \<or> bad_preimage e))"
  shows "list_ex (entry_over rc c entry h) us"
proof -
  from assms(1) obtain d where d: "XAccount (escrow_pda (rc_env rc) c h) (Inr d) \<in> set us"
    "decode_escrow_read h d = Ok (Some e)" by (auto simp: read_as_def)
  then have "entry_over rc c entry h (XAccount (escrow_pda (rc_env rc) c h) (Inr d))"
    using assms(2) by (auto simp: entry_over_def lez_over_def)
  then show ?thesis using d(1) by (auto simp: list_ex_iff)
qed

lemma safe_recover:
  assumes "esc_state e = Claimed"
  shows "safe_stage rc c entry h (read_as rc c h e) (recover_claimed_escrow rc entry e)"
proof -
  have lost: "lost_id rc c entry h us" if "read_as rc c h e us" for us
    using that assms read_as_over [OF that] by (auto simp: lost_id_def)
  have drop: "safe_stage rc c entry h (read_as rc c h e) (do { store_remove (ifs_hashlock entry);
      ops_terminal (ifs_hashlock entry) st; ret v })" if "bad_preimage e" for st and v :: "(swap_error, unit) res"
    using read_as_over that assms by (intro safe_remove) blast
  show ?thesis
    using safe_mono [OF safe_settle_claim lost] drop
    by (auto simp: recover_claimed_escrow_def bad_preimage_def split: option.splits)
qed

lemma emits_refund_stays: "emits stays (refund_confirmed n en c h)"
  by (rule emits_refund_confirmed) (auto simp: quiet_stays)

lemma refund_read_as:
  assumes "run_state (refund_confirmed n (rc_env rc) c h) tr = (Ok out, tr @ q)"
  shows "\<exists>e. read_as rc c h e q \<and> refund_evidence e out"
proof -
  from refund_confirmed_read [OF assms] obtain e d x where
    "tr @ q = tr @ e @ [XAccount (escrow_pda (rc_env rc) c h) (Inr d)]"
    "decode_escrow_read h d = Ok (Some x)" "refund_evidence x out" by blast
  then show ?thesis by (intro exI [of _ x]) (auto simp: read_as_def)
qed

lemma safe_refund_expired: "safe_stage rc c entry h (\<lambda>_. True) (refund_expired fuel rc c entry h)"
  unfolding refund_expired_def
proof (rule safe_bind [OF emits_refund_stays])
  fix tr r q assume run: "run_state (refund_confirmed fuel (rc_env rc) c h) tr = (r, tr @ q)"
  show "safe_stage rc c entry h (\<lambda>us. \<exists>u. us = u @ q \<and> True)
      (case r of
        Ok (RoRefunded tx) \<Rightarrow> do {
          store_remove (ifs_hashlock entry); ops_terminal (ifs_hashlock entry) RsRefunded; ret (Ok ()) }
      | Ok (RoClaimedByTaker preimage) \<Rightarrow> settle_claim rc entry preimage
      | Err e \<Rightarrow> ret (Ok ())
      | Panic m \<Rightarrow> ret (Panic m)
      | Pending \<Rightarrow> ret Pending)"
  proof (cases r)
    case (Ok out)
    from refund_read_as [OF run [unfolded Ok]] obtain e where e: "read_as rc c h e q" "refund_evidence e out" by blast
    have seen: "read_as rc c h e (u @ q)" for u using read_as_append [OF e(1), of u "[]"] by simp
    show ?thesis
    proof (cases out)
      case (RoRefunded tx)
      then show ?thesis using Ok e(2) read_as_over [OF seen]
        by (auto intro!: safe_remove)
    next
      case (RoClaimedByTaker p)
      then have "lost_id rc c entry h (u @ q)" for u using e(2) read_as_over [OF seen] by (simp add: lost_id_def)
      then show ?thesis using Ok RoClaimedByTaker
        by (auto intro!: safe_mono [OF safe_settle_claim])
    qed
  qed (simp_all add: safe_stays emits_ret)
qed


section \<open>A suspected wedge\<close>

lemma escrow_reads_some:
  "Some (Some e) \<in> set (escrow_reads pda h us) \<Longrightarrow>
   \<exists>d. XAccount pda (Inr d) \<in> set us \<and> decode_escrow_read h d = Ok (Some e)"
proof (induction pda h us rule: escrow_reads.induct)
  case (2 pda h a ans tr)
  then show ?case by (cases ans) (auto split: if_splits res.splits)
qed auto

lemma escrow_reads_read_as:
  "Some (Some e) \<in> set (escrow_reads (escrow_pda (rc_env rc) c h) h us) \<Longrightarrow> read_as rc c h e us"
  using escrow_reads_some by (simp add: read_as_def)

lemma bounded_read:
  assumes "run_state (read_escrow_bounded (rc_env rc) c h) tr = (Ok rd, tr @ q)"
  shows "bounded_ok 5 False rd (escrow_reads (escrow_pda (rc_env rc) c h) h q)"
  using read_attempts_trace [of "rc_env rc" c h "lc_poll_interval c" 5 False 0 tr rd "tr @ q"] assms
  by (simp add: read_escrow_bounded_def read_escrow_bounded_with_def max_reads_def)

lemma bounded_read_some:
  assumes "run_state (read_escrow_bounded (rc_env rc) c h) tr = (Ok rd, tr @ q)" "br_escrow rd = Some e"
  shows "read_as rc c h e q" "\<exists>vs. escrow_reads (escrow_pda (rc_env rc) c h) h q = vs @ [Some (Some e)]"
  using bounded_read [OF assms(1)] assms(2) by (auto simp: bounded_ok_def intro: escrow_reads_read_as)

lemma max_balance_read:
  assumes "run_state (max_escrow_balance en c pda enough) tr = (Ok b, tr @ q)"
  shows "balance_ok None b (balance_answers q)"
  using max_balance_trace [of en pda "lc_poll_interval c" enough 5 None tr b "tr @ q"] assms
  by (simp add: max_escrow_balance_def max_escrow_balance_with_def max_reads_def)

lemma classify_quarantine:
  "classify_wedge_reread pre b post now_ms t amt = WdQuarantine \<longleftrightarrow>
     pre = Some Locked \<and> post = Some Locked \<and> t \<le> now_ms \<and> (\<exists>v. b = Some v \<and> v < amt)"
  by (auto simp: classify_wedge_reread_def is_partial_lock_wedge_def split: option.splits htlc_state.splits if_splits)

lemma classify_dropped:
  "classify_wedge_reread pre b post now_ms t amt = WdDropped \<Longrightarrow> post = Some Refunded"
  by (auto simp: classify_wedge_reread_def split: option.splits htlc_state.splits if_splits)

lemma claimed_read_Some:
  "claimed_read post pre = Some e \<Longrightarrow> esc_state e = Claimed \<and> (post = Some e \<or> pre = Some e)"
  by (auto simp: claimed_read_def split: option.splits if_splits)

lemma safe_park:
  assumes "\<And>us. ev us \<Longrightarrow> wedged (escrow_pda (rc_env rc) c h) h us"
  shows "safe_stage rc c entry h ev (do { store_quarantine (ifs_hashlock entry) reason;
     ops_terminal (ifs_hashlock entry) (RsFailed FcPartialLockWedge); ret v })"
  using assms by (auto simp: safe_stage_def run_simps released_def wedge_parked_def)

lemma emits_now_ms: "emits stays (now_unix_ms en)"
  unfolding now_unix_ms_def by (intro emits_intros) simp_all

lemma run_now_ms [run_simps]: "run_state (now_unix_ms en) tr = (a_now en tr * 1000, tr @ [XNow (a_now en tr)])"
  by (simp add: now_unix_ms_def run_simps)

lemma emits_bounded_stays: "emits stays (read_escrow_bounded en c h)"
  by (rule emits_weaken [OF emits_bounded]) (rule quiet_stays)

lemma emits_max_stays: "emits stays (max_escrow_balance en c pda enough)"
  by (rule emits_weaken [OF emits_max_escrow_balance]) (rule quiet_stays)

text \<open>The decision on the fresh triple, after the three reads and the clock.\<close>

lemma safe_wedge_decision:
  fixes pre_read post_read
  assumes q1: "run_state (read_escrow_bounded (rc_env rc) c h) tr1 = (Ok pre_read, tr1 @ q1)"
    and q2: "run_state (max_escrow_balance (rc_env rc) c (escrow_pda (rc_env rc) c h) enough) tr2 = (Ok b, tr2 @ q2)"
    and q3: "run_state (read_escrow_bounded (rc_env rc) c h) tr3 = (Ok post_read, tr3 @ q3)"
    and amt: "\<And>e. br_escrow post_read = Some e \<Longrightarrow> amt = esc_amount e"
    and tm: "\<And>e. br_escrow post_read = Some e \<Longrightarrow> t = esc_timelock e"
  shows "safe_stage rc c entry h (\<lambda>us. \<exists>u. us = u @ q1 @ q2 @ q3 @ [XNow now])
     (wedge_decision rc entry (br_escrow pre_read) b (br_escrow post_read) (now * 1000) t amt)"
proof (cases "classify_wedge_reread (map_option esc_state (br_escrow pre_read)) b
    (map_option esc_state (br_escrow post_read)) (now * 1000) t amt")
  case WdQuarantine
  then obtain e1 e2 v where e: "br_escrow pre_read = Some e1" "esc_state e1 = Locked"
    "br_escrow post_read = Some e2" "esc_state e2 = Locked" "b = Some v" "v < amt" "t \<le> now * 1000"
    by (auto simp: classify_quarantine)
  have bal: "Inr v \<in> set (balance_answers q2)" "\<forall>x. Inr x \<in> set (balance_answers q2) \<longrightarrow> x < esc_amount e2"
    using max_balance_read [OF q2] e(5,6) amt [OF e(3)] by (auto simp: balance_ok_def dest: order.strict_trans1)
  obtain v1 v2 where v: "escrow_reads (escrow_pda (rc_env rc) c h) h q1 = v1 @ [Some (Some e1)]"
    "escrow_reads (escrow_pda (rc_env rc) c h) h q3 = v2 @ [Some (Some e2)]"
    using bounded_read_some(2) [OF q1 e(1)] bounded_read_some(2) [OF q3 e(3)] by blast
  have "wedged (escrow_pda (rc_env rc) c h) h (u @ q1 @ q2 @ q3 @ [XNow now])" for u
    unfolding wedged_def using v bal e(2,4,7) tm [OF e(3)] by blast
  then show ?thesis by (auto simp: wedge_decision_def WdQuarantine intro!: safe_park)
next
  case WdRecoverClaimed
  show ?thesis
  proof (cases "claimed_read (br_escrow post_read) (br_escrow pre_read)")
    case (Some e)
    from claimed_read_Some [OF this] have cl: "esc_state e = Claimed"
      "br_escrow post_read = Some e \<or> br_escrow pre_read = Some e" by auto
    have "read_as rc c h e (u @ q1 @ q2 @ q3 @ [XNow now])" for u
      using cl(2) bounded_read_some(1) [OF q1, of e] bounded_read_some(1) [OF q3, of e]
      by (auto simp: read_as_def)
    then show ?thesis
      by (auto simp: wedge_decision_def WdRecoverClaimed Some intro!: safe_mono [OF safe_recover [OF cl(1)]])
  qed (simp add: wedge_decision_def WdRecoverClaimed safe_stays emits_ret)
next
  case WdDropped
  then obtain e where e: "br_escrow post_read = Some e" "esc_state e = Refunded" by (auto dest: classify_dropped)
  have "read_as rc c h e (u @ q1 @ q2 @ q3 @ [XNow now])" for u
    using bounded_read_some(1) [OF q3 e(1)] by (auto simp: read_as_def)
  then show ?thesis using e(2) by (auto simp: wedge_decision_def WdDropped intro!: safe_remove dest: read_as_over)
next
  case WdRetain
  then show ?thesis by (simp add: wedge_decision_def safe_stays emits_ret)
qed

lemma safe_recheck: "safe_stage rc c entry h (\<lambda>_. True) (recheck_wedge rc c entry h escrow)"
  unfolding recheck_wedge_def Let_def
proof (intro safe_tryM [OF emits_bounded_stays] safe_tryM [OF emits_max_stays] safe_bind [OF emits_now_ms])
  fix tr1 pre_read q1 tr2 b q2 tr3 post_read q3 tr4 now_ms q4
  assume "run_state (read_escrow_bounded (rc_env rc) c h) tr1 = (Ok pre_read, tr1 @ q1)"
    and "run_state (max_escrow_balance (rc_env rc) c (escrow_pda (rc_env rc) c h)
          (field_or esc_amount (br_escrow pre_read) (esc_amount escrow))) tr2 = (Ok b, tr2 @ q2)"
    and "run_state (read_escrow_bounded (rc_env rc) c h) tr3 = (Ok post_read, tr3 @ q3)"
    and r4: "run_state (now_unix_ms (rc_env rc)) tr4 = (now_ms, tr4 @ q4)"
  note dec = safe_wedge_decision [OF this(1-3)]
  have q4: "now_ms = a_now (rc_env rc) tr4 * 1000" "q4 = [XNow (a_now (rc_env rc) tr4)]"
    using r4 by (simp_all add: run_simps)
  show "safe_stage rc c entry h
      (\<lambda>us. \<exists>u. us = u @ q4 \<and> (\<exists>ua. u = ua @ q3 \<and> (\<exists>u. ua = u @ q2 \<and> (\<exists>ua. u = ua @ q1 \<and> True))))
      (wedge_decision rc entry (br_escrow pre_read) b (br_escrow post_read) now_ms
        (field_or esc_timelock (br_escrow post_read) (field_or esc_timelock (br_escrow pre_read) (esc_timelock escrow)))
        (field_or esc_amount (br_escrow post_read) (field_or esc_amount (br_escrow pre_read) (esc_amount escrow))))"
    unfolding q4(1) by (rule safe_mono [OF dec]) (auto simp: field_or_def q4(2))
qed

section \<open>The trace of an entry\<close>

lemma safe_locked: "safe_stage rc c entry h (\<lambda>_. True) (reconcile_locked fuel rc c entry h escrow)"
  unfolding reconcile_locked_def Let_def
proof (rule safe_tryM [OF emits_max_stays])
  fix b q
  show "safe_stage rc c entry h (\<lambda>us. \<exists>u. us = u @ q \<and> True)
     (case b of
          None \<Rightarrow> ret (Ok None)
        | Some balance \<Rightarrow> do {
            now_ms \<leftarrow> now_unix_ms (rc_env rc);
            if is_partial_lock_wedge (esc_state escrow) now_ms (esc_timelock escrow) balance (esc_amount escrow)
            then tryM (recheck_wedge rc c entry h escrow) (\<lambda>_. ret (Ok None))
            else do {
              now_ms2 \<leftarrow> now_unix_ms (rc_env rc);
              if esc_timelock escrow \<le> now_ms2
              then tryM (refund_expired fuel rc c entry h) (\<lambda>_. ret (Ok None))
              else ret (Ok (Some (esc_timelock escrow))) } })"
  proof (cases b)
    case (Some balance)
    show ?thesis unfolding Some option.case
      by (intro safe_bind [OF emits_now_ms] safe_if safe_tryM_ret safe_any [OF safe_recheck]
          safe_any [OF safe_refund_expired] safe_stays [OF emits_ret])
  qed (simp add: safe_stays emits_ret)
qed

lemma safe_present: "safe_stage rc c entry h (read_as rc c h escrow) (reconcile_present fuel rc c entry h escrow)"
  unfolding reconcile_present_def Let_def
proof (rule safe_bind)
  show "emits stays (if stage entry = PreLock then call (XFunded (ifs_hashlock entry)) else ret ())"
    by (auto simp: call_def intro!: emits_intros)
next
  fix q
  have seen: "read_as rc c h escrow (u @ q)" if "read_as rc c h escrow u" for u
    using read_as_append [OF that, of "[]" q] by simp
  show "safe_stage rc c entry h (\<lambda>us. \<exists>u. us = u @ q \<and> read_as rc c h escrow u)
     (case esc_state escrow of
         Claimed \<Rightarrow> tryM (recover_claimed_escrow rc entry escrow) (\<lambda>_. ret (Ok None))
       | Refunded \<Rightarrow> do { store_remove (ifs_hashlock entry); ops_terminal (ifs_hashlock entry) RsRefunded; ret (Ok None) }
       | Locked \<Rightarrow> reconcile_locked fuel rc c entry h escrow)"
  proof (cases "esc_state escrow")
    case Claimed
    have "safe_stage rc c entry h (\<lambda>us. \<exists>u. us = u @ q \<and> read_as rc c h escrow u)
        (tryM (recover_claimed_escrow rc entry escrow) (\<lambda>_. ret (Ok None)))"
      by (rule safe_mono [OF safe_tryM_ret [OF safe_recover [OF Claimed]]]) (blast intro: seen)
    then show ?thesis by (simp add: Claimed)
  next
    case Refunded
    have "safe_stage rc c entry h (\<lambda>us. \<exists>u. us = u @ q \<and> read_as rc c h escrow u)
        (do { store_remove (ifs_hashlock entry); ops_terminal (ifs_hashlock entry) RsRefunded; ret (Ok None) })"
      using read_as_over [OF seen] Refunded by (intro safe_remove) blast
    then show ?thesis by (simp add: Refunded)
  next
    case Locked
    then show ?thesis by (simp add: safe_any [OF safe_locked])
  qed
qed


definition retired :: "reconcile_run \<Rightarrow> lez_client \<Rightarrow> in_flight_swap \<Rightarrow> bytes32 \<Rightarrow> trace \<Rightarrow> bool" where
  "retired rc c entry h e \<longleftrightarrow> stage entry = PreLock \<and>
     (\<exists>us reason. e = us @ [XQuarantine (ifs_hashlock entry) reason,
          XOpsTerminal (ifs_hashlock entry) (RsFailed FcPreLockAbandoned)] \<and>
        list_all stays us \<and> escrow_reads (escrow_pda (rc_env rc) c h) h us = replicate 5 (Some None))"

text \<open>What may happen to one entry.\<close>

definition entry_trace :: "reconcile_run \<Rightarrow> lez_client \<Rightarrow> in_flight_swap \<Rightarrow> trace \<Rightarrow> bool" where
  "entry_trace rc c entry e \<longleftrightarrow>
     (case parse_hashlock_hex (rc_hex_decode rc) (ifs_hashlock entry) of
        None \<Rightarrow> e = [XClear (ifs_hashlock entry), XOpsTerminal (ifs_hashlock entry) (RsFailed FcCorruptEntry)]
      | Some h \<Rightarrow> released rc c entry h e \<or> retired rc c entry h e)"

lemma absent_trace:
  assumes "run_state (reconcile_absent entry rd) tr = (r, tr')" "br_escrow rd = None"
    and "bounded_ok 5 False rd (escrow_reads (escrow_pda (rc_env rc) c h) h us)" "list_all stays us"
  shows "\<exists>e. tr' = tr @ e \<and> (released rc c entry h (us @ e) \<or> retired rc c entry h (us @ e))"
proof (cases "classify_absent_escrow (stage entry) (br_any_err rd)")
  case RetirePreLock
  then have st: "stage entry = PreLock" "\<not> br_any_err rd"
    by (auto simp: classify_absent_escrow_def split: if_splits swap_stage.splits)
  have "escrow_reads (escrow_pda (rc_env rc) c h) h us = replicate 5 (Some None)"
  proof (rule replicate_eqI)
    fix y assume "y \<in> set (escrow_reads (escrow_pda (rc_env rc) c h) h us)"
    then show "y = Some None" using assms(2,3) st(2) by (auto simp: bounded_ok_def)
  qed (use assms(2,3) in \<open>simp add: bounded_ok_def\<close>)
  then show ?thesis using assms(1,4) RetirePreLock st(1)
    by (auto simp: reconcile_absent_def run_simps retired_def)
qed (use assms(1,4) in \<open>auto simp: reconcile_absent_def intro: released_kept\<close>)

lemma run_tryM_ret:
  "snd (run_state (tryM m (\<lambda>a. ret (g a))) tr) = snd (run_state m tr)"
  by (auto simp: run_tryM split: prod.splits res.splits)

lemma reconcile_entry_trace:
  assumes "run_state (reconcile_entry fuel rc c entry) tr = (r, tr')"
  shows "\<exists>e. tr' = tr @ e \<and> entry_trace rc c entry e"
proof (cases "parse_hashlock_hex (rc_hex_decode rc) (ifs_hashlock entry)")
  case None
  then show ?thesis using assms by (auto simp: reconcile_entry_def run_simps entry_trace_def)
next
  case (Some h)
  obtain b tr1 where b: "run_state (read_escrow_bounded (rc_env rc) c h) tr = (b, tr1)" by fastforce
  obtain us where us: "tr1 = tr @ us" "list_all stays us" using emits_prefix [OF emits_bounded_stays b] by blast
  have kept: "entry_trace rc c entry us" using us(2) Some by (simp add: entry_trace_def released_kept)
  show ?thesis
  proof (cases b)
    case (Ok rd)
    note bd = bounded_read [OF b [unfolded Ok us(1)]]
    show ?thesis
    proof (cases "br_escrow rd")
      case None
      obtain r2 tr2 where r2: "run_state (reconcile_absent entry rd) tr1 = (r2, tr2)" by fastforce
      have "tr' = tr2" using assms Some b Ok None r2
        run_tryM_ret [of "reconcile_absent entry rd"] by (simp add: reconcile_entry_def run_tryM split: res.splits)
      then show ?thesis using absent_trace [OF r2 None bd us(2)] us(1) Some by (auto simp: entry_trace_def)
    next
      case e: (Some escrow)
      let ?p = "reconcile_present fuel rc c entry h escrow"
      have "tr' = snd (run_state ?p tr1)" using assms Some b Ok e
        run_tryM_ret [of ?p] by (auto simp: reconcile_entry_def run_tryM split: res.splits prod.splits)
      moreover obtain w where "snd (run_state ?p tr1) = tr1 @ w" "released rc c entry h (us @ w)"
        using safe_present [of rc c entry h escrow fuel] bounded_read_some(1) [OF b [unfolded Ok us(1)] e] us(2)
        unfolding safe_stage_def by blast
      ultimately show ?thesis using us(1) Some by (auto simp: entry_trace_def)
    qed
  qed (use assms Some b us(1) kept in \<open>auto simp: reconcile_entry_def run_tryM\<close>)
qed

lemma reconcile_entries_trace:
  "run_state (reconcile_entries fuel rc c entries) tr = (r, tr') \<Longrightarrow>
   \<exists>es. tr' = tr @ concat es \<and> length es \<le> length entries \<and>
     list_all2 (entry_trace rc c) (take (length es) entries) es"
proof (induction entries arbitrary: tr r tr')
  case Nil
  then show ?case by auto
next
  case (Cons entry entries)
  obtain a tr1 where a: "run_state (reconcile_entry fuel rc c entry) tr = (a, tr1)" by fastforce
  obtain e where e: "tr1 = tr @ e" "entry_trace rc c entry e" using reconcile_entry_trace [OF a] by blast
  show ?case
  proof (cases a)
    case (Ok live)
    obtain r2 tr2 where r2: "run_state (reconcile_entries fuel rc c entries) tr1 = (r2, tr2)" by fastforce
    have "tr' = tr2" using Cons.prems a Ok r2 by (cases r2) (auto simp: run_tryM)
    with Cons.IH [OF r2] obtain es where "tr' = tr1 @ concat es" "length es \<le> length entries"
      "list_all2 (entry_trace rc c) (take (length es) entries) es" by blast
    then show ?thesis using e by (intro exI [of _ "e # es"]) auto
  qed (use Cons.prems a e in \<open>auto simp: run_tryM intro!: exI [of _ "[e]"]\<close>)
qed

text \<open>
  A whole pass: the traces of the entries one after the other, in the order of the snapshot,
  for the first entries (all of them, unless a step did not return).
\<close>

definition pass_trace :: "reconcile_run \<Rightarrow> in_flight_swap list \<Rightarrow> trace \<Rightarrow> bool" where
  "pass_trace rc entries e \<longleftrightarrow>
     e = [] \<or> (\<exists>c es. lez_client_new (rc_setup rc) (rc_config rc) = Ok c \<and> e = concat es \<and>
       length es \<le> length entries \<and> list_all2 (entry_trace rc c) (take (length es) entries) es)"

lemma reconcile_trace:
  assumes "run_state (reconcile fuel rc st) tr = (r, tr')"
  shows "\<exists>e. tr' = tr @ e \<and> pass_trace rc (snapshot st) e"
proof (cases "snapshot st = [] \<or> (\<nexists>c. lez_client_new (rc_setup rc) (rc_config rc) = Ok c)")
  case True
  then have "tr' = tr" using assms
    by (cases "lez_client_new (rc_setup rc) (rc_config rc)") (auto simp: reconcile_def split: if_splits)
  then show ?thesis by (simp add: pass_trace_def)
next
  case False
  then obtain c where c: "lez_client_new (rc_setup rc) (rc_config rc) = Ok c" by blast
  then have "run_state (reconcile_entries fuel rc c (snapshot st)) tr = (r, tr')"
    using assms False by (simp add: reconcile_def)
  from reconcile_entries_trace [OF this] c show ?thesis unfolding pass_trace_def by blast
qed

section \<open>The resumed task\<close>

lemma safe_resume_claim:
  assumes "\<And>us. ev us \<Longrightarrow> lost_id rc c entry h us"
    and "run_state (resume_claim rc entry p) tr = (r, tr')"
  shows "\<exists>e. tr' = tr @ e \<and> list_all stays e \<and>
    (r = Ok True \<longrightarrow> (\<forall>us. ev us \<longrightarrow> list_ex (entry_over rc c entry h) (us @ e)))"
proof -
  obtain a tr1 where a: "run_state (claim_eth rc (ifs_swap_id entry) p) tr = (a, tr1)" by fastforce
  obtain q where q: "tr1 = tr @ q" "list_all stays q" using emits_prefix [OF emits_claim_eth a] by blast
  show ?thesis
  proof (cases "\<exists>out. a = Ok out \<and> \<not> retain_after_eth_claim out")
    case True
    then obtain out where out: "a = Ok out" "\<not> retain_after_eth_claim out" by blast
    have "list_ex (entry_over rc c entry h) (us @ q @ w)" if "ev us" for us w
      using claim_over_or_lost [OF a [unfolded out(1) q(1)] out(2) assms(1) [OF that]] by auto
    then show ?thesis using assms(2) a out q
      by (intro exI [of _ "q @ [XOpsTerminal (ifs_hashlock entry) RsCompleted]"])
        (auto simp: resume_claim_def run_tryM run_simps)
  next
    case False
    then show ?thesis using assms(2) a q
      by (cases a) (auto simp: resume_claim_def run_tryM)
  qed
qed


text \<open>A step of the task: it stays, and asks for the removal only with evidence.\<close>

definition task_ok ::
  "reconcile_run \<Rightarrow> lez_client \<Rightarrow> in_flight_swap \<Rightarrow> bytes32 \<Rightarrow> (swap_error, bool) res \<Rightarrow> trace \<Rightarrow> bool" where
  "task_ok rc c entry h r e \<longleftrightarrow> list_all stays e \<and> (r = Ok True \<longrightarrow> list_ex (entry_over rc c entry h) e)"

lemma task_ok_prefix: "task_ok rc c entry h r e \<Longrightarrow> list_all stays q \<Longrightarrow> task_ok rc c entry h r (q @ e)"
  by (auto simp: task_ok_def)

lemma resume_claim_task:
  assumes "lost_id rc c entry h q" "list_all stays q" "run_state (resume_claim rc entry p) tr = (r, tr')"
  shows "\<exists>e. tr' = tr @ e \<and> task_ok rc c entry h r (q @ e)"
proof -
  have "lost_id rc c entry h us" if "us = q" for us using assms(1) that by simp
  from safe_resume_claim [where ev = "\<lambda>us. us = q", OF this assms(3)] obtain e where
    "tr' = tr @ e" "list_all stays e" "r = Ok True \<longrightarrow> list_ex (entry_over rc c entry h) (q @ e)" by blast
  then show ?thesis using assms(2) by (auto simp: task_ok_def)
qed

lemma resume_expired_trace:
  assumes "run_state (resume_expired fuel rc c entry h) tr = (r, tr')"
  shows "\<exists>e. tr' = tr @ e \<and> task_ok rc c entry h r e"
proof -
  obtain a tr1 where a: "run_state (refund_confirmed fuel (rc_env rc) c h) tr = (a, tr1)" by fastforce
  obtain q where q: "tr1 = tr @ q" "list_all stays q" using emits_prefix [OF emits_refund_stays a] by blast
  show ?thesis
  proof (cases a)
    case (Ok out)
    from refund_read_as [OF a [unfolded Ok q(1)]] obtain e where e: "read_as rc c h e q" "refund_evidence e out" by blast
    show ?thesis
    proof (cases out)
      case (RoRefunded tx)
      then have "list_ex (entry_over rc c entry h) q" using read_as_over [OF e(1)] e(2) by simp
      then show ?thesis using assms a Ok RoRefunded q
        by (intro exI [of _ "q @ [XOpsTerminal (ifs_hashlock entry) RsRefunded]"])
          (auto simp: resume_expired_def run_simps task_ok_def)
    next
      case (RoClaimedByTaker p)
      then have "lost_id rc c entry h q" using read_as_over [OF e(1)] e(2) by (simp add: lost_id_def)
      moreover have "run_state (resume_claim rc entry p) tr1 = (r, tr')"
        using assms a Ok RoClaimedByTaker by (simp add: resume_expired_def)
      ultimately show ?thesis using resume_claim_task [of rc c entry h q p tr1 r tr'] q by auto
    qed
  qed (use assms a q in \<open>auto simp: resume_expired_def task_ok_def\<close>)
qed

lemma resume_loop_trace:
  "run_state (resume_loop fuel n rc c entry h secs) tr = (r, tr') \<Longrightarrow>
   \<exists>e. tr' = tr @ e \<and> task_ok rc c entry h r e"
proof (induction n arbitrary: tr)
  case 0
  then show ?case by (auto simp: task_ok_def)
next
  case (Suc n)
  let ?sel = "a_lez_select (rc_env rc) tr (max secs 1)" let ?x = "XLezSelect (max secs 1) ?sel"
  have go: ?case if "\<exists>e. tr' = (tr @ [?x]) @ e \<and> task_ok rc c entry h r e"
    using that task_ok_prefix [of rc c entry h r _ "[?x]"] by fastforce
  show ?case
  proof (cases ?sel)
    case SelLezTimeout
    then have "run_state (resume_expired fuel rc c entry h) (tr @ [?x]) = (r, tr')"
      using Suc.prems by (simp add: run_simps Let_def)
    from resume_expired_trace [OF this] show ?thesis by (rule go)
  next
    case (SelLezEvent ev)
    show ?thesis
    proof (cases ev)
      case (LezLockedEv a)
      then have "run_state (resume_loop fuel n rc c entry h secs) (tr @ [?x]) = (r, tr')"
        using Suc.prems SelLezEvent by (simp add: run_simps Let_def)
      from Suc.IH [OF this] show ?thesis by (rule go)
    next
      case (LezRefundedEv a)
      then show ?thesis using Suc.prems SelLezEvent
        by (auto simp: run_simps Let_def task_ok_def entry_over_def lez_over_def
            intro!: exI [of _ "[?x, XOpsTerminal (ifs_hashlock entry) RsRefunded]"])
    next
      case (LezClaimedEv a p)
      show ?thesis
      proof (cases "length p = 32")
        case True
        have "lost_id rc c entry h [?x]" using SelLezEvent LezClaimedEv
          by (auto simp: lost_id_def entry_over_def lez_over_def)
        moreover have "run_state (resume_claim rc entry p) (tr @ [?x]) = (r, tr')"
          using Suc.prems SelLezEvent LezClaimedEv True by (simp add: run_simps Let_def)
        ultimately show ?thesis using resume_claim_task [of rc c entry h "[?x]" p "tr @ [?x]" r tr'] by fastforce
      qed (use Suc.prems SelLezEvent LezClaimedEv in \<open>auto simp: run_simps Let_def task_ok_def\<close>)
    qed
  qed
qed

lemma resume_swap_trace:
  assumes "run_state (resume_swap fuel rc (entry, h, timelock_ms)) tr = (r, tr')"
  shows "\<exists>e. tr' = tr @ e \<and> (e = [] \<or> (\<exists>c. lez_client_new (rc_setup rc) (rc_config rc) = Ok c \<and>
    released rc c entry h e))"
proof (cases "lez_client_new (rc_setup rc) (rc_config rc)")
  case (Ok c)
  let ?x = "XNow (a_now (rc_env rc) tr)" let ?secs = "sat_sub (timelock_ms div 1000) (a_now (rc_env rc) tr)"
  obtain a tr1 where a: "run_state (resume_loop fuel fuel rc c entry h ?secs) (tr @ [?x]) = (a, tr1)" by fastforce
  from resume_loop_trace [OF a] obtain e where e: "tr1 = (tr @ [?x]) @ e" "task_ok rc c entry h a e" by blast
  show ?thesis
  proof (cases "a = Ok True")
    case True
    then have "released rc c entry h ((?x # e) @ XClear (ifs_hashlock entry) # [])"
      using e(2) by (intro released_remove) (auto simp: task_ok_def)
    moreover have "tr' = tr @ (?x # e) @ [XClear (ifs_hashlock entry)]" using assms Ok a e(1) True
      by (simp add: resume_swap_def run_tryM run_simps)
    ultimately show ?thesis using Ok by blast
  next
    case False
    then have "tr' = tr @ ?x # e" using assms Ok a e(1)
      by (cases a) (auto simp: resume_swap_def run_tryM run_simps)
    then show ?thesis using Ok e(2) released_kept [of "?x # e"] by (auto simp: task_ok_def)
  qed
qed (use assms in \<open>simp_all add: resume_swap_def\<close>)

section \<open>The store after a pass\<close>

text \<open>
  The journal calls of a trace, applied to the store of \<open>Bot_Journal\<close>; \<open>io\<close> is the outcome of the
  file-system steps of each call, \<open>now\<close> the time it records.
\<close>

fun store_call :: "state_codec \<Rightarrow> (nat \<Rightarrow> persist_io \<times> u64) \<Rightarrow> nat \<Rightarrow> interaction \<Rightarrow> state_store \<Rightarrow> state_store" where
  "store_call js io k (XClear h) s = remove_swap js (fst (io k)) h s"
| "store_call js io k (XFunded h) s = mark_funded js (fst (io k)) h s"
| "store_call js io k (XQuarantine h reason) s = quarantine js (fst (io k)) (snd (io k)) h reason s"
| "store_call js io k _ s = s"

fun store_calls :: "state_codec \<Rightarrow> (nat \<Rightarrow> persist_io \<times> u64) \<Rightarrow> nat \<Rightarrow> trace \<Rightarrow> state_store \<Rightarrow> state_store" where
  "store_calls js io k [] s = s"
| "store_calls js io k (x # e) s = store_calls js io (Suc k) e (store_call js io k x s)"

definition releases_of :: "string \<Rightarrow> interaction \<Rightarrow> bool" where
  "releases_of h x \<longleftrightarrow> x = XClear h \<or> (\<exists>reason. x = XQuarantine h reason)"

lemma quarantine_keys: "keys (mem (quarantine js io now h reason s)) = filter (\<lambda>k. k \<noteq> h) (keys (mem s))"
  by (simp add: quarantine_def Let_def persist_logged_def keys_def filter_map o_def)

lemma contains_call:
  "contains h (store_call js io k x s) \<longleftrightarrow> contains h s \<and> \<not> releases_of h x"
  by (cases x) (auto simp: releases_of_def contains_keys remove_keys mark_funded_keys quarantine_keys)

lemma contains_calls:
  "contains h (store_calls js io k e s) \<longleftrightarrow> contains h s \<and> \<not> list_ex (releases_of h) e"
  by (induction e arbitrary: k s) (auto simp: contains_call)

lemma validate_ok_iff:
  "validate_timelocks l e m = Ok () \<longleftrightarrow>
     5 \<le> unat m \<and> min (min (unat l + unat m) (2 ^ 64 - 1) + 2) (2 ^ 64 - 1) \<le> unat e"
  by (auto simp: validate_timelocks_def Let_def word_le_nat_alt word_less_nat_alt unat_sat_add
      timelock_transit_slack_minutes_def)

lemma unat_minutes:
  "unat a * 60 < 2 ^ 64 \<Longrightarrow> unat (a * 60) = unat a * 60" for a :: u64
  by (simp add: unat_word_ariths)

section \<open>Properties\<close>

text \<open>
  C39. A configuration that \<open>validate_timelocks\<close> accepts does not stall honest trades: if the taker
  locks the ETH at its time \<open>t0\<close> for the configured minutes, and the maker looks at the lock at most
  two minutes later, then the maker's runtime gate accepts the time lock against the LEZ expiry it
  computes from its own clock.
\<close>

theorem accepted_timelocks_pass_gate:
  assumes "validate_timelocks lez_minutes eth_minutes margin_minutes = Ok ()"
    and "unat t0 + unat eth_minutes * 60 < 2 ^ 64" and "unat t1 \<le> unat t0 + 120"
  shows "eth_timelock_covers_lez (t0 + eth_minutes * 60) (fresh_lez_expiry_secs t1 (lez_minutes * 60))
           (margin_minutes * 60)"
proof -
  have le: "unat lez_minutes + unat margin_minutes + 2 \<le> unat eth_minutes"
    using assms(1,2) unfolding validate_ok_iff by (simp add: min_def split: if_splits)
  have "unat (t0 + eth_minutes * 60) = unat t0 + unat eth_minutes * 60"
    using assms(2) by (simp add: unat_word_ariths(1) unat_minutes)
  moreover have "unat (lez_minutes * 60) = unat lez_minutes * 60" "unat (margin_minutes * 60) = unat margin_minutes * 60"
    using le assms(2) by (intro unat_minutes; linarith)+
  ultimately show ?thesis using le assms(3)
    by (simp add: eth_timelock_covers_lez_def fresh_lez_expiry_secs_def word_le_nat_alt unat_sat_add)
qed

theorem accepted_timelocks_pass_gate_witness:
  "eth_timelock_covers_lez (1000 + loop_default_eth_timelock_minutes * 60)
     (fresh_lez_expiry_secs 1120 (loop_default_lez_timelock_minutes * 60)) (5 * 60)"
  by (rule accepted_timelocks_pass_gate)
    (simp_all add: validate_timelocks_def sat_add_def loop_default_lez_timelock_minutes_def
      loop_default_eth_timelock_minutes_def timelock_transit_slack_minutes_def)

text \<open>
  The fresh reads of a suspected wedge park the entry only when the escrow was read as locked
  before and after a balance below its amount, and its time lock has passed; a claimed escrow in
  either read goes to recovery, a refund in the last one is dropped, anything else is retained.
\<close>

lemma wedge_reread_decision:
  "(classify_wedge_reread pre balance post now_ms timelock_ms amount = WdQuarantine \<longleftrightarrow>
      pre = Some Locked \<and> post = Some Locked \<and> timelock_ms \<le> now_ms \<and> (\<exists>b. balance = Some b \<and> b < amount)) \<and>
   (classify_wedge_reread pre balance post now_ms timelock_ms amount = WdRecoverClaimed \<longleftrightarrow>
      pre = Some Claimed \<or> post = Some Claimed) \<and>
   (classify_wedge_reread pre balance post now_ms timelock_ms amount = WdDropped \<longleftrightarrow>
      pre \<noteq> Some Claimed \<and> post = Some Refunded)"
  by (auto simp: classify_wedge_reread_def is_partial_lock_wedge_def
      split: option.splits htlc_state.splits if_splits)

text \<open>
  C15. One startup pass over the journal: every interaction belongs to an entry, in the order of
  the snapshot. An entry is cleared or quarantined at most once, and only after evidence on the
  chain that it is over (the ETH claimed by us or read as terminal, the escrow read as refunded, or
  claimed with nothing to collect), a wedge found by the triple read, five absent reads of an entry
  that never funded, or an unparseable hash lock. The journal holds an entry after the pass
  exactly if it held it before and the pass has not released it.
\<close>

theorem reconcile_releases_with_evidence:
  "\<exists>e. snd (run_state (reconcile fuel rc st) tr) = tr @ e \<and> pass_trace rc (snapshot st) e \<and>
     (\<forall>h. contains h (store_calls js io 0 e st) \<longleftrightarrow> contains h st \<and> \<not> list_ex (releases_of h) e)"
  using reconcile_trace [of fuel rc st tr] contains_calls [where s = st]
  by (metis prod.collapse)

text \<open>
  C18. A resumed swap: its task removes the journal entry at most once, and only after the same
  evidence that the entry is over.
\<close>

theorem resume_swap_releases_with_evidence:
  "\<exists>e. snd (run_state (resume_swap fuel rc (entry, h, timelock_ms)) tr) = tr @ e \<and>
     (e = [] \<or> (\<exists>c. lez_client_new (rc_setup rc) (rc_config rc) = Ok c \<and> released rc c entry h e))"
  using resume_swap_trace [of fuel rc entry h timelock_ms tr] by (metis prod.collapse)

end
