(* ===== verification/Lez_Onboard.thy ===== *)
theory Lez_Onboard
  imports Lez_Client
begin

text \<open>
  Account creation, initialization and funding (\<open>src/lez/onboard.rs\<close>) and the faucet's proof of
  work (\<open>src/lez/faucet.rs\<close>). The errors of these modules are strings. The polling loops take the
  number of rounds they may run; a request under \<open>timeout_at\<close> first asks whether it elapsed.
\<close>

type_synonym 'a sio = "(trace, (string, 'a) res) state"

section \<open>Signers\<close>

record signer =
  sg_account_id :: account_id
  sg_signing_key :: bytes

definition sequencer_client :: "lez_setup \<Rightarrow> string \<Rightarrow> (string, unit) res" where
  "sequencer_client su url =
     (case su_url_error su url of
        Some e \<Rightarrow> Err (''invalid sequencer URL: '' @ e)
      | None \<Rightarrow> (case su_build_error su url of
                  Some e \<Rightarrow> Err (''failed to create sequencer client: '' @ e) | None \<Rightarrow> Ok ()))"

definition from_key_bytes :: "lez_setup \<Rightarrow> bytes \<Rightarrow> (string, signer) res" where
  "from_key_bytes su b =
     (case su_private_key su b of
        Inl e \<Rightarrow> Err (''invalid LEZ private key: '' @ e)
      | Inr key \<Rightarrow> Ok \<lparr> sg_account_id = su_account_of_key su key, sg_signing_key = key \<rparr>)"

definition max_keygen_attempts :: nat where "max_keygen_attempts = 8"

text \<open>\<open>random i\<close> is what the system's randomness answers at attempt \<open>i\<close>; \<open>n\<close> attempts are left.\<close>

fun generate_attempts :: "lez_setup \<Rightarrow> (nat \<Rightarrow> string + bytes) \<Rightarrow> nat \<Rightarrow> string \<Rightarrow> (string, signer) res" where
  "generate_attempts su random 0 last_err =
     Err (''failed to generate a valid LEZ signing key after 8 attempts: '' @ last_err)"
| "generate_attempts su random (Suc n) last_err =
     (case random (max_keygen_attempts - Suc n) of
        Inl e \<Rightarrow> Err (''failed to read system randomness: '' @ e)
      | Inr b \<Rightarrow>
          (case from_key_bytes su b of
             Err e \<Rightarrow> generate_attempts su random n e
           | r \<Rightarrow> r))"

definition generate_signer :: "lez_setup \<Rightarrow> (nat \<Rightarrow> string + bytes) \<Rightarrow> (string, signer) res" where
  "generate_signer su random = generate_attempts su random max_keygen_attempts []"

definition signer_from_raw_key :: "lez_setup \<Rightarrow> string \<Rightarrow> (string, signer) res" where
  "signer_from_raw_key su hex_key =
     (case su_hex_decode su (trim hex_key) of
        Inl e \<Rightarrow> Err (''invalid LEZ signing key hex: '' @ e)
      | Inr b \<Rightarrow> if length b = 32 then from_key_bytes su b else Err ''LEZ signing key must be 32 bytes'')"

text \<open>\<open>show_error\<close> prints the error of the wallet core.\<close>

definition signer_from_auth :: "lez_setup \<Rightarrow> (swap_error \<Rightarrow> string) \<Rightarrow> lez_auth \<Rightarrow> (string, signer) res" where
  "signer_from_auth su show_error auth =
     (case auth of
        RawKey hex_key \<Rightarrow> signer_from_raw_key su hex_key
      | Wallet home account_id \<Rightarrow>
          if \<not> su_wallet_feature su then
            Err ''scaffold wallet auth (LEZ_WALLET_HOME) requires a build with the scaffold-wallet cargo feature''
          else
            (case su_wallet_core su home of
               Ok (url, key_of) \<Rightarrow>
                 (case key_of account_id of
                    None \<Rightarrow> Err ''wallet has no signing key for account''
                  | Some key \<Rightarrow> Ok \<lparr> sg_account_id = account_id, sg_signing_key = key \<rparr>)
             | Err e \<Rightarrow> Err (''wallet home: '' @ show_error e)
             | Panic m \<Rightarrow> Panic m
             | Pending \<Rightarrow> Pending))"

section \<open>The faucet's proof of work\<close>

text \<open>The leftmost \<open>difficulty\<close> bytes of the digest are zero; the caller has \<open>difficulty \<le> 32\<close>.\<close>

definition validate_solution :: "(bytes \<Rightarrow> bytes32) \<Rightarrow> u8 \<Rightarrow> bytes32 \<Rightarrow> u128 \<Rightarrow> bool" where
  "validate_solution sha difficulty seed solution \<longleftrightarrow>
     list_all (\<lambda>b. b = 0) (take (unat difficulty) (sha (seed @ le_bytes 16 solution)))"

definition max_pow_iterations :: u128 where "max_pow_iterations = 2 ^ 32"

definition pow_check_mask :: u128 where "pow_check_mask = 2 ^ 18 - 1"

text \<open>
  The search loop; \<open>stop i\<close> is what the poll at iteration \<open>i\<close> finds: the cancel flag, the deadline
  passed, or nothing.
\<close>

datatype pow_poll = PowGo | PowCancelled | PowLate

function pow_loop ::
  "(u128 \<Rightarrow> bool) \<Rightarrow> u128 \<Rightarrow> (u128 \<Rightarrow> pow_poll) \<Rightarrow> u128 \<Rightarrow> u128 \<Rightarrow> string + u128" where
  "pow_loop valid max_iterations stop solution iterations =
     (if valid solution then Inr solution
      else if max_iterations \<le> iterations then Inl ''faucet PoW gave up without a solution''
      else if and iterations pow_check_mask = 0 \<and> stop iterations = PowCancelled then Inl ''faucet PoW cancelled''
      else if and iterations pow_check_mask = 0 \<and> stop iterations = PowLate then
        Inl ''faucet PoW exceeded its time budget''
      else if solution = - 1 then Inl ''PoW solution overflowed u128''
      else pow_loop valid max_iterations stop (solution + 1) (iterations + 1))"
  by pat_completeness auto

termination
proof (relation "measure (\<lambda>(v, m, s, solution, i). 2 ^ 128 - unat solution)")
  fix valid :: "u128 \<Rightarrow> bool" and max_iterations solution iterations and stop :: "u128 \<Rightarrow> pow_poll"
  assume "solution \<noteq> (- 1 :: u128)"
  then show "((valid, max_iterations, stop, solution + 1, iterations + 1), valid, max_iterations, stop, solution, iterations)
      \<in> measure (\<lambda>(v, m, s, solution, i). 2 ^ 128 - unat solution)"
    using unat_less_pow [of solution] by (simp add: unat_succ)
qed simp

declare pow_loop.simps [simp del]

definition compute_solution_bounded ::
  "(bytes \<Rightarrow> bytes32) \<Rightarrow> bytes \<Rightarrow> u128 \<Rightarrow> (u128 \<Rightarrow> pow_poll) \<Rightarrow> string + u128" where
  "compute_solution_bounded sha challenge max_iterations stop =
     (let difficulty = hd challenge; seed = drop 1 challenge in
      if 32 < difficulty then Inl ''invalid pinata difficulty''
      else pow_loop (validate_solution sha difficulty seed) max_iterations stop 0 0)"

definition compute_solution :: "(bytes \<Rightarrow> bytes32) \<Rightarrow> bytes \<Rightarrow> string + u128" where
  "compute_solution sha challenge = compute_solution_bounded sha challenge max_pow_iterations (\<lambda>_. PowGo)"

definition pinata_challenge :: "env \<Rightarrow> bytes sio" where
  "pinata_challenge en = do {
     r \<leftarrow> ext (XAccount (c_pinata_account en)) (\<lambda>tr. a_account en tr (c_pinata_account en));
     ret (case r of
            Inl e \<Rightarrow> Err (''getAccount(pinata) failed: '' @ e)
          | Inr d \<Rightarrow> if length d = 33 then Ok d
                     else Err (''unexpected pinata account data length '' @ show_nat (length d))) }"

record solved_claim =
  sc_solution :: u128
  sc_winner :: account_id
  sc_seed :: bytes32

text \<open>
  The permit is free: one solve runs at a time. The cancel flag is only raised when the caller
  drops the future, and then nothing more runs here.
\<close>

definition solve_claim :: "env \<Rightarrow> account_id \<Rightarrow> solved_claim sio" where
  "solve_claim en winner =
     tryM (pinata_challenge en) (\<lambda>challenge. do {
       r \<leftarrow> ext XPow (\<lambda>tr. compute_solution_bounded (c_sha256 en) challenge max_pow_iterations
               (\<lambda>i. if a_pow_late en tr i then PowLate else PowGo));
       ret (case r of
              Inl e \<Rightarrow> Err e
            | Inr s \<Rightarrow> Ok \<lparr> sc_solution = s, sc_winner = winner, sc_seed = drop 1 challenge \<rparr>) })"

definition submit_solved_claim :: "env \<Rightarrow> solved_claim \<Rightarrow> string sio" where
  "submit_solved_claim en solved =
     (let pid = c_pinata_program en; accounts = [c_pinata_account en, sc_winner solved];
          payload = PinataPayload (sc_solution solved) in
      case c_message_err en pid accounts payload of
        Some e \<Rightarrow> ret (Err (''failed to serialize pinata instruction: '' @ e))
      | None \<Rightarrow> do {
          r \<leftarrow> ext (XSend pid accounts payload) (\<lambda>tr. a_send en tr pid accounts payload);
          ret (case r of Inl e \<Rightarrow> Err (''pinata claim submission failed: '' @ e) | Inr tx \<Rightarrow> Ok tx) })"

section \<open>Initialization\<close>

definition account_read_retries :: nat where "account_read_retries = 3"
definition account_read_retry_delay :: nat where "account_read_retry_delay = 2000"
definition balance_read_retries :: nat where "balance_read_retries = 3"
definition balance_read_retry_delay :: nat where "balance_read_retry_delay = 2000"
definition init_commit_timeout :: nat where "init_commit_timeout = 300000"
definition init_commit_poll :: nat where "init_commit_poll = 3000"
definition claim_retry_delay :: nat where "claim_retry_delay = 3000"
definition claim_commit_timeout :: nat where "claim_commit_timeout = 180000"
definition claim_commit_poll :: nat where "claim_commit_poll = 3000"
definition max_consecutive_claim_failures :: u32 where "max_consecutive_claim_failures = 5"

datatype init_outcome = AlreadyInitialized | Initialized string

definition read_owner :: "env \<Rightarrow> account_id \<Rightarrow> (string + program_id) io" where
  "read_owner en acc = ext (XOwner acc) (\<lambda>tr. a_owner en tr acc)"

text \<open>The bounded read; \<open>n\<close> attempts are left.\<close>

fun owner_attempts :: "nat \<Rightarrow> env \<Rightarrow> account_id \<Rightarrow> string \<Rightarrow> program_id sio" where
  "owner_attempts 0 en acc last_err = ret (Err (last_err @ '' (after 3 attempts)''))"
| "owner_attempts (Suc n) en acc last_err = do {
     r \<leftarrow> read_owner en acc;
     (case r of
        Inr owner \<Rightarrow> ret (Ok owner)
      | Inl e \<Rightarrow> do {
          (if 0 < n then sleep account_read_retry_delay else ret ());
          owner_attempts n en acc (''get_account failed: '' @ e) }) }"

fun await_init :: "nat \<Rightarrow> env \<Rightarrow> account_id \<Rightarrow> string \<Rightarrow> nat \<Rightarrow> init_outcome sio" where
  "await_init 0 en acc tx deadline = ret Pending"
| "await_init (Suc n) en acc tx deadline = do {
     r \<leftarrow> read_owner en acc;
     if r = Inr (c_transfer_program en) then ret (Ok (Initialized tx))
     else do {
       t \<leftarrow> instant_now en;
       if deadline \<le> t then ret (Err (''account Initialize did not commit within 300s (tx '' @ tx @ '')''))
       else do { sleep init_commit_poll; await_init n en acc tx deadline } } }"

definition submit_initialize :: "nat \<Rightarrow> env \<Rightarrow> account_id \<Rightarrow> init_outcome sio" where
  "submit_initialize fuel en acc = do {
     nonces \<leftarrow> ext (XNonces [acc]) (\<lambda>tr. a_nonces en tr [acc]);
     (case nonces of
        Inl e \<Rightarrow> ret (Err (''get_accounts_nonces failed: '' @ e))
      | Inr ns \<Rightarrow>
          (case c_message_err en (c_transfer_program en) [acc] InitializePayload of
             Some e \<Rightarrow> ret (Err (''failed to build Initialize message: '' @ e))
           | None \<Rightarrow> do {
               r \<leftarrow> ext (XSend (c_transfer_program en) [acc] InitializePayload)
                      (\<lambda>tr. a_send en tr (c_transfer_program en) [acc] InitializePayload);
               (case r of
                  Inl e \<Rightarrow> ret (Err (''Initialize submission failed: '' @ e))
                | Inr tx \<Rightarrow> do {
                    t \<leftarrow> instant_now en;
                    await_init fuel en acc tx (t + init_commit_timeout) }) })) }"

definition ensure_initialized :: "nat \<Rightarrow> env \<Rightarrow> account_id \<Rightarrow> init_outcome sio" where
  "ensure_initialized fuel en acc =
     tryM (owner_attempts account_read_retries en acc []) (\<lambda>owner.
       if owner = c_transfer_program en then ret (Ok AlreadyInitialized)
       else submit_initialize fuel en acc)"

section \<open>Funding\<close>

definition emit :: "bool \<Rightarrow> funding_progress \<Rightarrow> unit io" where
  "emit sender p = (if sender then ext (\<lambda>_. XFunding p) (\<lambda>_. ()) else ret ())"

fun balance_read_attempts :: "nat \<Rightarrow> env \<Rightarrow> account_id \<Rightarrow> string \<Rightarrow> u128 sio" where
  "balance_read_attempts 0 en acc last_err = ret (Err (last_err @ '' (after 3 attempts)''))"
| "balance_read_attempts (Suc n) en acc last_err = do {
     r \<leftarrow> ext (XBalance acc) (\<lambda>tr. a_balance en tr acc);
     (case r of
        Inr b \<Rightarrow> ret (Ok b)
      | Inl e \<Rightarrow> do {
          (if 0 < n then sleep balance_read_retry_delay else ret ());
          balance_read_attempts n en acc (''get_account_balance failed: '' @ e) }) }"

definition read_balance_retrying :: "env \<Rightarrow> account_id \<Rightarrow> u128 sio" where
  "read_balance_retrying en acc = balance_read_attempts balance_read_retries en acc []"

text \<open>A claim that was accepted: the transaction and the seed that it solved.\<close>

definition attempt_claim :: "env \<Rightarrow> account_id \<Rightarrow> (string \<times> bytes32) sio" where
  "attempt_claim en winner =
     tryM (solve_claim en winner) (\<lambda>solved.
       tryM (submit_solved_claim en solved) (\<lambda>tx. ret (Ok (tx, sc_seed solved))))"

definition timed :: "env \<Rightarrow> 'a io \<Rightarrow> 'a option io" where
  "timed en m = do {
     late \<leftarrow> ext XElapsed (a_elapsed en);
     if late then ret None else do { a \<leftarrow> m; ret (Some a) } }"

text \<open>A balance read that answered in time with more than \<open>prev\<close>.\<close>

definition risen :: "u128 \<Rightarrow> (string + u128) option \<Rightarrow> u128 option" where
  "risen prev r = (case r of Some (Inr b) \<Rightarrow> if prev < b then Some b else None | _ \<Rightarrow> None)"

definition rotated :: "bytes32 \<Rightarrow> (string, bytes) res option \<Rightarrow> bool" where
  "rotated seed r \<longleftrightarrow> (case r of Some (Ok challenge) \<Rightarrow> drop 1 challenge \<noteq> seed | _ \<Rightarrow> False)"

definition read_balance :: "env \<Rightarrow> account_id \<Rightarrow> (string + u128) io" where
  "read_balance en acc = ext (XBalance acc) (\<lambda>tr. a_balance en tr acc)"

fun await_commit_loop :: "nat \<Rightarrow> env \<Rightarrow> account_id \<Rightarrow> u128 \<Rightarrow> bytes32 \<Rightarrow> nat \<Rightarrow> (u128 \<times> bool) sio" where
  "await_commit_loop 0 en acc prev_balance claim_seed deadline = ret Pending"
| "await_commit_loop (Suc n) en acc prev_balance claim_seed deadline = do {
     r \<leftarrow> timed en (read_balance en acc);
     (case risen prev_balance r of
        Some balance \<Rightarrow> do {
          c \<leftarrow> timed en (pinata_challenge en);
          ret (Ok (balance, rotated claim_seed c)) }
      | None \<Rightarrow> do {
          c \<leftarrow> timed en (pinata_challenge en);
          if rotated claim_seed c then do {
            r2 \<leftarrow> timed en (read_balance en acc);
            ret (case risen prev_balance r2 of
                   Some balance \<Rightarrow> Ok (balance, True)
                 | None \<Rightarrow> Err ''claim was submitted but the faucet challenge rotated before it credited'') }
          else do {
            t \<leftarrow> instant_now en;
            if deadline \<le> t then ret (Err ''claim did not commit within 180s of submission'')
            else do {
              sleep claim_commit_poll;
              await_commit_loop n en acc prev_balance claim_seed deadline } } }) }"

definition await_claim_commit :: "nat \<Rightarrow> env \<Rightarrow> account_id \<Rightarrow> u128 \<Rightarrow> bytes32 \<Rightarrow> (u128 \<times> bool) sio" where
  "await_claim_commit fuel en acc prev_balance claim_seed = do {
     t \<leftarrow> instant_now en;
     await_commit_loop fuel en acc prev_balance claim_seed (t + claim_commit_timeout) }"

text \<open>One attempt: the transaction if the credit is attributed to it, and the balance that it left.\<close>

definition one_claim :: "nat \<Rightarrow> env \<Rightarrow> account_id \<Rightarrow> bool \<Rightarrow> u128 \<Rightarrow> (string option \<times> u128) sio" where
  "one_claim fuel en acc progress balance =
     tryM (attempt_claim en acc) (\<lambda>(tx, seed). do {
       emit progress (ClaimSubmitted tx);
       tryM (await_claim_commit fuel en acc balance seed) (\<lambda>(new_balance, attributed).
         ret (Ok (if attributed then Some tx else None, new_balance))) })"

fun claim_loop ::
  "nat \<Rightarrow> nat \<Rightarrow> env \<Rightarrow> account_id \<Rightarrow> u128 \<Rightarrow> bool \<Rightarrow> u32 \<Rightarrow> u64 \<Rightarrow> u128 sio" where
  "claim_loop fuel 0 en acc target progress failures claims = ret Pending"
| "claim_loop fuel (Suc n) en acc target progress failures claims =
     tryM (read_balance_retrying en acc) (\<lambda>balance.
       if target \<le> balance then do { emit progress (TargetReached balance); ret (Ok balance) }
       else do {
         emit progress (CheckingBalance balance target);
         attempt \<leftarrow> one_claim fuel en acc progress balance;
         (case attempt of
            Ok (tx, new_balance) \<Rightarrow> do {
              emit progress (FaucetClaimed tx (claims + 1) new_balance);
              sleep claim_retry_delay;
              claim_loop fuel n en acc target progress 0 (claims + 1) }
          | Err e \<Rightarrow> do {
              emit progress (ClaimFailed e (failures + 1));
              (if max_consecutive_claim_failures \<le> failures + 1
               then ret (Err (''5 consecutive pinata claim failures - aborting funding loop: '' @ e))
               else do {
                 sleep claim_retry_delay;
                 claim_loop fuel n en acc target progress (failures + 1) claims }) }
          | Panic m \<Rightarrow> ret (Panic m)
          | Pending \<Rightarrow> ret Pending) })"

definition claim_to_target :: "nat \<Rightarrow> nat \<Rightarrow> env \<Rightarrow> account_id \<Rightarrow> u128 \<Rightarrow> bool \<Rightarrow> u128 sio" where
  "claim_to_target rounds fuel en acc target progress = do {
     emit progress Initializing;
     tryM (ensure_initialized fuel en acc) (\<lambda>outcome. do {
       emit progress (case outcome of AlreadyInitialized \<Rightarrow> AlreadyInitializedEv
                                    | Initialized tx \<Rightarrow> AccountInitialized tx);
       claim_loop fuel rounds en acc target progress 0 0 }) }"

text \<open>The methods of the client: the string is the text of a \<open>LezTransaction\<close> error.\<close>

definition as_lez_transaction :: "'a sio \<Rightarrow> 'a rio" where
  "as_lez_transaction m = do {
     r \<leftarrow> m;
     ret (case r of Ok a \<Rightarrow> Ok a | Err e \<Rightarrow> Err (LezTransaction e) | Panic p \<Rightarrow> Panic p | Pending \<Rightarrow> Pending) }"

definition client_ensure_initialized :: "nat \<Rightarrow> env \<Rightarrow> lez_client \<Rightarrow> init_outcome rio" where
  "client_ensure_initialized fuel en c = as_lez_transaction (ensure_initialized fuel en (lc_account_id c))"

definition client_claim_to_target :: "nat \<Rightarrow> nat \<Rightarrow> env \<Rightarrow> lez_client \<Rightarrow> u128 \<Rightarrow> bool \<Rightarrow> u128 rio" where
  "client_claim_to_target rounds fuel en c target progress =
     as_lez_transaction (claim_to_target rounds fuel en (lc_account_id c) target progress)"


section \<open>The search finds the least solution\<close>

lemma pow_loop_go:
  assumes "\<And>t. t < s \<Longrightarrow> \<not> valid t" "s \<le> max_iterations"
  shows "pow_loop valid max_iterations (\<lambda>_. PowGo) s s =
    (if \<exists>t\<le>max_iterations. valid t then Inr (LEAST t. valid t) else Inl ''faucet PoW gave up without a solution'')"
  using assms
proof (induction "2 ^ 128 - unat s" arbitrary: s rule: less_induct)
  case less
  have least: "s \<le> t" if "valid t" for t using less(2) that by (meson not_le)
  show ?case
  proof (cases "valid s")
    case True
    then have "(LEAST t. valid t) = s" using least by (intro Least_equality)
    then show ?thesis using True less(3) by (subst pow_loop.simps) auto
  next
    case nv: False
    show ?thesis
    proof (cases "max_iterations \<le> s")
      case True
      then have "\<not> (\<exists>t\<le>max_iterations. valid t)" using less(3) nv least by (metis antisym order_trans)
      then show ?thesis using True nv by (subst pow_loop.simps) simp
    next
      case False
      have top: "s \<noteq> - 1" using False word_order.extremum [of max_iterations] by (metis)
      have succ: "unat (s + 1) = Suc (unat s)" by (rule unat_succ [OF top])
      have "\<not> valid t" if "t < s + 1" for t
        using that less(2) nv succ by (metis less_Suc_eq word_less_nat_alt word_unat_eq_iff)
      moreover have "s + 1 \<le> max_iterations" using False succ by (simp add: word_le_nat_alt)
      moreover have "2 ^ 128 - unat (s + 1) < 2 ^ 128 - unat s" using succ unat_less_pow [of s] by simp
      ultimately have "pow_loop valid max_iterations (\<lambda>_. PowGo) (s + 1) (s + 1) =
          (if \<exists>t\<le>max_iterations. valid t then Inr (LEAST t. valid t)
           else Inl ''faucet PoW gave up without a solution'')"
        by (intro less(1))
      then show ?thesis using nv False top by (subst pow_loop.simps) simp
    qed
  qed
qed

lemma pow_loop_stop:
  "pow_loop valid max_iterations stop s i = pow_loop valid max_iterations (\<lambda>_. PowGo) s i \<or>
   pow_loop valid max_iterations stop s i \<in> {Inl ''faucet PoW cancelled'', Inl ''faucet PoW exceeded its time budget''}"
proof (induction valid max_iterations stop s i rule: pow_loop.induct)
  case (1 valid max_iterations stop s i)
  show ?case
    using 1 by (subst (1 2 3) pow_loop.simps) (cases "stop i"; auto)
qed

definition solves :: "env \<Rightarrow> bytes \<Rightarrow> u128 \<Rightarrow> bool" where
  "solves en challenge solution \<longleftrightarrow>
     hd challenge \<le> 32 \<and> validate_solution (c_sha256 en) (hd challenge) (drop 1 challenge) solution"

lemma pow_loop_valid: "pow_loop valid max_iterations stop s i = Inr t \<Longrightarrow> valid t"
proof (induction valid max_iterations stop s i rule: pow_loop.induct)
  case (1 valid max_iterations stop s i)
  from 1(2) show ?case
    by (subst (asm) pow_loop.simps) (use 1(1) in \<open>auto split: if_splits\<close>)
qed

lemma computed_solves:
  "compute_solution_bounded (c_sha256 en) challenge m stop = Inr s \<Longrightarrow> solves en challenge s"
  using pow_loop_valid by (auto simp: compute_solution_bounded_def Let_def solves_def not_less split: if_splits)

section \<open>What a funding run does\<close>

fun is_claimed_ev :: "interaction \<Rightarrow> bool" where
  "is_claimed_ev (XFunding (FaucetClaimed tx n b)) = True"
| "is_claimed_ev _ = False"

fun is_submission :: "interaction \<Rightarrow> bool" where
  "is_submission (XSend pid accounts payload r) = True"
| "is_submission _ = False"

fun is_funding :: "interaction \<Rightarrow> bool" where
  "is_funding (XFunding p) = True"
| "is_funding _ = False"

definition claimed :: "trace \<Rightarrow> nat" where
  "claimed us = length (filter is_claimed_ev us)"

text \<open>The failures reported since the last claim that was credited.\<close>

fun streak_step :: "nat \<Rightarrow> interaction \<Rightarrow> nat" where
  "streak_step k (XFunding (ClaimFailed m f)) = Suc k"
| "streak_step k (XFunding (FaucetClaimed tx n b)) = 0"
| "streak_step k _ = k"

definition streak :: "trace \<Rightarrow> nat" where
  "streak us = foldl streak_step 0 us"

text \<open>
  A faucet claim: right after the challenge was read and solved, for an account that the transfer
  program owns, with a balance read below the target.
\<close>

definition claim_send_ok :: "env \<Rightarrow> account_id \<Rightarrow> u128 \<Rightarrow> trace \<Rightarrow> interaction \<Rightarrow> bool" where
  "claim_send_ok en acc target us x \<longleftrightarrow>
     (\<exists>vs ch sol prev r. x = XSend (c_pinata_program en) [c_pinata_account en, acc] (PinataPayload sol) r \<and>
        us = vs @ [XAccount (c_pinata_account en) (Inr ch), XPow (Inr sol)] \<and> solves en ch sol \<and>
        XOwner acc (Inr (c_transfer_program en)) \<in> set vs \<and> XBalance acc (Inr prev) \<in> set vs \<and> prev < target)"

definition init_send_ok :: "env \<Rightarrow> account_id \<Rightarrow> trace \<Rightarrow> interaction \<Rightarrow> bool" where
  "init_send_ok en acc us x \<longleftrightarrow>
     (\<exists>r owner. x = XSend (c_transfer_program en) [acc] InitializePayload r \<and>
        list_all (\<lambda>y. \<not> is_submission y) us \<and> XOwner acc (Inr owner) \<in> set us \<and> owner \<noteq> c_transfer_program en)"

text \<open>
  A credited claim: the last submission is a claim that was accepted, and after it the balance
  was read above the one that it started from; it is attributed to that transaction only when
  the challenge was read rotated.
\<close>

definition credit_backed :: "env \<Rightarrow> account_id \<Rightarrow> u128 \<Rightarrow> trace \<Rightarrow> string option \<Rightarrow> u128 \<Rightarrow> bool" where
  "credit_backed en acc target us tx b \<longleftrightarrow>
     (\<exists>vs prev ch sol h ws. us = vs @ [XFunding (CheckingBalance prev target),
          XAccount (c_pinata_account en) (Inr ch), XPow (Inr sol),
          XSend (c_pinata_program en) [c_pinata_account en, acc] (PinataPayload sol) (Inr h),
          XFunding (ClaimSubmitted h)] @ ws \<and>
        list_all (\<lambda>y. \<not> is_submission y) ws \<and> prev < b \<and> XBalance acc (Inr b) \<in> set ws \<and>
        (tx = None \<or> tx = Some h \<and>
          (\<exists>ch'. XAccount (c_pinata_account en) (Inr ch') \<in> set ws \<and> drop 1 ch' \<noteq> drop 1 ch)))"

fun funding_event_ok :: "env \<Rightarrow> account_id \<Rightarrow> u128 \<Rightarrow> trace \<Rightarrow> interaction \<Rightarrow> bool" where
  "funding_event_ok en acc target us (XSend pid accounts payload r) \<longleftrightarrow>
     init_send_ok en acc us (XSend pid accounts payload r) \<or> claim_send_ok en acc target us (XSend pid accounts payload r)"
| "funding_event_ok en acc target us (XFunding (FaucetClaimed tx n b)) \<longleftrightarrow>
     n = of_nat (claimed us) + 1 \<and> credit_backed en acc target us tx b"
| "funding_event_ok en acc target us (XFunding (ClaimFailed m k)) \<longleftrightarrow> unat k = Suc (streak us) \<and> k \<le> 5"
| "funding_event_ok en acc target us (XFunding (TargetReached b)) \<longleftrightarrow>
     target \<le> b \<and> (\<exists>vs. us = vs @ [XBalance acc (Inr b)])"
| "funding_event_ok en acc target us _ = True"

definition unwatched :: "interaction \<Rightarrow> bool" where
  "unwatched x \<longleftrightarrow> \<not> is_submission x \<and> \<not> is_funding x"

lemma unwatched_simps [simp]:
  "unwatched (XBalance a r)" "unwatched (XAccount a d)" "unwatched (XSleep ms)" "unwatched (XInstant t)"
  "unwatched (XElapsed b)" "unwatched (XPow q)" "unwatched (XOwner a o')" "unwatched (XNonces l ns)"
  "\<not> unwatched (XSend pid accounts payload r')" "\<not> unwatched (XFunding p)"
  by (simp_all add: unwatched_def)

lemma unwatched_ok: "unwatched x \<Longrightarrow> funding_event_ok en acc target us x"
  by (cases "(en, acc, target, us, x)" rule: funding_event_ok.cases) auto

lemma each_unwatched: "list_all unwatched e \<Longrightarrow> each (funding_event_ok en acc target) us e"
  by (induction e arbitrary: us) (auto intro: unwatched_ok)

lemma claimed_simps [simp]:
  "claimed [] = 0" "claimed (x # e) = (if is_claimed_ev x then Suc (claimed e) else claimed e)"
  "claimed (us @ e) = claimed us + claimed e"
  by (simp_all add: claimed_def)

lemma streak_append [simp]: "streak (us @ e) = foldl streak_step (streak us) e"
  by (simp add: streak_def)

text \<open>Events that neither of the two counters looks at.\<close>

fun uncounted :: "interaction \<Rightarrow> bool" where
  "uncounted (XFunding (FaucetClaimed tx n b)) = False"
| "uncounted (XFunding (ClaimFailed m f)) = False"
| "uncounted _ = True"

lemma unwatched_uncounted: "unwatched x \<Longrightarrow> uncounted x"
  by (cases x rule: uncounted.cases) auto

lemma uncounted_claimed: "list_all uncounted e \<Longrightarrow> claimed e = 0"
proof -
  have "uncounted x \<Longrightarrow> \<not> is_claimed_ev x" for x by (cases x rule: is_claimed_ev.cases) auto
  then show "list_all uncounted e \<Longrightarrow> claimed e = 0" by (auto simp: claimed_def list_all_iff filter_empty_conv)
qed

lemma uncounted_streak: "list_all uncounted e \<Longrightarrow> foldl streak_step k e = k"
proof (induction e arbitrary: k)
  case (Cons x e)
  then have "streak_step k x = k" by (cases x rule: uncounted.cases) auto
  then show ?case using Cons by simp
qed simp

lemma run_emit [run_simps]:
  "run_state (emit sender p) tr = ((), tr @ (if sender then [XFunding p] else []))"
  by (simp add: emit_def run_ext)

section \<open>The pieces of a funding run\<close>

lemma balance_read_run:
  "run_state (balance_read_attempts n en acc le) tr = (r, tr') \<Longrightarrow>
   \<exists>e. tr' = tr @ e \<and> list_all unwatched e \<and> (\<forall>b. r = Ok b \<longrightarrow> (\<exists>q. e = q @ [XBalance acc (Inr b)]))"
proof (induction n arbitrary: le tr)
  case (Suc n)
  show ?case
  proof (cases "a_balance en tr acc")
    case (Inr b)
    then show ?thesis using Suc.prems by (auto simp: run_simps)
  next
    case (Inl er)
    define w where "w = (if 0 < n then [XSleep balance_read_retry_delay] else [])"
    have "run_state (balance_read_attempts n en acc (''get_account_balance failed: '' @ er))
        (tr @ XBalance acc (Inl er) # w) = (r, tr')"
      using Suc.prems Inl by (auto simp: run_simps w_def split: if_splits)
    from Suc.IH [OF this] obtain e where
      "tr' = (tr @ XBalance acc (Inl er) # w) @ e" "list_all unwatched e"
      "\<forall>b. r = Ok b \<longrightarrow> (\<exists>q. e = q @ [XBalance acc (Inr b)])" by blast
    then show ?thesis by (intro exI [of _ "(XBalance acc (Inl er) # w) @ e"]) (auto simp: w_def)
  qed
qed auto

lemma emits_challenge: "emits unwatched (pinata_challenge en)"
  by (simp add: pinata_challenge_def emits_bind emits_ext emits_ret)

lemma run_challenge:
  "run_state (pinata_challenge en) tr = (r, tr') \<Longrightarrow>
   \<exists>d. tr' = tr @ [XAccount (c_pinata_account en) d] \<and> (\<forall>ch. r = Ok ch \<longrightarrow> d = Inr ch)"
  by (auto simp: pinata_challenge_def run_simps split: sum.splits if_splits)

lemma run_timed_balance:
  "run_state (timed en (read_balance en acc)) tr = (r, tr') \<Longrightarrow>
   \<exists>e. tr' = tr @ e \<and> list_all unwatched e \<and> (\<forall>b. risen prev r = Some b \<longrightarrow> prev < b \<and> XBalance acc (Inr b) \<in> set e)"
  by (auto simp: timed_def read_balance_def risen_def run_simps split: if_splits option.splits sum.splits)

lemma run_timed_challenge:
  assumes "run_state (timed en (pinata_challenge en)) tr = (r, tr')"
  shows "\<exists>e. tr' = tr @ e \<and> list_all unwatched e \<and>
    (rotated seed r \<longrightarrow> (\<exists>ch. XAccount (c_pinata_account en) (Inr ch) \<in> set e \<and> drop 1 ch \<noteq> seed))"
proof (cases "a_elapsed en tr")
  case True
  then show ?thesis using assms by (auto simp: timed_def run_simps rotated_def)
next
  case False
  obtain c tr1 where c: "run_state (pinata_challenge en) (tr @ [XElapsed False]) = (c, tr1)" by fastforce
  from run_challenge [OF c] obtain d where d: "tr1 = (tr @ [XElapsed False]) @ [XAccount (c_pinata_account en) d]"
    "\<forall>ch. c = Ok ch \<longrightarrow> d = Inr ch" by blast
  have "r = Some c" "tr' = tr1" using assms False c by (auto simp: timed_def run_simps)
  then show ?thesis using d by (auto simp: rotated_def split: res.splits)
qed

text \<open>What a confirmed commit rests on.\<close>

definition commit_ok :: "env \<Rightarrow> account_id \<Rightarrow> u128 \<Rightarrow> bytes32 \<Rightarrow> (string, u128 \<times> bool) res \<Rightarrow> trace \<Rightarrow> bool" where
  "commit_ok en acc prev seed r e \<longleftrightarrow> list_all unwatched e \<and>
     (case r of Ok (b, attributed) \<Rightarrow> prev < b \<and> XBalance acc (Inr b) \<in> set e \<and>
        (attributed \<longrightarrow> (\<exists>ch. XAccount (c_pinata_account en) (Inr ch) \<in> set e \<and> drop 1 ch \<noteq> seed))
      | _ \<Rightarrow> True)"

lemma commit_ok_prefix: "commit_ok en acc prev seed r e \<Longrightarrow> list_all unwatched q \<Longrightarrow> commit_ok en acc prev seed r (q @ e)"
  by (auto simp: commit_ok_def split: res.splits)

lemma await_commit_run:
  "run_state (await_commit_loop n en acc prev seed deadline) tr = (r, tr') \<Longrightarrow>
   \<exists>e. tr' = tr @ e \<and> commit_ok en acc prev seed r e"
proof (induction n arbitrary: tr)
  case 0
  then show ?case by (auto simp: commit_ok_def)
next
  case (Suc n)
  obtain b tr1 where b: "run_state (timed en (read_balance en acc)) tr = (b, tr1)" by fastforce
  from run_timed_balance [OF b, of prev] obtain e1 where e1: "tr1 = tr @ e1" "list_all unwatched e1"
    "\<forall>v. risen prev b = Some v \<longrightarrow> prev < v \<and> XBalance acc (Inr v) \<in> set e1" by blast
  obtain c tr2 where c: "run_state (timed en (pinata_challenge en)) tr1 = (c, tr2)" by fastforce
  from run_timed_challenge [OF c, of seed] obtain e2 where e2: "tr2 = tr1 @ e2" "list_all unwatched e2"
    "rotated seed c \<longrightarrow> (\<exists>ch. XAccount (c_pinata_account en) (Inr ch) \<in> set e2 \<and> drop 1 ch \<noteq> seed)" by blast
  show ?case
  proof (cases "risen prev b")
    case (Some v)
    then have "r = Ok (v, rotated seed c)" "tr' = tr2" using Suc.prems b c by (auto simp: run_simps)
    then show ?thesis using Some e1 e2 by (intro exI [of _ "e1 @ e2"]) (auto simp: commit_ok_def)
  next
    case none: None
    show ?thesis
    proof (cases "rotated seed c")
      case True
      obtain b2 tr3 where b2: "run_state (timed en (read_balance en acc)) tr2 = (b2, tr3)" by fastforce
      from run_timed_balance [OF b2, of prev] obtain e3 where e3: "tr3 = tr2 @ e3" "list_all unwatched e3"
        "\<forall>v. risen prev b2 = Some v \<longrightarrow> prev < v \<and> XBalance acc (Inr v) \<in> set e3" by blast
      have "tr' = tr3 \<and> (case r of Ok (v, att) \<Rightarrow> risen prev b2 = Some v \<and> att | _ \<Rightarrow> True)"
        using Suc.prems b c b2 none True by (auto simp: run_simps split: option.splits)
      then show ?thesis using e1 e2 e3 True
        by (intro exI [of _ "e1 @ e2 @ e3"]) (auto simp: commit_ok_def split: res.splits)
    next
      case False
      note run = Suc.prems b c none False
      show ?thesis
      proof (cases "deadline \<le> a_instant en tr2")
        case True
        then show ?thesis using run e1 e2
          by (intro exI [of _ "e1 @ e2 @ [XInstant (a_instant en tr2)]"]) (auto simp: commit_ok_def run_simps)
      next
        case later: False
        let ?w = "[XInstant (a_instant en tr2), XSleep claim_commit_poll]"
        have "run_state (await_commit_loop n en acc prev seed deadline) (tr2 @ ?w) = (r, tr')"
          using run later by (simp add: run_simps)
        from Suc.IH [OF this] obtain e where "tr' = (tr2 @ ?w) @ e" "commit_ok en acc prev seed r e" by blast
        then show ?thesis using e1 e2 commit_ok_prefix [of en acc prev seed r e "e1 @ e2 @ ?w"] by auto
      qed
    qed
  qed
qed

lemma await_claim_commit_run:
  "run_state (await_claim_commit fuel en acc prev seed) tr = (r, tr') \<Longrightarrow>
   \<exists>e. tr' = tr @ e \<and> commit_ok en acc prev seed r e"
  using await_commit_run [of fuel en acc prev seed] commit_ok_prefix [of en acc prev seed r _ "[XInstant (a_instant en tr)]"]
  by (fastforce simp: await_claim_commit_def run_simps)

text \<open>A solved and submitted claim is four events; what fails before is quiet, up to a send.\<close>

definition attempt_events :: "env \<Rightarrow> account_id \<Rightarrow> bytes \<Rightarrow> u128 \<Rightarrow> string + string \<Rightarrow> trace" where
  "attempt_events en acc ch sol h =
     [XAccount (c_pinata_account en) (Inr ch), XPow (Inr sol),
      XSend (c_pinata_program en) [c_pinata_account en, acc] (PinataPayload sol) h]"

lemma attempt_claim_run:
  assumes "run_state (attempt_claim en acc) tr = (r, tr')"
  shows "\<exists>e. tr' = tr @ e \<and>
    (case r of
       Ok (tx, seed) \<Rightarrow> \<exists>ch sol. e = attempt_events en acc ch sol (Inr tx) \<and> solves en ch sol \<and> seed = drop 1 ch
     | _ \<Rightarrow> list_all unwatched e \<or> (\<exists>ch sol er. e = attempt_events en acc ch sol (Inl er) \<and> solves en ch sol))"
proof -
  obtain c tr1 where c: "run_state (pinata_challenge en) tr = (c, tr1)" by fastforce
  from run_challenge [OF c] obtain d where d: "tr1 = tr @ [XAccount (c_pinata_account en) d]" "\<forall>ch. c = Ok ch \<longrightarrow> d = Inr ch"
    by blast
  show ?thesis
  proof (cases c)
    case (Ok ch)
    let ?stop = "\<lambda>i. if a_pow_late en tr1 i then PowLate else PowGo"
    let ?q = "compute_solution_bounded (c_sha256 en) ch max_pow_iterations ?stop"
    show ?thesis
    proof (cases ?q)
      case (Inl er)
      then have "r = Err er \<and> tr' = tr1 @ [XPow (Inl er)]" using assms c Ok
        by (auto simp: attempt_claim_def solve_claim_def run_simps)
      then show ?thesis using d by auto
    next
      case (Inr sol)
      let ?s = "\<lparr> sc_solution = sol, sc_winner = acc, sc_seed = drop 1 ch \<rparr>"
      have run: "run_state (tryM (submit_solved_claim en ?s) (\<lambda>tx. ret (Ok (tx, drop 1 ch)))) (tr1 @ [XPow (Inr sol)]) = (r, tr')"
        using assms c Ok Inr by (simp add: attempt_claim_def solve_claim_def run_simps)
      have sol: "solves en ch sol" by (rule computed_solves [OF Inr])
      show ?thesis
      proof (cases "c_message_err en (c_pinata_program en) [c_pinata_account en, acc] (PinataPayload sol)")
        case (Some er)
        then show ?thesis using run d by (auto simp: submit_solved_claim_def Let_def run_simps)
      next
        case None
        then show ?thesis using run d Ok sol
          by (auto simp: submit_solved_claim_def Let_def run_simps attempt_events_def split: sum.splits)
      qed
    qed
  qed (use assms c d in \<open>auto simp: attempt_claim_def solve_claim_def run_simps\<close>)
qed

lemma each_attempt:
  assumes "XOwner acc (Inr (c_transfer_program en)) \<in> set us" "XBalance acc (Inr prev) \<in> set us" "prev < target"
    and "solves en ch sol"
  shows "each (funding_event_ok en acc target) us (attempt_events en acc ch sol h)"
  using assms unfolding attempt_events_def by (auto simp: claim_send_ok_def)

text \<open>The events of one attempt: nothing is counted in it, and a success is backed.\<close>

definition attempt_ok ::
  "env \<Rightarrow> account_id \<Rightarrow> bool \<Rightarrow> u128 \<Rightarrow> (string, string option \<times> u128) res \<Rightarrow> trace \<Rightarrow> bool" where
  "attempt_ok en acc progress prev r e \<longleftrightarrow>
     (case r of
        Ok (tx, b) \<Rightarrow>
          \<exists>ch sol h ws. e = attempt_events en acc ch sol (Inr h) @ (if progress then [XFunding (ClaimSubmitted h)] else []) @ ws \<and>
            list_all unwatched ws \<and> prev < b \<and> XBalance acc (Inr b) \<in> set ws \<and>
            (tx = None \<or> tx = Some h \<and> (\<exists>ch'. XAccount (c_pinata_account en) (Inr ch') \<in> set ws \<and> drop 1 ch' \<noteq> drop 1 ch))
      | _ \<Rightarrow> True)"

lemma one_claim_run:
  assumes "run_state (one_claim fuel en acc progress prev) tr = (r, tr')"
    and "XOwner acc (Inr (c_transfer_program en)) \<in> set us" "XBalance acc (Inr prev) \<in> set us" "prev < target"
  shows "\<exists>e. tr' = tr @ e \<and> each (funding_event_ok en acc target) us e \<and> list_all uncounted e \<and>
    attempt_ok en acc progress prev r e"
proof -
  obtain a tr1 where a: "run_state (attempt_claim en acc) tr = (a, tr1)" by fastforce
  from attempt_claim_run [OF a] obtain e1 where e1: "tr1 = tr @ e1"
    "case a of
       Ok (tx, seed) \<Rightarrow> \<exists>ch sol. e1 = attempt_events en acc ch sol (Inr tx) \<and> solves en ch sol \<and> seed = drop 1 ch
     | _ \<Rightarrow> list_all unwatched e1 \<or> (\<exists>ch sol er. e1 = attempt_events en acc ch sol (Inl er) \<and> solves en ch sol)" by blast
  have unc: "list_all uncounted (attempt_events en acc ch sol h)" for ch sol h
    by (simp add: attempt_events_def)
  note each = each_attempt [OF assms(2-4)]
  have quiet: "list_all uncounted e" if "list_all unwatched e" for e
    using that unwatched_uncounted by (auto simp: list_all_iff)
  show ?thesis
  proof (cases "\<exists>x. a = Ok x")
    case False
    then have "tr' = tr1" "\<not> is_Ok r" using assms(1) a by (cases a; auto simp: one_claim_def run_simps)+
    moreover have "list_all unwatched e1 \<or> (\<exists>ch sol er. e1 = attempt_events en acc ch sol (Inl er) \<and> solves en ch sol)"
      using False e1(2) by (cases a) auto
    then have "each (funding_event_ok en acc target) us e1" "list_all uncounted e1"
      using each_unwatched each unc quiet by auto
    ultimately show ?thesis using e1(1) by (cases r) (auto simp: attempt_ok_def)
  next
    case True
    then obtain tx ch sol where ok: "a = Ok (tx, drop 1 ch)" "e1 = attempt_events en acc ch sol (Inr tx)" "solves en ch sol"
      using e1(2) by auto
    define p where "p = (if progress then [XFunding (ClaimSubmitted tx)] else [])"
    obtain w tr2 where w: "run_state (await_claim_commit fuel en acc prev (drop 1 ch)) (tr1 @ p) = (w, tr2)" by fastforce
    from await_claim_commit_run [OF w] obtain e2 where e2: "tr2 = (tr1 @ p) @ e2" "commit_ok en acc prev (drop 1 ch) w e2"
      by blast
    have ws: "list_all unwatched e2" using e2(2) by (simp add: commit_ok_def)
    have r: "tr' = tr2 \<and> (case w of Ok (b, att) \<Rightarrow> r = Ok (if att then Some tx else None, b) | _ \<Rightarrow> \<not> is_Ok r)"
      using assms(1) a ok(1) w
      by (cases progress; cases w) (auto simp: one_claim_def run_simps p_def)
    have "each (funding_event_ok en acc target) us (e1 @ p @ e2)" "list_all uncounted (e1 @ p @ e2)"
      unfolding each_append using each [OF ok(3)] unc quiet [OF ws] each_unwatched [OF ws]
      by (auto simp: ok(2) p_def)
    moreover have "attempt_ok en acc progress prev r (e1 @ p @ e2)"
    proof (cases r)
      case (Ok x)
      then obtain b att where "w = Ok (b, att)" "x = (if att then Some tx else None, b)" using r
        by (cases w) auto
      then show ?thesis using Ok e2(2) ws ok(2) unfolding attempt_ok_def commit_ok_def p_def
        by (cases att) auto
    qed (simp_all add: attempt_ok_def)
    ultimately show ?thesis using r e1(1) e2(1) by auto
  qed
qed

lemma owner_attempts_run:
  "run_state (owner_attempts n en acc le) tr = (r, tr') \<Longrightarrow>
   \<exists>e. tr' = tr @ e \<and> list_all unwatched e \<and> (\<forall>ow. r = Ok ow \<longrightarrow> XOwner acc (Inr ow) \<in> set e)"
proof (induction n arbitrary: le tr)
  case (Suc n)
  show ?case
  proof (cases "a_owner en tr acc")
    case (Inr b)
    then show ?thesis using Suc.prems by (auto simp: run_simps read_owner_def)
  next
    case (Inl er)
    define w where "w = (if 0 < n then [XSleep account_read_retry_delay] else [])"
    have "run_state (owner_attempts n en acc (''get_account failed: '' @ er)) (tr @ XOwner acc (Inl er) # w) = (r, tr')"
      using Suc.prems Inl by (auto simp: run_simps w_def read_owner_def split: if_splits)
    from Suc.IH [OF this] obtain e where
      "tr' = (tr @ XOwner acc (Inl er) # w) @ e" "list_all unwatched e" "\<forall>ow. r = Ok ow \<longrightarrow> XOwner acc (Inr ow) \<in> set e"
      by blast
    then show ?thesis by (intro exI [of _ "(XOwner acc (Inl er) # w) @ e"]) (auto simp: w_def)
  qed
qed auto

lemma await_init_run:
  "run_state (await_init n en acc tx deadline) tr = (r, tr') \<Longrightarrow>
   \<exists>e. tr' = tr @ e \<and> list_all unwatched e \<and> (\<forall>q. r = Ok q \<longrightarrow> XOwner acc (Inr (c_transfer_program en)) \<in> set e)"
proof (induction n arbitrary: tr)
  case (Suc n)
  let ?o = "XOwner acc (a_owner en tr acc)" let ?t = "a_instant en (tr @ [?o])"
  show ?case
  proof (cases "a_owner en tr acc = Inr (c_transfer_program en) \<or> deadline \<le> ?t")
    case True
    then show ?thesis using Suc.prems by (auto simp: run_simps read_owner_def split: if_splits)
  next
    case False
    let ?q = "[?o, XInstant ?t, XSleep init_commit_poll]"
    have "run_state (await_init n en acc tx deadline) (tr @ ?q) = (r, tr')"
      using Suc.prems False by (simp add: run_simps read_owner_def)
    from Suc.IH [OF this] obtain e where "tr' = (tr @ ?q) @ e" "list_all unwatched e"
      "\<forall>q. r = Ok q \<longrightarrow> XOwner acc (Inr (c_transfer_program en)) \<in> set e" by blast
    then show ?thesis by (intro exI [of _ "?q @ e"]) auto
  qed
qed auto

lemma ensure_initialized_run:
  assumes "run_state (ensure_initialized fuel en acc) tr = (r, tr')" "list_all (\<lambda>y. \<not> is_submission y) us"
  shows "\<exists>e. tr' = tr @ e \<and> each (funding_event_ok en acc target) us e \<and> list_all uncounted e \<and>
    (\<forall>q. r = Ok q \<longrightarrow> XOwner acc (Inr (c_transfer_program en)) \<in> set e)"
proof -
  obtain w tr1 where w: "run_state (owner_attempts account_read_retries en acc []) tr = (w, tr1)" by fastforce
  from owner_attempts_run [OF w] obtain e1 where e1: "tr1 = tr @ e1" "list_all unwatched e1"
    "\<forall>ow. w = Ok ow \<longrightarrow> XOwner acc (Inr ow) \<in> set e1" by blast
  have quiet: "list_all uncounted e" if "list_all unwatched e" for e
    using that unwatched_uncounted by (auto simp: list_all_iff)
  note fine = each_unwatched [OF e1(2)] quiet [OF e1(2)]
  show ?thesis
  proof (cases "\<exists>ow. w = Ok ow \<and> ow \<noteq> c_transfer_program en")
    case False
    then have "tr' = tr1 \<and> (\<forall>q. r = Ok q \<longrightarrow> w = Ok (c_transfer_program en))"
      using assms(1) w by (cases w) (auto simp: ensure_initialized_def run_simps)
    then show ?thesis using e1 fine by auto
  next
    case True
    then obtain ow where ow: "w = Ok ow" "ow \<noteq> c_transfer_program en" by blast
    let ?n = "XNonces [acc] (a_nonces en tr1 [acc])"
    have own: "XOwner acc (Inr ow) \<in> set e1" using e1(3) ow(1) by simp
    have run: "run_state (submit_initialize fuel en acc) tr1 = (r, tr')"
      using assms(1) w ow by (simp add: ensure_initialized_def run_simps)
    let ?pid = "c_transfer_program en"
    show ?thesis
    proof (cases "(\<exists>er. a_nonces en tr1 [acc] = Inl er) \<or> c_message_err en ?pid [acc] InitializePayload \<noteq> None")
      case True
      then have "tr' = tr1 @ [?n] \<and> \<not> is_Ok r" using run
        by (auto simp: submit_initialize_def run_simps split: sum.splits)
      then show ?thesis using e1(1) fine quiet
        by (intro exI [of _ "e1 @ [?n]"]) (auto simp: each_append)
    next
      case False
      then obtain ns where ns: "a_nonces en tr1 [acc] = Inr ns" "c_message_err en ?pid [acc] InitializePayload = None"
        by (cases "a_nonces en tr1 [acc]") auto
      let ?a = "a_send en (tr1 @ [?n]) ?pid [acc] InitializePayload"
      let ?s = "XSend ?pid [acc] InitializePayload ?a"
      have sub: "list_all (\<lambda>y. \<not> is_submission y) (us @ e1 @ [?n])"
        using assms(2) e1(2) by (auto simp: list_all_iff unwatched_def)
      have send: "each (funding_event_ok en acc target) us (e1 @ [?n, ?s])" "list_all uncounted (e1 @ [?n, ?s])"
        unfolding each_append using fine sub own ow(2) by (auto simp: init_send_ok_def)
      show ?thesis
      proof (cases ?a)
        case (Inl er)
        then have "tr' = tr1 @ [?n, ?s] \<and> \<not> is_Ok r" using run ns by (auto simp: submit_initialize_def run_simps)
        then show ?thesis using e1(1) send by (intro exI [of _ "e1 @ [?n, ?s]"]) auto
      next
        case (Inr tx)
        let ?t = "a_instant en (tr1 @ [?n, ?s])"
        have "run_state (await_init fuel en acc tx (?t + init_commit_timeout)) (tr1 @ [?n, ?s, XInstant ?t]) = (r, tr')"
          using run ns Inr by (simp add: submit_initialize_def run_simps)
        from await_init_run [OF this] obtain e2 where e2: "tr' = (tr1 @ [?n, ?s, XInstant ?t]) @ e2" "list_all unwatched e2"
          "\<forall>q. r = Ok q \<longrightarrow> XOwner acc (Inr ?pid) \<in> set e2" by blast
        define rest where "rest = XInstant ?t # e2"
        have q: "list_all unwatched rest" using e2(2) by (simp add: rest_def)
        have "each (funding_event_ok en acc target) us ((e1 @ [?n, ?s]) @ rest)" "list_all uncounted ((e1 @ [?n, ?s]) @ rest)"
          unfolding each_append [of _ us "e1 @ [?n, ?s]" rest] using send quiet [OF q] each_unwatched [OF q] by simp_all
        moreover have "tr' = tr @ (e1 @ [?n, ?s]) @ rest" using e1(1) e2(1) by (simp add: rest_def)
        moreover have "\<forall>q. r = Ok q \<longrightarrow> XOwner acc (Inr ?pid) \<in> set ((e1 @ [?n, ?s]) @ rest)"
          using e2(3) by (auto simp: rest_def)
        ultimately show ?thesis by blast
      qed
    qed
  qed
qed

text \<open>A success of the loop is backed by the last balance read.\<close>

definition funded_end :: "account_id \<Rightarrow> u128 \<Rightarrow> (string, u128) res \<Rightarrow> trace \<Rightarrow> bool" where
  "funded_end acc target r e \<longleftrightarrow>
     (case r of Ok b \<Rightarrow> target \<le> b \<and> XBalance acc (Inr b) \<in> set e | _ \<Rightarrow> True)"

lemma credited:
  assumes "attempt_ok en acc True prev (Ok (tx, b)) e"
  shows "credit_backed en acc target (us @ XFunding (CheckingBalance prev target) # e) tx b"
proof -
  from assms obtain ch sol h ws where
    w: "e = attempt_events en acc ch sol (Inr h) @ [XFunding (ClaimSubmitted h)] @ ws" "list_all unwatched ws"
      "prev < b" "XBalance acc (Inr b) \<in> set ws"
      "tx = None \<or> tx = Some h \<and> (\<exists>ch'. XAccount (c_pinata_account en) (Inr ch') \<in> set ws \<and> drop 1 ch' \<noteq> drop 1 ch)"
    unfolding attempt_ok_def by (simp del: drop_Suc_Cons) blast
  have "list_all (\<lambda>y. \<not> is_submission y) ws" using w(2) by (auto simp: list_all_iff unwatched_def)
  then show ?thesis unfolding credit_backed_def using w
    by (intro exI [of _ us] exI [of _ prev] exI [of _ ch] exI [of _ sol] exI [of _ h] exI [of _ ws])
      (simp add: attempt_events_def)
qed

lemma claim_loop_run:
  "run_state (claim_loop fuel n en acc target progress f c) tr = (r, tr') \<Longrightarrow>
   XOwner acc (Inr (c_transfer_program en)) \<in> set us \<Longrightarrow>
   (progress \<Longrightarrow> c = of_nat (claimed us) \<and> unat f = streak us) \<Longrightarrow> unat f < 5 \<Longrightarrow>
   \<exists>e. tr' = tr @ e \<and> each (funding_event_ok en acc target) us e \<and> funded_end acc target r e"
proof (induction n arbitrary: f c tr us)
  case 0
  then show ?case by (auto simp: funded_end_def)
next
  case (Suc n)
  let ?ok = "funding_event_ok en acc target"
  obtain b tr1 where b: "run_state (read_balance_retrying en acc) tr = (b, tr1)" by fastforce
  from balance_read_run [OF b [unfolded read_balance_retrying_def]] obtain e1 where e1: "tr1 = tr @ e1" "list_all unwatched e1"
    "\<forall>v. b = Ok v \<longrightarrow> (\<exists>q. e1 = q @ [XBalance acc (Inr v)])" by blast
  note q1 = each_unwatched [OF e1(2), of en acc target us]
  have unc1: "list_all uncounted e1" using e1(2) unwatched_uncounted by (auto simp: list_all_iff)
  show ?case
  proof (cases "\<exists>v. b = Ok v")
    case False
    then have "tr' = tr1 \<and> \<not> is_Ok r" using Suc.prems(1) b by (cases b) (auto simp: run_simps)
    then show ?thesis using e1(1) q1 by (cases r) (auto simp: funded_end_def)
  next
    case True
    then obtain v q where v: "b = Ok v" "e1 = q @ [XBalance acc (Inr v)]" using e1(3) by blast
    show ?thesis
    proof (cases "target \<le> v")
      case True
      define p where "p = (if progress then [XFunding (TargetReached v)] else [])"
      have "r = Ok v \<and> tr' = tr @ e1 @ p" using Suc.prems(1) b v True e1(1)
        by (auto simp: run_simps p_def)
      moreover have "each ?ok us (e1 @ p)" using q1 v(2) True by (auto simp: each_append p_def)
      ultimately show ?thesis using v(2) True by (auto simp: funded_end_def)
    next
      case below: False
      define p where "p = (if progress then [XFunding (CheckingBalance v target)] else [])"
      let ?us = "us @ e1 @ p"
      obtain a tr2 where a: "run_state (one_claim fuel en acc progress v) (tr1 @ p) = (a, tr2)" by fastforce
      have pre: "XOwner acc (Inr (c_transfer_program en)) \<in> set ?us" "XBalance acc (Inr v) \<in> set ?us" "v < target"
        using Suc.prems(2) v(2) below by auto
      from one_claim_run [OF a pre] obtain e2 where e2: "tr2 = (tr1 @ p) @ e2" "each ?ok ?us e2" "list_all uncounted e2"
        "attempt_ok en acc progress v a e2" by blast
      let ?vs = "?us @ e2"
      have counts: "claimed ?vs = claimed us" "streak ?vs = streak us" if progress
      proof -
        have "list_all uncounted (e1 @ p @ e2)" using unc1 e2(3) by (simp add: p_def)
        then show "claimed ?vs = claimed us" "streak ?vs = streak us"
          using uncounted_claimed [of e1] uncounted_claimed [of p] uncounted_claimed [of e2]
          by (simp_all add: uncounted_streak)
      qed
      have done2: "each ?ok us (e1 @ p @ e2)" using q1 e2(2) by (auto simp: each_append p_def)
      have owned: "XOwner acc (Inr (c_transfer_program en)) \<in> set ?vs" using Suc.prems(2) by simp
      show ?thesis
      proof (cases a)
        case (Ok x)
        obtain tx nb where x: "x = (tx, nb)" by fastforce
        define s where "s = (if progress then [XFunding (FaucetClaimed tx (c + 1) nb)] else []) @ [XSleep claim_retry_delay]"
        have run: "run_state (claim_loop fuel n en acc target progress 0 (c + 1)) (tr2 @ s) = (r, tr')"
          using Suc.prems(1) b v below a Ok x e1(1) by (auto simp: run_simps p_def s_def)
        have "progress \<Longrightarrow> credit_backed en acc target ?vs tx nb"
          using credited [of en acc v tx nb e2 target "us @ e1"] e2(4) Ok x by (simp add: p_def)
        then have s_ok: "each ?ok ?vs s" using Suc.prems(3) counts by (auto simp: s_def)
        have "progress \<Longrightarrow> c + 1 = of_nat (claimed (?vs @ s)) \<and> unat (0 :: u32) = streak (?vs @ s)"
          using Suc.prems(3) counts by (simp add: s_def)
        from Suc.IH [OF run _ this] owned obtain e3 where e3: "tr' = (tr2 @ s) @ e3" "each ?ok (?vs @ s) e3" "funded_end acc target r e3"
          by auto
        have "each ?ok us ((e1 @ p @ e2) @ s @ e3)"
          using done2 s_ok e3(2) by (simp add: each_append)
        moreover have "tr' = tr @ (e1 @ p @ e2) @ s @ e3" using e1(1) e2(1) e3(1) by simp
        moreover have "funded_end acc target r ((e1 @ p @ e2) @ s @ e3)" using e3(3) by (auto simp: funded_end_def split: res.splits)
        ultimately show ?thesis by blast
      next
        case (Err er)
        define s where "s = (if progress then [XFunding (ClaimFailed er (f + 1))] else [])"
        have f1: "unat (f + 1) = Suc (unat f)"
          using Suc.prems(4) by (intro unat_succ) (auto simp: unat_minus_one_word_max)
        have s_ok: "each ?ok ?vs s" using Suc.prems(3,4) counts f1 by (auto simp: s_def word_le_nat_alt)
        show ?thesis
        proof (cases "max_consecutive_claim_failures \<le> f + 1")
          case True
          then have "tr' = tr2 @ s \<and> \<not> is_Ok r"
            using Suc.prems(1) b v below a Err e1(1) by (auto simp: run_simps p_def s_def)
          moreover have "each ?ok us ((e1 @ p @ e2) @ s)" using done2 s_ok by (simp add: each_append)
          ultimately show ?thesis using e1(1) e2(1)
            by (intro exI [of _ "(e1 @ p @ e2) @ s"]) (cases r; simp add: funded_end_def)
        next
          case False
          let ?w = "[XSleep claim_retry_delay]"
          have run: "run_state (claim_loop fuel n en acc target progress (f + 1) c) (tr2 @ s @ ?w) = (r, tr')"
            using Suc.prems(1) b v below a Err False e1(1) by (auto simp: run_simps p_def s_def)
          have w_ok: "each ?ok (?vs @ s) ?w" by simp
          have "unat (f + 1) < 5" using False f1
            by (simp add: word_le_nat_alt max_consecutive_claim_failures_def)
          moreover have "progress \<Longrightarrow> c = of_nat (claimed (?vs @ s @ ?w)) \<and> unat (f + 1) = streak (?vs @ s @ ?w)"
            using Suc.prems(3) counts f1 by (simp add: s_def)
          ultimately obtain e3 where e3: "tr' = (tr2 @ s @ ?w) @ e3" "each ?ok (?vs @ s @ ?w) e3" "funded_end acc target r e3"
            using Suc.IH [OF run, of "?vs @ s @ ?w"] owned by auto
          have "each ?ok us ((e1 @ p @ e2) @ s @ ?w @ e3)"
            using done2 s_ok w_ok e3(2) by (simp add: each_append)
          moreover have "tr' = tr @ (e1 @ p @ e2) @ s @ ?w @ e3" using e1(1) e2(1) e3(1) by simp
          moreover have "funded_end acc target r ((e1 @ p @ e2) @ s @ ?w @ e3)" using e3(3) by (auto simp: funded_end_def split: res.splits)
          ultimately show ?thesis by blast
        qed
      next
        case (Panic m)
        then have "tr' = tr2 \<and> r = Panic m" using Suc.prems(1) b v below a e1(1) by (auto simp: run_simps p_def)
        then show ?thesis using e1(1) e2(1) done2 by (auto simp: funded_end_def)
      next
        case Pending
        then have "tr' = tr2 \<and> r = Pending" using Suc.prems(1) b v below a e1(1) by (auto simp: run_simps p_def)
        then show ?thesis using e1(1) e2(1) done2 by (auto simp: funded_end_def)
      qed
    qed
  qed
qed

section \<open>Properties\<close>

text \<open>
  The proof-of-work search, left alone, returns the least solution if there is one among the
  candidates up to and including the iteration limit, and otherwise gives up; a cancellation or
  the deadline can only replace this by an error.
\<close>

lemma pow_finds_least:
  "compute_solution_bounded sha challenge max_iterations (\<lambda>_. PowGo) =
     (if 32 < hd challenge then Inl ''invalid pinata difficulty''
      else if \<exists>t\<le>max_iterations. validate_solution sha (hd challenge) (drop 1 challenge) t
      then Inr (LEAST t. validate_solution sha (hd challenge) (drop 1 challenge) t)
      else Inl ''faucet PoW gave up without a solution'') \<and>
   compute_solution_bounded sha challenge max_iterations stop \<in>
     {compute_solution_bounded sha challenge max_iterations (\<lambda>_. PowGo),
      Inl ''faucet PoW cancelled'', Inl ''faucet PoW exceeded its time budget''}"
  using pow_loop_go [of 0 "validate_solution sha (hd challenge) (drop 1 challenge)" max_iterations]
    pow_loop_stop [of "validate_solution sha (hd challenge) (drop 1 challenge)" max_iterations stop 0 0]
  by (auto simp: compute_solution_bounded_def Let_def)

text \<open>
  C30. Whatever the sequencer answers, a funding run submits an initialization only first and
  only for an account read as not initialized, submits a faucet claim only with a valid solution
  of the challenge it has just read, for an account read as initialized and below the target,
  reports a claim as credited only when the balance was read higher after the last accepted
  submission (attributed to it only when the challenge was read rotated), numbers claims and
  consecutive failures without a gap, tolerates at most five failures in a row, and succeeds only
  with a balance read at or above the target.
\<close>

theorem funding_run_sound:
  "\<exists>e. snd (run_state (claim_to_target rounds fuel en acc target progress) tr) = tr @ e \<and>
     each (funding_event_ok en acc target) [] e \<and>
     funded_end acc target (fst (run_state (claim_to_target rounds fuel en acc target progress) tr)) e"
proof -
  define p where "p = (if progress then [XFunding Initializing] else [])"
  obtain i tr1 where i: "run_state (ensure_initialized fuel en acc) (tr @ p) = (i, tr1)" by fastforce
  have "list_all (\<lambda>y. \<not> is_submission y) p" by (simp add: p_def)
  from ensure_initialized_run [OF i this, of target] obtain e1 where e1: "tr1 = (tr @ p) @ e1"
    "each (funding_event_ok en acc target) p e1" "list_all uncounted e1"
    "\<forall>q. i = Ok q \<longrightarrow> XOwner acc (Inr (c_transfer_program en)) \<in> set e1" by blast
  have p_ok: "each (funding_event_ok en acc target) [] p" "list_all uncounted p" by (simp_all add: p_def)
  show ?thesis
  proof (cases "\<exists>q. i = Ok q")
    case False
    then have "\<exists>r. run_state (claim_to_target rounds fuel en acc target progress) tr = (r, tr1) \<and> \<not> is_Ok r"
      using i by (cases i) (auto simp: claim_to_target_def run_simps p_def)
    then show ?thesis using e1(1,2) p_ok(1)
      by (intro exI [of _ "p @ e1"]) (auto simp: each_append funded_end_def split: res.splits)
  next
    case True
    then obtain q where q: "i = Ok q" by blast
    define w where "w = (if progress then [XFunding (case q of AlreadyInitialized \<Rightarrow> AlreadyInitializedEv
        | Initialized tx \<Rightarrow> AccountInitialized tx)] else [])"
    obtain r tr2 where r: "run_state (claim_loop fuel rounds en acc target progress 0 0) (tr1 @ w) = (r, tr2)" by fastforce
    have run: "run_state (claim_to_target rounds fuel en acc target progress) tr = (r, tr2)"
      using i q r by (auto simp: claim_to_target_def run_simps p_def w_def)
    have w_ok: "each (funding_event_ok en acc target) (p @ e1) w" "list_all uncounted w"
      by (auto simp: w_def split: init_outcome.split)
    have "list_all uncounted (p @ e1 @ w)" using p_ok(2) e1(3) w_ok(2) by simp
    then have "claimed (p @ e1 @ w) = 0" "streak (p @ e1 @ w) = 0"
      by (simp_all only: uncounted_claimed streak_def uncounted_streak)
    then obtain e2 where e2: "tr2 = (tr1 @ w) @ e2" "each (funding_event_ok en acc target) (p @ e1 @ w) e2" "funded_end acc target r e2"
      using claim_loop_run [OF r, of "p @ e1 @ w"] e1(4) q by auto
    have "each (funding_event_ok en acc target) [] (p @ e1 @ w @ e2)"
      using p_ok(1) e1(2) w_ok(1) e2(2) by (simp add: each_append)
    moreover have "funded_end acc target r (p @ e1 @ w @ e2)" using e2(3) by (auto simp: funded_end_def split: res.splits)
    ultimately show ?thesis using run e1(1) e2(1) by (intro exI [of _ "p @ e1 @ w @ e2"]) simp
  qed
qed

end
