(* ===== verification/Maker_Service.thy ===== *)
theory Maker_Service
  imports Maker_Status Bot_Reconcile Lez_Onboard
begin

text \<open>
  The standing maker as a service: the supervisor of the offer publisher, the background top-up
  and the writer of the status file (\<open>src/cli/bot.rs\<close>), and the commands that start it all
  (\<open>src/cli/maker.rs\<close>). Each spawned task is a program of its own; the command that spawns it
  records that it did, and awaits or aborts it. What the tasks do meanwhile reaches a program
  through the answers of the environment. Printing and logging are left out.
\<close>

section \<open>The environment of the offer publisher\<close>

record offer_publisher_env =
  op_lez_amount :: u128
  op_eth_amount_wei :: u128
  op_maker_eth_address :: string
  op_maker_lez_account :: string
  op_lez_timelock_minutes :: u64
  op_eth_timelock_minutes :: u64
  op_lez_htlc_program_id_hex :: string
  op_eth_htlc_address :: string

text \<open>The printers of the crates: base58, hex, and the checksummed address.\<close>

record printers =
  p_base58 :: "bytes \<Rightarrow> string"
  p_hex :: "bytes \<Rightarrow> string"
  p_address :: "address \<Rightarrow> string"

definition offer_env_from_config :: "printers \<Rightarrow> swap_config \<Rightarrow> u64 \<Rightarrow> u64 \<Rightarrow> offer_publisher_env" where
  "offer_env_from_config p cfg lez_minutes eth_minutes =
     \<lparr> op_lez_amount = lez_amount cfg, op_eth_amount_wei = eth_amount cfg,
       op_maker_eth_address = p_address p (eth_recipient_address cfg),
       op_maker_lez_account =
         (case lez_auth_mode cfg of
            Wallet home acc \<Rightarrow> account_id_to_base58 (p_base58 p) acc
          | RawKey k \<Rightarrow> []),
       op_lez_timelock_minutes = lez_minutes, op_eth_timelock_minutes = eth_minutes,
       op_lez_htlc_program_id_hex = program_id_to_hex (p_hex p) (lez_htlc_program_id cfg),
       op_eth_htlc_address = p_address p (eth_htlc_address cfg) \<rparr>"

definition to_env :: "offer_publisher_env \<Rightarrow> u64 \<Rightarrow> (string \<times> string) list" where
  "to_env oe heartbeat_secs =
     [(''OFFER_LEZ_AMOUNT'', show_nat (unat (op_lez_amount oe))),
      (''OFFER_ETH_AMOUNT_WEI'', show_nat (unat (op_eth_amount_wei oe))),
      (''OFFER_MAKER_ETH_ADDRESS'', op_maker_eth_address oe),
      (''OFFER_MAKER_LEZ_ACCOUNT'', op_maker_lez_account oe),
      (''OFFER_LEZ_TIMELOCK_MINUTES'', show_nat (unat (op_lez_timelock_minutes oe))),
      (''OFFER_ETH_TIMELOCK_MINUTES'', show_nat (unat (op_eth_timelock_minutes oe))),
      (''OFFER_LEZ_HTLC_PROGRAM_ID'', op_lez_htlc_program_id_hex oe),
      (''OFFER_ETH_HTLC_ADDRESS'', op_eth_htlc_address oe),
      (''OFFER_HEARTBEAT_SECS'', show_nat (unat heartbeat_secs))]"

section \<open>The supervisor of the offer publisher\<close>

text \<open>\<open>str::contains\<close>.\<close>

fun str_contains :: "string \<Rightarrow> string \<Rightarrow> bool" where
  "str_contains pat [] = (pat = [])"
| "str_contains pat (c # s) = (take (length pat) (c # s) = pat \<or> str_contains pat s)"

definition note_status :: "status_op \<Rightarrow> unit io" where
  "note_status op = ext (\<lambda>_. XStatus op) (\<lambda>_. ())"

text \<open>A wait of so many seconds, one at a time; \<open>True\<close> when the cancel flag was seen set.\<close>

fun wait_secs :: "env \<Rightarrow> nat \<Rightarrow> bool io" where
  "wait_secs en 0 = ret False"
| "wait_secs en (Suc n) = do {
     cancelled \<leftarrow> ext XCancelled (a_cancelled en);
     if cancelled then ret True else do { sleep 1000; wait_secs en n } }"

text \<open>
  A running child: its output is read and the confirmed publishes are noted, until it has ended
  and its output is read to the end, or the cancellation is seen first: then the child is killed
  and reaped. \<open>Some True\<close> is the cancellation; \<open>None\<close> is a child that outlives the fuel.
\<close>

fun watch_child :: "nat \<Rightarrow> env \<Rightarrow> bool option io" where
  "watch_child 0 en = ret None"
| "watch_child (Suc n) en = do {
     ev \<leftarrow> ext XChild (a_child en);
     (case ev of
        ChildLine line \<Rightarrow> do {
          (if str_contains ''offer published ('' line
           then do { now_ms \<leftarrow> now_unix_ms en; note_status (NoteOfferPublish now_ms) }
           else ret ());
          watch_child n en }
      | ChildEnded \<Rightarrow> do { note_status (SetPublisherAlive False); ret (Some False) }
      | ChildCancelSeen \<Rightarrow> do {
          call XKill;
          note_status (SetPublisherAlive False);
          ret (Some True) }) }"

definition publisher_restart_secs :: nat where "publisher_restart_secs = 30"

text \<open>The body of \<open>spawn_offer_publisher\<close>.\<close>

fun offer_publisher :: "nat \<Rightarrow> nat \<Rightarrow> env \<Rightarrow> unit rio" where
  "offer_publisher lines 0 en = ret Pending"
| "offer_publisher lines (Suc n) en = do {
     cancelled \<leftarrow> ext XCancelled (a_cancelled en);
     if cancelled then ret (Ok ())
     else do {
       spawned \<leftarrow> ext XSpawn (a_spawn en);
       ended \<leftarrow>
         (case spawned of
            Inr _ \<Rightarrow> do { note_status (SetPublisherAlive True); watch_child lines en }
          | Inl e \<Rightarrow> do { note_status (SetPublisherAlive False); ret (Some False) });
       (case ended of
          None \<Rightarrow> ret Pending
        | Some True \<Rightarrow> ret (Ok ())
        | Some False \<Rightarrow> do {
            stop \<leftarrow> wait_secs en publisher_restart_secs;
            if stop then ret (Ok ()) else offer_publisher lines n en }) } }"

section \<open>Funding in the background\<close>

definition fund_to_target :: "nat \<Rightarrow> nat \<Rightarrow> env \<Rightarrow> lez_setup \<Rightarrow> swap_config \<Rightarrow> u128 \<Rightarrow> u128 rio" where
  "fund_to_target tries fuel en su cfg target =
     tryM (ret (lez_client_new su cfg)) (\<lambda>c. client_claim_to_target tries fuel en c target True)"

text \<open>One check: a balance below the mark is topped up; whatever fails is left to the next check.\<close>

definition top_up :: "nat \<Rightarrow> nat \<Rightarrow> env \<Rightarrow> lez_setup \<Rightarrow> swap_config \<Rightarrow> u128 \<Rightarrow> unit rio" where
  "top_up tries fuel en su cfg fund_low_water =
     (case lez_client_new su cfg of
        Ok c \<Rightarrow> do {
          (balance_read, _) \<leftarrow> get_balance_with_retry en (lc_account_id c)
            (\<lambda>e captured. do { note_status IncrTransient; ret captured }) ();
          (case balance_read of
             Ok balance \<Rightarrow>
               if balance < fund_low_water then do {
                 r \<leftarrow> client_claim_to_target tries fuel en c fund_low_water False;
                 (case r of
                    Ok new_balance \<Rightarrow> ret (Ok ())
                  | Err e \<Rightarrow> ret (Ok ())
                  | Panic m \<Rightarrow> ret (Panic m)
                  | Pending \<Rightarrow> ret Pending) }
               else ret (Ok ())
           | Err e \<Rightarrow> ret (Ok ())
           | Panic m \<Rightarrow> ret (Panic m)
           | Pending \<Rightarrow> ret Pending) }
      | Err e \<Rightarrow> ret (Ok ())
      | Panic m \<Rightarrow> ret (Panic m)
      | Pending \<Rightarrow> ret Pending)"

fun fund_topper ::
  "nat \<Rightarrow> nat \<Rightarrow> nat \<Rightarrow> env \<Rightarrow> lez_setup \<Rightarrow> swap_config \<Rightarrow> u64 \<Rightarrow> u128 \<Rightarrow> unit rio" where
  "fund_topper tries fuel 0 en su cfg fund_check_secs fund_low_water = ret Pending"
| "fund_topper tries fuel (Suc n) en su cfg fund_check_secs fund_low_water = do {
     cancelled \<leftarrow> ext XCancelled (a_cancelled en);
     if cancelled then ret (Ok ())
     else tryM (top_up tries fuel en su cfg fund_low_water) (\<lambda>_. do {
            stop \<leftarrow> wait_secs en (unat fund_check_secs);
            if stop then ret (Ok ())
            else fund_topper tries fuel n en su cfg fund_check_secs fund_low_water }) }"

section \<open>The writer of the status file\<close>

text \<open>
  A timed request is late before it starts or is answered in time; the account is the one the
  service started with. \<open>to::<u128>\<close> panics on a balance that does not fit.
\<close>

definition refresh_lez_balance :: "env \<Rightarrow> lez_setup \<Rightarrow> swap_config \<Rightarrow> account_id \<Rightarrow> unit rio" where
  "refresh_lez_balance en su cfg maker_account =
     (case lez_client_new su cfg of
        Ok c \<Rightarrow> do {
          r \<leftarrow> timed en (get_balance en maker_account);
          (case r of
             Some (Ok balance) \<Rightarrow> do { note_status (SetLezBalance balance); ret (Ok ()) }
           | Some (Panic m) \<Rightarrow> ret (Panic m)
           | Some Pending \<Rightarrow> ret Pending
           | _ \<Rightarrow> ret (Ok ())) }
      | Err e \<Rightarrow> ret (Ok ())
      | Panic m \<Rightarrow> ret (Panic m)
      | Pending \<Rightarrow> ret Pending)"

definition refresh_eth_balance :: "(string \<Rightarrow> string option) \<Rightarrow> env \<Rightarrow> swap_config \<Rightarrow> unit rio" where
  "refresh_eth_balance signer_err en cfg = do {
     client \<leftarrow> timed en (eth_client_new signer_err en cfg);
     (case client of
        Some (Ok ec) \<Rightarrow> do {
          r \<leftarrow> timed en (ext (XEthBalance (eth_recipient_address cfg)) (\<lambda>tr. a_eth_balance en tr (eth_recipient_address cfg)));
          (case r of
             Some (Inr balance) \<Rightarrow>
               if unat balance < 2 ^ 128 then do { note_status (SetEthBalance (ucast balance)); ret (Ok ()) }
               else ret (Panic ''Uint conversion error'')
           | _ \<Rightarrow> ret (Ok ())) }
      | Some (Panic m) \<Rightarrow> ret (Panic m)
      | Some Pending \<Rightarrow> ret Pending
      | _ \<Rightarrow> ret (Ok ())) }"

text \<open>The snapshot reads the shared state and the sizes of the journal, then the clock.\<close>

definition write_snapshot :: "env \<Rightarrow> unit io" where
  "write_snapshot en = do {
     (st, n_in_flight, n_quarantined) \<leftarrow> ext XSnapshot (a_snapshot en);
     now \<leftarrow> now_unix en;
     ext (XWriteStatus (status_snapshot st n_in_flight n_quarantined now)) (a_status_io en);
     ret () }"

fun status_writer ::
  "(string \<Rightarrow> string option) \<Rightarrow> nat \<Rightarrow> env \<Rightarrow> lez_setup \<Rightarrow> swap_config \<Rightarrow> account_id \<Rightarrow> unit rio" where
  "status_writer signer_err 0 en su cfg maker_account = ret Pending"
| "status_writer signer_err (Suc n) en su cfg maker_account = do {
     cancelled \<leftarrow> ext XCancelled (a_cancelled en);
     if cancelled then ret (Ok ())
     else tryM (refresh_lez_balance en su cfg maker_account) (\<lambda>_.
            tryM (refresh_eth_balance signer_err en cfg) (\<lambda>_. do {
              write_snapshot en;
              stop \<leftarrow> wait_secs en (unat status_write_interval_secs);
              if stop then ret (Ok ())
              else status_writer signer_err n en su cfg maker_account })) }"

section \<open>The standing loop\<close>

record maker_args =
  ma_hashlock :: "string option"
  ma_loop_mode :: bool
  ma_heartbeat_secs :: "u64 option"
  ma_fallback_heartbeat_secs :: "u64 option"
  ma_publisher_script :: "string option"
  ma_timelock_margin_minutes :: u64
  ma_restrict_counterparty :: bool
  ma_fund_to :: "u128 option"
  ma_status :: bool
  ma_fund_check_secs :: u64
  ma_fund_low_water :: "u128 option"
  ma_ops_report :: bool

definition default_publisher_script :: string where
  "default_publisher_script = ''offer-publisher/publish-offer.mjs''"

text \<open>The files that a command finds when it starts, and the parsers that read them.\<close>

record maker_host =
  mh_state_codec :: state_codec
  mh_state_file :: "string + string option"
  mh_event_codec :: event_codec
  mh_ops_path :: string
  mh_ops_file :: file_read
  mh_status_codec :: status_codec
  mh_status_files :: status_files
  mh_exists :: "string \<Rightarrow> bool"
  mh_printers :: printers
  mh_rounds :: nat
  mh_fuel :: nat

definition task :: "task_event \<Rightarrow> unit io" where
  "task t = call (XTask t)"

fun each_task :: "(nat \<Rightarrow> task_event) \<Rightarrow> nat \<Rightarrow> nat \<Rightarrow> unit io" where
  "each_task mk i 0 = ret ()"
| "each_task mk i (Suc n) = do { task (mk i); each_task mk (Suc i) n }"

text \<open>The script that will be run: the one asked for, or the default one where it exists.\<close>

definition publisher_script_of :: "maker_host \<Rightarrow> maker_args \<Rightarrow> string option" where
  "publisher_script_of h args =
     (case ma_publisher_script args of
        Some s \<Rightarrow> Some s
      | None \<Rightarrow> if mh_exists h default_publisher_script then Some default_publisher_script else None)"

text \<open>Whether the publisher was spawned, and the environment it was given.\<close>

definition start_publisher ::
  "maker_host \<Rightarrow> maker_args \<Rightarrow> swap_config \<Rightarrow> u64 \<Rightarrow> u64 \<Rightarrow> account_id \<Rightarrow> (string \<times> string) list option io" where
  "start_publisher h args cfg lez_minutes eth_minutes maker_account =
     (let hb = resolve_heartbeat (ma_heartbeat_secs args) (ma_fallback_heartbeat_secs args) in
      if hb_secs hb = 0 then ret None
      else
        (case publisher_script_of h args of
           Some script \<Rightarrow>
             if mh_exists h script then do {
               task (TaskSpawned TkPublisher);
               ret (Some (to_env
                 ((offer_env_from_config (mh_printers h) cfg lez_minutes eth_minutes)
                    \<lparr>op_maker_lez_account := account_id_to_base58 (p_base58 (mh_printers h)) maker_account\<rparr>)
                 (hb_secs hb))) }
             else ret None
         | None \<Rightarrow> ret None))"

definition reconcile_run_of :: "maker_loop \<Rightarrow> (string \<Rightarrow> string + bytes) \<Rightarrow> (string \<Rightarrow> bytes32 option) \<Rightarrow> reconcile_run" where
  "reconcile_run_of l hex_decode parse_swap_id = \<lparr> rc_env = ml_env l, rc_setup = ml_setup l,
     rc_signer_err = ml_signer_err l, rc_config = ml_base_config l, rc_hex_decode = hex_decode,
     rc_parse_swap_id = parse_swap_id \<rparr>"

text \<open>After the guards: the tasks, the loop, and the end of the tasks.\<close>

definition stop_tasks :: "env \<Rightarrow> bool \<Rightarrow> unit io" where
  "stop_tasks en publisher = do {
     task (TaskJoined TkDrain);
     call XSetCancel;
     (if publisher then task (TaskAborted TkPublisher) else ret ());
     task (TaskAborted TkStatusWriter);
     task (TaskAborted TkFundTopper);
     note_status (SetLoopState ''stopped'');
     write_snapshot en }"

definition serve_loop ::
  "maker_host \<Rightarrow> maker_args \<Rightarrow> maker_loop \<Rightarrow> account_id \<Rightarrow> loop_counters rio" where
  "serve_loop h args l maker_account =
     (let ac = ml_auto_config l in do {
      started_at \<leftarrow> now_unix (ml_env l);
      task (TaskSpawned TkSignal);
      publisher \<leftarrow> start_publisher h args (ml_base_config l) (aa_lez_timelock_minutes ac)
        (aa_eth_timelock_minutes ac) maker_account;
      task (TaskSpawned TkStatusWriter);
      task (TaskSpawned TkFundTopper);
      task (TaskSpawned TkDrain);
      tryM (run_maker_loop (mh_rounds h) (mh_fuel h) l) (\<lambda>result. do {
        stop_tasks (ml_env l) (publisher \<noteq> None);
        ret (Ok result) }) })"

text \<open>\<open>None\<close> is the early return that leaves the unfinished swaps to the next start.\<close>

definition recover_then_serve ::
  "maker_host \<Rightarrow> maker_args \<Rightarrow> maker_loop \<Rightarrow> lez_client \<Rightarrow> reconcile_run \<Rightarrow> state_store \<Rightarrow> loop_counters option rio" where
  "recover_then_serve h args l lc rc store =
     tryM (reconcile (mh_fuel h) rc store) (\<lambda>resume_handles. do {
       each_task (\<lambda>i. TaskSpawned (TkResume i)) 0 (length resume_handles);
       each_task (\<lambda>i. TaskJoined (TkResume i)) 0 (length resume_handles);
       busy \<leftarrow> ext XBusy (a_busy (ml_env l));
       if busy then ret (Ok None)
       else do {
         (balance_read, _) \<leftarrow> get_balance_with_retry (ml_env l) (lc_account_id lc) (\<lambda>e captured. ret captured) ();
         tryM (ret balance_read) (\<lambda>balance.
           if balance < lez_amount (ml_base_config l)
           then ret (Err (InvalidConfig ''insufficient LEZ inventory''))
           else tryM (serve_loop h args l (lc_account_id lc)) (\<lambda>result. ret (Ok (Some result)))) } })"

text \<open>
  \<open>cmd_maker_loop\<close>. The signer, the setup and the environment come in \<open>l\<close>, whose time locks,
  margin and progress flag are set here; the low-water mark only reaches the top-up task.
\<close>

definition loop_of :: "maker_args \<Rightarrow> u64 option \<times> u64 option \<Rightarrow> maker_loop \<Rightarrow> maker_loop" where
  "loop_of args minutes l = l\<lparr>
     ml_auto_config := \<lparr> aa_lez_timelock_minutes = (case fst minutes of Some m \<Rightarrow> m | None \<Rightarrow> loop_default_lez_timelock_minutes),
                         aa_eth_timelock_minutes = (case snd minutes of Some m \<Rightarrow> m | None \<Rightarrow> loop_default_eth_timelock_minutes) \<rparr>,
     ml_progress := True,
     ml_margin_secs := ma_timelock_margin_minutes args * 60 \<rparr>"

definition cmd_maker_loop ::
  "maker_host \<Rightarrow> (string \<Rightarrow> string + bytes) \<Rightarrow> (string \<Rightarrow> bytes32 option) \<Rightarrow> maker_args \<Rightarrow>
     u64 option \<times> u64 option \<Rightarrow> maker_loop \<Rightarrow> loop_counters option rio" where
  "cmd_maker_loop h hex_decode parse_swap_id args minutes l0 =
     (let l = loop_of args minutes l0; cfg = ml_base_config l; ac = ml_auto_config l in
      if ma_hashlock args \<noteq> None
      then ret (Err (InvalidConfig ''--hashlock cannot be combined with --loop''))
      else tryM (ret (validate_timelocks (aa_lez_timelock_minutes ac) (aa_eth_timelock_minutes ac)
                        (ma_timelock_margin_minutes args))) (\<lambda>_.
        if ma_restrict_counterparty args \<and> lez_taker_account_id cfg = None
        then ret (Err (InvalidConfig ''--restrict-counterparty was set but no designated taker was given''))
        else tryM (ret (lez_client_new (ml_setup l) cfg)) (\<lambda>lc.
          tryM (case ma_fund_to args of
                  Some target \<Rightarrow> tryM (fund_to_target (mh_rounds h) (mh_fuel h) (ml_env l) (ml_setup l) cfg target) (\<lambda>_. ret (Ok ()))
                | None \<Rightarrow> ret (Ok ())) (\<lambda>_.
          tryM (ret (store_load (mh_state_codec h) (mh_state_file h))) (\<lambda>store.
          tryM (ret (ledger_load (mh_event_codec h) (mh_ops_path h) (mh_ops_file h))) (\<lambda>ops_ledger.
            recover_then_serve h args l lc (reconcile_run_of l hex_decode parse_swap_id) store))))))"

text \<open>\<open>saturating_mul\<close>; the low-water mark of the top-up is three swaps unless given.\<close>

definition sat_mul :: "u128 \<Rightarrow> u128 \<Rightarrow> u128" where
  "sat_mul a b = (if unat a * unat b < 2 ^ 128 then a * b else - 1)"

definition fund_low_water_of :: "maker_args \<Rightarrow> swap_config \<Rightarrow> u128" where
  "fund_low_water_of args cfg =
     (case ma_fund_low_water args of Some m \<Rightarrow> m | None \<Rightarrow> sat_mul (lez_amount cfg) 3)"

text \<open>The programs of the tasks that the command spawns; the drain is \<open>drain\<close> and the signal sets the flag.\<close>

definition task_program :: "maker_host \<Rightarrow> maker_args \<Rightarrow> maker_loop \<Rightarrow> lez_client \<Rightarrow> reconcile_run \<Rightarrow>
    resumption list \<Rightarrow> maker_task \<Rightarrow> unit rio" where
  "task_program h args l lc rc resumptions t =
     (let en = ml_env l; su = ml_setup l; cfg = ml_base_config l in
      case t of
        TkResume i \<Rightarrow> resume_swap (mh_fuel h) rc (resumptions ! i)
      | TkSignal \<Rightarrow> do { call XSetCancel; ret (Ok ()) }
      | TkPublisher \<Rightarrow> offer_publisher (mh_fuel h) (mh_rounds h) en
      | TkStatusWriter \<Rightarrow> status_writer (ml_signer_err l) (mh_rounds h) en su cfg (lc_account_id lc)
      | TkFundTopper \<Rightarrow> fund_topper (mh_rounds h) (mh_fuel h) (mh_rounds h) en su cfg
                          (ma_fund_check_secs args) (fund_low_water_of args cfg)
      | TkDrain \<Rightarrow> ret (Ok ()))"

section \<open>The command\<close>

datatype maker_result =
    StatusHealthy
  | OpsReport ops_report
  | FundedTo u128
  | LoopEnded "loop_counters option"
  | SingleSwap swap_outcome

definition cmd_maker_ops_report :: "maker_host \<Rightarrow> (swap_error, ops_report) res" where
  "cmd_maker_ops_report h =
     res_bind (ledger_load (mh_event_codec h) (mh_ops_path h) (mh_ops_file h)) (\<lambda>ledger. Ok (ledger_report ledger))"

definition create_clients ::
  "(string \<Rightarrow> string option) \<Rightarrow> env \<Rightarrow> lez_setup \<Rightarrow> swap_config \<Rightarrow> (eth_client \<times> lez_client) rio" where
  "create_clients signer_err en su cfg =
     tryM (eth_client_new signer_err en cfg) (\<lambda>ec.
       tryM (ret (lez_client_new su cfg)) (\<lambda>lc. ret (Ok (ec, lc))))"

definition parse_hashlock_arg :: "(string \<Rightarrow> string + bytes) \<Rightarrow> string option \<Rightarrow> (swap_error, bytes32 option) res" where
  "parse_hashlock_arg hex_decode arg =
     (case arg of
        None \<Rightarrow> Ok None
      | Some hex_str \<Rightarrow>
          (case hex_decode hex_str of
             Inl e \<Rightarrow> Err (InvalidConfig (''invalid hashlock hex: '' @ e))
           | Inr b \<Rightarrow> if length b = 32 then Ok (Some b)
                      else Err (InvalidConfig ''hashlock must be 32 bytes (64 hex chars)'')))"

definition cmd_maker ::
  "maker_host \<Rightarrow> (string \<Rightarrow> string + bytes) \<Rightarrow> (string \<Rightarrow> bytes32 option) \<Rightarrow> maker_args \<Rightarrow>
     u64 option \<times> u64 option \<Rightarrow> maker_loop \<Rightarrow> maker_result rio" where
  "cmd_maker h hex_decode parse_swap_id args minutes l =
     (let en = ml_env l; su = ml_setup l; cfg = ml_base_config l in
      if ma_status args then do {
        now \<leftarrow> now_unix en;
        ret (res_bind (cmd_maker_status (mh_status_codec h) (mh_status_files h) now
               (ma_heartbeat_secs args) (ma_fallback_heartbeat_secs args)) (\<lambda>_. Ok StatusHealthy)) }
      else if ma_ops_report args then ret (res_bind (cmd_maker_ops_report h) (\<lambda>r. Ok (OpsReport r)))
      else
        (case ma_fund_to args of
           Some target \<Rightarrow>
             if \<not> ma_loop_mode args
             then tryM (fund_to_target (mh_rounds h) (mh_fuel h) en su cfg target) (\<lambda>b. ret (Ok (FundedTo b)))
             else tryM (cmd_maker_loop h hex_decode parse_swap_id args minutes l) (\<lambda>r. ret (Ok (LoopEnded r)))
         | None \<Rightarrow>
             if ma_loop_mode args
             then tryM (cmd_maker_loop h hex_decode parse_swap_id args minutes l) (\<lambda>r. ret (Ok (LoopEnded r)))
             else tryM (create_clients (ml_signer_err l) en su cfg) (\<lambda>(ec, lc).
                    tryM (ret (parse_hashlock_arg hex_decode (ma_hashlock args))) (\<lambda>hashlock.
                      tryM (run_maker (mh_fuel h)
                              \<lparr> mr_env = en, mr_setup = su, mr_signer_err = ml_signer_err l, mr_config = cfg,
                                mr_eth = ec, mr_lez = lc, mr_progress = False, mr_guards = None \<rparr> hashlock False)
                        (\<lambda>outcome. ret (Ok (SingleSwap outcome)))))))"

section \<open>What stands outside the swap loop\<close>

text \<open>
  What only a maker that serves does: it takes on a swap in its books, locks LEZ, reports
  progress of the loop, or lets its offer be published.
\<close>

fun serves :: "interaction \<Rightarrow> bool" where
  "serves (XRecord h d r) = True"
| "serves (XOpsAccepted h d) = True"
| "serves (XProgress p) = True"
| "serves (XSend pid accs (HtlcPayload (LockInstr h t a ts)) r) = True"
| "serves (XSend pid accs (TransferPayload a) r) = True"
| "serves (XTask (TaskSpawned TkPublisher)) = True"
| "serves _ = False"

definition calm :: "interaction \<Rightarrow> bool" where
  "calm x \<longleftrightarrow> \<not> serves x \<and> \<not> is_task x"

lemma calm_simps [simp]:
  "calm (XNow t)" "calm (XInstant t0)" "calm (XSleep d)" "calm (XAccount a r0)" "calm (XBalance a b)" "calm (XNonces as ns)"
  "calm (XConnect c)" "calm (XVersion ad v)" "calm (XChainId ci)" "calm (XEthClaim sid p tx)" "calm (XEthGet sid g)"
  "calm (XSend pid accs (HtlcPayload RefundInstr) r)" "calm (XSend pid accs InitializePayload r)"
  "calm (XSend pid accs (PinataPayload n) r)" "calm (XFunded h)" "calm (XClear h)" "calm (XQuarantine h rs)"
  "calm (XOpsTerminal h os)" "calm (XOwner a ow)" "calm (XElapsed l)" "calm (XPow pw)" "calm (XFunding f)"
  "calm (XBusy bz)" "calm (XCancelled cc)" "calm (XStatus op)"
  by (simp_all add: calm_def)

lemma silent_calm:
  assumes "quiet x" "\<not> is_progress x" "\<not> is_task x"
  shows "calm x"
  using assms by (cases x) (simp_all add: calm_def)

lemma calm_refund: "emits calm (refund_confirmed n en c h)"
  by (rule emits_refund_confirmed) (simp_all add: silent_calm)

lemma calm_call: "calm x \<Longrightarrow> emits calm (call x)"
  by (simp add: call_def emits_ext)

lemma calm_books: "emits calm (store_remove h)" "emits calm (store_quarantine h r)" "emits calm (ops_terminal h st)"
  by (simp_all add: store_remove_def store_quarantine_def ops_terminal_def calm_call)

lemma calm_now_ms: "emits calm (now_unix_ms en)"
  unfolding now_unix_ms_def by (intro emits_intros) simp

lemma calm_escrow_read: "emits calm (read_escrow_bounded en c h)"
proof -
  have "emits calm (get_escrow en c h)" unfolding get_escrow_def Let_def by (intro emits_intros) simp
  then have "emits calm (read_escrow_attempts (get_escrow en c h) poll n err k)" for poll n err k
  proof (induction n arbitrary: err k)
    case (Suc n)
    then show ?case unfolding read_escrow_attempts.simps Let_def
      by (intro emits_bind Suc.prems) (auto split: res.splits option.splits intro!: emits_intros)
  qed (simp add: emits_ret)
  then show ?thesis by (simp add: read_escrow_bounded_def read_escrow_bounded_with_def)
qed

lemma calm_balance: "emits calm (get_balance en acc)"
  unfolding get_balance_def by (intro emits_intros) simp

lemma calm_max_balance: "emits calm (max_escrow_balance en c pda enough)"
proof -
  have "emits calm (max_balance_attempts (get_balance en pda) poll enough n best)" for poll n best
  proof (induction n arbitrary: best)
    case (Suc n)
    then show ?case unfolding max_balance_attempts.simps Let_def
      by (intro emits_bind calm_balance) (auto split: res.splits option.splits intro!: emits_intros)
  qed (simp add: emits_ret)
  then show ?thesis by (simp add: max_escrow_balance_def max_escrow_balance_with_def)
qed

lemma calm_eth_client: "emits calm (eth_client_new se en cfg)"
  by (rule emits_eth_client_new) simp_all

lemma calm_claim_eth: "emits calm (claim_eth rc sid p)"
proof -
  have "emits calm (claim_eth_open en i p)" for en i
    unfolding claim_eth_open_def eth_claim_def by (auto intro!: emits_intros split: res.splits)
  then show ?thesis unfolding claim_eth_def
    by (auto intro!: emits_intros calm_eth_client split: option.splits res.splits)
qed

lemma calm_settle: "emits calm (settle_claim rc entry p)"
  unfolding settle_claim_def by (intro emits_intros calm_claim_eth calm_books)

lemma calm_recover: "emits calm (recover_claimed_escrow rc entry escrow)"
  unfolding recover_claimed_escrow_def by (intro emits_intros calm_settle calm_books)

lemma calm_refund_expired: "emits calm (refund_expired n rc c entry h)"
  unfolding refund_expired_def
  by (auto intro!: emits_intros calm_refund calm_settle calm_books split: res.split refund_outcome.split)

lemma calm_recheck: "emits calm (recheck_wedge rc c entry h escrow)"
proof -
  have "emits calm (wedge_decision rc entry pre b post now tl am)" for pre b post now tl am
    unfolding wedge_decision_def
    by (auto intro!: emits_intros calm_recover calm_books split: wedge_disposition.split option.split)
  then show ?thesis unfolding recheck_wedge_def Let_def
    by (intro emits_intros calm_escrow_read calm_max_balance calm_now_ms)
qed

lemma calm_reconcile_entry: "emits calm (reconcile_entry n rc c entry)"
proof -
  have "emits calm (reconcile_locked n rc c entry h escrow)" for h escrow
    unfolding reconcile_locked_def Let_def
    by (intro emits_intros calm_max_balance calm_now_ms calm_recheck calm_refund_expired)
  then have "emits calm (reconcile_present n rc c entry h escrow)" for h escrow
    unfolding reconcile_present_def Let_def
    by (auto intro!: emits_intros calm_call calm_recover calm_books split: htlc_state.split)
  moreover have "emits calm (reconcile_absent entry rd)" for rd
    unfolding reconcile_absent_def by (auto intro!: emits_intros calm_books split: absent_escrow_action.split)
  ultimately show ?thesis unfolding reconcile_entry_def
    by (intro emits_intros calm_books calm_escrow_read)
qed

lemma calm_reconcile: "emits calm (reconcile n rc st)"
proof -
  have "emits calm (reconcile_entries n rc c es)" for c es
  proof (induction es)
    case (Cons entry es)
    then show ?case unfolding reconcile_entries.simps by (intro emits_intros calm_reconcile_entry)
  qed (simp add: emits_ret)
  then show ?thesis unfolding reconcile_def by (auto intro!: emits_intros split: res.split)
qed

text \<open>Funding.\<close>

lemma calm_read_balance: "emits calm (read_balance en acc)"
  unfolding read_balance_def by (intro emits_intros) simp

lemma calm_emit: "emits calm (emit sender p)"
  unfolding emit_def by (intro emits_intros) simp

lemma calm_timed: "emits calm m \<Longrightarrow> emits calm (timed en m)"
  unfolding timed_def by (intro emits_intros) simp_all

lemma calm_challenge: "emits calm (pinata_challenge en)"
  unfolding pinata_challenge_def by (intro emits_intros) simp


lemma calm_ensure: "emits calm (ensure_initialized n en acc)"
proof -
  have owner: "emits calm (read_owner en acc)" unfolding read_owner_def by (intro emits_intros) simp
  have "emits calm (owner_attempts k en acc le)" for k le
  proof (induction k arbitrary: le)
    case (Suc k)
    then show ?case unfolding owner_attempts.simps by (intro emits_intros owner) simp_all
  qed (simp add: emits_ret)
  moreover have "emits calm (await_init k en acc tx dl)" for k tx dl
  proof (induction k)
    case (Suc k)
    then show ?case unfolding await_init.simps by (intro emits_intros owner) simp_all
  qed (simp add: emits_ret)
  then have "emits calm (submit_initialize n en acc)"
    unfolding submit_initialize_def by (intro emits_intros) simp_all
  ultimately show ?thesis unfolding ensure_initialized_def by (intro emits_intros)
qed

lemma calm_one_claim: "emits calm (one_claim n en acc progress balance)"
proof -
  have "emits calm (await_commit_loop k en acc b seed dl)" for k b seed dl
  proof (induction k)
    case (Suc k)
    then show ?case unfolding await_commit_loop.simps
      by (intro emits_intros calm_timed calm_read_balance calm_challenge) simp_all
  qed (simp add: emits_ret)
  then have "emits calm (await_claim_commit n en acc b seed)" for b seed
    unfolding await_claim_commit_def by (intro emits_intros) simp
  moreover have "emits calm (attempt_claim en acc)"
    unfolding attempt_claim_def solve_claim_def submit_solved_claim_def Let_def
    by (intro emits_intros calm_challenge) simp_all
  ultimately show ?thesis unfolding one_claim_def
    by (auto intro!: emits_intros calm_emit)
qed

lemma calm_claim_to_target: "emits calm (client_claim_to_target k n en c target progress)"
proof -
  have balance: "emits calm (balance_read_attempts j en acc le)" for j acc le
  proof (induction j arbitrary: le)
    case (Suc j)
    then show ?case unfolding balance_read_attempts.simps by (intro emits_intros) simp_all
  qed (simp add: emits_ret)
  have "emits calm (claim_loop n k en acc target progress failures claims)" for acc failures claims
  proof (induction k arbitrary: failures claims)
    case (Suc k)
    then show ?case unfolding claim_loop.simps read_balance_retrying_def
      by (auto intro!: emits_intros balance calm_emit calm_one_claim split: res.split)
  qed (simp add: emits_ret)
  then show ?thesis unfolding client_claim_to_target_def claim_to_target_def as_lez_transaction_def
    by (intro emits_intros calm_emit calm_ensure)
qed

lemma calm_fund: "emits calm (fund_to_target k n en su cfg target)"
  unfolding fund_to_target_def by (intro emits_intros calm_claim_to_target)

text \<open>A retried balance read emits what its closure emits, and what it returns was read.\<close>

lemma run_balance:
  "a_balance en tr acc = Inr b \<Longrightarrow> run_state (get_balance en acc) tr = (Ok b, tr @ [XBalance acc (Inr b)])"
  "a_balance en tr acc = Inl e \<Longrightarrow>
     \<exists>le. run_state (get_balance en acc) tr = (Err le, tr @ [XBalance acc (Inl e)])"
  by (simp_all add: get_balance_def run_simps map_err_def)

lemma calm_retry:
  assumes "\<And>e k. emits calm (f e k)"
  shows "emits calm (get_balance_with_retry en acc f k)"
proof -
  have "emits calm (balance_attempts (get_balance en acc) f n d le k)" for n d le k
  proof (induction n arbitrary: d le)
    case (Suc n)
    then show ?case unfolding balance_attempts.simps
      by (intro emits_bind calm_balance) (auto intro!: emits_intros assms split: res.split)
  qed (auto intro!: emits_intros assms split: option.split)
  then show ?thesis by (simp add: get_balance_with_retry_def balance_with_retry_core_def)
qed

lemma balance_attempts_read:
  "run_state (balance_attempts (get_balance en acc) (\<lambda>e k. ret k) n d le k) tr = ((Ok b, k'), tr') \<Longrightarrow>
   XBalance acc (Inr b) \<in> set (drop (length tr) tr')"
proof (induction n arbitrary: d le tr)
  case (Suc n)
  let ?x = "XBalance acc (a_balance en tr acc)"
  have later: "XBalance acc (Inr b) \<in> set (drop (length tr) tr')"
    if run: "run_state (balance_attempts (get_balance en acc) (\<lambda>e k. ret k) n d' le' k) (tr @ w) = ((Ok b, k'), tr')" for d' le' w
    using Suc.IH [OF run] set_drop_subset_set_drop [of "length tr" "length (tr @ w)" tr'] by auto
  show ?case
  proof (cases "a_balance en tr acc")
    case (Inr b0)
    then show ?thesis using Suc.prems by (auto simp: run_balance split: option.splits)
  next
    case (Inl e)
    then obtain le where "run_state (get_balance en acc) tr = (Err le, tr @ [?x])" using run_balance(2) by metis
    then have "run_state (balance_attempts (get_balance en acc) (\<lambda>e k. ret k) (Suc n) d last k) tr =
        run_state (if 0 < n then sleep d \<bind> (\<lambda>_. balance_attempts (get_balance en acc) (\<lambda>e k. ret k) n (min (d * 2) 30000) (Some le) k)
          else balance_attempts (get_balance en acc) (\<lambda>e k. ret k) n d (Some le) k) (tr @ [?x])" for last
      by simp
    then show ?thesis using Suc.prems later [of _ _ "[?x]"] later [of _ _ "[?x, XSleep d]"]
      by (auto simp: run_simps split: if_splits)
  qed
qed (auto split: option.splits)

section \<open>The service serves only after recovery\<close>

text \<open>
  The moment that opens the service: every resumed swap has been awaited, the journal then holds
  no unfinished swap, and after that the balance has been read to cover the offer.
\<close>

definition ready :: "account_id \<Rightarrow> u128 \<Rightarrow> trace \<Rightarrow> bool" where
  "ready acc amount hist \<longleftrightarrow> (\<exists>us vs b. hist = us @ XBusy False # vs \<and>
     (\<forall>i. XTask (TaskSpawned (TkResume i)) \<in> set us \<longrightarrow> XTask (TaskJoined (TkResume i)) \<in> set us) \<and>
     XBalance acc (Inr b) \<in> set vs \<and> amount \<le> b)"

definition may_serve :: "maker_args \<Rightarrow> maker_loop \<Rightarrow> trace \<Rightarrow> interaction \<Rightarrow> bool" where
  "may_serve args l hist x \<longleftrightarrow> (serves x \<longrightarrow>
     ma_hashlock args = None \<and>
     validate_timelocks (aa_lez_timelock_minutes (ml_auto_config l)) (aa_eth_timelock_minutes (ml_auto_config l))
       (ma_timelock_margin_minutes args) = Ok () \<and>
     (ma_restrict_counterparty args \<longrightarrow> lez_taker_account_id (ml_base_config l) \<noteq> None) \<and>
     (\<exists>lc. lez_client_new (ml_setup l) (ml_base_config l) = Ok lc \<and>
        ready (lc_account_id lc) (lez_amount (ml_base_config l)) hist))"

definition gated :: "(trace \<Rightarrow> bool) \<Rightarrow> trace \<Rightarrow> 'a io \<Rightarrow> bool" where
  "gated G us m \<longleftrightarrow>
     (\<forall>tr. \<exists>e. snd (run_state m tr) = tr @ e \<and> each (\<lambda>hist x. serves x \<longrightarrow> G hist) us e)"

lemma each_closed: "list_all (\<lambda>x. \<not> serves x) e \<Longrightarrow> each (\<lambda>hist x. serves x \<longrightarrow> G hist) us e"
  by (induction e arbitrary: us) auto

lemma gated_calm: "emits calm m \<Longrightarrow> gated G us m"
  unfolding emits_def gated_def calm_def by (metis (mono_tags, lifting) each_closed list.pred_mono_strong)

lemma gated_open:
  assumes "emits (\<lambda>_. True) m" "\<And>e. G (us @ e)"
  shows "gated G us m"
proof -
  have "each (\<lambda>hist x. serves x \<longrightarrow> G hist) us e" for e
    using assms(2) by (auto simp: each_iff)
  then show ?thesis using assms(1) unfolding emits_def gated_def by metis
qed

lemma gated_bind:
  assumes "\<And>tr. \<exists>e. snd (run_state m tr) = tr @ e \<and> list_all (\<lambda>x. \<not> serves x) e \<and> Q (fst (run_state m tr)) e"
    and "\<And>a e. Q a e \<Longrightarrow> gated G (us @ e) (f a)"
  shows "gated G us (m \<bind> f)"
proof -
  have "\<exists>e. snd (run_state (m \<bind> f) tr) = tr @ e \<and> each (\<lambda>hist x. serves x \<longrightarrow> G hist) us e" for tr
  proof -
    obtain a tr1 where m: "run_state m tr = (a, tr1)" by fastforce
    obtain e1 where e1: "tr1 = tr @ e1" "list_all (\<lambda>x. \<not> serves x) e1" "Q a e1"
      using assms(1) [of tr] m by auto
    obtain e2 where "snd (run_state (f a) tr1) = tr1 @ e2" "each (\<lambda>hist x. serves x \<longrightarrow> G hist) (us @ e1) e2"
      using assms(2) [OF e1(3)] unfolding gated_def by metis
    then show ?thesis using m e1(1) each_closed [OF e1(2)] by (intro exI [of _ "e1 @ e2"]) (simp add: each_append)
  qed
  then show ?thesis by (simp add: gated_def)
qed

lemma calm_closed: "list_all calm e \<Longrightarrow> list_all (\<lambda>x. \<not> serves x) e \<and> \<not> list_ex is_task e"
  by (induction e) (auto simp: calm_def)

lemma gated_then:
  assumes "emits calm m" "\<And>a e. list_all calm e \<Longrightarrow> gated G (us @ e) (f a)"
  shows "gated G us (m \<bind> f)"
proof (rule gated_bind [where Q = "\<lambda>_ e. list_all calm e"])
  fix tr
  show "\<exists>e. snd (run_state m tr) = tr @ e \<and> list_all (\<lambda>x. \<not> serves x) e \<and> list_all calm e"
    using assms(1) calm_closed unfolding emits_def by blast
qed (rule assms(2))

lemma gated_tryM:
  assumes "emits calm m" "\<And>a e. list_all calm e \<Longrightarrow> gated G (us @ e) (f a)"
  shows "gated G us (tryM m f)"
  unfolding tryM_def
  by (rule gated_then [OF assms(1)]) (auto intro: gated_calm emits_ret assms(2) split: res.split)

lemma run_each_task: "run_state (each_task mk i n) tr = ((), tr @ map (\<lambda>j. XTask (mk j)) [i..<i + n])"
  by (induction n arbitrary: i tr) (simp_all add: task_def call_def run_ext upt_rec)

lemma serve_loop_appends: "emits (\<lambda>_. True) (serve_loop h args l acc)"
proof -
  have "emits (\<lambda>_. True) (maker_iterations fuel n l k)" for n fuel k
    using maker_iterations_halts unfolding emits_def by (metis list.pred_True prod.collapse)
  then have loop: "emits (\<lambda>_. True) (run_maker_loop n fuel l)" for n fuel
    unfolding run_maker_loop_def by (intro emits_intros) simp_all
  have "emits (\<lambda>_. True) (start_publisher h args cfg lm em acc)" for cfg lm em
    unfolding start_publisher_def Let_def task_def call_def by (intro emits_intros) simp_all
  moreover have "emits (\<lambda>_. True) (stop_tasks en b)" for en b
    unfolding stop_tasks_def write_snapshot_def task_def call_def note_status_def
    by (auto intro!: emits_intros split: prod.split)
  ultimately show ?thesis unfolding serve_loop_def Let_def task_def call_def
    by (intro emits_intros loop) simp_all
qed

lemma ready_later: "ready acc amount us \<Longrightarrow> ready acc amount (us @ e)"
proof -
  assume "ready acc amount us"
  then obtain xs vs b where "us = xs @ XBusy False # vs" "\<forall>i. XTask (TaskSpawned (TkResume i)) \<in> set xs \<longrightarrow>
      XTask (TaskJoined (TkResume i)) \<in> set xs" "XBalance acc (Inr b) \<in> set vs" "amount \<le> b"
    unfolding ready_def by blast
  then show ?thesis unfolding ready_def by (intro exI [of _ xs] exI [of _ "vs @ e"] exI [of _ b]) simp
qed

lemma gated_mono:
  assumes "gated G us m" "\<And>hist. G hist \<Longrightarrow> G' hist"
  shows "gated G' us m"
proof -
  have "each (\<lambda>hist x. serves x \<longrightarrow> G hist) us e \<Longrightarrow> each (\<lambda>hist x. serves x \<longrightarrow> G' hist) us e" for e
    by (induction e arbitrary: us) (auto intro: assms(2))
  then show ?thesis using assms(1) unfolding gated_def by meson
qed

lemma gated_ret: "gated G us (ret a)"
  by (intro gated_calm emits_ret)

lemma gated_tryM_ret: "(\<And>a. r = Ok a \<Longrightarrow> gated G us (f a)) \<Longrightarrow> gated G us (tryM (ret r) f)"
  by (cases r) (auto simp: tryM_def intro: gated_ret)

lemma gated_if: "(b \<Longrightarrow> gated G us p) \<Longrightarrow> (\<not> b \<Longrightarrow> gated G us q) \<Longrightarrow> gated G us (if b then p else q)"
  by simp

lemma retry_reads:
  assumes "run_state (get_balance_with_retry en acc (\<lambda>e k. ret k) u) tr = ((r, u'), tr')"
  shows "\<exists>e. tr' = tr @ e \<and> list_all calm e \<and> (\<forall>b. r = Ok b \<longrightarrow> XBalance acc (Inr b) \<in> set e)"
proof -
  have "emits calm (get_balance_with_retry en acc (\<lambda>e k. ret k) u)" by (rule calm_retry) (rule emits_ret)
  from emits_prefix [OF this assms] obtain e where e: "tr' = tr @ e" "list_all calm e" by blast
  moreover have "XBalance acc (Inr b) \<in> set e" if "r = Ok b" for b
    using balance_attempts_read assms that e(1)
    by (fastforce simp: get_balance_with_retry_def balance_with_retry_core_def)
  ultimately show ?thesis by blast
qed

lemma run_busy:
  "run_state (each_task (\<lambda>i. TaskSpawned (TkResume i)) 0 n \<bind> (\<lambda>_.
     each_task (\<lambda>i. TaskJoined (TkResume i)) 0 n \<bind> (\<lambda>_. ext XBusy (a_busy en) \<bind> f))) tr =
   run_state (f (a_busy en (tr @ map (\<lambda>j. XTask (TaskSpawned (TkResume j))) [0..<n] @
       map (\<lambda>j. XTask (TaskJoined (TkResume j))) [0..<n])))
     (tr @ map (\<lambda>j. XTask (TaskSpawned (TkResume j))) [0..<n] @ map (\<lambda>j. XTask (TaskJoined (TkResume j))) [0..<n] @
       [XBusy (a_busy en (tr @ map (\<lambda>j. XTask (TaskSpawned (TkResume j))) [0..<n] @
         map (\<lambda>j. XTask (TaskJoined (TkResume j))) [0..<n]))])"
  by (simp add: run_each_task run_ext)

lemma gated_recover:
  assumes "list_all calm us"
  shows "gated (ready (lc_account_id lc) (lez_amount (ml_base_config l))) us (recover_then_serve h args l lc rc store)"
proof -
  let ?G = "ready (lc_account_id lc) (lez_amount (ml_base_config l))"
  let ?spawn = "\<lambda>n. map (\<lambda>j. XTask (TaskSpawned (TkResume j))) [0..<n]"
  let ?join = "\<lambda>n. map (\<lambda>j. XTask (TaskJoined (TkResume j))) [0..<n]"
  let ?tail = "tryM (serve_loop h args l (lc_account_id lc)) (\<lambda>result. ret (Ok (Some result)))"
  have appends: "emits (\<lambda>_. True) ?tail" by (intro emits_intros serve_loop_appends)
  have serve: "gated ?G (us @ e @ ?spawn n @ ?join n @ XBusy False # e2) ?tail"
    if "list_all calm e" "XBalance (lc_account_id lc) (Inr b) \<in> set e2" "lez_amount (ml_base_config l) \<le> b" for e n e2 b
  proof (rule gated_open [OF appends], rule ready_later)
    have "XTask (TaskSpawned t) \<notin> set (us @ e)" for t
      using assms that(1) unfolding list_all_iff calm_def by auto
    then show "?G (us @ e @ ?spawn n @ ?join n @ XBusy False # e2)"
      using that(2,3) unfolding ready_def
      by (intro exI [of _ "us @ e @ ?spawn n @ ?join n"] exI [of _ e2] exI [of _ b]) auto
  qed
  let ?after = "\<lambda>busy. if busy then ret (Ok None) else
      get_balance_with_retry (ml_env l) (lc_account_id lc) (\<lambda>e captured. ret captured) () \<bind> (\<lambda>(balance_read, _).
        tryM (ret balance_read) (\<lambda>balance. if balance < lez_amount (ml_base_config l)
          then ret (Err (InvalidConfig ''insufficient LEZ inventory''))
          else tryM (serve_loop h args l (lc_account_id lc)) (\<lambda>result. ret (Ok (Some result)))))"
  have after: "gated ?G (us @ e @ ?spawn n @ ?join n @ [XBusy b]) (?after b)" if "list_all calm e" for e n b
  proof (cases b)
    case False
    have "gated ?G (us @ e @ ?spawn n @ ?join n @ [XBusy b])
      (get_balance_with_retry (ml_env l) (lc_account_id lc) (\<lambda>e captured. ret captured) () \<bind> (\<lambda>(balance_read, _).
        tryM (ret balance_read) (\<lambda>balance. if balance < lez_amount (ml_base_config l)
          then ret (Err (InvalidConfig ''insufficient LEZ inventory''))
          else tryM (serve_loop h args l (lc_account_id lc)) (\<lambda>result. ret (Ok (Some result))))))"
    proof (rule gated_bind [where Q = "\<lambda>a e2. \<forall>b. fst a = Ok b \<longrightarrow> XBalance (lc_account_id lc) (Inr b) \<in> set e2"])
      fix tr
      show "\<exists>e. snd (run_state (get_balance_with_retry (ml_env l) (lc_account_id lc) (\<lambda>e captured. ret captured) ()) tr) = tr @ e \<and>
          list_all (\<lambda>x. \<not> serves x) e \<and>
          (\<forall>b. fst (fst (run_state (get_balance_with_retry (ml_env l) (lc_account_id lc) (\<lambda>e captured. ret captured) ()) tr)) = Ok b \<longrightarrow>
            XBalance (lc_account_id lc) (Inr b) \<in> set e)"
      proof -
        obtain r u' tr' where run: "run_state (get_balance_with_retry (ml_env l) (lc_account_id lc) (\<lambda>e captured. ret captured) ()) tr = ((r, u'), tr')"
          by (metis prod.collapse)
        from retry_reads [OF this] obtain e where "tr' = tr @ e" "list_all calm e"
          "\<forall>b. r = Ok b \<longrightarrow> XBalance (lc_account_id lc) (Inr b) \<in> set e" by blast
        then show ?thesis unfolding run using calm_closed by (intro exI [of _ e]) simp
      qed
    next
      fix a :: "(swap_error, u128) res \<times> unit" and e2
      assume a: "\<forall>b. fst a = Ok b \<longrightarrow> XBalance (lc_account_id lc) (Inr b) \<in> set e2"
      obtain r u where r: "a = (r, u)" by (rule prod.exhaust)
      have tail: "gated ?G (us @ e @ ?spawn n @ ?join n @ XBusy False # e2) ?tail"
        if "r = Ok b" "\<not> b < lez_amount (ml_base_config l)" for b
        by (rule serve [OF \<open>list_all calm e\<close>]) (use a that r in auto)
      show "gated ?G ((us @ e @ ?spawn n @ ?join n @ [XBusy b]) @ e2) (case a of (balance_read, _) \<Rightarrow>
          tryM (ret balance_read) (\<lambda>balance. if balance < lez_amount (ml_base_config l)
            then ret (Err (InvalidConfig ''insufficient LEZ inventory''))
            else tryM (serve_loop h args l (lc_account_id lc)) (\<lambda>result. ret (Ok (Some result)))))"
        using False r tail by (cases r) (auto simp: tryM_def intro: gated_calm emits_ret)
    qed
    then show ?thesis using False by simp
  qed (auto intro: gated_calm emits_ret)
  show ?thesis unfolding recover_then_serve_def
  proof (rule gated_tryM [OF calm_reconcile])
    fix handles :: "resumption list" and e assume e: "list_all calm e"
    let ?n = "length handles"
    let ?p = "each_task (\<lambda>i. TaskSpawned (TkResume i)) 0 ?n \<bind> (\<lambda>_. each_task (\<lambda>i. TaskJoined (TkResume i)) 0 ?n \<bind>
        (\<lambda>_. ext XBusy (a_busy (ml_env l)) \<bind> ?after))"
    have "\<exists>e'. snd (run_state ?p tr) = tr @ e' \<and> each (\<lambda>hist x. serves x \<longrightarrow> ?G hist) (us @ e) e'" for tr
    proof -
      obtain b where run: "run_state ?p tr = run_state (?after b) (tr @ ?spawn ?n @ ?join ?n @ [XBusy b])"
        using run_busy [of ?n "ml_env l" ?after tr] by blast
      obtain e2 where "snd (run_state (?after b) (tr @ ?spawn ?n @ ?join ?n @ [XBusy b])) =
          (tr @ ?spawn ?n @ ?join ?n @ [XBusy b]) @ e2"
        "each (\<lambda>hist x. serves x \<longrightarrow> ?G hist) (us @ e @ ?spawn ?n @ ?join ?n @ [XBusy b]) e2"
        using after [OF e, of ?n b] unfolding gated_def by blast
      moreover have "each (\<lambda>hist x. serves x \<longrightarrow> ?G hist) (us @ e) (?spawn ?n @ ?join ?n @ [XBusy b])"
        by (rule each_closed) (auto simp: list_all_iff)
      ultimately show ?thesis unfolding run
        by (intro exI [of _ "(?spawn ?n @ ?join ?n @ [XBusy b]) @ e2"]) (simp add: each_append)
    qed
    then show "gated ?G (us @ e) ?p" by (simp add: gated_def)
  qed
qed

text \<open>
  C4. The maker serves only after recovery. Before a run of the standing bot takes on a swap,
  locks LEZ, reports progress of its loop or spawns the publisher of its offer: the time locks are
  validated, a restriction names its taker, every resumed swap has been awaited, the journal has
  answered that no swap is unfinished, and the balance was then read to cover the offer.
\<close>

theorem maker_serves_after_recovery:
  "\<exists>e. snd (run_state (cmd_maker_loop h hex_decode parse_swap_id args minutes l) tr) = tr @ e \<and>
     each (may_serve args (loop_of args minutes l)) [] e"
proof -
  let ?l = "loop_of args minutes l" let ?cmd = "cmd_maker_loop h hex_decode parse_swap_id args minutes l"
  let ?cfg = "ml_base_config ?l"
  let ?ok = "ma_hashlock args = None \<and>
     validate_timelocks (aa_lez_timelock_minutes (ml_auto_config ?l)) (aa_eth_timelock_minutes (ml_auto_config ?l))
       (ma_timelock_margin_minutes args) = Ok () \<and>
     (ma_restrict_counterparty args \<longrightarrow> lez_taker_account_id ?cfg \<noteq> None)"
  let ?G = "\<lambda>hist. ?ok \<and> (\<exists>lc. lez_client_new (ml_setup ?l) ?cfg = Ok lc \<and> ready (lc_account_id lc) (lez_amount ?cfg) hist)"
  have fund: "emits calm (case ma_fund_to args of
      Some target \<Rightarrow> tryM (fund_to_target n k en su cfg target) (\<lambda>_. ret (Ok ())) | None \<Rightarrow> ret (Ok ()))" for n k en su cfg
    by (intro emits_intros calm_fund)
  have recover: "gated ?G us (recover_then_serve h args ?l lc rc store)"
    if "?ok" "lez_client_new (ml_setup ?l) ?cfg = Ok lc" "list_all calm us" for us lc rc store
    by (rule gated_mono [OF gated_recover [OF that(3)]]) (use that in blast)
  have "gated ?G [] ?cmd" unfolding cmd_maker_loop_def Let_def
  proof (intro gated_if gated_ret gated_tryM_ret gated_tryM [OF fund])
    fix lc e store ops_ledger and u v :: unit
    assume a: "\<not> ma_hashlock args \<noteq> None"
      "validate_timelocks (aa_lez_timelock_minutes (ml_auto_config ?l)) (aa_eth_timelock_minutes (ml_auto_config ?l))
         (ma_timelock_margin_minutes args) = Ok u"
      "\<not> (ma_restrict_counterparty args \<and> lez_taker_account_id ?cfg = None)"
      "lez_client_new (ml_setup ?l) ?cfg = Ok lc" "list_all calm e"
    show "gated ?G ([] @ e) (recover_then_serve h args ?l lc (reconcile_run_of ?l hex_decode parse_swap_id) store)"
      by (rule recover) (use a in auto)
  qed
  moreover have "may_serve args ?l = (\<lambda>hist x. serves x \<longrightarrow> ?G hist)"
    by (intro ext) (auto simp: may_serve_def)
  ultimately show ?thesis unfolding gated_def by simp
qed

section \<open>No task outlives the command\<close>

fun live_step :: "maker_task list \<Rightarrow> interaction \<Rightarrow> maker_task list" where
  "live_step ts (XTask (TaskSpawned t)) = t # ts"
| "live_step ts (XTask (TaskJoined t)) = removeAll t ts"
| "live_step ts (XTask (TaskAborted t)) = removeAll t ts"
| "live_step ts _ = ts"

text \<open>The tasks spawned and neither awaited nor aborted.\<close>

definition live_tasks :: "maker_task list \<Rightarrow> trace \<Rightarrow> maker_task list" where
  "live_tasks ts e = foldl live_step ts e"

lemma live_tasks_simps [simp]:
  "live_tasks ts [] = ts" "live_tasks ts (x # e) = live_tasks (live_step ts x) e"
  "live_tasks ts (e @ e') = live_tasks (live_tasks ts e) e'"
  by (simp_all add: live_tasks_def)

lemma live_idle: "\<not> list_ex is_task e \<Longrightarrow> live_tasks ts e = ts"
proof (induction e arbitrary: ts)
  case (Cons x e)
  then show ?case by (cases x) simp_all
qed simp

lemma live_spawned:
  "live_tasks ts (map (\<lambda>j. XTask (TaskSpawned (TkResume j))) js) = rev (map TkResume js) @ ts"
  by (induction js arbitrary: ts) simp_all

lemma live_joined:
  "live_tasks ts (map (\<lambda>j. XTask (TaskJoined (TkResume j))) js) = filter (\<lambda>t. t \<notin> TkResume ` set js) ts"
  by (induction js arbitrary: ts) (auto simp: removeAll_filter_not_eq conj_commute intro: filter_cong)

lemma live_resumed:
  "live_tasks [] (map (\<lambda>j. XTask (TaskSpawned (TkResume j))) js @ map (\<lambda>j. XTask (TaskJoined (TkResume j))) js) = []"
  by (auto simp: live_spawned live_joined filter_empty_conv)

lemma loop_no_tasks:
  assumes "ml_progress l" "run_state (run_maker_loop n fuel l) tr = (Ok k, tr')"
  shows "\<exists>e. tr' = tr @ e \<and> \<not> list_ex is_task e"
proof -
  let ?k0 = "\<lparr> total_completed = 0, total_failed = 0, total_transient_errors = 0, loop_iteration = 0 \<rparr>"
  obtain r tr1 where r: "run_state (maker_iterations fuel n l ?k0) (tr @ [XProgress AutoAcceptStarted]) = (r, tr1)"
    by fastforce
  with assms obtain k1 where k1: "r = Ok k1" by (cases r) (auto simp: run_maker_loop_def run_tryM run_simps)
  from maker_iterations_counted [OF assms(1) r [unfolded k1]] obtain e
    where "tr1 = (tr @ [XProgress AutoAcceptStarted]) @ e" "counted ?k0 k1 e" by blast
  then show ?thesis using assms r k1
    by (auto simp: run_maker_loop_def run_tryM run_simps counted_def)
qed

text \<open>How a run of the standing bot ends: \<open>None\<close> is the early return.\<close>

definition closed_down :: "loop_counters option \<Rightarrow> trace \<Rightarrow> bool" where
  "closed_down out e \<longleftrightarrow>
     (case out of
        None \<Rightarrow> live_tasks [] e = []
      | Some k \<Rightarrow> live_tasks [] e = [TkSignal] \<and> XSetCancel \<in> set e \<and>
          (\<exists>us st n m now io. e = us @ [XStatus (SetLoopState ''stopped''), XSnapshot (st, n, m), XNow now,
             XWriteStatus (status_snapshot st n m now) io]))"

lemma closed_down_after: "live_tasks [] us = [] \<Longrightarrow> closed_down out e \<Longrightarrow> closed_down out (us @ e)"
  unfolding closed_down_def by (auto split: option.splits)

lemma run_start_publisher:
  "\<exists>p. run_state (start_publisher h args cfg lm em acc) tr =
     (p, tr @ (if p = None then [] else [XTask (TaskSpawned TkPublisher)]))"
  by (auto simp: start_publisher_def Let_def task_def call_def run_ext split: option.split)

lemma run_stop_tasks:
  "\<exists>st n m now io. run_state (stop_tasks en b) tr = ((), tr @ [XTask (TaskJoined TkDrain), XSetCancel] @
     (if b then [XTask (TaskAborted TkPublisher)] else []) @ [XTask (TaskAborted TkStatusWriter),
      XTask (TaskAborted TkFundTopper), XStatus (SetLoopState ''stopped''), XSnapshot (st, n, m), XNow now,
      XWriteStatus (status_snapshot st n m now) io])"
proof -
  have "\<exists>st n m now io. run_state (write_snapshot en) tr =
      ((), tr @ [XSnapshot (st, n, m), XNow now, XWriteStatus (status_snapshot st n m now) io])" for tr
    by (cases "a_snapshot en tr") (auto simp: write_snapshot_def run_ext run_now)
  from this [of "tr @ [XTask (TaskJoined TkDrain), XSetCancel] @ (if b then [XTask (TaskAborted TkPublisher)] else []) @
      [XTask (TaskAborted TkStatusWriter), XTask (TaskAborted TkFundTopper), XStatus (SetLoopState ''stopped'')]"]
  show ?thesis by (cases b) (simp_all add: stop_tasks_def task_def call_def note_status_def run_ext)
qed

lemma serve_loop_closes:
  assumes "ml_progress l" "run_state (serve_loop h args l acc) tr = (Ok k, tr')"
  shows "\<exists>e. tr' = tr @ e \<and> closed_down (Some k) e"
proof -
  let ?t0 = "a_now (ml_env l) tr" let ?ac = "ml_auto_config l"
  let ?tr1 = "tr @ [XNow ?t0, XTask (TaskSpawned TkSignal)]"
  obtain p where p: "run_state (start_publisher h args (ml_base_config l) (aa_lez_timelock_minutes ?ac)
      (aa_eth_timelock_minutes ?ac) acc) ?tr1 = (p, ?tr1 @ (if p = None then [] else [XTask (TaskSpawned TkPublisher)]))"
    using run_start_publisher by blast
  let ?tr2 = "?tr1 @ (if p = None then [] else [XTask (TaskSpawned TkPublisher)]) @
    [XTask (TaskSpawned TkStatusWriter), XTask (TaskSpawned TkFundTopper), XTask (TaskSpawned TkDrain)]"
  obtain r tr3 where r: "run_state (run_maker_loop (mh_rounds h) (mh_fuel h) l) ?tr2 = (r, tr3)" by fastforce
  have run: "run_state (serve_loop h args l acc) tr = run_state (tryM (run_maker_loop (mh_rounds h) (mh_fuel h) l)
      (\<lambda>result. stop_tasks (ml_env l) (p \<noteq> None) \<bind> (\<lambda>_. ret (Ok result)))) ?tr2"
    using p by (simp add: serve_loop_def Let_def task_def call_def run_ext run_now)
  then have k: "r = Ok k" using assms(2) r by (cases r) (auto simp: run_tryM split: prod.splits)
  from loop_no_tasks [OF assms(1) r [unfolded k]] obtain w where w: "tr3 = ?tr2 @ w" "\<not> list_ex is_task w" by blast
  obtain st n m now io where stop: "run_state (stop_tasks (ml_env l) (p \<noteq> None)) tr3 = ((), tr3 @
      [XTask (TaskJoined TkDrain), XSetCancel] @ (if p \<noteq> None then [XTask (TaskAborted TkPublisher)] else []) @
      [XTask (TaskAborted TkStatusWriter), XTask (TaskAborted TkFundTopper), XStatus (SetLoopState ''stopped''),
       XSnapshot (st, n, m), XNow now, XWriteStatus (status_snapshot st n m now) io])"
    using run_stop_tasks by blast
  have "tr' = tr3 @ [XTask (TaskJoined TkDrain), XSetCancel] @ (if p \<noteq> None then [XTask (TaskAborted TkPublisher)] else []) @
      [XTask (TaskAborted TkStatusWriter), XTask (TaskAborted TkFundTopper), XStatus (SetLoopState ''stopped''),
       XSnapshot (st, n, m), XNow now, XWriteStatus (status_snapshot st n m now) io]"
    using assms(2) run r k stop by (simp add: run_tryM)
  then show ?thesis using w live_idle [OF w(2)]
    by (intro exI [of _ "drop (length tr) tr'"]) (auto simp: closed_down_def)
qed

lemma recover_closes:
  assumes "ml_progress l" "run_state (recover_then_serve h args l lc rc store) tr = (Ok out, tr')"
  shows "\<exists>e. tr' = tr @ e \<and> closed_down out e"
proof -
  let ?spawn = "\<lambda>n. map (\<lambda>j. XTask (TaskSpawned (TkResume j))) [0..<n]"
  let ?join = "\<lambda>n. map (\<lambda>j. XTask (TaskJoined (TkResume j))) [0..<n]"
  let ?bal = "get_balance_with_retry (ml_env l) (lc_account_id lc) (\<lambda>e captured. ret captured) ()"
  obtain r tr1 where r: "run_state (reconcile (mh_fuel h) rc store) tr = (r, tr1)" by fastforce
  obtain w where w: "tr1 = tr @ w" "list_all calm w" using emits_prefix [OF calm_reconcile r] by blast
  obtain handles where hs: "r = Ok handles"
    using assms(2) r by (cases r) (auto simp: recover_then_serve_def run_tryM)
  let ?n = "length handles"
  obtain b where "run_state (recover_then_serve h args l lc rc store) tr =
      run_state (if b then ret (Ok None) else ?bal \<bind> (\<lambda>(balance_read, _).
        tryM (ret balance_read) (\<lambda>balance. if balance < lez_amount (ml_base_config l)
          then ret (Err (InvalidConfig ''insufficient LEZ inventory''))
          else tryM (serve_loop h args l (lc_account_id lc)) (\<lambda>result. ret (Ok (Some result))))))
        (tr1 @ ?spawn ?n @ ?join ?n @ [XBusy b])" (is "_ = run_state (if b then _ else ?go) ?tr2")
    using r hs run_busy [of ?n "ml_env l" _ tr1] unfolding recover_then_serve_def run_tryM by fastforce
  note run = this
  let ?pre = "w @ ?spawn ?n @ ?join ?n @ [XBusy b]"
  have pre: "live_tasks [] ?pre = []" using live_idle [of w] calm_closed [OF w(2)] live_resumed [of "[0..<?n]"] by simp
  show ?thesis
  proof (cases b)
    case True
    then have "out = None" "tr' = tr @ ?pre" using assms(2) run w(1) by auto
    then show ?thesis using pre by (auto simp: closed_down_def)
  next
    case False
    obtain br u tr3 where br: "run_state ?bal ?tr2 = ((br, u), tr3)" by (metis prod.collapse)
    from retry_reads [OF br] obtain w2 where w2: "tr3 = ?tr2 @ w2" "list_all calm w2" by blast
    have "run_state (tryM (ret br) (\<lambda>balance. if balance < lez_amount (ml_base_config l)
          then ret (Err (InvalidConfig ''insufficient LEZ inventory''))
          else tryM (serve_loop h args l (lc_account_id lc)) (\<lambda>result. ret (Ok (Some result))))) tr3 = (Ok out, tr')"
      using assms(2) run br False by simp
    then obtain k where k: "run_state (serve_loop h args l (lc_account_id lc)) tr3 = (Ok k, tr')" "out = Some k"
      by (cases br) (auto simp: run_tryM split: if_splits prod.splits res.splits)
    from serve_loop_closes [OF assms(1) k(1)] obtain e where e: "tr' = tr3 @ e" "closed_down out e" using k(2) by blast
    have "live_tasks [] (?pre @ w2) = []" using pre live_idle [of w2] calm_closed [OF w2(2)] by simp
    from closed_down_after [OF this e(2)] show ?thesis
      using w(1) w2(1) e(1) by (intro exI [of _ "(?pre @ w2) @ e"]) simp
  qed
qed

text \<open>
  C5. No task outlives the command. When the standing bot returns without an error, every task it
  has spawned was awaited or aborted, but for the one that waits for a signal; and when the loop
  has run, the cancel flag is set and the last thing done is to write a status that the loop
  has stopped.
\<close>

theorem maker_service_closes_down:
  "case run_state (cmd_maker_loop h hex_decode parse_swap_id args minutes l) tr of
     (Ok out, tr') \<Rightarrow> \<exists>e. tr' = tr @ e \<and> closed_down out e
   | _ \<Rightarrow> True"
proof -
  let ?l = "loop_of args minutes l"
  have "\<exists>e. tr' = tr @ e \<and> closed_down out e"
    if run: "run_state (cmd_maker_loop h hex_decode parse_swap_id args minutes l) tr = (Ok out, tr')" for out tr'
  proof -
    let ?fund = "case ma_fund_to args of
        Some target \<Rightarrow> tryM (fund_to_target (mh_rounds h) (mh_fuel h) (ml_env ?l) (ml_setup ?l) (ml_base_config ?l) target) (\<lambda>_. ret (Ok ()))
      | None \<Rightarrow> ret (Ok ())"
    have calm: "emits calm ?fund" by (intro emits_intros calm_fund)
    obtain r tr1 where r: "run_state ?fund tr = (r, tr1)" by fastforce
    obtain w where w: "tr1 = tr @ w" "list_all calm w" using emits_prefix [OF calm r] by blast
    obtain lc rc store where "run_state (recover_then_serve h args ?l lc rc store) tr1 = (Ok out, tr')"
      using run r unfolding cmd_maker_loop_def Let_def run_tryM
      by (auto simp: run_tryM split: if_splits res.splits prod.splits)
    moreover have "ml_progress ?l" by (simp add: loop_of_def)
    ultimately obtain e where e: "tr' = tr1 @ e" "closed_down out e" using recover_closes by blast
    have "live_tasks [] w = []" using live_idle [of w] calm_closed [OF w(2)] by simp
    from closed_down_after [OF this e(2)] show ?thesis using w(1) e(1) by (intro exI [of _ "w @ e"]) simp
  qed
  then show ?thesis by (auto split: prod.split res.split)
qed

section \<open>The supervisor knows its child\<close>

text \<open>Whether a child runs, and what the health state says about it.\<close>

fun child_step :: "bool \<times> bool \<Rightarrow> interaction \<Rightarrow> bool \<times> bool" where
  "child_step (running, alive) (XSpawn (Inr u)) = (True, alive)"
| "child_step (running, alive) (XChild ChildEnded) = (False, alive)"
| "child_step (running, alive) XKill = (False, alive)"
| "child_step (running, alive) (XStatus (SetPublisherAlive b)) = (running, b)"
| "child_step s _ = s"

definition child_state :: "trace \<Rightarrow> bool \<times> bool" where
  "child_state hist = foldl child_step (False, False) hist"

lemma child_state_simps [simp]:
  "child_state [] = (False, False)" "child_state (us @ [x]) = child_step (child_state us) x"
  by (simp_all add: child_state_def)

text \<open>A line of the child that confirms a publish, and the time at which it was read.\<close>

definition confirmed_at :: "u64 \<Rightarrow> trace \<Rightarrow> bool" where
  "confirmed_at now_ms hist \<longleftrightarrow> (\<exists>us line now. hist = us @ [XChild (ChildLine line), XNow now] \<and>
     str_contains ''offer published ('' line \<and> now_ms = now * 1000)"

fun supervised :: "trace \<Rightarrow> interaction \<Rightarrow> bool" where
  "supervised hist (XSpawn r) = (child_state hist = (False, False))"
| "supervised hist (XChild ev) = (child_state hist = (True, True))"
| "supervised hist XKill = (child_state hist = (True, True))"
| "supervised hist (XSleep d) = (child_state hist = (False, False))"
| "supervised hist (XCancelled b) = (child_state hist = (False, False))"
| "supervised hist (XStatus (NoteOfferPublish now_ms)) = (child_state hist = (True, True) \<and> confirmed_at now_ms hist)"
| "supervised hist _ = True"

definition cancel_seen :: "trace \<Rightarrow> bool" where
  "cancel_seen e \<longleftrightarrow> XCancelled True \<in> set e \<or> XChild ChildCancelSeen \<in> set e"

lemma run_note: "run_state (note_status op) tr = ((), tr @ [XStatus op])"
  by (simp add: note_status_def run_ext)

lemma child_step_now [simp]: "child_step s (XNow t) = s" "child_step s (XSleep d) = s" "child_step s (XCancelled b) = s"
  "child_step s (XStatus (NoteOfferPublish t)) = s" "child_step s (XChild (ChildLine line)) = s"
  "child_step s (XChild ChildCancelSeen) = s" "child_step s (XSpawn (Inl m)) = s"
  by (cases s; simp)+

lemma child_state_append: "child_state (us @ x # e) = foldl child_step (child_step (child_state us) x) e"
  by (simp add: child_state_def)

lemma watch_child_trace:
  "child_state us = (True, True) \<Longrightarrow> run_state (watch_child n en) tr = (r, tr') \<Longrightarrow>
   \<exists>e. tr' = tr @ e \<and> each supervised us e \<and> (r \<noteq> None \<longrightarrow> child_state (us @ e) = (False, False)) \<and>
     (r = Some True \<longrightarrow> cancel_seen e)"
proof (induction n arbitrary: us tr)
  case 0
  then show ?case by simp
next
  case (Suc n)
  show ?case
  proof (cases "a_child en tr")
    case (ChildLine line)
    let ?x = "XChild (ChildLine line)" let ?now = "a_now en (tr @ [?x])"
    let ?w = "if str_contains ''offer published ('' line then [?x, XNow ?now, XStatus (NoteOfferPublish (?now * 1000))] else [?x]"
    have "run_state (watch_child n en) (tr @ ?w) = (r, tr')"
      using Suc.prems(2) ChildLine by (cases "str_contains ''offer published ('' line")
        (simp_all add: run_ext run_now_ms run_note)
    moreover have "child_state (us @ ?w) = (True, True)"
      using Suc.prems(1) by (simp add: child_state_append)
    ultimately obtain e where e: "tr' = (tr @ ?w) @ e" "each supervised (us @ ?w) e"
        "r \<noteq> None \<longrightarrow> child_state ((us @ ?w) @ e) = (False, False)" "r = Some True \<longrightarrow> cancel_seen e"
      using Suc.IH by blast
    have "each supervised us ?w"
      using Suc.prems(1) by (auto simp: child_state_append confirmed_at_def)
    with e show ?thesis by (intro exI [of _ "?w @ e"]) (auto simp: each_append cancel_seen_def)
  next
    case ChildEnded
    then show ?thesis using Suc.prems
      by (auto simp: run_ext run_note child_state_append)
  next
    case ChildCancelSeen
    then show ?thesis using Suc.prems
      by (auto simp: run_ext run_note call_def child_state_append cancel_seen_def)
  qed
qed

lemma wait_secs_trace:
  "child_state us = (False, False) \<Longrightarrow> run_state (wait_secs en n) tr = (stop, tr') \<Longrightarrow>
   \<exists>e. tr' = tr @ e \<and> each supervised us e \<and> child_state (us @ e) = (False, False) \<and> (stop \<longrightarrow> cancel_seen e)"
proof (induction n arbitrary: us tr)
  case 0
  then show ?case by simp
next
  case (Suc n)
  let ?c = "a_cancelled en tr"
  show ?case
  proof (cases ?c)
    case True
    then show ?thesis using Suc.prems by (auto simp: run_ext cancel_seen_def child_state_append)
  next
    case False
    then have "run_state (wait_secs en n) (tr @ [XCancelled False, XSleep 1000]) = (stop, tr')"
      using Suc.prems(2) by (simp add: run_ext run_sleep)
    moreover have "child_state (us @ [XCancelled False, XSleep 1000]) = (False, False)"
      using Suc.prems(1) by (simp add: child_state_append)
    ultimately obtain e where "tr' = (tr @ [XCancelled False, XSleep 1000]) @ e"
        "each supervised (us @ [XCancelled False, XSleep 1000]) e"
        "child_state ((us @ [XCancelled False, XSleep 1000]) @ e) = (False, False)" "stop \<longrightarrow> cancel_seen e"
      using Suc.IH by blast
    then show ?thesis using Suc.prems(1)
      by (intro exI [of _ "[XCancelled False, XSleep 1000] @ e"]) (auto simp: cancel_seen_def child_state_append)
  qed
qed

lemma offer_publisher_trace:
  "child_state us = (False, False) \<Longrightarrow> run_state (offer_publisher k n en) tr = (r, tr') \<Longrightarrow>
   \<exists>e. tr' = tr @ e \<and> each supervised us e \<and>
     (case r of Ok u \<Rightarrow> child_state (us @ e) = (False, False) \<and> cancel_seen e | Err x \<Rightarrow> False | _ \<Rightarrow> True)"
proof (induction n arbitrary: us tr)
  case 0
  then show ?case by simp
next
  case (Suc n)
  let ?c = "XCancelled (a_cancelled en tr)"
  show ?case
  proof (cases "a_cancelled en tr")
    case True
    then show ?thesis using Suc.prems by (auto simp: run_ext child_state_append cancel_seen_def)
  next
    case False
    let ?sp = "a_spawn en (tr @ [?c])" let ?alive = "XStatus (SetPublisherAlive (\<not> isl ?sp))"
    define pre where "pre = [?c, XSpawn ?sp, ?alive]"
    let ?rest = "\<lambda>ended. case ended of None \<Rightarrow> ret Pending | Some True \<Rightarrow> ret (Ok ())
        | Some False \<Rightarrow> wait_secs en publisher_restart_secs \<bind> (\<lambda>stop. if stop then ret (Ok ()) else offer_publisher k n en)"
    have pre: "each supervised us pre" "child_state (us @ pre) = (\<not> isl ?sp, \<not> isl ?sp)"
      using Suc.prems(1) unfolding pre_def by (cases ?sp; simp add: child_state_append)+
    obtain ended tr1 where ended: "run_state (if isl ?sp then ret (Some False) else watch_child k en) (tr @ pre) = (ended, tr1)"
      by fastforce
    have rest: "run_state (?rest ended) tr1 = (r, tr')"
      using Suc.prems(2) False ended unfolding pre_def by (cases ?sp) (auto simp: run_ext run_note)
    obtain e1 where e1: "tr1 = (tr @ pre) @ e1" "each supervised (us @ pre) e1"
        "ended \<noteq> None \<longrightarrow> child_state ((us @ pre) @ e1) = (False, False)" "ended = Some True \<longrightarrow> cancel_seen e1"
    proof (cases "isl ?sp")
      case True
      then show ?thesis using that [of "[]"] ended pre(2) by auto
    next
      case False
      then show ?thesis using that watch_child_trace [of "us @ pre" k en "tr @ pre"] ended pre(2) by auto
    qed
    let ?us = "us @ pre @ e1"
    have so_far: "each supervised us (pre @ e1)" using pre(1) e1(2) by (simp only: each_append append_assoc simp_thms)
    show ?thesis
    proof (cases "ended = Some False")
      case False
      then show ?thesis using rest e1 so_far
        by (intro exI [of _ "pre @ e1"]) (auto simp: cancel_seen_def split: option.splits bool.splits)
    next
      case True
      obtain stop tr2 where w: "run_state (wait_secs en publisher_restart_secs) tr1 = (stop, tr2)" by fastforce
      obtain e2 where e2: "tr2 = tr1 @ e2" "each supervised ?us e2" "child_state (?us @ e2) = (False, False)"
          "stop \<longrightarrow> cancel_seen e2"
        using wait_secs_trace [OF _ w, of ?us] e1(3) True by auto
      show ?thesis
      proof (cases stop)
        case st: True
        then have "r = Ok ()" "tr' = tr2" using rest True w by auto
        then show ?thesis using e1(1) e2 st so_far
          by (intro exI [of _ "(pre @ e1) @ e2"]) (auto simp: each_append cancel_seen_def)
      next
        case st: False
        then have "run_state (offer_publisher k n en) tr2 = (r, tr')" using rest True w by simp
        from Suc.IH [OF e2(3) this] obtain e3 where "tr' = tr2 @ e3" "each supervised (?us @ e2) e3"
          "case r of Ok u \<Rightarrow> child_state ((?us @ e2) @ e3) = (False, False) \<and> cancel_seen e3 | Err x \<Rightarrow> False | _ \<Rightarrow> True" by blast
        then show ?thesis using e1(1) e2(1,2) so_far
          by (intro exI [of _ "((pre @ e1) @ e2) @ e3"]) (auto simp: each_append cancel_seen_def split: res.splits)
      qed
    qed
  qed
qed

text \<open>
  C38. The supervisor of the offer publisher runs at most one child, and the health state shows the
  publisher alive exactly from the spawn of a child to its end or its kill: never during the wait
  for the next one. A publish is noted only while a child runs, when it has printed a
  confirmation, with the time at which that was read. The supervisor returns only after a
  cancellation, with no child left, and it never fails.
\<close>

theorem supervisor_tracks_child:
  "case run_state (offer_publisher k n en) tr of (r, tr') \<Rightarrow>
     \<exists>e. tr' = tr @ e \<and> each supervised [] e \<and>
       (case r of Ok u \<Rightarrow> child_state e = (False, False) \<and> cancel_seen e | Err x \<Rightarrow> False | _ \<Rightarrow> True)"
proof -
  obtain r tr' where run: "run_state (offer_publisher k n en) tr = (r, tr')" by fastforce
  from offer_publisher_trace [OF _ run, of "[]"] show ?thesis unfolding append_Nil by (simp add: run)
qed

section \<open>The other background tasks\<close>

text \<open>A program that answers no error, and \<open>Ok\<close> only after a cancellation was seen.\<close>

definition runs_until_cancelled :: "unit rio \<Rightarrow> bool" where
  "runs_until_cancelled p \<longleftrightarrow> (\<forall>tr. \<exists>e. snd (run_state p tr) = tr @ e \<and>
     (case fst (run_state p tr) of Ok u \<Rightarrow> XCancelled True \<in> set e | Err x \<Rightarrow> False | _ \<Rightarrow> True))"

definition unfailing :: "unit rio \<Rightarrow> bool" where
  "unfailing p \<longleftrightarrow> (\<forall>tr. \<exists>e. snd (run_state p tr) = tr @ e \<and> (\<forall>x. fst (run_state p tr) \<noteq> Err x))"

lemma unfailing_bind:
  assumes "emits (\<lambda>_. True) m" "\<And>a. unfailing (f a)"
  shows "unfailing (m \<bind> f)"
proof -
  have "\<exists>e. snd (run_state (m \<bind> f) tr) = tr @ e \<and> (\<forall>x. fst (run_state (m \<bind> f) tr) \<noteq> Err x)" for tr
  proof -
    obtain a tr1 where m: "run_state m tr = (a, tr1)" by fastforce
    obtain e1 where "tr1 = tr @ e1" using emits_prefix [OF assms(1) m] by blast
    then show ?thesis using m assms(2) [of a] unfolding unfailing_def by (auto, metis append.assoc)
  qed
  then show ?thesis by (simp add: unfailing_def)
qed

lemma unfailing_ret: "unfailing (ret (Ok ()))" "unfailing (ret (Panic m))" "unfailing (ret Pending)"
  by (simp_all add: unfailing_def)

lemma calm_appends: "emits calm m \<Longrightarrow> emits (\<lambda>_. True) m"
  by (rule emits_weaken) simp_all

lemma runs_until_cancelled_after:
  assumes "unfailing p" "runs_until_cancelled q"
  shows "runs_until_cancelled (tryM p (\<lambda>_. q))"
proof -
  have "\<exists>e. snd (run_state (tryM p (\<lambda>_. q)) tr) = tr @ e \<and>
      (case fst (run_state (tryM p (\<lambda>_. q)) tr) of Ok u \<Rightarrow> XCancelled True \<in> set e | Err x \<Rightarrow> False | _ \<Rightarrow> True)" for tr
  proof -
    obtain r tr1 where p: "run_state p tr = (r, tr1)" by fastforce
    then obtain e1 where e1: "tr1 = tr @ e1" "\<forall>x. r \<noteq> Err x" using assms(1) unfolding unfailing_def by (metis fst_conv snd_conv)
    obtain e2 where e2: "snd (run_state q tr1) = tr1 @ e2"
      "case fst (run_state q tr1) of Ok u \<Rightarrow> XCancelled True \<in> set e2 | Err x \<Rightarrow> False | _ \<Rightarrow> True"
      using assms(2) unfolding runs_until_cancelled_def by blast
    show ?thesis
    proof (cases r)
      case (Ok u)
      then show ?thesis using p e1(1) e2 by (intro exI [of _ "e1 @ e2"]) (auto simp: run_tryM split: res.splits)
    qed (use p e1 in \<open>auto simp: run_tryM\<close>)
  qed
  then show ?thesis by (simp add: runs_until_cancelled_def)
qed

lemma runs_until_cancelled_bind:
  assumes "emits (\<lambda>_. True) m" "runs_until_cancelled q"
  shows "runs_until_cancelled (m \<bind> (\<lambda>_. q))"
proof -
  have "unfailing (m \<bind> (\<lambda>_. ret (Ok ())))" by (intro unfailing_bind assms(1) unfailing_ret)
  from runs_until_cancelled_after [OF this assms(2)] show ?thesis
    unfolding runs_until_cancelled_def by (simp add: run_tryM split: prod.splits)
qed

lemma runs_until_cancelled_step:
  assumes "runs_until_cancelled q"
  shows "runs_until_cancelled (ext XCancelled f \<bind> (\<lambda>c. if c then ret (Ok ()) else q))"
proof -
  have "\<exists>e. snd (run_state (ext XCancelled f \<bind> (\<lambda>c. if c then ret (Ok ()) else q)) tr) = tr @ e \<and>
      (case fst (run_state (ext XCancelled f \<bind> (\<lambda>c. if c then ret (Ok ()) else q)) tr) of
         Ok u \<Rightarrow> XCancelled True \<in> set e | Err x \<Rightarrow> False | _ \<Rightarrow> True)" for tr
  proof (cases "f tr")
    case True
    then show ?thesis by (simp add: run_ext)
  next
    case False
    obtain e where "snd (run_state q (tr @ [XCancelled False])) = (tr @ [XCancelled False]) @ e"
        "case fst (run_state q (tr @ [XCancelled False])) of
           Ok u \<Rightarrow> XCancelled True \<in> set e | Err x \<Rightarrow> False | _ \<Rightarrow> True"
      using assms unfolding runs_until_cancelled_def by blast
    then show ?thesis using False
      by (intro exI [of _ "XCancelled False # e"]) (auto simp: run_ext split: res.splits)
  qed
  then show ?thesis by (simp add: runs_until_cancelled_def)
qed

lemma runs_until_cancelled_wait:
  assumes "runs_until_cancelled q"
  shows "runs_until_cancelled (wait_secs en n \<bind> (\<lambda>stop. if stop then ret (Ok ()) else q))"
proof (induction n)
  case 0
  then show ?case using assms by simp
next
  case (Suc n)
  have "runs_until_cancelled (ext XCancelled (a_cancelled en) \<bind> (\<lambda>c. if c then ret (Ok ()) else
      sleep 1000 \<bind> (\<lambda>_. wait_secs en n \<bind> (\<lambda>stop. if stop then ret (Ok ()) else q))))" (is "runs_until_cancelled ?r")
    by (intro runs_until_cancelled_step runs_until_cancelled_bind emits_intros Suc.IH) simp
  moreover have "run_state (wait_secs en (Suc n) \<bind> (\<lambda>stop. if stop then ret (Ok ()) else q)) tr = run_state ?r tr" for tr
    by (cases "a_cancelled en tr") (simp_all add: run_ext run_sleep)
  ultimately show ?case unfolding runs_until_cancelled_def by (simp only: simp_thms)
qed

lemma unfailing_top_up: "unfailing (top_up k n en su cfg low)"
proof -
  have claim: "unfailing (client_claim_to_target k n en c low False \<bind> (\<lambda>r. case r of Ok b \<Rightarrow> ret (Ok ())
      | Err e \<Rightarrow> ret (Ok ()) | Panic m \<Rightarrow> ret (Panic m) | Pending \<Rightarrow> ret Pending))" for c
    by (intro unfailing_bind calm_appends [OF calm_claim_to_target]) (auto intro: unfailing_ret split: res.split)
  have noted: "emits calm (note_status op)" for op
    unfolding note_status_def by (intro emits_intros) simp
  show ?thesis unfolding top_up_def
    by (auto intro!: unfailing_bind calm_appends calm_retry emits_bind noted emits_ret claim unfailing_ret split: res.split)
qed

lemma unfailing_refresh_lez: "unfailing (refresh_lez_balance en su cfg acc)"
proof -
  have noted: "emits (\<lambda>_. True) (note_status op)" for op
    unfolding note_status_def by (intro emits_intros) simp
  show ?thesis unfolding refresh_lez_balance_def
    by (auto intro!: unfailing_bind noted calm_appends calm_timed calm_balance unfailing_ret split: res.split option.split)
qed

lemma unfailing_refresh_eth: "unfailing (refresh_eth_balance se en cfg)"
proof -
  have noted: "emits (\<lambda>_. True) (note_status op)" "emits (\<lambda>_. True) (timed en (ext (XEthBalance a) f))" for op a f
    unfolding note_status_def timed_def by (intro emits_intros; simp)+
  show ?thesis unfolding refresh_eth_balance_def
    by (auto intro!: unfailing_bind noted calm_appends [OF calm_timed [OF calm_eth_client]] unfailing_ret
        split: res.split option.split sum.split)
qed

text \<open>
  The top-up and the writer of the status file run until they are cancelled: no failed client,
  read, claim or write ends them, they return no error, and they return at all only after they
  saw the cancel flag set.
\<close>

lemma background_tasks_run_until_cancelled:
  "runs_until_cancelled (fund_topper k fuel n en su cfg secs low) \<and>
   runs_until_cancelled (status_writer se n en su cfg acc)"
proof (induction n)
  case 0
  show ?case by (simp add: runs_until_cancelled_def)
next
  case (Suc n)
  have wr: "emits (\<lambda>_. True) (write_snapshot en)"
    unfolding write_snapshot_def by (auto intro!: emits_intros split: prod.split)
  from Suc show ?case unfolding fund_topper.simps status_writer.simps
    by (intro conjI runs_until_cancelled_step runs_until_cancelled_after unfailing_top_up unfailing_refresh_lez
        unfailing_refresh_eth runs_until_cancelled_bind [OF wr] runs_until_cancelled_wait) simp_all
qed

end
