(* ===== verification/Mcp_Scan.thy ===== *)
theory Mcp_Scan
  imports Eth_Client
begin

text \<open>
  The reader of the Ethereum HTLC of the MCP server (\<open>lez-mcp/src/eth.rs\<close>): the incremental,
  bounded scan of \<open>Locked\<close> events over a cache that survives reorganisations, and the lookup by
  hashlock. A pass runs under the lock of the cache, so it is a function of the cache, of one
  read of the head and of the answers to its log queries; its queries are pairwise different, so
  the answers are a function of the range.
\<close>

section \<open>Data\<close>

record seen_lock =
  sl_swap_id :: bytes32
  sl_hashlock :: bytes32
  sl_block :: u64
  sl_tx_hash :: bytes32
  sl_log_index :: u64

record scan_cache =
  sc_next_block :: u64
  sc_locked :: "seen_lock list"

record scan_pass =
  sp_matched :: "bytes32 list"
  sp_coverage_to :: u64
  sp_reached_head :: bool

definition log_scan_chunk :: u64 where "log_scan_chunk = 40000"
definition max_chunks_per_call :: nat where "max_chunks_per_call = 16"
definition reorg_safety_window :: u64 where "reorg_safety_window = 64"

section \<open>The pass\<close>

definition rewind_start :: "u64 \<Rightarrow> u64 \<Rightarrow> u64 \<Rightarrow> u64" where
  "rewind_start next_block from_block window = max (sat_sub next_block window) from_block"

text \<open>\<open>push\<close> a fresh event unless one of its identity is there.\<close>

definition same_log :: "seen_lock \<Rightarrow> seen_lock \<Rightarrow> bool" where
  "same_log a b \<longleftrightarrow> sl_tx_hash a = sl_tx_hash b \<and> sl_log_index a = sl_log_index b"

definition push_fresh :: "seen_lock list \<Rightarrow> seen_lock \<Rightarrow> seen_lock list" where
  "push_fresh locked f = (if \<exists>l\<in>set locked. same_log l f then locked else locked @ [f])"

definition reconcile_range :: "seen_lock list \<Rightarrow> u64 \<Rightarrow> u64 \<Rightarrow> seen_lock list \<Rightarrow> seen_lock list" where
  "reconcile_range locked start till fresh =
     foldl push_fresh (filter (\<lambda>l. sl_block l < start \<or> till < sl_block l) locked) fresh"

definition prune_head_regression :: "scan_cache \<Rightarrow> u64 \<Rightarrow> u64 \<Rightarrow> scan_cache" where
  "prune_head_regression cache latest from_block =
     (if latest < sat_sub (sc_next_block cache) 1
      then cache\<lparr>sc_locked := filter (\<lambda>l. sl_block l \<le> latest) (sc_locked cache),
                 sc_next_block := max (sat_add latest 1) from_block\<rparr>
      else cache)"

text \<open>\<open>n\<close> chunks are left of the budget.\<close>

fun scan_chunks ::
  "(u64 \<Rightarrow> u64 \<Rightarrow> string + seen_lock list) \<Rightarrow> nat \<Rightarrow> u64 \<Rightarrow> u64 \<Rightarrow> scan_cache \<Rightarrow> (string + unit) \<times> scan_cache" where
  "scan_chunks fetch 0 start latest cache = (Inr (), cache)"
| "scan_chunks fetch (Suc n) start latest cache =
     (if latest < start then (Inr (), cache)
      else
        (let till = min (start + log_scan_chunk - 1) latest in
         case fetch start till of
           Inl e \<Rightarrow> (Inl e, cache)
         | Inr fresh \<Rightarrow>
             scan_chunks fetch n (till + 1) latest
               (cache\<lparr>sc_locked := reconcile_range (sc_locked cache) start till fresh,
                      sc_next_block := (if sc_next_block cache < till + 1 then till + 1 else sc_next_block cache)\<rparr>)))"

definition add_match :: "bytes32 \<Rightarrow> bytes32 list \<Rightarrow> seen_lock \<Rightarrow> bytes32 list" where
  "add_match hashlock matched l =
     (if sl_hashlock l = hashlock \<and> sl_swap_id l \<notin> set matched then matched @ [sl_swap_id l] else matched)"

definition run_scan ::
  "(u64 \<Rightarrow> u64 \<Rightarrow> string + seen_lock list) \<Rightarrow> u64 \<Rightarrow> string + u64 \<Rightarrow> bytes32 \<Rightarrow> scan_cache \<Rightarrow>
     (string + scan_pass) \<times> scan_cache" where
  "run_scan fetch from_block head hashlock cache =
     (case head of
        Inl e \<Rightarrow> (Inl e, cache)
      | Inr latest \<Rightarrow>
          (let pruned = prune_head_regression cache latest from_block;
               start = rewind_start (sc_next_block pruned) from_block reorg_safety_window in
           case scan_chunks fetch max_chunks_per_call start latest pruned of
             (Inl e, cache') \<Rightarrow> (Inl e, cache')
           | (Inr _, cache') \<Rightarrow>
               (let coverage_to = sat_sub (sc_next_block cache') 1 in
                (Inr \<lparr> sp_matched = foldl (add_match hashlock) [] (sc_locked cache'),
                       sp_coverage_to = coverage_to, sp_reached_head = latest \<le> coverage_to \<rparr>, cache'))))"

section \<open>The reader\<close>

record eth_reader =
  er_address :: address
  er_from_block :: u64
  er_cache :: scan_cache

definition reader_connect :: "(string \<Rightarrow> string + address) \<Rightarrow> string + unit \<Rightarrow> string \<Rightarrow> u64 \<Rightarrow> string + eth_reader" where
  "reader_connect parse_address conn addr from_block =
     (case parse_address addr of
        Inl e \<Rightarrow> Inl (''invalid ETH_HTLC_ADDRESS: '' @ e)
      | Inr a \<Rightarrow>
          (case conn of
             Inl e \<Rightarrow> Inl (''ETH WebSocket connect failed: '' @ e)
           | Inr _ \<Rightarrow> Inr \<lparr> er_address = a, er_from_block = from_block,
                           er_cache = \<lparr> sc_next_block = from_block, sc_locked = [] \<rparr> \<rparr>))"

text \<open>
  A log of the answer: its place, as far as the provider tells it, and what \<open>log_decode\<close> makes
  of it, the swap id and the hashlock of a \<open>Locked\<close> event.
\<close>

record raw_log =
  rl_block :: "u64 option"
  rl_tx_hash :: "bytes32 option"
  rl_index :: "u64 option"
  rl_decoded :: "(bytes32 \<times> bytes32) option"

definition seen_of :: "u64 \<Rightarrow> raw_log \<Rightarrow> seen_lock option" where
  "seen_of start l = map_option (\<lambda>(swap_id, hashlock).
     \<lparr> sl_swap_id = swap_id, sl_hashlock = hashlock,
       sl_block = (case rl_block l of Some b \<Rightarrow> b | None \<Rightarrow> start),
       sl_tx_hash = (case rl_tx_hash l of Some h \<Rightarrow> h | None \<Rightarrow> zero32),
       sl_log_index = (case rl_index l of Some i \<Rightarrow> i | None \<Rightarrow> 0) \<rparr>) (rl_decoded l)"

definition fetch_locks :: "(u64 \<Rightarrow> u64 \<Rightarrow> string + raw_log list) \<Rightarrow> u64 \<Rightarrow> u64 \<Rightarrow> string + seen_lock list" where
  "fetch_locks get_logs start till =
     (case get_logs start till of
        Inl e \<Rightarrow> Inl (''eth_getLogs('' @ show_nat (unat start) @ ''..'' @ show_nat (unat till) @ '') failed: '' @ e)
      | Inr logs \<Rightarrow> Inr (List.map_filter (seen_of start) logs))"

record scan_outcome =
  so_found :: "(bytes32 \<times> eth_htlc) list"
  so_coverage_from :: u64
  so_coverage_to :: u64
  so_reached_head :: bool

definition htlc_by_swap_id :: "(bytes32 \<Rightarrow> string + eth_htlc) \<Rightarrow> bytes32 \<Rightarrow> string + eth_htlc" where
  "htlc_by_swap_id get sid = (case get sid of Inl e \<Rightarrow> Inl (''getHTLC call failed: '' @ e) | Inr h \<Rightarrow> Inr h)"

text \<open>The state of every matched swap; the first failed call ends it.\<close>

fun fetch_found :: "(bytes32 \<Rightarrow> string + eth_htlc) \<Rightarrow> bytes32 list \<Rightarrow> string + (bytes32 \<times> eth_htlc) list" where
  "fetch_found get [] = Inr []"
| "fetch_found get (sid # sids) =
     (case htlc_by_swap_id get sid of
        Inl e \<Rightarrow> Inl e
      | Inr h \<Rightarrow> (case fetch_found get sids of Inl e \<Rightarrow> Inl e | Inr found \<Rightarrow> Inr ((sid, h) # found)))"

definition find_by_hashlock ::
  "(u64 \<Rightarrow> u64 \<Rightarrow> string + raw_log list) \<Rightarrow> string + u64 \<Rightarrow> (bytes32 \<Rightarrow> string + eth_htlc) \<Rightarrow> bytes32 \<Rightarrow>
     eth_reader \<Rightarrow> (string + scan_outcome) \<times> eth_reader" where
  "find_by_hashlock get_logs head get hashlock er =
     (case run_scan (fetch_locks get_logs) (er_from_block er)
             (case head of Inl e \<Rightarrow> Inl (''eth_blockNumber failed: '' @ e) | Inr n \<Rightarrow> Inr n)
             hashlock (er_cache er) of
        (Inl e, cache') \<Rightarrow> (Inl e, er\<lparr>er_cache := cache'\<rparr>)
      | (Inr pass, cache') \<Rightarrow>
          ((case fetch_found get (sp_matched pass) of
              Inl e \<Rightarrow> Inl e
            | Inr found \<Rightarrow> Inr \<lparr> so_found = found, so_coverage_from = er_from_block er,
                so_coverage_to = sp_coverage_to pass, so_reached_head = sp_reached_head pass \<rparr>),
           er\<lparr>er_cache := cache'\<rparr>))"

definition state_str :: "swap_state \<Rightarrow> string" where
  "state_str s = (case s of EMPTY \<Rightarrow> ''EMPTY'' | OPEN \<Rightarrow> ''OPEN'' | CLAIMED \<Rightarrow> ''CLAIMED'' | REFUNDED \<Rightarrow> ''REFUNDED'')"

definition parse_bytes32 :: "(string \<Rightarrow> string + bytes) \<Rightarrow> string \<Rightarrow> string + bytes32" where
  "parse_bytes32 hex_decode s =
     (case hex_decode (strip_0x (trim s)) of
        Inl e \<Rightarrow> Inl (''invalid hex: '' @ e)
      | Inr b \<Rightarrow> if length b = 32 then Inr b else Inl ''expected exactly 32 bytes (64 hex chars)'')"

section \<open>The status tool\<close>

text \<open>
  The reply of \<open>sepolia_htlc_status\<close>, field by field; its rendering as JSON and the printing of
  addresses are the serializer's. \<open>now\<close> is the wall clock, zero when it is before the epoch.
\<close>

record htlc_view =
  hv_swap_id :: string
  hv_state :: string
  hv_sender :: address
  hv_recipient :: address
  hv_amount_wei :: string
  hv_amount_eth :: string
  hv_hashlock :: string
  hv_timelock :: u64
  hv_refundable_in_secs :: u64

datatype htlc_reply =
    StatusFail string
  | StatusById address htlc_view
  | StatusByScan bool string address u64 u64 bool "htlc_view list" "(u64 \<times> u64) option"

definition to_u128 :: "u256 \<Rightarrow> (string, u128) res" where
  "to_u128 v = (if unat v < 2 ^ 128 then Ok (ucast v) else Panic ''Uint conversion error'')"

definition htlc_json :: "u64 \<Rightarrow> bytes32 \<Rightarrow> eth_htlc \<Rightarrow> (string, htlc_view) res" where
  "htlc_json now swap_id h =
     res_bind (to_u128 (htlc_timelock h)) (\<lambda>t.
     res_bind (to_u128 (htlc_amount h)) (\<lambda>amount.
       Ok \<lparr> hv_swap_id = ''0x'' @ hex_of swap_id, hv_state = state_str (htlc_swapState h),
            hv_sender = htlc_sender h, hv_recipient = htlc_recipient h,
            hv_amount_wei = show_nat (unat (htlc_amount h)), hv_amount_eth = wei_to_eth_string amount,
            hv_hashlock = ''0x'' @ hex_of (htlc_hashlock h), hv_timelock = ucast t,
            hv_refundable_in_secs = sat_sub (ucast t) now \<rparr>))"

fun htlc_views :: "u64 \<Rightarrow> (bytes32 \<times> eth_htlc) list \<Rightarrow> (string, htlc_view list) res" where
  "htlc_views now [] = Ok []"
| "htlc_views now ((swap_id, h) # found) =
     res_bind (htlc_json now swap_id h) (\<lambda>v. res_bind (htlc_views now found) (\<lambda>vs. Ok (v # vs)))"

definition resolved_as :: "bool \<Rightarrow> bool \<Rightarrow> string" where
  "resolved_as found reached_head =
     (if found then ''hashlock'' else if reached_head then ''not_found'' else ''not_found_within_budget'')"

text \<open>
  \<open>Ctx::eth\<close>: the cell of the reader, filled by the first connect that succeeds. The first read of
  the input as a swap id is \<open>first\<close>; the note of a scan that ran out of its budget has its numbers.
\<close>

definition ctx_eth :: "string + eth_reader \<Rightarrow> eth_reader option \<Rightarrow> string + eth_reader" where
  "ctx_eth connect cell = (case cell of Some er \<Rightarrow> Inr er | None \<Rightarrow> connect)"

definition sepolia_htlc_status ::
  "(string \<Rightarrow> string + bytes) \<Rightarrow> string + eth_reader \<Rightarrow> u64 \<Rightarrow> (bytes32 \<Rightarrow> string + eth_htlc) \<Rightarrow>
     (u64 \<Rightarrow> u64 \<Rightarrow> string + raw_log list) \<Rightarrow> string + u64 \<Rightarrow> (bytes32 \<Rightarrow> string + eth_htlc) \<Rightarrow> string \<Rightarrow>
     eth_reader option \<Rightarrow> (string, htlc_reply) res \<times> eth_reader option" where
  "sepolia_htlc_status hex_decode connect now first get_logs head get arg cell =
     (case parse_bytes32 hex_decode arg of
        Inl e \<Rightarrow> (Ok (StatusFail (''invalid swap_id_or_hashlock: '' @ e)), cell)
      | Inr inp \<Rightarrow>
          (case ctx_eth connect cell of
             Inl e \<Rightarrow> (Ok (StatusFail e), cell)
           | Inr er \<Rightarrow>
               (case htlc_by_swap_id first inp of
                  Inl e \<Rightarrow> (Ok (StatusFail e), Some er)
                | Inr h \<Rightarrow>
                    if state_str (htlc_swapState h) \<noteq> ''EMPTY'' then
                      (res_bind (htlc_json now inp h) (\<lambda>v. Ok (StatusById (er_address er) v)), Some er)
                    else
                      (case find_by_hashlock get_logs head get inp er of
                         (Inl e, er') \<Rightarrow> (Ok (StatusFail e), Some er')
                       | (Inr scan, er') \<Rightarrow>
                           (res_bind (htlc_views now (so_found scan)) (\<lambda>views.
                              Ok (StatusByScan (views \<noteq> []) (resolved_as (views \<noteq> []) (so_reached_head scan))
                                    (er_address er) (so_coverage_from scan) (so_coverage_to scan) (so_reached_head scan)
                                    views
                                    (if views = [] \<and> \<not> so_reached_head scan
                                     then Some (sat_sub (so_coverage_to scan) (so_coverage_from scan), so_coverage_to scan)
                                     else None))),
                            Some er')))))"

text \<open>
  The conversion of the time lock to 128 bits panics, and the contract accepts any time lock in the
  future: a status call that meets a swap with a larger one has no reply.
\<close>

lemma status_panics_on_large_lock:
  assumes "parse_bytes32 hex_decode arg = Inr swap_id" "first swap_id = Inr h"
    and "htlc_swapState h \<noteq> EMPTY" "2 ^ 128 \<le> unat (htlc_timelock h)"
  shows "fst (sepolia_htlc_status hex_decode connect now first get_logs head get arg (Some er)) = Panic ''Uint conversion error''"
proof -
  have "state_str (htlc_swapState h) \<noteq> ''EMPTY''" using assms(3) by (cases "htlc_swapState h") (simp_all add: state_str_def)
  moreover have "htlc_json now swap_id h = Panic ''Uint conversion error''"
    using assms(4) by (simp add: htlc_json_def to_u128_def)
  ultimately show ?thesis
    using assms(1,2) by (simp add: sepolia_htlc_status_def ctx_eth_def htlc_by_swap_id_def)
qed

section \<open>What the cache holds\<close>

text \<open>
  The logs of the canonical chain, as the provider would answer for any range: block by block,
  each with its own block number, and no two with the same identity.
\<close>

definition chain_logs :: "(nat \<Rightarrow> seen_lock list) \<Rightarrow> nat \<Rightarrow> nat \<Rightarrow> seen_lock list" where
  "chain_logs canon a b = concat (map canon [a..<Suc b])"

definition canonical :: "(nat \<Rightarrow> seen_lock list) \<Rightarrow> bool" where
  "canonical canon \<longleftrightarrow> (\<forall>b. \<forall>l\<in>set (canon b). unat (sl_block l) = b) \<and>
     (\<forall>b b'. \<forall>l\<in>set (canon b). \<forall>l'\<in>set (canon b'). same_log l l' \<longrightarrow> l = l')"

text \<open>A provider that serves this chain, when it answers.\<close>

definition serves_chain :: "(nat \<Rightarrow> seen_lock list) \<Rightarrow> (u64 \<Rightarrow> u64 \<Rightarrow> string + seen_lock list) \<Rightarrow> bool" where
  "serves_chain canon fetch \<longleftrightarrow> (\<forall>a b fresh. fetch a b = Inr fresh \<longrightarrow> set fresh = set (chain_logs canon (unat a) (unat b)))"

text \<open>The cache agrees with the chain on the blocks from \<open>lo\<close> up to but not including \<open>hi\<close>.\<close>

definition agrees :: "(nat \<Rightarrow> seen_lock list) \<Rightarrow> seen_lock list \<Rightarrow> nat \<Rightarrow> nat \<Rightarrow> bool" where
  "agrees canon locked lo hi \<longleftrightarrow>
     (\<forall>l. lo \<le> unat (sl_block l) \<longrightarrow> unat (sl_block l) < hi \<longrightarrow>
        (l \<in> set locked \<longleftrightarrow> l \<in> set (canon (unat (sl_block l)))))"

text \<open>Every event of the cache is at a scanned block.\<close>

definition cache_in :: "u64 \<Rightarrow> scan_cache \<Rightarrow> bool" where
  "cache_in from_block cache \<longleftrightarrow> from_block \<le> sc_next_block cache \<and>
     (\<forall>l\<in>set (sc_locked cache). from_block \<le> sl_block l \<and> sl_block l < sc_next_block cache)"

section \<open>One chunk\<close>

lemma set_push_fresh:
  assumes "\<And>l. l \<in> set ls \<Longrightarrow> same_log l f \<Longrightarrow> l = f"
  shows "set (push_fresh ls f) = insert f (set ls)"
proof (cases "\<exists>l\<in>set ls. same_log l f")
  case True
  then have "f \<in> set ls" using assms by blast
  with True show ?thesis by (simp add: push_fresh_def insert_absorb)
next
  case False
  then show ?thesis by (simp add: push_fresh_def)
qed

lemma set_push_all:
  "(\<And>l f. l \<in> set ls \<union> set fresh \<Longrightarrow> f \<in> set fresh \<Longrightarrow> same_log l f \<Longrightarrow> l = f) \<Longrightarrow>
    set (foldl push_fresh ls fresh) = set ls \<union> set fresh"
proof (induction fresh arbitrary: ls)
  case Nil
  then show ?case by simp
next
  case (Cons f fresh)
  have one: "set (push_fresh ls f) = insert f (set ls)"
    by (rule set_push_fresh) (rule Cons.prems, simp_all only: list.set_intros UnI1)
  have "set (foldl push_fresh (push_fresh ls f) fresh) = set (push_fresh ls f) \<union> set fresh"
  proof (rule Cons.IH)
    fix l g assume "l \<in> set (push_fresh ls f) \<union> set fresh" "g \<in> set fresh" "same_log l g"
    then show "l = g" using Cons.prems [of l g] by (simp add: one disj_assoc)
  qed
  then show ?case by (simp add: one)
qed

lemma canonical_block: "canonical canon \<Longrightarrow> l \<in> set (canon b) \<Longrightarrow> unat (sl_block l) = b"
  by (simp add: canonical_def)

lemma in_chain_logs:
  assumes "canonical canon"
  shows "l \<in> set (chain_logs canon a b) \<longleftrightarrow>
    a \<le> unat (sl_block l) \<and> unat (sl_block l) \<le> b \<and> l \<in> set (canon (unat (sl_block l)))"
proof -
  have "l \<in> set (chain_logs canon a b) \<longleftrightarrow> (\<exists>k. a \<le> k \<and> k \<le> b \<and> l \<in> set (canon k))"
    unfolding chain_logs_def by (auto simp: less_Suc_eq_le)
  then show ?thesis using canonical_block [OF assms] by blast
qed

text \<open>
  What one pass keeps: the cache agrees with the chain below the point where the pass goes on,
  and what it holds above lies in the next chunk.
\<close>

definition scanning :: "(nat \<Rightarrow> seen_lock list) \<Rightarrow> u64 \<Rightarrow> u64 \<Rightarrow> u64 \<Rightarrow> scan_cache \<Rightarrow> bool" where
  "scanning canon from_block start latest cache \<longleftrightarrow>
     cache_in from_block cache \<and> from_block \<le> start \<and> start \<le> sc_next_block cache \<and>
     unat (sc_next_block cache) \<le> unat start + 40000 \<and> unat (sc_next_block cache) \<le> Suc (unat latest) \<and>
     agrees canon (sc_locked cache) (unat from_block) (unat start)"

lemma chunk_end:
  assumes "start \<le> latest" "unat latest + 40000 < 2 ^ 64"
    and till: "till = min (start + log_scan_chunk - 1) latest"
  shows "unat till = min (unat start + 39999) (unat latest)" "unat (till + 1) = Suc (unat till)"
proof -
  have sl: "unat start \<le> unat latest" using assms(1) by (simp add: word_le_nat_alt)
  have "unat (start + log_scan_chunk) = unat start + 40000"
    using sl assms(2) by (simp add: log_scan_chunk_def unat_word_ariths)
  then have ut: "unat (start + log_scan_chunk - 1) = unat start + 39999"
    by (subst unat_minus_one) (auto simp: unat_eq_0)
  show t: "unat till = min (unat start + 39999) (unat latest)"
    using ut by (auto simp: till min_def word_le_nat_alt)
  show "unat (till + 1) = Suc (unat till)"
  proof (rule unat_succ, rule notI)
    assume "till = - 1"
    then have "unat till = 2 ^ 64 - 1" by (simp add: unat_minus_one_word_max)
    then show False using t assms(2) by simp
  qed
qed

lemma scanning_chunk:
  assumes canon: "canonical canon" "serves_chain canon fetch"
    and inv: "scanning canon from_block start latest cache"
    and room: "unat latest + 40000 < 2 ^ 64" "start \<le> latest"
    and till: "till = min (start + log_scan_chunk - 1) latest"
    and fetch: "fetch start till = Inr fresh"
  defines "cache' \<equiv> cache\<lparr>sc_locked := reconcile_range (sc_locked cache) start till fresh,
      sc_next_block := (if sc_next_block cache < till + 1 then till + 1 else sc_next_block cache)\<rparr>"
  shows "scanning canon from_block (till + 1) latest cache'" "sc_next_block cache' = till + 1" "0 < till + 1"
proof -
  have sl: "unat start \<le> unat latest" using room(2) by (simp add: word_le_nat_alt)
  note t = chunk_end(1) [OF room(2,1) till] and t1 = chunk_end(2) [OF room(2,1) till]
  note i = inv [unfolded scanning_def]
  have next_le: "unat (sc_next_block cache) \<le> Suc (unat till)" using i t by auto
  have nb: "sc_next_block cache' = till + 1"
    using next_le t1 unfolding cache'_def
    by (auto simp: word_less_nat_alt word_unat_eq_iff)
  let ?old = "filter (\<lambda>l. sl_block l < start \<or> till < sl_block l) (sc_locked cache)"
  have old: "l \<in> set ?old \<longleftrightarrow> l \<in> set (sc_locked cache) \<and> sl_block l < start" for l
    using i next_le by (auto simp: cache_in_def word_less_nat_alt)
  have old_canon: "l \<in> set (canon (unat (sl_block l)))" if "l \<in> set ?old" for l
    using that old i by (auto simp: agrees_def cache_in_def word_le_nat_alt word_less_nat_alt)
  have fresh: "l \<in> set fresh \<longleftrightarrow> start \<le> sl_block l \<and> sl_block l \<le> till \<and> l \<in> set (canon (unat (sl_block l)))" for l
    using canon fetch in_chain_logs [OF canon(1), of l "unat start" "unat till"]
    by (auto simp: serves_chain_def word_le_nat_alt)
  have locked: "set (sc_locked cache') = set ?old \<union> set fresh"
  proof -
    have "sc_locked cache' = foldl push_fresh ?old fresh" by (simp add: cache'_def reconcile_range_def)
    moreover have "set (foldl push_fresh ?old fresh) = set ?old \<union> set fresh"
    proof (rule set_push_all)
    fix l f assume "l \<in> set ?old \<union> set fresh" "f \<in> set fresh" "same_log l f"
    then show "l = f" using old_canon fresh canon(1) unfolding canonical_def by blast
    qed
    ultimately show ?thesis by simp
  qed
  have cache_in: "cache_in from_block cache'"
    unfolding cache_in_def nb locked using i old fresh t1 sl t
    by (auto simp: cache_in_def word_le_nat_alt word_less_nat_alt)
  have "agrees canon (sc_locked cache') (unat from_block) (unat (till + 1))"
    unfolding agrees_def locked using i old old_canon fresh t1
    by (auto simp: agrees_def word_le_nat_alt word_less_nat_alt not_less)
  moreover have "from_block \<le> till + 1" using i t1 t sl by (auto simp: word_le_nat_alt)
  ultimately show "scanning canon from_block (till + 1) latest cache'"
    using cache_in nb t1 t by (auto simp: scanning_def)
  show "sc_next_block cache' = till + 1" by (rule nb)
  show "0 < till + 1" using t1 by (simp add: word_less_nat_alt)
qed

text \<open>What a pass of the loop leaves: nothing new, or a cache that agrees up to where it resumes.\<close>

lemma scan_chunks_agree:
  assumes canon: "canonical canon" "serves_chain canon fetch" and room: "unat latest + 40000 < 2 ^ 64"
  shows "scanning canon from_block start latest cache \<Longrightarrow> scan_chunks fetch n start latest cache = (r, cache') \<Longrightarrow>
    cache' = cache \<and> (r = Inr () \<longrightarrow> n = 0 \<or> latest < start) \<or>
    scanning canon from_block (sc_next_block cache') latest cache' \<and> 0 < sc_next_block cache'"
proof (induction n arbitrary: start cache)
  case 0
  then show ?case by simp
next
  case (Suc n)
  show ?case
  proof (cases "latest < start")
    case True
    then show ?thesis using Suc.prems by simp
  next
    case False
    define till where "till = min (start + log_scan_chunk - 1) latest"
    show ?thesis
    proof (cases "fetch start till")
      case (Inl e)
      then show ?thesis using Suc.prems False by (auto simp: Let_def till_def [symmetric])
    next
      case (Inr fresh)
      let ?c = "cache\<lparr>sc_locked := reconcile_range (sc_locked cache) start till fresh,
        sc_next_block := (if sc_next_block cache < till + 1 then till + 1 else sc_next_block cache)\<rparr>"
      have step: "scanning canon from_block (till + 1) latest ?c" "sc_next_block ?c = till + 1"
        and pos: "0 < till + 1"
        using scanning_chunk [OF canon Suc.prems(1) room False [unfolded not_less] till_def Inr] by auto
      have "scan_chunks fetch n (till + 1) latest ?c = (r, cache')"
        using Suc.prems(2) False Inr by (simp add: Let_def till_def [symmetric])
      from Suc.IH [OF step(1) this] show ?thesis using step pos by auto
    qed
  qed
qed

section \<open>The pass as a whole\<close>

text \<open>Where a pass resumes for a head: the point below which it trusts the cache.\<close>

definition resume_point :: "scan_cache \<Rightarrow> u64 \<Rightarrow> u64 \<Rightarrow> u64" where
  "resume_point cache latest from_block =
     rewind_start (sc_next_block (prune_head_regression cache latest from_block)) from_block reorg_safety_window"

lemma unat_max_word: "unat (max a b) = max (unat a) (unat b)" for a b :: u64
  by (simp add: max_def word_le_nat_alt)

lemma pruned_scanning:
  assumes "cache_in from_block cache" "from_block \<le> latest" "unat latest + 40000 < 2 ^ 64"
    and "agrees canon (sc_locked cache) (unat from_block) (unat (resume_point cache latest from_block))"
  shows "scanning canon from_block (resume_point cache latest from_block) latest
      (prune_head_regression cache latest from_block)"
    and "resume_point cache latest from_block \<le> latest"
proof -
  define pruned where "pruned = prune_head_regression cache latest from_block"
  have l1: "unat (latest + 1) = Suc (unat latest)" using assms(3) by (simp add: unat_word_ariths)
  have sat: "sat_add latest 1 = latest + 1" using assms(3) by (simp add: sat_add_def)
  have fl: "unat from_block \<le> unat latest" using assms(2) by (simp add: word_le_nat_alt)
  have fn: "unat from_block \<le> unat (sc_next_block cache)"
    using assms(1) by (simp add: cache_in_def word_le_nat_alt)
  have nxt: "unat (sc_next_block pruned) = min (unat (sc_next_block cache)) (Suc (unat latest))"
    using fl l1 unfolding pruned_def prune_head_regression_def sat
    by (auto simp: word_less_nat_alt unat_sat_sub unat_max_word)
  have rp: "unat (resume_point cache latest from_block) = max (unat (sc_next_block pruned) - 64) (unat from_block)"
    by (simp add: resume_point_def rewind_start_def reorg_safety_window_def pruned_def
      unat_sat_sub unat_max_word)
  show le: "resume_point cache latest from_block \<le> latest"
    using rp nxt fl by (simp add: word_le_nat_alt)
  have locked: "l \<in> set (sc_locked pruned) \<longleftrightarrow> l \<in> set (sc_locked cache) \<and>
      (unat (sc_next_block cache) \<le> Suc (unat latest) \<or> unat (sl_block l) \<le> unat latest)" for l
    unfolding pruned_def prune_head_regression_def
    by (auto simp: word_less_nat_alt unat_sat_sub word_le_nat_alt)
  have "cache_in from_block pruned"
    using assms(1) locked nxt fn fl
    by (fastforce simp: cache_in_def word_le_nat_alt word_less_nat_alt min_def less_Suc_eq_le)
  moreover have "agrees canon (sc_locked pruned) (unat from_block) (unat (resume_point cache latest from_block))"
    using assms(4) locked le by (auto simp: agrees_def word_le_nat_alt)
  ultimately show "scanning canon from_block (resume_point cache latest from_block) latest
      (prune_head_regression cache latest from_block)"
    using nxt rp fl fn by (auto simp: scanning_def word_le_nat_alt pruned_def [symmetric])
qed

lemma add_match_all:
  "distinct ms \<Longrightarrow> distinct (foldl (add_match h) ms ls) \<and>
     set (foldl (add_match h) ms ls) = set ms \<union> sl_swap_id ` {l \<in> set ls. sl_hashlock l = h}"
proof (induction ls arbitrary: ms)
  case Nil
  then show ?case by simp
next
  case (Cons l ls)
  have "distinct (add_match h ms l)" using Cons.prems by (simp add: add_match_def)
  moreover have "set (add_match h ms l) = set ms \<union> sl_swap_id ` {k. k = l \<and> sl_hashlock k = h}"
    by (auto simp: add_match_def)
  ultimately show ?case using Cons.IH [of "add_match h ms l"] by auto
qed

definition chain_locks :: "(nat \<Rightarrow> seen_lock list) \<Rightarrow> bytes32 \<Rightarrow> u64 \<Rightarrow> u64 \<Rightarrow> bytes32 set" where
  "chain_locks canon hashlock lo hi =
     sl_swap_id ` {l \<in> set (chain_logs canon (unat lo) (unat hi)). sl_hashlock l = hashlock}"

lemma scanning_complete:
  assumes "canonical canon" "scanning canon from_block (sc_next_block cache) latest cache" "0 < sc_next_block cache"
  shows "set (sc_locked cache) = set (chain_logs canon (unat from_block) (unat (sat_sub (sc_next_block cache) 1)))"
proof -
  have "l \<in> set (sc_locked cache) \<longleftrightarrow>
      l \<in> set (chain_logs canon (unat from_block) (unat (sat_sub (sc_next_block cache) 1)))" for l
    unfolding in_chain_logs [OF assms(1)] unat_sat_sub
    using assms(2,3) by (auto simp: scanning_def cache_in_def agrees_def word_le_nat_alt word_less_nat_alt)
  then show ?thesis by blast
qed

text \<open>What a pass returns and leaves, for the chain the provider serves.\<close>

definition scan_right ::
  "(nat \<Rightarrow> seen_lock list) \<Rightarrow> u64 \<Rightarrow> u64 \<Rightarrow> bytes32 \<Rightarrow> (string + scan_pass) \<times> scan_cache \<Rightarrow> bool" where
  "scan_right canon from_block latest hashlock r =
     (cache_in from_block (snd r) \<and>
      (case fst r of
         Inl e \<Rightarrow> agrees canon (sc_locked (snd r)) (unat from_block)
                   (unat (rewind_start (sc_next_block (snd r)) from_block reorg_safety_window))
       | Inr pass \<Rightarrow>
           set (sc_locked (snd r)) = set (chain_logs canon (unat from_block) (unat (sp_coverage_to pass))) \<and>
           distinct (sp_matched pass) \<and>
           set (sp_matched pass) = chain_locks canon hashlock from_block (sp_coverage_to pass) \<and>
           sp_reached_head pass = (sp_coverage_to pass = latest)))"

lemma run_scan_right:
  assumes "canonical canon" "serves_chain canon fetch"
    and "cache_in from_block cache" "from_block \<le> latest" "unat latest + 40000 < 2 ^ 64"
    and "agrees canon (sc_locked cache) (unat from_block) (unat (resume_point cache latest from_block))"
  shows "scan_right canon from_block latest hashlock (run_scan fetch from_block (Inr latest) hashlock cache)"
proof -
  let ?pruned = "prune_head_regression cache latest from_block"
  let ?start = "resume_point cache latest from_block"
  note start = pruned_scanning [OF assms(3-6)]
  obtain r cache' where run: "scan_chunks fetch max_chunks_per_call ?start latest ?pruned = (r, cache')"
    by fastforce
  have left: "cache' = ?pruned \<and> r \<noteq> Inr () \<or> scanning canon from_block (sc_next_block cache') latest cache' \<and> 0 < sc_next_block cache'"
    using scan_chunks_agree [OF assms(1,2,5) start(1) run] start(2)
    by (auto simp: max_chunks_per_call_def)
  have rs: "run_scan fetch from_block (Inr latest) hashlock cache =
      (case r of Inl e \<Rightarrow> (Inl e, cache')
       | Inr _ \<Rightarrow> (Inr \<lparr> sp_matched = foldl (add_match hashlock) [] (sc_locked cache'),
           sp_coverage_to = sat_sub (sc_next_block cache') 1,
           sp_reached_head = latest \<le> sat_sub (sc_next_block cache') 1 \<rparr>, cache'))"
    using run by (auto simp: run_scan_def resume_point_def Let_def split: sum.splits)
  show ?thesis
  proof (cases r)
    case (Inl e)
    have "cache_in from_block cache'" using left start(1) by (auto simp: scanning_def)
    moreover have "unat (rewind_start (sc_next_block cache') from_block reorg_safety_window)
        \<le> unat (sc_next_block cache')"
      using \<open>cache_in from_block cache'\<close>
      by (simp add: rewind_start_def unat_max_word unat_sat_sub cache_in_def word_le_nat_alt)
    ultimately show ?thesis using left start(1) unfolding rs Inl
      by (auto simp: scan_right_def scanning_def agrees_def resume_point_def)
  next
    case (Inr u)
    then have sc: "scanning canon from_block (sc_next_block cache') latest cache'"
      and pos: "0 < sc_next_block cache'" using left by auto
    let ?to = "sat_sub (sc_next_block cache') 1"
    have locked: "set (sc_locked cache') = set (chain_logs canon (unat from_block) (unat ?to))"
      by (rule scanning_complete [OF assms(1) sc pos])
    have "cache_in from_block cache'" using sc by (simp add: scanning_def)
    moreover have "?to \<le> latest"
      using sc by (auto simp: scanning_def word_le_nat_alt unat_sat_sub)
    ultimately show ?thesis
      using add_match_all [of "[]" hashlock "sc_locked cache'"] locked unfolding rs Inr
      by (auto simp: scan_right_def chain_locks_def)
  qed
qed

text \<open>
  The scan is right over reorganisations: let the cache agree with the chain only below the
  point where the pass resumes, whatever it holds above (orphans of a chain that was left, events
  above a head that went back). Whenever the provider serves this chain, a pass that succeeds
  leaves exactly the events of the chain up to its coverage in the cache, returns exactly the
  swaps the chain locked under the hashlock there, each once, and says it reached the head only
  if that is the whole chain; a pass that fails midway leaves a cache from which the next one
  may resume.
\<close>

lemma scan_reorg_safe:
  assumes "canonical canon" "serves_chain canon fetch"
    and "cache_in from_block cache" "from_block \<le> latest" "unat latest + 40000 < 2 ^ 64"
    and "agrees canon (sc_locked cache) (unat from_block) (unat (resume_point cache latest from_block))"
  shows "scan_right canon from_block latest hashlock (run_scan fetch from_block (Inr latest) hashlock cache)"
  by (rule run_scan_right [OF assms])

text \<open>At work: an orphan and an event above the head in the cache, a new lock the chain brought.\<close>

definition sample_lock :: "u64 \<Rightarrow> u8 \<Rightarrow> seen_lock" where
  "sample_lock b k = \<lparr> sl_swap_id = [k], sl_hashlock = replicate 32 7, sl_block = b, sl_tx_hash = [k], sl_log_index = 0 \<rparr>"

definition sample_chain :: "nat \<Rightarrow> seen_lock list" where
  "sample_chain b = (if b = 105 then [sample_lock 105 1] else if b = 150 then [sample_lock 150 2] else [])"

definition sample_cache :: scan_cache where
  "sample_cache = \<lparr> sc_next_block = 200, sc_locked = [sample_lock 105 1, sample_lock 140 3, sample_lock 180 4] \<rparr>"

definition sample_fetch :: "u64 \<Rightarrow> u64 \<Rightarrow> string + seen_lock list" where
  "sample_fetch a b = Inr (filter (\<lambda>l. a \<le> sl_block l \<and> sl_block l \<le> b) [sample_lock 105 1, sample_lock 150 2])"

lemma sample_resume: "resume_point sample_cache 170 100 = 107"
  by (simp add: resume_point_def rewind_start_def prune_head_regression_def sample_cache_def sat_sub_def
    sat_add_def reorg_safety_window_def word_le_nat_alt)

lemma sample_lock_simps [simp]:
  "sl_block (sample_lock b k) = b"
  "same_log (sample_lock b k) (sample_lock b' k') \<longleftrightarrow> k = k'"
  by (simp_all add: sample_lock_def same_log_def)

lemma in_sample_chain:
  "l \<in> set (sample_chain b) \<longleftrightarrow> l = sample_lock 105 1 \<and> b = 105 \<or> l = sample_lock 150 2 \<and> b = 150"
  by (simp add: sample_chain_def)

lemma sample_canonical: "canonical sample_chain"
  unfolding canonical_def Ball_def in_sample_chain by auto

lemma sample_agrees: "agrees sample_chain (sc_locked sample_cache) 100 107"
  unfolding agrees_def in_sample_chain by (auto simp: sample_cache_def sample_lock_def)

lemma sample_serves: "serves_chain sample_chain sample_fetch"
proof -
  have "set (filter (\<lambda>l. a \<le> sl_block l \<and> sl_block l \<le> b) [sample_lock 105 1, sample_lock 150 2]) =
      set (chain_logs sample_chain (unat a) (unat b))" for a b
    by (rule set_eqI, unfold in_chain_logs [OF sample_canonical] in_sample_chain)
      (auto simp: word_le_nat_alt sample_lock_def)
  then show ?thesis by (auto simp: serves_chain_def sample_fetch_def)
qed

lemma sample_in: "cache_in 100 sample_cache"
  by (simp add: cache_in_def sample_cache_def sample_lock_def)

lemma sample_resumes:
  "agrees sample_chain (sc_locked sample_cache) (unat (100 :: u64)) (unat (resume_point sample_cache 170 100))"
  using sample_agrees by (simp add: sample_resume)

lemma scan_reorg_safe_witness:
  "scan_right sample_chain 100 170 (replicate 32 7) (run_scan sample_fetch 100 (Inr 170) (replicate 32 7) sample_cache)"
  by (rule scan_reorg_safe [OF sample_canonical sample_serves sample_in _ _ sample_resumes]) simp_all

text \<open>The budget: a pass whose queries are all answered covers 640000 blocks, or reaches the head.\<close>

lemma scan_chunk_step:
  assumes "start \<le> latest" "till = min (start + log_scan_chunk - 1) latest" "fetch start till = Inr fresh"
  shows "scan_chunks fetch (Suc n) start latest cache = scan_chunks fetch n (till + 1) latest
    (cache\<lparr>sc_locked := reconcile_range (sc_locked cache) start till fresh,
       sc_next_block := (if sc_next_block cache < till + 1 then till + 1 else sc_next_block cache)\<rparr>)"
  using assms(1,3) by (simp add: Let_def assms(2) [symmetric] leD)

lemma scan_chunks_advance:
  assumes all: "\<And>a b. \<exists>fresh. fetch a b = Inr fresh"
    and canon: "canonical canon" "serves_chain canon fetch" and room: "unat latest + 40000 < 2 ^ 64"
  shows "scanning canon from_block start latest cache \<Longrightarrow> start \<le> latest \<Longrightarrow>
    scan_chunks fetch (Suc n) start latest cache = (r, cache') \<Longrightarrow>
    r = Inr () \<and> unat (sc_next_block cache') = min (unat start + Suc n * 40000) (Suc (unat latest))"
proof (induction n arbitrary: start cache)
  case 0
  define till where "till = min (start + log_scan_chunk - 1) latest"
  obtain fresh where f: "fetch start till = Inr fresh" using all by blast
  note e = chunk_end [OF 0(2) room till_def]
  note nb = scanning_chunk(2) [OF canon 0(1) room 0(2) till_def f]
  have "scan_chunks fetch 0 (till + 1) latest
    (cache\<lparr>sc_locked := reconcile_range (sc_locked cache) start till fresh,
       sc_next_block := (if sc_next_block cache < till + 1 then till + 1 else sc_next_block cache)\<rparr>) = (r, cache')"
    using 0(3) unfolding scan_chunk_step [where fetch=fetch, OF 0(2) till_def f] .
  then show ?case using nb e by auto
next
  case (Suc n)
  define till where "till = min (start + log_scan_chunk - 1) latest"
  obtain fresh where f: "fetch start till = Inr fresh" using all by blast
  let ?c = "cache\<lparr>sc_locked := reconcile_range (sc_locked cache) start till fresh,
    sc_next_block := (if sc_next_block cache < till + 1 then till + 1 else sc_next_block cache)\<rparr>"
  note e = chunk_end [OF Suc.prems(2) room till_def]
  note step = scanning_chunk [OF canon Suc.prems(1) room Suc.prems(2) till_def f]
  have go: "scan_chunks fetch (Suc n) (till + 1) latest ?c = (r, cache')"
    using Suc.prems(3) unfolding scan_chunk_step [where fetch=fetch, OF Suc.prems(2) till_def f] .
  show ?case
  proof (cases "till + 1 \<le> latest")
    case True
    then have "unat till = unat start + 39999" using e by (simp add: word_le_nat_alt)
    then show ?thesis using Suc.IH [OF step(1) True go] e by auto
  next
    case False
    then have "latest < till + 1" by (simp add: not_le)
    then have "r = Inr ()" "cache' = ?c" using go unfolding scan_chunks.simps(2) by simp_all
    then show ?thesis using step(2) False e by (simp add: word_le_nat_alt)
  qed
qed

lemma scan_advances:
  assumes "canonical canon" "serves_chain canon fetch" "\<And>a b. \<exists>fresh. fetch a b = Inr fresh"
    and "cache_in from_block cache" "from_block \<le> latest" "unat latest + 40000 < 2 ^ 64"
    and "agrees canon (sc_locked cache) (unat from_block) (unat (resume_point cache latest from_block))"
  obtains pass cache' where "run_scan fetch from_block (Inr latest) hashlock cache = (Inr pass, cache')"
    and "unat (sp_coverage_to pass) = min (unat (resume_point cache latest from_block) + 639999) (unat latest)"
proof -
  let ?pruned = "prune_head_regression cache latest from_block"
  let ?start = "resume_point cache latest from_block"
  note start = pruned_scanning [OF assms(4-7)]
  obtain r cache' where run: "scan_chunks fetch (Suc 15) ?start latest ?pruned = (r, cache')" by fastforce
  have n: "Suc 15 = max_chunks_per_call" by (simp add: max_chunks_per_call_def)
  have adv: "r = Inr ()" "unat (sc_next_block cache') = min (unat ?start + 640000) (Suc (unat latest))"
    using scan_chunks_advance [OF assms(3,1,2,6) start run] by auto
  have rs: "run_scan fetch from_block (Inr latest) hashlock cache =
      (Inr \<lparr> sp_matched = foldl (add_match hashlock) [] (sc_locked cache'),
           sp_coverage_to = sat_sub (sc_next_block cache') 1,
           sp_reached_head = latest \<le> sat_sub (sc_next_block cache') 1 \<rparr>, cache')"
    using run unfolding n adv(1) by (simp add: run_scan_def resume_point_def Let_def)
  show ?thesis by (rule that [OF rs]) (simp add: unat_sat_sub adv)
qed

section \<open>The reply of the tool\<close>

lemma fetch_found_ids: "fetch_found get sids = Inr found \<Longrightarrow> List.map fst found = sids"
  by (induction sids arbitrary: found) (auto split: sum.splits)

lemma htlc_json_id: "htlc_json now sid h = Ok v \<Longrightarrow> hv_swap_id v = ''0x'' @ hex_of sid"
  by (auto simp: htlc_json_def res_bind_Ok_iff)

lemma htlc_views_ids:
  "htlc_views now found = Ok vs \<Longrightarrow> List.map hv_swap_id vs = List.map (\<lambda>(sid, h). ''0x'' @ hex_of sid) found"
proof (induction now found arbitrary: vs rule: htlc_views.induct)
  case (2 now swap_id h found)
  then obtain v ws where "htlc_json now swap_id h = Ok v" "htlc_views now found = Ok ws" "vs = v # ws"
    by (auto simp: res_bind_Ok_iff)
  then show ?case using 2 htlc_json_id by fastforce
qed simp

definition reply_right :: "(nat \<Rightarrow> seen_lock list) \<Rightarrow> u64 \<Rightarrow> u64 \<Rightarrow> bytes32 \<Rightarrow> (string, htlc_reply) res \<Rightarrow> bool" where
  "reply_right canon from_block latest hashlock r =
     (case r of
        Ok (StatusByScan found how a lo hi reached views notice) \<Rightarrow>
          (\<exists>sids. distinct sids \<and> set sids = chain_locks canon hashlock from_block hi \<and>
             List.map hv_swap_id views = List.map (\<lambda>sid. ''0x'' @ hex_of sid) sids \<and>
             lo = from_block \<and> found = (sids \<noteq> []) \<and> reached = (hi = latest) \<and>
             how = (if sids \<noteq> [] then ''hashlock'' else if hi = latest then ''not_found'' else ''not_found_within_budget''))
      | _ \<Rightarrow> True)"

definition scan_reply :: "u64 \<Rightarrow> eth_reader \<Rightarrow> scan_outcome \<Rightarrow> (string, htlc_reply) res" where
  "scan_reply now er scan =
     res_bind (htlc_views now (so_found scan)) (\<lambda>views.
       Ok (StatusByScan (views \<noteq> []) (resolved_as (views \<noteq> []) (so_reached_head scan))
             (er_address er) (so_coverage_from scan) (so_coverage_to scan) (so_reached_head scan) views
             (if views = [] \<and> \<not> so_reached_head scan
              then Some (sat_sub (so_coverage_to scan) (so_coverage_from scan), so_coverage_to scan)
              else None)))"

definition by_scan :: "(string, htlc_reply) res \<Rightarrow> bool" where
  "by_scan r \<longleftrightarrow> (\<exists>found how a lo hi reached views notice. r = Ok (StatusByScan found how a lo hi reached views notice))"

text \<open>A reply that lists swaps comes from the scan.\<close>

lemma status_by_scan:
  assumes "parse_bytes32 hex_decode arg = Inr hashlock"
    and "find_by_hashlock get_logs head get hashlock er = (r, er')"
    and "by_scan (fst (sepolia_htlc_status hex_decode connect now first get_logs head get arg (Some er)))"
  obtains scan where "r = Inr scan"
    "fst (sepolia_htlc_status hex_decode connect now first get_logs head get arg (Some er)) = scan_reply now er scan"
proof (cases "htlc_by_swap_id first hashlock")
  case (Inl e)
  then have False using assms by (simp add: sepolia_htlc_status_def ctx_eth_def by_scan_def)
  then show ?thesis ..
next
  case (Inr h)
  show ?thesis
  proof (cases "state_str (htlc_swapState h) = ''EMPTY''")
    case False
    then have False using assms Inr
      by (auto simp: sepolia_htlc_status_def ctx_eth_def by_scan_def res_bind_Ok_iff)
    then show ?thesis ..
  next
    case True
    show ?thesis
    proof (cases r)
      case (Inl e)
      then have False using assms Inr True by (simp add: sepolia_htlc_status_def ctx_eth_def by_scan_def)
      then show ?thesis ..
    next
      case r: (Inr scan)
      then show ?thesis using assms Inr True that
        by (simp add: sepolia_htlc_status_def ctx_eth_def scan_reply_def)
    qed
  qed
qed

lemma find_by_hashlock_right:
  assumes "scan_right canon (er_from_block er) latest hashlock
      (run_scan (fetch_locks get_logs) (er_from_block er) (Inr latest) hashlock (er_cache er))"
    and "find_by_hashlock get_logs (Inr latest) get hashlock er = (r, er')"
  shows "cache_in (er_from_block er) (er_cache er') \<and> er_from_block er' = er_from_block er \<and>
    (\<forall>scan. r = Inr scan \<longrightarrow> distinct (List.map fst (so_found scan)) \<and>
       set (List.map fst (so_found scan)) = chain_locks canon hashlock (er_from_block er) (so_coverage_to scan) \<and>
       so_coverage_from scan = er_from_block er \<and> so_reached_head scan = (so_coverage_to scan = latest))"
proof -
  obtain p cache' where p: "run_scan (fetch_locks get_logs) (er_from_block er) (Inr latest) hashlock (er_cache er) = (p, cache')"
    by fastforce
  show ?thesis
  proof (cases p)
    case (Inl e)
    then show ?thesis using assms p by (auto simp: find_by_hashlock_def scan_right_def)
  next
    case (Inr pass)
    show ?thesis
    proof (cases "fetch_found get (sp_matched pass)")
      case (Inl e)
      then show ?thesis using assms p Inr by (auto simp: find_by_hashlock_def scan_right_def)
    next
      case found: (Inr found)
      have "r = Inr \<lparr> so_found = found, so_coverage_from = er_from_block er,
          so_coverage_to = sp_coverage_to pass, so_reached_head = sp_reached_head pass \<rparr>"
        "er' = er\<lparr>er_cache := cache'\<rparr>"
        using assms(2) p Inr found by (simp_all add: find_by_hashlock_def)
      then show ?thesis using assms(1) fetch_found_ids [OF found]
        by (simp add: p Inr scan_right_def del: set_map)
    qed
  qed
qed

text \<open>
  C21. The status tool answers for the whole chain: over any reorganisation above the point where
  the scan resumes, and whatever the provider fails to answer, a reply that lists the swaps of a
  hashlock lists exactly those the chain locked in the blocks it names, each once; it says
  not found only when it has read the chain up to its head and the hashlock was never locked.
\<close>

theorem status_answers_for_chain:
  assumes "canonical canon" "serves_chain canon (fetch_locks get_logs)"
    and "cache_in (er_from_block er) (er_cache er)" "er_from_block er \<le> latest" "unat latest + 40000 < 2 ^ 64"
    and "agrees canon (sc_locked (er_cache er)) (unat (er_from_block er))
           (unat (resume_point (er_cache er) latest (er_from_block er)))"
    and "parse_bytes32 hex_decode arg = Inr hashlock"
  shows "reply_right canon (er_from_block er) latest hashlock
      (fst (sepolia_htlc_status hex_decode connect now first get_logs (Inr latest) get arg (Some er)))"
    (is "reply_right _ _ _ _ ?r")
proof -
  note right = run_scan_right [OF assms(1-6), of hashlock]
  obtain r er' where f: "find_by_hashlock get_logs (Inr latest) get hashlock er = (r, er')" by fastforce
  note ff = find_by_hashlock_right [OF right f]
  show ?thesis
  proof (cases "by_scan ?r")
    case False
    then show ?thesis by (cases ?r) (auto simp: by_scan_def reply_right_def split: htlc_reply.splits)
  next
    case True
    then obtain scan where scan: "r = Inr scan" "?r = scan_reply now er scan"
      by (rule status_by_scan [OF assms(7) f])
    obtain vs where vs: "htlc_views now (so_found scan) = Ok vs"
      using True unfolding scan(2) by (auto simp: scan_reply_def by_scan_def res_bind_Ok_iff)
    have ids: "List.map hv_swap_id vs = List.map (\<lambda>sid. ''0x'' @ hex_of sid) (List.map fst (so_found scan))"
      using htlc_views_ids [OF vs] by (simp add: case_prod_unfold)
    then have "vs = [] \<longleftrightarrow> List.map fst (so_found scan) = []" by (metis map_is_Nil_conv)
    then show ?thesis unfolding scan(2) reply_right_def
      using ff ids scan(1) vs
      by (simp only: scan_reply_def res_bind.simps res.case htlc_reply.case resolved_as_def)
        (intro exI [of _ "List.map fst (so_found scan)"], simp)
  qed
qed

definition sample_logs :: "u64 \<Rightarrow> u64 \<Rightarrow> string + raw_log list" where
  "sample_logs a b = Inr (List.map (\<lambda>l. \<lparr> rl_block = Some (sl_block l), rl_tx_hash = Some (sl_tx_hash l),
     rl_index = Some 0, rl_decoded = Some (sl_swap_id l, sl_hashlock l) \<rparr>)
     (filter (\<lambda>l. a \<le> sl_block l \<and> sl_block l \<le> b) [sample_lock 105 1, sample_lock 150 2]))"

lemma fetch_sample: "fetch_locks sample_logs a b = sample_fetch a b"
  by (simp add: fetch_locks_def sample_logs_def sample_fetch_def seen_of_def List.map_filter_def sample_lock_def)

definition sample_reader :: eth_reader where
  "sample_reader = \<lparr> er_address = 1, er_from_block = 100, er_cache = sample_cache \<rparr>"

theorem status_answers_for_chain_witness:
  "reply_right sample_chain 100 170 (replicate 32 7)
     (fst (sepolia_htlc_status (\<lambda>_. Inr (replicate 32 7)) (Inl []) 0 (\<lambda>_. Inr empty_htlc) sample_logs (Inr 170)
        (\<lambda>_. Inr empty_htlc) [] (Some sample_reader)))"
proof -
  have r: "er_from_block sample_reader = 100" "er_cache sample_reader = sample_cache"
    by (simp_all add: sample_reader_def)
  have f: "fetch_locks sample_logs = sample_fetch" by (intro ext fetch_sample)
  show ?thesis
    using status_answers_for_chain [of sample_chain sample_logs sample_reader 170 "\<lambda>_. Inr (replicate 32 7)" "[]"
        "replicate 32 7", unfolded r f, OF sample_canonical sample_serves sample_in _ _ sample_resumes]
    by (simp add: parse_bytes32_def)
qed

end
