(* ===== verification/Mcp_Writes.thy ===== *)
theory Mcp_Writes
  imports Lez_Onboard Mcp_Scan
begin

text \<open>
  The write path of the MCP server (\<open>lez-mcp/src/server.rs\<close>): the gate before a submission, the
  confirmation of one submitted transaction with its fallbacks, and the initialization of the
  signer's account, as programs over the trace. Other calls of the server run between any two
  events: what a program reads of the shared state is an answer of the environment, and what it
  writes is an event. A dropped request is a prefix of a run; a detached section runs to its end.
\<close>

section \<open>Context\<close>

text \<open>
  The environment of the server: that of the other programs, and the answers of the shared gate
  and token store, of the CSPRNG and of the sequencer's \<open>getProgramIds\<close>, \<open>getTransaction\<close> and
  \<open>getAccount\<close>. The last fields are functions of other crates: the parser of transaction hashes, the
  url redaction over the url parser, the embedded ids, and the base58 codec.
\<close>

record mcp_env =
  m_env :: env
  m_gate :: "trace \<Rightarrow> gate_state"
  m_program_ids :: "trace \<Rightarrow> string + id_table"
  m_get_tx :: "trace \<Rightarrow> string \<Rightarrow> string + bool"
  m_account :: "trace \<Rightarrow> account_id \<Rightarrow> string + lee_account"
  m_new_token :: "trace \<Rightarrow> string"
  m_check :: "trace \<Rightarrow> string \<Rightarrow> preview_terms \<Rightarrow> nat \<Rightarrow> token_check"
  m_is_hash :: "string \<Rightarrow> bool"
  m_parse_url :: "string \<Rightarrow> parsed_url option"
  m_builtin :: builtin_ids
  m_parse_account :: "string \<Rightarrow> (swap_error, account_id) res"

record mcp_ctx =
  cx_cfg :: mcp_config
  cx_lez :: "lez_client option"
  cx_signer :: "signer option"

definition mev :: "('a \<Rightarrow> mcp_event) \<Rightarrow> (trace \<Rightarrow> 'a) \<Rightarrow> 'a io" where
  "mev mk answer = ext (\<lambda>a. XMcp (mk a)) answer"

definition lock_on :: "mcp_lock \<Rightarrow> unit io" where
  "lock_on l = mev (\<lambda>_. MLock l) (\<lambda>_. ())"

definition unlock :: "mcp_lock \<Rightarrow> unit io" where
  "unlock l = mev (\<lambda>_. MUnlock l) (\<lambda>_. ())"

definition read_gate :: "mcp_env \<Rightarrow> gate_state io" where
  "read_gate me = mev MGateRead (m_gate me)"

definition get_account :: "mcp_env \<Rightarrow> account_id \<Rightarrow> (string + lee_account) io" where
  "get_account me acc = mev (MAccount acc) (\<lambda>tr. m_account me tr acc)"

section \<open>Replies\<close>

text \<open>The tool errors; their rendering as JSON is the serializer's.\<close>

datatype tool_error =
    ToolFail string
  | WritesDisabled gate
  | AccountUninitialized account_id
  | RecipientUninitialized account_id
  | SenderIncompatible account_id program_id
  | InsufficientBalance account_id u128 u128
  | FingerprintFail string bool

type_synonym 'a tio = "(trace, (tool_error, 'a) res) state"

definition fail_with :: "(string \<Rightarrow> tool_error) \<Rightarrow> 'a sio \<Rightarrow> 'a tio" where
  "fail_with f m = do {
     r \<leftarrow> m;
     ret (case r of Ok a \<Rightarrow> Ok a | Err e \<Rightarrow> Err (f e) | Panic p \<Rightarrow> Panic p | Pending \<Rightarrow> Pending) }"

section \<open>The write gate\<close>

text \<open>The request, and the store of its verdict with the instant after it.\<close>

definition run_fingerprint :: "mcp_env \<Rightarrow> string \<Rightarrow> (string + fingerprint_report) io" where
  "run_fingerprint me url = do {
     answer \<leftarrow> mev MProgramIds (m_program_ids me);
     ret (fingerprint_of (redact_url (m_parse_url me)) url (m_builtin me) answer) }"

definition store_gate :: "mcp_env \<Rightarrow> gate \<Rightarrow> unit io" where
  "store_gate me g = do {
     t \<leftarrow> instant_now (m_env me);
     mev (\<lambda>_. MGateStore \<lparr> gs_gate = g, gs_checked_at = t \<rparr>) (\<lambda>_. ()) }"

definition refresh_gate_single_flight :: "mcp_env \<Rightarrow> gate io \<Rightarrow> gate io" where
  "refresh_gate_single_flight me refresh = do {
     lock_on RefreshLock;
     gs \<leftarrow> read_gate me;
     now \<leftarrow> instant_now (m_env me);
     if gate_is_fresh gs fingerprint_ttl now then do { unlock RefreshLock; ret (gs_gate gs) }
     else do {
       g \<leftarrow> refresh;
       store_gate me g;
       unlock RefreshLock;
       ret g } }"

definition ensure_fresh_write_gate :: "mcp_env \<Rightarrow> mcp_ctx \<Rightarrow> unit tio" where
  "ensure_fresh_write_gate me cx = do {
     gs \<leftarrow> read_gate me;
     now \<leftarrow> instant_now (m_env me);
     if gate_is_fresh gs fingerprint_ttl now then ret (Ok ())
     else do {
       g \<leftarrow> refresh_gate_single_flight me (do {
              r \<leftarrow> run_fingerprint me (mc_sequencer_url (cx_cfg cx));
              ret (gate_of r) });
       ret (if writes_enabled g then Ok () else Err (WritesDisabled g)) } }"

section \<open>Confirmation\<close>

definition commit_timeout :: nat where "commit_timeout = 240000"
definition commit_poll :: nat where "commit_poll = 5000"
definition get_tx_max_rpc_errors :: u32 where "get_tx_max_rpc_errors = 3"

datatype confirm_fallback = SignerNonce account_id u128 | PinataSeed bytes32

definition nonce_advanced :: "u128 option \<Rightarrow> u128 \<Rightarrow> bool" where
  "nonce_advanced current submitted \<longleftrightarrow> (case current of Some c \<Rightarrow> submitted < c | None \<Rightarrow> False)"

definition seed_rotated :: "bytes \<Rightarrow> bytes32 \<Rightarrow> bool" where
  "seed_rotated current solved \<longleftrightarrow> current \<noteq> solved"

text \<open>A probe answers whether it saw the confirmation, or nothing when its read failed.\<close>

fun poll_for_confirmation ::
  "nat \<Rightarrow> mcp_env \<Rightarrow> nat \<Rightarrow> nat \<Rightarrow> string \<Rightarrow> bool option io \<Rightarrow> string \<Rightarrow> (bool \<times> string) sio" where
  "poll_for_confirmation 0 me deadline poll strength probe on_timeout = ret Pending"
| "poll_for_confirmation (Suc n) me deadline poll strength probe on_timeout = do {
     r \<leftarrow> probe;
     if r = Some True then ret (Ok (True, strength))
     else do {
       t \<leftarrow> instant_now (m_env me);
       if deadline \<le> t then ret (Err on_timeout)
       else do {
         sleep poll;
         poll_for_confirmation n me deadline poll strength probe on_timeout } } }"

definition first_or :: "u128 list \<Rightarrow> u128" where
  "first_or ns = (case ns of n # _ \<Rightarrow> n | [] \<Rightarrow> 0)"

definition nonce_probe :: "mcp_env \<Rightarrow> account_id \<Rightarrow> u128 \<Rightarrow> bool option io" where
  "nonce_probe me acc submitted = do {
     r \<leftarrow> ext (XNonces [acc]) (\<lambda>tr. a_nonces (m_env me) tr [acc]);
     ret (case r of
            Inr ns \<Rightarrow> Some (nonce_advanced (case ns of n # _ \<Rightarrow> Some n | [] \<Rightarrow> None) submitted)
          | Inl _ \<Rightarrow> None) }"

definition seed_probe :: "mcp_env \<Rightarrow> bytes32 \<Rightarrow> bool option io" where
  "seed_probe me solved_seed = do {
     r \<leftarrow> pinata_challenge (m_env me);
     ret (case r of Ok challenge \<Rightarrow> Some (seed_rotated (drop 1 challenge) solved_seed) | _ \<Rightarrow> None) }"

definition confirm_via_nonce_advance :: "nat \<Rightarrow> mcp_env \<Rightarrow> account_id \<Rightarrow> u128 \<Rightarrow> (bool \<times> string) sio" where
  "confirm_via_nonce_advance fuel me acc submitted = do {
     t \<leftarrow> instant_now (m_env me);
     poll_for_confirmation fuel me (t + commit_timeout) commit_poll ''nonce_advanced''
       (nonce_probe me acc submitted) ''tx unconfirmed: account nonce did not advance within 240s'' }"

definition confirm_via_seed_rotation :: "nat \<Rightarrow> mcp_env \<Rightarrow> bytes32 \<Rightarrow> (bool \<times> string) sio" where
  "confirm_via_seed_rotation fuel me solved_seed = do {
     t \<leftarrow> instant_now (m_env me);
     poll_for_confirmation fuel me (t + commit_timeout) commit_poll ''seed_rotated''
       (seed_probe me solved_seed) ''claim unconfirmed: pinata seed did not rotate within 240s'' }"

text \<open>The reads by hash: a verdict, or nothing when the endpoint does not serve them.\<close>

fun get_tx_loop :: "nat \<Rightarrow> mcp_env \<Rightarrow> string \<Rightarrow> nat \<Rightarrow> u32 \<Rightarrow> ((bool \<times> string) option) sio" where
  "get_tx_loop 0 me tx deadline rpc_errors = ret Pending"
| "get_tx_loop (Suc n) me tx deadline rpc_errors = do {
     r \<leftarrow> mev (MGetTx tx) (\<lambda>tr. m_get_tx me tr tx);
     if r = Inr True then ret (Ok (Some (True, ''tx_committed'')))
     else
       (let errs = (case r of Inr _ \<Rightarrow> 0 | Inl _ \<Rightarrow> rpc_errors + 1) in
        if get_tx_max_rpc_errors \<le> errs then ret (Ok None)
        else do {
          t \<leftarrow> instant_now (m_env me);
          if deadline \<le> t then ret (Ok (Some (False, ''tx_uncommitted'')))
          else do { sleep commit_poll; get_tx_loop n me tx deadline errs } }) }"

definition confirm_fallback_run :: "nat \<Rightarrow> mcp_env \<Rightarrow> confirm_fallback \<Rightarrow> (bool \<times> string) sio" where
  "confirm_fallback_run fuel me fb =
     (case fb of
        SignerNonce acc submitted \<Rightarrow> confirm_via_nonce_advance fuel me acc submitted
      | PinataSeed solved_seed \<Rightarrow> confirm_via_seed_rotation fuel me solved_seed)"

definition confirm_submitted_tx :: "nat \<Rightarrow> mcp_env \<Rightarrow> string \<Rightarrow> confirm_fallback \<Rightarrow> (bool \<times> string) sio" where
  "confirm_submitted_tx fuel me tx fb =
     (if m_is_hash me tx then do {
        t \<leftarrow> instant_now (m_env me);
        tryM (get_tx_loop fuel me tx (t + commit_timeout) 0)
          (\<lambda>v. case v of Some c \<Rightarrow> ret (Ok c) | None \<Rightarrow> confirm_fallback_run fuel me fb) }
      else confirm_fallback_run fuel me fb)"

section \<open>Accounts\<close>

definition balance_of :: "mcp_env \<Rightarrow> mcp_ctx \<Rightarrow> account_id \<Rightarrow> u128 sio" where
  "balance_of me cx acc =
     (case cx_lez cx of
        Some c \<Rightarrow> do {
          r \<leftarrow> get_balance (m_env me) acc;
          ret (case r of Ok b \<Rightarrow> Ok b | Err e \<Rightarrow> Err (c_show_error (m_env me) e) | Panic p \<Rightarrow> Panic p | Pending \<Rightarrow> Pending) }
      | None \<Rightarrow> do {
          r \<leftarrow> read_balance (m_env me) acc;
          ret (case r of Inr b \<Rightarrow> Ok b | Inl e \<Rightarrow> Err (''get_account_balance failed: '' @ e)) })"

definition balance_or :: "mcp_env \<Rightarrow> mcp_ctx \<Rightarrow> account_id \<Rightarrow> u128 \<Rightarrow> u128 io" where
  "balance_or me cx acc dflt = do {
     r \<leftarrow> balance_of me cx acc;
     ret (case r of Ok b \<Rightarrow> b | _ \<Rightarrow> dflt) }"

definition account_exists :: "mcp_env \<Rightarrow> account_id \<Rightarrow> bool sio" where
  "account_exists me acc = do {
     r \<leftarrow> get_account me acc;
     ret (case r of Inl e \<Rightarrow> Err (''get_account failed: '' @ e) | Inr a \<Rightarrow> Ok (a \<noteq> default_account)) }"

definition submit_init :: "nat \<Rightarrow> mcp_env \<Rightarrow> account_id \<Rightarrow> u128 \<Rightarrow> string sio" where
  "submit_init fuel me acc submitted =
     (let en = m_env me; pid = c_transfer_program en in
      case c_message_err en pid [acc] InitializePayload of
        Some e \<Rightarrow> ret (Err (''failed to build Initialize message: '' @ e))
      | None \<Rightarrow> do {
          r \<leftarrow> ext (XSend pid [acc] InitializePayload) (\<lambda>tr. a_send en tr pid [acc] InitializePayload);
          (case r of
             Inl e \<Rightarrow> ret (Err (''Initialize submission failed: '' @ e))
           | Inr tx \<Rightarrow>
               tryM (confirm_submitted_tx fuel me tx (SignerNonce acc submitted)) (\<lambda>(confirmed, strength).
                 if \<not> confirmed then ret (Err (''account Initialize did not commit within 240s (tx '' @ tx @ '')''))
                 else do {
                   a \<leftarrow> get_account me acc;
                   ret (case a of
                          Inl e \<Rightarrow> Err (''get_account failed: '' @ e)
                        | Inr account \<Rightarrow>
                            if la_program_owner account \<noteq> pid
                            then Err (''account Initialize did not take effect: ownership did not flip (tx '' @ tx @ '')'')
                            else Ok tx) })) })"

definition initialize_signer_account :: "nat \<Rightarrow> mcp_env \<Rightarrow> signer \<Rightarrow> string sio" where
  "initialize_signer_account fuel me sg =
     (let acc = sg_account_id sg; en = m_env me in do {
        a \<leftarrow> get_account me acc;
        (case a of
           Inl e \<Rightarrow> ret (Err (''get_account failed: '' @ e))
         | Inr existing \<Rightarrow>
             if la_program_owner existing = c_transfer_program en then ret (Ok ''already-initialized'')
             else do {
               ns \<leftarrow> ext (XNonces [acc]) (\<lambda>tr. a_nonces en tr [acc]);
               (case ns of
                  Inl e \<Rightarrow> ret (Err (''get_accounts_nonces failed: '' @ e))
                | Inr nonces \<Rightarrow> submit_init fuel me acc (first_or nonces)) }) })"

text \<open>
  \<open>run_guarded_detached\<close>: the task owns the guard and runs \<open>work\<close> to its end, whatever becomes of
  the request; a panic in it ends the task and releases the guard.
\<close>

definition run_guarded_detached :: "mcp_lock \<Rightarrow> (trace, ('e, 'a) res) state \<Rightarrow> (trace, (string, ('e, 'a) res) res) state" where
  "run_guarded_detached l work = do {
     r \<leftarrow> work;
     (case r of
        Pending \<Rightarrow> ret Pending
      | Panic m \<Rightarrow> do { unlock l; ret (Err (''write critical-section task failed: '' @ m)) }
      | _ \<Rightarrow> do { unlock l; ret (Ok r) }) }"

end
