(* ===== verification/Mcp_Tools.thy ===== *)
theory Mcp_Tools
  imports Mcp_Writes
begin

text \<open>
  The tools of the MCP server that read or write the LEZ chain (\<open>lez-mcp/src/server.rs\<close>) and its
  startup (\<open>lez-mcp/src/main.rs\<close>). A reply is its fields; the fixed texts around them and their
  rendering as JSON are not modelled.
\<close>

section \<open>Balance and fingerprint\<close>

definition account_arg :: "mcp_env \<Rightarrow> string \<Rightarrow> string \<Rightarrow> (tool_error, account_id) res" where
  "account_arg me what s =
     (case m_parse_account me s of
        Ok acc \<Rightarrow> Ok acc
      | Err e \<Rightarrow> Err (ToolFail (''invalid '' @ what @ '': '' @ c_show_error (m_env me) e))
      | Panic p \<Rightarrow> Panic p
      | Pending \<Rightarrow> Pending)"

record balance_reply =
  br_account_id :: account_id
  br_balance :: u128
  br_sequencer_url :: string

definition lez_balance :: "mcp_env \<Rightarrow> mcp_ctx \<Rightarrow> string option \<Rightarrow> balance_reply tio" where
  "lez_balance me cx arg =
     tryM (ret (case arg of
             Some s \<Rightarrow> account_arg me ''account_id'' s
           | None \<Rightarrow> (case cx_signer cx of
                        Some sg \<Rightarrow> Ok (sg_account_id sg)
                      | None \<Rightarrow> Err (ToolFail ''no account_id given and no signing key configured''))))
       (\<lambda>acc. tryM (fail_with ToolFail (balance_of me cx acc)) (\<lambda>b.
          ret (Ok \<lparr> br_account_id = acc, br_balance = b,
                    br_sequencer_url = redact_url (m_parse_url me) (mc_sequencer_url (cx_cfg cx)) \<rparr>)))"

definition trim_end_slash :: "string \<Rightarrow> string" where
  "trim_end_slash s = rev (dropWhile (\<lambda>c. c = CHR ''/'') (rev s))"

text \<open>
  The target of \<open>lez_fingerprint\<close>: the url and whether it is the configured sequencer, whose verdict
  is the gate's. \<open>client_err\<close> is what the parser or the client builder finds wrong with a url.
\<close>

definition fingerprint_target :: "(string \<Rightarrow> string option) \<Rightarrow> mcp_ctx \<Rightarrow> string option \<Rightarrow> (tool_error, string \<times> bool) res" where
  "fingerprint_target client_err cx arg =
     (case arg of
        None \<Rightarrow> Ok (mc_sequencer_url (cx_cfg cx), True)
      | Some url \<Rightarrow>
          (case client_err url of
             Some e \<Rightarrow> Err (ToolFail e)
           | None \<Rightarrow> Ok (url, trim_end_slash url = trim_end_slash (mc_sequencer_url (cx_cfg cx)))))"

definition recheck_gate :: "mcp_env \<Rightarrow> string \<Rightarrow> (string + fingerprint_report) io" where
  "recheck_gate me url = do {
     lock_on RefreshLock;
     outcome \<leftarrow> run_fingerprint me url;
     store_gate me (gate_of outcome);
     unlock RefreshLock;
     ret outcome }"

definition lez_fingerprint ::
  "(string \<Rightarrow> string option) \<Rightarrow> mcp_env \<Rightarrow> mcp_ctx \<Rightarrow> string option \<Rightarrow> (fingerprint_report \<times> bool) tio" where
  "lez_fingerprint client_err me cx arg =
     tryM (ret (fingerprint_target client_err cx arg)) (\<lambda>(url, updates_gate). do {
       outcome \<leftarrow> (if updates_gate then recheck_gate me url else run_fingerprint me url);
       gs \<leftarrow> read_gate me;
       ret (case outcome of
              Inr r \<Rightarrow> Ok (r, writes_enabled (gs_gate gs))
            | Inl e \<Rightarrow> Err (FingerprintFail e (writes_enabled (gs_gate gs)))) })"

section \<open>Faucet claims\<close>

definition max_faucet_claims :: u32 where "max_faucet_claims = 20"

definition clamp_claims :: "u32 option \<Rightarrow> u32" where
  "clamp_claims m = min (max (case m of Some k \<Rightarrow> k | None \<Rightarrow> 10) 1) max_faucet_claims"

record claim_line =
  cl_tx_hash :: string
  cl_pow_solution :: u128
  cl_confirmed :: bool
  cl_confirmation :: string
  cl_balance_after :: u128

record faucet_reply =
  fy_init_tx :: "string option"
  fy_account_id :: account_id
  fy_claims :: "claim_line list"
  fy_start_balance :: u128
  fy_final_balance :: u128
  fy_target_balance :: "u128 option"
  fy_warning :: "string option"

definition target_met :: "u128 option \<Rightarrow> u128 \<Rightarrow> bool" where
  "target_met target balance \<longleftrightarrow> (case target of Some t \<Rightarrow> t \<le> balance | None \<Rightarrow> False)"

text \<open>Submission and confirmation of a solved claim, in the task that owns the claim lock.\<close>

definition claim_section :: "nat \<Rightarrow> mcp_env \<Rightarrow> solved_claim \<Rightarrow> (string \<times> bool \<times> string) sio" where
  "claim_section fuel me solved =
     tryM (submit_solved_claim (m_env me) solved) (\<lambda>tx.
     tryM (confirm_submitted_tx fuel me tx (PinataSeed (sc_seed solved))) (\<lambda>(confirmed, confirmation).
       ret (Ok (tx, confirmed, confirmation))))"

text \<open>
  The claim loop; \<open>n\<close> claims are left. It returns the claims, the last balance and what kept it
  from completing; a refusal of the gate ends the whole call.
\<close>

fun claims_loop ::
  "nat \<Rightarrow> nat \<Rightarrow> mcp_env \<Rightarrow> mcp_ctx \<Rightarrow> account_id \<Rightarrow> u128 option \<Rightarrow> u128 \<Rightarrow> claim_line list \<Rightarrow>
     (claim_line list \<times> u128 \<times> string option) tio" where
  "claims_loop fuel 0 me cx acc target balance claims = ret (Ok (claims, balance, None))"
| "claims_loop fuel (Suc n) me cx acc target balance claims =
     (if target_met target balance then ret (Ok (claims, balance, None))
      else do {
        lock_on ClaimLock;
        balance' \<leftarrow> balance_or me cx acc balance;
        if target_met target balance' then do { unlock ClaimLock; ret (Ok (claims, balance', None)) }
        else do {
          s \<leftarrow> solve_claim (m_env me) acc;
          (case s of
             Err e \<Rightarrow> do { unlock ClaimLock; ret (Ok (claims, balance', Some e)) }
           | Panic p \<Rightarrow> do { unlock ClaimLock; ret (Panic p) }
           | Pending \<Rightarrow> ret Pending
           | Ok solved \<Rightarrow> do {
               g \<leftarrow> ensure_fresh_write_gate me cx;
               (case g of
                  Ok _ \<Rightarrow> do {
                    outcome \<leftarrow> run_guarded_detached ClaimLock (claim_section fuel me solved);
                    (case outcome of
                       Ok (Ok (tx, confirmed, confirmation)) \<Rightarrow> do {
                         b \<leftarrow> balance_or me cx acc balance';
                         (let claims' = claims @ [\<lparr> cl_tx_hash = tx, cl_pow_solution = sc_solution solved,
                                cl_confirmed = confirmed, cl_confirmation = confirmation, cl_balance_after = b \<rparr>] in
                          if \<not> confirmed then ret (Ok (claims', b, Some (''claim '' @ tx @ '' not confirmed within 240s'')))
                          else if target = None then ret (Ok (claims', b, None))
                          else claims_loop fuel n me cx acc target b claims') }
                     | Ok (Err e) \<Rightarrow> ret (Ok (claims, balance', Some e))
                     | Err e \<Rightarrow> ret (Ok (claims, balance', Some e))
                     | _ \<Rightarrow> ret Pending) }
                | Err refusal \<Rightarrow> do { unlock ClaimLock; ret (Err refusal) }
                | _ \<Rightarrow> ret Pending) }) } })"

text \<open>The initialization before the claims, when the account was never used and is the signer's.\<close>

definition auto_initialize :: "nat \<Rightarrow> mcp_env \<Rightarrow> mcp_ctx \<Rightarrow> account_id \<Rightarrow> string option tio" where
  "auto_initialize fuel me cx acc =
     tryM (fail_with ToolFail (account_exists me acc)) (\<lambda>there.
       if there then ret (Ok None)
       else
         (case cx_signer cx of
            Some sg \<Rightarrow>
              if sg_account_id sg = acc then do {
                lock_on SignedWriteLock;
                g \<leftarrow> ensure_fresh_write_gate me cx;
                (case g of
                   Ok _ \<Rightarrow> do {
                     outcome \<leftarrow> run_guarded_detached SignedWriteLock (initialize_signer_account fuel me sg);
                     ret (case outcome of
                            Ok (Ok h) \<Rightarrow> Ok (Some h)
                          | Ok (Err e) \<Rightarrow> Err (ToolFail (''account initialization failed: '' @ e))
                          | Err e \<Rightarrow> Err (ToolFail (''account initialization failed: '' @ e))
                          | _ \<Rightarrow> Pending) }
                 | Err refusal \<Rightarrow> do { unlock SignedWriteLock; ret (Err refusal) }
                 | _ \<Rightarrow> ret Pending) }
              else ret (Err (AccountUninitialized acc))
          | None \<Rightarrow> ret (Err (AccountUninitialized acc))))"

definition target_arg :: "string option \<Rightarrow> (tool_error, u128 option) res" where
  "target_arg arg =
     (case arg of
        None \<Rightarrow> Ok None
      | Some s \<Rightarrow> (case parse_u128 s of Inr v \<Rightarrow> Ok (Some v) | Inl e \<Rightarrow> Err (ToolFail (''invalid target_balance: '' @ e))))"

definition lez_faucet_claim ::
  "nat \<Rightarrow> mcp_env \<Rightarrow> mcp_ctx \<Rightarrow> string \<Rightarrow> string option \<Rightarrow> u32 option \<Rightarrow> faucet_reply tio" where
  "lez_faucet_claim fuel me cx account_id_arg target_balance max_claims =
     tryM (ensure_fresh_write_gate me cx) (\<lambda>_.
     tryM (ret (account_arg me ''account_id'' account_id_arg)) (\<lambda>acc.
     tryM (ret (target_arg target_balance)) (\<lambda>target.
     tryM (auto_initialize fuel me cx acc) (\<lambda>init_tx.
     tryM (fail_with ToolFail (balance_of me cx acc)) (\<lambda>start_balance.
     tryM (claims_loop fuel (unat (clamp_claims max_claims)) me cx acc target start_balance [])
       (\<lambda>(claims, balance, incomplete).
       ret (Ok \<lparr> fy_init_tx = init_tx, fy_account_id = acc, fy_claims = claims,
                 fy_start_balance = start_balance, fy_final_balance = balance,
                 fy_target_balance = target, fy_warning = incomplete \<rparr>)))))))"

section \<open>Transfers\<close>

definition amount_arg :: "string \<Rightarrow> (tool_error, u128) res" where
  "amount_arg s =
     (case parse_u128 s of
        Inr v \<Rightarrow> if 0 < v then Ok v else Err (ToolFail ''amount must be > 0'')
      | Inl e \<Rightarrow> Err (ToolFail (''invalid amount: '' @ e)))"

record preview_reply =
  pv_from :: account_id
  pv_to :: account_id
  pv_amount :: u128
  pv_from_balance :: u128
  pv_to_balance :: u128
  pv_from_nonce :: u128
  pv_sender_initialized :: bool
  pv_recipient_initialized :: bool
  pv_sufficient_balance :: bool
  pv_writes_enabled :: bool
  pv_token :: string

record transfer_reply =
  tr_tx_hash :: string
  tr_init_tx :: "string option"
  tr_from :: account_id
  tr_to :: account_id
  tr_amount :: u128
  tr_confirmed :: bool
  tr_confirmation :: string
  tr_to_balance_after :: u128

datatype transfer_result = Previewed preview_reply | Sent transfer_reply

definition read_for_transfer :: "mcp_env \<Rightarrow> string \<Rightarrow> account_id \<Rightarrow> lee_account tio" where
  "read_for_transfer me what acc = do {
     r \<leftarrow> get_account me acc;
     ret (case r of Inl e \<Rightarrow> Err (ToolFail (''get_account('' @ what @ '') failed: '' @ e)) | Inr a \<Rightarrow> Ok a) }"

text \<open>The dry run: the token is drawn, and issued under the mutex of the store.\<close>

definition preview_transfer ::
  "mcp_env \<Rightarrow> account_id \<Rightarrow> account_id \<Rightarrow> u128 \<Rightarrow> lee_account \<Rightarrow> lee_account \<Rightarrow> transfer_result tio" where
  "preview_transfer me from to amount from_account to_account = do {
     now \<leftarrow> instant_now (m_env me);
     e \<leftarrow> ext (\<lambda>t. XMcp (MIssue t (from, to, amount) now)) (m_new_token me);
     gs \<leftarrow> read_gate me;
     ret (Ok (Previewed \<lparr> pv_from = from, pv_to = to, pv_amount = amount,
       pv_from_balance = la_balance from_account, pv_to_balance = la_balance to_account,
       pv_from_nonce = la_nonce from_account,
       pv_sender_initialized = (la_program_owner from_account = c_transfer_program (m_env me)),
       pv_recipient_initialized = (to_account \<noteq> default_account),
       pv_sufficient_balance = (amount \<le> la_balance from_account),
       pv_writes_enabled = writes_enabled (gs_gate gs), pv_token = e \<rparr>)) }"

definition check_token :: "mcp_env \<Rightarrow> string option \<Rightarrow> preview_terms \<Rightarrow> unit tio" where
  "check_token me token p =
     (case token of
        None \<Rightarrow> ret (Err (ToolFail ''confirm=true requires preview_token''))
      | Some t \<Rightarrow> do {
          now \<leftarrow> instant_now (m_env me);
          c \<leftarrow> mev (MCheck t p now) (\<lambda>tr. m_check me tr t p now);
          ret (case c of
                 TokenOk \<Rightarrow> Ok ()
               | TokenMissing \<Rightarrow> Err (ToolFail ''preview_token is unknown, already used, or expired'')
               | TokenExpired \<Rightarrow> Err (ToolFail ''preview_token expired'')
               | TokenMismatch \<Rightarrow> Err (ToolFail ''preview_token does not match this (from, to, amount)'')) })"

text \<open>The refusals before the write lock, from the accounts as first read.\<close>

definition preflight ::
  "mcp_env \<Rightarrow> account_id \<Rightarrow> account_id \<Rightarrow> u128 \<Rightarrow> lee_account \<Rightarrow> lee_account \<Rightarrow> (tool_error, unit) res" where
  "preflight me from to amount from_account to_account =
     (if to_account = default_account then Err (RecipientUninitialized to)
      else if la_program_owner from_account \<noteq> c_transfer_program (m_env me) \<and>
              la_program_owner from_account \<noteq> replicate 8 0
      then Err (SenderIncompatible from (la_program_owner from_account))
      else if la_balance from_account < amount then Err (ToolFail ''insufficient balance'')
      else Ok ())"

definition send_transfer ::
  "nat \<Rightarrow> mcp_env \<Rightarrow> mcp_ctx \<Rightarrow> lez_client \<Rightarrow> account_id \<Rightarrow> account_id \<Rightarrow> u128 \<Rightarrow> u128 \<Rightarrow>
     (string \<times> bool \<times> string \<times> u128) tio" where
  "send_transfer fuel me cx c from to amount to_balance =
     tryM (fail_with (\<lambda>e. ToolFail (''re-reading sender balance failed: '' @ e)) (balance_of me cx from)) (\<lambda>current.
       if current < amount then ret (Err (InsufficientBalance from current amount))
       else do {
         ns \<leftarrow> ext (XNonces [from]) (\<lambda>tr. a_nonces (m_env me) tr [from]);
         (case ns of
            Inl e \<Rightarrow> ret (Err (ToolFail (''reading sender nonce failed: '' @ e)))
          | Inr nonces \<Rightarrow> do {
              sent \<leftarrow> transfer (m_env me) c to amount;
              (case sent of
                 Err e \<Rightarrow> ret (Err (ToolFail (''transfer failed: '' @ c_show_error (m_env me) e)))
               | Panic p \<Rightarrow> ret (Panic p)
               | Pending \<Rightarrow> ret Pending
               | Ok tx \<Rightarrow>
                   tryM (fail_with ToolFail (confirm_submitted_tx fuel me tx (SignerNonce from (first_or nonces))))
                     (\<lambda>(confirmed, confirmation). do {
                        b \<leftarrow> balance_or me cx to to_balance;
                        ret (Ok (tx, confirmed, confirmation, b)) })) }) })"

text \<open>The signed section, in the task that owns the signed-write lock.\<close>

definition transfer_section ::
  "nat \<Rightarrow> mcp_env \<Rightarrow> mcp_ctx \<Rightarrow> lez_client \<Rightarrow> signer \<Rightarrow> bool \<Rightarrow> account_id \<Rightarrow> account_id \<Rightarrow> u128 \<Rightarrow> u128 \<Rightarrow>
     (string option \<times> string \<times> bool \<times> string \<times> u128) tio" where
  "transfer_section fuel me cx c sg needs_init from to amount to_balance =
     tryM (ensure_fresh_write_gate me cx) (\<lambda>_.
     tryM (if needs_init then do {
             r \<leftarrow> fail_with (\<lambda>e. ToolFail (''account initialization failed: '' @ e)) (initialize_signer_account fuel me sg);
             ret (res_bind r (\<lambda>h. Ok (Some h))) }
           else ret (Ok None)) (\<lambda>init_tx.
     tryM (ensure_fresh_write_gate me cx) (\<lambda>_.
     tryM (send_transfer fuel me cx c from to amount to_balance) (\<lambda>(tx, confirmed, confirmation, b).
       ret (Ok (init_tx, tx, confirmed, confirmation, b))))))"

definition confirm_transfer ::
  "nat \<Rightarrow> mcp_env \<Rightarrow> mcp_ctx \<Rightarrow> lez_client \<Rightarrow> signer \<Rightarrow> account_id \<Rightarrow> account_id \<Rightarrow> u128 \<Rightarrow> lee_account \<Rightarrow> lee_account \<Rightarrow>
     string option \<Rightarrow> transfer_result tio" where
  "confirm_transfer fuel me cx c sg from to amount from_account to_account token =
     tryM (check_token me token (from, to, amount)) (\<lambda>_.
     tryM (ensure_fresh_write_gate me cx) (\<lambda>_.
     tryM (ret (preflight me from to amount from_account to_account)) (\<lambda>_. do {
       lock_on SignedWriteLock;
       outcome \<leftarrow> run_guarded_detached SignedWriteLock
         (transfer_section fuel me cx c sg (la_program_owner from_account \<noteq> c_transfer_program (m_env me))
            from to amount (la_balance to_account));
       ret (case outcome of
              Ok (Ok (init_tx, tx, confirmed, confirmation, b)) \<Rightarrow>
                Ok (Sent \<lparr> tr_tx_hash = tx, tr_init_tx = init_tx, tr_from = from, tr_to = to, tr_amount = amount,
                           tr_confirmed = confirmed, tr_confirmation = confirmation, tr_to_balance_after = b \<rparr>)
            | Ok (Err refusal) \<Rightarrow> Err refusal
            | Err e \<Rightarrow> Err (ToolFail e)
            | _ \<Rightarrow> Pending) })))"

definition lez_transfer ::
  "nat \<Rightarrow> mcp_env \<Rightarrow> mcp_ctx \<Rightarrow> string \<Rightarrow> string \<Rightarrow> bool \<Rightarrow> string option \<Rightarrow> transfer_result tio" where
  "lez_transfer fuel me cx to_arg amount_s confirm token =
     (case (cx_lez cx, cx_signer cx) of
        (Some c, Some sg) \<Rightarrow>
          tryM (ret (account_arg me ''to'' to_arg)) (\<lambda>to.
          tryM (ret (amount_arg amount_s)) (\<lambda>amount.
          tryM (read_for_transfer me ''from'' (sg_account_id sg)) (\<lambda>from_account.
          tryM (read_for_transfer me ''to'' to) (\<lambda>to_account.
            if \<not> confirm then preview_transfer me (sg_account_id sg) to amount from_account to_account
            else confirm_transfer fuel me cx c sg (sg_account_id sg) to amount from_account to_account token))))
      | _ \<Rightarrow> ret (Err (ToolFail ''no signing key configured'')))"

section \<open>Startup\<close>

text \<open>
  \<open>main\<close>, up to serving: the context and the first verdict of the gate. The file of the signing
  key, the parser of urls and the client builder are those of the setup.
\<close>

definition mcp_setup ::
  "(string \<Rightarrow> string option) \<Rightarrow> (string \<Rightarrow> string + string) \<Rightarrow> lez_setup \<Rightarrow> mcp_env \<Rightarrow> (string, mcp_ctx) res" where
  "mcp_setup var read_file su me =
     (case from_env var read_file (m_parse_account me) (c_show_error (m_env me)) of
        Inl e \<Rightarrow> Err (''config error: '' @ e)
      | Inr cfg \<Rightarrow>
          (case su_url_error su (mc_sequencer_url cfg) of
             Some e \<Rightarrow> Err (''invalid LEZ_SEQUENCER_URL: '' @ e)
           | None \<Rightarrow>
               (case su_build_error su (mc_sequencer_url cfg) of
                  Some e \<Rightarrow> Err (''failed to create sequencer client: '' @ e)
                | None \<Rightarrow>
                    (case mc_lez_auth cfg of
                       None \<Rightarrow> Ok \<lparr> cx_cfg = cfg, cx_lez = None, cx_signer = None \<rparr>
                     | Some auth \<Rightarrow>
                         (case signer_from_auth su (c_show_error (m_env me)) auth of
                            Ok sg \<Rightarrow>
                              (case lez_client_new su (swap_config_for (su_hex_decode su) cfg auth) of
                                 Ok c \<Rightarrow> Ok \<lparr> cx_cfg = cfg, cx_lez = Some c, cx_signer = Some sg \<rparr>
                               | Err e \<Rightarrow> Err (''LezClient setup: '' @ c_show_error (m_env me) e)
                               | Panic p \<Rightarrow> Panic p
                               | Pending \<Rightarrow> Pending)
                          | Err e \<Rightarrow> Err (''signer setup: '' @ e)
                          | Panic p \<Rightarrow> Panic p
                          | Pending \<Rightarrow> Pending)))))"

definition mcp_main ::
  "(string \<Rightarrow> string option) \<Rightarrow> (string \<Rightarrow> string + string) \<Rightarrow> lez_setup \<Rightarrow> mcp_env \<Rightarrow> mcp_ctx sio" where
  "mcp_main var read_file su me =
     tryM (ret (mcp_setup var read_file su me)) (\<lambda>cx. do {
       r \<leftarrow> run_fingerprint me (mc_sequencer_url (cx_cfg cx));
       store_gate me (gate_of r);
       ret (Ok cx) })"

end
