(* ===== verification/Mcp_Safety.thy ===== *)
theory Mcp_Safety
  imports Mcp_Tools
begin

text \<open>
  What the write tools of the MCP server submit, and on what evidence they call it confirmed,
  whatever the sequencer answers and whatever the other calls of the server do in between.
\<close>

section \<open>Locks, gates and reads in a trace\<close>

fun lock_after :: "mcp_lock \<Rightarrow> interaction \<Rightarrow> bool \<Rightarrow> bool" where
  "lock_after l (XMcp (MLock k)) h = (if k = l then True else h)"
| "lock_after l (XMcp (MUnlock k)) h = (if k = l then False else h)"
| "lock_after l x h = h"

definition lock_held :: "mcp_lock \<Rightarrow> trace \<Rightarrow> bool" where
  "lock_held l us = fold (lock_after l) us False"

text \<open>Events that leave both write locks alone and submit nothing.\<close>

fun inert :: "interaction \<Rightarrow> bool" where
  "inert (XSend pid accounts payload r) = False"
| "inert (XMcp (MLock l)) = (l = RefreshLock)"
| "inert (XMcp (MUnlock l)) = (l = RefreshLock)"
| "inert _ = True"

fun plain_read :: "interaction \<Rightarrow> bool" where
  "plain_read (XBalance acc r) = True"
| "plain_read (XNonces accs r) = True"
| "plain_read (XMcp (MAccount acc r)) = True"
| "plain_read _ = False"

lemma plain_read_inert: "plain_read x \<Longrightarrow> inert x"
  by (cases x rule: plain_read.cases) simp_all

lemma inert_lock: "inert x \<Longrightarrow> l \<noteq> RefreshLock \<Longrightarrow> lock_after l x h = h"
  by (cases "(l, x, h)" rule: lock_after.cases) (auto split: if_splits)

lemma inert_locks: "list_all inert e \<Longrightarrow> l \<noteq> RefreshLock \<Longrightarrow> fold (lock_after l) e h = h"
  by (induction e arbitrary: h) (simp_all add: inert_lock)

lemma lock_held_append: "lock_held l (us @ e) = fold (lock_after l) e (lock_held l us)"
  by (simp add: lock_held_def)

lemma lock_held_inert: "list_all inert e \<Longrightarrow> l \<noteq> RefreshLock \<Longrightarrow> lock_held l (us @ e) = lock_held l us"
  by (simp add: lock_held_append inert_locks)

text \<open>
  A gate that was passed: the shared verdict was read and is fresh, with or without the refresh
  lock, or a fingerprint just stored an enabling one.
\<close>

definition gate_pass :: "trace \<Rightarrow> bool" where
  "gate_pass g \<longleftrightarrow>
     (\<exists>gs t. gate_is_fresh gs fingerprint_ttl t \<and>
        g \<in> {[XMcp (MGateRead gs), XInstant t], [XMcp (MGateRead gs), XInstant t, XMcp (MUnlock RefreshLock)]}) \<or>
     (\<exists>gs. writes_enabled (gs_gate gs) \<and> g = [XMcp (MGateStore gs), XMcp (MUnlock RefreshLock)])"

text \<open>Nothing but plain reads since the gate was passed.\<close>

definition just_gated :: "trace \<Rightarrow> bool" where
  "just_gated us \<longleftrightarrow> (\<exists>vs g rs. us = vs @ g @ rs \<and> gate_pass g \<and> list_all plain_read rs)"

lemma just_gated_read: "just_gated us \<Longrightarrow> list_all plain_read e \<Longrightarrow> just_gated (us @ e)"
  unfolding just_gated_def by (metis append.assoc list_all_append)

lemma just_gated_pass: "gate_pass g \<Longrightarrow> just_gated (vs @ g)"
  unfolding just_gated_def by (intro exI [of _ vs] exI [of _ g] exI [of _ "[]"]) simp

section \<open>What the parts emit\<close>

lemma emits_mev [emits_intros]: "(\<And>a. P (XMcp (mk a))) \<Longrightarrow> emits P (mev mk f)"
  by (simp add: mev_def emits_ext)

lemma run_mev [run_simps]: "run_state (mev mk f) tr = (f tr, tr @ [XMcp (mk (f tr))])"
  by (simp add: mev_def run_ext)

lemma run_lock [run_simps]: "run_state (lock_on l) tr = ((), tr @ [XMcp (MLock l)])"
  by (simp add: lock_on_def run_mev)

lemma run_unlock [run_simps]: "run_state (unlock l) tr = ((), tr @ [XMcp (MUnlock l)])"
  by (simp add: unlock_def run_mev)

lemma emits_fail_with [emits_intros]: "emits P m \<Longrightarrow> emits P (fail_with f m)"
  unfolding fail_with_def by (intro emits_bind) (auto split: res.splits intro: emits_ret)

lemma emits_confirm: "emits inert (confirm_submitted_tx fuel me tx fb)"
proof -
  have nonce: "emits inert (nonce_probe me acc n)" for acc n
    unfolding nonce_probe_def by (intro emits_intros) simp
  have seed: "emits inert (seed_probe me s)" for s
    unfolding seed_probe_def pinata_challenge_def by (intro emits_intros) simp
  have poll: "emits inert (poll_for_confirmation n me d p str probe msg)"
    if "emits inert probe" for n d p str probe msg
  proof (induction n)
    case (Suc n)
    show ?case unfolding poll_for_confirmation.simps
      by (intro emits_bind [OF that] emits_intros Suc) simp_all
  qed (simp add: emits_ret)
  have get: "emits inert (get_tx_loop n me tx d errs)" for n d errs
  proof (induction n arbitrary: errs)
    case (Suc n)
    show ?case unfolding get_tx_loop.simps Let_def
      by (intro emits_intros Suc) simp_all
  qed (simp add: emits_ret)
  have fb: "emits inert (confirm_fallback_run fuel me fb)"
    unfolding confirm_fallback_run_def confirm_via_nonce_advance_def confirm_via_seed_rotation_def
    by (cases fb) (simp_all, (intro emits_intros poll nonce seed; simp)+)
  show ?thesis unfolding confirm_submitted_tx_def
    by (intro emits_intros get fb) simp_all
qed

lemma emits_balance: "emits plain_read (balance_of me cx acc)"
  unfolding balance_of_def get_balance_def read_balance_def
  by (cases "cx_lez cx") (simp_all, (intro emits_intros; simp)+)

lemma emits_balance_or: "emits plain_read (balance_or me cx acc d)"
  unfolding balance_or_def by (intro emits_intros emits_balance)

text \<open>The gate submits nothing, and ends in a pass when it lets through.\<close>

definition gate_end :: "(tool_error, unit) res \<Rightarrow> trace \<Rightarrow> bool" where
  "gate_end r e \<longleftrightarrow> list_all inert e \<and> r \<noteq> Pending \<and> (\<forall>m. r \<noteq> Panic m) \<and>
     (is_Ok r \<longrightarrow> (\<exists>pre g. e = pre @ g \<and> gate_pass g))"

lemma gate_pass_inert: "gate_pass g \<Longrightarrow> list_all inert g"
  by (auto simp: gate_pass_def)

lemma gate_endI: "list_all inert pre \<Longrightarrow> gate_pass g \<Longrightarrow> gate_end (Ok ()) (pre @ g)"
  unfolding gate_end_def using gate_pass_inert by auto

lemma ensure_gate_run:
  assumes "run_state (ensure_fresh_write_gate me cx) tr = (r, tr')"
  obtains e where "tr' = tr @ e" "gate_end r e"
proof -
  let ?gs = "m_gate me tr"
  let ?tr1 = "tr @ [XMcp (MGateRead ?gs)]"
  let ?t = "a_instant (m_env me) ?tr1"
  show ?thesis
  proof (cases "gate_is_fresh ?gs fingerprint_ttl ?t")
    case True
    then have "tr' = tr @ [XMcp (MGateRead ?gs), XInstant ?t]" "r = Ok ()"
      using assms by (simp_all add: ensure_fresh_write_gate_def read_gate_def run_simps)
    moreover have "gate_pass [XMcp (MGateRead ?gs), XInstant ?t]" using True by (auto simp: gate_pass_def)
    then have "gate_end (Ok ()) ([] @ [XMcp (MGateRead ?gs), XInstant ?t])" by (intro gate_endI) simp
    ultimately show ?thesis using that by simp
  next
    case stale: False
    let ?tr2 = "?tr1 @ [XInstant ?t, XMcp (MLock RefreshLock)]"
    let ?gs2 = "m_gate me ?tr2"
    let ?tr3 = "?tr2 @ [XMcp (MGateRead ?gs2)]"
    let ?t3 = "a_instant (m_env me) ?tr3"
    let ?pre = "[XMcp (MGateRead ?gs), XInstant ?t, XMcp (MLock RefreshLock)]"
    show ?thesis
    proof (cases "gate_is_fresh ?gs2 fingerprint_ttl ?t3")
      case True
      let ?g = "[XMcp (MGateRead ?gs2), XInstant ?t3, XMcp (MUnlock RefreshLock)]"
      have "writes_enabled (gs_gate ?gs2)" using True by (simp add: gate_is_fresh_def)
      then have "tr' = tr @ ?pre @ ?g" "r = Ok ()"
        using assms stale True
        by (simp_all add: ensure_fresh_write_gate_def refresh_gate_single_flight_def read_gate_def run_simps)
      moreover have "gate_pass ?g" using True by (auto simp: gate_pass_def)
      then have "gate_end (Ok ()) (?pre @ ?g)" by (intro gate_endI) simp_all
      ultimately show ?thesis using that by blast
    next
      case False
      obtain ids t g where g: "tr' = tr @ (?pre @ [XMcp (MGateRead ?gs2), XInstant ?t3, XMcp (MProgramIds ids), XInstant t]) @
          [XMcp (MGateStore \<lparr> gs_gate = g, gs_checked_at = t \<rparr>), XMcp (MUnlock RefreshLock)]"
        "r = (if writes_enabled g then Ok () else Err (WritesDisabled g))"
        using assms stale False
        by (auto simp: ensure_fresh_write_gate_def refresh_gate_single_flight_def read_gate_def run_fingerprint_def
          store_gate_def run_simps)
      let ?s = "[XMcp (MGateStore \<lparr> gs_gate = g, gs_checked_at = t \<rparr>), XMcp (MUnlock RefreshLock)]"
      have "gate_end r ((?pre @ [XMcp (MGateRead ?gs2), XInstant ?t3, XMcp (MProgramIds ids), XInstant t]) @ ?s)"
      proof (cases "writes_enabled g")
        case True
        then have "gate_pass ?s" by (auto simp: gate_pass_def)
        then show ?thesis unfolding g(2) if_P [OF True] by (intro gate_endI) simp_all
      next
        case False
        then show ?thesis unfolding g(2) gate_end_def by simp
      qed
      then show ?thesis using that g(1) by blast
    qed
  qed
qed

lemma gate_end_gated: "gate_end (Ok ()) e \<Longrightarrow> just_gated (us @ e)"
  unfolding gate_end_def by (metis append.assoc is_Ok.simps(1) just_gated_pass)

section \<open>Evidence of a commitment\<close>

text \<open>What a read shows about one submitted transaction: found by its hash, or the fallback's sign.\<close>

definition fallback_sign :: "mcp_env \<Rightarrow> confirm_fallback \<Rightarrow> interaction \<Rightarrow> bool" where
  "fallback_sign me fb x =
     (case fb of
        SignerNonce acc n \<Rightarrow> (\<exists>c cs. x = XNonces [acc] (Inr (c # cs)) \<and> n < c)
      | PinataSeed s \<Rightarrow> (\<exists>d. x = XAccount (c_pinata_account (m_env me)) (Inr d) \<and> length d = 33 \<and> drop 1 d \<noteq> s))"

definition committed_sign :: "mcp_env \<Rightarrow> string \<Rightarrow> confirm_fallback \<Rightarrow> trace \<Rightarrow> bool" where
  "committed_sign me tx fb e \<longleftrightarrow> XMcp (MGetTx tx (Inr True)) \<in> set e \<or> list_ex (fallback_sign me fb) e"

lemma nonce_probe_sign:
  assumes "run_state (nonce_probe me acc n) tr = (Some True, tr')"
  obtains x where "tr' = tr @ [x]" "fallback_sign me (SignerNonce acc n) x"
  using assms that by (auto simp: nonce_probe_def run_simps nonce_advanced_def fallback_sign_def
    split: sum.splits list.splits)

lemma seed_probe_sign:
  assumes "run_state (seed_probe me s) tr = (Some True, tr')"
  obtains x where "tr' = tr @ [x]" "fallback_sign me (PinataSeed s) x"
  using assms that by (auto simp: seed_probe_def pinata_challenge_def run_simps seed_rotated_def fallback_sign_def
    split: sum.splits if_splits)

lemma poll_sign:
  assumes probe: "\<And>tr r tr'. run_state probe tr = (r, tr') \<Longrightarrow>
      \<exists>e. tr' = tr @ e \<and> (r = Some True \<longrightarrow> list_ex Q e)"
  shows "run_state (poll_for_confirmation n me d p str probe msg) tr = (r, tr') \<Longrightarrow>
    \<exists>e. tr' = tr @ e \<and> (\<forall>b. r = Ok b \<longrightarrow> b = (True, str) \<and> list_ex Q e)"
proof (induction n arbitrary: tr)
  case (Suc n)
  obtain a tr1 where a: "run_state probe tr = (a, tr1)" by fastforce
  obtain e1 where e1: "tr1 = tr @ e1" "a = Some True \<longrightarrow> list_ex Q e1" using probe [OF a] by blast
  let ?t = "a_instant (m_env me) tr1"
  show ?case
  proof (cases "a = Some True \<or> d \<le> ?t")
    case True
    then show ?thesis
    proof (cases "a = Some True")
      case True
      then show ?thesis using Suc.prems a e1 by (auto simp: run_simps)
    next
      case False
      then have "tr' = tr @ (e1 @ [XInstant ?t]) \<and> \<not> is_Ok r" using Suc.prems a e1(1) True by (auto simp: run_simps)
      then show ?thesis by (intro exI [of _ "e1 @ [XInstant ?t]"]) auto
    qed
  next
    case False
    then have "run_state (poll_for_confirmation n me d p str probe msg) (tr1 @ [XInstant ?t, XSleep p]) = (r, tr')"
      using Suc.prems a by (auto simp: run_simps)
    from Suc.IH [OF this] obtain e where e: "tr' = (tr1 @ [XInstant ?t, XSleep p]) @ e"
      "\<forall>b. r = Ok b \<longrightarrow> b = (True, str) \<and> list_ex Q e" by blast
    then show ?thesis using e1(1) by (intro exI [of _ "e1 @ [XInstant ?t, XSleep p] @ e"]) auto
  qed
qed simp

lemma get_tx_sign:
  "run_state (get_tx_loop n me tx d errs) tr = (r, tr') \<Longrightarrow>
    \<exists>e. tr' = tr @ e \<and> (\<forall>b str. r = Ok (Some (b, str)) \<longrightarrow>
      (b \<longrightarrow> XMcp (MGetTx tx (Inr True)) \<in> set e) \<and> (\<not> b \<longrightarrow> str = ''tx_uncommitted''))"
proof (induction n arbitrary: tr errs)
  case (Suc n)
  let ?a = "m_get_tx me tr tx"
  let ?e1 = "[XMcp (MGetTx tx ?a)]"
  let ?t = "a_instant (m_env me) (tr @ ?e1)"
  define es where "es = (case ?a of Inr _ \<Rightarrow> 0 | Inl _ \<Rightarrow> errs + 1)"
  consider (found) "?a = Inr True" | (off) "?a \<noteq> Inr True" "get_tx_max_rpc_errors \<le> es"
    | (late) "?a \<noteq> Inr True" "\<not> get_tx_max_rpc_errors \<le> es" "d \<le> ?t"
    | (on) "?a \<noteq> Inr True" "\<not> get_tx_max_rpc_errors \<le> es" "\<not> d \<le> ?t" by blast
  then show ?case
  proof cases
    case found
    then show ?thesis using Suc.prems by (auto simp: run_simps)
  next
    case off
    then have "tr' = tr @ ?e1 \<and> r = Ok None" using Suc.prems by (auto simp: run_simps Let_def es_def)
    then show ?thesis by auto
  next
    case late
    then have "tr' = tr @ ?e1 @ [XInstant ?t] \<and> r = Ok (Some (False, ''tx_uncommitted''))"
      using Suc.prems by (auto simp: run_simps Let_def es_def)
    then show ?thesis by (intro exI [of _ "?e1 @ [XInstant ?t]"]) simp
  next
    case on
    then have "run_state (get_tx_loop n me tx d es) (tr @ ?e1 @ [XInstant ?t, XSleep commit_poll]) = (r, tr')"
      using Suc.prems by (auto simp: run_simps Let_def es_def)
    from Suc.IH [OF this] obtain e where e: "tr' = (tr @ ?e1 @ [XInstant ?t, XSleep commit_poll]) @ e"
      "\<forall>b str. r = Ok (Some (b, str)) \<longrightarrow> (b \<longrightarrow> XMcp (MGetTx tx (Inr True)) \<in> set e) \<and> (\<not> b \<longrightarrow> str = ''tx_uncommitted'')"
      by blast
    then show ?thesis by (intro exI [of _ "?e1 @ [XInstant ?t, XSleep commit_poll] @ e"]) auto
  qed
qed simp

lemma fallback_run_sign:
  assumes "run_state (confirm_fallback_run fuel me fb) tr = (r, tr')"
  shows "\<exists>e. tr' = tr @ e \<and> (\<forall>b. r = Ok b \<longrightarrow> fst b \<and> list_ex (fallback_sign me fb) e)"
proof -
  let ?x = "XInstant (a_instant (m_env me) tr)"
  have polled: "\<exists>e. tr' = tr @ e \<and> (\<forall>b. r = Ok b \<longrightarrow> fst b \<and> list_ex (fallback_sign me fb) e)"
    if run: "run_state (poll_for_confirmation fuel me d p str probe msg) (tr @ [?x]) = (r, tr')"
      and probe: "\<And>tr r tr'. run_state probe tr = (r, tr') \<Longrightarrow>
        \<exists>e. tr' = tr @ e \<and> (r = Some True \<longrightarrow> list_ex (fallback_sign me fb) e)" for d p str probe msg
  proof -
    obtain e where "tr' = (tr @ [?x]) @ e" "\<forall>b. r = Ok b \<longrightarrow> b = (True, str) \<and> list_ex (fallback_sign me fb) e"
      using poll_sign [OF probe run] by blast
    then show ?thesis by (intro exI [of _ "[?x] @ e"]) auto
  qed
  show ?thesis
  proof (cases fb)
    case (SignerNonce acc n)
    show ?thesis
    proof (rule polled)
      show "run_state (poll_for_confirmation fuel me (a_instant (m_env me) tr + commit_timeout) commit_poll
          ''nonce_advanced'' (nonce_probe me acc n) ''tx unconfirmed: account nonce did not advance within 240s'')
          (tr @ [?x]) = (r, tr')"
        using assms SignerNonce by (simp add: confirm_fallback_run_def confirm_via_nonce_advance_def run_simps)
      fix tr1 a tr2 assume run: "run_state (nonce_probe me acc n) tr1 = (a, tr2)"
      show "\<exists>e. tr2 = tr1 @ e \<and> (a = Some True \<longrightarrow> list_ex (fallback_sign me fb) e)"
      proof (cases "a = Some True")
        case True
        then obtain x where "tr2 = tr1 @ [x]" "fallback_sign me (SignerNonce acc n) x"
          using nonce_probe_sign run by blast
        then show ?thesis using SignerNonce by auto
      next
        case False
        then show ?thesis using run by (auto simp: nonce_probe_def run_simps)
      qed
    qed
  next
    case (PinataSeed s)
    show ?thesis
    proof (rule polled)
      show "run_state (poll_for_confirmation fuel me (a_instant (m_env me) tr + commit_timeout) commit_poll
          ''seed_rotated'' (seed_probe me s) ''claim unconfirmed: pinata seed did not rotate within 240s'')
          (tr @ [?x]) = (r, tr')"
        using assms PinataSeed by (simp add: confirm_fallback_run_def confirm_via_seed_rotation_def run_simps)
      fix tr1 a tr2 assume run: "run_state (seed_probe me s) tr1 = (a, tr2)"
      show "\<exists>e. tr2 = tr1 @ e \<and> (a = Some True \<longrightarrow> list_ex (fallback_sign me fb) e)"
      proof (cases "a = Some True")
        case True
        then obtain x where "tr2 = tr1 @ [x]" "fallback_sign me (PinataSeed s) x"
          using seed_probe_sign run by blast
        then show ?thesis using PinataSeed by auto
      next
        case False
        then show ?thesis using run by (auto simp: seed_probe_def pinata_challenge_def run_simps)
      qed
    qed
  qed
qed

text \<open>A verdict of the confirmation: positive only with a sign, negative only when reads by hash served.\<close>

definition verdict_ok :: "mcp_env \<Rightarrow> string \<Rightarrow> confirm_fallback \<Rightarrow> (string, bool \<times> string) res \<Rightarrow> trace \<Rightarrow> bool" where
  "verdict_ok me tx fb r e \<longleftrightarrow>
     (\<forall>b str. r = Ok (b, str) \<longrightarrow> (if b then committed_sign me tx fb e else str = ''tx_uncommitted''))"

lemma confirm_run:
  assumes "run_state (confirm_submitted_tx fuel me tx fb) tr = (r, tr')"
  obtains e where "tr' = tr @ e" "list_all inert e" "verdict_ok me tx fb r e"
proof -
  obtain e where e: "tr' = tr @ e" "list_all inert e" by (rule emits_prefix [OF emits_confirm assms])
  have "verdict_ok me tx fb r e"
  proof (cases "m_is_hash me tx")
    case False
    then have "run_state (confirm_fallback_run fuel me fb) tr = (r, tr')"
      using assms by (simp add: confirm_submitted_tx_def)
    from fallback_run_sign [OF this] show ?thesis using e(1) by (auto simp: verdict_ok_def committed_sign_def)
  next
    case True
    let ?x = "XInstant (a_instant (m_env me) tr)"
    let ?d = "a_instant (m_env me) tr + commit_timeout"
    obtain v tr1 where v: "run_state (get_tx_loop fuel me tx ?d 0) (tr @ [?x]) = (v, tr1)" by fastforce
    from get_tx_sign [OF this] obtain e1 where e1: "tr1 = (tr @ [?x]) @ e1"
      "\<forall>b str. v = Ok (Some (b, str)) \<longrightarrow> (b \<longrightarrow> XMcp (MGetTx tx (Inr True)) \<in> set e1) \<and> (\<not> b \<longrightarrow> str = ''tx_uncommitted'')"
      by blast
    show ?thesis
    proof (cases "v = Ok None")
      case vNone: True
      then have "run_state (confirm_fallback_run fuel me fb) tr1 = (r, tr')"
        using assms True v by (simp add: confirm_submitted_tx_def run_simps)
      from fallback_run_sign [OF this] obtain e2 where
        "tr' = tr1 @ e2" "\<forall>b. r = Ok b \<longrightarrow> fst b \<and> list_ex (fallback_sign me fb) e2" by blast
      then show ?thesis using e(1) e1(1) by (auto simp: verdict_ok_def committed_sign_def)
    next
      case False
      then have "tr' = tr1 \<and> (\<forall>c. r = Ok c \<longrightarrow> v = Ok (Some c))"
        using assms True v by (cases v) (auto simp: confirm_submitted_tx_def run_simps split: option.splits)
      then show ?thesis using e(1) e1 by (auto simp: verdict_ok_def committed_sign_def)
    qed
  qed
  then show ?thesis using that e by blast
qed

section \<open>Signed submissions\<close>

text \<open>
  What a submission needs, in the history of its call: an initialization, and a claim or a transfer
  as the tool allows. The owner, the balance and the challenge are read under the lock, and nothing
  was submitted between that read and the submission.
\<close>

definition init_ok :: "mcp_env \<Rightarrow> account_id \<Rightarrow> trace \<Rightarrow> bool" where
  "init_ok me acc us \<longleftrightarrow> lock_held SignedWriteLock us \<and> just_gated us \<and>
     (\<exists>vs a ws. us = vs @ XMcp (MAccount acc (Inr a)) # ws \<and> lock_held SignedWriteLock vs \<and>
        la_program_owner a \<noteq> c_transfer_program (m_env me) \<and> list_all plain_read ws)"

fun send_ok ::
  "mcp_env \<Rightarrow> account_id \<Rightarrow> (trace \<Rightarrow> account_id list \<Rightarrow> u128 \<Rightarrow> bool) \<Rightarrow> (trace \<Rightarrow> account_id list \<Rightarrow> u128 \<Rightarrow> bool) \<Rightarrow>
     trace \<Rightarrow> interaction \<Rightarrow> bool" where
  "send_ok me acc tok cok us (XSend pid accounts InitializePayload r) \<longleftrightarrow>
     pid = c_transfer_program (m_env me) \<and> accounts = [acc] \<and> init_ok me acc us"
| "send_ok me acc tok cok us (XSend pid accounts (TransferPayload a) r) \<longleftrightarrow>
     pid = c_transfer_program (m_env me) \<and> tok us accounts a"
| "send_ok me acc tok cok us (XSend pid accounts (PinataPayload s) r) \<longleftrightarrow>
     pid = c_pinata_program (m_env me) \<and> cok us accounts s"
| "send_ok me acc tok cok us (XSend pid accounts (HtlcPayload i) r) \<longleftrightarrow> False"
| "send_ok me acc tok cok us _ \<longleftrightarrow> True"

lemma inert_send_ok: "inert x \<Longrightarrow> send_ok me acc tok cok us x"
  by (cases x) (auto elim: inert.elims)

lemma each_inert: "list_all inert e \<Longrightarrow> each (send_ok me acc tok cok) us e"
  by (induction e arbitrary: us) (simp_all add: inert_send_ok)

lemma each_lock [simp]: "each (send_ok me acc tok cok) us (XMcp x # e) \<longleftrightarrow> each (send_ok me acc tok cok) (us @ [XMcp x]) e"
  by simp

text \<open>Events that leave the write locks alone; \<open>n\<close> of them are submissions of a kind.\<close>

fun lockless :: "interaction \<Rightarrow> bool" where
  "lockless (XMcp (MLock l)) = (l = RefreshLock)"
| "lockless (XMcp (MUnlock l)) = (l = RefreshLock)"
| "lockless _ = True"

lemma inert_lockless: "inert x \<Longrightarrow> lockless x"
  by (cases x rule: lockless.cases) simp_all

lemma inert_all_lockless: "list_all inert e \<Longrightarrow> list_all lockless e"
  by (metis inert_lockless list.pred_mono_strong)

lemma lockless_lock: "lockless x \<Longrightarrow> l \<noteq> RefreshLock \<Longrightarrow> lock_after l x h = h"
  by (cases "(l, x, h)" rule: lock_after.cases) (auto split: if_splits)

lemma lock_held_lockless: "list_all lockless e \<Longrightarrow> l \<noteq> RefreshLock \<Longrightarrow> lock_held l (us @ e) = lock_held l us"
  unfolding lock_held_append by (induction e rule: rev_induct) (simp_all add: lockless_lock)

fun is_transfer_send :: "interaction \<Rightarrow> bool" where
  "is_transfer_send (XSend pid accounts (TransferPayload a) r) = True"
| "is_transfer_send _ = False"

fun is_claim_send :: "interaction \<Rightarrow> bool" where
  "is_claim_send (XSend pid accounts (PinataPayload s) r) = True"
| "is_claim_send _ = False"

definition no_fund_sends :: "trace \<Rightarrow> bool" where
  "no_fund_sends e \<longleftrightarrow> list_all (\<lambda>x. \<not> is_transfer_send x \<and> \<not> is_claim_send x) e"

lemma no_fund_sends_simps [simp]:
  "no_fund_sends []" "no_fund_sends (e @ e') \<longleftrightarrow> no_fund_sends e \<and> no_fund_sends e'"
  "no_fund_sends (x # e) \<longleftrightarrow> \<not> is_transfer_send x \<and> \<not> is_claim_send x \<and> no_fund_sends e"
  by (simp_all add: no_fund_sends_def)

lemma inert_no_fund: "inert x \<Longrightarrow> \<not> is_transfer_send x \<and> \<not> is_claim_send x"
  by (cases x) auto

lemma inert_no_fund_sends: "list_all inert e \<Longrightarrow> no_fund_sends e"
  unfolding no_fund_sends_def by (metis (mono_tags, lifting) inert_no_fund list.pred_mono_strong)

lemma submit_init_run:
  assumes run: "run_state (submit_init fuel me acc n) tr = (r, tr')" and ok: "init_ok me acc us"
  obtains e where "tr' = tr @ e" "each (send_ok me acc tok cok) us e" "list_all lockless e" "no_fund_sends e"
proof -
  let ?pid = "c_transfer_program (m_env me)"
  let ?x = "a_send (m_env me) tr ?pid [acc] InitializePayload"
  let ?s = "XSend ?pid [acc] InitializePayload ?x"
  show ?thesis
  proof (cases "c_message_err (m_env me) ?pid [acc] InitializePayload")
    case (Some er)
    then show ?thesis using run that [of "[]"] by (simp add: submit_init_def Let_def)
  next
    case None
    show ?thesis
    proof (cases ?x)
      case (Inl er)
      then show ?thesis using run None ok that [of "[?s]"] by (simp add: submit_init_def Let_def run_simps)
    next
      case (Inr tx)
      obtain v tr1 where v: "run_state (confirm_submitted_tx fuel me tx (SignerNonce acc n)) (tr @ [?s]) = (v, tr1)"
        by fastforce
      obtain e1 where e1: "tr1 = (tr @ [?s]) @ e1" "list_all inert e1" by (rule confirm_run [OF v])
      obtain e2 where e2: "tr' = tr1 @ e2" "list_all inert e2"
        using run None Inr v
        by (cases v) (auto simp: submit_init_def Let_def run_simps get_account_def split: prod.splits if_splits)
      have "list_all lockless (?s # e1 @ e2)" "no_fund_sends (?s # e1 @ e2)"
        using e1(2) e2(2) inert_all_lockless inert_no_fund_sends by simp_all
      moreover have "each (send_ok me acc tok cok) us (?s # e1 @ e2)"
        using ok e1(2) e2(2) by (simp add: each_append each_inert)
      ultimately show ?thesis using that [of "?s # e1 @ e2"] e1(1) e2(1) by simp
    qed
  qed
qed

lemma initialize_run:
  assumes run: "run_state (initialize_signer_account fuel me sg) tr = (r, tr')"
    and us: "lock_held SignedWriteLock us" "just_gated us"
  obtains e where "tr' = tr @ e" "each (send_ok me (sg_account_id sg) tok cok) us e" "list_all lockless e" "no_fund_sends e"
proof -
  let ?acc = "sg_account_id sg"
  let ?a = "m_account me tr ?acc"
  let ?m = "XMcp (MAccount ?acc ?a)"
  let ?ns = "a_nonces (m_env me) (tr @ [?m]) [?acc]"
  let ?n = "XNonces [?acc] ?ns"
  show ?thesis
  proof (cases "\<exists>a nonces. ?a = Inr a \<and> la_program_owner a \<noteq> c_transfer_program (m_env me) \<and> ?ns = Inr nonces")
    case True
    then obtain a nonces where a: "?a = Inr a" "la_program_owner a \<noteq> c_transfer_program (m_env me)" "?ns = Inr nonces"
      by blast
    have "list_all plain_read [?m, ?n]" by simp
    then have "just_gated (us @ [?m, ?n])" using us(2) by (rule just_gated_read [rotated])
    moreover have "lock_held SignedWriteLock (us @ [?m, ?n])" using us(1) by (simp add: lock_held_append)
    ultimately have ok: "init_ok me ?acc (us @ [?m, ?n])"
      using a us(1) unfolding init_ok_def
      by (intro conjI exI [of _ us] exI [of _ a] exI [of _ "[?n]"]) simp_all
    have "run_state (submit_init fuel me ?acc (first_or nonces)) (tr @ [?m, ?n]) = (r, tr')"
      using run a by (simp add: initialize_signer_account_def get_account_def Let_def run_simps)
    from submit_init_run [OF this ok] obtain e where
      e: "tr' = (tr @ [?m, ?n]) @ e" "each (send_ok me ?acc tok cok) (us @ [?m, ?n]) e" "list_all lockless e" "no_fund_sends e"
      by blast
    then show ?thesis using that [of "[?m, ?n] @ e"] by simp
  next
    case False
    then have "tr' = tr @ [?m] \<or> tr' = tr @ [?m, ?n]"
      using run by (auto simp: initialize_signer_account_def get_account_def Let_def run_simps split: sum.splits if_splits)
    then show ?thesis using that [of "[?m]"] that [of "[?m, ?n]"] by auto
  qed
qed

section \<open>Transfers\<close>

definition token_passed :: "preview_terms \<Rightarrow> trace \<Rightarrow> bool" where
  "token_passed p us \<longleftrightarrow> (\<exists>t now. XMcp (MCheck t p now TokenOk) \<in> set us)"

definition transfer_ok ::
  "mcp_env \<Rightarrow> lez_client \<Rightarrow> account_id \<Rightarrow> account_id \<Rightarrow> u128 \<Rightarrow> trace \<Rightarrow> account_id list \<Rightarrow> u128 \<Rightarrow> bool" where
  "transfer_ok me c from to amount us accounts a \<longleftrightarrow>
     accounts = [lc_account_id c, to] \<and> a = amount \<and> lock_held SignedWriteLock us \<and> just_gated us \<and>
     no_fund_sends us \<and> token_passed (from, to, amount) us \<and>
     (\<exists>vs b ws. us = vs @ XBalance from (Inr b) # ws \<and> lock_held SignedWriteLock vs \<and> amount \<le> b \<and>
        list_all plain_read ws)"

text \<open>The transfer that a reply names was sent, and has a sign of its commitment if it is called confirmed.\<close>

definition sent_ok ::
  "mcp_env \<Rightarrow> lez_client \<Rightarrow> account_id \<Rightarrow> account_id \<Rightarrow> u128 \<Rightarrow> string \<Rightarrow> bool \<Rightarrow> trace \<Rightarrow> bool" where
  "sent_ok me c from to amount tx confirmed e \<longleftrightarrow>
     (\<exists>e1 ns e2. e = e1 @ XSend (c_transfer_program (m_env me)) [lc_account_id c, to] (TransferPayload amount) (Inr tx) # e2 \<and>
        XNonces [from] (Inr ns) \<in> set e1 \<and>
        (confirmed \<longrightarrow> committed_sign me tx (SignerNonce from (first_or ns)) e2))"

lemma not_Ok: "\<not> is_Ok r \<Longrightarrow> r \<noteq> Ok a"
  by auto

lemma sent_ok_prefix: "sent_ok me c from to amount tx confirmed e \<Longrightarrow> sent_ok me c from to amount tx confirmed (e0 @ e)"
  unfolding sent_ok_def by (metis append.assoc set_append UnCI)

lemma sent_ok_suffix: "sent_ok me c from to amount tx confirmed e \<Longrightarrow> sent_ok me c from to amount tx confirmed (e @ e0)"
  unfolding sent_ok_def
proof (elim exE conjE)
  fix e1 ns e2
  let ?s = "XSend (c_transfer_program (m_env me)) [lc_account_id c, to] (TransferPayload amount) (Inr tx)"
  assume a: "e = e1 @ ?s # e2" "XNonces [from] (Inr ns) \<in> set e1"
    "confirmed \<longrightarrow> committed_sign me tx (SignerNonce from (first_or ns)) e2"
  have "e @ e0 = e1 @ ?s # (e2 @ e0)" using a(1) by simp
  moreover have "confirmed \<longrightarrow> committed_sign me tx (SignerNonce from (first_or ns)) (e2 @ e0)"
    using a(3) by (auto simp: committed_sign_def)
  ultimately show "\<exists>e1 ns e2. e @ e0 = e1 @ ?s # e2 \<and> XNonces [from] (Inr ns) \<in> set e1 \<and>
      (confirmed \<longrightarrow> committed_sign me tx (SignerNonce from (first_or ns)) e2)"
    using a(2) by blast
qed

lemma transfer_run:
  assumes "run_state (transfer en c to amount) tr = (r, tr')"
  obtains (unsent) n where "tr' = tr @ [XNonces [lc_account_id c] n]" "\<not> is_Ok r" "r \<noteq> Pending" "\<forall>m. r \<noteq> Panic m"
  | (refused) n x where "tr' = tr @ [XNonces [lc_account_id c] n, XSend (c_transfer_program en) [lc_account_id c, to] (TransferPayload amount) x]"
      "\<not> is_Ok r" "r \<noteq> Pending" "\<forall>m. r \<noteq> Panic m"
  | (sent) n tx where "tr' = tr @ [XNonces [lc_account_id c] n, XSend (c_transfer_program en) [lc_account_id c, to] (TransferPayload amount) (Inr tx)]"
      "r = Ok tx"
proof -
  let ?acc = "lc_account_id c"
  let ?n = "a_nonces en tr [?acc]"
  let ?accs = "[?acc, to]"
  let ?x = "a_send en (tr @ [XNonces [?acc] ?n]) (c_transfer_program en) ?accs (TransferPayload amount)"
  show ?thesis
  proof (cases ?n)
    case (Inl e)
    then show ?thesis using assms unsent by (auto simp: transfer_def get_nonces_def run_simps map_err_def)
  next
    case n: (Inr ns)
    show ?thesis
    proof (cases "c_message_err en (c_transfer_program en) ?accs (TransferPayload amount)")
      case (Some e)
      then show ?thesis using assms n unsent
        by (auto simp: transfer_def get_nonces_def submit_message_def run_simps map_err_def)
    next
      case None
      show ?thesis
      proof (cases ?x)
        case (Inl e)
        then show ?thesis using assms n None refused
          by (auto simp: transfer_def get_nonces_def submit_message_def run_simps map_err_def)
      next
        case (Inr tx)
        then show ?thesis using assms n None sent
          by (auto simp: transfer_def get_nonces_def submit_message_def run_simps map_err_def)
      qed
    qed
  qed
qed

lemma send_transfer_run:
  assumes run: "run_state (send_transfer fuel me cx c from to amount to_balance) tr = (r, tr')"
    and us: "lock_held SignedWriteLock us" "just_gated us" "no_fund_sends us" "token_passed (from, to, amount) us"
  obtains e where "tr' = tr @ e" "each (send_ok me from (transfer_ok me c from to amount) cok) us e" "list_all lockless e"
    "\<forall>tx confirmed conf b. r = Ok (tx, confirmed, conf, b) \<longrightarrow> sent_ok me c from to amount tx confirmed e"
proof -
  let ?ok = "send_ok me from (transfer_ok me c from to amount) cok"
  obtain v tr1 where v: "run_state (balance_of me cx from) tr = (v, tr1)" by fastforce
  let ?x = "a_balance (m_env me) tr from"
  let ?b = "XBalance from ?x"
  have tr1: "tr1 = tr @ [?b]" "\<And>b. v = Ok b \<Longrightarrow> ?x = Inr b" "v \<noteq> Pending"
    using v by (auto simp: balance_of_def get_balance_def read_balance_def run_simps map_err_def split: option.splits sum.splits)
  show ?thesis
  proof (cases "\<exists>b ns. v = Ok b \<and> amount \<le> b \<and> a_nonces (m_env me) tr1 [from] = Inr ns")
    case False
    let ?n = "XNonces [from] (a_nonces (m_env me) tr1 [from])"
    have "(tr' = tr @ [?b] \<or> tr' = tr @ [?b, ?n]) \<and> \<not> is_Ok r"
    proof (cases v)
      case (Ok b)
      then show ?thesis using run v False tr1(1)
        by (cases "a_nonces (m_env me) tr1 [from]") (auto simp: send_transfer_def fail_with_def run_simps not_le split: if_splits)
    qed (use run v tr1(1) in \<open>auto simp: send_transfer_def fail_with_def run_simps\<close>)
    then show ?thesis using that [of "[?b]"] that [of "[?b, ?n]"] not_Ok [of r] by auto
  next
    case True
    then obtain b ns where b: "v = Ok b" "amount \<le> b" "a_nonces (m_env me) tr1 [from] = Inr ns" by blast
    let ?n = "XNonces [from] (Inr ns)"
    obtain w tr2 where w: "run_state (transfer (m_env me) c to amount) (tr1 @ [?n]) = (w, tr2)" by fastforce
    have xb: "?x = Inr b" using tr1(2) b(1) by simp
    have send: "transfer_ok me c from to amount (us @ [?b, ?n, XNonces [lc_account_id c] m]) [lc_account_id c, to] amount" for m
    proof -
      have reads: "list_all plain_read [?b, ?n, XNonces [lc_account_id c] m]" by simp
      have inert: "list_all inert [?b, ?n, XNonces [lc_account_id c] m]" by simp
      have "just_gated (us @ [?b, ?n, XNonces [lc_account_id c] m])" by (rule just_gated_read [OF us(2) reads])
      moreover have "lock_held SignedWriteLock (us @ [?b, ?n, XNonces [lc_account_id c] m])"
        using lock_held_inert [OF inert] us(1) by simp
      moreover have "token_passed (from, to, amount) (us @ [?b, ?n, XNonces [lc_account_id c] m])"
        using us(4) by (auto simp: token_passed_def)
      moreover have "\<exists>vs b ws. us @ [?b, ?n, XNonces [lc_account_id c] m] = vs @ XBalance from (Inr b) # ws \<and>
          lock_held SignedWriteLock vs \<and> amount \<le> b \<and> list_all plain_read ws"
        using xb b(2) us(1) by (intro exI [of _ us] exI [of _ b] exI [of _ "[?n, XNonces [lc_account_id c] m]"]) simp
      ultimately show ?thesis using us(3) by (simp add: transfer_ok_def)
    qed
    show ?thesis
      using w
    proof (cases rule: transfer_run)
      case (unsent m)
      then have "tr' = tr2 \<and> \<not> is_Ok r"
        using run v b w by (cases w) (auto simp: send_transfer_def fail_with_def run_simps not_le [symmetric])
      then show ?thesis using that [of "[?b, ?n, XNonces [lc_account_id c] m]"] unsent tr1(1) not_Ok [of r] by auto
    next
      case (refused m x)
      then have "tr' = tr2 \<and> \<not> is_Ok r"
        using run v b w by (cases w) (auto simp: send_transfer_def fail_with_def run_simps not_le [symmetric])
      then show ?thesis
        using that [of "[?b, ?n, XNonces [lc_account_id c] m,
          XSend (c_transfer_program (m_env me)) [lc_account_id c, to] (TransferPayload amount) x]"] refused tr1(1) send not_Ok [of r]
        by auto
    next
      case (sent m tx)
      let ?s = "XSend (c_transfer_program (m_env me)) [lc_account_id c, to] (TransferPayload amount) (Inr tx)"
      let ?fb = "SignerNonce from (first_or ns)"
      obtain q tr3 where q: "run_state (confirm_submitted_tx fuel me tx ?fb) tr2 = (q, tr3)" by fastforce
      obtain e1 where e1: "tr3 = tr2 @ e1" "list_all inert e1" "verdict_ok me tx ?fb q e1" by (rule confirm_run [OF q])
      obtain e2 where e2: "tr' = tr3 @ e2" "list_all plain_read e2"
        "\<And>tx' confirmed conf b. r = Ok (tx', confirmed, conf, b) \<Longrightarrow> tx' = tx \<and> q = Ok (confirmed, conf)"
      proof (cases q)
        case (Ok p)
        obtain bal tr4 where bal: "run_state (balance_or me cx to to_balance) tr3 = (bal, tr4)" by fastforce
        obtain e2 where e2: "tr4 = tr3 @ e2" "list_all plain_read e2" by (rule emits_prefix [OF emits_balance_or bal])
        show ?thesis using run v b w sent q bal e2 Ok that [of e2]
          by (cases p) (auto simp: send_transfer_def fail_with_def run_simps not_le [symmetric])
      qed (use run v b w sent q that [of "[]"] in \<open>auto simp: send_transfer_def fail_with_def run_simps not_le [symmetric]\<close>)
      let ?pre = "[?b, ?n, XNonces [lc_account_id c] m]"
      have "list_all inert e2" using e2(2) plain_read_inert by (metis list.pred_mono_strong)
      moreover from this have "list_all lockless e2" "list_all lockless e1" using e1(2) inert_all_lockless by blast+
      ultimately have "each ?ok us (?pre @ ?s # e1 @ e2)" "list_all lockless (?pre @ ?s # e1 @ e2)"
        using send [of m] e1(2) by (simp_all add: each_append each_inert)
      moreover have "tr' = tr @ ?pre @ ?s # e1 @ e2" using e2(1) e1(1) sent(1) tr1(1) by simp
      moreover have "sent_ok me c from to amount tx' confirmed (?pre @ ?s # e1 @ e2)"
        if "r = Ok (tx', confirmed, conf, b)" for tx' confirmed conf b
      proof -
        have "tx' = tx" "q = Ok (confirmed, conf)" using e2(3) [OF that] by simp_all
        then have "confirmed \<longrightarrow> committed_sign me tx ?fb (e1 @ e2)"
          using e1(3) by (auto simp: verdict_ok_def committed_sign_def split: if_splits)
        then show ?thesis using \<open>tx' = tx\<close> unfolding sent_ok_def
          by (intro exI [of _ ?pre] exI [of _ ns] exI [of _ "e1 @ e2"]) simp
      qed
      ultimately show ?thesis using that [of "?pre @ ?s # e1 @ e2"] by blast
    qed
  qed
qed

text \<open>The signed section: gate, initialization if needed, gate, transfer.\<close>

lemma transfer_section_run:
  assumes run: "run_state (transfer_section fuel me cx c sg needs_init from to amount to_balance) tr = (r, tr')"
    and sender: "from = sg_account_id sg"
    and us: "lock_held SignedWriteLock us" "no_fund_sends us" "token_passed (from, to, amount) us"
  obtains e where "tr' = tr @ e" "each (send_ok me from (transfer_ok me c from to amount) cok) us e" "list_all lockless e"
    "\<forall>i tx confirmed conf b. r = Ok (i, tx, confirmed, conf, b) \<longrightarrow> sent_ok me c from to amount tx confirmed e"
proof -
  let ?ok = "send_ok me from (transfer_ok me c from to amount) cok"
  obtain g1 tr1 where g1: "run_state (ensure_fresh_write_gate me cx) tr = (g1, tr1)" by fastforce
  obtain e1 where e1: "tr1 = tr @ e1" "gate_end g1 e1" by (rule ensure_gate_run [OF g1])
  have i1: "list_all inert e1" using e1(2) by (simp add: gate_end_def)
  show ?thesis
  proof (cases g1)
    case (Ok u1)
    define im where "im = (if needs_init then do {
         r \<leftarrow> fail_with (\<lambda>e. ToolFail (''account initialization failed: '' @ e)) (initialize_signer_account fuel me sg);
         ret (res_bind r (\<lambda>h. Ok (Some h))) } else ret (Ok None))"
    obtain q tr2 where q: "run_state im tr1 = (q, tr2)" by fastforce
    have held1: "lock_held SignedWriteLock (us @ e1)" using us(1) lock_held_inert [OF i1] by simp
    have gated1: "just_gated (us @ e1)" using e1(2) Ok gate_end_gated by simp
    obtain e2 where e2: "tr2 = tr1 @ e2" "each ?ok (us @ e1) e2" "list_all lockless e2" "no_fund_sends e2"
    proof (cases needs_init)
      case True
      obtain v tr3 where v: "run_state (initialize_signer_account fuel me sg) tr1 = (v, tr3)" by fastforce
      moreover have "tr3 = tr2" using q v True by (simp add: im_def fail_with_def run_simps)
      ultimately show ?thesis using initialize_run [OF _ held1 gated1] that sender by metis
    next
      case False
      then show ?thesis using q that [of "[]"] by (simp add: im_def run_simps)
    qed
    have done2: "each ?ok us (e1 @ e2)" "list_all lockless (e1 @ e2)"
      using i1 e2 inert_all_lockless by (simp_all add: each_append each_inert)
    note goal = that
    have stop: ?thesis if "tr' = tr2" "\<not> is_Ok r"
      using goal [of "e1 @ e2"] done2 e1(1) e2(1) that not_Ok [of r] by simp
    show ?thesis
    proof (cases q)
      case qOk: (Ok init_tx)
      obtain g2 tr3 where g2: "run_state (ensure_fresh_write_gate me cx) tr2 = (g2, tr3)" by fastforce
      obtain e3 where e3: "tr3 = tr2 @ e3" "gate_end g2 e3" by (rule ensure_gate_run [OF g2])
      have i3: "list_all inert e3" using e3(2) by (simp add: gate_end_def)
      have done3: "each ?ok us (e1 @ e2 @ e3)" "list_all lockless (e1 @ e2 @ e3)"
        using done2 i3 inert_all_lockless by (simp_all add: each_append each_inert)
      show ?thesis
      proof (cases g2)
        case g2Ok: (Ok u2)
        obtain w tr4 where w: "run_state (send_transfer fuel me cx c from to amount to_balance) tr3 = (w, tr4)" by fastforce
        let ?us = "us @ e1 @ e2 @ e3"
        have "lock_held SignedWriteLock ?us" using us(1) lock_held_lockless [OF done3(2)] by simp
        moreover have "just_gated ?us" using e3(2) g2Ok gate_end_gated [of e3 "us @ e1 @ e2"] by simp
        moreover have "no_fund_sends ?us" using us(2) i1 i3 e2(4) inert_no_fund_sends by simp
        moreover have "token_passed (from, to, amount) ?us" using us(3) by (auto simp: token_passed_def)
        ultimately obtain e4 where e4: "tr4 = tr3 @ e4" "each ?ok ?us e4" "list_all lockless e4"
          "\<forall>tx confirmed conf b. w = Ok (tx, confirmed, conf, b) \<longrightarrow> sent_ok me c from to amount tx confirmed e4"
          using send_transfer_run [OF w, of ?us] by metis
        have r: "tr' = tr4 \<and> (\<forall>i tx confirmed conf b. r = Ok (i, tx, confirmed, conf, b) \<longrightarrow> w = Ok (tx, confirmed, conf, b))"
          using run g1 Ok q qOk g2 g2Ok w
          by (cases w) (auto simp: transfer_section_def im_def [symmetric] run_simps)
        have "each ?ok us ((e1 @ e2 @ e3) @ e4)" "list_all lockless ((e1 @ e2 @ e3) @ e4)"
          using done3 e4(2,3) by (simp_all add: each_append)
        moreover have "tr' = tr @ (e1 @ e2 @ e3) @ e4" using r e4(1) e3(1) e2(1) e1(1) by simp
        moreover have "sent_ok me c from to amount tx confirmed ((e1 @ e2 @ e3) @ e4)"
          if "r = Ok (i, tx, confirmed, conf, b)" for i tx confirmed conf b
        proof -
          have "w = Ok (tx, confirmed, conf, b)" using r that by simp
          then show ?thesis using e4(4) by (intro sent_ok_prefix) simp
        qed
        ultimately show ?thesis by (intro goal [of "(e1 @ e2 @ e3) @ e4"]) simp_all
      next
        case (Err refusal)
        then have "tr' = tr3 \<and> r = Err refusal" using run g1 Ok q qOk g2
          by (simp add: transfer_section_def im_def [symmetric] run_simps)
        then show ?thesis using that [of "e1 @ e2 @ e3"] done3 e1(1) e2(1) e3(1) by simp
      qed (use e3(2) in \<open>auto simp: gate_end_def\<close>)
    next
      case (Err x)
      then show ?thesis using run g1 Ok q
        by (intro stop) (auto simp: transfer_section_def im_def [symmetric] run_simps)
    next
      case (Panic x)
      then show ?thesis using run g1 Ok q
        by (intro stop) (auto simp: transfer_section_def im_def [symmetric] run_simps)
    next
      case Pending
      then show ?thesis using run g1 Ok q
        by (intro stop) (auto simp: transfer_section_def im_def [symmetric] run_simps)
    qed
  next
    case (Err refusal)
    then have "tr' = tr1 \<and> r = Err refusal" using run g1 by (simp add: transfer_section_def run_simps)
    then show ?thesis using that [of e1] e1(1) i1 inert_all_lockless by (simp add: each_inert)
  qed (use e1(2) in \<open>auto simp: gate_end_def\<close>)
qed

text \<open>What one call of the transfer tool does.\<close>

definition transfer_allowed ::
  "mcp_env \<Rightarrow> mcp_ctx \<Rightarrow> string \<Rightarrow> string \<Rightarrow> trace \<Rightarrow> account_id list \<Rightarrow> u128 \<Rightarrow> bool" where
  "transfer_allowed me cx to_arg amount_s us accounts a \<longleftrightarrow>
     (\<exists>c sg to amount. cx_lez cx = Some c \<and> cx_signer cx = Some sg \<and> m_parse_account me to_arg = Ok to \<and>
        parse_u128 amount_s = Inr amount \<and> 0 < amount \<and>
        transfer_ok me c (sg_account_id sg) to amount us accounts a)"

fun transfer_result_ok ::
  "mcp_env \<Rightarrow> mcp_ctx \<Rightarrow> bool \<Rightarrow> (tool_error, transfer_result) res \<Rightarrow> trace \<Rightarrow> bool" where
  "transfer_result_ok me cx confirm (Ok (Sent rep)) e \<longleftrightarrow> confirm \<and>
     (\<exists>c. cx_lez cx = Some c \<and> sent_ok me c (tr_from rep) (tr_to rep) (tr_amount rep) (tr_tx_hash rep) (tr_confirmed rep) e)"
| "transfer_result_ok me cx confirm (Ok (Previewed pv)) e \<longleftrightarrow> \<not> confirm \<and>
     (\<exists>now. XMcp (MIssue (pv_token pv) (pv_from pv, pv_to pv, pv_amount pv) now) \<in> set e)"
| "transfer_result_ok me cx confirm r e \<longleftrightarrow> True"

definition signer_account :: "mcp_ctx \<Rightarrow> account_id" where
  "signer_account cx = (case cx_signer cx of Some sg \<Rightarrow> sg_account_id sg | None \<Rightarrow> [])"

definition transfer_call_ok ::
  "mcp_env \<Rightarrow> mcp_ctx \<Rightarrow> string \<Rightarrow> string \<Rightarrow> bool \<Rightarrow> (tool_error, transfer_result) res \<Rightarrow> trace \<Rightarrow> bool" where
  "transfer_call_ok me cx to_arg amount_s confirm r e \<longleftrightarrow>
     each (send_ok me (signer_account cx) (transfer_allowed me cx to_arg amount_s) (\<lambda>_ _ _. False)) [] e \<and>
     (confirm \<or> list_all inert e) \<and>
     (r = Pending \<or> \<not> lock_held SignedWriteLock e) \<and>
     transfer_result_ok me cx confirm r e"

lemma each_weaken: "each P us e \<Longrightarrow> (\<And>us x. P us x \<Longrightarrow> Q us x) \<Longrightarrow> each Q us e"
  by (induction e arbitrary: us) auto

lemma send_ok_weaken:
  "send_ok me acc t c us x \<Longrightarrow> (\<And>us accs a. t us accs a \<Longrightarrow> t' us accs a) \<Longrightarrow>
    (\<And>us accs a. c us accs a \<Longrightarrow> c' us accs a) \<Longrightarrow> send_ok me acc t' c' us x"
  by (cases "(me, acc, t, c, us, x)" rule: send_ok.cases) auto

text \<open>A call that only reads.\<close>

lemma transfer_call_inert:
  assumes "list_all inert e" "\<And>rep. r \<noteq> Ok (Sent rep)" "\<And>pv. r = Ok (Previewed pv) \<Longrightarrow> transfer_result_ok me cx confirm r e"
  shows "transfer_call_ok me cx to_arg amount_s confirm r e"
proof -
  have "\<not> lock_held SignedWriteLock e" using lock_held_inert [OF assms(1), of SignedWriteLock "[]"] by (simp add: lock_held_def)
  moreover have "transfer_result_ok me cx confirm r e"
    using assms(2,3) by (cases "(me, cx, confirm, r, e)" rule: transfer_result_ok.cases) auto
  ultimately show ?thesis using assms(1) by (simp add: transfer_call_ok_def each_inert)
qed

lemma check_token_run:
  assumes "run_state (check_token me token p) tr = (r, tr')"
  obtains e where "tr' = tr @ e" "list_all inert e" "r = Ok () \<longrightarrow> token_passed p e" "\<forall>m. r \<noteq> Panic m" "r \<noteq> Pending"
proof (cases token)
  case None
  then show ?thesis using assms that [of "[]"] by (auto simp: check_token_def)
next
  case (Some t)
  let ?now = "a_instant (m_env me) tr"
  let ?c = "m_check me (tr @ [XInstant ?now]) t p ?now"
  have "tr' = tr @ [XInstant ?now, XMcp (MCheck t p ?now ?c)]" "r = Ok () \<longrightarrow> ?c = TokenOk"
    "\<forall>m. r \<noteq> Panic m" "r \<noteq> Pending"
    using assms Some by (auto simp: check_token_def run_simps split: token_check.splits)
  then show ?thesis using that [of "[XInstant ?now, XMcp (MCheck t p ?now ?c)]"] by (auto simp: token_passed_def)
qed

lemma confirm_transfer_run:
  assumes run: "run_state (confirm_transfer fuel me cx c sg from to amount from_account to_account token) tr = (r, tr')"
    and sender: "from = sg_account_id sg"
    and us: "list_all inert us"
  obtains e where "tr' = tr @ e" "each (send_ok me from (transfer_ok me c from to amount) cok) us e"
    "r = Pending \<or> \<not> lock_held SignedWriteLock (us @ e)" "\<forall>pv. r \<noteq> Ok (Previewed pv)"
    "\<forall>rep. r = Ok (Sent rep) \<longrightarrow> tr_from rep = from \<and> tr_to rep = to \<and> tr_amount rep = amount \<and>
       sent_ok me c from to amount (tr_tx_hash rep) (tr_confirmed rep) e"
proof -
  let ?ok = "send_ok me from (transfer_ok me c from to amount) cok"
  note goal = that
  have stop: thesis if "tr' = tr @ e" "list_all inert e" "\<not> is_Ok r" for e
  proof (rule goal [OF that(1)])
    have "list_all inert (us @ e)" using us that(2) by simp
    then show "r = Pending \<or> \<not> lock_held SignedWriteLock (us @ e)"
      using lock_held_inert [of "us @ e" SignedWriteLock "[]"] by (simp add: lock_held_def)
  qed (use that(2,3) each_inert not_Ok [of r] in auto)
  obtain k tr1 where k: "run_state (check_token me token (from, to, amount)) tr = (k, tr1)" by fastforce
  obtain e1 where e1: "tr1 = tr @ e1" "list_all inert e1" "k = Ok () \<longrightarrow> token_passed (from, to, amount) e1"
    "\<forall>m. k \<noteq> Panic m" "k \<noteq> Pending" by (rule check_token_run [OF k])
  show thesis
  proof (cases k)
    case kOk: (Ok u)
    obtain g tr2 where g: "run_state (ensure_fresh_write_gate me cx) tr1 = (g, tr2)" by fastforce
    obtain e2 where e2: "tr2 = tr1 @ e2" "gate_end g e2" by (rule ensure_gate_run [OF g])
    have i2: "list_all inert (e1 @ e2)" using e1(2) e2(2) by (simp add: gate_end_def)
    show thesis
    proof (cases "is_Ok g \<and> is_Ok (preflight me from to amount from_account to_account)")
      case False
      have "tr' = tr2 \<and> \<not> is_Ok r"
        using run k kOk g False by (cases g; cases "preflight me from to amount from_account to_account")
          (auto simp: confirm_transfer_def run_simps)
      then show thesis using stop [of "e1 @ e2"] i2 e1(1) e2(1) by simp
    next
      case True
      then have gOk: "g = Ok ()" "preflight me from to amount from_account to_account = Ok ()"
        by (auto elim!: is_Ok.elims)
      let ?l = "XMcp (MLock SignedWriteLock)" and ?u = "XMcp (MUnlock SignedWriteLock)"
      let ?us = "us @ (e1 @ e2) @ [?l]"
      obtain q tr3 where q: "run_state (transfer_section fuel me cx c sg
          (la_program_owner from_account \<noteq> c_transfer_program (m_env me)) from to amount (la_balance to_account))
          (tr2 @ [?l]) = (q, tr3)" by fastforce
      have "lock_held SignedWriteLock ?us" by (simp add: lock_held_append)
      moreover have "no_fund_sends ?us" using us i2 inert_no_fund_sends by simp
      moreover have "token_passed (from, to, amount) ?us" using e1(3) kOk by (auto simp: token_passed_def)
      ultimately obtain e3 where e3: "tr3 = (tr2 @ [?l]) @ e3" "each ?ok ?us e3" "list_all lockless e3"
        "\<forall>i tx confirmed conf b. q = Ok (i, tx, confirmed, conf, b) \<longrightarrow> sent_ok me c from to amount tx confirmed e3"
        using transfer_section_run [OF q sender, of ?us] by metis
      define w where "w = (if q = Pending then [] else [?u])"
      let ?e = "(e1 @ e2) @ [?l] @ e3 @ w"
      have r: "tr' = tr3 @ w" "q = Pending \<longleftrightarrow> r = Pending" "\<forall>pv. r \<noteq> Ok (Previewed pv)"
        "\<forall>rep. r = Ok (Sent rep) \<longrightarrow> tr_from rep = from \<and> tr_to rep = to \<and> tr_amount rep = amount \<and>
           (\<exists>i conf b. q = Ok (i, tr_tx_hash rep, tr_confirmed rep, conf, b))"
        using run k kOk g gOk q
        by (cases q; auto simp: confirm_transfer_def run_guarded_detached_def run_simps w_def split: prod.splits)+
      show thesis
      proof (rule goal [of ?e])
        show "tr' = tr @ ?e" using r(1) e3(1) e2(1) e1(1) by simp
        have "each ?ok (us @ (e1 @ e2) @ [?l] @ e3) w" by (simp add: w_def)
        then show "each ?ok us ?e"
          using each_inert [OF i2] e3(2) by (simp add: each_append)
        show "r = Pending \<or> \<not> lock_held SignedWriteLock (us @ ?e)"
          using r(2) by (simp add: w_def lock_held_append)
        show "\<forall>pv. r \<noteq> Ok (Previewed pv)" by (rule r(3))
        show "\<forall>rep. r = Ok (Sent rep) \<longrightarrow> tr_from rep = from \<and> tr_to rep = to \<and> tr_amount rep = amount \<and>
            sent_ok me c from to amount (tr_tx_hash rep) (tr_confirmed rep) ?e"
        proof (intro allI impI)
          fix rep assume "r = Ok (Sent rep)"
          then obtain i conf b where "q = Ok (i, tr_tx_hash rep, tr_confirmed rep, conf, b)"
            "tr_from rep = from" "tr_to rep = to" "tr_amount rep = amount" using r(4) by blast
          moreover from this have "sent_ok me c from to amount (tr_tx_hash rep) (tr_confirmed rep) e3" using e3(4) by simp
          then have "sent_ok me c from to amount (tr_tx_hash rep) (tr_confirmed rep) (((e1 @ e2) @ [?l]) @ e3 @ w)"
            by (intro sent_ok_prefix sent_ok_suffix)
          ultimately show "tr_from rep = from \<and> tr_to rep = to \<and> tr_amount rep = amount \<and>
            sent_ok me c from to amount (tr_tx_hash rep) (tr_confirmed rep) ?e" by simp
        qed
      qed
    qed
  next
    case (Err x)
    then show thesis using stop [of e1] run k e1 by (auto simp: confirm_transfer_def run_simps)
  qed (use e1 in auto)
qed

lemma read_for_transfer_run:
  "run_state (read_for_transfer me what acc) tr =
    (case m_account me tr acc of Inl er \<Rightarrow> Err (ToolFail (''get_account('' @ what @ '') failed: '' @ er)) | Inr a \<Rightarrow> Ok a,
     tr @ [XMcp (MAccount acc (m_account me tr acc))])"
  by (simp add: read_for_transfer_def get_account_def run_simps)

lemma account_arg_Ok: "account_arg me what s = Ok acc \<Longrightarrow> m_parse_account me s = Ok acc"
  by (auto simp: account_arg_def split: res.splits)

lemma amount_arg_Ok: "amount_arg s = Ok v \<Longrightarrow> parse_u128 s = Inr v \<and> 0 < v"
  by (auto simp: amount_arg_def split: sum.splits if_splits)

lemma preview_run:
  "\<exists>e. run_state (preview_transfer me from to amount fa ta) tr = (r, tr') \<longrightarrow>
     tr' = tr @ e \<and> list_all inert e \<and> (\<exists>pv now. r = Ok (Previewed pv) \<and>
       XMcp (MIssue (pv_token pv) (pv_from pv, pv_to pv, pv_amount pv) now) \<in> set e)"
  by (auto simp: preview_transfer_def read_gate_def run_simps intro!: exI)

lemma transfer_call_run:
  assumes run: "run_state (lez_transfer fuel me cx to_arg amount_s confirm token) tr = (r, tr')"
  shows "\<exists>e. tr' = tr @ e \<and> transfer_call_ok me cx to_arg amount_s confirm r e"
proof -
  let ?goal = "\<exists>e. tr' = tr @ e \<and> transfer_call_ok me cx to_arg amount_s confirm r e"
  have stop: ?goal if "tr' = tr @ e" "list_all inert e" "\<not> is_Ok r" for e
    using that transfer_call_inert [of e r] not_Ok [of r] by blast
  show ?thesis
  proof (cases "\<exists>c sg to amount. cx_lez cx = Some c \<and> cx_signer cx = Some sg \<and> account_arg me ''to'' to_arg = Ok to \<and>
      amount_arg amount_s = Ok amount")
    case False
    then have "tr' = tr \<and> \<not> is_Ok r"
      using run by (cases "account_arg me ''to'' to_arg"; cases "amount_arg amount_s")
        (auto simp: lez_transfer_def run_simps split: option.splits)
    then show ?thesis using stop [of "[]"] by simp
  next
    case True
    then obtain c sg to amount where cx: "cx_lez cx = Some c" "cx_signer cx = Some sg"
      "account_arg me ''to'' to_arg = Ok to" "amount_arg amount_s = Ok amount" by blast
    let ?from = "sg_account_id sg"
    let ?m1 = "XMcp (MAccount ?from (m_account me tr ?from))"
    let ?m2 = "XMcp (MAccount to (m_account me (tr @ [?m1]) to))"
    let ?k = "\<lambda>fa ta. if \<not> confirm then preview_transfer me ?from to amount fa ta
      else confirm_transfer fuel me cx c sg ?from to amount fa ta token"
    have run2: "run_state (tryM (read_for_transfer me ''from'' ?from) (\<lambda>fa. tryM (read_for_transfer me ''to'' to) (?k fa))) tr = (r, tr')"
      using run cx by (simp add: lez_transfer_def run_simps)
    show ?thesis
    proof (cases "m_account me tr ?from")
      case (Inl er)
      then show ?thesis using run2 stop [of "[?m1]"] by (auto simp: run_simps read_for_transfer_run)
    next
      case fa: (Inr fa)
      show ?thesis
      proof (cases "m_account me (tr @ [?m1]) to")
        case (Inl er)
        then show ?thesis using run2 fa stop [of "[?m1, ?m2]"] by (auto simp: run_simps read_for_transfer_run)
      next
        case ta: (Inr ta)
        have k: "run_state (?k fa ta) (tr @ [?m1, ?m2]) = (r, tr')"
          using run2 fa ta by (simp add: run_simps read_for_transfer_run)
        have inert: "list_all inert [?m1, ?m2]" by simp
        show ?thesis
        proof (cases confirm)
          case False
          then obtain e pv now where "tr' = (tr @ [?m1, ?m2]) @ e" "list_all inert e" "r = Ok (Previewed pv)"
            "XMcp (MIssue (pv_token pv) (pv_from pv, pv_to pv, pv_amount pv) now) \<in> set e"
            using preview_run [of me ?from to amount fa ta "tr @ [?m1, ?m2]" r tr'] k by auto
          then show ?thesis using False transfer_call_inert [of "[?m1, ?m2] @ e" r me cx confirm]
            by (intro exI [of _ "[?m1, ?m2] @ e"]) auto
        next
          case confirm: True
          obtain e where e: "tr' = (tr @ [?m1, ?m2]) @ e"
            "each (send_ok me ?from (transfer_ok me c ?from to amount) (\<lambda>_ _ _. False)) [?m1, ?m2] e"
            "r = Pending \<or> \<not> lock_held SignedWriteLock ([?m1, ?m2] @ e)" "\<forall>pv. r \<noteq> Ok (Previewed pv)"
            "\<forall>rep. r = Ok (Sent rep) \<longrightarrow> tr_from rep = ?from \<and> tr_to rep = to \<and> tr_amount rep = amount \<and>
               sent_ok me c ?from to amount (tr_tx_hash rep) (tr_confirmed rep) e"
            by (rule confirm_transfer_run [OF _ refl inert]) (use k confirm in \<open>auto\<close>)
          have acc: "signer_account cx = ?from" using cx by (simp add: signer_account_def)
          have "transfer_allowed me cx to_arg amount_s us accs a" if "transfer_ok me c ?from to amount us accs a" for us accs a
            using that cx account_arg_Ok amount_arg_Ok unfolding transfer_allowed_def by blast
          then have "each (send_ok me ?from (transfer_allowed me cx to_arg amount_s) (\<lambda>_ _ _. False)) [?m1, ?m2] e"
            using each_weaken [OF e(2)] send_ok_weaken by (metis (no_types, lifting))
          then have each: "each (send_ok me ?from (transfer_allowed me cx to_arg amount_s) (\<lambda>_ _ _. False)) [] ([?m1, ?m2] @ e)"
            using each_append [of _ "[]" "[?m1, ?m2]" e] by simp
          have "transfer_result_ok me cx confirm r ([?m1, ?m2] @ e)"
          proof (cases "(me, cx, confirm, r, [?m1, ?m2] @ e)" rule: transfer_result_ok.cases)
            case (1 me' cx' confirm' rep e')
            then have "sent_ok me c ?from to amount (tr_tx_hash rep) (tr_confirmed rep) ([?m1, ?m2] @ e)"
              using e(5) by (intro sent_ok_prefix) auto
            then show ?thesis using 1 e(5) confirm cx by auto
          next
            case (2 me' cx' confirm' pv e')
            then show ?thesis using e(4) by auto
          qed auto
          then show ?thesis using e(1,3) each confirm acc
            by (intro exI [of _ "[?m1, ?m2] @ e"]) (simp add: transfer_call_ok_def)
        qed
      qed
    qed
  qed
qed

text \<open>
  C12. Whatever the sequencer answers and whatever the other calls do in between, a call of
  \<open>lez_transfer\<close> submits nothing without \<open>confirm\<close>; with it, it broadcasts at most one transfer,
  of the previewed amount from the signer to the previewed recipient, and at most after its token
  was accepted, while it holds the lock of the signed writes, directly after a passed version gate
  and a read of a sufficient balance under that lock; an initialization before it needs the lock, the
  gate and an owner read under the lock. The lock is released at the end, and a reply names a
  transfer that was sent and calls it confirmed only on a sign of this very commitment.
\<close>

theorem transfer_guarded:
  "\<exists>e. snd (run_state (lez_transfer fuel me cx to_arg amount_s confirm token) tr) = tr @ e \<and>
     transfer_call_ok me cx to_arg amount_s confirm
       (fst (run_state (lez_transfer fuel me cx to_arg amount_s confirm token) tr)) e"
  using transfer_call_run [of fuel me cx to_arg amount_s confirm token tr] by (metis prod.collapse)

section \<open>The confirmation returns\<close>

lemma poll_returns:
  assumes clock: "clock_ok (m_env me)" and probe: "emits P probe"
  shows "d \<le> a_instant (m_env me) tr + n * p \<Longrightarrow>
    fst (run_state (poll_for_confirmation (Suc n) me d p str probe msg) tr) \<noteq> Pending"
proof (induction n arbitrary: tr)
  case 0
  obtain a tr1 where a: "run_state probe tr = (a, tr1)" by fastforce
  obtain e where e: "tr1 = tr @ e" by (rule emits_prefix [OF probe a])
  have "a_instant (m_env me) tr \<le> a_instant (m_env me) tr1" using clock unfolding e clock_ok_def by blast
  then show ?case using 0 a by (simp add: run_simps)
next
  case (Suc n)
  obtain a tr1 where a: "run_state probe tr = (a, tr1)" by fastforce
  obtain e where e: "tr1 = tr @ e" by (rule emits_prefix [OF probe a])
  let ?x = "XInstant (a_instant (m_env me) tr1)"
  have "a_instant (m_env me) tr + p \<le> a_instant (m_env me) (tr @ e @ [?x, XSleep p])"
    by (rule clock_after_sleep [OF clock])
  then have "d \<le> a_instant (m_env me) (tr1 @ [?x, XSleep p]) + n * p" using Suc.prems e by simp
  from Suc.IH [OF this] show ?case
    using a unfolding poll_for_confirmation.simps(2) [of "Suc n"]
    by (simp add: run_simps del: poll_for_confirmation.simps(2))
qed

lemma get_tx_returns:
  assumes clock: "clock_ok (m_env me)"
  shows "d \<le> a_instant (m_env me) tr + n * commit_poll \<Longrightarrow>
    fst (run_state (get_tx_loop (Suc n) me tx d errs) tr) \<noteq> Pending"
proof (induction n arbitrary: tr errs)
  case 0
  let ?x = "XMcp (MGetTx tx (m_get_tx me tr tx))"
  have "a_instant (m_env me) tr \<le> a_instant (m_env me) (tr @ [?x])" using clock unfolding clock_ok_def by blast
  then show ?case using 0 by (simp add: run_simps Let_def)
next
  case (Suc n)
  let ?x = "XMcp (MGetTx tx (m_get_tx me tr tx))"
  let ?y = "XInstant (a_instant (m_env me) (tr @ [?x]))"
  have "a_instant (m_env me) tr + commit_poll \<le> a_instant (m_env me) (tr @ [?x] @ [?y, XSleep commit_poll])"
    by (rule clock_after_sleep [OF clock])
  then have d: "d \<le> a_instant (m_env me) (tr @ [?x, ?y, XSleep commit_poll]) + n * commit_poll" using Suc.prems by simp
  show ?case
    using Suc.IH [OF d]
    by (simp add: get_tx_loop.simps(2) [of "Suc n"] run_simps Let_def del: get_tx_loop.simps(2))
qed

text \<open>
  C34. A confirmation always comes to an end: with a clock that does not go back, forty-nine rounds
  of reads by hash, and forty-nine of the fallback, reach the deadline of four minutes, whatever the
  sequencer answers.
\<close>

theorem confirmation_returns:
  assumes "clock_ok (m_env me)" "49 \<le> fuel"
  shows "fst (run_state (confirm_submitted_tx fuel me tx fb) tr) \<noteq> Pending"
proof -
  obtain n where n: "fuel = Suc n" "48 \<le> n" using assms(2) by (cases fuel) auto
  note clock = assms(1)
  have later: "a_instant (m_env me) t + commit_timeout \<le> a_instant (m_env me) (t @ [x]) + n * commit_poll" for t x
  proof -
    have "a_instant (m_env me) t \<le> a_instant (m_env me) (t @ [x])" using clock unfolding clock_ok_def by blast
    moreover have "commit_timeout \<le> n * commit_poll" using n(2) by (simp add: commit_timeout_def commit_poll_def)
    ultimately show ?thesis by simp
  qed
  have nonce: "emits (\<lambda>_. True) (nonce_probe me acc k)" for acc k
    unfolding nonce_probe_def by (intro emits_intros) simp
  have seed: "emits (\<lambda>_. True) (seed_probe me s)" for s
    unfolding seed_probe_def pinata_challenge_def by (intro emits_intros) simp
  have fallback: "fst (run_state (confirm_fallback_run fuel me fb) t) \<noteq> Pending" for t
    unfolding confirm_fallback_run_def confirm_via_nonce_advance_def confirm_via_seed_rotation_def n(1)
    using poll_returns [OF clock nonce later] poll_returns [OF clock seed later]
    by (cases fb) (simp_all add: run_simps del: poll_for_confirmation.simps(2))
  show ?thesis
  proof (cases "m_is_hash me tx")
    case False
    then show ?thesis using fallback by (simp add: confirm_submitted_tx_def)
  next
    case True
    let ?t = "a_instant (m_env me) tr"
    obtain v tr1 where v: "run_state (get_tx_loop fuel me tx (?t + commit_timeout) 0) (tr @ [XInstant ?t]) = (v, tr1)"
      by fastforce
    then have "v \<noteq> Pending" using get_tx_returns [OF clock later] n(1) by (metis fst_conv)
    then show ?thesis using v True fallback
      by (cases v) (auto simp: confirm_submitted_tx_def run_simps split: option.splits)
  qed
qed

text \<open>An environment of the server for the witness, over that of the clients.\<close>

definition sample_mcp :: mcp_env where
  "sample_mcp = \<lparr> m_env = toy_env (\<lambda>_. Inr []) (\<lambda>_. Inr 0),
     m_gate = (\<lambda>_. \<lparr> gs_gate = Unverified [], gs_checked_at = 0 \<rparr>), m_program_ids = (\<lambda>_. Inl []),
     m_get_tx = (\<lambda>_ _. Inr False), m_account = (\<lambda>_ _. Inr default_account), m_new_token = (\<lambda>_. ''t''),
     m_check = (\<lambda>_ _ _ _. TokenMissing), m_is_hash = (\<lambda>_. True), m_parse_url = (\<lambda>_. None),
     m_builtin = \<lparr> bi_amm = [], bi_authenticated_transfer = [], bi_pinata = [], bi_privacy_preserving_circuit = [],
       bi_token = [] \<rparr>, m_parse_account = (\<lambda>_. Ok []) \<rparr>"

theorem confirmation_returns_witness:
  "fst (run_state (confirm_submitted_tx 49 sample_mcp ''tx'' (SignerNonce [] 0)) []) \<noteq> Pending"
  using confirmation_returns [of sample_mcp 49 "''tx''" "SignerNonce [] 0" "[]"] toy_clock
  by (simp add: sample_mcp_def)

end
