(* ===== verification/Mcp_Faucet.thy ===== *)
theory Mcp_Faucet
  imports Mcp_Safety
begin

text \<open>
  What the faucet tool of the MCP server submits: claims that solve a challenge read under the
  claim lock, each behind its own gate, and what it reports of them.
\<close>

section \<open>One claim\<close>

definition claim_ok ::
  "mcp_env \<Rightarrow> account_id \<Rightarrow> u128 option \<Rightarrow> trace \<Rightarrow> account_id list \<Rightarrow> u128 \<Rightarrow> bool" where
  "claim_ok me acc target us accounts s \<longleftrightarrow>
     accounts = [c_pinata_account (m_env me), acc] \<and> lock_held ClaimLock us \<and> just_gated us \<and>
     (\<exists>vs br d ws. us = vs @ XBalance acc br # XAccount (c_pinata_account (m_env me)) (Inr d) # ws \<and>
        lock_held ClaimLock vs \<and> (\<forall>b. br = Inr b \<longrightarrow> \<not> target_met target b) \<and>
        length d = 33 \<and> solves (m_env me) d s \<and> list_all inert ws)"

text \<open>A line of the reply: the claim was sent, and has a sign of its commitment if called confirmed.\<close>

definition claim_line_ok :: "mcp_env \<Rightarrow> account_id \<Rightarrow> claim_line \<Rightarrow> trace \<Rightarrow> bool" where
  "claim_line_ok me acc cl e \<longleftrightarrow>
     (\<exists>e1 d e2. e = e1 @ XSend (c_pinata_program (m_env me)) [c_pinata_account (m_env me), acc]
           (PinataPayload (cl_pow_solution cl)) (Inr (cl_tx_hash cl)) # e2 \<and>
        XAccount (c_pinata_account (m_env me)) (Inr d) \<in> set e1 \<and> solves (m_env me) d (cl_pow_solution cl) \<and>
        (cl_confirmed cl \<longrightarrow> committed_sign me (cl_tx_hash cl) (PinataSeed (drop 1 d)) e2))"

lemma claim_line_ok_prefix: "claim_line_ok me acc cl e \<Longrightarrow> claim_line_ok me acc cl (e0 @ e)"
  unfolding claim_line_ok_def by (metis append.assoc set_append UnCI)

lemma committed_sign_append: "committed_sign me tx fb e \<Longrightarrow> committed_sign me tx fb (e @ e0)"
  by (auto simp: committed_sign_def)

lemma claim_line_ok_suffix:
  assumes "claim_line_ok me acc cl e"
  shows "claim_line_ok me acc cl (e @ e0)"
proof -
  let ?s = "XSend (c_pinata_program (m_env me)) [c_pinata_account (m_env me), acc]
    (PinataPayload (cl_pow_solution cl)) (Inr (cl_tx_hash cl))"
  obtain e1 d e2 where "e = e1 @ ?s # e2" "XAccount (c_pinata_account (m_env me)) (Inr d) \<in> set e1"
    "solves (m_env me) d (cl_pow_solution cl)"
    "cl_confirmed cl \<longrightarrow> committed_sign me (cl_tx_hash cl) (PinataSeed (drop 1 d)) e2"
    using assms unfolding claim_line_ok_def by blast
  then show ?thesis unfolding claim_line_ok_def
    by (intro exI [of _ e1] exI [of _ d] exI [of _ "e2 @ e0"]) (auto intro: committed_sign_append)
qed

text \<open>Events that leave the lock of the signed writes alone.\<close>

definition keeps_signed :: "trace \<Rightarrow> bool" where
  "keeps_signed e \<longleftrightarrow> (\<forall>h. fold (lock_after SignedWriteLock) e h = h)"

lemma keeps_signed_append: "keeps_signed e \<Longrightarrow> keeps_signed e' \<Longrightarrow> keeps_signed (e @ e')"
  by (simp add: keeps_signed_def)

lemma keeps_signed_inert: "list_all inert e \<Longrightarrow> keeps_signed e"
  by (simp add: keeps_signed_def inert_locks)

lemma keeps_signed_simps [simp]:
  "keeps_signed []" "keeps_signed (XSend pid accs p r # e) = keeps_signed e"
  "keeps_signed (XMcp (MLock ClaimLock) # e) = keeps_signed e"
  "keeps_signed (XMcp (MUnlock ClaimLock) # e) = keeps_signed e"
  "keeps_signed (XBalance acc br # e) = keeps_signed e"
  by (simp_all add: keeps_signed_def)

definition claims_in :: "trace \<Rightarrow> nat" where
  "claims_in e = length (filter is_claim_send e)"

lemma claims_in_simps [simp]:
  "claims_in [] = 0" "claims_in (e @ e') = claims_in e + claims_in e'"
  "claims_in (x # e) = (if is_claim_send x then Suc (claims_in e) else claims_in e)"
  by (simp_all add: claims_in_def)

lemma claims_in_inert: "list_all inert e \<Longrightarrow> claims_in e = 0"
  using inert_no_fund by (induction e) auto

lemma balance_or_run:
  "run_state (balance_or me cx acc d) tr =
    (case a_balance (m_env me) tr acc of Inr b \<Rightarrow> b | Inl e \<Rightarrow> d, tr @ [XBalance acc (a_balance (m_env me) tr acc)])"
  by (auto simp: balance_or_def balance_of_def get_balance_def read_balance_def run_simps map_err_def
    split: option.splits sum.splits)

lemma solve_claim_run:
  assumes "run_state (solve_claim en acc) tr = (r, tr')"
  obtains (failed) e er where "tr' = tr @ e" "list_all inert e" "r = Err er"
  | (solved) d s where "tr' = tr @ [XAccount (c_pinata_account en) (Inr d), XPow (Inr (sc_solution s))]"
      "r = Ok s" "length d = 33" "solves en d (sc_solution s)" "sc_winner s = acc" "sc_seed s = drop 1 d"
proof -
  let ?a = "a_account en tr (c_pinata_account en)"
  let ?m = "XAccount (c_pinata_account en) ?a"
  show ?thesis
  proof (cases "\<exists>d. ?a = Inr d \<and> length d = 33")
    case False
    then have "tr' = tr @ [?m]" "\<exists>er. r = Err er"
      using assms by (auto simp: solve_claim_def pinata_challenge_def run_simps split: sum.splits if_splits)
    then show ?thesis using failed [of "[?m]"] by auto
  next
    case True
    then obtain d where d: "?a = Inr d" "length d = 33" by blast
    let ?q = "compute_solution_bounded (c_sha256 en) d max_pow_iterations
      (\<lambda>i. if a_pow_late en (tr @ [?m]) i then PowLate else PowGo)"
    show ?thesis
    proof (cases ?q)
      case (Inl er)
      then have "tr' = tr @ [?m, XPow (Inl er)]" "r = Err er"
        using assms d by (auto simp: solve_claim_def pinata_challenge_def run_simps)
      then show ?thesis using failed [of "[?m, XPow (Inl er)]"] by simp
    next
      case (Inr s)
      then have "tr' = tr @ [?m, XPow (Inr s)]" "r = Ok \<lparr> sc_solution = s, sc_winner = acc, sc_seed = drop 1 d \<rparr>"
        using assms d by (auto simp: solve_claim_def pinata_challenge_def run_simps)
      then show ?thesis using solved [of d "\<lparr> sc_solution = s, sc_winner = acc, sc_seed = drop 1 d \<rparr>"] d
          computed_solves [OF Inr] by simp
    qed
  qed
qed

text \<open>The detached section: at most one claim, and the lock is released unless the fuel ends first.\<close>

lemma claim_cycle_run:
  assumes run: "run_state (run_guarded_detached ClaimLock (claim_section fuel me s)) tr = (r, tr')"
    and ok: "cok us [c_pinata_account (m_env me), sc_winner s] (sc_solution s)"
  obtains e where "tr' = tr @ e" "each (send_ok me a tok cok) us e" "keeps_signed e" "claims_in e \<le> 1"
    "r = Pending \<or> \<not> lock_held ClaimLock (us @ e)" "\<forall>m. r \<noteq> Panic m" "\<forall>m. r \<noteq> Ok (Panic m)" "r \<noteq> Ok Pending"
    "\<forall>tx confirmed conf. r = Ok (Ok (tx, confirmed, conf)) \<longrightarrow>
       (\<exists>e2. e = XSend (c_pinata_program (m_env me)) [c_pinata_account (m_env me), sc_winner s]
           (PinataPayload (sc_solution s)) (Inr tx) # e2 \<and>
         (confirmed \<longrightarrow> committed_sign me tx (PinataSeed (sc_seed s)) e2))"
proof -
  let ?pid = "c_pinata_program (m_env me)"
  let ?accs = "[c_pinata_account (m_env me), sc_winner s]"
  let ?p = "PinataPayload (sc_solution s)"
  let ?x = "a_send (m_env me) tr ?pid ?accs ?p"
  let ?u = "XMcp (MUnlock ClaimLock)"
  let ?s = "XSend ?pid ?accs ?p ?x"
  note goal = that
  show thesis
  proof (cases "c_message_err (m_env me) ?pid ?accs ?p")
    case (Some er)
    then have "tr' = tr @ [?u] \<and> (\<exists>m. r = Ok (Err m))"
      using run by (auto simp: run_guarded_detached_def claim_section_def submit_solved_claim_def Let_def run_simps)
    then show thesis by (intro goal [of "[?u]"]) (auto simp: lock_held_append)
  next
    case None
    show thesis
    proof (cases ?x)
      case (Inl er)
      then have "tr' = tr @ [?s, ?u] \<and> (\<exists>m. r = Ok (Err m))"
        using run None by (auto simp: run_guarded_detached_def claim_section_def submit_solved_claim_def Let_def run_simps)
      then show thesis using ok by (intro goal [of "[?s, ?u]"]) (auto simp: lock_held_append)
    next
      case (Inr tx)
      let ?fb = "PinataSeed (sc_seed s)"
      obtain q tr1 where q: "run_state (confirm_submitted_tx fuel me tx ?fb) (tr @ [?s]) = (q, tr1)" by fastforce
      obtain e1 where e1: "tr1 = (tr @ [?s]) @ e1" "list_all inert e1" "verdict_ok me tx ?fb q e1" by (rule confirm_run [OF q])
      define w where "w = (if q = Pending then [] else [?u])"
      have r: "tr' = tr1 @ w" "q = Pending \<longleftrightarrow> r = Pending" "\<forall>m. r \<noteq> Panic m" "\<forall>m. r \<noteq> Ok (Panic m)" "r \<noteq> Ok Pending"
        "\<forall>t confirmed conf. r = Ok (Ok (t, confirmed, conf)) \<longrightarrow> t = tx \<and> q = Ok (confirmed, conf)"
        using run None Inr q
        by (cases q; auto simp: run_guarded_detached_def claim_section_def submit_solved_claim_def Let_def run_simps w_def
          split: prod.splits)+
      show thesis
      proof (rule goal [of "?s # e1 @ w"])
        show "tr' = tr @ ?s # e1 @ w" using r(1) e1(1) by simp
        show "each (send_ok me a tok cok) us (?s # e1 @ w)"
          using ok each_inert [OF e1(2)] by (simp add: each_append w_def)
        show "keeps_signed (?s # e1 @ w)"
          using keeps_signed_append [OF keeps_signed_inert [OF e1(2)], of w] by (simp add: w_def)
        show "claims_in (?s # e1 @ w) \<le> 1" using claims_in_inert [OF e1(2)] by (simp add: w_def)
        show "r = Pending \<or> \<not> lock_held ClaimLock (us @ ?s # e1 @ w)" using r(2) by (simp add: w_def lock_held_append)
        show "\<forall>t confirmed conf. r = Ok (Ok (t, confirmed, conf)) \<longrightarrow>
            (\<exists>e2. ?s # e1 @ w = XSend ?pid ?accs ?p (Inr t) # e2 \<and> (confirmed \<longrightarrow> committed_sign me t ?fb e2))"
          using r(6) e1(3) Inr by (fastforce simp: verdict_ok_def intro: committed_sign_append)
      qed (use r in auto)
    qed
  qed
qed

section \<open>The loop\<close>

definition loop_end ::
  "mcp_env \<Rightarrow> account_id \<Rightarrow> nat \<Rightarrow> claim_line list \<Rightarrow> (tool_error, claim_line list \<times> u128 \<times> string option) res \<Rightarrow> trace \<Rightarrow> bool" where
  "loop_end me acc n claims r e \<longleftrightarrow>
     (\<forall>cs b w. r = Ok (cs, b, w) \<longrightarrow>
        (\<exists>new. cs = claims @ new \<and> length new \<le> n \<and> list_all (\<lambda>cl. claim_line_ok me acc cl e) new \<and>
           list_all cl_confirmed (butlast new)))"

lemma loop_end_none: "(\<And>cs b w. r = Ok (cs, b, w) \<Longrightarrow> cs = claims) \<Longrightarrow> loop_end me acc n claims r e"
  by (auto simp: loop_end_def)

definition loop_ok ::
  "mcp_env \<Rightarrow> account_id \<Rightarrow> u128 option \<Rightarrow> nat \<Rightarrow> claim_line list \<Rightarrow> trace \<Rightarrow>
     (tool_error, claim_line list \<times> u128 \<times> string option) res \<Rightarrow> trace \<Rightarrow> bool" where
  "loop_ok me acc target n claims us r e \<longleftrightarrow>
     each (send_ok me acc (\<lambda>_ _ _. False) (claim_ok me acc target)) us e \<and> keeps_signed e \<and> claims_in e \<le> n \<and>
     (r = Pending \<or> \<not> lock_held ClaimLock (us @ e)) \<and> loop_end me acc n claims r e"

text \<open>A round that submitted nothing: it took the lock, read, and gave the lock back.\<close>

lemma loop_ok_idle:
  assumes "list_all inert x" "\<And>cs b w. r = Ok (cs, b, w) \<Longrightarrow> cs = claims"
  shows "loop_ok me acc target n claims us r (XMcp (MLock ClaimLock) # x @ [XMcp (MUnlock ClaimLock)])"
proof -
  have "keeps_signed (XMcp (MLock ClaimLock) # x @ [XMcp (MUnlock ClaimLock)])"
    using keeps_signed_append [OF keeps_signed_inert [OF assms(1)], of "[XMcp (MUnlock ClaimLock)]"] by simp
  moreover have "claims_in (XMcp (MLock ClaimLock) # x @ [XMcp (MUnlock ClaimLock)]) = 0"
    using claims_in_inert [OF assms(1)] by simp
  moreover have "\<not> lock_held ClaimLock (us @ XMcp (MLock ClaimLock) # x @ [XMcp (MUnlock ClaimLock)])"
    by (simp add: lock_held_append)
  ultimately show ?thesis
    using loop_end_none [OF assms(2)] each_inert [OF assms(1)] by (simp add: loop_ok_def each_append)
qed

lemma claims_loop_run:
  "run_state (claims_loop fuel n me cx acc target balance claims) tr = (r, tr') \<Longrightarrow>
    \<not> lock_held ClaimLock us \<Longrightarrow> \<exists>e. tr' = tr @ e \<and> loop_ok me acc target n claims us r e"
proof (induction n arbitrary: balance claims tr us)
  case 0
  then have "tr' = tr \<and> r = Ok (claims, balance, None)" by (simp add: run_simps)
  then show ?case using 0 by (intro exI [of _ "[]"]) (simp add: loop_ok_def loop_end_def)
next
  case (Suc n)
  let ?ok = "send_ok me acc (\<lambda>_ _ _. False) (claim_ok me acc target)"
  let ?l = "XMcp (MLock ClaimLock)" and ?u = "XMcp (MUnlock ClaimLock)"
  let ?br = "a_balance (m_env me) (tr @ [?l]) acc"
  let ?b = "XBalance acc ?br"
  let ?tr1 = "tr @ [?l, ?b]"
  define bal where "bal = (case ?br of Inr b \<Rightarrow> b | Inl e \<Rightarrow> balance)"
  have idle: ?case if "tr' = tr @ ?l # x @ [?u]" "list_all inert x" "\<And>cs b w. r = Ok (cs, b, w) \<Longrightarrow> cs = claims" for x
    using loop_ok_idle [where me = me and acc = acc and target = target and n = "Suc n" and us = us, OF that(2,3)] that(1)
    by (intro exI [of _ "?l # x @ [?u]"] conjI) assumption+
  show ?case
  proof (cases "target_met target balance")
    case True
    then have "tr' = tr \<and> r = Ok (claims, balance, None)" using Suc.prems(1) by (simp add: run_simps)
    then show ?thesis using Suc.prems(2) by (intro exI [of _ "[]"]) (simp add: loop_ok_def loop_end_def)
  next
    case unmet: False
    show ?thesis
    proof (cases "target_met target bal")
      case True
      then have "tr' = ?tr1 @ [?u] \<and> r = Ok (claims, bal, None)"
        using Suc.prems(1) unmet by (simp add: run_simps balance_or_run bal_def)
      then show ?thesis using idle [of "[?b]"] by simp
    next
      case under: False
      obtain v tr2 where v: "run_state (solve_claim (m_env me) acc) ?tr1 = (v, tr2)" by fastforce
      from v show ?thesis
      proof (cases rule: solve_claim_run)
        case (failed x er)
        then have "tr' = tr2 @ [?u] \<and> r = Ok (claims, bal, Some er)"
          using Suc.prems(1) unmet under v by (simp add: run_simps balance_or_run bal_def)
        then show ?thesis using idle [of "?b # x"] failed by simp
      next
        case (solved d s)
        let ?x = "[XAccount (c_pinata_account (m_env me)) (Inr d), XPow (Inr (sc_solution s))]"
        obtain g tr3 where g: "run_state (ensure_fresh_write_gate me cx) tr2 = (g, tr3)" by fastforce
        obtain e1 where e1: "tr3 = tr2 @ e1" "gate_end g e1" by (rule ensure_gate_run [OF g])
        have i1: "list_all inert e1" using e1(2) by (simp add: gate_end_def)
        let ?pre = "?l # ?b # ?x @ e1"
        show ?thesis
        proof (cases g)
          case (Err refusal)
          then have "tr' = tr3 @ [?u] \<and> r = Err refusal"
            using Suc.prems(1) unmet under v solved g by (simp add: run_simps balance_or_run bal_def)
          then show ?thesis using idle [of "?b # ?x @ e1"] solved(1) e1(1) i1 by simp
        next
          case (Ok u)
          obtain q tr4 where q: "run_state (run_guarded_detached ClaimLock (claim_section fuel me s)) tr3 = (q, tr4)" by fastforce
          have iw: "list_all inert (XPow (Inr (sc_solution s)) # e1)" using i1 by simp
          have lock: "lock_held ClaimLock (us @ ?pre)"
            using inert_locks [OF i1, of ClaimLock] by (simp add: lock_held_append)
          have gated: "just_gated (us @ ?pre)"
            using gate_end_gated [of e1 "us @ ?l # ?b # ?x"] e1(2) Ok by simp
          have cok: "claim_ok me acc target (us @ ?pre) [c_pinata_account (m_env me), sc_winner s] (sc_solution s)"
            unfolding claim_ok_def using lock gated solved(3,4,5) iw under bal_def
            by (intro conjI exI [of _ "us @ [?l]"] exI [of _ ?br] exI [of _ d] exI [of _ "XPow (Inr (sc_solution s)) # e1"])
              (auto simp: lock_held_append)
          obtain c where c: "tr4 = tr3 @ c" "each ?ok (us @ ?pre) c" "keeps_signed c" "claims_in c \<le> 1"
            "q = Pending \<or> \<not> lock_held ClaimLock ((us @ ?pre) @ c)" "\<forall>m. q \<noteq> Panic m" "\<forall>m. q \<noteq> Ok (Panic m)" "q \<noteq> Ok Pending"
            "\<forall>tx confirmed conf. q = Ok (Ok (tx, confirmed, conf)) \<longrightarrow>
               (\<exists>e2. c = XSend (c_pinata_program (m_env me)) [c_pinata_account (m_env me), sc_winner s]
                   (PinataPayload (sc_solution s)) (Inr tx) # e2 \<and>
                 (confirmed \<longrightarrow> committed_sign me tx (PinataSeed (sc_seed s)) e2))"
            by (rule claim_cycle_run [OF q, where us = "us @ ?pre" and cok = "claim_ok me acc target", OF cok])
          have pre_ok: "each ?ok us ?pre" using each_inert [OF i1] by (simp add: each_append)
          have pre_keeps: "keeps_signed ?pre" using keeps_signed_inert [of "?x @ e1"] i1 by simp
          have pre_none: "claims_in ?pre = 0" using claims_in_inert [OF i1] by simp
          have fin: "each ?ok us (?pre @ c)" "keeps_signed (?pre @ c)" "claims_in (?pre @ c) \<le> 1"
            using pre_ok c(2,4) keeps_signed_append [OF pre_keeps c(3)] pre_none
            by (simp_all only: each_append claims_in_simps)
          have tr4: "tr4 = tr @ ?pre @ c" using c(1) e1(1) solved(1) by simp
          have loop: "run_state (claims_loop fuel (Suc n) me cx acc target balance claims) tr = (r, tr')" by (rule Suc.prems(1))
          show ?thesis
          proof (cases "\<exists>tx confirmed conf. q = Ok (Ok (tx, confirmed, conf))")
            case False
            have "tr' = tr4 \<and> (q = Pending \<longleftrightarrow> r = Pending) \<and> (\<forall>cs b w. r = Ok (cs, b, w) \<longrightarrow> cs = claims)"
            proof (cases q)
              case qOk: (Ok z)
              then show ?thesis using loop unmet under v solved g Ok q c(7,8) False
                by (cases z) (auto simp: run_simps balance_or_run bal_def)
            qed (use loop unmet under v solved g Ok q c(6) in \<open>auto simp: run_simps balance_or_run bal_def\<close>)
            then show ?thesis using fin tr4 c(5)
              by (intro exI [of _ "?pre @ c"]) (auto simp: loop_ok_def loop_end_none)
          next
            case True
            then obtain tx confirmed conf where qq: "q = Ok (Ok (tx, confirmed, conf))" by blast
            let ?b2r = "a_balance (m_env me) tr4 acc"
            let ?b2 = "XBalance acc ?b2r"
            let ?e = "?pre @ c @ [?b2]"
            define cl where "cl = \<lparr> cl_tx_hash = tx, cl_pow_solution = sc_solution s, cl_confirmed = confirmed,
              cl_confirmation = conf, cl_balance_after = (case ?b2r of Inr b \<Rightarrow> b | Inl e \<Rightarrow> bal) \<rparr>"
            have line: "claim_line_ok me acc cl ?e"
            proof -
              obtain e2 where "c = XSend (c_pinata_program (m_env me)) [c_pinata_account (m_env me), acc]
                  (PinataPayload (cl_pow_solution cl)) (Inr (cl_tx_hash cl)) # e2"
                "confirmed \<longrightarrow> committed_sign me tx (PinataSeed (drop 1 d)) e2"
                using c(9) qq solved(5,6) by (auto simp: cl_def)
              then have "claim_line_ok me acc cl (?pre @ c)"
                unfolding claim_line_ok_def using solved(4)
                by (intro exI [of _ ?pre] exI [of _ d] exI [of _ e2]) (auto simp: cl_def)
              then show ?thesis using claim_line_ok_suffix [of me acc cl "?pre @ c" "[?b2]"] by simp
            qed
            have e_ok: "each ?ok us ?e" using fin(1) by (simp add: each_append)
            have e_keeps: "keeps_signed ?e" using keeps_signed_append [OF fin(2), of "[?b2]"] by simp
            have e_count: "claims_in ?e \<le> 1" using fin(3) by simp
            have e_free: "\<not> lock_held ClaimLock (us @ ?e)" using c(5) qq by (simp add: lock_held_append)
            show ?thesis
            proof (cases "\<not> confirmed \<or> target = None")
              case True
              have "tr' = tr4 @ [?b2] \<and> (\<exists>b w. r = Ok (claims @ [cl], b, w))"
                using loop unmet under v solved g Ok q qq True
                by (cases confirmed) (auto simp: run_simps balance_or_run bal_def [symmetric] cl_def Let_def)
              moreover have "loop_end me acc (Suc n) claims r ?e"
                unfolding loop_end_def
              proof (intro allI impI exI [of _ "[cl]"] conjI)
                fix cs b w assume "r = Ok (cs, b, w)"
                then show "cs = claims @ [cl]" using calculation by auto
              qed (use line in simp_all)
              ultimately show ?thesis using tr4 e_ok e_keeps e_count e_free
                by (intro exI [of _ ?e]) (simp add: loop_ok_def)
            next
              case False
              then obtain t where t: "confirmed" "target = Some t" by auto
              have "run_state (claims_loop fuel n me cx acc target (cl_balance_after cl) (claims @ [cl])) (tr4 @ [?b2]) = (r, tr')"
                using loop unmet under v solved g Ok q qq t
                by (simp add: run_simps balance_or_run bal_def [symmetric] cl_def Let_def)
              from Suc.IH [OF this e_free] obtain e where e: "tr' = (tr4 @ [?b2]) @ e"
                "loop_ok me acc target n (claims @ [cl]) (us @ ?e) r e" by blast
              have "loop_end me acc (Suc n) claims r (?e @ e)"
                unfolding loop_end_def
              proof (intro allI impI)
                fix cs b w assume "r = Ok (cs, b, w)"
                then obtain new where new: "cs = (claims @ [cl]) @ new" "length new \<le> n"
                  "list_all (\<lambda>cl. claim_line_ok me acc cl e) new" "list_all cl_confirmed (butlast new)"
                  using e(2) unfolding loop_ok_def loop_end_def by blast
                have "list_all (\<lambda>cl. claim_line_ok me acc cl (?e @ e)) new"
                  using new(3) claim_line_ok_prefix [of me acc _ e ?e] by (simp add: list_all_iff)
                then show "\<exists>new. cs = claims @ new \<and> length new \<le> Suc n \<and>
                    list_all (\<lambda>cl. claim_line_ok me acc cl (?e @ e)) new \<and> list_all cl_confirmed (butlast new)"
                  using new False claim_line_ok_suffix [OF line, of e]
                  by (intro exI [of _ "cl # new"]) (auto simp: cl_def)
              qed
              moreover have "each ?ok us (?e @ e)" using e_ok e(2) by (simp only: each_append loop_ok_def)
              moreover have "keeps_signed (?e @ e)" using keeps_signed_append [OF e_keeps] e(2) by (simp only: loop_ok_def)
              moreover have "claims_in (?e @ e) \<le> Suc n" using e_count e(2) by (simp only: loop_ok_def claims_in_simps) auto
              moreover have "r = Pending \<or> \<not> lock_held ClaimLock (us @ ?e @ e)" using e(2) by (simp add: loop_ok_def)
              ultimately show ?thesis using e(1) tr4 by (intro exI [of _ "?e @ e"]) (simp add: loop_ok_def)
            qed
          qed
        qed (use e1(2) in \<open>auto simp: gate_end_def\<close>)
      qed
    qed
  qed
qed

section \<open>The call\<close>

lemma auto_initialize_run:
  assumes run: "run_state (auto_initialize fuel me cx acc) tr = (r, tr')" and us: "list_all inert us"
  obtains e where "tr' = tr @ e" "each (send_ok me acc tok cok) us e" "claims_in e = 0"
    "\<forall>h. fold (lock_after ClaimLock) e h = h" "r = Pending \<or> \<not> lock_held SignedWriteLock (us @ e)" "\<forall>m. r \<noteq> Panic m"
proof -
  note goal = that
  let ?a = "m_account me tr acc"
  let ?m = "XMcp (MAccount acc ?a)"
  let ?l = "XMcp (MLock SignedWriteLock)" and ?u = "XMcp (MUnlock SignedWriteLock)"
  have free: "\<not> lock_held SignedWriteLock (us @ x)" if "list_all inert x" for x
    using lock_held_inert [of "us @ x" SignedWriteLock "[]"] us that by (simp add: lock_held_def)
  have stop: thesis if "tr' = tr @ x" "list_all inert x" "\<forall>m. r \<noteq> Panic m" for x
    by (rule goal [OF that(1)])
      (use that(2,3) each_inert claims_in_inert inert_locks free [of x] in auto)
  show thesis
  proof (cases "\<exists>sg. ?a = Inr default_account \<and> cx_signer cx = Some sg \<and> sg_account_id sg = acc")
    case False
    then have "tr' = tr @ [?m]" "\<forall>m. r \<noteq> Panic m"
      using run by (auto simp: auto_initialize_def account_exists_def get_account_def fail_with_def run_simps
        split: sum.splits option.splits if_splits)
    then show thesis using stop [of "[?m]"] by simp
  next
    case True
    then obtain sg where sg: "?a = Inr default_account" "cx_signer cx = Some sg" "sg_account_id sg = acc" by blast
    obtain g tr1 where g: "run_state (ensure_fresh_write_gate me cx) (tr @ [?m, ?l]) = (g, tr1)" by fastforce
    obtain e1 where e1: "tr1 = (tr @ [?m, ?l]) @ e1" "gate_end g e1" by (rule ensure_gate_run [OF g])
    have i1: "list_all inert e1" using e1(2) by (simp add: gate_end_def)
    show thesis
    proof (cases g)
      case (Err refusal)
      then have t: "tr' = tr1 @ [?u]" "r = Err refusal"
        using run sg g by (simp_all add: auto_initialize_def account_exists_def get_account_def fail_with_def run_simps)
      show thesis
        by (rule goal [of "[?m, ?l] @ e1 @ [?u]"])
          (use t e1(1) i1 each_inert [OF i1] claims_in_inert [OF i1] inert_locks [OF i1, of ClaimLock] in
            \<open>simp_all add: each_append lock_held_append\<close>)
    next
      case (Ok u)
      obtain q tr2 where q: "run_state (initialize_signer_account fuel me sg) tr1 = (q, tr2)" by fastforce
      let ?us = "us @ [?m, ?l] @ e1"
      have "lock_held SignedWriteLock ?us" using inert_locks [OF i1, of SignedWriteLock] by (simp add: lock_held_append)
      moreover have "just_gated ?us" using gate_end_gated [of e1 "us @ [?m, ?l]"] e1(2) Ok by simp
      ultimately obtain e2 where e2: "tr2 = tr1 @ e2" "each (send_ok me acc tok cok) ?us e2" "list_all lockless e2" "no_fund_sends e2"
        using initialize_run [OF q, of ?us] sg(3) by metis
      have none: "claims_in e2 = 0" using e2(4) by (induction e2) auto
      have cl: "fold (lock_after ClaimLock) e2 h = h" for h
        using e2(3) by (induction e2 arbitrary: h) (simp_all add: lockless_lock)
      define w where "w = (if q = Pending then [] else [?u])"
      have t: "tr' = tr2 @ w" "r = Pending \<longleftrightarrow> q = Pending" "\<forall>m. r \<noteq> Panic m"
        using run sg g Ok q
        by (cases q; auto simp: auto_initialize_def account_exists_def get_account_def fail_with_def
          run_guarded_detached_def run_simps w_def)+
      show thesis
        by (rule goal [of "[?m, ?l] @ e1 @ e2 @ w"])
          (use t e1(1) e2(1,2) i1 each_inert [OF i1] claims_in_inert [OF i1] inert_locks [OF i1, of ClaimLock] none cl in
            \<open>simp_all add: each_append lock_held_append w_def\<close>)
    qed (use e1(2) in \<open>auto simp: gate_end_def\<close>)
  qed
qed

definition faucet_sends_ok ::
  "mcp_env \<Rightarrow> (tool_error, account_id) res \<Rightarrow> (tool_error, u128 option) res \<Rightarrow> trace \<Rightarrow> bool" where
  "faucet_sends_ok me who target e \<longleftrightarrow>
     (case (who, target) of
        (Ok acc, Ok t) \<Rightarrow> each (send_ok me acc (\<lambda>_ _ _. False) (claim_ok me acc t)) [] e
      | _ \<Rightarrow> list_all inert e)"

definition faucet_reply_ok :: "mcp_env \<Rightarrow> nat \<Rightarrow> (tool_error, faucet_reply) res \<Rightarrow> trace \<Rightarrow> bool" where
  "faucet_reply_ok me n r e \<longleftrightarrow>
     (\<forall>rep. r = Ok rep \<longrightarrow> length (fy_claims rep) \<le> n \<and>
        list_all (\<lambda>cl. claim_line_ok me (fy_account_id rep) cl e) (fy_claims rep) \<and>
        list_all cl_confirmed (butlast (fy_claims rep)))"

definition faucet_call_ok ::
  "mcp_env \<Rightarrow> string \<Rightarrow> string option \<Rightarrow> u32 option \<Rightarrow> (tool_error, faucet_reply) res \<Rightarrow> trace \<Rightarrow> bool" where
  "faucet_call_ok me account_arg_s target_s max_claims r e \<longleftrightarrow>
     faucet_sends_ok me (account_arg me ''account_id'' account_arg_s) (target_arg target_s) e \<and>
     claims_in e \<le> unat (clamp_claims max_claims) \<and> unat (clamp_claims max_claims) \<le> 20 \<and>
     (r = Pending \<or> \<not> lock_held ClaimLock e \<and> \<not> lock_held SignedWriteLock e) \<and>
     faucet_reply_ok me (unat (clamp_claims max_claims)) r e"

lemma clamp_claims_le: "unat (clamp_claims m) \<le> 20"
  by (auto simp: clamp_claims_def max_faucet_claims_def min_def word_le_nat_alt)

lemma faucet_call_run:
  assumes run: "run_state (lez_faucet_claim fuel me cx account_arg_s target_s max_claims) tr = (r, tr')"
  shows "\<exists>e. tr' = tr @ e \<and> faucet_call_ok me account_arg_s target_s max_claims r e"
proof -
  let ?who = "account_arg me ''account_id'' account_arg_s" and ?t = "target_arg target_s"
  let ?n = "unat (clamp_claims max_claims)"
  have stop: "\<exists>e. tr' = tr @ e \<and> faucet_call_ok me account_arg_s target_s max_claims r e"
    if "tr' = tr @ e" "list_all inert e" "\<not> is_Ok r" for e
  proof -
    have "\<not> lock_held ClaimLock e" "\<not> lock_held SignedWriteLock e"
      using lock_held_inert [OF that(2), of _ "[]"] by (simp_all add: lock_held_def)
    then have "faucet_call_ok me account_arg_s target_s max_claims r e"
      using that each_inert [OF that(2)] claims_in_inert [OF that(2)] clamp_claims_le not_Ok [OF that(3)]
      by (auto simp: faucet_call_ok_def faucet_sends_ok_def faucet_reply_ok_def split: res.splits)
    then show ?thesis using that(1) by blast
  qed
  obtain g tr1 where g: "run_state (ensure_fresh_write_gate me cx) tr = (g, tr1)" by fastforce
  obtain e1 where e1: "tr1 = tr @ e1" "gate_end g e1" by (rule ensure_gate_run [OF g])
  have i1: "list_all inert e1" using e1(2) by (simp add: gate_end_def)
  show ?thesis
  proof (cases "\<exists>acc t. g = Ok () \<and> ?who = Ok acc \<and> ?t = Ok t")
    case False
    then have "tr' = tr1 \<and> \<not> is_Ok r"
      using run g by (cases g; cases ?who; cases ?t) (auto simp: lez_faucet_claim_def run_simps)
    then show ?thesis using stop e1(1) i1 by simp
  next
    case True
    then obtain acc t where ok: "g = Ok ()" "?who = Ok acc" "?t = Ok t" by blast
    let ?ok = "send_ok me acc (\<lambda>_ _ _. False) (claim_ok me acc t)"
    obtain h tr2 where h: "run_state (auto_initialize fuel me cx acc) tr1 = (h, tr2)" by fastforce
    obtain e2 where e2: "tr2 = tr1 @ e2" "each ?ok e1 e2" "claims_in e2 = 0" "\<forall>h. fold (lock_after ClaimLock) e2 h = h"
      "h = Pending \<or> \<not> lock_held SignedWriteLock (e1 @ e2)" "\<forall>m. h \<noteq> Panic m"
      by (rule auto_initialize_run [OF h i1])
    have claim1: "\<not> lock_held ClaimLock (e1 @ e2)"
      using e2(4) inert_locks [OF i1, of ClaimLock] by (simp add: lock_held_def)
    have fin2: "each ?ok [] (e1 @ e2)" "claims_in (e1 @ e2) = 0"
      using each_inert [OF i1] e2(2,3) claims_in_inert [OF i1] by (simp_all add: each_append)
    have halt: ?thesis if "tr' = tr @ (e1 @ e2) @ x" "list_all inert x" "\<not> is_Ok r"
      "r = Pending \<or> \<not> lock_held SignedWriteLock (e1 @ e2)" for x
    proof -
      have "each ?ok [] ((e1 @ e2) @ x)" "claims_in ((e1 @ e2) @ x) = 0"
        using fin2 that(2) each_inert claims_in_inert by (simp_all only: each_append claims_in_simps)
      moreover have "lock_held l ((e1 @ e2) @ x) = lock_held l (e1 @ e2)" if "l \<noteq> RefreshLock" for l
        by (rule lock_held_inert [OF \<open>list_all inert x\<close> that])
      ultimately have "faucet_call_ok me account_arg_s target_s max_claims r ((e1 @ e2) @ x)"
        using ok that(3,4) claim1 clamp_claims_le not_Ok [OF that(3)]
        by (auto simp: faucet_call_ok_def faucet_sends_ok_def faucet_reply_ok_def simp del: append_assoc)
      then show ?thesis using that(1) by blast
    qed
    show ?thesis
    proof (cases h)
      case hOk: (Ok init_tx)
      obtain b tr3 where b: "run_state (balance_of me cx acc) tr2 = (b, tr3)" by fastforce
      obtain e3 where e3: "tr3 = tr2 @ e3" "list_all plain_read e3" by (rule emits_prefix [OF emits_balance b])
      have i3: "list_all inert e3" using e3(2) plain_read_inert by (metis list.pred_mono_strong)
      have free: "\<not> lock_held SignedWriteLock (e1 @ e2)" using e2(5) hOk by simp
      show ?thesis
      proof (cases b)
        case bOk: (Ok start)
        obtain q tr4 where q: "run_state (claims_loop fuel ?n me cx acc t start []) tr3 = (q, tr4)" by fastforce
        let ?us = "(e1 @ e2) @ e3"
        have "\<not> lock_held ClaimLock ?us" using claim1 lock_held_inert [OF i3, of ClaimLock "e1 @ e2"] by simp
        from claims_loop_run [OF q this] obtain e4 where e4: "tr4 = tr3 @ e4" "loop_ok me acc t ?n [] ?us q e4" by blast
        let ?e = "?us @ e4"
        have r: "tr' = tr4" "r = Pending \<longleftrightarrow> q = Pending"
          "\<forall>rep. r = Ok rep \<longrightarrow> fy_account_id rep = acc \<and> (\<exists>bal w. q = Ok (fy_claims rep, bal, w))"
          using run g ok h hOk b bOk q
          by (cases q; auto simp: lez_faucet_claim_def fail_with_def run_simps split: prod.splits)+
        have "each ?ok [] ?e" using fin2(1) each_inert [OF i3] e4(2) by (simp add: each_append loop_ok_def)
        moreover have "claims_in ?e \<le> ?n" using fin2(2) claims_in_inert [OF i3] e4(2) by (simp add: loop_ok_def)
        moreover have "lock_held SignedWriteLock ?e = lock_held SignedWriteLock (e1 @ e2)"
          using e4(2) lock_held_inert [OF i3, of SignedWriteLock "e1 @ e2"]
          by (simp add: lock_held_append loop_ok_def keeps_signed_def)
        moreover have "r = Pending \<or> \<not> lock_held ClaimLock ?e" using e4(2) r(2) by (simp add: loop_ok_def)
        moreover have "faucet_reply_ok me ?n r ?e"
          unfolding faucet_reply_ok_def
        proof (intro allI impI)
          fix rep assume "r = Ok rep"
          then obtain bal w where qq: "q = Ok (fy_claims rep, bal, w)" and acc: "fy_account_id rep = acc" using r(3) by blast
          then have "length (fy_claims rep) \<le> ?n" "list_all (\<lambda>cl. claim_line_ok me acc cl e4) (fy_claims rep)"
            "list_all cl_confirmed (butlast (fy_claims rep))"
            using e4(2) by (auto simp: loop_ok_def loop_end_def)
          then show "length (fy_claims rep) \<le> ?n \<and> list_all (\<lambda>cl. claim_line_ok me (fy_account_id rep) cl ?e) (fy_claims rep) \<and>
              list_all cl_confirmed (butlast (fy_claims rep))"
            using acc claim_line_ok_prefix [of me acc _ e4 ?us] by (simp add: list_all_iff)
        qed
        ultimately have "faucet_call_ok me account_arg_s target_s max_claims r ?e"
          using ok free clamp_claims_le by (simp add: faucet_call_ok_def faucet_sends_ok_def)
        then show ?thesis using r(1) e4(1) e3(1) e2(1) e1(1) by (intro exI [of _ ?e]) simp
      next
        case (Err x)
        then have "tr' = tr3 \<and> \<not> is_Ok r" using run g ok h hOk b by (auto simp: lez_faucet_claim_def fail_with_def run_simps)
        then show ?thesis using halt [of e3] i3 free e3(1) e2(1) e1(1) by simp
      next
        case (Panic x)
        then have "tr' = tr3 \<and> \<not> is_Ok r" using run g ok h hOk b by (auto simp: lez_faucet_claim_def fail_with_def run_simps)
        then show ?thesis using halt [of e3] i3 free e3(1) e2(1) e1(1) by simp
      next
        case Pending
        then have "tr' = tr3 \<and> \<not> is_Ok r" using run g ok h hOk b by (auto simp: lez_faucet_claim_def fail_with_def run_simps)
        then show ?thesis using halt [of e3] i3 free e3(1) e2(1) e1(1) by simp
      qed
    next
      case (Err x)
      then have "tr' = tr2 \<and> \<not> is_Ok r" using run g ok h by (auto simp: lez_faucet_claim_def run_simps)
      then show ?thesis using halt [of "[]"] e2(1,5) e1(1) Err by simp
    next
      case Pending
      then have "tr' = tr2 \<and> r = Pending" using run g ok h by (auto simp: lez_faucet_claim_def run_simps)
      then show ?thesis using halt [of "[]"] e2(1) e1(1) by simp
    qed (use e2(6) in auto)
  qed
qed

text \<open>
  C31. Whatever the sequencer answers and whatever the other calls do in between, a call of
  \<open>lez_faucet_claim\<close> submits at most twenty claims, and no more than it was asked for, each while it
  holds the claim lock, directly after a passed version gate, with a solution of the challenge
  that it read under that lock, and only if the balance read there, if it was read, is below the
  target; before them at most an initialization of its own account under the lock of the signed
  writes. Both locks are released at the end, every claim the reply lists was sent, is called
  confirmed only on a sign of its commitment, and all but the last one are.
\<close>

theorem faucet_guarded:
  "\<exists>e. snd (run_state (lez_faucet_claim fuel me cx account_arg_s target_s max_claims) tr) = tr @ e \<and>
     faucet_call_ok me account_arg_s target_s max_claims
       (fst (run_state (lez_faucet_claim fuel me cx account_arg_s target_s max_claims) tr)) e"
  using faucet_call_run [of fuel me cx account_arg_s target_s max_claims tr] by (metis prod.collapse)

end
