(* ===== verification/Swap_Cli.thy ===== *)
theory Swap_Cli
  imports Maker_Service Swap_Taker
begin

text \<open>
  The command line (\<open>src/cli/mod.rs\<close>) around the maker's command: the configuration from its
  arguments, and the commands \<open>taker\<close>, \<open>refund\<close> and \<open>status\<close> (\<open>src/cli/taker.rs\<close>,
  \<open>src/cli/refund.rs\<close>, \<open>src/cli/status.rs\<close>, \<open>src/cli/output.rs\<close>). Clap's parser and the text of
  what is printed are left out: a command returns the fields that it prints.
\<close>

section \<open>The configuration\<close>

definition cli_lez_sequencer_url :: string where "cli_lez_sequencer_url = ''http://127.0.0.1:3040''"
definition cli_lez_timelock_minutes :: u64 where "cli_lez_timelock_minutes = 5"
definition cli_eth_timelock_minutes :: u64 where "cli_eth_timelock_minutes = 15"

definition resolve_sequencer_url :: "string option \<Rightarrow> string \<times> bool" where
  "resolve_sequencer_url arg =
     (case arg of Some url \<Rightarrow> (url, True) | None \<Rightarrow> (cli_lez_sequencer_url, False))"

record config_args =
  ca_eth_rpc_url :: string
  ca_eth_private_key :: string
  ca_eth_htlc_address :: string
  ca_lez_signing_key :: "string option"
  ca_lez_wallet_home :: "string option"
  ca_lez_account_id :: "string option"
  ca_lez_sequencer_url :: "string option"
  ca_lez_htlc_program_id :: string
  ca_eth_recipient :: string
  ca_lez_taker_account :: "string option"
  ca_lez_amount :: u128
  ca_eth_amount :: string
  ca_lez_timelock_minutes :: "u64 option"
  ca_eth_timelock_minutes :: "u64 option"
  ca_poll_interval_ms :: u64

text \<open>The parsers of other crates: addresses, hex and base58.\<close>

record arg_parsers =
  ap_address :: "string \<Rightarrow> string + address"
  ap_hex :: "string \<Rightarrow> string + bytes"
  ap_base58 :: "string \<Rightarrow> string + bytes"

definition minutes_or :: "u64 option \<Rightarrow> u64 \<Rightarrow> u64" where
  "minutes_or arg d = (case arg of Some m \<Rightarrow> m | None \<Rightarrow> d)"

definition cli_lez_auth :: "arg_parsers \<Rightarrow> config_args \<Rightarrow> (swap_error, lez_auth) res" where
  "cli_lez_auth ap a =
     (case (ca_lez_wallet_home a, ca_lez_account_id a, ca_lez_signing_key a) of
        (Some home, Some acc, _) \<Rightarrow>
          res_bind (parse_base58_account_id (ap_base58 ap) acc) (\<lambda>account_id. Ok (Wallet home account_id))
      | (None, None, Some key) \<Rightarrow> Ok (RawKey key)
      | (Some _, None, _) \<Rightarrow> Err (InvalidConfig ''LEZ_WALLET_HOME requires LEZ_ACCOUNT_ID'')
      | (None, Some _, _) \<Rightarrow> Err (InvalidConfig ''LEZ_ACCOUNT_ID requires LEZ_WALLET_HOME'')
      | (None, None, None) \<Rightarrow>
          Err (InvalidConfig ''either LEZ_SIGNING_KEY or LEZ_WALLET_HOME + LEZ_ACCOUNT_ID must be set''))"

definition into_swap_config :: "arg_parsers \<Rightarrow> env \<Rightarrow> config_args \<Rightarrow> swap_config rio" where
  "into_swap_config ap en a =
     tryM (ret (map_err (\<lambda>e. InvalidConfig (''invalid eth-htlc-address: '' @ e)) (ap_address ap (ca_eth_htlc_address a)))) (\<lambda>htlc.
     tryM (ret (map_err (\<lambda>e. InvalidConfig (''invalid eth-recipient: '' @ e)) (ap_address ap (ca_eth_recipient a)))) (\<lambda>recipient.
     tryM (ret (parse_program_id (ap_hex ap) (ca_lez_htlc_program_id a))) (\<lambda>program_id.
     tryM (ret (case ca_lez_taker_account a of
                  None \<Rightarrow> Ok None
                | Some s \<Rightarrow> res_bind (parse_base58_account_id (ap_base58 ap) s) (\<lambda>acc. Ok (Some acc)))) (\<lambda>taker.
     tryM (ret (cli_lez_auth ap a)) (\<lambda>auth. do {
       now \<leftarrow> now_unix en;
       (let (url, explicit) = resolve_sequencer_url (ca_lez_sequencer_url a) in
        tryM (ret (map_err InvalidConfig (eth_to_wei (ca_eth_amount a)))) (\<lambda>wei.
          ret (Ok \<lparr> eth_rpc_url = ca_eth_rpc_url a, eth_private_key = ca_eth_private_key a,
                    eth_htlc_address = htlc, lez_sequencer_url = url, lez_sequencer_url_explicit = explicit,
                    lez_auth_mode = auth, lez_htlc_program_id = program_id, lez_amount = ca_lez_amount a,
                    eth_amount = wei,
                    lez_timelock = now + minutes_or (ca_lez_timelock_minutes a) cli_lez_timelock_minutes * 60,
                    eth_timelock = now + minutes_or (ca_eth_timelock_minutes a) cli_eth_timelock_minutes * 60,
                    eth_recipient_address = recipient, lez_taker_account_id = taker,
                    poll_interval = unat (ca_poll_interval_ms a) \<rparr>))) })))))"

section \<open>The commands\<close>

definition cli_bytes32 :: "arg_parsers \<Rightarrow> string \<Rightarrow> string \<Rightarrow> (swap_error, bytes32) res" where
  "cli_bytes32 ap hex_str name =
     (case ap_hex ap (strip_0x hex_str) of
        Inl e \<Rightarrow> Err (InvalidConfig (''invalid '' @ name @ '' hex: '' @ e))
      | Inr b \<Rightarrow> if length b = 32 then Ok b else Err (InvalidConfig (name @ '' must be 32 bytes'')))"

text \<open>What a command runs in; \<open>cw_drawn\<close> is the preimage that the taker would draw.\<close>

record cli_world =
  cw_parsers :: arg_parsers
  cw_env :: env
  cw_setup :: lez_setup
  cw_signer_err :: "string \<Rightarrow> string option"
  cw_drawn :: bytes32
  cw_fuel :: nat

text \<open>What is printed of an outcome.\<close>

datatype outcome_view =
    ShownCompleted string string string
  | ShownRefunded "string option" "string option"

fun print_swap_outcome :: "env \<Rightarrow> swap_outcome \<Rightarrow> outcome_view" where
  "print_swap_outcome en (Completed preimage eth_tx lez_tx) =
     ShownCompleted (c_hex en preimage) (c_show32 en eth_tx) lez_tx"
| "print_swap_outcome en (OutcomeRefunded eth_tx lez_tx) = ShownRefunded (map_option (c_show32 en) eth_tx) lez_tx"

definition cmd_taker :: "cli_world \<Rightarrow> string option \<Rightarrow> swap_config \<Rightarrow> outcome_view rio" where
  "cmd_taker w preimage_arg cfg =
     tryM (create_clients (cw_signer_err w) (cw_env w) (cw_setup w) cfg) (\<lambda>(ec, lc).
     tryM (ret (case preimage_arg of
                  None \<Rightarrow> Ok (cw_drawn w)
                | Some s \<Rightarrow> cli_bytes32 (cw_parsers w) s ''preimage'')) (\<lambda>preimage.
     tryM (run_taker (cw_fuel w)
         \<lparr> tk_env = cw_env w, tk_setup = cw_setup w, tk_config = cfg, tk_eth = ec, tk_lez = lc,
           tk_progress = False \<rparr> preimage) (\<lambda>outcome.
       ret (Ok (print_swap_outcome (cw_env w) outcome)))))"

datatype refund_chain = RefundChainLez string | RefundChainEth string

datatype refund_tx = LezRefundTx string | EthRefundTx bytes32

definition cmd_refund :: "cli_world \<Rightarrow> refund_chain \<Rightarrow> swap_config \<Rightarrow> refund_tx rio" where
  "cmd_refund w chain cfg =
     (case chain of
        RefundChainLez h \<Rightarrow>
          tryM (ret (cli_bytes32 (cw_parsers w) h ''hashlock'')) (\<lambda>hashlock.
          tryM (create_clients (cw_signer_err w) (cw_env w) (cw_setup w) cfg) (\<lambda>(ec, lc).
          tryM (refund_lez (cw_env w) lc hashlock (lez_timelock cfg)) (\<lambda>tx. ret (Ok (LezRefundTx tx)))))
      | RefundChainEth s \<Rightarrow>
          tryM (ret (cli_bytes32 (cw_parsers w) s ''swap-id'')) (\<lambda>swap_id.
          tryM (create_clients (cw_signer_err w) (cw_env w) (cw_setup w) cfg) (\<lambda>(ec, lc).
          tryM (refund_eth (cw_env w) swap_id) (\<lambda>tx. ret (Ok (EthRefundTx tx))))))"

text \<open>What \<open>status\<close> prints of an escrow and of an HTLC.\<close>

record escrow_view =
  ev_state :: string
  ev_hashlock :: string
  ev_maker :: string
  ev_taker :: string
  ev_amount :: u128
  ev_preimage :: "string option"

fun escrow_state_str :: "htlc_state \<Rightarrow> string" where
  "escrow_state_str Locked = ''Locked''"
| "escrow_state_str Claimed = ''Claimed''"
| "escrow_state_str Refunded = ''Refunded''"

definition print_escrow :: "env \<Rightarrow> htlc_escrow \<Rightarrow> escrow_view" where
  "print_escrow en e =
     \<lparr> ev_state = escrow_state_str (esc_state e), ev_hashlock = c_hex en (esc_hashlock e),
       ev_maker = c_hex en (esc_maker_id e), ev_taker = c_hex en (esc_taker_id e), ev_amount = esc_amount e,
       ev_preimage = map_option (c_hex en) (esc_preimage e) \<rparr>"

record eth_htlc_view =
  hl_swap_id :: string
  hl_state :: string
  hl_sender :: address
  hl_recipient :: address
  hl_amount_wei :: string
  hl_hashlock :: string
  hl_timelock :: u64
  hl_remaining_secs :: u64

fun htlc_state_str :: "swap_state \<Rightarrow> string" where
  "htlc_state_str EMPTY = ''Empty''"
| "htlc_state_str OPEN = ''Open''"
| "htlc_state_str CLAIMED = ''Claimed''"
| "htlc_state_str REFUNDED = ''Refunded''"

definition print_htlc :: "env \<Rightarrow> eth_htlc \<Rightarrow> bytes32 \<Rightarrow> eth_htlc_view io" where
  "print_htlc en h swap_id =
     (let timelock_secs = saturating_to_u64 (htlc_timelock h) in do {
        now \<leftarrow> now_unix en;
        ret \<lparr> hl_swap_id = c_show32 en swap_id, hl_state = htlc_state_str (htlc_swapState h),
              hl_sender = htlc_sender h, hl_recipient = htlc_recipient h,
              hl_amount_wei = show_nat (unat (htlc_amount h)), hl_hashlock = c_show32 en (htlc_hashlock h),
              hl_timelock = timelock_secs, hl_remaining_secs = sat_sub timelock_secs now \<rparr> })"

datatype status_line =
    ShownEscrow escrow_view
  | EscrowNotFound string
  | ShownHtlc eth_htlc_view
  | HtlcNotFound string

definition status_lez :: "cli_world \<Rightarrow> lez_client \<Rightarrow> string \<Rightarrow> status_line rio" where
  "status_lez w lc h =
     tryM (ret (cli_bytes32 (cw_parsers w) h ''hashlock'')) (\<lambda>hashlock.
     tryM (get_escrow (cw_env w) lc hashlock) (\<lambda>escrow.
       ret (Ok (case escrow of
                  Some e \<Rightarrow> ShownEscrow (print_escrow (cw_env w) e)
                | None \<Rightarrow> EscrowNotFound (c_hex (cw_env w) hashlock)))))"

definition status_eth :: "cli_world \<Rightarrow> string \<Rightarrow> status_line rio" where
  "status_eth w s =
     tryM (ret (cli_bytes32 (cw_parsers w) s ''swap-id'')) (\<lambda>swap_id.
     tryM (get_htlc (cw_env w) swap_id) (\<lambda>h.
       if htlc_swapState h = EMPTY then ret (Ok (HtlcNotFound (c_show32 (cw_env w) swap_id)))
       else do { v \<leftarrow> print_htlc (cw_env w) h swap_id; ret (Ok (ShownHtlc v)) }))"

text \<open>What was printed of the escrow stays printed when the read of the HTLC fails.\<close>

definition cmd_status ::
  "cli_world \<Rightarrow> string option \<Rightarrow> string option \<Rightarrow> swap_config \<Rightarrow>
     (trace, status_line list \<times> (swap_error, unit) res) state" where
  "cmd_status w hashlock swap_id cfg =
     (if hashlock = None \<and> swap_id = None
      then ret ([], Err (InvalidConfig ''at least one of --hashlock or --swap-id is required''))
      else do {
        clients \<leftarrow> create_clients (cw_signer_err w) (cw_env w) (cw_setup w) cfg;
        (case clients of
           Ok (ec, lc) \<Rightarrow> do {
             l \<leftarrow> (case hashlock of
                      None \<Rightarrow> ret (Ok [])
                    | Some h \<Rightarrow> tryM (status_lez w lc h) (\<lambda>v. ret (Ok [v])));
             (case l of
                Ok shown \<Rightarrow> do {
                  r \<leftarrow> (case swap_id of
                          None \<Rightarrow> ret (Ok [])
                        | Some s \<Rightarrow> tryM (status_eth w s) (\<lambda>v. ret (Ok [v])));
                  ret (case r of
                         Ok rest \<Rightarrow> (shown @ rest, Ok ())
                       | Err e \<Rightarrow> (shown, Err e)
                       | Panic p \<Rightarrow> (shown, Panic p)
                       | Pending \<Rightarrow> (shown, Pending)) }
              | Err e \<Rightarrow> ret ([], Err e)
              | Panic p \<Rightarrow> ret ([], Panic p)
              | Pending \<Rightarrow> ret ([], Pending)) }
         | Err e \<Rightarrow> ret ([], Err e)
         | Panic p \<Rightarrow> ret ([], Panic p)
         | Pending \<Rightarrow> ret ([], Pending)) })"

section \<open>The run of the command line\<close>

datatype cli_command =
    CliMaker maker_args
  | CliTaker "string option"
  | CliRefund refund_chain
  | CliStatus "string option" "string option"

datatype cli_result =
    MakerEnded maker_result
  | TakerEnded outcome_view
  | RefundSubmitted refund_tx
  | StatusShown "status_line list"

text \<open>
  \<open>run\<close>, from the parsed arguments on: the maker also gets the minutes as they were given, to
  mint fresh time locks. The report and the demo commands are taken before this point.
\<close>

definition cli_loop :: "cli_world \<Rightarrow> swap_config \<Rightarrow> maker_loop" where
  "cli_loop w cfg = \<lparr> ml_env = cw_env w, ml_setup = cw_setup w, ml_signer_err = cw_signer_err w,
     ml_base_config = cfg, ml_auto_config = \<lparr> aa_lez_timelock_minutes = 0, aa_eth_timelock_minutes = 0 \<rparr>,
     ml_progress = False, ml_margin_secs = 0 \<rparr>"

definition cli_run ::
  "maker_host \<Rightarrow> (string \<Rightarrow> bytes32 option) \<Rightarrow> cli_world \<Rightarrow> config_args \<Rightarrow> cli_command \<Rightarrow> cli_result rio" where
  "cli_run mh parse_swap_id w a command =
     tryM (into_swap_config (cw_parsers w) (cw_env w) a) (\<lambda>cfg.
       case command of
         CliMaker args \<Rightarrow>
           tryM (cmd_maker mh (ap_hex (cw_parsers w)) parse_swap_id args
                   (ca_lez_timelock_minutes a, ca_eth_timelock_minutes a) (cli_loop w cfg)) (\<lambda>r. ret (Ok (MakerEnded r)))
       | CliTaker preimage \<Rightarrow> tryM (cmd_taker w preimage cfg) (\<lambda>r. ret (Ok (TakerEnded r)))
       | CliRefund chain \<Rightarrow> tryM (cmd_refund w chain cfg) (\<lambda>r. ret (Ok (RefundSubmitted r)))
       | CliStatus h s \<Rightarrow> do {
           (shown, r) \<leftarrow> cmd_status w h s cfg;
           ret (res_bind r (\<lambda>_. Ok (StatusShown shown))) })"

section \<open>A manual refund waits anew\<close>

text \<open>Two reads of the clock, in this order, at least \<open>d\<close> seconds apart; the sum wraps as in the code.\<close>

definition clock_spans :: "u64 \<Rightarrow> trace \<Rightarrow> bool" where
  "clock_spans d hist \<longleftrightarrow> (\<exists>us t0 vs t1 ws. hist = us @ XNow t0 # vs @ XNow t1 # ws \<and> t0 + d \<le> t1)"

lemma clock_spans_later: "clock_spans d hist \<Longrightarrow> clock_spans d (hist @ e)"
  unfolding clock_spans_def by (metis append.assoc append_Cons)

definition sends_after_span :: "u64 \<Rightarrow> trace \<Rightarrow> trace \<Rightarrow> bool" where
  "sends_after_span d = each (\<lambda>hist x. is_send x \<longrightarrow> clock_spans d hist)"

lemma sends_after_none: "list_all (\<lambda>x. \<not> is_send x) e \<Longrightarrow> sends_after_span d us e"
  by (auto simp: sends_after_span_def each_iff)

lemma sends_after_open: "clock_spans d us \<Longrightarrow> sends_after_span d us e"
  by (auto simp: sends_after_span_def each_iff clock_spans_later)

lemma sends_after_append: "sends_after_span d us (xs @ ys) \<longleftrightarrow> sends_after_span d us xs \<and> sends_after_span d (us @ xs) ys"
  by (simp add: sends_after_span_def each_append)

lemma refund_lez_waits:
  "\<exists>e. snd (run_state (refund_lez en c h (t0 + d)) tr) = tr @ e \<and> sends_after_span d (us @ XNow t0 # vs) e"
proof (cases "a_now en tr < t0 + d")
  case True
  then show ?thesis
    by (intro exI [of _ "[XNow (a_now en tr)]"])
      (simp add: refund_lez_def run_simps check_lez_timelock_def sends_after_none)
next
  case False
  have "emits (\<lambda>_. True) (lez_refund en c h)" unfolding lez_refund_def by (intro emits_intros) simp_all
  then obtain e where "snd (run_state (lez_refund en c h) (tr @ [XNow (a_now en tr)])) = (tr @ [XNow (a_now en tr)]) @ e"
    unfolding emits_def by blast
  moreover have "clock_spans d ((us @ XNow t0 # vs) @ [XNow (a_now en tr)])"
    using False unfolding clock_spans_def
    by (intro exI [of _ us] exI [of _ t0] exI [of _ vs] exI [of _ "a_now en tr"] exI [of _ "[]"]) simp
  then have "sends_after_span d (us @ XNow t0 # vs) (XNow (a_now en tr) # e)"
    using sends_after_append [of d "us @ XNow t0 # vs" "[XNow (a_now en tr)]" e]
    by (simp add: sends_after_none sends_after_open)
  ultimately show ?thesis using False
    by (intro exI [of _ "XNow (a_now en tr) # e"]) (simp add: refund_lez_def run_simps check_lez_timelock_def)
qed

lemma emits_clients: "emits (\<lambda>x. \<not> is_send x) (create_clients se en su cfg)"
  unfolding create_clients_def by (intro emits_intros emits_eth_client_new) simp_all

lemma into_swap_config_run:
  "\<exists>e. snd (run_state (into_swap_config ap en a) tr) = tr @ e \<and> list_all (\<lambda>x. \<not> is_send x) e \<and>
     (\<forall>cfg. fst (run_state (into_swap_config ap en a) tr) = Ok cfg \<longrightarrow>
        (\<exists>t. e = [XNow t] \<and> lez_timelock cfg = t + minutes_or (ca_lez_timelock_minutes a) cli_lez_timelock_minutes * 60))"
  unfolding into_swap_config_def Let_def
  by (auto simp: run_simps split: res.splits prod.splits)

lemma cli_refund_waits:
  "\<exists>e. snd (run_state (cli_run mh parse_swap_id w a (CliRefund (RefundChainLez h))) tr) = tr @ e \<and>
     sends_after_span (minutes_or (ca_lez_timelock_minutes a) cli_lez_timelock_minutes * 60) [] e"
proof -
  let ?d = "minutes_or (ca_lez_timelock_minutes a) cli_lez_timelock_minutes * 60"
  let ?c = "cli_run mh parse_swap_id w a (CliRefund (RefundChainLez h))"
  obtain r tr1 where cfg: "run_state (into_swap_config (cw_parsers w) (cw_env w) a) tr = (r, tr1)" by fastforce
  from into_swap_config_run [of "cw_parsers w" "cw_env w" a tr] cfg obtain e1 where e1: "tr1 = tr @ e1"
    "list_all (\<lambda>x. \<not> is_send x) e1"
    "\<And>cfg. r = Ok cfg \<Longrightarrow> \<exists>t. e1 = [XNow t] \<and> lez_timelock cfg = t + ?d" by auto
  show ?thesis
  proof (cases r)
    case (Ok cfg)
    obtain t0 where t0: "e1 = [XNow t0]" "lez_timelock cfg = t0 + ?d" using e1(3) [OF Ok] by blast
    have "\<exists>e. snd (run_state (cmd_refund w (RefundChainLez h) cfg) tr1) = tr1 @ e \<and> sends_after_span ?d [XNow t0] e"
    proof (cases "cli_bytes32 (cw_parsers w) h ''hashlock''")
      case hashlock: (Ok hashlock)
      let ?cs = "create_clients (cw_signer_err w) (cw_env w) (cw_setup w) cfg"
      obtain cl tr2 where cl: "run_state ?cs tr1 = (cl, tr2)" by fastforce
      from emits_prefix [OF emits_clients cl] obtain e2 where e2: "tr2 = tr1 @ e2" "list_all (\<lambda>x. \<not> is_send x) e2" by blast
      show ?thesis
      proof (cases cl)
        case clients: (Ok p)
        obtain ec lc where p: "p = (ec, lc)" by (rule prod.exhaust)
        obtain r3 tr3 where r3: "run_state (refund_lez (cw_env w) lc hashlock (lez_timelock cfg)) tr2 = (r3, tr3)" by fastforce
        from refund_lez_waits [of "cw_env w" lc hashlock t0 ?d tr2 "[]" e2] r3 t0(2)
        obtain e3 where e3: "tr3 = tr2 @ e3" "sends_after_span ?d (XNow t0 # e2) e3" by auto
        have "snd (run_state (cmd_refund w (RefundChainLez h) cfg) tr1) = tr3"
          using hashlock cl clients p r3 by (simp add: cmd_refund_def run_simps split: res.split)
        then show ?thesis using e2 e3
          by (intro exI [of _ "e2 @ e3"]) (simp add: sends_after_append sends_after_none)
      qed (use hashlock cl e2 in \<open>auto simp: cmd_refund_def run_simps intro!: exI [of _ e2] sends_after_none\<close>)
    qed (auto simp: cmd_refund_def run_simps sends_after_none)
    then obtain e where e: "snd (run_state (cmd_refund w (RefundChainLez h) cfg) tr1) = tr1 @ e"
      "sends_after_span ?d [XNow t0] e" by blast
    have "snd (run_state ?c tr) = snd (run_state (cmd_refund w (RefundChainLez h) cfg) tr1)"
      using cfg Ok by (auto simp: cli_run_def run_simps split: res.split prod.split)
    then show ?thesis using e e1(1) t0(1) sends_after_append [of ?d "[]" e1 e] sends_after_none [OF e1(2), of ?d "[]"]
      by (intro exI [of _ "e1 @ e"]) simp
  qed (use cfg e1 in \<open>auto simp: cli_run_def run_simps intro!: exI [of _ e1] sends_after_none\<close>)
qed

end
