(* ===== verification/Swap_Ffi.thy ===== *)
theory Swap_Ffi
  imports Swap_Cli
begin

text \<open>
  The C interface that the graphical client calls (\<open>swap-ffi/src/lib.rs\<close>): its configuration in
  JSON, the swaps, refunds, balances and onboarding behind each export, and the maker's auto-accept
  loop with its recovery. The JSON codec, the env-file reader, the UTF-8 check and the printers of
  other crates are parameters; a reply is its fields. An export that blocks runs on a runtime of
  its own; the progress that its callback gets is returned beside its reply.
\<close>

section \<open>Strings and replies\<close>

text \<open>\<open>None\<close> is the null pointer; otherwise the bytes before the terminating zero.\<close>

type_synonym c_ptr = "bytes option"

datatype ffi_reply =
    FfiErr string
  | FfiCompleted string string string string
  | FfiRefunded "string option" "string option" string
  | FfiTx string
  | FfiBalances "string option" "string + string" "string option" "string + string"
  | FfiLoop u32 u32
  | FfiEthKey string string
  | FfiLezAccount string string
  | FfiInit init_outcome
  | FfiBalance string

record ffi_config =
  fc_eth_rpc_url :: string
  fc_eth_private_key :: string
  fc_eth_htlc_address :: string
  fc_lez_sequencer_url :: string
  fc_lez_signing_key :: "string option"
  fc_lez_wallet_home :: "string option"
  fc_lez_account_id :: "string option"
  fc_lez_htlc_program_id :: string
  fc_lez_amount :: string
  fc_eth_amount :: string
  fc_lez_timelock_minutes :: string
  fc_eth_timelock_minutes :: string
  fc_eth_recipient_address :: string
  fc_lez_taker_account_id :: "string option"
  fc_poll_interval_ms :: string

text \<open>
  What the library is linked with and where it runs: the codecs, the key of an ETH account to its
  address, the printers, the environment variables and the files of the loop by their paths.
\<close>

record ffi_host =
  fh_env :: env
  fh_setup :: lez_setup
  fh_parsers :: arg_parsers
  fh_eth_signer :: "string \<Rightarrow> string + address"
  fh_utf8 :: "bytes \<Rightarrow> string option"
  fh_config_json :: "string \<Rightarrow> string + ffi_config"
  fh_dotenv :: "string \<Rightarrow> string + (string + string \<times> string) list"
  fh_show_progress :: "swap_progress \<Rightarrow> string option"
  fh_show_funding :: "funding_progress \<Rightarrow> string option"
  fh_printers :: printers
  fh_parse_swap_id :: "string \<Rightarrow> bytes32 option"
  fh_var :: "string \<Rightarrow> string option"
  fh_state_codec :: state_codec
  fh_state_file :: "string \<Rightarrow> string + string option"
  fh_event_codec :: event_codec
  fh_ops_file :: "string \<Rightarrow> file_read"
  fh_release :: string
  fh_rounds :: nat
  fh_fuel :: nat

definition fh_signer_err :: "ffi_host \<Rightarrow> string \<Rightarrow> string option" where
  "fh_signer_err ff key = (case fh_eth_signer ff key of Inl e \<Rightarrow> Some e | Inr _ \<Rightarrow> None)"

text \<open>\<open>CString::new(s).unwrap_or_default()\<close>: a text with a zero in it becomes the empty one.\<close>

definition to_c_string :: "string \<Rightarrow> string" where
  "to_c_string s = (if CHR 0x00 \<in> set s then [] else s)"

definition c_str_to_str :: "ffi_host \<Rightarrow> c_ptr \<Rightarrow> string option" where
  "c_str_to_str ff p = (case p of None \<Rightarrow> None | Some b \<Rightarrow> fh_utf8 ff b)"

definition c_arg :: "ffi_host \<Rightarrow> string \<Rightarrow> c_ptr \<Rightarrow> (string, string) res" where
  "c_arg ff name p =
     (case c_str_to_str ff p of Some s \<Rightarrow> Ok s | None \<Rightarrow> Err (''null or invalid '' @ name))"

definition hex32_arg :: "ffi_host \<Rightarrow> string \<Rightarrow> string \<Rightarrow> (string, bytes32) res" where
  "hex32_arg ff name s =
     (case ap_hex (fh_parsers ff) (strip_0x s) of
        Inr b \<Rightarrow> if length b = 32 then Ok b else Err (name @ '' must be 32 bytes (64 hex chars)'')
      | Inl e \<Rightarrow> Err (''invalid '' @ name @ '' hex: '' @ e))"

definition parse_optional_bytes32 :: "ffi_host \<Rightarrow> c_ptr \<Rightarrow> string \<Rightarrow> (string, bytes32 option) res" where
  "parse_optional_bytes32 ff p name =
     (case c_str_to_str ff p of
        None \<Rightarrow> Ok None
      | Some s \<Rightarrow> if s = [] then Ok None else res_bind (hex32_arg ff name s) (\<lambda>b. Ok (Some b)))"

text \<open>The printed error of the orchestrator; \<open>json_err\<close> at the end of an export.\<close>

definition show_err :: "env \<Rightarrow> (swap_error, 'a) res \<Rightarrow> (string, 'a) res" where
  "show_err en r =
     (case r of Ok a \<Rightarrow> Ok a | Err e \<Rightarrow> Err (c_show_error en e) | Panic p \<Rightarrow> Panic p | Pending \<Rightarrow> Pending)"

definition as_text :: "env \<Rightarrow> 'a rio \<Rightarrow> 'a sio" where
  "as_text en m = do { r \<leftarrow> m; ret (show_err en r) }"

definition json_err :: "(string, ffi_reply) res \<Rightarrow> (string, ffi_reply) res" where
  "json_err r = (case r of Err e \<Rightarrow> Ok (FfiErr e) | _ \<Rightarrow> r)"

definition answer :: "ffi_reply sio \<Rightarrow> ffi_reply sio" where
  "answer m = do { r \<leftarrow> m; ret (json_err r) }"

section \<open>The env file\<close>

definition env_key_to_config_key :: "string \<Rightarrow> string option" where
  "env_key_to_config_key = map_of
     [(''ETH_RPC_URL'', ''eth_rpc_url''), (''ETH_PRIVATE_KEY'', ''eth_private_key''),
      (''ETH_HTLC_ADDRESS'', ''eth_htlc_address''), (''LEZ_SEQUENCER_URL'', ''lez_sequencer_url''),
      (''LEZ_SIGNING_KEY'', ''lez_signing_key''), (''LEZ_WALLET_HOME'', ''lez_wallet_home''),
      (''LEZ_ACCOUNT_ID'', ''lez_account_id''), (''LEZ_HTLC_PROGRAM_ID'', ''lez_htlc_program_id''),
      (''LEZ_AMOUNT'', ''lez_amount''), (''ETH_AMOUNT'', ''eth_amount''),
      (''LEZ_TIMELOCK_MINUTES'', ''lez_timelock_minutes''), (''ETH_TIMELOCK_MINUTES'', ''eth_timelock_minutes''),
      (''ETH_RECIPIENT_ADDRESS'', ''eth_recipient_address''), (''LEZ_TAKER_ACCOUNT_ID'', ''lez_taker_account_id''),
      (''POLL_INTERVAL_MS'', ''poll_interval_ms'')]"

fun env_items :: "string \<Rightarrow> (string + string \<times> string) list \<Rightarrow> (string \<rightharpoonup> string) \<Rightarrow> string + (string \<rightharpoonup> string)" where
  "env_items path [] config = Inr config"
| "env_items path (Inl e # items) config = Inl (''failed to parse env file '' @ path @ '': '' @ e)"
| "env_items path (Inr (key, value) # items) config =
     (case env_key_to_config_key key of
        Some config_key \<Rightarrow> env_items path items (config(config_key \<mapsto> value))
      | None \<Rightarrow> env_items path items config)"

definition default_entry :: "string \<Rightarrow> string \<Rightarrow> (string \<rightharpoonup> string) \<Rightarrow> (string \<rightharpoonup> string)" where
  "default_entry key value config = (if config key = None then config(key \<mapsto> value) else config)"

definition dotenv_config_json :: "ffi_host \<Rightarrow> string \<Rightarrow> string + (string \<rightharpoonup> string)" where
  "dotenv_config_json ff path =
     (case fh_dotenv ff path of
        Inl e \<Rightarrow> Inl (''failed to read env file '' @ path @ '': '' @ e)
      | Inr items \<Rightarrow>
          (case env_items path items (\<lambda>_. None) of
             Inl e \<Rightarrow> Inl e
           | Inr config \<Rightarrow> Inr (default_entry ''poll_interval_ms'' ''2000''
               (default_entry ''lez_timelock_minutes'' ''5'' (default_entry ''eth_timelock_minutes'' ''10'' config)))))"

definition swap_ffi_load_env :: "ffi_host \<Rightarrow> c_ptr \<Rightarrow> string + (string \<rightharpoonup> string)" where
  "swap_ffi_load_env ff path =
     (case path of
        None \<Rightarrow> dotenv_config_json ff ''.env''
      | Some b \<Rightarrow> (case fh_utf8 ff b of
                    Some s \<Rightarrow> dotenv_config_json ff s
                  | None \<Rightarrow> Inl ''invalid UTF-8 path''))"

section \<open>The configuration\<close>

definition num_u64 :: "string \<Rightarrow> string \<Rightarrow> (string, u64) res" where
  "num_u64 name s =
     (case parse_u64 s of Inr v \<Rightarrow> Ok v | Inl e \<Rightarrow> Err (''invalid '' @ name @ '': '' @ e))"

definition text_res :: "string \<Rightarrow> string + 'a \<Rightarrow> (string, 'a) res" where
  "text_res prefix r = (case r of Inr a \<Rightarrow> Ok a | Inl e \<Rightarrow> Err (prefix @ e))"

definition taker_account :: "ffi_host \<Rightarrow> string option \<Rightarrow> (string, account_id option) res" where
  "taker_account ff arg =
     (case map_option trim arg of
        None \<Rightarrow> Ok None
      | Some s \<Rightarrow>
          if s = [] then Ok None
          else show_err (fh_env ff) (res_bind (parse_base58_account_id (ap_base58 (fh_parsers ff)) s) (\<lambda>a. Ok (Some a))))"

definition swap_auth :: "ffi_host \<Rightarrow> ffi_config \<Rightarrow> (string, lez_auth) res" where
  "swap_auth ff c =
     (case (fc_lez_wallet_home c, fc_lez_account_id c) of
        (Some home, Some acc) \<Rightarrow>
          show_err (fh_env ff) (res_bind (parse_base58_account_id (ap_base58 (fh_parsers ff)) acc) (\<lambda>a. Ok (Wallet home a)))
      | _ \<Rightarrow> (case fc_lez_signing_key c of
                Some key \<Rightarrow> Ok (RawKey key)
              | None \<Rightarrow> Err ''lez_signing_key is required when lez_wallet_home is not set''))"

definition config_of :: "ffi_host \<Rightarrow> ffi_config \<Rightarrow> swap_config sio" where
  "config_of ff c =
     (let en = fh_env ff; ap = fh_parsers ff in
     tryM (ret (text_res ''invalid eth_htlc_address: '' (ap_address ap (fc_eth_htlc_address c)))) (\<lambda>htlc.
     tryM (ret (text_res ''invalid eth_recipient_address: '' (ap_address ap (fc_eth_recipient_address c)))) (\<lambda>recipient.
     tryM (ret (show_err en (parse_program_id (ap_hex ap) (fc_lez_htlc_program_id c)))) (\<lambda>program_id.
     tryM (ret (taker_account ff (fc_lez_taker_account_id c))) (\<lambda>taker.
     tryM (ret (text_res ''invalid lez_amount: '' (parse_u128 (fc_lez_amount c)))) (\<lambda>lez.
     tryM (ret (text_res [] (eth_to_wei (fc_eth_amount c)))) (\<lambda>wei.
     tryM (ret (num_u64 ''lez_timelock_minutes'' (fc_lez_timelock_minutes c))) (\<lambda>lez_minutes.
     tryM (ret (num_u64 ''eth_timelock_minutes'' (fc_eth_timelock_minutes c))) (\<lambda>eth_minutes.
     tryM (ret (num_u64 ''poll_interval_ms'' (fc_poll_interval_ms c))) (\<lambda>poll. do {
       now \<leftarrow> now_unix en;
       tryM (ret (swap_auth ff c)) (\<lambda>auth.
         ret (Ok \<lparr> eth_rpc_url = fc_eth_rpc_url c, eth_private_key = fc_eth_private_key c,
                   eth_htlc_address = htlc, lez_sequencer_url = fc_lez_sequencer_url c,
                   lez_sequencer_url_explicit = (fc_lez_sequencer_url c \<noteq> []), lez_auth_mode = auth,
                   lez_htlc_program_id = program_id, lez_amount = lez, eth_amount = wei,
                   lez_timelock = now + lez_minutes * 60, eth_timelock = now + eth_minutes * 60,
                   eth_recipient_address = recipient, lez_taker_account_id = taker,
                   poll_interval = unat poll \<rparr>)) }))))))))))"

definition config_json :: "ffi_host \<Rightarrow> string \<Rightarrow> (string, ffi_config) res" where
  "config_json ff json = text_res ''bad config JSON: '' (fh_config_json ff json)"

definition parse_config :: "ffi_host \<Rightarrow> string \<Rightarrow> swap_config sio" where
  "parse_config ff json = tryM (ret (config_json ff json)) (config_of ff)"

text \<open>The configuration of a balance read: per chain, if that chain is set up.\<close>

record balance_config =
  bc_eth :: "swap_config option"
  bc_lez :: "swap_config option"

definition filled :: "string option \<Rightarrow> bool" where
  "filled arg \<longleftrightarrow> (case arg of Some s \<Rightarrow> trim s \<noteq> [] | None \<Rightarrow> False)"

definition has_wallet :: "ffi_config \<Rightarrow> bool" where
  "has_wallet c \<longleftrightarrow> filled (fc_lez_wallet_home c) \<and> filled (fc_lez_account_id c)"

definition eth_ready :: "ffi_config \<Rightarrow> bool" where
  "eth_ready c \<longleftrightarrow> trim (fc_eth_rpc_url c) \<noteq> [] \<and> trim (fc_eth_private_key c) \<noteq> [] \<and> trim (fc_eth_htlc_address c) \<noteq> []"

definition lez_ready :: "ffi_config \<Rightarrow> bool" where
  "lez_ready c \<longleftrightarrow> trim (fc_lez_sequencer_url c) \<noteq> [] \<and> (has_wallet c \<or> filled (fc_lez_signing_key c))"

definition text_or :: "string option \<Rightarrow> string" where
  "text_or arg = (case arg of Some s \<Rightarrow> s | None \<Rightarrow> [])"

definition balance_auth :: "ffi_host \<Rightarrow> ffi_config \<Rightarrow> (string, lez_auth) res" where
  "balance_auth ff c =
     (if has_wallet c then
        show_err (fh_env ff) (res_bind (parse_base58_account_id (ap_base58 (fh_parsers ff)) (text_or (fc_lez_account_id c)))
          (\<lambda>a. Ok (Wallet (text_or (fc_lez_wallet_home c)) a)))
      else Ok (RawKey (text_or (fc_lez_signing_key c))))"

definition balance_config_of :: "ffi_host \<Rightarrow> ffi_config \<Rightarrow> balance_config sio" where
  "balance_config_of ff c =
     (let en = fh_env ff; ap = fh_parsers ff in
      if \<not> eth_ready c \<and> \<not> lez_ready c then ret (Err ''no chain is set up for a balance read yet'')
      else
        tryM (ret (if eth_ready c then text_res ''invalid eth_htlc_address: '' (ap_address ap (fc_eth_htlc_address c)) else Ok 0)) (\<lambda>htlc.
        tryM (ret (show_err en (parse_program_id (ap_hex ap)
               (if trim (fc_lez_htlc_program_id c) = [] then replicate 64 (CHR ''0'') else fc_lez_htlc_program_id c)))) (\<lambda>program_id.
        tryM (ret (balance_auth ff c)) (\<lambda>auth. do {
          now \<leftarrow> now_unix en;
          (let base = \<lparr> eth_rpc_url = fc_eth_rpc_url c, eth_private_key = fc_eth_private_key c,
                        eth_htlc_address = htlc, lez_sequencer_url = fc_lez_sequencer_url c,
                        lez_sequencer_url_explicit = (fc_lez_sequencer_url c \<noteq> []), lez_auth_mode = auth,
                        lez_htlc_program_id = program_id, lez_amount = 0, eth_amount = 0,
                        lez_timelock = now, eth_timelock = now, eth_recipient_address = 0,
                        lez_taker_account_id = None, poll_interval = 2000 \<rparr> in
           ret (Ok \<lparr> bc_eth = (if eth_ready c then Some base else None),
                     bc_lez = (if lez_ready c then Some base else None) \<rparr>)) }))))"

definition parse_balance_config :: "ffi_host \<Rightarrow> string \<Rightarrow> balance_config sio" where
  "parse_balance_config ff json = tryM (ret (config_json ff json)) (balance_config_of ff)"

section \<open>Progress for the callback\<close>

text \<open>
  A call with a callback spawns a forwarder and awaits it before it returns: the callback gets
  every progress event of the run, in order, that has a text without a zero in it.
\<close>

definition c_text :: "string option \<Rightarrow> string option" where
  "c_text t = (case t of Some s \<Rightarrow> if CHR 0x00 \<in> set s then None else Some s | None \<Rightarrow> None)"

fun progress_text :: "ffi_host \<Rightarrow> interaction \<Rightarrow> string option" where
  "progress_text ff (XProgress p) = c_text (fh_show_progress ff p)"
| "progress_text ff _ = None"

fun funding_text :: "ffi_host \<Rightarrow> interaction \<Rightarrow> string option" where
  "funding_text ff (XFunding p) = c_text (fh_show_funding ff p)"
| "funding_text ff _ = None"

definition with_forwarder :: "(interaction \<Rightarrow> string option) \<Rightarrow> bool \<Rightarrow> 'a io \<Rightarrow> ('a \<times> string list) io" where
  "with_forwarder text cb m = State (\<lambda>tr. let (a, tr') = run_state m tr in
     ((a, if cb then List.map_filter text (drop (length tr) tr') else []), tr'))"

definition answer_cb :: "(ffi_reply \<times> string list) sio \<Rightarrow> (ffi_reply \<times> string list) sio" where
  "answer_cb m = do { r \<leftarrow> m; ret (case r of Err e \<Rightarrow> Ok (FfiErr e, []) | _ \<Rightarrow> r) }"

section \<open>Swaps\<close>

fun outcome_to_json :: "env \<Rightarrow> swap_outcome \<Rightarrow> bytes32 \<Rightarrow> ffi_reply" where
  "outcome_to_json en (Completed preimage eth_tx lez_tx) hashlock =
     FfiCompleted (c_hex en preimage) (c_show32 en eth_tx) lez_tx (c_hex en hashlock)"
| "outcome_to_json en (OutcomeRefunded eth_tx lez_tx) hashlock =
     FfiRefunded (map_option (c_show32 en) eth_tx) lez_tx (c_hex en hashlock)"

fun outcome_hashlock :: "env \<Rightarrow> bytes32 \<Rightarrow> swap_outcome \<Rightarrow> bytes32" where
  "outcome_hashlock en fallback (Completed preimage eth_tx lez_tx) = c_sha256 en preimage"
| "outcome_hashlock en fallback (OutcomeRefunded eth_tx lez_tx) = fallback"

definition swap_reply ::
  "env \<Rightarrow> bytes32 \<Rightarrow> (swap_error, swap_outcome) res \<times> string list \<Rightarrow> (string, ffi_reply \<times> string list) res" where
  "swap_reply en fallback re =
     (case fst re of
        Ok outcome \<Rightarrow> Ok (outcome_to_json en outcome (outcome_hashlock en fallback outcome), snd re)
      | Err e \<Rightarrow> Ok (FfiErr (c_show_error en e), snd re)
      | Panic p \<Rightarrow> Panic p
      | Pending \<Rightarrow> Pending)"

definition ffi_clients :: "ffi_host \<Rightarrow> swap_config \<Rightarrow> (eth_client \<times> lez_client) sio" where
  "ffi_clients ff cfg = as_text (fh_env ff) (create_clients (fh_signer_err ff) (fh_env ff) (fh_setup ff) cfg)"

definition swap_ffi_run_maker :: "ffi_host \<Rightarrow> c_ptr \<Rightarrow> c_ptr \<Rightarrow> bool \<Rightarrow> (ffi_reply \<times> string list) sio" where
  "swap_ffi_run_maker ff config hashlock_hex cb =
     answer_cb (tryM (ret (c_arg ff ''config_json'' config)) (\<lambda>json.
       tryM (parse_config ff json) (\<lambda>cfg.
       tryM (ret (parse_optional_bytes32 ff hashlock_hex ''hashlock'')) (\<lambda>hashlock.
       tryM (ffi_clients ff cfg) (\<lambda>(ec, lc). do {
         re \<leftarrow> with_forwarder (progress_text ff) cb (run_maker (fh_fuel ff)
           \<lparr> mr_env = fh_env ff, mr_setup = fh_setup ff, mr_signer_err = fh_signer_err ff, mr_config = cfg,
             mr_eth = ec, mr_lez = lc, mr_progress = cb, mr_guards = None \<rparr> hashlock False);
         ret (swap_reply (fh_env ff) (case hashlock of Some h \<Rightarrow> h | None \<Rightarrow> zero32) re) })))))"

text \<open>\<open>drawn\<close> is the preimage that the taker draws when it is given none.\<close>

definition swap_ffi_run_taker :: "ffi_host \<Rightarrow> bytes32 \<Rightarrow> c_ptr \<Rightarrow> c_ptr \<Rightarrow> bool \<Rightarrow> (ffi_reply \<times> string list) sio" where
  "swap_ffi_run_taker ff drawn config preimage_hex cb =
     answer_cb (tryM (ret (c_arg ff ''config_json'' config)) (\<lambda>json.
       tryM (parse_config ff json) (\<lambda>cfg.
       tryM (ret (parse_optional_bytes32 ff preimage_hex ''preimage'')) (\<lambda>override_preimage.
       tryM (ffi_clients ff cfg) (\<lambda>(ec, lc). do {
         re \<leftarrow> with_forwarder (progress_text ff) cb (run_taker (fh_fuel ff)
           \<lparr> tk_env = fh_env ff, tk_setup = fh_setup ff, tk_config = cfg, tk_eth = ec, tk_lez = lc,
             tk_progress = cb \<rparr> (case override_preimage of Some p \<Rightarrow> p | None \<Rightarrow> drawn));
         ret (swap_reply (fh_env ff) zero32 re) })))))"

section \<open>Refunds\<close>

definition swap_ffi_refund_lez :: "ffi_host \<Rightarrow> c_ptr \<Rightarrow> c_ptr \<Rightarrow> ffi_reply sio" where
  "swap_ffi_refund_lez ff config hashlock_hex =
     answer (tryM (ret (c_arg ff ''config_json'' config)) (\<lambda>json.
       tryM (ret (c_arg ff ''hashlock_hex'' hashlock_hex)) (\<lambda>hashlock_str.
       tryM (parse_config ff json) (\<lambda>cfg.
       tryM (ret (hex32_arg ff ''hashlock'' hashlock_str)) (\<lambda>hashlock.
       tryM (ret (show_err (fh_env ff) (lez_client_new (fh_setup ff) cfg))) (\<lambda>lc.
       tryM (as_text (fh_env ff) (refund_lez (fh_env ff) lc hashlock (lez_timelock cfg))) (\<lambda>tx.
         ret (Ok (FfiTx tx)))))))))"

definition swap_ffi_refund_eth :: "ffi_host \<Rightarrow> c_ptr \<Rightarrow> c_ptr \<Rightarrow> ffi_reply sio" where
  "swap_ffi_refund_eth ff config swap_id_hex =
     answer (tryM (ret (c_arg ff ''config_json'' config)) (\<lambda>json.
       tryM (ret (c_arg ff ''swap_id_hex'' swap_id_hex)) (\<lambda>swap_id_str.
       tryM (parse_config ff json) (\<lambda>cfg.
       tryM (ret (hex32_arg ff ''swap_id'' swap_id_str)) (\<lambda>swap_id.
       tryM (as_text (fh_env ff) (eth_client_new (fh_signer_err ff) (fh_env ff) cfg)) (\<lambda>ec.
       tryM (as_text (fh_env ff) (refund_eth (fh_env ff) swap_id)) (\<lambda>tx.
         ret (Ok (FfiTx (c_show32 (fh_env ff) tx))))))))))"

section \<open>Balances\<close>

text \<open>
  The two reads run at once and do not look at each other's answers; here the ETH one is first.
\<close>

definition eth_balance :: "ffi_host \<Rightarrow> swap_config option \<Rightarrow> u256 sio" where
  "eth_balance ff cfg_opt =
     (case cfg_opt of
        None \<Rightarrow> ret (Err ''Ethereum key not set up yet'')
      | Some cfg \<Rightarrow>
          tryM (ret (text_res ''invalid ETH private key: '' (fh_eth_signer ff (eth_private_key cfg)))) (\<lambda>addr.
          tryM (as_text (fh_env ff) (eth_client_new (fh_signer_err ff) (fh_env ff) cfg)) (\<lambda>ec. do {
            r \<leftarrow> ext (XEthBalance addr) (\<lambda>tr. a_eth_balance (fh_env ff) tr addr);
            ret (text_res [] r) })))"

definition lez_balance_of :: "ffi_host \<Rightarrow> (swap_error, lez_client) res option \<Rightarrow> u128 sio" where
  "lez_balance_of ff client =
     (case client of
        None \<Rightarrow> ret (Err ''LEZ account not set up yet'')
      | Some r \<Rightarrow> tryM (ret (show_err (fh_env ff) r)) (\<lambda>lc. as_text (fh_env ff) (get_balance (fh_env ff) (lc_account_id lc))))"

definition side :: "('a \<Rightarrow> string) \<Rightarrow> (string, 'a) res \<Rightarrow> (string, string + string) res" where
  "side show_it r =
     (case r of Ok a \<Rightarrow> Ok (Inr (show_it a)) | Err e \<Rightarrow> Ok (Inl e) | Panic p \<Rightarrow> Panic p | Pending \<Rightarrow> Pending)"

definition eth_account :: "ffi_host \<Rightarrow> swap_config option \<Rightarrow> string option" where
  "eth_account ff cfg_opt =
     (case cfg_opt of
        Some cfg \<Rightarrow> (case fh_eth_signer ff (eth_private_key cfg) of
                       Inr a \<Rightarrow> Some (p_address (fh_printers ff) a) | Inl e \<Rightarrow> None)
      | None \<Rightarrow> None)"

definition swap_ffi_fetch_balances :: "ffi_host \<Rightarrow> c_ptr \<Rightarrow> ffi_reply sio" where
  "swap_ffi_fetch_balances ff config =
     answer (tryM (ret (c_arg ff ''config_json'' config)) (\<lambda>json.
       tryM (parse_balance_config ff json) (\<lambda>bc.
         (let client = map_option (lez_client_new (fh_setup ff)) (bc_lez bc) in do {
            eth \<leftarrow> eth_balance ff (bc_eth bc);
            lez \<leftarrow> lez_balance_of ff client;
            ret (res_bind (side (\<lambda>b. show_nat (unat b)) eth) (\<lambda>e.
              res_bind (side (\<lambda>b. show_nat (unat b)) lez) (\<lambda>l.
                Ok (FfiBalances (eth_account ff (bc_eth bc)) e
                  (case client of
                     Some (Ok lc) \<Rightarrow> Some (account_id_to_base58 (p_base58 (fh_printers ff)) (lc_account_id lc))
                   | _ \<Rightarrow> None) l)))) }))))"

section \<open>The maker's auto-accept loop\<close>

definition resolve_maker_state_file :: "string option \<Rightarrow> lez_auth \<Rightarrow> string + string" where
  "resolve_maker_state_file env_state_file auth =
     (if filled env_state_file then Inr (text_or env_state_file)
      else (case auth of
              Wallet home acc \<Rightarrow> Inr (path_join home ''.maker-state.json'')
            | RawKey key \<Rightarrow> Inl ''maker loop requires a stable crash-recovery journal location''))"

definition margin_minutes_of :: "ffi_host \<Rightarrow> (string, u64) res" where
  "margin_minutes_of ff =
     (case fh_var ff ''TIMELOCK_MARGIN_MINUTES'' of
        Some v \<Rightarrow> text_res ''invalid TIMELOCK_MARGIN_MINUTES: '' (parse_u64 (trim v))
      | None \<Rightarrow> Ok 5)"

definition ffi_loop :: "ffi_host \<Rightarrow> swap_config \<Rightarrow> u64 \<Rightarrow> u64 \<Rightarrow> u64 \<Rightarrow> bool \<Rightarrow> maker_loop" where
  "ffi_loop ff cfg lez_minutes eth_minutes margin cb =
     \<lparr> ml_env = fh_env ff, ml_setup = fh_setup ff, ml_signer_err = fh_signer_err ff, ml_base_config = cfg,
       ml_auto_config = \<lparr> aa_lez_timelock_minutes = lez_minutes, aa_eth_timelock_minutes = eth_minutes \<rparr>,
       ml_progress = cb, ml_margin_secs = margin * 60 \<rparr>"

text \<open>The recovery: \<open>Ok True\<close> when entries of the journal stay unresolved.\<close>

definition recover_first :: "ffi_host \<Rightarrow> maker_loop \<Rightarrow> state_store \<Rightarrow> bool rio" where
  "recover_first ff l store =
     tryM (reconcile (fh_fuel ff) (reconcile_run_of l (ap_hex (fh_parsers ff)) (fh_parse_swap_id ff)) store)
       (\<lambda>resume_handles. do {
          each_task (\<lambda>i. TaskSpawned (TkResume i)) 0 (length resume_handles);
          each_task (\<lambda>i. TaskJoined (TkResume i)) 0 (length resume_handles);
          busy \<leftarrow> ext XBusy (a_busy (ml_env l));
          ret (Ok busy) })"

definition run_ui_loop :: "ffi_host \<Rightarrow> maker_loop \<Rightarrow> string \<Rightarrow> bool \<Rightarrow> (ffi_reply \<times> string list) sio" where
  "run_ui_loop ff l state_file cb =
     (let en = fh_env ff in
      tryM (ret (show_err en (store_load (fh_state_codec ff) (fh_state_file ff state_file)))) (\<lambda>store.
      tryM (ret (show_err en (ledger_load (fh_event_codec ff) (fh_release ff)
              (fh_ops_file ff (default_ledger_file state_file))))) (\<lambda>ops_ledger.
      tryM (as_text en (recover_first ff l store)) (\<lambda>unresolved.
        if unresolved then ret (Err ''in-flight swaps still unresolved after reconciliation; not starting the maker loop'')
        else do {
          (r, events) \<leftarrow> with_forwarder (progress_text ff) cb (run_maker_loop (fh_rounds ff) (fh_fuel ff) l);
          ret (res_bind (show_err en r) (\<lambda>k. Ok (FfiLoop (total_completed k) (total_failed k), events))) }))))"

definition swap_ffi_run_maker_loop :: "ffi_host \<Rightarrow> c_ptr \<Rightarrow> bool \<Rightarrow> (ffi_reply \<times> string list) sio" where
  "swap_ffi_run_maker_loop ff config cb = do {
     call XClearCancel;
     answer_cb (tryM (ret (c_arg ff ''config_json'' config)) (\<lambda>json.
       tryM (ret (config_json ff json)) (\<lambda>c.
       tryM (ret (num_u64 ''lez_timelock_minutes'' (fc_lez_timelock_minutes c))) (\<lambda>lez_minutes.
       tryM (ret (num_u64 ''eth_timelock_minutes'' (fc_eth_timelock_minutes c))) (\<lambda>eth_minutes.
       tryM (parse_config ff json) (\<lambda>cfg.
       tryM (ret (margin_minutes_of ff)) (\<lambda>margin.
       tryM (ret (show_err (fh_env ff) (validate_timelocks lez_minutes eth_minutes margin))) (\<lambda>_.
       tryM (ret (text_res [] (resolve_maker_state_file (fh_var ff ''MAKER_STATE_FILE'') (lez_auth_mode cfg)))) (\<lambda>state_file.
         run_ui_loop ff (ffi_loop ff cfg lez_minutes eth_minutes margin cb) state_file cb))))))))) }"

definition swap_ffi_stop_maker_loop :: "unit io" where
  "swap_ffi_stop_maker_loop = call XSetCancel"

section \<open>Keys, accounts and funding\<close>

definition lez_htlc_program_id_hex :: string where
  "lez_htlc_program_id_hex = ''9eb88f51aae87a58fb74b8d2dc7327b39333585e63280e3f9cf8d86dac0ed702''"

definition swap_ffi_default_lez_htlc_program_id :: string where
  "swap_ffi_default_lez_htlc_program_id = to_c_string lez_htlc_program_id_hex"

text \<open>The random signer is its key bytes and its address.\<close>

definition swap_ffi_generate_eth_key :: "ffi_host \<Rightarrow> bytes \<times> address \<Rightarrow> ffi_reply" where
  "swap_ffi_generate_eth_key ff signer =
     FfiEthKey (''0x'' @ c_hex (fh_env ff) (fst signer)) (p_address (fh_printers ff) (snd signer))"

definition swap_ffi_generate_lez_account :: "ffi_host \<Rightarrow> (nat \<Rightarrow> string + bytes) \<Rightarrow> (string, ffi_reply) res" where
  "swap_ffi_generate_lez_account ff random =
     json_err (res_bind (generate_signer (fh_setup ff) random) (\<lambda>sg.
       Ok (FfiLezAccount (c_hex (fh_env ff) (sg_signing_key sg))
             (account_id_to_base58 (p_base58 (fh_printers ff)) (sg_account_id sg)))))"

definition onboarding :: "ffi_host \<Rightarrow> string \<Rightarrow> string \<Rightarrow> (string, signer) res" where
  "onboarding ff sequencer_url key =
     res_bind (signer_from_raw_key (fh_setup ff) key) (\<lambda>sg.
       res_bind (sequencer_client (fh_setup ff) sequencer_url) (\<lambda>_. Ok sg))"

definition swap_ffi_lez_ensure_initialized :: "ffi_host \<Rightarrow> c_ptr \<Rightarrow> c_ptr \<Rightarrow> ffi_reply sio" where
  "swap_ffi_lez_ensure_initialized ff url key =
     answer (tryM (ret (c_arg ff ''sequencer_url'' url)) (\<lambda>sequencer_url.
       tryM (ret (c_arg ff ''signing_key_hex'' key)) (\<lambda>signing_key_hex.
       tryM (ret (onboarding ff sequencer_url signing_key_hex)) (\<lambda>sg.
       tryM (ensure_initialized (fh_fuel ff) (fh_env ff) (sg_account_id sg)) (\<lambda>outcome.
         ret (Ok (FfiInit outcome)))))))"

definition swap_ffi_lez_claim_to_target ::
  "ffi_host \<Rightarrow> c_ptr \<Rightarrow> c_ptr \<Rightarrow> c_ptr \<Rightarrow> bool \<Rightarrow> (ffi_reply \<times> string list) sio" where
  "swap_ffi_lez_claim_to_target ff url key target_lez cb =
     answer_cb (tryM (ret (c_arg ff ''sequencer_url'' url)) (\<lambda>sequencer_url.
       tryM (ret (c_arg ff ''signing_key_hex'' key)) (\<lambda>signing_key_hex.
       tryM (ret (c_arg ff ''target_lez'' target_lez)) (\<lambda>target_str.
       tryM (ret (text_res ''invalid target_lez: '' (parse_u128 (trim target_str)))) (\<lambda>target.
       tryM (ret (onboarding ff sequencer_url signing_key_hex)) (\<lambda>sg. do {
         (r, events) \<leftarrow> with_forwarder (funding_text ff) cb
           (claim_to_target (fh_rounds ff) (fh_fuel ff) (fh_env ff) (sg_account_id sg) target cb);
         ret (case r of
                Ok balance \<Rightarrow> Ok (FfiBalance (show_nat (unat balance)), events)
              | Err e \<Rightarrow> Ok (FfiErr e, events)
              | Panic p \<Rightarrow> Panic p
              | Pending \<Rightarrow> Pending) }))))))"

section \<open>Configurations\<close>

text \<open>
  The time locks that the env-file reader fills in are refused by the maker's loop, whatever the
  margin is set to.
\<close>

lemma env_items_keeps:
  assumes "\<And>k v. Inr (k, v) \<in> set items \<Longrightarrow> env_key_to_config_key k \<noteq> Some key" "env_items path items config = Inr config'"
  shows "config' key = config key"
  using assms
proof (induction path items config rule: env_items.induct)
  case (3 path k v items config)
  have others: "env_key_to_config_key k' \<noteq> Some key" if "Inr (k', v') \<in> set items" for k' v'
    using 3(3) [of k' v'] that by simp
  show ?case
  proof (cases "env_key_to_config_key k")
    case None
    show ?thesis by (rule 3(1) [OF None others]) (use 3(4) None in auto)
  next
    case (Some ck)
    then have "ck \<noteq> key" using 3(3) [of k v] by auto
    have "config' key = (config(ck \<mapsto> v)) key" by (rule 3(2) [OF Some others]) (use 3(4) Some in \<open>simp_all add: fun_upd_def\<close>)
    then show ?thesis using \<open>ck \<noteq> key\<close> by simp
  qed
qed auto

lemma env_defaults_refused:
  assumes "fh_dotenv ff path = Inr items" "dotenv_config_json ff path = Inr config"
    and "\<And>k v. Inr (k, v) \<in> set items \<Longrightarrow> k \<notin> {''LEZ_TIMELOCK_MINUTES'', ''ETH_TIMELOCK_MINUTES''}"
  shows "config ''lez_timelock_minutes'' = Some ''5'' \<and> config ''eth_timelock_minutes'' = Some ''10'' \<and>
    num_u64 name ''5'' = Ok 5 \<and> num_u64 name ''10'' = Ok 10 \<and> validate_timelocks 5 10 margin \<noteq> Ok ()"
proof -
  obtain config0 where c: "env_items path items (\<lambda>_. None) = Inr config0"
    and config: "config = default_entry ''poll_interval_ms'' ''2000''
      (default_entry ''lez_timelock_minutes'' ''5'' (default_entry ''eth_timelock_minutes'' ''10'' config0))"
    using assms(1,2) by (auto simp: dotenv_config_json_def split: sum.splits)
  have "config0 key = None" if "key \<in> {''lez_timelock_minutes'', ''eth_timelock_minutes''}" for key
  proof -
    have "env_key_to_config_key k \<noteq> Some key" if "k \<notin> {''LEZ_TIMELOCK_MINUTES'', ''ETH_TIMELOCK_MINUTES''}" for k
      using that \<open>key \<in> _\<close> by (auto simp: env_key_to_config_key_def split: if_splits)
    then show ?thesis using env_items_keeps [OF _ c, of key] assms(3) by simp
  qed
  then have "config ''lez_timelock_minutes'' = Some ''5'' \<and> config ''eth_timelock_minutes'' = Some ''10''"
    by (simp add: config default_entry_def)
  moreover have "num_u64 name ''5'' = Ok 5" "num_u64 name ''10'' = Ok 10"
    by (simp_all add: num_u64_def parse_u64_def digit_val_def)
  moreover have "validate_timelocks 5 10 margin \<noteq> Ok ()"
  proof
    assume "validate_timelocks 5 10 margin = Ok ()"
    then have "5 \<le> unat margin" "unat (sat_add (sat_add 5 margin) timelock_transit_slack_minutes) \<le> 10"
      by (auto simp: validate_timelocks_def Let_def word_less_nat_alt word_le_nat_alt not_less split: if_splits)
    then show False by (simp add: unat_sat_add timelock_transit_slack_minutes_def)
  qed
  ultimately show ?thesis by blast
qed

text \<open>
  A balance read is of the accounts that a swap of the same configuration signs with, unless a
  wallet field is given and blank.
\<close>

lemma swap_auth_balance_auth:
  assumes "swap_auth ff c = Ok auth" "balance_auth ff c = Ok auth'"
    and "fc_lez_wallet_home c \<noteq> None \<longrightarrow> filled (fc_lez_wallet_home c)"
    and "fc_lez_account_id c \<noteq> None \<longrightarrow> filled (fc_lez_account_id c)"
  shows "auth' = auth"
  using assms
  by (auto simp: swap_auth_def balance_auth_def has_wallet_def text_or_def filled_def show_err_def res_bind_Ok_iff
      split: option.splits res.splits)

lemma lez_client_same_account:
  assumes "lez_auth_mode cfg' = lez_auth_mode cfg" "lez_sequencer_url cfg' = lez_sequencer_url cfg"
    and "lez_sequencer_url_explicit cfg' = lez_sequencer_url_explicit cfg"
  shows "res_bind (lez_client_new su cfg') (\<lambda>lc. Ok (lc_account_id lc)) =
    res_bind (lez_client_new su cfg) (\<lambda>lc. Ok (lc_account_id lc))"
  using assms
  by (cases "su_wallet_core su (case lez_auth_mode cfg of Wallet home acc \<Rightarrow> home | RawKey k \<Rightarrow> [])")
    (auto simp: lez_client_new_def from_raw_key_def from_wallet_def make_client_def
      split: lez_auth.splits sum.splits option.splits)

lemma balances_of_swap_accounts:
  assumes "run_state (config_of ff c) tr = (Ok cfg, tr')" "run_state (balance_config_of ff c) ts = (Ok bc, ts')"
    and "fc_lez_wallet_home c \<noteq> None \<longrightarrow> filled (fc_lez_wallet_home c)"
    and "fc_lez_account_id c \<noteq> None \<longrightarrow> filled (fc_lez_account_id c)"
  shows "(\<forall>ec. bc_eth bc = Some ec \<longrightarrow> eth_rpc_url ec = eth_rpc_url cfg \<and> eth_htlc_address ec = eth_htlc_address cfg \<and>
       eth_account ff (Some ec) = eth_account ff (Some cfg)) \<and>
    (\<forall>lc. bc_lez bc = Some lc \<longrightarrow> res_bind (lez_client_new su lc) (\<lambda>x. Ok (lc_account_id x)) =
       res_bind (lez_client_new su cfg) (\<lambda>x. Ok (lc_account_id x)))"
proof -
  obtain auth where auth: "swap_auth ff c = Ok auth" "lez_auth_mode cfg = auth"
    "lez_sequencer_url cfg = fc_lez_sequencer_url c" "lez_sequencer_url_explicit cfg = (fc_lez_sequencer_url c \<noteq> [])"
    "eth_rpc_url cfg = fc_eth_rpc_url c" "eth_private_key cfg = fc_eth_private_key c"
    "text_res ''invalid eth_htlc_address: '' (ap_address (fh_parsers ff) (fc_eth_htlc_address c)) = Ok (eth_htlc_address cfg)"
    using assms(1) unfolding config_of_def Let_def by (auto simp: run_simps split: res.splits)
  obtain auth' base where auth': "balance_auth ff c = Ok auth'" "lez_auth_mode base = auth'"
    "lez_sequencer_url base = fc_lez_sequencer_url c" "lez_sequencer_url_explicit base = (fc_lez_sequencer_url c \<noteq> [])"
    "eth_rpc_url base = fc_eth_rpc_url c" "eth_private_key base = fc_eth_private_key c"
    and bc: "bc_eth bc = (if eth_ready c then Some base else None)" "bc_lez bc = (if lez_ready c then Some base else None)"
    and htlc: "eth_ready c \<longrightarrow>
      text_res ''invalid eth_htlc_address: '' (ap_address (fh_parsers ff) (fc_eth_htlc_address c)) = Ok (eth_htlc_address base)"
    using assms(2) unfolding balance_config_of_def Let_def
    by (force simp: run_simps split: res.splits if_splits)
  have "auth' = auth" by (rule swap_auth_balance_auth [OF auth(1) auth'(1) assms(3,4)])
  then show ?thesis
    using auth(2-) auth'(2-) bc htlc lez_client_same_account [of base cfg su]
    by (auto simp: eth_account_def split: if_splits)
qed

section \<open>Refunds by hand\<close>

lemma config_of_run:
  "\<exists>e. snd (run_state (config_of ff c) tr) = tr @ e \<and> (e = [] \<or> (\<exists>t. e = [XNow t])) \<and>
     (\<forall>cfg. fst (run_state (config_of ff c) tr) = Ok cfg \<longrightarrow>
        (\<exists>t m. e = [XNow t] \<and> num_u64 ''lez_timelock_minutes'' (fc_lez_timelock_minutes c) = Ok m \<and>
           lez_timelock cfg = t + m * 60 \<and> swap_auth ff c = Ok (lez_auth_mode cfg)))"
  unfolding config_of_def Let_def
  by (auto simp: run_simps split: res.splits)

lemma parse_config_run:
  "\<exists>e. snd (run_state (parse_config ff json) tr) = tr @ e \<and> (e = [] \<or> (\<exists>t. e = [XNow t])) \<and>
     (\<forall>cfg. fst (run_state (parse_config ff json) tr) = Ok cfg \<longrightarrow>
        (\<exists>c t m. config_json ff json = Ok c \<and> e = [XNow t] \<and>
           num_u64 ''lez_timelock_minutes'' (fc_lez_timelock_minutes c) = Ok m \<and>
           lez_timelock cfg = t + m * 60 \<and> swap_auth ff c = Ok (lez_auth_mode cfg)))"
proof (cases "config_json ff json")
  case (Ok c)
  then show ?thesis using config_of_run [of ff c tr] by (simp add: parse_config_def run_simps)
qed (simp_all add: parse_config_def run_simps)

text \<open>The minutes that a configuration text gives for the LEZ time lock, zero when it gives none.\<close>

definition lez_minutes_of :: "ffi_host \<Rightarrow> c_ptr \<Rightarrow> u64" where
  "lez_minutes_of ff config =
     (case res_bind (res_bind (c_arg ff ''config_json'' config) (config_json ff))
             (\<lambda>c. num_u64 ''lez_timelock_minutes'' (fc_lez_timelock_minutes c)) of
        Ok m \<Rightarrow> m | _ \<Rightarrow> 0)"

lemma run_answer: "run_state (answer m) tr = (json_err (fst (run_state m tr)), snd (run_state m tr))"
  by (simp add: answer_def split_beta)

lemma run_as_text: "run_state (as_text en m) tr = (show_err en (fst (run_state m tr)), snd (run_state m tr))"
  by (simp add: as_text_def split_beta)

lemma ffi_refund_waits:
  "\<exists>e. snd (run_state (swap_ffi_refund_lez ff config hashlock_hex) tr) = tr @ e \<and>
     sends_after_span (lez_minutes_of ff config * 60) [] e"
proof -
  let ?d = "lez_minutes_of ff config * 60"
  show ?thesis
  proof (cases "c_arg ff ''config_json'' config")
    case json: (Ok json)
    show ?thesis
    proof (cases "c_arg ff ''hashlock_hex'' hashlock_hex")
      case h: (Ok hashlock_str)
      obtain r tr1 where p: "run_state (parse_config ff json) tr = (r, tr1)" by fastforce
      obtain e1 where e1: "tr1 = tr @ e1" "e1 = [] \<or> (\<exists>t. e1 = [XNow t])"
        "\<And>cfg. r = Ok cfg \<Longrightarrow> \<exists>c t m. config_json ff json = Ok c \<and> e1 = [XNow t] \<and>
           num_u64 ''lez_timelock_minutes'' (fc_lez_timelock_minutes c) = Ok m \<and> lez_timelock cfg = t + m * 60 \<and>
           swap_auth ff c = Ok (lez_auth_mode cfg)"
        using parse_config_run [of ff json tr] unfolding p fst_conv snd_conv by blast
      have quiet: "sends_after_span ?d [] e1" using e1(2) by (auto intro: sends_after_none)
      show ?thesis
      proof (cases r)
        case (Ok cfg)
        obtain t where t: "e1 = [XNow t]" "lez_timelock cfg = t + ?d"
          using e1(3) [OF Ok] json by (auto simp: lez_minutes_of_def)
        show ?thesis
        proof (cases "\<exists>b lc. hex32_arg ff ''hashlock'' hashlock_str = Ok b \<and> lez_client_new (fh_setup ff) cfg = Ok lc")
          case True
          then obtain b lc where b: "hex32_arg ff ''hashlock'' hashlock_str = Ok b" "lez_client_new (fh_setup ff) cfg = Ok lc" by blast
          obtain e2 where e2: "snd (run_state (refund_lez (fh_env ff) lc b (t + ?d)) tr1) = tr1 @ e2"
            "sends_after_span ?d [XNow t] e2" using refund_lez_waits [of "fh_env ff" lc b t ?d tr1 "[]" "[]"] by auto
          have "snd (run_state (swap_ffi_refund_lez ff config hashlock_hex) tr) =
              snd (run_state (refund_lez (fh_env ff) lc b (lez_timelock cfg)) tr1)"
            using json h p Ok b
            by (auto simp: swap_ffi_refund_lez_def run_answer run_as_text run_simps show_err_def split: res.split prod.split)
          then show ?thesis using e1(1) e2 t quiet sends_after_append [of ?d "[]" e1 e2]
            by (intro exI [of _ "e1 @ e2"]) simp
        next
          case False
          then have "snd (run_state (swap_ffi_refund_lez ff config hashlock_hex) tr) = tr1"
            using json h p Ok
            by (auto simp: swap_ffi_refund_lez_def run_answer run_as_text run_simps show_err_def split: res.split)
          then show ?thesis using e1(1) quiet by blast
        qed
      qed (use json h p e1(1) quiet in \<open>auto simp: swap_ffi_refund_lez_def run_answer run_simps\<close>)
    qed (use json in \<open>auto simp: swap_ffi_refund_lez_def run_answer run_simps sends_after_none\<close>)
  qed (auto simp: swap_ffi_refund_lez_def run_answer run_simps sends_after_none)
qed

text \<open>
  C6. A refund of LEZ by hand waits anew. Neither \<open>refund lez\<close> of the command line nor the client's
  refund button submits anything before its own call has lasted as long as the whole LEZ time lock
  is configured to last: the time lock it checks is not the one of the escrow, it is computed when
  the call starts. With a positive time lock and a call that ends at once, nothing is refunded,
  however long the escrow has expired.
\<close>

theorem manual_refund_waits_anew:
  "(\<exists>e. snd (run_state (cli_run mh parse_swap_id w a (CliRefund (RefundChainLez h))) tr) = tr @ e \<and>
      sends_after_span (minutes_or (ca_lez_timelock_minutes a) cli_lez_timelock_minutes * 60) [] e) \<and>
   (\<exists>e. snd (run_state (swap_ffi_refund_lez ff config hashlock_hex) tr) = tr @ e \<and>
      sends_after_span (lez_minutes_of ff config * 60) [] e)"
  by (intro conjI cli_refund_waits ffi_refund_waits)

section \<open>The client's loop serves only after recovery\<close>

text \<open>Every resumed swap has been awaited, and then the journal holds no unfinished swap.\<close>

definition recovered :: "trace \<Rightarrow> bool" where
  "recovered hist \<longleftrightarrow> (\<exists>us vs. hist = us @ XBusy False # vs \<and>
     (\<forall>i. XTask (TaskSpawned (TkResume i)) \<in> set us \<longrightarrow> XTask (TaskJoined (TkResume i)) \<in> set us))"

lemma recovered_later: "recovered us \<Longrightarrow> recovered (us @ e)"
  unfolding recovered_def by (metis append.assoc append_Cons)

lemma gated_tryM_run:
  fixes m :: "(trace, ('e, 'a) res) state"
  assumes "\<And>tr. \<exists>e. snd (run_state m tr) = tr @ e \<and> list_all calm e \<and> (\<forall>a. fst (run_state m tr) = Ok a \<longrightarrow> Q a)"
    and "\<And>a e. Q a \<Longrightarrow> list_all calm e \<Longrightarrow> gated G (us @ e) (f a)"
  shows "gated G us (tryM m f)"
  unfolding tryM_def
proof (rule gated_bind [where Q = "\<lambda>r e. list_all calm e \<and> (\<forall>a. r = Ok a \<longrightarrow> Q a)"])
  fix tr
  obtain e where "snd (run_state m tr) = tr @ e" "list_all calm e" "\<forall>a. fst (run_state m tr) = Ok a \<longrightarrow> Q a"
    using assms(1) by blast
  then show "\<exists>e. snd (run_state m tr) = tr @ e \<and> list_all (\<lambda>x. \<not> serves x) e \<and> list_all calm e \<and>
      (\<forall>a. fst (run_state m tr) = Ok a \<longrightarrow> Q a)"
    using calm_closed by (intro exI [of _ e]) simp
next
  fix r :: "('e, 'a) res" and e assume "list_all calm e \<and> (\<forall>a. r = Ok a \<longrightarrow> Q a)"
  then show "gated G (us @ e) (case r of Ok a \<Rightarrow> f a | Err e \<Rightarrow> ret (Err e) | Panic p \<Rightarrow> ret (Panic p) | Pending \<Rightarrow> ret Pending)"
    using assms(2) by (auto intro: gated_ret split: res.split)
qed

lemma gated_same_trace: "(\<And>tr. snd (run_state m' tr) = snd (run_state m tr)) \<Longrightarrow> gated G us m \<Longrightarrow> gated G us m'"
  by (simp add: gated_def)

lemma gated_answer_cb: "gated G us m \<Longrightarrow> gated G us (answer_cb m)"
  by (erule gated_same_trace [rotated]) (simp add: answer_cb_def split_beta)

lemma recover_first_run:
  assumes "list_all calm us"
  shows "\<exists>e. snd (run_state (recover_first ff l store) tr) = tr @ e \<and> list_all (\<lambda>x. \<not> serves x) e \<and>
     (fst (run_state (recover_first ff l store) tr) = Ok False \<longrightarrow> recovered (us @ e))"
proof -
  let ?rc = "reconcile (fh_fuel ff) (reconcile_run_of l (ap_hex (fh_parsers ff)) (fh_parse_swap_id ff)) store"
  let ?spawn = "\<lambda>n. map (\<lambda>j. XTask (TaskSpawned (TkResume j))) [0..<n]"
  let ?join = "\<lambda>n. map (\<lambda>j. XTask (TaskJoined (TkResume j))) [0..<n]"
  obtain r tr1 where rc: "run_state ?rc tr = (r, tr1)" by fastforce
  from emits_prefix [OF calm_reconcile rc] obtain e1 where e1: "tr1 = tr @ e1" "list_all calm e1" by blast
  have closed: "list_all (\<lambda>x. \<not> serves x) e1" using calm_closed [OF e1(2)] by blast
  show ?thesis
  proof (cases r)
    case (Ok handles)
    let ?n = "length handles"
    obtain b where b: "run_state (recover_first ff l store) tr = (Ok b, tr1 @ ?spawn ?n @ ?join ?n @ [XBusy b])"
      using rc Ok run_busy [of ?n "ml_env l" "\<lambda>busy. ret (Ok busy)" tr1]
      by (auto simp: recover_first_def run_simps)
    have "XTask (TaskSpawned t) \<notin> set (us @ e1)" for t
      using assms e1(2) unfolding list_all_iff calm_def by auto
    then have "recovered (us @ e1 @ ?spawn ?n @ ?join ?n @ [XBusy False])"
      unfolding recovered_def by (intro exI [of _ "us @ e1 @ ?spawn ?n @ ?join ?n"] exI [of _ "[]"]) auto
    then show ?thesis using b e1(1) closed
      by (intro exI [of _ "e1 @ ?spawn ?n @ ?join ?n @ [XBusy b]"]) (auto simp: list_all_iff)
  qed (use rc e1(1) closed in \<open>auto simp: recover_first_def run_simps\<close>)
qed

lemma loop_appends: "emits (\<lambda>_. True) (run_maker_loop n fuel l)"
proof -
  have "emits (\<lambda>_. True) (maker_iterations fuel n l k)" for k
    using maker_iterations_halts unfolding emits_def by (metis list.pred_True prod.collapse)
  then show ?thesis unfolding run_maker_loop_def by (intro emits_intros) simp_all
qed

lemma gated_ui_loop:
  assumes "list_all calm us"
    and "\<And>store. store_load (fh_state_codec ff) (fh_state_file ff state_file) = Ok store \<Longrightarrow> C"
  shows "gated (\<lambda>hist. C \<and> recovered hist) us (run_ui_loop ff l state_file cb)"
  unfolding run_ui_loop_def Let_def
proof (intro gated_tryM_ret)
  let ?G = "\<lambda>hist. C \<and> recovered hist"
  fix store ops_ledger
  assume "show_err (fh_env ff) (store_load (fh_state_codec ff) (fh_state_file ff state_file)) = Ok store"
  then have C using assms(2) by (auto simp: show_err_def split: res.splits)
  let ?serve = "do {
      (r, events) \<leftarrow> with_forwarder (progress_text ff) cb (run_maker_loop (fh_rounds ff) (fh_fuel ff) l);
      ret (res_bind (show_err (fh_env ff) r) (\<lambda>k. Ok (FfiLoop (total_completed k) (total_failed k), events))) }"
  have serve: "gated ?G (us @ e) ?serve" if "recovered (us @ e)" for e
  proof (rule gated_same_trace [OF _ gated_open [OF loop_appends]])
    show "snd (run_state ?serve tr) = snd (run_state (run_maker_loop (fh_rounds ff) (fh_fuel ff) l) tr)" for tr
      by (simp add: with_forwarder_def split_beta)
    show "C \<and> recovered ((us @ e) @ e')" for e' using \<open>C\<close> recovered_later [OF that] by blast
  qed
  have m: "\<exists>e. snd (run_state (as_text (fh_env ff) (recover_first ff l store)) tr) = tr @ e \<and> list_all (\<lambda>x. \<not> serves x) e \<and>
      (fst (run_state (as_text (fh_env ff) (recover_first ff l store)) tr) = Ok False \<longrightarrow> recovered (us @ e))" for tr
    using recover_first_run [OF assms(1), of ff l store tr] by (auto simp: run_as_text show_err_def split: res.splits)
  show "gated ?G us (tryM (as_text (fh_env ff) (recover_first ff l store)) (\<lambda>unresolved.
      if unresolved then ret (Err ''in-flight swaps still unresolved after reconciliation; not starting the maker loop'')
      else ?serve))"
    unfolding tryM_def
    by (rule gated_bind [where Q = "\<lambda>r e. r = Ok False \<longrightarrow> recovered (us @ e)", OF m])
      (auto intro: gated_ret serve split: res.split)
qed

text \<open>
  The places that a journal may have: the file that the operator named, or \<open>.maker-state.json\<close> in the
  home of the wallet that signs. There is no default for a raw key. So the place depends on the
  working directory only if the name or the home that was configured does.
\<close>

definition absolute :: "string \<Rightarrow> bool" where
  "absolute path \<longleftrightarrow> (case path of [] \<Rightarrow> False | a # _ \<Rightarrow> a = CHR ''/'')"

definition named_file :: "string option \<Rightarrow> string option" where
  "named_file var = (case var of Some v \<Rightarrow> if trim v \<noteq> [] then Some v else None | None \<Rightarrow> None)"

definition journal_place :: "string option \<Rightarrow> lez_auth \<Rightarrow> string \<Rightarrow> bool" where
  "journal_place var auth path \<longleftrightarrow>
     (\<exists>base. (named_file var = Some base \<and> path = base \<or>
             named_file var = None \<and> (\<exists>acc. auth = Wallet base acc) \<and> path = path_join base ''.maker-state.json'') \<and>
            (absolute base \<longrightarrow> absolute path))"

lemma absolute_join: "absolute dir \<Longrightarrow> absolute (path_join dir name)"
  by (cases dir) (simp_all add: absolute_def path_join_def)

lemma resolved_place: "resolve_maker_state_file var auth = Inr path \<Longrightarrow> journal_place var auth path"
  unfolding resolve_maker_state_file_def journal_place_def named_file_def filled_def text_or_def
  by (auto intro: absolute_join split: option.splits if_splits lez_auth.splits)

text \<open>What must hold before the client's loop takes on a swap, locks LEZ or reports progress.\<close>

definition ui_may_serve :: "ffi_host \<Rightarrow> c_ptr \<Rightarrow> trace \<Rightarrow> interaction \<Rightarrow> bool" where
  "ui_may_serve ff config hist x \<longleftrightarrow> (serves x \<longrightarrow>
     (\<exists>json c lez_minutes eth_minutes margin auth state_file store.
        c_arg ff ''config_json'' config = Ok json \<and> config_json ff json = Ok c \<and>
        num_u64 ''lez_timelock_minutes'' (fc_lez_timelock_minutes c) = Ok lez_minutes \<and>
        num_u64 ''eth_timelock_minutes'' (fc_eth_timelock_minutes c) = Ok eth_minutes \<and>
        margin_minutes_of ff = Ok margin \<and> validate_timelocks lez_minutes eth_minutes margin = Ok () \<and>
        swap_auth ff c = Ok auth \<and>
        journal_place (fh_var ff ''MAKER_STATE_FILE'') auth state_file \<and>
        store_load (fh_state_codec ff) (fh_state_file ff state_file) = Ok store) \<and>
     recovered hist)"

text \<open>
  C7. The client's maker serves only after recovery. Before a run of its auto-accept loop takes on
  a swap, locks LEZ or reports any progress: the time locks of its configuration are validated with
  the margin; its journal is the file that the operator named or the one in the home of the
  wallet that signs, an absolute path whenever that name or home is absolute, and was read from
  there, so that with a raw key and no name nothing is served; every resumed swap has been awaited;
  and the journal has then answered that no swap is unfinished.
\<close>

theorem ui_loop_serves_after_recovery:
  "\<exists>e. snd (run_state (swap_ffi_run_maker_loop ff config cb) tr) = tr @ e \<and> each (ui_may_serve ff config) [] e"
proof -
  let ?C = "\<exists>json c lez_minutes eth_minutes margin auth state_file store.
        c_arg ff ''config_json'' config = Ok json \<and> config_json ff json = Ok c \<and>
        num_u64 ''lez_timelock_minutes'' (fc_lez_timelock_minutes c) = Ok lez_minutes \<and>
        num_u64 ''eth_timelock_minutes'' (fc_eth_timelock_minutes c) = Ok eth_minutes \<and>
        margin_minutes_of ff = Ok margin \<and> validate_timelocks lez_minutes eth_minutes margin = Ok () \<and>
        swap_auth ff c = Ok auth \<and>
        journal_place (fh_var ff ''MAKER_STATE_FILE'') auth state_file \<and>
        store_load (fh_state_codec ff) (fh_state_file ff state_file) = Ok store"
  let ?G = "\<lambda>hist. ?C \<and> recovered hist"
  have parsed: "\<exists>e. snd (run_state (parse_config ff json) tr) = tr @ e \<and> list_all calm e \<and>
      (\<forall>cfg. fst (run_state (parse_config ff json) tr) = Ok cfg \<longrightarrow>
         (\<exists>c. config_json ff json = Ok c \<and> swap_auth ff c = Ok (lez_auth_mode cfg)))" for json tr
    using parse_config_run [of ff json tr] by fastforce
  have "gated ?G [] (swap_ffi_run_maker_loop ff config cb)"
    unfolding swap_ffi_run_maker_loop_def
  proof (rule gated_then)
    show "emits calm (call XClearCancel)" unfolding call_def by (intro emits_intros) (simp add: calm_def)
    fix u :: unit and e assume e: "list_all calm e"
    show "gated ?G ([] @ e) (answer_cb (tryM (ret (c_arg ff ''config_json'' config)) (\<lambda>json.
       tryM (ret (config_json ff json)) (\<lambda>c.
       tryM (ret (num_u64 ''lez_timelock_minutes'' (fc_lez_timelock_minutes c))) (\<lambda>lez_minutes.
       tryM (ret (num_u64 ''eth_timelock_minutes'' (fc_eth_timelock_minutes c))) (\<lambda>eth_minutes.
       tryM (parse_config ff json) (\<lambda>cfg.
       tryM (ret (margin_minutes_of ff)) (\<lambda>margin.
       tryM (ret (show_err (fh_env ff) (validate_timelocks lez_minutes eth_minutes margin))) (\<lambda>_.
       tryM (ret (text_res [] (resolve_maker_state_file (fh_var ff ''MAKER_STATE_FILE'') (lez_auth_mode cfg)))) (\<lambda>state_file.
         run_ui_loop ff (ffi_loop ff cfg lez_minutes eth_minutes margin cb) state_file cb))))))))))"
    proof (intro gated_answer_cb gated_tryM_ret gated_tryM_run [OF parsed])
      fix json c lez_minutes eth_minutes and cfg :: swap_config and e2 margin and v :: unit and state_file
      assume a: "c_arg ff ''config_json'' config = Ok json" "config_json ff json = Ok c"
        "num_u64 ''lez_timelock_minutes'' (fc_lez_timelock_minutes c) = Ok lez_minutes"
        "num_u64 ''eth_timelock_minutes'' (fc_eth_timelock_minutes c) = Ok eth_minutes"
        "\<exists>c. config_json ff json = Ok c \<and> swap_auth ff c = Ok (lez_auth_mode cfg)" "list_all calm e2"
        "margin_minutes_of ff = Ok margin"
        "show_err (fh_env ff) (validate_timelocks lez_minutes eth_minutes margin) = Ok v"
        "text_res [] (resolve_maker_state_file (fh_var ff ''MAKER_STATE_FILE'') (lez_auth_mode cfg)) = Ok state_file"
      have "validate_timelocks lez_minutes eth_minutes margin = Ok ()"
        using a(8) by (auto simp: show_err_def split: res.splits)
      moreover have "journal_place (fh_var ff ''MAKER_STATE_FILE'') (lez_auth_mode cfg) state_file"
        using a(9) by (intro resolved_place) (auto simp: text_res_def split: sum.splits)
      moreover have "swap_auth ff c = Ok (lez_auth_mode cfg)" using a(2,5) by simp
      ultimately have "?C" if "store_load (fh_state_codec ff) (fh_state_file ff state_file) = Ok store" for store
        using a(1-4,7) that by blast
      then show "gated ?G (([] @ e) @ e2) (run_ui_loop ff (ffi_loop ff cfg lez_minutes eth_minutes margin cb) state_file cb)"
        using e a(6) by (intro gated_ui_loop) auto
    qed
  qed
  moreover have "ui_may_serve ff config = (\<lambda>hist x. serves x \<longrightarrow> ?G hist)" by (intro ext) (simp add: ui_may_serve_def)
  ultimately show ?thesis unfolding gated_def by simp
qed

end
