(* ===== verification/Chain_Probe.thy ===== *)
theory Chain_Probe
  imports Bot_Reconcile
begin

text \<open>
  The chain probe of the canary (\<open>canary/chain-probe/src/main.rs\<close>): it submits well-formed transfers
  as controls and one malformed transfer, and tells from what the sequencer answers whether it
  rejects the malformed one, drops it silently, executes it, or whether nothing can be said. What
  it asks of the sequencer is recorded in a trace of its own. A verdict ends the process and is
  here the error of a run; the texts of the evidence are shortened. A failed \<open>expect\<close> is a panic.
\<close>

section \<open>Events and the environment\<close>

datatype tx_instr = TypedTransfer u128 | BareAmount u128 | InitAccount | VaultClaim u128

text \<open>The error of an RPC call: an answer of the server with its code, or anything else.\<close>

datatype client_error = CallError int string | OtherClientError string

datatype probe_event =
    PHealth "string + unit"
  | PProgramIds "string + (string \<times> program_id) list"
  | PNonces account_id "string + u128 list"
  | PSend program_id "account_id list" tx_instr "client_error + string"
  | PGetTx string "string + bool"
  | PBalance account_id "string + u128"
  | PSleep nat

type_synonym probe_trace = "probe_event list"

record probe_env =
  pe_health :: "probe_trace \<Rightarrow> string + unit"
  pe_program_ids :: "probe_trace \<Rightarrow> string + (string \<times> program_id) list"
  pe_nonces :: "probe_trace \<Rightarrow> account_id \<Rightarrow> string + u128 list"
  pe_send :: "probe_trace \<Rightarrow> program_id \<Rightarrow> account_id list \<Rightarrow> tx_instr \<Rightarrow> client_error + string"
  pe_get_tx :: "probe_trace \<Rightarrow> string \<Rightarrow> string + bool"
  pe_balance :: "probe_trace \<Rightarrow> account_id \<Rightarrow> string + u128"
  pe_at_program :: program_id
  pe_vault_program :: program_id
  pe_vault_account :: "account_id \<Rightarrow> account_id"
  pe_message_err :: "program_id \<Rightarrow> account_id list \<Rightarrow> tx_instr \<Rightarrow> string option"
  pe_url_error :: "string \<Rightarrow> string option"
  pe_build_error :: "string \<Rightarrow> string option"
  pe_account :: "bytes \<Rightarrow> account_id option"

datatype probe_status = Pass | Red | Fail | Broken

fun exit_code :: "probe_status \<Rightarrow> int" where
  "exit_code Pass = 0"
| "exit_code Red = 10"
| "exit_code Broken = 30"
| "exit_code Fail = 20"

type_synonym 'a pio = "(probe_trace, (probe_status \<times> string, 'a) res) state"

definition ask_probe :: "('a \<Rightarrow> probe_event) \<Rightarrow> (probe_trace \<Rightarrow> 'a) \<Rightarrow> (probe_trace, 'a) state" where
  "ask_probe mk answer = State (\<lambda>tr. (answer tr, tr @ [mk (answer tr)]))"

definition verdict_of :: "probe_status \<Rightarrow> string \<Rightarrow> 'a pio" where
  "verdict_of st evidence = ret (Err (st, evidence))"

definition wait_probe :: "nat \<Rightarrow> (probe_trace, unit) state" where
  "wait_probe ms = ask_probe (\<lambda>_. PSleep ms) (\<lambda>_. ())"

section \<open>Classifications\<close>

definition jsonrpc_invalid_params :: int where "jsonrpc_invalid_params = - 32602"

datatype reject_kind = ValidationReject | InfraReject

fun classify_reject :: "client_error \<Rightarrow> reject_kind" where
  "classify_reject (CallError code m) = (if code = jsonrpc_invalid_params then ValidationReject else InfraReject)"
| "classify_reject (OtherClientError m) = InfraReject"

datatype balance_poll = Reached | BelowThreshold | Unobservable

definition reached :: "balance_poll \<Rightarrow> bool" where "reached p \<longleftrightarrow> p = Reached"

datatype malformed_verdict =
  NotIncluded | BalanceUnobservable | Executed | SilentNoOp | SilentDropPreInclusion

definition classify_malformed :: "bool \<Rightarrow> bool \<Rightarrow> bool \<Rightarrow> bool \<Rightarrow> balance_poll \<Rightarrow> malformed_verdict" where
  "classify_malformed funded bad_included control_included post_control_included bad_poll =
     (if funded \<and> bad_poll = Reached then Executed
      else if funded \<and> bad_poll = Unobservable then BalanceUnobservable
      else if bad_included then SilentNoOp
      else if control_included \<and> post_control_included then SilentDropPreInclusion
      else NotIncluded)"

section \<open>Arguments\<close>

record probe_args =
  pa_rpc :: string
  pa_key :: "bytes option"
  pa_key2 :: "bytes option"
  pa_amount :: u128
  pa_funded :: bool
  pa_account_only :: bool

definition parse_hex32 :: "string \<Rightarrow> (probe_status \<times> string, bytes) res" where
  "parse_hex32 s =
     (case of_hex (trim_0x s) of
        Inl e \<Rightarrow> Panic ''key must be hex''
      | Inr b \<Rightarrow> if length b = 32 then Ok b else Panic ''key must be 32 bytes'')"

definition probe_amount :: "string \<Rightarrow> (probe_status \<times> string, u128) res" where
  "probe_amount s = (case parse_u128 s of Inr v \<Rightarrow> Ok v | Inl e \<Rightarrow> Panic e)"

fun probe_arg_list :: "string list \<Rightarrow> probe_args \<Rightarrow> (probe_status \<times> string, probe_args) res" where
  "probe_arg_list [] a = Ok a"
| "probe_arg_list [x] a =
     (if x = ''account'' then Ok (a\<lparr>pa_account_only := True\<rparr>)
      else if x = ''--funded'' then Ok (a\<lparr>pa_funded := True\<rparr>)
      else if x \<in> {''--rpc'', ''--key'', ''--key2'', ''--amount''} then Panic (x @ '' needs a value'')
      else Ok a)"
| "probe_arg_list (x # v # rest) a =
     (if x = ''account'' then probe_arg_list (v # rest) (a\<lparr>pa_account_only := True\<rparr>)
      else if x = ''--funded'' then probe_arg_list (v # rest) (a\<lparr>pa_funded := True\<rparr>)
      else if x = ''--rpc'' then probe_arg_list rest (a\<lparr>pa_rpc := v\<rparr>)
      else if x = ''--key'' then res_bind (parse_hex32 v) (\<lambda>k. probe_arg_list rest (a\<lparr>pa_key := Some k\<rparr>))
      else if x = ''--key2'' then res_bind (parse_hex32 v) (\<lambda>k. probe_arg_list rest (a\<lparr>pa_key2 := Some k\<rparr>))
      else if x = ''--amount'' then res_bind (probe_amount v) (\<lambda>n. probe_arg_list rest (a\<lparr>pa_amount := n\<rparr>))
      else probe_arg_list (v # rest) a)"

definition env_key :: "string option \<Rightarrow> (probe_status \<times> string, bytes option) res" where
  "env_key var = (case var of None \<Rightarrow> Ok None | Some k \<Rightarrow> res_bind (parse_hex32 k) (\<lambda>b. Ok (Some b)))"

definition parse_args :: "(string \<Rightarrow> string option) \<Rightarrow> string list \<Rightarrow> (probe_status \<times> string, probe_args) res" where
  "parse_args var argv =
     res_bind (env_key (var ''CANARY_LEZ_KEY'')) (\<lambda>key.
     res_bind (env_key (var ''CANARY_LEZ_KEY2'')) (\<lambda>key2.
       probe_arg_list argv
         \<lparr> pa_rpc = (case var ''CANARY_LEZ_RPC'' of Some u \<Rightarrow> u | None \<Rightarrow> ''http://127.0.0.1:3040''),
           pa_key = key, pa_key2 = key2, pa_amount = 5, pa_funded = False, pa_account_only = False \<rparr>))"

definition keypair :: "probe_env \<Rightarrow> bytes \<Rightarrow> (probe_status \<times> string, account_id) res" where
  "keypair pe b = (case pe_account pe b of Some acc \<Rightarrow> Ok acc | None \<Rightarrow> Panic ''valid 32-byte private key'')"

section \<open>Requests\<close>

definition nonces_for :: "probe_env \<Rightarrow> account_id \<Rightarrow> u128 list pio" where
  "nonces_for pe acc = do {
     r \<leftarrow> ask_probe (PNonces acc) (\<lambda>tr. pe_nonces pe tr acc);
     ret (case r of Inr ns \<Rightarrow> Ok ns | Inl e \<Rightarrow> Panic ''get_accounts_nonces'') }"

definition send_probe :: "probe_env \<Rightarrow> program_id \<Rightarrow> account_id list \<Rightarrow> tx_instr \<Rightarrow> (probe_trace, client_error + string) state" where
  "send_probe pe pid accs i = ask_probe (PSend pid accs i) (\<lambda>tr. pe_send pe tr pid accs i)"

text \<open>A signed transfer by the transfer program: nonces, message, submission.\<close>

definition submit_transfer :: "probe_env \<Rightarrow> account_id \<Rightarrow> account_id \<Rightarrow> tx_instr \<Rightarrow> (client_error + string) pio" where
  "submit_transfer pe sender recipient i =
     tryM (nonces_for pe sender) (\<lambda>_.
       case pe_message_err pe (pe_at_program pe) [sender, recipient] i of
         Some e \<Rightarrow> ret (Panic ''message builds'')
       | None \<Rightarrow> do { r \<leftarrow> send_probe pe (pe_at_program pe) [sender, recipient] i; ret (Ok r) })"

text \<open>Initialization and the claim of a vault; their errors are logged by the caller.\<close>

definition submit_setup :: "probe_env \<Rightarrow> program_id \<Rightarrow> account_id \<Rightarrow> account_id list \<Rightarrow> tx_instr \<Rightarrow> bool pio" where
  "submit_setup pe pid owner accs i =
     tryM (nonces_for pe owner) (\<lambda>_.
       case pe_message_err pe pid accs i of
         Some e \<Rightarrow> ret (Ok False)
       | None \<Rightarrow> do { r \<leftarrow> send_probe pe pid accs i; ret (Ok (\<not> isl r)) })"

definition at_initialize :: "probe_env \<Rightarrow> account_id \<Rightarrow> bool pio" where
  "at_initialize pe acc = submit_setup pe (pe_at_program pe) acc [acc] InitAccount"

definition vault_claim :: "probe_env \<Rightarrow> account_id \<Rightarrow> u128 \<Rightarrow> bool pio" where
  "vault_claim pe owner amount =
     submit_setup pe (pe_vault_program pe) owner [owner, pe_vault_account pe owner] (VaultClaim amount)"

definition get_balance_once :: "probe_env \<Rightarrow> account_id \<Rightarrow> (probe_trace, u128 option) state" where
  "get_balance_once pe acc = do {
     r \<leftarrow> ask_probe (PBalance acc) (\<lambda>tr. pe_balance pe tr acc);
     ret (case r of Inr b \<Rightarrow> Some b | Inl e \<Rightarrow> None) }"

fun poll_included :: "nat \<Rightarrow> probe_env \<Rightarrow> string \<Rightarrow> (probe_trace, bool) state" where
  "poll_included 0 pe h = ret False"
| "poll_included (Suc n) pe h = do {
     r \<leftarrow> ask_probe (PGetTx h) (\<lambda>tr. pe_get_tx pe tr h);
     if r = Inr True then ret True else do { wait_probe 2000; poll_included n pe h } }"

fun poll_balance :: "nat \<Rightarrow> probe_env \<Rightarrow> account_id \<Rightarrow> u128 \<Rightarrow> bool \<Rightarrow> (probe_trace, balance_poll) state" where
  "poll_balance 0 pe acc want any_read_ok = ret (if any_read_ok then BelowThreshold else Unobservable)"
| "poll_balance (Suc n) pe acc want any_read_ok = do {
     r \<leftarrow> ask_probe (PBalance acc) (\<lambda>tr. pe_balance pe tr acc);
     (case r of
        Inr b \<Rightarrow> if want \<le> b then ret Reached else do { wait_probe 2000; poll_balance n pe acc want True }
      | Inl e \<Rightarrow> do { wait_probe 2000; poll_balance n pe acc want any_read_ok }) }"

definition poll_balance_at_least :: "probe_env \<Rightarrow> account_id \<Rightarrow> u128 \<Rightarrow> nat \<Rightarrow> (probe_trace, balance_poll) state" where
  "poll_balance_at_least pe acc want tries = poll_balance tries pe acc want False"

section \<open>The experiment\<close>

text \<open>The accounts of a run; the recipients are drawn fresh.\<close>

record probe_accounts =
  px_sender :: account_id
  px_bad :: account_id
  px_valid :: account_id
  px_invalid :: account_id

definition check_target :: "probe_env \<Rightarrow> string \<Rightarrow> unit pio" where
  "check_target pe rpc =
     (if pe_url_error pe rpc \<noteq> None then verdict_of Broken ''invalid --rpc url''
      else if pe_build_error pe rpc \<noteq> None then verdict_of Broken ''cannot build sequencer client''
      else do {
        h \<leftarrow> ask_probe PHealth (pe_health pe);
        (case h of
           Inl e \<Rightarrow> verdict_of Broken ''no sequencer''
         | Inr _ \<Rightarrow> do {
             ids \<leftarrow> ask_probe PProgramIds (pe_program_ids pe);
             (case ids of
                Inl e \<Rightarrow> verdict_of Broken ''get_program_ids failed''
              | Inr m \<Rightarrow>
                  (case map_of (rev m) ''authenticated_transfer'' of
                     None \<Rightarrow> verdict_of Broken ''sequencer does not expose authenticated_transfer''
                   | Some pid \<Rightarrow> if pid = pe_at_program pe then ret (Ok ())
                                 else verdict_of Broken ''program-id mismatch'')) }) })"

text \<open>
  Whether the claim of the malformed transfer's sender was funded; the last one counts. The script
  runs the debug build, in which \<open>args.amount + 100\<close> panics on overflow.
\<close>

definition claim_amount :: "u128 \<Rightarrow> (probe_status \<times> string, u128) res" where
  "claim_amount amount =
     (if unat amount + 100 < 2 ^ 128 then Ok (amount + 100) else Panic ''attempt to add with overflow'')"

fun fund_senders :: "probe_env \<Rightarrow> account_id \<Rightarrow> u128 \<Rightarrow> account_id list \<Rightarrow> bool \<Rightarrow> bool pio" where
  "fund_senders pe bad amount [] bad_claim_ok = ret (Ok bad_claim_ok)"
| "fund_senders pe bad amount (acc # accs) bad_claim_ok =
     tryM (ret (claim_amount amount)) (\<lambda>claim.
     tryM (vault_claim pe acc claim) (\<lambda>sent.
       if sent then do {
         p \<leftarrow> poll_balance_at_least pe acc amount 20;
         fund_senders pe bad amount accs (if acc = bad then reached p else bad_claim_ok) }
       else fund_senders pe bad amount accs bad_claim_ok))"

fun init_accounts :: "probe_env \<Rightarrow> account_id list \<Rightarrow> unit pio" where
  "init_accounts pe [] = ret (Ok ())"
| "init_accounts pe (acc # accs) = tryM (at_initialize pe acc) (\<lambda>_. init_accounts pe accs)"

definition fund_and_init :: "probe_env \<Rightarrow> probe_accounts \<Rightarrow> u128 \<Rightarrow> unit pio" where
  "fund_and_init pe px amount =
     tryM (fund_senders pe (px_bad px) amount [px_sender px, px_bad px] False) (\<lambda>bad_claim_ok.
     tryM (init_accounts pe [px_sender px, px_valid px, px_bad px, px_invalid px]) (\<lambda>_. do {
       wait_probe 18000;
       p \<leftarrow> poll_balance_at_least pe (px_bad px) amount 15;
       if bad_claim_ok \<and> reached p then ret (Ok ())
       else verdict_of Broken ''PRECHECK FAILED'' }))"

definition valid_control :: "probe_env \<Rightarrow> probe_accounts \<Rightarrow> u128 \<Rightarrow> bool \<Rightarrow> bool pio" where
  "valid_control pe px amount funded =
     tryM (submit_transfer pe (px_sender px) (px_valid px) (TypedTransfer amount)) (\<lambda>r.
       case r of
         Inl e \<Rightarrow> verdict_of Broken ''VALID typed transfer was rejected at submit''
       | Inr h \<Rightarrow> do {
           included \<leftarrow> poll_included 15 pe h;
           if \<not> included then verdict_of Broken ''CONTROL FAILED: never included''
           else if \<not> funded then ret (Ok included)
           else do {
             p \<leftarrow> poll_balance_at_least pe (px_valid px) amount 30;
             if reached p then ret (Ok included)
             else verdict_of Broken ''CONTROL FAILED: moved no balance'' } })"

text \<open>The control with the accounts of the malformed transfer: it returns the balance to compare with.\<close>

definition same_sender_control :: "probe_env \<Rightarrow> probe_accounts \<Rightarrow> u128 \<Rightarrow> (bool \<times> u128) pio" where
  "same_sender_control pe px amount =
     tryM (submit_transfer pe (px_bad px) (px_invalid px) (TypedTransfer amount)) (\<lambda>r.
       case r of
         Inl e \<Rightarrow> verdict_of Broken ''SAME-SENDER CONTROL FAILED: rejected at submit''
       | Inr h \<Rightarrow> do {
           included \<leftarrow> poll_included 15 pe h;
           p \<leftarrow> poll_balance_at_least pe (px_invalid px) amount 30;
           if included \<and> reached p then do {
             b \<leftarrow> get_balance_once pe (px_invalid px);
             ret (Ok (included, case b of Some v \<Rightarrow> v | None \<Rightarrow> amount)) }
           else verdict_of Broken ''SAME-SENDER CONTROL FAILED: no effect'' })"

definition post_control :: "probe_env \<Rightarrow> probe_accounts \<Rightarrow> u128 \<Rightarrow> bool pio" where
  "post_control pe px amount =
     tryM (submit_transfer pe (px_bad px) (px_invalid px) (TypedTransfer amount)) (\<lambda>r.
       case r of
         Inl e \<Rightarrow> ret (Ok False)
       | Inr h \<Rightarrow> do { included \<leftarrow> poll_included 15 pe h; ret (Ok included) })"

fun malformed_end :: "malformed_verdict \<Rightarrow> probe_status \<times> string" where
  "malformed_end NotIncluded = (Broken, ''INCONCLUSIVE: never included'')"
| "malformed_end BalanceUnobservable = (Broken, ''INCONCLUSIVE: balance unobservable'')"
| "malformed_end Executed = (Fail, ''UNEXPECTED-EXECUTION'')"
| "malformed_end SilentNoOp = (Red, ''#640 reproduced: included, no effect'')"
| "malformed_end SilentDropPreInclusion = (Red, ''#640 reproduced: dropped before inclusion'')"

definition malformed_transfer :: "probe_env \<Rightarrow> probe_accounts \<Rightarrow> u128 \<Rightarrow> bool \<Rightarrow> bool \<Rightarrow> u128 \<Rightarrow> unit pio" where
  "malformed_transfer pe px amount funded control_included baseline =
     tryM (submit_transfer pe (px_bad px) (px_invalid px) (BareAmount amount)) (\<lambda>r.
       case r of
         Inl e \<Rightarrow>
           (case classify_reject e of
              ValidationReject \<Rightarrow> verdict_of Pass ''LOUDLY REJECTED at submit''
            | InfraReject \<Rightarrow> verdict_of Broken ''NON-validation error'')
       | Inr h \<Rightarrow> do {
           bad_included \<leftarrow> poll_included 45 pe h;
           bad_poll \<leftarrow> (if funded
             then poll_balance_at_least pe (px_invalid px) (sat_add baseline amount) 15
             else ret BelowThreshold);
           tryM (if bad_included then ret (Ok True) else post_control pe px amount) (\<lambda>post_included.
             ret (Err (malformed_end (classify_malformed funded bad_included control_included post_included bad_poll)))) })"

definition probe_run :: "probe_env \<Rightarrow> probe_accounts \<Rightarrow> probe_args \<Rightarrow> unit pio" where
  "probe_run pe px a =
     tryM (if pa_funded a then fund_and_init pe px (pa_amount a) else ret (Ok ())) (\<lambda>_.
     tryM (valid_control pe px (pa_amount a) (pa_funded a)) (\<lambda>valid_included.
     tryM (if pa_funded a then same_sender_control pe px (pa_amount a) else ret (Ok (True, 0))) (\<lambda>(ctrl_included, baseline).
       malformed_transfer pe px (pa_amount a) (pa_funded a) (valid_included \<and> ctrl_included) baseline)))"

text \<open>
  \<open>main\<close>. \<open>random i\<close> is the i-th random key that is drawn; the first one is drawn also when a
  key is given only if none is. With \<open>account\<close> it prints the account and returns.
\<close>

definition probe_main ::
  "probe_env \<Rightarrow> (nat \<Rightarrow> bytes) \<Rightarrow> (string \<Rightarrow> string option) \<Rightarrow> string list \<Rightarrow> account_id option pio" where
  "probe_main pe random var argv =
     tryM (ret (parse_args var argv)) (\<lambda>a.
     tryM (ret (keypair pe (case pa_key a of Some k \<Rightarrow> k | None \<Rightarrow> random 0))) (\<lambda>sender.
       if pa_account_only a then ret (Ok (Some sender))
       else
         tryM (check_target pe (pa_rpc a)) (\<lambda>_.
         tryM (ret (keypair pe (case pa_key2 a of Some k \<Rightarrow> k | None \<Rightarrow> random 1))) (\<lambda>bad.
         tryM (ret (keypair pe (random 2))) (\<lambda>valid.
         tryM (ret (keypair pe (random 3))) (\<lambda>invalid.
         tryM (probe_run pe \<lparr> px_sender = sender, px_bad = bad, px_valid = valid, px_invalid = invalid \<rparr> a)
           (\<lambda>_. ret (Ok None))))))))"

section \<open>What the requests leave in the trace\<close>

lemma emits_probe_ask [emits_intros]: "(\<And>a. P (mk a)) \<Longrightarrow> emits P (ask_probe mk f)"
  by (simp add: emits_def ask_probe_def)

lemma run_probe_ask [run_simps]: "run_state (ask_probe mk f) tr = (f tr, tr @ [mk (f tr)])"
  by (simp add: ask_probe_def)

lemma run_wait [run_simps]: "run_state (wait_probe ms) tr = ((), tr @ [PSleep ms])"
  by (simp add: wait_probe_def run_probe_ask)

lemma emits_wait [emits_intros]: "P (PSleep ms) \<Longrightarrow> emits P (wait_probe ms)"
  unfolding wait_probe_def by (intro emits_probe_ask)

text \<open>The successful reads of an account's balance, and what a poll makes of them.\<close>

fun reads_of :: "account_id \<Rightarrow> probe_trace \<Rightarrow> u128 list" where
  "reads_of acc [] = []"
| "reads_of acc (e # es) =
     (case e of PBalance a (Inr v) \<Rightarrow> if a = acc then v # reads_of acc es else reads_of acc es
      | _ \<Rightarrow> reads_of acc es)"

definition poll_of :: "u128 \<Rightarrow> u128 list \<Rightarrow> balance_poll" where
  "poll_of want vs =
     (if \<exists>v\<in>set vs. want \<le> v then Reached else if vs = [] then Unobservable else BelowThreshold)"

definition included :: "string \<Rightarrow> probe_trace \<Rightarrow> bool" where
  "included h es \<longleftrightarrow> PGetTx h (Inr True) \<in> set es"

text \<open>A well-formed transfer was accepted and was seen included.\<close>

fun landed :: "program_id \<Rightarrow> account_id list \<Rightarrow> u128 \<Rightarrow> probe_trace \<Rightarrow> bool" where
  "landed pid accs amount [] = False"
| "landed pid accs amount (e # es) =
     ((case e of PSend p a i (Inr h) \<Rightarrow> p = pid \<and> a = accs \<and> i = TypedTransfer amount \<and> included h es
       | _ \<Rightarrow> False) \<or> landed pid accs amount es)"

fun sends :: "probe_event \<Rightarrow> bool" where
  "sends (PSend p a i r) = True"
| "sends _ = False"

fun malformed_send :: "probe_event \<Rightarrow> bool" where
  "malformed_send (PSend p a (BareAmount v) r) = True"
| "malformed_send _ = False"

fun polls_tx :: "probe_event \<Rightarrow> bool" where
  "polls_tx (PGetTx h r) = True"
| "polls_tx (PSleep ms) = True"
| "polls_tx _ = False"

fun polls_balance :: "probe_event \<Rightarrow> bool" where
  "polls_balance (PBalance a r) = True"
| "polls_balance (PSleep ms) = True"
| "polls_balance _ = False"

lemma reads_append [simp]: "reads_of acc (xs @ ys) = reads_of acc xs @ reads_of acc ys"
  by (induction xs) (auto split: probe_event.splits sum.splits)

lemma included_append [simp]: "included h (xs @ ys) \<longleftrightarrow> included h xs \<or> included h ys"
  by (auto simp: included_def)

lemma included_Nil [simp]: "\<not> included h []"
  by (simp add: included_def)

lemma included_Cons [simp]: "included h (e # es) \<longleftrightarrow> e = PGetTx h (Inr True) \<or> included h es"
  by (auto simp: included_def)

lemma landed_later: "landed pid accs amount ys \<Longrightarrow> landed pid accs amount (xs @ ys)"
  by (induction xs) auto

lemma landed_more: "landed pid accs amount xs \<Longrightarrow> landed pid accs amount (xs @ ys)"
  by (induction xs) (auto split: probe_event.splits sum.splits)

lemma landed_skip: "list_all (\<lambda>e. \<not> sends e) xs \<Longrightarrow> landed pid accs amount (xs @ ys) = landed pid accs amount ys"
  by (induction xs) (auto split: probe_event.splits sum.splits)

lemma landed_none: "list_all (\<lambda>e. \<not> sends e) xs \<Longrightarrow> \<not> landed pid accs amount xs"
  using landed_skip [of xs pid accs amount "[]"] by simp

lemma reads_polls_tx: "list_all polls_tx es \<Longrightarrow> reads_of acc es = []"
  by (induction es) (auto split: probe_event.splits sum.splits)

lemma polls_tx_sends: "polls_tx e \<Longrightarrow> \<not> sends e"
  by (cases e) auto

lemma polls_balance_sends: "polls_balance e \<Longrightarrow> \<not> sends e"
  by (cases e) auto

lemma sends_malformed: "\<not> sends e \<Longrightarrow> \<not> malformed_send e"
  by (cases e) auto

lemma included_balances: "list_all polls_balance es \<Longrightarrow> \<not> included h es"
  by (induction es) auto

lemma polls_send_nothing:
  "list_all polls_tx es \<Longrightarrow> list_all (\<lambda>e. \<not> sends e) es"
  "list_all polls_balance es \<Longrightarrow> list_all (\<lambda>e. \<not> sends e) es"
  by (auto simp: list_all_iff dest: polls_tx_sends polls_balance_sends)

lemma polls_not_malformed:
  "list_all polls_tx es \<Longrightarrow> list_all (\<lambda>e. \<not> malformed_send e) es"
  "list_all polls_balance es \<Longrightarrow> list_all (\<lambda>e. \<not> malformed_send e) es"
  by (auto simp: list_all_iff dest: polls_tx_sends polls_balance_sends sends_malformed)

lemma poll_included_run:
  "run_state (poll_included n pe h) tr = (b, tr') \<Longrightarrow>
   \<exists>es. tr' = tr @ es \<and> list_all polls_tx es \<and> b = included h es \<and> (\<forall>h'. included h' es \<longrightarrow> h' = h)"
proof (induction n arbitrary: tr)
  case 0
  then show ?case by auto
next
  case (Suc n)
  show ?case
  proof (cases "pe_get_tx pe tr h = Inr True")
    case True
    then show ?thesis using Suc.prems by (intro exI [of _ "[PGetTx h (Inr True)]"]) (auto simp: run_simps)
  next
    case False
    let ?e = "[PGetTx h (pe_get_tx pe tr h), PSleep 2000]"
    have "run_state (poll_included n pe h) (tr @ ?e) = (b, tr')"
      using Suc.prems False by (simp add: run_simps)
    from Suc.IH [OF this] obtain es where "tr' = (tr @ ?e) @ es" "list_all polls_tx es" "b = included h es"
      "\<forall>h'. included h' es \<longrightarrow> h' = h" by blast
    then show ?thesis using False by (intro exI [of _ "?e @ es"]) auto
  qed
qed

lemma poll_balance_run:
  "run_state (poll_balance n pe acc want seen) tr = (p, tr') \<Longrightarrow>
   \<exists>es. tr' = tr @ es \<and> list_all polls_balance es \<and>
        p = (if seen \<and> reads_of acc es = [] then BelowThreshold else poll_of want (reads_of acc es))"
proof (induction n arbitrary: tr seen)
  case 0
  then show ?case by (auto simp: poll_of_def)
next
  case (Suc n)
  show ?case
  proof (cases "pe_balance pe tr acc")
    case (Inl x)
    let ?e = "[PBalance acc (Inl x), PSleep 2000]"
    have "run_state (poll_balance n pe acc want seen) (tr @ ?e) = (p, tr')"
      using Suc.prems Inl by (simp add: run_simps)
    from Suc.IH [OF this] obtain es where "tr' = (tr @ ?e) @ es" "list_all polls_balance es"
      "p = (if seen \<and> reads_of acc es = [] then BelowThreshold else poll_of want (reads_of acc es))" by blast
    then show ?thesis by (intro exI [of _ "?e @ es"]) auto
  next
    case (Inr v)
    show ?thesis
    proof (cases "want \<le> v")
      case True
      then show ?thesis using Suc.prems Inr
        by (intro exI [of _ "[PBalance acc (Inr v)]"]) (auto simp: run_simps poll_of_def)
    next
      case False
      let ?e = "[PBalance acc (Inr v), PSleep 2000]"
      have "run_state (poll_balance n pe acc want True) (tr @ ?e) = (p, tr')"
        using Suc.prems Inr False by (simp add: run_simps)
      from Suc.IH [OF this] obtain es where "tr' = (tr @ ?e) @ es" "list_all polls_balance es"
        "p = (if reads_of acc es = [] then BelowThreshold else poll_of want (reads_of acc es))" by auto
      then show ?thesis using False by (intro exI [of _ "?e @ es"]) (auto simp: poll_of_def)
    qed
  qed
qed

lemma poll_at_least_run:
  assumes "run_state (poll_balance_at_least pe acc want n) tr = (p, tr')"
  shows "\<exists>es. tr' = tr @ es \<and> list_all polls_balance es \<and> p = poll_of want (reads_of acc es)"
  using poll_balance_run [OF assms [unfolded poll_balance_at_least_def]] by auto

lemma poll_of_reached: "poll_of want vs = Reached \<longleftrightarrow> (\<exists>v\<in>set vs. want \<le> v)"
  by (auto simp: poll_of_def)

section \<open>The stages\<close>

lemma submit_transfer_run:
  assumes "run_state (submit_transfer pe acc to i) tr = (out, tr')"
  shows "(\<exists>p ns. out = Panic p \<and> tr' = tr @ [PNonces acc ns]) \<or>
    (\<exists>ns r. out = Ok r \<and> tr' = tr @ [PNonces acc ns, PSend (pe_at_program pe) [acc, to] i r])"
  using assms
  by (auto simp: submit_transfer_def nonces_for_def send_probe_def run_simps
      split: sum.splits option.splits)

text \<open>A failed read of the nonces ends the run without a verdict.\<close>

lemma nonce_failure_panics:
  "pe_nonces pe tr acc = Inl e \<Longrightarrow>
   fst (run_state (submit_transfer pe acc to i) tr) = Panic ''get_accounts_nonces''"
  by (simp add: submit_transfer_def nonces_for_def run_simps)

text \<open>The controls before the malformed transfer, and the balance it is compared with.\<close>

definition controls_ok :: "probe_env \<Rightarrow> probe_accounts \<Rightarrow> u128 \<Rightarrow> bool \<Rightarrow> probe_trace \<Rightarrow> bool" where
  "controls_ok pe px amount funded pre \<longleftrightarrow>
     landed (pe_at_program pe) [px_sender px, px_valid px] amount pre \<and>
     (if funded
      then (\<exists>v\<in>set (reads_of (px_valid px) pre). amount \<le> v) \<and>
           landed (pe_at_program pe) [px_bad px, px_invalid px] amount pre \<and>
           (\<exists>v\<in>set (reads_of (px_invalid px) pre). amount \<le> v)
      else True)"

lemma valid_control_run:
  assumes "run_state (valid_control pe px amount funded) tr = (out, tr')"
  shows "\<exists>es. tr' = tr @ es \<and> list_all (\<lambda>e. \<not> malformed_send e) es \<and>
    (case out of
       Ok b \<Rightarrow> b \<and> landed (pe_at_program pe) [px_sender px, px_valid px] amount es \<and>
               (if funded then \<exists>v\<in>set (reads_of (px_valid px) es). amount \<le> v else True)
     | Err (st, ev) \<Rightarrow> st = Broken
     | Panic p \<Rightarrow> True
     | Pending \<Rightarrow> False)"
proof -
  let ?i = "TypedTransfer amount"
  let ?at = "pe_at_program pe"
  obtain o1 tr1 where s: "run_state (submit_transfer pe (px_sender px) (px_valid px) ?i) tr = (o1, tr1)"
    by fastforce
  from submit_transfer_run [OF s] consider
      p ns where "o1 = Panic p" "tr1 = tr @ [PNonces (px_sender px) ns]"
    | ns r where "o1 = Ok r" "tr1 = tr @ [PNonces (px_sender px) ns, PSend ?at [px_sender px, px_valid px] ?i r]"
    by blast
  then show ?thesis
  proof cases
    case 1
    then show ?thesis using assms s by (auto simp: valid_control_def run_simps)
  next
    case (2 ns r)
    show ?thesis
    proof (cases r)
      case (Inl e)
      then show ?thesis using 2 assms s by (auto simp: valid_control_def run_simps verdict_of_def)
    next
      case (Inr h)
      obtain b tr2 where p: "run_state (poll_included 15 pe h) tr1 = (b, tr2)" by fastforce
      obtain e1 where e1: "tr2 = tr1 @ e1" "list_all polls_tx e1" "b = included h e1"
        using poll_included_run [OF p] by blast
      obtain q tr3 where q: "run_state (poll_balance_at_least pe (px_valid px) amount 30) tr2 = (q, tr3)"
        by fastforce
      obtain e2 where e2: "tr3 = tr2 @ e2" "list_all polls_balance e2"
        "q = poll_of amount (reads_of (px_valid px) e2)"
        using poll_at_least_run [OF q] by blast
      note n = polls_not_malformed(1) [OF e1(2)] polls_not_malformed(2) [OF e2(2)]
      show ?thesis using assms s p q 2 Inr e1(1,3) e2(1,3) n
        by (auto simp: valid_control_def run_simps verdict_of_def reached_def poll_of_reached
            reads_polls_tx [OF e1(2)] split: if_splits)
    qed
  qed
qed

lemma same_sender_control_run:
  assumes "run_state (same_sender_control pe px amount) tr = (out, tr')"
  shows "\<exists>es. tr' = tr @ es \<and> list_all (\<lambda>e. \<not> malformed_send e) es \<and>
    (case out of
       Ok (b, base) \<Rightarrow> b \<and> landed (pe_at_program pe) [px_bad px, px_invalid px] amount es \<and>
               (\<exists>v\<in>set (reads_of (px_invalid px) es). amount \<le> v) \<and>
               (\<exists>es0 r. es = es0 @ [PBalance (px_invalid px) r] \<and> base = (case r of Inr v \<Rightarrow> v | Inl x \<Rightarrow> amount))
     | Err (st, ev) \<Rightarrow> st = Broken
     | Panic p \<Rightarrow> True
     | Pending \<Rightarrow> False)"
proof -
  let ?i = "TypedTransfer amount"
  let ?at = "pe_at_program pe"
  obtain o1 tr1 where s: "run_state (submit_transfer pe (px_bad px) (px_invalid px) ?i) tr = (o1, tr1)"
    by fastforce
  from submit_transfer_run [OF s] consider
      p ns where "o1 = Panic p" "tr1 = tr @ [PNonces (px_bad px) ns]"
    | ns r where "o1 = Ok r" "tr1 = tr @ [PNonces (px_bad px) ns, PSend ?at [px_bad px, px_invalid px] ?i r]"
    by blast
  then show ?thesis
  proof cases
    case 1
    then show ?thesis using assms s by (auto simp: same_sender_control_def run_simps)
  next
    case (2 ns r)
    show ?thesis
    proof (cases r)
      case (Inl e)
      then show ?thesis using 2 assms s by (auto simp: same_sender_control_def run_simps verdict_of_def)
    next
      case (Inr h)
      obtain b tr2 where p: "run_state (poll_included 15 pe h) tr1 = (b, tr2)" by fastforce
      obtain e1 where e1: "tr2 = tr1 @ e1" "list_all polls_tx e1" "b = included h e1"
        using poll_included_run [OF p] by blast
      obtain q tr3 where q: "run_state (poll_balance_at_least pe (px_invalid px) amount 30) tr2 = (q, tr3)"
        by fastforce
      obtain e2 where e2: "tr3 = tr2 @ e2" "list_all polls_balance e2"
        "q = poll_of amount (reads_of (px_invalid px) e2)"
        using poll_at_least_run [OF q] by blast
      note n = polls_not_malformed(1) [OF e1(2)] polls_not_malformed(2) [OF e2(2)]
      let ?es = "[PNonces (px_bad px) ns, PSend ?at [px_bad px, px_invalid px] ?i r] @ e1 @ e2"
      show ?thesis
      proof (cases "b \<and> reached q")
        case True
        then have "tr' = tr @ ?es @ [PBalance (px_invalid px) (pe_balance pe tr3 (px_invalid px))]"
          "out = Ok (b, case pe_balance pe tr3 (px_invalid px) of Inr v \<Rightarrow> v | Inl x \<Rightarrow> amount)"
          using assms s p q 2 Inr e1(1) e2(1)
          by (auto simp: same_sender_control_def get_balance_once_def run_simps split: sum.splits)
        then show ?thesis using True e1(3) e2(3) n Inr
          by (auto simp: reached_def poll_of_reached reads_polls_tx [OF e1(2)])
      next
        case False
        then have "tr' = tr @ ?es" "\<exists>ev. out = Err (Broken, ev)"
          using assms s p q 2 Inr e1(1) e2(1)
          by (auto simp: same_sender_control_def run_simps verdict_of_def)
        then show ?thesis using n by (auto simp: Inr)
      qed
    qed
  qed
qed

lemma post_control_run:
  assumes "run_state (post_control pe px amount) tr = (out, tr')"
  shows "\<exists>es. tr' = tr @ es \<and> list_all (\<lambda>e. \<not> malformed_send e) es \<and> reads_of (px_invalid px) es = [] \<and>
    (case out of
       Ok b \<Rightarrow> b = landed (pe_at_program pe) [px_bad px, px_invalid px] amount es \<and> (if b then True else \<forall>h. \<not> included h es)
     | Err e \<Rightarrow> False
     | Panic p \<Rightarrow> True
     | Pending \<Rightarrow> False)"
proof -
  let ?i = "TypedTransfer amount"
  let ?at = "pe_at_program pe"
  obtain o1 tr1 where s: "run_state (submit_transfer pe (px_bad px) (px_invalid px) ?i) tr = (o1, tr1)"
    by fastforce
  from submit_transfer_run [OF s] consider
      p ns where "o1 = Panic p" "tr1 = tr @ [PNonces (px_bad px) ns]"
    | ns r where "o1 = Ok r" "tr1 = tr @ [PNonces (px_bad px) ns, PSend ?at [px_bad px, px_invalid px] ?i r]"
    by blast
  then show ?thesis
  proof cases
    case 1
    then show ?thesis using assms s by (auto simp: post_control_def run_simps)
  next
    case (2 ns r)
    show ?thesis
    proof (cases r)
      case (Inl e)
      then show ?thesis using 2 assms s by (auto simp: post_control_def run_simps)
    next
      case (Inr h)
      obtain b tr2 where p: "run_state (poll_included 15 pe h) tr1 = (b, tr2)" by fastforce
      obtain e1 where e1: "tr2 = tr1 @ e1" "list_all polls_tx e1" "b = included h e1"
        and others: "\<forall>h'. included h' e1 \<longrightarrow> h' = h"
        using poll_included_run [OF p] by blast
      let ?es = "[PNonces (px_bad px) ns, PSend ?at [px_bad px, px_invalid px] ?i r] @ e1"
      have run: "out = Ok b" "tr' = tr @ ?es"
        using assms s p 2 Inr e1(1) by (auto simp: post_control_def run_simps)
      have "landed ?at [px_bad px, px_invalid px] amount ?es = b"
        using landed_none [OF polls_send_nothing(1) [OF e1(2)]] e1(3) by (simp add: Inr)
      moreover have "if b then True else \<forall>h. \<not> included h ?es"
        using e1(3) others by auto
      ultimately show ?thesis using run polls_not_malformed(1) [OF e1(2)] reads_polls_tx [OF e1(2)]
        by (intro exI [of _ ?es]) simp
    qed
  qed
qed

text \<open>What the verdict has to fit: the answer to the malformed transfer, and what followed.\<close>

definition verdict_fits ::
  "probe_env \<Rightarrow> probe_accounts \<Rightarrow> u128 \<Rightarrow> bool \<Rightarrow> u128 \<Rightarrow> client_error + string \<Rightarrow> probe_trace \<Rightarrow> probe_status \<Rightarrow> bool" where
  "verdict_fits pe px amount funded want r mid st =
     (let reads = reads_of (px_invalid px) mid;
          progress = landed (pe_at_program pe) [px_bad px, px_invalid px] amount mid
      in case r of
           Inl e \<Rightarrow> mid = [] \<and> st = (case e of CallError code m \<Rightarrow> if code = - 32602 then Pass else Broken
                                             | OtherClientError m \<Rightarrow> Broken)
         | Inr h \<Rightarrow>
             (case st of
                Pass \<Rightarrow> False
              | Fail \<Rightarrow> funded \<and> (\<exists>v\<in>set reads. want \<le> v)
              | Red \<Rightarrow> (included h mid \<or> progress) \<and>
                       (if funded then reads \<noteq> [] \<and> list_all (\<lambda>v. v < want) reads else True)
              | Broken \<Rightarrow> funded \<and> reads = [] \<or> \<not> included h mid \<and> \<not> progress))"

lemma parts_fit:
  assumes "list_all polls_tx e1" "b = included h e1"
    and "list_all polls_balance e2" "q = (if funded then poll_of want (reads_of (px_invalid px) e2) else BelowThreshold)"
    and "reads_of (px_invalid px) e3 = []"
    and "l = (b \<or> landed (pe_at_program pe) [px_bad px, px_invalid px] amount e3)"
    and "if l then True else \<forall>h. \<not> included h e3"
  shows "verdict_fits pe px amount funded want (Inr h) (e1 @ e2 @ e3)
    (fst (malformed_end (classify_malformed funded b True l q)))"
proof -
  let ?at = "pe_at_program pe"
  let ?pair = "[px_bad px, px_invalid px]"
  let ?mid = "e1 @ e2 @ e3"
  have reads: "reads_of (px_invalid px) ?mid = reads_of (px_invalid px) e2"
    using reads_polls_tx [OF assms(1)] assms(5) by simp
  have progress: "landed ?at ?pair amount ?mid = landed ?at ?pair amount e3"
    using landed_skip [OF polls_send_nothing(1) [OF assms(1)]] landed_skip [OF polls_send_nothing(2) [OF assms(3)]]
    by simp
  have seen: "included h ?mid = (b \<or> included h e3)"
    using assms(2) included_balances [OF assms(3)] by simp
  show ?thesis
    unfolding verdict_fits_def reads progress seen Let_def sum.case using assms(4,6,7)
    by (auto simp: classify_malformed_def poll_of_def list_all_iff not_le split: if_splits)
qed

lemma malformed_transfer_run:
  assumes "run_state (malformed_transfer pe px amount funded True base) tr = (out, tr')"
  shows "\<exists>ns es. tr' = tr @ PNonces (px_bad px) ns # es \<and>
    (case out of
       Ok x \<Rightarrow> False
     | Err (st, ev) \<Rightarrow>
         (\<exists>r mid. es = PSend (pe_at_program pe) [px_bad px, px_invalid px] (BareAmount amount) r # mid \<and>
           list_all (\<lambda>e. \<not> malformed_send e) mid \<and>
           verdict_fits pe px amount funded (sat_add base amount) r mid st)
     | Panic p \<Rightarrow> list_all (\<lambda>e. \<not> malformed_send e) es \<or>
         (\<exists>r mid. es = PSend (pe_at_program pe) [px_bad px, px_invalid px] (BareAmount amount) r # mid \<and>
           list_all (\<lambda>e. \<not> malformed_send e) mid)
     | Pending \<Rightarrow> False)"
proof -
  let ?at = "pe_at_program pe"
  let ?pair = "[px_bad px, px_invalid px]"
  let ?want = "sat_add base amount"
  obtain o1 tr1 where s: "run_state (submit_transfer pe (px_bad px) (px_invalid px) (BareAmount amount)) tr = (o1, tr1)"
    by fastforce
  from submit_transfer_run [OF s] consider
      p ns where "o1 = Panic p" "tr1 = tr @ [PNonces (px_bad px) ns]"
    | ns r where "o1 = Ok r" "tr1 = tr @ [PNonces (px_bad px) ns, PSend ?at ?pair (BareAmount amount) r]"
    by blast
  then show ?thesis
  proof cases
    case 1
    then show ?thesis using assms s by (auto simp: malformed_transfer_def run_simps)
  next
    case (2 ns r)
    show ?thesis
    proof (cases r)
      case (Inl e)
      then show ?thesis using 2 assms s
        by (cases e) (auto simp: malformed_transfer_def run_simps verdict_of_def verdict_fits_def
            jsonrpc_invalid_params_def split: if_splits)
    next
      case (Inr h)
      obtain b tr2 where p: "run_state (poll_included 45 pe h) tr1 = (b, tr2)" by fastforce
      obtain e1 where e1: "tr2 = tr1 @ e1" "list_all polls_tx e1" "b = included h e1"
        using poll_included_run [OF p] by blast
      let ?read = "if funded then poll_balance_at_least pe (px_invalid px) ?want 15 else ret BelowThreshold"
      obtain q tr3 where q: "run_state ?read tr2 = (q, tr3)" by fastforce
      obtain e2 where e2: "tr3 = tr2 @ e2" "list_all polls_balance e2"
        "q = (if funded then poll_of ?want (reads_of (px_invalid px) e2) else BelowThreshold)"
        using q poll_at_least_run [of pe "px_invalid px" ?want 15 tr2 q tr3] by (cases funded) auto
      let ?post = "if b then ret (Ok True) else post_control pe px amount"
      obtain o3 tr4 where c: "run_state ?post tr3 = (o3, tr4)" by fastforce
      obtain e3 where e3: "tr4 = tr3 @ e3" "list_all (\<lambda>e. \<not> malformed_send e) e3"
        "reads_of (px_invalid px) e3 = []"
        "case o3 of Ok l \<Rightarrow> l = (b \<or> landed ?at ?pair amount e3) \<and> (if l then True else \<forall>h. \<not> included h e3)
         | Err e \<Rightarrow> False | Panic p \<Rightarrow> True | Pending \<Rightarrow> False"
        using c post_control_run [of pe px amount tr3 o3 tr4] by (cases b; cases o3) auto
      let ?mid = "e1 @ e2 @ e3"
      have trace: "tr' = tr @ PNonces (px_bad px) ns # PSend ?at ?pair (BareAmount amount) r # ?mid"
        using assms s p q c 2 Inr e1(1) e2(1) e3(1)
        by (simp add: malformed_transfer_def run_simps split: res.splits)
      have out: "out = (case o3 of Ok l \<Rightarrow> Err (malformed_end (classify_malformed funded b True l q))
          | Err e \<Rightarrow> Err e | Panic p \<Rightarrow> Panic p | Pending \<Rightarrow> Pending)"
        using assms s p q c 2 Inr by (auto simp: malformed_transfer_def run_simps split: res.splits)
      have quiet: "list_all (\<lambda>e. \<not> malformed_send e) ?mid"
        using polls_not_malformed(1) [OF e1(2)] polls_not_malformed(2) [OF e2(2)] e3(2) by simp
      show ?thesis
      proof (cases o3)
        case (Ok l)
        let ?st = "fst (malformed_end (classify_malformed funded b True l q))"
        have "verdict_fits pe px amount funded ?want r ?mid ?st"
          unfolding Inr by (rule parts_fit [OF e1(2,3) e2(2,3) e3(3)]) (use e3(4) Ok in auto)
        then show ?thesis using trace out quiet Ok by (auto split: prod.splits)
      qed (use trace out e3(4) quiet in auto)
    qed
  qed
qed

section \<open>The verdict\<close>

text \<open>
  What a run of the probe leaves behind. A verdict is either broken, with no malformed transfer
  submitted, or it was reached after the controls succeeded, from the answer to the one malformed
  transfer and from what was seen after it.
\<close>

definition baseline_in :: "account_id \<Rightarrow> u128 \<Rightarrow> u128 \<Rightarrow> probe_trace \<Rightarrow> bool" where
  "baseline_in acc amount base pre \<longleftrightarrow>
     (\<exists>pre0 r. pre = pre0 @ [PBalance acc r] \<and> base = (case r of Inr v \<Rightarrow> v | Inl x \<Rightarrow> amount))"

definition attempted ::
  "probe_env \<Rightarrow> probe_accounts \<Rightarrow> u128 \<Rightarrow> bool \<Rightarrow> probe_trace \<Rightarrow> u128 \<Rightarrow> client_error + string \<Rightarrow> probe_trace \<Rightarrow> bool" where
  "attempted pe px amount funded es base r mid \<longleftrightarrow>
     (\<exists>pre ns. es = pre @ [PNonces (px_bad px) ns,
        PSend (pe_at_program pe) [px_bad px, px_invalid px] (BareAmount amount) r] @ mid \<and>
        list_all (\<lambda>e. \<not> malformed_send e) (pre @ mid) \<and>
        controls_ok pe px amount funded pre \<and>
        (if funded then baseline_in (px_invalid px) amount base pre else base = 0))"

definition probe_end :: "probe_env \<Rightarrow> probe_accounts \<Rightarrow> u128 \<Rightarrow> bool \<Rightarrow> probe_trace \<Rightarrow>
    (probe_status \<times> string, unit) res \<Rightarrow> bool" where
  "probe_end pe px amount funded es out \<longleftrightarrow>
     (case out of
        Ok x \<Rightarrow> False
      | Pending \<Rightarrow> False
      | Panic p \<Rightarrow> list_all (\<lambda>e. \<not> malformed_send e) es \<or> (\<exists>base r mid. attempted pe px amount funded es base r mid)
      | Err (st, ev) \<Rightarrow>
          st = Broken \<and> list_all (\<lambda>e. \<not> malformed_send e) es \<or>
          (\<exists>base r mid. attempted pe px amount funded es base r mid \<and>
             verdict_fits pe px amount funded (sat_add base amount) r mid st))"

lemma emits_poll_balance [emits_intros]:
  "(\<And>a r. P (PBalance a r)) \<Longrightarrow> (\<And>d. P (PSleep d)) \<Longrightarrow> emits P (poll_balance n pe acc want seen)"
  by (induction n arbitrary: seen) (auto intro!: emits_intros)

text \<open>
  A stage before the malformed transfer: it submits none, it ends the run with broken or with a
  panic or goes on with what the next stage needs.
\<close>

definition stage :: "'a pio \<Rightarrow> ('a \<Rightarrow> probe_trace \<Rightarrow> bool) \<Rightarrow> bool" where
  "stage m Q \<longleftrightarrow>
     (\<forall>tr out tr'. run_state m tr = (out, tr') \<longrightarrow>
        (\<exists>es. tr' = tr @ es \<and> list_all (\<lambda>e. \<not> malformed_send e) es \<and>
          (case out of Ok x \<Rightarrow> Q x es | Err (st, ev) \<Rightarrow> st = Broken | Panic p \<Rightarrow> True | Pending \<Rightarrow> False)))"

lemma stage_ret: "Q x [] \<Longrightarrow> stage (ret (Ok x)) Q"
  by (simp add: stage_def)

lemma stage_broken: "stage (verdict_of Broken ev) Q"
  by (simp add: stage_def verdict_of_def)

lemma stage_quiet:
  assumes "emits (\<lambda>e. \<not> malformed_send e) m" "\<And>a. stage (f a) (\<lambda>x es. True)"
  shows "stage (m \<bind> f) (\<lambda>x es. True)"
  unfolding stage_def
proof (intro allI impI)
  fix tr out tr' assume run: "run_state (m \<bind> f) tr = (out, tr')"
  obtain a tr1 where m: "run_state m tr = (a, tr1)" by fastforce
  obtain e1 where e1: "tr1 = tr @ e1" "list_all (\<lambda>e. \<not> malformed_send e) e1"
    using emits_prefix [OF assms(1) m] by blast
  have "run_state (f a) tr1 = (out, tr')" using run m by simp
  with assms(2) [of a] obtain e2 where "tr' = tr1 @ e2" "list_all (\<lambda>e. \<not> malformed_send e) e2"
    "case out of Ok x \<Rightarrow> True | Err (st, ev) \<Rightarrow> st = Broken | Panic p \<Rightarrow> True | Pending \<Rightarrow> False"
    unfolding stage_def by blast
  with e1 show "\<exists>es. tr' = tr @ es \<and> list_all (\<lambda>e. \<not> malformed_send e) es \<and>
      (case out of Ok x \<Rightarrow> True | Err (st, ev) \<Rightarrow> st = Broken | Panic p \<Rightarrow> True | Pending \<Rightarrow> False)"
    by (intro exI [of _ "e1 @ e2"]) simp
qed

text \<open>A run that starts with a stage ends early, or goes on from what the stage left.\<close>

lemma stage_then:
  assumes "stage m Q" "run_state (tryM m f) tr = (out, tr')"
  obtains es where "tr' = tr @ es" "list_all (\<lambda>e. \<not> malformed_send e) es"
      "case out of Ok x \<Rightarrow> False | Err (st, ev) \<Rightarrow> st = Broken | Panic p \<Rightarrow> True | Pending \<Rightarrow> False"
  | x es where "list_all (\<lambda>e. \<not> malformed_send e) es" "Q x es" "run_state (f x) (tr @ es) = (out, tr')"
proof -
  obtain o1 tr1 where m: "run_state m tr = (o1, tr1)" by fastforce
  then obtain es where es: "tr1 = tr @ es" "list_all (\<lambda>e. \<not> malformed_send e) es"
    "case o1 of Ok x \<Rightarrow> Q x es | Err (st, ev) \<Rightarrow> st = Broken | Panic p \<Rightarrow> True | Pending \<Rightarrow> False"
    using assms(1) unfolding stage_def by blast
  show thesis
  proof (cases o1)
    case (Ok x)
    then show ?thesis using es m assms(2) that(2) [of es x] by (simp add: run_simps)
  qed (use es m assms(2) that(1) [of es] in \<open>auto simp: run_simps split: prod.splits\<close>)
qed

lemma stage_tryM:
  assumes "stage m Q" "\<And>x. stage (f x) (\<lambda>y es. True)"
  shows "stage (tryM m f) (\<lambda>y es. True)"
  unfolding stage_def
proof (intro allI impI)
  fix tr out tr' assume "run_state (tryM m f) tr = (out, tr')"
  from stage_then [OF assms(1) this]
  show "\<exists>es. tr' = tr @ es \<and> list_all (\<lambda>e. \<not> malformed_send e) es \<and>
      (case out of Ok x \<Rightarrow> True | Err (st, ev) \<Rightarrow> st = Broken | Panic p \<Rightarrow> True | Pending \<Rightarrow> False)"
  proof cases
    case (1 es)
    then show ?thesis by (auto split: res.splits)
  next
    case (2 x e1)
    obtain e2 where "tr' = (tr @ e1) @ e2" "list_all (\<lambda>e. \<not> malformed_send e) e2"
      "case out of Ok x \<Rightarrow> True | Err (st, ev) \<Rightarrow> st = Broken | Panic p \<Rightarrow> True | Pending \<Rightarrow> False"
      using assms(2) [of x] 2(3) unfolding stage_def by blast
    then show ?thesis using 2(1) by (intro exI [of _ "e1 @ e2"]) simp
  qed
qed

lemma stage_nonces: "stage (nonces_for pe acc) (\<lambda>x es. True)"
  unfolding nonces_for_def
  by (intro stage_quiet emits_intros) (auto simp: stage_def split: sum.splits)

lemma stage_setup:
  "\<not> malformed_send (PSend pid accs i (Inr [])) \<Longrightarrow> stage (submit_setup pe pid acc accs i) (\<lambda>x es. True)"
  unfolding submit_setup_def send_probe_def
  by (rule stage_tryM [OF stage_nonces], cases "pe_message_err pe pid accs i"; cases i)
    (auto intro!: stage_quiet emits_intros stage_ret)

lemma stage_balance: "emits (\<lambda>e. \<not> malformed_send e) (poll_balance_at_least pe acc want n)"
  unfolding poll_balance_at_least_def by (intro emits_intros) auto

lemma stage_fund_senders: "stage (fund_senders pe bad amount accs b) (\<lambda>x es. True)"
proof (induction accs arbitrary: b)
  case (Cons acc accs)
  have "stage (ret (claim_amount amount)) (\<lambda>x es. True)"
    by (simp add: stage_def claim_amount_def)
  moreover have "stage (vault_claim pe acc c) (\<lambda>x es. True)" for c
    unfolding vault_claim_def by (rule stage_setup) simp
  ultimately show ?case
    unfolding fund_senders.simps by (intro stage_tryM) (auto intro!: stage_quiet stage_balance Cons.IH)
qed (simp add: stage_ret)

lemma stage_init_accounts: "stage (init_accounts pe accs) (\<lambda>x es. True)"
proof (induction accs)
  case (Cons acc accs)
  have "stage (at_initialize pe acc) (\<lambda>x es. True)"
    unfolding at_initialize_def by (rule stage_setup) simp
  then show ?case unfolding init_accounts.simps by (rule stage_tryM) (rule Cons.IH)
qed (simp add: stage_ret)

lemma stage_fund: "stage (fund_and_init pe px amount) (\<lambda>x es. True)"
  unfolding fund_and_init_def
  by (intro stage_tryM [OF stage_fund_senders] stage_tryM [OF stage_init_accounts] stage_quiet stage_balance)
    (auto intro!: emits_wait stage_ret stage_broken)

text \<open>What each control leaves when it goes on.\<close>

definition valid_left :: "probe_env \<Rightarrow> probe_accounts \<Rightarrow> u128 \<Rightarrow> bool \<Rightarrow> bool \<Rightarrow> probe_trace \<Rightarrow> bool" where
  "valid_left pe px amount funded b es \<longleftrightarrow>
     b \<and> landed (pe_at_program pe) [px_sender px, px_valid px] amount es \<and>
     (if funded then \<exists>v\<in>set (reads_of (px_valid px) es). amount \<le> v else True)"

definition same_left :: "probe_env \<Rightarrow> probe_accounts \<Rightarrow> u128 \<Rightarrow> bool \<Rightarrow> bool \<times> u128 \<Rightarrow> probe_trace \<Rightarrow> bool" where
  "same_left pe px amount funded r es \<longleftrightarrow>
     fst r \<and>
     (if funded
      then landed (pe_at_program pe) [px_bad px, px_invalid px] amount es \<and>
           (\<exists>v\<in>set (reads_of (px_invalid px) es). amount \<le> v) \<and>
           baseline_in (px_invalid px) amount (snd r) es
      else snd r = 0)"

lemma stage_valid: "stage (valid_control pe px amount funded) (valid_left pe px amount funded)"
  unfolding stage_def valid_left_def using valid_control_run by blast

lemma stage_same:
  "stage (if funded then same_sender_control pe px amount else ret (Ok (True, 0))) (same_left pe px amount funded)"
proof (cases funded)
  case True
  have "stage (same_sender_control pe px amount) (same_left pe px amount True)"
    unfolding stage_def
  proof (intro allI impI)
    fix tr out tr' assume "run_state (same_sender_control pe px amount) tr = (out, tr')"
    from same_sender_control_run [OF this]
    show "\<exists>es. tr' = tr @ es \<and> list_all (\<lambda>e. \<not> malformed_send e) es \<and>
      (case out of Ok r \<Rightarrow> same_left pe px amount True r es
       | Err (st, ev) \<Rightarrow> st = Broken | Panic p \<Rightarrow> True | Pending \<Rightarrow> False)"
      by (cases out) (auto simp: same_left_def baseline_in_def)
  qed
  then show ?thesis using True by simp
qed (simp add: stage_ret same_left_def)

lemma stage_target:
  "stage (check_target pe rpc)
     (\<lambda>x es. \<exists>ids. PProgramIds (Inr ids) \<in> set es \<and>
        map_of (rev ids) ''authenticated_transfer'' = Some (pe_at_program pe))"
  unfolding stage_def check_target_def verdict_of_def
  by (auto simp: run_simps split: if_splits sum.splits option.splits)

lemma stage_if_funded: "stage (if funded then fund_and_init pe px amount else ret (Ok ())) (\<lambda>x es. True)"
  by (simp add: stage_fund stage_ret)

lemma baseline_later: "baseline_in acc amount base ys \<Longrightarrow> baseline_in acc amount base (xs @ ys)"
  by (auto simp: baseline_in_def)

lemma controls_left:
  assumes "valid_left pe px amount funded b e2" "same_left pe px amount funded (l, base) e3"
  shows "controls_ok pe px amount funded (e1 @ e2 @ e3)"
    "if funded then baseline_in (px_invalid px) amount base (e1 @ e2 @ e3) else base = 0"
proof -
  have "landed (pe_at_program pe) [px_sender px, px_valid px] amount (e1 @ e2 @ e3)"
    using assms(1) by (intro landed_later landed_more) (simp add: valid_left_def)
  moreover have "funded \<Longrightarrow> landed (pe_at_program pe) [px_bad px, px_invalid px] amount (e1 @ e2 @ e3)"
    using assms(2) by (intro landed_later) (simp add: same_left_def)
  moreover have "funded \<Longrightarrow> \<exists>v\<in>set (reads_of (px_valid px) (e1 @ e2 @ e3)). amount \<le> v"
    using assms(1) by (simp add: valid_left_def bex_Un)
  moreover have "funded \<Longrightarrow> \<exists>v\<in>set (reads_of (px_invalid px) (e1 @ e2 @ e3)). amount \<le> v"
    using assms(2) by (simp add: same_left_def bex_Un)
  ultimately show "controls_ok pe px amount funded (e1 @ e2 @ e3)"
    by (simp add: controls_ok_def)
  show "if funded then baseline_in (px_invalid px) amount base (e1 @ e2 @ e3) else base = 0"
    using assms(2) baseline_later [of "px_invalid px" amount base e3 "e1 @ e2"] by (simp add: same_left_def split: if_splits)
qed

lemma probe_end_early:
  assumes "list_all (\<lambda>e. \<not> malformed_send e) es"
    and "case out of Ok x \<Rightarrow> False | Err (st, ev) \<Rightarrow> st = Broken | Panic p \<Rightarrow> True | Pending \<Rightarrow> False"
  shows "probe_end pe px amount funded es out"
  using assms by (auto simp: probe_end_def split: res.splits)

lemma probe_end_late:
  assumes "list_all (\<lambda>e. \<not> malformed_send e) pre" "controls_ok pe px amount funded pre"
    and "if funded then baseline_in (px_invalid px) amount base pre else base = 0"
    and "run_state (malformed_transfer pe px amount funded True base) tr = (out, tr')"
  shows "\<exists>es. tr' = tr @ es \<and> probe_end pe px amount funded (pre @ es) out"
proof -
  let ?send = "PSend (pe_at_program pe) [px_bad px, px_invalid px] (BareAmount amount)"
  obtain ns es where es: "tr' = tr @ PNonces (px_bad px) ns # es" and out: "case out of Ok x \<Rightarrow> False
     | Err (st, ev) \<Rightarrow>
         (\<exists>r mid. es = ?send r # mid \<and> list_all (\<lambda>e. \<not> malformed_send e) mid \<and>
           verdict_fits pe px amount funded (sat_add base amount) r mid st)
     | Panic p \<Rightarrow> list_all (\<lambda>e. \<not> malformed_send e) es \<or>
         (\<exists>r mid. es = ?send r # mid \<and> list_all (\<lambda>e. \<not> malformed_send e) mid)
     | Pending \<Rightarrow> False"
    using malformed_transfer_run [OF assms(4)] by blast
  let ?all = "pre @ PNonces (px_bad px) ns # es"
  have att: "attempted pe px amount funded ?all base r mid"
    if "es = ?send r # mid" "list_all (\<lambda>e. \<not> malformed_send e) mid" for r mid
    unfolding attempted_def using that assms(1-3) by (intro exI [of _ pre] exI [of _ ns]) simp
  have "probe_end pe px amount funded ?all out"
  proof (cases out)
    case (Err v)
    then show ?thesis using out att by (cases v) (auto simp: probe_end_def)
  next
    case (Panic p)
    then show ?thesis using out att assms(1) by (auto simp: probe_end_def)
  qed (use out in \<open>simp_all add: probe_end_def\<close>)
  then show ?thesis using es by blast
qed

text \<open>
  C32. Whatever the sequencer answers, the chain probe submits at most one malformed transfer, and
  only after a well-formed transfer was accepted and seen included and, when it runs funded, the
  recipient was credited and the very pair of accounts of the malformed transfer moved funds too.
  A run ends in a verdict or a panic, and so far this holds of a panic too. The verdict before
  the malformed transfer is broken; after it, it fits the evidence: pass exactly when the
  sequencer answered with its code for invalid parameters; fail only when a later read shows the
  recipient at the baseline plus the amount; red only when the transfer was seen included or a
  later transfer of the same sender was, and, funded, when there was a successful read and every
  one stayed below; broken when no read succeeded or neither inclusion was seen.
\<close>

theorem verdict_conclusive:
  "case run_state (probe_run pe px a) tr of (out, tr') \<Rightarrow>
     \<exists>es. tr' = tr @ es \<and> probe_end pe px (pa_amount a) (pa_funded a) es out"
proof -
  obtain out tr' where run: "run_state (probe_run pe px a) tr = (out, tr')" by fastforce
  have "\<exists>es. tr' = tr @ es \<and> probe_end pe px (pa_amount a) (pa_funded a) es out"
  proof (rule stage_then [OF stage_if_funded run [unfolded probe_run_def]])
    fix x e1 assume e1: "list_all (\<lambda>e. \<not> malformed_send e) e1"
      and r1: "run_state (tryM (valid_control pe px (pa_amount a) (pa_funded a)) (\<lambda>valid_included.
        tryM (if pa_funded a then same_sender_control pe px (pa_amount a) else ret (Ok (True, 0)))
          (\<lambda>(ctrl_included, baseline). malformed_transfer pe px (pa_amount a) (pa_funded a)
            (valid_included \<and> ctrl_included) baseline))) (tr @ e1) = (out, tr')"
    show ?thesis
    proof (rule stage_then [OF stage_valid r1])
      fix b e2 assume e2: "list_all (\<lambda>e. \<not> malformed_send e) e2" "valid_left pe px (pa_amount a) (pa_funded a) b e2"
        and r2: "run_state (tryM (if pa_funded a then same_sender_control pe px (pa_amount a) else ret (Ok (True, 0)))
          (\<lambda>(ctrl_included, baseline). malformed_transfer pe px (pa_amount a) (pa_funded a)
            (b \<and> ctrl_included) baseline)) ((tr @ e1) @ e2) = (out, tr')"
      show ?thesis
      proof (rule stage_then [OF stage_same r2])
        fix r e3 assume e3: "list_all (\<lambda>e. \<not> malformed_send e) e3" "same_left pe px (pa_amount a) (pa_funded a) r e3"
          and r3: "run_state (case r of (ctrl_included, baseline) \<Rightarrow> malformed_transfer pe px (pa_amount a)
            (pa_funded a) (b \<and> ctrl_included) baseline) (((tr @ e1) @ e2) @ e3) = (out, tr')"
        obtain l base where r: "r = (l, base)" by fastforce
        note left = controls_left [OF e2(2) e3(2) [unfolded r], of e1]
        have "b \<and> l" using e2(2) e3(2) by (simp add: r valid_left_def same_left_def)
        have "run_state (malformed_transfer pe px (pa_amount a) (pa_funded a) True base) (((tr @ e1) @ e2) @ e3) = (out, tr')"
          using r3 \<open>b \<and> l\<close> by (simp add: r)
        from probe_end_late [OF _ left this] e1 e2(1) e3(1) show ?thesis by fastforce
      qed (use e1 e2 in \<open>auto intro!: probe_end_early\<close>)
    qed (use e1 in \<open>auto intro!: probe_end_early\<close>)
  qed (auto intro!: probe_end_early)
  with run show ?thesis by simp
qed

end
