(* ===== verification/Swap_Demo.thy ===== *)
theory Swap_Demo
  imports Swap_Cli
begin

text \<open>
  The local demonstration: the scaffold tool and its wallet (\<open>src/scaffold.rs\<close>), the demo
  environment (\<open>src/demo.rs\<close>), the commands \<open>demo\<close> and \<open>infra\<close> (\<open>src/cli/demo.rs\<close>,
  \<open>src/cli/infra.rs\<close>). Setting up is recorded in a trace of its own. The two sides of the demo's
  swap run side by side, each over a trace of its own, in which the other one shows only in what
  the environment answers. The theorems: a setup that succeeds read a balance that covers the
  lock, after at most twelve top-ups; the configurations it returns agree and pass the maker's time
  lock check; and the localnet is stopped exactly when the command started it.
\<close>

section \<open>Events and the environment\<close>

record command_output =
  out_success :: bool
  out_stdout :: string
  out_stderr :: string

record wallet_data =
  wd_ids :: "account_id list"
  wd_sequencers :: "string list"

record anvil_node =
  an_ws :: string
  an_keys :: "bytes list"

datatype demo_event =
    DCommand "string list" "string + command_output"
  | DCanonicalize string "string option"
  | DExists string bool
  | DWalletOpen bool "(string, wallet_data) res"
  | DNewAccount account_id
  | DPersist "string + unit"
  | DAnvil "string + anvil_node"
  | DEthConnect string "string + unit"
  | DEthDeploy u256 "string + address"
  | DTokenBalance account_id "string + u128"
  | DProgramDeploy "string + unit"
  | DSleep nat
  | DNow u64
  | DReport nat string string
  | DWriteFile string "(string \<times> string) list" "string + unit"
  | DCtrlC "string + unit"
  | DSwap string trace

type_synonym demo_trace = "demo_event list"

record demo_host =
  dh_command :: "demo_trace \<Rightarrow> string list \<Rightarrow> string + command_output"
  dh_canonicalize :: "demo_trace \<Rightarrow> string \<Rightarrow> string option"
  dh_exists :: "demo_trace \<Rightarrow> string \<Rightarrow> bool"
  dh_wallet_open :: "demo_trace \<Rightarrow> string \<Rightarrow> string \<Rightarrow> bool \<Rightarrow> (string, wallet_data) res"
  dh_new_account :: "demo_trace \<Rightarrow> account_id"
  dh_persist :: "demo_trace \<Rightarrow> string + unit"
  dh_anvil :: "demo_trace \<Rightarrow> bool \<Rightarrow> string + anvil_node"
  dh_eth_connect :: "demo_trace \<Rightarrow> string \<Rightarrow> string + unit"
  dh_eth_deploy :: "demo_trace \<Rightarrow> string + address"
  dh_balance :: "demo_trace \<Rightarrow> account_id \<Rightarrow> string + u128"
  dh_program_deploy :: "demo_trace \<Rightarrow> string + unit"
  dh_now :: "demo_trace \<Rightarrow> u64"
  dh_write :: "demo_trace \<Rightarrow> string \<Rightarrow> string + unit"
  dh_ctrl_c :: "demo_trace \<Rightarrow> string + unit"
  dh_ready :: "string \<Rightarrow> bool option"
  dh_base58 :: "account_id \<Rightarrow> string"
  dh_hex :: "bytes \<Rightarrow> string"
  dh_show_address :: "address \<Rightarrow> string"
  dh_address_of :: "bytes \<Rightarrow> address"
  dh_program_id :: program_id
  dh_setup :: lez_setup
  dh_signer_err :: "string \<Rightarrow> string option"
  dh_preimage :: bytes32
  dh_maker_env :: env
  dh_taker_env :: env
  dh_fuel :: nat

type_synonym 'a dio = "(demo_trace, 'a) state"
type_synonym 'a drio = "(demo_trace, (swap_error, 'a) res) state"

definition dask :: "('a \<Rightarrow> demo_event) \<Rightarrow> (demo_trace \<Rightarrow> 'a) \<Rightarrow> 'a dio" where
  "dask mk answer = State (\<lambda>tr. (answer tr, tr @ [mk (answer tr)]))"

definition dsleep :: "nat \<Rightarrow> unit dio" where
  "dsleep ms = dask (\<lambda>_. DSleep ms) (\<lambda>_. ())"

text \<open>An awaited call whose failure becomes an error, and \<open>unwrap\<close>.\<close>

definition dtry :: "(string \<Rightarrow> swap_error) \<Rightarrow> ('a \<Rightarrow> demo_event) \<Rightarrow> (demo_trace \<Rightarrow> 'a) \<Rightarrow> ('a \<Rightarrow> string + 'b) \<Rightarrow> 'b drio" where
  "dtry err mk answer result = do {
     a \<leftarrow> dask mk answer;
     ret (case result a of Inl e \<Rightarrow> Err (err e) | Inr b \<Rightarrow> Ok b) }"

fun unwrapped :: "('e, 'a) res \<Rightarrow> ('f, 'a) res" where
  "unwrapped (Ok a) = Ok a"
| "unwrapped (Err e) = Panic ''called unwrap on an Err value''"
| "unwrapped (Panic p) = Panic p"
| "unwrapped Pending = Pending"

definition unwrapM :: "('w, ('e, 'a) res) state \<Rightarrow> ('w, ('f, 'a) res) state" where
  "unwrapM m = do { r \<leftarrow> m; ret (unwrapped r) }"

definition index :: "'a list \<Rightarrow> nat \<Rightarrow> ('e, 'a) res" where
  "index xs i = (if i < length xs then Ok (xs ! i) else Panic ''index out of bounds'')"

section \<open>The scaffold tool and its wallet\<close>

definition wallet_home :: string where "wallet_home = ''.scaffold/wallet''"

definition scaffold_command :: "demo_host \<Rightarrow> string list \<Rightarrow> (string + command_output) dio" where
  "scaffold_command dh args = dask (DCommand args) (\<lambda>tr. dh_command dh tr args)"

definition wallet_config_path :: "demo_host \<Rightarrow> string \<Rightarrow> string option dio" where
  "wallet_config_path dh home = do {
     a \<leftarrow> dask (DExists (home @ ''/config.json'')) (\<lambda>tr. dh_exists dh tr (home @ ''/config.json''));
     if a then ret (Some (home @ ''/config.json''))
     else do {
       b \<leftarrow> dask (DExists (home @ ''/wallet_config.json'')) (\<lambda>tr. dh_exists dh tr (home @ ''/wallet_config.json''));
       ret (if b then Some (home @ ''/wallet_config.json'') else None) } }"

definition wallet_core :: "demo_host \<Rightarrow> string \<Rightarrow> wallet_data drio" where
  "wallet_core dh home = do {
     c \<leftarrow> dask (DCanonicalize home) (\<lambda>tr. dh_canonicalize dh tr home);
     (case c of
        None \<Rightarrow> ret (Err (Scaffold (''wallet home '' @ home @ '' not found'')))
      | Some abs_home \<Rightarrow> do {
          p \<leftarrow> wallet_config_path dh abs_home;
          (case p of
             None \<Rightarrow> ret (Err (Scaffold (''no wallet config in '' @ abs_home)))
           | Some config_path \<Rightarrow> do {
               there \<leftarrow> dask (DExists (abs_home @ ''/storage.json'')) (\<lambda>tr. dh_exists dh tr (abs_home @ ''/storage.json''));
               w \<leftarrow> dask (DWalletOpen (\<not> there))
                     (\<lambda>tr. dh_wallet_open dh tr config_path (abs_home @ ''/storage.json'') (\<not> there));
               ret (case w of
                      Ok wc \<Rightarrow> Ok wc
                    | Err e \<Rightarrow> Err (Scaffold (''failed to initialize wallet: '' @ e))
                    | Panic p \<Rightarrow> Err (Scaffold ''wallet init thread panicked'')
                    | Pending \<Rightarrow> Pending) }) }) }"

text \<open>The loop runs while there are fewer than two accounts; every round adds one.\<close>

fun add_accounts :: "nat \<Rightarrow> demo_host \<Rightarrow> account_id list \<Rightarrow> account_id list drio" where
  "add_accounts 0 dh ids = ret (Ok ids)"
| "add_accounts (Suc missing) dh ids = do {
     acc \<leftarrow> dask DNewAccount (dh_new_account dh);
     tryM (dtry (\<lambda>e. Scaffold (''failed to persist wallet storage: '' @ e)) DPersist (dh_persist dh) (\<lambda>r. r))
       (\<lambda>_. add_accounts missing dh (ids @ [acc])) }"

definition public_accounts :: "demo_host \<Rightarrow> wallet_data \<Rightarrow> account_id list drio" where
  "public_accounts dh wc = add_accounts (2 - length (wd_ids wc)) dh (wd_ids wc)"

definition sequencer_url_of :: "wallet_data \<Rightarrow> string" where
  "sequencer_url_of wc = (case wd_sequencers wc of [] \<Rightarrow> [] | url # _ \<Rightarrow> url)"

definition localnet_is_running :: "demo_host \<Rightarrow> bool dio" where
  "localnet_is_running dh = do {
     r \<leftarrow> scaffold_command dh [''localnet'', ''status'', ''--json''];
     ret (case r of
            Inr co \<Rightarrow> if out_success co then (case dh_ready dh (out_stdout co) of Some b \<Rightarrow> b | None \<Rightarrow> False) else False
          | Inl e \<Rightarrow> False) }"

definition scaffold_run :: "demo_host \<Rightarrow> string list \<Rightarrow> string \<Rightarrow> string \<Rightarrow> unit drio" where
  "scaffold_run dh args not_run failed =
     dtry Scaffold (DCommand args) (\<lambda>tr. dh_command dh tr args)
       (\<lambda>r. case r of
          Inl e \<Rightarrow> Inl (not_run @ e)
        | Inr co \<Rightarrow> if out_success co then Inr () else Inl (failed @ out_stderr co))"

definition localnet_start :: "demo_host \<Rightarrow> unit drio" where
  "localnet_start dh = do {
     running \<leftarrow> localnet_is_running dh;
     if running then ret (Ok ())
     else scaffold_run dh [''localnet'', ''start''] ''failed to run logos-scaffold: '' ''localnet start failed: '' }"

text \<open>A failure to stop is only printed.\<close>

definition localnet_stop :: "demo_host \<Rightarrow> unit dio" where
  "localnet_stop dh = do { scaffold_command dh [''localnet'', ''stop'']; ret () }"

definition wallet_topup :: "demo_host \<Rightarrow> string option \<Rightarrow> unit drio" where
  "wallet_topup dh acc =
     scaffold_run dh ([''wallet'', ''topup''] @ (case acc of Some a \<Rightarrow> [a] | None \<Rightarrow> []))
       ''wallet topup failed: '' ''wallet topup failed: ''"

section \<open>The demo environment\<close>

definition block_wait :: nat where "block_wait = 4000"
definition demo_lez_amount :: u128 where "demo_lez_amount = 1000"
definition max_topup_claims :: nat where "max_topup_claims = 12"

text \<open>The funding loop; \<open>left\<close> is the number of claims that it may still make.\<close>

fun fund_maker :: "nat \<Rightarrow> demo_host \<Rightarrow> account_id \<Rightarrow> unit drio" where
  "fund_maker 0 dh acc =
     tryM (dtry (\<lambda>e. LezSequencer (''get_account_balance failed: '' @ e)) (DTokenBalance acc) (\<lambda>tr. dh_balance dh tr acc) (\<lambda>r. r))
       (\<lambda>balance. if demo_lez_amount \<le> balance then ret (Ok ())
                  else ret (Err (Scaffold ''maker account does not hold the amount after the faucet claims'')))"
| "fund_maker (Suc left) dh acc =
     tryM (dtry (\<lambda>e. LezSequencer (''get_account_balance failed: '' @ e)) (DTokenBalance acc) (\<lambda>tr. dh_balance dh tr acc) (\<lambda>r. r))
       (\<lambda>balance. if demo_lez_amount \<le> balance then ret (Ok ())
                  else tryM (wallet_topup dh (Some (dh_base58 dh acc))) (\<lambda>_. do {
                         dsleep block_wait;
                         fund_maker left dh acc }))"

definition progress_report :: "nat \<Rightarrow> string \<Rightarrow> string \<Rightarrow> unit dio" where
  "progress_report step label detail = dask (\<lambda>_. DReport step label detail) (\<lambda>_. ())"

text \<open>The first eight characters of an account id; the slice panics on a shorter one.\<close>

definition short_id :: "string \<Rightarrow> (swap_error, string) res" where
  "short_id s = (if length s < 8 then Panic ''byte index 8 is out of bounds'' else Ok (take 8 s))"

definition demo_config ::
  "demo_host \<Rightarrow> anvil_node \<Rightarrow> address \<Rightarrow> string \<Rightarrow> u64 \<Rightarrow> bytes \<Rightarrow> bytes \<Rightarrow> account_id \<Rightarrow> swap_config" where
  "demo_config dh anvil htlc sequencer_url now key0 key acc =
     \<lparr> eth_rpc_url = an_ws anvil, eth_private_key = dh_hex dh key, eth_htlc_address = htlc,
       lez_sequencer_url = sequencer_url, lez_sequencer_url_explicit = False,
       lez_auth_mode = Wallet wallet_home acc, lez_htlc_program_id = dh_program_id dh,
       lez_amount = demo_lez_amount, eth_amount = 1000000,
       lez_timelock = now + 300, eth_timelock = now + 600,
       eth_recipient_address = dh_address_of dh key0, lez_taker_account_id = None, poll_interval = 500 \<rparr>"

definition deploy_demo_program :: "demo_host \<Rightarrow> unit drio" where
  "deploy_demo_program dh =
     tryM (dtry (\<lambda>e. LezTransaction (''program deploy failed: '' @ e)) DProgramDeploy (dh_program_deploy dh) (\<lambda>r. r))
       (\<lambda>_. do { dsleep block_wait; ret (Ok ()) })"

definition demo_sequencer :: "demo_host \<Rightarrow> string \<Rightarrow> (swap_error, unit) res" where
  "demo_sequencer dh url =
     (case sequencer_client (dh_setup dh) url of
        Ok u \<Rightarrow> Ok u
      | Err e \<Rightarrow> Err (LezSequencer (''failed to create client: '' @ e))
      | Panic p \<Rightarrow> Panic p
      | Pending \<Rightarrow> Pending)"

text \<open>Both accounts and what is shown of them.\<close>

definition demo_pair :: "demo_host \<Rightarrow> account_id list \<Rightarrow> (swap_error, account_id \<times> account_id \<times> string) res" where
  "demo_pair dh accounts =
     res_bind (index accounts 0) (\<lambda>m. res_bind (short_id (dh_base58 dh m)) (\<lambda>sm.
     res_bind (index accounts 1) (\<lambda>t. res_bind (short_id (dh_base58 dh t)) (\<lambda>st.
       Ok (m, t, ''maker='' @ sm @ '' taker='' @ st)))))"

definition demo_start :: "demo_host \<Rightarrow> (swap_config \<times> swap_config) drio" where
  "demo_start dh = do {
     progress_report 1 ''Reading scaffold wallet'' [];
     tryM (wallet_core dh wallet_home) (\<lambda>wc. do {
       progress_report 1 ''Reading scaffold wallet'' ''OK'';
       progress_report 2 ''Starting Anvil'' [];
       tryM (dtry (\<lambda>e. InvalidConfig (''failed to start Anvil: '' @ e)) DAnvil (\<lambda>tr. dh_anvil dh tr False) (\<lambda>r. r)) (\<lambda>anvil. do {
         progress_report 2 ''Starting Anvil'' (an_ws anvil);
         progress_report 3 ''Deploying EthHTLC contract'' [];
         tryM (ret (index (an_keys anvil) 0)) (\<lambda>key0.
         tryM (dtry (\<lambda>e. EthRpc (''WS connect failed: '' @ e)) (DEthConnect (an_ws anvil)) (\<lambda>tr. dh_eth_connect dh tr (an_ws anvil)) (\<lambda>r. r)) (\<lambda>_.
         tryM (dtry (\<lambda>e. EthRpc (''EthHTLC deploy failed: '' @ e)) (DEthDeploy 60) (dh_eth_deploy dh) (\<lambda>r. r)) (\<lambda>htlc. do {
           progress_report 3 ''Deploying EthHTLC contract'' (dh_show_address dh htlc);
           progress_report 4 ''Reading wallet accounts'' [];
           tryM (public_accounts dh wc) (\<lambda>accounts.
           tryM (ret (demo_sequencer dh (sequencer_url_of wc))) (\<lambda>_.
           tryM (ret (demo_pair dh accounts)) (\<lambda>(m, t, shown). do {
             progress_report 4 ''Reading wallet accounts'' shown;
             progress_report 5 ''Deploying LEZ HTLC program'' [];
             tryM (wallet_topup dh (Some (dh_base58 dh t))) (\<lambda>_.
             tryM (fund_maker max_topup_claims dh m) (\<lambda>_.
             tryM (deploy_demo_program dh) (\<lambda>_. do {
               progress_report 5 ''Deploying LEZ HTLC program'' ''deployed'';
               now \<leftarrow> dask DNow (dh_now dh);
               ret (res_bind (index (an_keys anvil) 1) (\<lambda>key1.
                 Ok (demo_config dh anvil htlc (sequencer_url_of wc) now key0 key0 m,
                     demo_config dh anvil htlc (sequencer_url_of wc) now key0 key1 t))) }))) }))) }))) }) }) }"

section \<open>The demo command\<close>

text \<open>The bodies of the two spawned tasks.\<close>

definition demo_maker_task :: "demo_host \<Rightarrow> swap_config \<Rightarrow> bytes32 \<Rightarrow> swap_outcome rio" where
  "demo_maker_task dh cfg hashlock =
     tryM (unwrapM (eth_client_new (dh_signer_err dh) (dh_maker_env dh) cfg)) (\<lambda>eth.
     tryM (unwrapM (ret (lez_client_new (dh_setup dh) cfg))) (\<lambda>lez.
       run_maker (dh_fuel dh)
         \<lparr> mr_env = dh_maker_env dh, mr_setup = dh_setup dh, mr_signer_err = dh_signer_err dh, mr_config = cfg,
           mr_eth = eth, mr_lez = lez, mr_progress = True, mr_guards = None \<rparr> (Some hashlock) False))"

definition demo_taker_task :: "demo_host \<Rightarrow> swap_config \<Rightarrow> bytes32 \<Rightarrow> swap_outcome rio" where
  "demo_taker_task dh cfg preimage =
     tryM (unwrapM (eth_client_new (dh_signer_err dh) (dh_taker_env dh) cfg)) (\<lambda>eth.
     tryM (unwrapM (ret (lez_client_new (dh_setup dh) cfg))) (\<lambda>lez. do {
       sleep 3000;
       run_taker (dh_fuel dh)
         \<lparr> tk_env = dh_taker_env dh, tk_setup = dh_setup dh, tk_config = cfg, tk_eth = eth, tk_lez = lez,
           tk_progress = True \<rparr> preimage }))"

text \<open>A task is joined with its result; a task that panicked makes \<open>unwrap\<close> panic.\<close>

definition join_task :: "string \<Rightarrow> swap_outcome rio \<Rightarrow> (swap_error, swap_outcome) res dio" where
  "join_task role m = (let (r, tr) = run_state m [] in do { dask (\<lambda>_. DSwap role tr) (\<lambda>_. ()); ret r })"

definition run_demo :: "demo_host \<Rightarrow> ((string \<times> outcome_view) list) drio" where
  "run_demo dh =
     tryM (demo_start dh) (\<lambda>(maker_config, taker_config).
       let hashlock = c_sha256 (dh_maker_env dh) (dh_preimage dh) in do {
         mr \<leftarrow> join_task ''maker'' (demo_maker_task dh maker_config hashlock);
         tk \<leftarrow> join_task ''taker'' (demo_taker_task dh taker_config (dh_preimage dh));
         ret (if mr = Pending \<or> tk = Pending then Pending
              else res_bind mr (\<lambda>mo. res_bind tk (\<lambda>to.
                Ok [(''Maker'', print_swap_outcome (dh_maker_env dh) mo),
                    (''Taker'', print_swap_outcome (dh_taker_env dh) to)]))) })"

definition cmd_demo :: "demo_host \<Rightarrow> bool \<Rightarrow> ((string \<times> outcome_view) list) drio" where
  "cmd_demo dh no_localnet =
     tryM (if no_localnet then ret (Ok ()) else localnet_start dh) (\<lambda>_. do {
       result \<leftarrow> run_demo dh;
       (case result of
          Panic p \<Rightarrow> ret (Panic p)
        | Pending \<Rightarrow> ret Pending
        | _ \<Rightarrow> do { (if no_localnet then ret () else localnet_stop dh); ret result }) })"

section \<open>The infra command\<close>

record env_params =
  ep_eth_rpc_url :: string
  ep_eth_private_key :: string
  ep_eth_htlc_address :: string
  ep_lez_sequencer_url :: string
  ep_lez_auth :: lez_auth
  ep_lez_htlc_program_id :: string
  ep_lez_amount :: u128
  ep_eth_amount :: string
  ep_eth_recipient :: string
  ep_lez_taker_account :: string
  ep_lee_wallet_home_dir :: string

text \<open>The assignments of the file, without its comments.\<close>

definition env_assignments :: "demo_host \<Rightarrow> env_params \<Rightarrow> (string \<times> string) list" where
  "env_assignments dh p =
     [(''ETH_RPC_URL'', ep_eth_rpc_url p), (''ETH_PRIVATE_KEY'', ep_eth_private_key p),
      (''ETH_HTLC_ADDRESS'', ep_eth_htlc_address p), (''LEZ_SEQUENCER_URL'', ep_lez_sequencer_url p)] @
     (case ep_lez_auth p of
        RawKey key \<Rightarrow> [(''LEZ_SIGNING_KEY'', key)]
      | Wallet home acc \<Rightarrow> [(''LEZ_WALLET_HOME'', home), (''LEZ_ACCOUNT_ID'', dh_base58 dh acc)]) @
     [(''LEZ_HTLC_PROGRAM_ID'', ep_lez_htlc_program_id p), (''LEZ_AMOUNT'', show_nat (unat (ep_lez_amount p))),
      (''ETH_AMOUNT'', ep_eth_amount p), (''ETH_TIMELOCK_MINUTES'', ''15''), (''LEZ_TIMELOCK_MINUTES'', ''5''),
      (''ETH_RECIPIENT_ADDRESS'', ep_eth_recipient p), (''LEZ_TAKER_ACCOUNT_ID'', ep_lez_taker_account p),
      (''POLL_INTERVAL_MS'', ''500''), (''LEE_WALLET_HOME_DIR'', ep_lee_wallet_home_dir p)]"

definition write_env_file :: "demo_host \<Rightarrow> string \<Rightarrow> env_params \<Rightarrow> unit drio" where
  "write_env_file dh path p =
     dtry (\<lambda>e. InvalidConfig (''failed to write '' @ path @ '': '' @ e)) (DWriteFile path (env_assignments dh p))
       (\<lambda>tr. dh_write dh tr path) (\<lambda>r. r)"

definition infra_params ::
  "demo_host \<Rightarrow> anvil_node \<Rightarrow> address \<Rightarrow> string \<Rightarrow> string \<Rightarrow> bytes \<Rightarrow> account_id \<Rightarrow> bytes \<Rightarrow> account_id \<Rightarrow> env_params" where
  "infra_params dh anvil htlc sequencer_url home_abs key0 taker key acc =
     \<lparr> ep_eth_rpc_url = an_ws anvil, ep_eth_private_key = dh_hex dh key, ep_eth_htlc_address = dh_show_address dh htlc,
       ep_lez_sequencer_url = sequencer_url, ep_lez_auth = Wallet wallet_home acc,
       ep_lez_htlc_program_id = program_id_to_hex (dh_hex dh) (dh_program_id dh), ep_lez_amount = 10,
       ep_eth_amount = ''10'', ep_eth_recipient = dh_show_address dh (dh_address_of dh key0),
       ep_lez_taker_account = dh_base58 dh taker, ep_lee_wallet_home_dir = home_abs \<rparr>"

definition cmd_infra :: "demo_host \<Rightarrow> unit drio" where
  "cmd_infra dh =
     tryM (wallet_core dh wallet_home) (\<lambda>wc.
     tryM (public_accounts dh wc) (\<lambda>accounts.
     let sequencer_url = sequencer_url_of wc in
     tryM (ret (demo_sequencer dh sequencer_url)) (\<lambda>_.
     tryM (ret (demo_pair dh accounts)) (\<lambda>(m, t, shown).
     tryM (wallet_topup dh (Some (dh_base58 dh m))) (\<lambda>_.
     tryM (wallet_topup dh (Some (dh_base58 dh t))) (\<lambda>_.
     tryM (unwrapM (dtry InvalidConfig DAnvil (\<lambda>tr. dh_anvil dh tr True) (\<lambda>r. r))) (\<lambda>anvil.
     tryM (ret (index (an_keys anvil) 0)) (\<lambda>key0.
     tryM (unwrapM (dtry EthRpc (DEthConnect (an_ws anvil)) (\<lambda>tr. dh_eth_connect dh tr (an_ws anvil)) (\<lambda>r. r))) (\<lambda>_.
     tryM (unwrapM (dtry EthRpc (DEthDeploy 60) (dh_eth_deploy dh) (\<lambda>r. r))) (\<lambda>htlc.
     tryM (unwrapM (dtry LezTransaction DProgramDeploy (dh_program_deploy dh) (\<lambda>r. r))) (\<lambda>_. do {
       dsleep block_wait;
       c \<leftarrow> dask (DCanonicalize wallet_home) (\<lambda>tr. dh_canonicalize dh tr wallet_home);
       (let home_abs = (case c of Some h \<Rightarrow> h | None \<Rightarrow> wallet_home) in
        tryM (write_env_file dh ''.env'' (infra_params dh anvil htlc sequencer_url home_abs key0 t key0 m)) (\<lambda>_.
        tryM (ret (index (an_keys anvil) 1)) (\<lambda>key1.
        tryM (write_env_file dh ''.env.taker'' (infra_params dh anvil htlc sequencer_url home_abs key0 t key1 t)) (\<lambda>_.
          dtry (\<lambda>e. InvalidConfig (''signal error: '' @ e)) DCtrlC (dh_ctrl_c dh) (\<lambda>r. r))))) })))))))))))"

section \<open>The funding loop\<close>

lemma emits_dask [emits_intros]: "(\<And>a. P (mk a)) \<Longrightarrow> emits P (dask mk f)"
  by (simp add: emits_def dask_def)

lemma run_dask [run_simps]: "run_state (dask mk f) tr = (f tr, tr @ [mk (f tr)])"
  by (simp add: dask_def)

lemma run_dtry [run_simps]:
  "run_state (dtry err mk f g) tr = (case g (f tr) of Inl e \<Rightarrow> Err (err e) | Inr b \<Rightarrow> Ok b, tr @ [mk (f tr)])"
  by (simp add: dtry_def run_dask)

lemma emits_dtry [emits_intros]: "(\<And>a. P (mk a)) \<Longrightarrow> emits P (dtry err mk f g)"
  unfolding dtry_def by (intro emits_intros)

lemma run_dsleep [run_simps]: "run_state (dsleep ms) tr = ((), tr @ [DSleep ms])"
  by (simp add: dsleep_def run_dask)

text \<open>The commands in a trace.\<close>

fun topups :: "demo_trace \<Rightarrow> nat" where
  "topups [] = 0"
| "topups (DCommand args r # es) = (if take 2 args = [''wallet'', ''topup''] then Suc (topups es) else topups es)"
| "topups (e # es) = topups es"

lemma topups_append [simp]: "topups (xs @ ys) = topups xs + topups ys"
  by (induction xs rule: topups.induct) auto

lemma topups_Cons [simp]:
  "topups (DTokenBalance a r # es) = topups es" "topups (DSleep ms # es) = topups es"
  by simp_all

lemma run_topup:
  "\<exists>r. run_state (wallet_topup dh (Some a)) tr = (fst (run_state (wallet_topup dh (Some a)) tr), tr @ [DCommand [''wallet'', ''topup'', a] r]) \<and>
       fst (run_state (wallet_topup dh (Some a)) tr) \<noteq> Pending \<and> (\<forall>p. fst (run_state (wallet_topup dh (Some a)) tr) \<noteq> Panic p)"
  by (simp add: wallet_topup_def scaffold_run_def run_simps split: sum.splits)

text \<open>
  A funding that succeeds ends with a read that covers the lock, and it makes at most as many
  claims as it may; the demo allows twelve.
\<close>

lemma fund_maker_bounded:
  "run_state (fund_maker n dh acc) tr = (out, tr') \<Longrightarrow>
   \<exists>es. tr' = tr @ es \<and> topups es \<le> n \<and>
     (case out of
        Ok u \<Rightarrow> \<exists>es0 v. es = es0 @ [DTokenBalance acc (Inr v)] \<and> demo_lez_amount \<le> v
      | Err e \<Rightarrow> True | _ \<Rightarrow> False)"
proof (induction n arbitrary: tr)
  case 0
  then show ?case by (auto simp: run_simps split: sum.splits if_splits)
next
  case (Suc n)
  let ?r = "dh_balance dh tr acc"
  consider e where "?r = Inl e" | v where "?r = Inr v" "demo_lez_amount \<le> v" | v where "?r = Inr v" "\<not> demo_lez_amount \<le> v"
    by (cases ?r) auto
  then show ?case
  proof cases
    case 1
    then show ?thesis using Suc.prems by (auto simp: run_simps)
  next
    case 2
    then show ?thesis using Suc.prems by (auto simp: run_simps)
  next
    case (3 v)
    let ?t = "tr @ [DTokenBalance acc ?r]"
    let ?a = "dh_base58 dh acc"
    obtain o1 c where t: "run_state (wallet_topup dh (Some ?a)) ?t = (o1, ?t @ [DCommand [''wallet'', ''topup'', ?a] c])"
      "o1 \<noteq> Pending" "\<forall>p. o1 \<noteq> Panic p"
      using run_topup [of dh ?a ?t] by auto
    show ?thesis
    proof (cases o1)
      case (Ok u)
      let ?e = "[DTokenBalance acc ?r, DCommand [''wallet'', ''topup'', ?a] c, DSleep block_wait]"
      have "run_state (fund_maker n dh acc) (tr @ ?e) = (out, tr')"
        using Suc.prems 3 t Ok by (simp add: run_simps)
      from Suc.IH [OF this] obtain es where "tr' = (tr @ ?e) @ es" "topups es \<le> n"
        "case out of Ok u \<Rightarrow> \<exists>es0 v. es = es0 @ [DTokenBalance acc (Inr v)] \<and> demo_lez_amount \<le> v
         | Err e \<Rightarrow> True | _ \<Rightarrow> False" by blast
      then show ?thesis by (intro exI [of _ "?e @ es"]) (auto split: res.splits)
    qed (use Suc.prems 3 t in \<open>auto simp: run_simps\<close>)
  qed
qed

section \<open>The configurations\<close>

definition returns :: "('a \<Rightarrow> bool) \<Rightarrow> 'a drio \<Rightarrow> bool" where
  "returns Q m \<longleftrightarrow> (\<forall>tr. case fst (run_state m tr) of Ok a \<Rightarrow> Q a | _ \<Rightarrow> True)"

lemma returns_ret: "(\<And>a. r = Ok a \<Longrightarrow> Q a) \<Longrightarrow> returns Q (ret r)"
  by (simp add: returns_def split: res.splits)

lemma returns_bind: "(\<And>a. returns Q (f a)) \<Longrightarrow> returns Q (m \<bind> f)"
  by (simp add: returns_def split: prod.splits)

lemma returns_tryM:
  assumes "\<And>a. returns Q (f a)"
  shows "returns Q (tryM m f)"
  unfolding returns_def
proof
  fix tr
  show "case fst (run_state (tryM m f) tr) of Ok a \<Rightarrow> Q a | _ \<Rightarrow> True"
  proof (cases "run_state m tr")
    case (Pair r tr1)
    then show ?thesis using assms by (cases r) (simp_all add: run_simps returns_def)
  qed
qed

lemma returns_split: "(\<And>a b c. returns Q (f a b c)) \<Longrightarrow> returns Q (case p of (a, b, c) \<Rightarrow> f a b c)"
  by (cases p) simp

text \<open>
  The two configurations agree in everything but the keys and accounts, and the taker's time lock
  is five minutes after the maker's.
\<close>

definition configs_agree :: "swap_config \<times> swap_config \<Rightarrow> bool" where
  "configs_agree c \<longleftrightarrow>
     snd c = fst c\<lparr>eth_private_key := eth_private_key (snd c), lez_auth_mode := lez_auth_mode (snd c)\<rparr> \<and>
     lez_amount (fst c) = demo_lez_amount \<and>
     (\<exists>now. lez_timelock (fst c) = now + 300 \<and> eth_timelock (snd c) = now + 600)"

lemma demo_configs_agree: "returns configs_agree (demo_start dh)"
  unfolding demo_start_def
  by (intro returns_bind returns_tryM returns_split returns_ret)
    (auto simp: res_bind_Ok_iff configs_agree_def demo_config_def)

text \<open>
  So the lock of the demo's taker passes the maker's check, and by nothing more than the margin of
  five minutes; this needs the clock not to be at the end of its range.
\<close>

lemma demo_timelocks_pass_gate:
  assumes "configs_agree (mc, tc)" "unat (lez_timelock mc) + 300 < 2 ^ 64"
  shows "eth_timelock tc = sat_add (lez_timelock mc) default_timelock_margin_secs"
    and "eth_timelock_covers_lez (eth_timelock tc) (lez_timelock mc) default_timelock_margin_secs"
proof -
  obtain now where t: "lez_timelock mc = now + 300" "eth_timelock tc = now + 600"
    using assms(1) by (auto simp: configs_agree_def)
  have "unat (lez_timelock mc) + unat (300 :: u64) < 2 ^ 64" using assms(2) by simp
  then have "sat_add (lez_timelock mc) 300 = lez_timelock mc + 300"
    by (simp add: sat_add_def)
  then show "eth_timelock tc = sat_add (lez_timelock mc) default_timelock_margin_secs"
    by (simp add: default_timelock_margin_secs_def t add.assoc)
  then show "eth_timelock_covers_lez (eth_timelock tc) (lez_timelock mc) default_timelock_margin_secs"
    by (simp add: eth_timelock_covers_lez_def)
qed

section \<open>The localnet\<close>

definition localnet_event :: "string \<Rightarrow> demo_event \<Rightarrow> bool" where
  "localnet_event what e \<longleftrightarrow> (case e of DCommand args r \<Rightarrow> take 2 args = [''localnet'', what] | _ \<Rightarrow> False)"

lemma emits_unwrapM [emits_intros]: "emits P m \<Longrightarrow> emits P (unwrapM m)"
  unfolding unwrapM_def by (intro emits_intros)

lemma not_localnet [simp]:
  "\<not> localnet_event w (DExists x b)" "\<not> localnet_event w (DCanonicalize x c)"
  "\<not> localnet_event w (DWalletOpen b wo)" "\<not> localnet_event w (DNewAccount a)"
  "\<not> localnet_event w (DPersist u)" "\<not> localnet_event w (DAnvil an)" "\<not> localnet_event w (DEthConnect x u)"
  "\<not> localnet_event w (DEthDeploy n ad)" "\<not> localnet_event w (DTokenBalance a v)"
  "\<not> localnet_event w (DProgramDeploy u)" "\<not> localnet_event w (DSleep ms)" "\<not> localnet_event w (DNow t)"
  "\<not> localnet_event w (DReport i x y)" "\<not> localnet_event w (DSwap x tr)"
  "localnet_event w (DCommand args r) \<longleftrightarrow> take 2 args = [''localnet'', w]"
  by (simp_all add: localnet_event_def)

lemma emits_wallet_core: "emits (\<lambda>e. \<not> localnet_event w e) (wallet_core dh home)"
  unfolding wallet_core_def wallet_config_path_def by (intro emits_intros) simp_all

lemma emits_add_accounts: "emits (\<lambda>e. \<not> localnet_event w e) (add_accounts n dh ids)"
  by (induction n arbitrary: ids) (auto intro!: emits_intros)

lemma emits_topup: "emits (\<lambda>e. \<not> localnet_event w e) (wallet_topup dh acc)"
  unfolding wallet_topup_def scaffold_run_def by (intro emits_intros) simp

lemma emits_fund_maker: "emits (\<lambda>e. \<not> localnet_event w e) (fund_maker n dh acc)"
  by (induction n) (auto simp: dsleep_def intro!: emits_intros emits_topup)

lemma emits_demo_start: "emits (\<lambda>e. \<not> localnet_event w e) (demo_start dh)"
  unfolding demo_start_def progress_report_def deploy_demo_program_def dsleep_def public_accounts_def
  by (auto intro!: emits_intros emits_wallet_core emits_add_accounts emits_topup emits_fund_maker)

lemma emits_run_demo: "emits (\<lambda>e. \<not> localnet_event w e) (run_demo dh)"
  unfolding run_demo_def join_task_def Let_def
  by (auto intro!: emits_intros emits_demo_start split: prod.splits)

lemma emits_localnet_start: "emits (\<lambda>e. \<not> localnet_event ''stop'' e) (localnet_start dh)"
  unfolding localnet_start_def localnet_is_running_def scaffold_command_def scaffold_run_def
  by (intro emits_intros) simp_all

text \<open>
  The demo leaves the localnet alone when it is told to. Otherwise it starts it unless it is
  running, and once that succeeded it stops it as the last thing it does, whether the swap
  succeeds or fails; a localnet that was running before is stopped too. Only a panic skips the stop.
\<close>

lemma demo_stops_localnet:
  assumes "run_state (cmd_demo dh no_localnet) tr = (out, tr')"
  shows "\<exists>es. tr' = tr @ es \<and>
    (if no_localnet then \<forall>w. list_all (\<lambda>e. \<not> localnet_event w e) es
     else if is_Ok (fst (run_state (localnet_start dh) tr)) \<and> out \<noteq> Pending \<and> (\<forall>p. out \<noteq> Panic p)
     then \<exists>es0 r. es = es0 @ [DCommand [''localnet'', ''stop''] r] \<and> list_all (\<lambda>e. \<not> localnet_event ''stop'' e) es0
     else list_all (\<lambda>e. \<not> localnet_event ''stop'' e) es)"
proof (cases no_localnet)
  case True
  obtain r tr1 where r: "run_state (run_demo dh) tr = (r, tr1)" by fastforce
  have "tr' = tr1" using assms True r by (auto simp: cmd_demo_def run_simps split: res.splits)
  moreover obtain es where "tr1 = tr @ es" "list_all (\<lambda>e. \<not> localnet_event [] e) es"
    using emits_prefix [OF emits_run_demo r] by blast
  moreover have "list_all (\<lambda>e. \<not> localnet_event w e) es" if "tr1 = tr @ es" for w
    using emits_prefix [OF emits_run_demo [of w] r] that by auto
  ultimately show ?thesis using True by auto
next
  case False
  obtain s tr1 where s: "run_state (localnet_start dh) tr = (s, tr1)" by fastforce
  obtain e1 where e1: "tr1 = tr @ e1" "list_all (\<lambda>e. \<not> localnet_event ''stop'' e) e1"
    using emits_prefix [OF emits_localnet_start s] by blast
  show ?thesis
  proof (cases s)
    case (Ok u)
    obtain r tr2 where r: "run_state (run_demo dh) tr1 = (r, tr2)" by fastforce
    obtain e2 where e2: "tr2 = tr1 @ e2" "list_all (\<lambda>e. \<not> localnet_event ''stop'' e) e2"
      using emits_prefix [OF emits_run_demo r] by blast
    have stop: "run_state (localnet_stop dh) tr2 =
        ((), tr2 @ [DCommand [''localnet'', ''stop''] (dh_command dh tr2 [''localnet'', ''stop''])])"
      by (simp add: localnet_stop_def scaffold_command_def run_simps)
    show ?thesis
      using assms False s Ok r e1 e2 stop
      by (cases r) (auto simp: cmd_demo_def run_simps)
  qed (use assms False s e1 in \<open>auto simp: cmd_demo_def run_simps\<close>)
qed

section \<open>The infra files\<close>

text \<open>The time locks that \<open>infra\<close> writes are minutes, and the loop's check accepts them.\<close>

lemma infra_timelocks:
  "(''ETH_TIMELOCK_MINUTES'', ''15'') \<in> set (env_assignments dh p) \<and>
   (''LEZ_TIMELOCK_MINUTES'', ''5'') \<in> set (env_assignments dh p) \<and>
   parse_u128 ''15'' = Inr 15 \<and> parse_u128 ''5'' = Inr 5 \<and> validate_timelocks 5 15 5 = Ok ()"
proof -
  have "validate_timelocks 5 15 5 = Ok ()"
    by (simp add: validate_timelocks_def sat_add_def timelock_transit_slack_minutes_def)
  then show ?thesis by (simp add: env_assignments_def parse_u128_def digit_val_def)
qed

end
