(* ===== verification/Spec2Isabelle.thy ===== *)
theory Spec2Isabelle
  imports Atomic_Swap Ops_Ledger Swap_Taker Report_Command Maker_Service Mcp_Faucet Swap_Ffi Chain_Probe Swap_Demo
begin

text \<open>
  A verification library for the cross-chain atomic swap between Ethereum and the Logos execution
  zone (LEZ) in this repository.

  \<^bold>\<open>The program.\<close> A taker has ETH and wants LEZ, a maker has LEZ and wants ETH. The taker draws a
  preimage and locks ETH under its hash in the contract \<open>contracts/src/EthHTLC.sol\<close>; the maker
  sees the lock, locks LEZ under the same hash in an escrow account of the guest program
  \<open>programs/lez-htlc/methods/guest/src\<close>; the taker claims the LEZ, which reveals the preimage; the
  maker claims the ETH with it. The LEZ time lock is the shorter one, so that a maker whose swap
  fails gets its LEZ back first. The orchestrator (the crate in \<open>src/src\<close>) drives both parties over
  a LEZ client and an Ethereum client with their watchers; around the maker there is a standing
  service with a crash journal, an operations ledger, a health file, an offer publisher and a
  faucet; beside it are a report over the public chain data, a server (\<open>lez-mcp\<close>) that offers
  balance, transfer, faucet and status as tools, and the C interface (\<open>swap-ffi\<close>) through which the
  graphical client runs the same swaps, refunds and loop.

  \<^bold>\<open>The way it is modelled.\<close> On-chain code is a function from the state to a new state or an error
  (a Rust panic is its own result, \<open>Panic\<close>). Everything off chain is a program over a trace: each
  thing a program does outside itself, a request, a read of the clock, a wait, a write of a file, a
  lock, is an event, recorded with its answer, and the record \<open>env\<close> answers as a function of the
  whole history (\<open>Swap_World\<close>). A theorem for every \<open>env\<close> therefore holds whatever the chains, the
  network, the other party, the other tasks and the file system do, and in whatever order. A loop
  that need not end carries fuel; a run that uses it up ends in \<open>Pending\<close> (or \<open>None\<close>), a value of
  its own that no successful run has. Machine integers are words of their width, and \<open>+\<close> wraps as
  in a release build; saturating and checked operations are written out.

  \<^bold>\<open>The theories and the code they model.\<close>
  \<^item> \<open>Swap_Prelude\<close>: integers, results, the monads, byte codecs, shared lemmas.
  \<^item> \<open>Escrow_Codec\<close>: \<open>guest/src/lib.rs\<close>, the escrow record and its bytes. \<open>Htlc_Spec\<close>: what a
    hash-time-locked contract is, as the locale \<open>htlc_leg\<close>. \<open>Lez_Htlc_Program\<close>: \<open>guest/src/main.rs\<close>
    and the chain that runs it. \<open>Eth_Htlc_Contract\<close>: the Solidity contract, with recipients that
    re-enter it. \<open>Atomic_Swap\<close>: both chains side by side (the locale \<open>two_legs\<close>).
  \<^item> \<open>Swap_Config\<close>: \<open>src/config.rs\<close>, \<open>error.rs\<close>, \<open>swap/types.rs\<close>, \<open>swap/progress.rs\<close>,
    \<open>swap/refund.rs\<close>. \<open>Maker_Types\<close> and \<open>Mcp_Types\<close>: types that the events mention.
    \<open>Swap_World\<close>: events, the environment, what a program emits.
  \<^item> \<open>Lez_Client\<close>: \<open>src/lez/client.rs\<close>, \<open>lez/watcher.rs\<close>. \<open>Eth_Client\<close>: \<open>src/eth/client.rs\<close>,
    \<open>eth/watcher.rs\<close>. \<open>Lez_Onboard\<close>: \<open>src/lez/onboard.rs\<close>, \<open>lez/faucet.rs\<close>.
  \<^item> \<open>Swap_Maker\<close>: \<open>src/swap/maker.rs\<close>, one swap and the auto-accept loop. \<open>Swap_Taker\<close>:
    \<open>src/swap/taker.rs\<close>.
  \<^item> \<open>Bot_Journal\<close>, \<open>Bot_Reconcile\<close>: the journal and the startup recovery of \<open>src/cli/bot.rs\<close>.
    \<open>Ops_Ledger\<close>: \<open>src/ops.rs\<close>. \<open>Maker_Status\<close>, \<open>Maker_Service\<close>: the health state and file, the
    supervisor of the publisher, the top-up, and the command (\<open>src/cli/bot.rs\<close>, \<open>cli/maker.rs\<close>).
  \<^item> \<open>Swap_Cli\<close>: \<open>src/cli/mod.rs\<close>, \<open>taker.rs\<close>, \<open>refund.rs\<close>, \<open>status.rs\<close>, \<open>output.rs\<close>.
    \<open>Swap_Ffi\<close>: \<open>swap-ffi/src/lib.rs\<close>, every export with its configuration and callback.
  \<^item> \<open>Report_Tally\<close>, \<open>Report_Time\<close>, \<open>Report_Scan\<close>, \<open>Report_Command\<close>: \<open>src/eth/report.rs\<close> and
    \<open>src/cli/report.rs\<close>.
  \<^item> \<open>Mcp_Fingerprint\<close>, \<open>Mcp_Gate\<close>, \<open>Mcp_Tokens\<close>, \<open>Mcp_Scan\<close>, \<open>Mcp_Writes\<close>, \<open>Mcp_Tools\<close>,
    \<open>Mcp_Safety\<close>, \<open>Mcp_Faucet\<close>: \<open>lez-mcp/src\<close>, from its configuration to the tools and what they
    guarantee.
  \<^item> \<open>Chain_Probe\<close>: \<open>canary/chain-probe/src/main.rs\<close>, the experiment that tells whether the
    sequencer rejects a malformed transfer; it has a trace and an environment of its own.
  \<^item> \<open>Swap_Demo\<close>: \<open>src/scaffold.rs\<close>, \<open>src/demo.rs\<close>, \<open>src/cli/demo.rs\<close>, \<open>src/cli/infra.rs\<close>, the
    local demonstration, over a trace of its own too; the maker and the taker that it runs side by
    side each have theirs.

  \<^bold>\<open>What the lemmas show.\<close> Of the chains: both implement the abstract contract step by step, an
  escrow and an ETH lock settle once and to the right party, the ETH contract stays solvent under
  re-entrancy, the escrow bytes round-trip and the decoder panics exactly on the listed bytes, and
  together: once the preimage is out on one chain the other party can be paid on the other. Of the
  parties: the taker reveals only after its checks, the maker serves one backed lock, journals
  before it locks, and its claim returns within bounds with evidence. Of the service: the loop
  starts only after recovery, a journal entry is released only with evidence and survives a crash
  once recorded, the health state mirrors the loop, the supervisor tracks its child, nothing is left
  running; the client's loop starts under the same conditions, and a refund by hand (of the command
  line or the client) is shown to wait for a whole time lock anew, which is not what it is for. Of
  the report: a published count covers every block once, by corroborated answers or flagged as
  not, and equals its definition. Of the probe: its verdict fits what it has seen. Of the demo: its
  funding is bounded, its configurations fit and its localnet is stopped. Of the server: nothing is
  sent without a fresh verdict, the lock and a token for exactly these terms, each confirmation is
  of this very transaction and ends, and the status
  scan is right over reorganisations.

  \<^bold>\<open>Interfaces.\<close> \<open>htlc_leg\<close> is interpreted on the escrow account (\<open>lez\<close>) and on a swap of the
  contract (\<open>eth\<close>), \<open>two_legs\<close> on both (\<open>chains\<close>); \<open>swap_journal\<close> on the journal (\<open>store\<close>),
  \<open>ops_recorder\<close> on the ledger (\<open>ledger\<close>), \<open>preview_store\<close> on the token store (\<open>previews\<close>).

  \<^bold>\<open>Bounds and fuel.\<close> Retry counts and delays are the constants of the code. Fuel is an argument of
  every loop that waits for the outside; the safety theorems hold for every fuel, since a run
  that stops early is a prefix of the run of the code. Where the code promises to return, it is
  proved with a fuel that is given: \<open>refund_confirmed\<close> needs one round per poll interval up to its
  deadline, \<open>confirm_submitted_tx\<close> forty-nine rounds of each kind, and the ETH claim returns after at
  most six submissions. These bounds assume a clock that does not go back (\<open>clock_ok\<close>). Searches
  whose range shrinks (\<open>first_search\<close>, \<open>pow_loop\<close>, \<open>chunks_from\<close>) terminate by a measure.

  \<^bold>\<open>Parameters.\<close> SHA-256 and Keccak, the codecs of hex, base58, JSON and URLs, the zkVM and its
  account type, the sequencer, the RPC nodes, the wallet and the file system are not in the
  repository: they are fields of environments or arguments, and what a theorem needs of them is a
  hypothesis of it.

  \<^bold>\<open>Not modelled.\<close> Printing, logging, the rendering of replies as JSON or text, the schemas and
  dispatch of the MCP crate, argument parsing by clap, and the build scripts, since they carry no
  logic of their own; the interface in C++ and QML
  (\<open>swap-module\<close>, \<open>swap-ui\<close>), the offer publisher in JavaScript, the canary's shell scripts,
  deployment scripts and tests. A data race on the shared state inside one program is not modelled:
  Rust excludes it, and what other tasks write reaches a program as answers of the environment.
\<close>

end
